(* ===== verification/Serialize.thy ===== *)
theory Serialize
  imports Prelude "HOL-Library.Monad_Syntax"
begin

text \<open>
  The wire format of \<^verbatim>\<open>src/src/serialize.h\<close> (compact sizes, byte vectors, vectors of objects) and
  the transaction classes of \<^verbatim>\<open>src/src/main.h\<close> that it is applied to. Writing appends to a byte
  list; reading consumes a prefix and is \<^const>\<open>None\<close> where \<^verbatim>\<open>CDataStream::read\<close> or
  \<^verbatim>\<open>ReadCompactSize\<close> throws. The locale \<open>codec\<close> is the contract of a serializable class: what is
  written is read back, and the announced size is the number of bytes written.
\<close>

section \<open>Compact sizes and vectors\<close>

definition MAX_SIZE :: nat where
  "MAX_SIZE = 0x02000000"

definition READDATA :: "nat \<Rightarrow> byte list \<Rightarrow> (nat \<times> byte list) option" where
  "READDATA k s = (if length s < k then None else Some (le_val (take k s), drop k s))"

definition GetSizeOfCompactSize :: "nat \<Rightarrow> nat" where
  "GetSizeOfCompactSize nSize =
     (if nSize < 253 then 1
      else if nSize \<le> 0xffff then 1 + 2
      else if nSize \<le> 0xffffffff then 1 + 4
      else 1 + 8)"

definition WriteCompactSize :: "nat \<Rightarrow> byte list" where
  "WriteCompactSize nSize =
     (if nSize < 253 then le_bytes 1 nSize
      else if nSize \<le> 0xffff then le_bytes 1 253 @ le_bytes 2 nSize
      else if nSize \<le> 0xffffffff then le_bytes 1 254 @ le_bytes 4 nSize
      else le_bytes 1 255 @ le_bytes 8 nSize)"

definition ReadCompactSize :: "byte list \<Rightarrow> (nat \<times> byte list) option" where
  "ReadCompactSize is = do {
     (chSize, is) \<leftarrow> READDATA 1 is;
     (nSizeRet, is) \<leftarrow>
       (if chSize < 253 then Some (chSize, is)
        else if chSize = 253 then READDATA 2 is
        else if chSize = 254 then READDATA 4 is
        else READDATA 8 is);
     if nSizeRet > MAX_SIZE then None else Some (nSizeRet, is)
   }"

text \<open>Vectors of bytes (fundamental elements) are read in blocks of at most 5000000 bytes.\<close>

definition Serialize_bytes :: "byte list \<Rightarrow> byte list" where
  "Serialize_bytes v = WriteCompactSize (length v) @ v"

function read_blocks :: "nat \<Rightarrow> nat \<Rightarrow> byte list \<Rightarrow> byte list \<Rightarrow> (byte list \<times> byte list) option" where
  "read_blocks i nSize v is =
     (if i < nSize then
        (let blk = min (nSize - i) (1 + 4999999)
         in if length is < blk then None else read_blocks (i + blk) nSize (v @ take blk is) (drop blk is))
      else Some (v, is))"
  by pat_completeness auto
termination
  by (relation "measure (\<lambda>(i, nSize, v, is). nSize - i)") auto

declare read_blocks.simps [simp del]

definition Unserialize_bytes :: "byte list \<Rightarrow> (byte list \<times> byte list) option" where
  "Unserialize_bytes is = do { (nSize, is) \<leftarrow> ReadCompactSize is; read_blocks 0 nSize [] is }"

definition GetSerializeSize_bytes :: "byte list \<Rightarrow> nat" where
  "GetSerializeSize_bytes v = GetSizeOfCompactSize (length v) + length v"

text \<open>Vectors of objects are written and read element by element.\<close>

definition Serialize_vector :: "('a \<Rightarrow> byte list) \<Rightarrow> 'a list \<Rightarrow> byte list" where
  "Serialize_vector ser v = WriteCompactSize (length v) @ concat (map ser v)"

primrec read_elements ::
  "(byte list \<Rightarrow> ('a \<times> byte list) option) \<Rightarrow> nat \<Rightarrow> byte list \<Rightarrow> ('a list \<times> byte list) option" where
  "read_elements unser 0 is = Some ([], is)"
| "read_elements unser (Suc k) is = do {
     (x, is) \<leftarrow> unser is;
     (xs, is) \<leftarrow> read_elements unser k is;
     Some (x # xs, is)
   }"

definition Unserialize_vector ::
  "(byte list \<Rightarrow> ('a \<times> byte list) option) \<Rightarrow> byte list \<Rightarrow> ('a list \<times> byte list) option" where
  "Unserialize_vector unser is = do { (nSize, is) \<leftarrow> ReadCompactSize is; read_elements unser nSize is }"

definition GetSerializeSize_vector :: "('a \<Rightarrow> nat) \<Rightarrow> 'a list \<Rightarrow> nat" where
  "GetSerializeSize_vector sz v = GetSizeOfCompactSize (length v) + sum_list (map sz v)"

section \<open>Transactions\<close>

record COutPoint =
  prev_hash :: u256
  prev_n :: u32

record CTxIn =
  prevout :: COutPoint
  scriptSig :: valtype
  nSequence :: u32

record CTxOut =
  nValue :: int
  scriptPubKey :: valtype

record CTransaction =
  nVersion :: u32
  nTime :: u32
  vin :: "CTxIn list"
  vout :: "CTxOut list"
  nLockTime :: u32

definition Serialize_u32 :: "u32 \<Rightarrow> byte list" where
  "Serialize_u32 a = le_bytes 4 (unat a)"

definition Unserialize_u32 :: "byte list \<Rightarrow> (u32 \<times> byte list) option" where
  "Unserialize_u32 s = do { (a, s) \<leftarrow> READDATA 4 s; Some (word_of_nat a, s) }"

definition Serialize_int64 :: "int \<Rightarrow> byte list" where
  "Serialize_int64 a = le_bytes 8 (nat (a mod 2 ^ 64))"

definition Unserialize_int64 :: "byte list \<Rightarrow> (int \<times> byte list) option" where
  "Unserialize_int64 s = do { (a, s) \<leftarrow> READDATA 8 s; Some (wrap64 (int a), s) }"

definition Serialize_COutPoint :: "COutPoint \<Rightarrow> byte list" where
  "Serialize_COutPoint p = le_bytes 32 (unat (prev_hash p)) @ Serialize_u32 (prev_n p)"

definition Unserialize_COutPoint :: "byte list \<Rightarrow> (COutPoint \<times> byte list) option" where
  "Unserialize_COutPoint s = do {
     (h, s) \<leftarrow> READDATA 32 s;
     (k, s) \<leftarrow> Unserialize_u32 s;
     Some (\<lparr>prev_hash = word_of_nat h, prev_n = k\<rparr>, s)
   }"

definition Serialize_CTxIn :: "CTxIn \<Rightarrow> byte list" where
  "Serialize_CTxIn i =
     Serialize_COutPoint (prevout i) @ Serialize_bytes (scriptSig i) @ Serialize_u32 (nSequence i)"

definition Unserialize_CTxIn :: "byte list \<Rightarrow> (CTxIn \<times> byte list) option" where
  "Unserialize_CTxIn s = do {
     (p, s) \<leftarrow> Unserialize_COutPoint s;
     (sg, s) \<leftarrow> Unserialize_bytes s;
     (q, s) \<leftarrow> Unserialize_u32 s;
     Some (\<lparr>prevout = p, scriptSig = sg, nSequence = q\<rparr>, s)
   }"

definition Serialize_CTxOut :: "CTxOut \<Rightarrow> byte list" where
  "Serialize_CTxOut t = Serialize_int64 (nValue t) @ Serialize_bytes (scriptPubKey t)"

definition Unserialize_CTxOut :: "byte list \<Rightarrow> (CTxOut \<times> byte list) option" where
  "Unserialize_CTxOut s = do {
     (v, s) \<leftarrow> Unserialize_int64 s;
     (p, s) \<leftarrow> Unserialize_bytes s;
     Some (\<lparr>nValue = v, scriptPubKey = p\<rparr>, s)
   }"

definition Serialize_CTransaction :: "CTransaction \<Rightarrow> byte list" where
  "Serialize_CTransaction tx =
     Serialize_u32 (nVersion tx) @ Serialize_u32 (nTime tx) @
     Serialize_vector Serialize_CTxIn (vin tx) @ Serialize_vector Serialize_CTxOut (vout tx) @
     Serialize_u32 (nLockTime tx)"

definition Unserialize_CTransaction :: "byte list \<Rightarrow> (CTransaction \<times> byte list) option" where
  "Unserialize_CTransaction s = do {
     (ver, s) \<leftarrow> Unserialize_u32 s;
     (tim, s) \<leftarrow> Unserialize_u32 s;
     (ins, s) \<leftarrow> Unserialize_vector Unserialize_CTxIn s;
     (outs, s) \<leftarrow> Unserialize_vector Unserialize_CTxOut s;
     (lck, s) \<leftarrow> Unserialize_u32 s;
     Some (\<lparr>nVersion = ver, nTime = tim, vin = ins, vout = outs, nLockTime = lck\<rparr>, s)
   }"

definition GetSerializeSize_CTransaction :: "CTransaction \<Rightarrow> nat" where
  "GetSerializeSize_CTransaction tx =
     4 + 4 + GetSerializeSize_vector (\<lambda>i. 36 + GetSerializeSize_bytes (scriptSig i) + 4) (vin tx) +
     GetSerializeSize_vector (\<lambda>t. 8 + GetSerializeSize_bytes (scriptPubKey t)) (vout tx) + 4"

section \<open>The contract of a serializable class\<close>

locale codec =
  fixes ser :: "'a \<Rightarrow> byte list"
    and unser :: "byte list \<Rightarrow> ('a \<times> byte list) option"
    and sz :: "'a \<Rightarrow> nat"
    and wf :: "'a \<Rightarrow> bool"
  assumes unser_ser: "wf x \<Longrightarrow> unser (ser x @ rest) = Some (x, rest)"
    and sz_ser: "sz x = length (ser x)"
begin

lemma ser_inject: "wf x \<Longrightarrow> wf y \<Longrightarrow> ser x = ser y \<Longrightarrow> x = y"
  using unser_ser [of x "[]"] unser_ser [of y "[]"] by simp

lemma read_elements_concat:
  "\<forall>x\<in>set xs. wf x \<Longrightarrow> read_elements unser (length xs) (concat (map ser xs) @ rest) = Some (xs, rest)"
  by (induction xs) (simp_all add: unser_ser)

lemma sum_sz: "sum_list (map sz xs) = length (concat (map ser xs))"
  by (induction xs) (simp_all add: sz_ser)

end

section \<open>Round trips\<close>

lemma READDATA_le_bytes [simp]: "v < 256 ^ k \<Longrightarrow> READDATA k (le_bytes k v @ rest) = Some (v, rest)"
  by (simp add: READDATA_def)

lemma length_WriteCompactSize: "length (WriteCompactSize k) = GetSizeOfCompactSize k"
  by (simp add: WriteCompactSize_def GetSizeOfCompactSize_def)

lemma ReadCompactSize_Write:
  assumes "k \<le> MAX_SIZE"
  shows "ReadCompactSize (WriteCompactSize k @ rest) = Some (k, rest)"
proof -
  have k: "k \<le> 0xffffffff" using assms by (simp add: MAX_SIZE_def)
  have r1: "READDATA (Suc 0) (word_of_nat c # s) = Some (c, s)" if "c < 256" for c s
    using READDATA_le_bytes [of c 1 s] that by simp
  consider "k < 253" | "253 \<le> k" "k \<le> 0xffff" | "0xffff < k" by linarith
  then show ?thesis
  proof cases
    case 1
    with assms show ?thesis by (simp add: ReadCompactSize_def WriteCompactSize_def r1)
  next
    case 2
    with assms show ?thesis
      using r1 [of 253] by (simp add: ReadCompactSize_def WriteCompactSize_def)
  next
    case 3
    with assms k show ?thesis
      using r1 [of 254] by (simp add: ReadCompactSize_def WriteCompactSize_def)
  qed
qed

lemma ReadCompactSize_bound: "ReadCompactSize s = Some (k, r) \<Longrightarrow> k \<le> MAX_SIZE"
  by (auto simp: ReadCompactSize_def Option.bind_eq_Some_conv split: if_splits)

text \<open>Reading in blocks is reading at once.\<close>

lemma read_blocks_exact:
  "i \<le> nSize \<Longrightarrow> read_blocks i nSize v s =
     (if length s < nSize - i then None else Some (v @ take (nSize - i) s, drop (nSize - i) s))"
proof (induction i nSize v s rule: read_blocks.induct)
  case (1 i nSize v s)
  show ?case
  proof (cases "i < nSize")
    case True
    define blk where "blk = min (nSize - i) (1 + 4999999)"
    have blk: "0 < blk" "i + blk \<le> nSize" using True by (auto simp: blk_def)
    have unf: "read_blocks i nSize v s =
      (if length s < blk then None else read_blocks (i + blk) nSize (v @ take blk s) (drop blk s))"
      unfolding read_blocks.simps [of i nSize v s] Let_def blk_def by (simp only: True if_True)
    show ?thesis
    proof (cases "length s < blk")
      case short: True
      with blk show ?thesis unfolding unf by simp
    next
      case False
      have "read_blocks (i + blk) nSize (v @ take blk s) (drop blk s) =
        (if length (drop blk s) < nSize - (i + blk) then None
         else Some ((v @ take blk s) @ take (nSize - (i + blk)) (drop blk s), drop (nSize - (i + blk)) (drop blk s)))"
        using "1.IH" [OF True blk_def False] blk(2) by simp
      moreover have "take (nSize - i) s = take blk s @ take (nSize - (i + blk)) (drop blk s)"
        using blk(2) by (simp flip: take_add)
      ultimately show ?thesis
        using False blk unfolding unf by (auto simp: add.commute)
    qed
  next
    case False
    with "1.prems" show ?thesis by (subst read_blocks.simps) simp
  qed
qed

lemma Unserialize_bytes_Serialize:
  "length v \<le> MAX_SIZE \<Longrightarrow> Unserialize_bytes (Serialize_bytes v @ rest) = Some (v, rest)"
  by (simp add: Unserialize_bytes_def Serialize_bytes_def ReadCompactSize_Write read_blocks_exact)

lemma GetSerializeSize_bytes_length: "GetSerializeSize_bytes v = length (Serialize_bytes v)"
  by (simp add: GetSerializeSize_bytes_def Serialize_bytes_def length_WriteCompactSize)

lemma length_Serialize_u32 [simp]: "length (Serialize_u32 a) = 4"
  by (simp add: Serialize_u32_def)

lemma length_Serialize_int64 [simp]: "length (Serialize_int64 a) = 8"
  by (simp add: Serialize_int64_def)

lemma Unserialize_u32_Serialize [simp]: "Unserialize_u32 (Serialize_u32 a @ rest) = Some (a, rest)"
proof -
  have "unat a < 256 ^ 4" using unsigned_less [of a] by simp
  then show ?thesis by (simp add: Unserialize_u32_def Serialize_u32_def del: power_numeral_reduce)
qed

lemma wrap64_mod: "int64_range a \<Longrightarrow> wrap64 (a mod 2 ^ 64) = a"
proof -
  assume "int64_range a"
  moreover have "wrap64 (a mod 2 ^ 64) = wrap64 a"
    unfolding wrap64_def by (simp only: mod_add_left_eq)
  ultimately show ?thesis by (simp add: wrap64_id)
qed

lemma Unserialize_int64_Serialize [simp]:
  assumes "int64_range a"
  shows "Unserialize_int64 (Serialize_int64 a @ rest) = Some (a, rest)"
proof -
  have "nat (a mod 2 ^ 64) < 256 ^ 8" by (simp add: nat_less_iff)
  then have "READDATA 8 (le_bytes 8 (nat (a mod 2 ^ 64)) @ rest) = Some (nat (a mod 2 ^ 64), rest)"
    by (rule READDATA_le_bytes)
  with assms show ?thesis
    by (simp add: Unserialize_int64_def Serialize_int64_def wrap64_mod [simplified])
qed

interpretation outpoint: codec Serialize_COutPoint Unserialize_COutPoint "\<lambda>_. 36" "\<lambda>_. True"
proof
  fix p :: COutPoint and rest
  have "unat (prev_hash p) < 2 ^ 256" using unsigned_less [of "prev_hash p"] by simp
  also have "(2 :: nat) ^ 256 = 256 ^ 32" by simp
  finally have "READDATA 32 (le_bytes 32 (unat (prev_hash p)) @ s) = Some (unat (prev_hash p), s)" for s
    by (rule READDATA_le_bytes)
  then show "Unserialize_COutPoint (Serialize_COutPoint p @ rest) = Some (p, rest)"
    by (simp add: Unserialize_COutPoint_def Serialize_COutPoint_def)
qed (simp add: Serialize_COutPoint_def)

interpretation txin: codec Serialize_CTxIn Unserialize_CTxIn
  "\<lambda>i. 36 + GetSerializeSize_bytes (scriptSig i) + 4" "\<lambda>i. length (scriptSig i) \<le> MAX_SIZE"
  by unfold_locales
    (simp_all add: Serialize_CTxIn_def Unserialize_CTxIn_def outpoint.unser_ser
      Unserialize_bytes_Serialize GetSerializeSize_bytes_length flip: outpoint.sz_ser)

interpretation txout: codec Serialize_CTxOut Unserialize_CTxOut
  "\<lambda>t. 8 + GetSerializeSize_bytes (scriptPubKey t)"
  "\<lambda>t. int64_range (nValue t) \<and> length (scriptPubKey t) \<le> MAX_SIZE"
  by unfold_locales
    (auto simp: Serialize_CTxOut_def Unserialize_CTxOut_def Unserialize_bytes_Serialize
      GetSerializeSize_bytes_length)

text \<open>A transaction the wire format can carry: vectors and scripts within \<^const>\<open>MAX_SIZE\<close>.\<close>

definition wire_tx :: "CTransaction \<Rightarrow> bool" where
  "wire_tx tx \<longleftrightarrow>
     length (vin tx) \<le> MAX_SIZE \<and> length (vout tx) \<le> MAX_SIZE \<and>
     (\<forall>i\<in>set (vin tx). length (scriptSig i) \<le> MAX_SIZE) \<and>
     (\<forall>t\<in>set (vout tx). int64_range (nValue t) \<and> length (scriptPubKey t) \<le> MAX_SIZE)"

interpretation tx: codec Serialize_CTransaction Unserialize_CTransaction
  GetSerializeSize_CTransaction wire_tx
proof
  fix tx :: CTransaction and rest
  assume wf: "wire_tx tx"
  have ins: "Unserialize_vector Unserialize_CTxIn (Serialize_vector Serialize_CTxIn (vin tx) @ s) = Some (vin tx, s)" for s
    using wf by (simp add: wire_tx_def Unserialize_vector_def Serialize_vector_def
        ReadCompactSize_Write txin.read_elements_concat)
  have outs: "Unserialize_vector Unserialize_CTxOut (Serialize_vector Serialize_CTxOut (vout tx) @ s) = Some (vout tx, s)" for s
    using wf by (simp add: wire_tx_def Unserialize_vector_def Serialize_vector_def
        ReadCompactSize_Write txout.read_elements_concat)
  show "Unserialize_CTransaction (Serialize_CTransaction tx @ rest) = Some (tx, rest)"
    by (simp add: Unserialize_CTransaction_def Serialize_CTransaction_def ins outs)
next
  fix tx :: CTransaction
  show "GetSerializeSize_CTransaction tx = length (Serialize_CTransaction tx)"
    unfolding GetSerializeSize_CTransaction_def GetSerializeSize_vector_def txin.sum_sz txout.sum_sz
    by (simp add: Serialize_CTransaction_def Serialize_vector_def length_WriteCompactSize)
qed

text \<open>C24: Reading back a serialized transaction, followed by any bytes, returns the transaction and
  leaves exactly those bytes; and the size computed without serializing is the length of the
  serialization. The hypothesis holds of every transaction whose vectors are within the 32 MB
  limit of the reader and whose values are 64-bit.\<close>

theorem Unserialize_Serialize_CTransaction:
  assumes "wire_tx t"
  shows "Unserialize_CTransaction (Serialize_CTransaction t @ rest) = Some (t, rest) \<and>
    GetSerializeSize_CTransaction t = length (Serialize_CTransaction t)"
  using tx.unser_ser [OF assms] tx.sz_ser by simp

theorem Unserialize_Serialize_CTransaction_witness:
  "Unserialize_CTransaction (Serialize_CTransaction
     \<lparr>nVersion = 1, nTime = 7, vin = [\<lparr>prevout = \<lparr>prev_hash = 5, prev_n = 2\<rparr>, scriptSig = [1, 2], nSequence = 9\<rparr>],
      vout = [\<lparr>nValue = - 3, scriptPubKey = [0xac]\<rparr>], nLockTime = 4\<rparr> @ [1]) =
   Some (\<lparr>nVersion = 1, nTime = 7, vin = [\<lparr>prevout = \<lparr>prev_hash = 5, prev_n = 2\<rparr>, scriptSig = [1, 2], nSequence = 9\<rparr>],
      vout = [\<lparr>nValue = - 3, scriptPubKey = [0xac]\<rparr>], nLockTime = 4\<rparr>, [1])"
  using Unserialize_Serialize_CTransaction [of "\<lparr>nVersion = 1, nTime = 7,
      vin = [\<lparr>prevout = \<lparr>prev_hash = 5, prev_n = 2\<rparr>, scriptSig = [1, 2], nSequence = 9\<rparr>],
      vout = [\<lparr>nValue = - 3, scriptPubKey = [0xac]\<rparr>], nLockTime = 4\<rparr>" "[1]"]
  by (simp add: wire_tx_def MAX_SIZE_def int64_range_def)

text \<open>A compact size up to the reader's limit is read back, and a size the reader returns is never
  above that limit.\<close>

theorem CompactSize_roundtrip:
  "(k \<le> MAX_SIZE \<longrightarrow> ReadCompactSize (WriteCompactSize k @ rest) = Some (k, rest)) \<and>
   (case ReadCompactSize s of None \<Rightarrow> True | Some (n, r) \<Rightarrow> n \<le> MAX_SIZE)"
  by (auto simp: ReadCompactSize_Write split: option.split dest: ReadCompactSize_bound)

theorem CompactSize_roundtrip_witness:
  "ReadCompactSize (WriteCompactSize 300 @ [7]) = Some (300, [7])"
  using CompactSize_roundtrip [of 300 "[7]" "[]"] by (simp add: MAX_SIZE_def)

end
