(* ===== verification/Environment.thy ===== *)
theory Environment
  imports Prelude
begin

unbundle bit_operations_syntax

text \<open>
  What the program calls but the repository does not contain, gathered in one record that every
  definition using it takes as an argument: OpenSSL's big-number import and export
  (\<^verbatim>\<open>BN_bn2mpi\<close>, \<^verbatim>\<open>BN_mpi2bn\<close>, \<^verbatim>\<open>BN_get_word\<close>), its digests, its public-key parsing and ECDSA
  verification, the \<open>n\<close>-th 32-byte draw from its random generator (\<^verbatim>\<open>RAND_bytes\<close>, as
  \<^verbatim>\<open>GetRandHash\<close> in \<^verbatim>\<open>src/src/util.cpp\<close> uses it), and the command-line setting
  \<^verbatim>\<open>-maxsigcachesize\<close>. A \<^verbatim>\<open>BIGNUM\<close> is an arbitrary-precision integer and is an \<^typ>\<open>int\<close>; digests
  return their fixed-size memory image read as a little-endian number, which is how the program
  stores them in \<^verbatim>\<open>uint256\<close> and \<^verbatim>\<open>uint160\<close> objects.

  \<open>bn_doc\<close> states the documented behaviour of the conversion routines. Properties that rely on it
  carry it as a hypothesis; \<open>ref_env\<close> is a concrete record that satisfies it.
\<close>

record env =
  BN_bn2mpi :: "int \<Rightarrow> byte list"
  BN_mpi2bn :: "byte list \<Rightarrow> int option"
  BN_get_word :: "int \<Rightarrow> u64"
  SHA256_digest :: "byte list \<Rightarrow> u256"
  SHA1_digest :: "byte list \<Rightarrow> u160"
  RIPEMD160_digest :: "byte list \<Rightarrow> u160"
  o2i_ECPublicKey :: "byte list \<Rightarrow> bool"
  ECDSA_verify :: "byte list \<Rightarrow> u256 \<Rightarrow> byte list \<Rightarrow> bool"
  RAND_hash :: "nat \<Rightarrow> u256"
  arg_maxsigcachesize :: int
  i2o_ECPublicKey :: "byte list \<Rightarrow> bool \<Rightarrow> byte list"
  ECDSA_do_sign :: "byte list \<Rightarrow> u256 \<Rightarrow> (int \<times> int) option"
  EC_order :: int
  i2d_ECDSA_SIG :: "int \<times> int \<Rightarrow> byte list"

section \<open>The documented multi-precision integer format\<close>

text \<open>
  The manual page of \<^verbatim>\<open>BN_bn2mpi\<close>: the number's length in bytes as a 4-byte big-endian number,
  then the number in big-endian format, where the most significant bit signals a negative number
  and a number with that bit set is prefixed with a null byte. The little-endian variants below
  are the same bytes in the opposite order.
\<close>

fun num_le :: "nat \<Rightarrow> byte list" where
  "num_le n = (if n = 0 then [] else word_of_nat (n mod 256) # num_le (n div 256))"

declare num_le.simps [simp del]

definition sign_le :: "bool \<Rightarrow> byte list \<Rightarrow> byte list" where
  "sign_le neg m =
     (if m = [] then []
      else if 128 \<le> unat (last m) then m @ [if neg then 128 else 0]
      else if neg then butlast m @ [last m OR 128]
      else m)"

definition vch_of_int :: "int \<Rightarrow> byte list" where
  "vch_of_int v = sign_le (v < 0) (num_le (nat \<bar>v\<bar>))"

definition int_of_vch :: "byte list \<Rightarrow> int" where
  "int_of_vch d =
     (if d = [] then 0
      else if 128 \<le> unat (last d) then - int (le_val (butlast d @ [last d AND 127]))
      else int (le_val d))"

definition mpi_of_int :: "int \<Rightarrow> byte list" where
  "mpi_of_int v = (let d = vch_of_int v in be4 (length d) @ rev d)"

definition int_of_mpi :: "byte list \<Rightarrow> int option" where
  "int_of_mpi bs =
     (let d = drop 4 bs
      in if length bs < 4 \<or> le_val (rev (take 4 bs)) \<noteq> length d then None
         else Some (int_of_vch (rev d)))"

definition word_of_bn :: "int \<Rightarrow> u64" where
  "word_of_bn v = (if \<bar>v\<bar> < 2 ^ 64 then word_of_int \<bar>v\<bar> else - 1)"

definition bn_doc :: "env \<Rightarrow> bool" where
  "bn_doc E \<longleftrightarrow>
     (\<forall>v. length (vch_of_int v) < 2 ^ 31 \<longrightarrow> BN_bn2mpi E v = mpi_of_int v) \<and>
     (\<forall>d. length d < 2 ^ 31 \<longrightarrow> BN_mpi2bn E (be4 (length d) @ d) = Some (int_of_vch (rev d))) \<and>
     (\<forall>v. BN_get_word E v = word_of_bn v)"

definition ref_env :: env where
  "ref_env =
     \<lparr>BN_bn2mpi = mpi_of_int, BN_mpi2bn = int_of_mpi, BN_get_word = word_of_bn,
      SHA256_digest = (\<lambda>bs. word_of_nat (le_val bs + length bs)),
      SHA1_digest = (\<lambda>bs. word_of_nat (le_val bs + 2 * length bs)),
      RIPEMD160_digest = (\<lambda>bs. word_of_nat (le_val bs + 3 * length bs)),
      o2i_ECPublicKey = (\<lambda>bs. length bs = 33 \<or> length bs = 65),
      ECDSA_verify = (\<lambda>k h s. True),
      RAND_hash = (\<lambda>n. word_of_nat n),
      arg_maxsigcachesize = 50000,
      i2o_ECPublicKey = (\<lambda>secret fCompressed. if fCompressed then 2 # take 32 secret else 4 # secret @ secret),
      ECDSA_do_sign = (\<lambda>secret h. Some (1, 1)),
      EC_order = 0xFFFFFFFFFFFFFFFFFFFFFFFFFFFFFFFEBAAEDCE6AF48A03BBFD25E8CD0364141,
      i2d_ECDSA_SIG = (\<lambda>rs. [0x30, 6, 2, 1, 1, 2, 1, 1])\<rparr>"

section \<open>Round trip of the format\<close>

lemma num_le_0 [simp]: "num_le 0 = []"
  by (simp add: num_le.simps)

lemma num_le_pos: "0 < n \<Longrightarrow> num_le n = word_of_nat (n mod 256) # num_le (n div 256)"
  by (simp add: num_le.simps)

lemma num_le_Nil [simp]: "num_le n = [] \<longleftrightarrow> n = 0"
  by (simp add: num_le.simps)

lemma le_val_num_le [simp]: "le_val (num_le n) = n"
proof (induction n rule: num_le.induct)
  case (1 n)
  show ?case
  proof (cases "n = 0")
    case False
    then have "num_le n = word_of_nat (n mod 256) # num_le (n div 256)" by (simp add: num_le_pos)
    moreover have "unat (word_of_nat (n mod 256) :: byte) = n mod 256" by (simp add: byte_simps)
    moreover have "le_val (num_le (n div 256)) = n div 256" using 1 False by blast
    ultimately show ?thesis by simp
  qed simp
qed

lemma last_num_le: "0 < n \<Longrightarrow> 0 < unat (last (num_le n))"
proof (induction n rule: num_le.induct)
  case (1 n)
  show ?case
  proof (cases "n div 256 = 0")
    case True
    with "1.prems" show ?thesis by (simp add: num_le_pos [OF "1.prems"] byte_simps)
  next
    case False
    with 1 show ?thesis by (simp add: num_le_pos [OF "1.prems"])
  qed
qed

lemma length_num_le: "length (num_le n) \<le> k \<longleftrightarrow> n < 256 ^ k"
proof (induction k arbitrary: n)
  case (Suc k)
  show ?case
  proof (cases "n = 0")
    case False
    then have "length (num_le n) \<le> Suc k \<longleftrightarrow> n div 256 < 256 ^ k"
      using Suc [of "n div 256"] by (simp add: num_le_pos)
    also have "\<dots> \<longleftrightarrow> n < 256 ^ Suc k"
      by (simp add: div_less_iff_less_mult mult.commute)
    finally show ?thesis .
  qed simp
qed simp

lemma num_le_le_val: "bs = [] \<or> last bs \<noteq> 0 \<Longrightarrow> num_le (le_val bs) = bs"
proof (induction bs)
  case (Cons b bs)
  have b: "(unat b + 256 * le_val bs) mod 256 = unat b" "(unat b + 256 * le_val bs) div 256 = le_val bs"
    using unat_byte_bound [of b] by simp_all
  show ?case
  proof (cases "bs = []")
    case True
    with Cons.prems show ?thesis by (simp add: num_le_pos unat_gt_0)
  next
    case False
    with Cons have IH: "num_le (le_val bs) = bs" by simp
    then have "0 < le_val bs" using False by (metis gr0I num_le_Nil)
    then show ?thesis using b IH by (simp add: num_le_pos)
  qed
qed simp

lemma byte_high_bit_table:
  "\<forall>n\<in>set [0..<128]. unat (word_of_nat n OR 128 :: byte) = n + 128 \<and>
     (word_of_nat n OR 128 :: byte) AND 127 = word_of_nat n"
  by code_simp

lemma byte_set_high_bit:
  fixes b :: byte
  assumes "unat b < 128"
  shows "unat (b OR 128) = unat b + 128" and "(b OR 128) AND 127 = b"
  using byte_high_bit_table [THEN bspec, of "unat b"] assms by simp_all

lemma int_of_sign_le:
  assumes "m = [] \<or> last m \<noteq> 0"
  shows "int_of_vch (sign_le neg m) = (if neg then - int (le_val m) else int (le_val m))"
proof (cases "m = []")
  case False
  then have m: "m = butlast m @ [last m]" by simp
  have v: "le_val m = le_val (butlast m) + 256 ^ length (butlast m) * unat (last m)"
    by (subst m, subst le_val_append) simp
  show ?thesis
  proof (cases "128 \<le> unat (last m)")
    case True
    with False show ?thesis
      by (auto simp: sign_le_def int_of_vch_def le_val_append)
  next
    case hi: False
    then have "unat (last m OR 128) = unat (last m) + 128" "(last m OR 128) AND 127 = last m"
      by (simp_all add: byte_set_high_bit)
    with False hi v show ?thesis
      by (auto simp: sign_le_def int_of_vch_def le_val_append)
  qed
qed (simp add: sign_le_def int_of_vch_def)

lemma int_of_vch_of_int [simp]: "int_of_vch (vch_of_int v) = v"
proof -
  have "num_le (nat \<bar>v\<bar>) = [] \<or> last (num_le (nat \<bar>v\<bar>)) \<noteq> 0"
    using last_num_le [of "nat \<bar>v\<bar>"] by (auto simp: unat_gt_0)
  then show ?thesis
    unfolding vch_of_int_def by (simp add: int_of_sign_le)
qed

lemma vch_of_int_0 [simp]: "vch_of_int 0 = []"
  by (simp add: vch_of_int_def sign_le_def)

lemma vch_of_int_Nil [simp]: "vch_of_int v = [] \<longleftrightarrow> v = 0"
  by (auto simp: vch_of_int_def sign_le_def)

lemma vch_of_int_inject [simp]: "vch_of_int v = vch_of_int w \<longleftrightarrow> v = w"
  by (metis int_of_vch_of_int)

lemma length_sign_le: "m \<noteq> [] \<Longrightarrow>
    length (sign_le neg m) = length m + (if 128 \<le> unat (last m) then 1 else 0)"
  by (simp add: sign_le_def)

lemma byte_carry_bound: "u < 256 \<Longrightarrow> 2 * l + 2 \<le> p \<Longrightarrow> 2 * (u + 256 * l) < 256 * (p::nat)"
  by presburger

lemma le_val_last_bound: "m \<noteq> [] \<Longrightarrow> unat (last m) < 128 \<Longrightarrow> 2 * le_val m < 256 ^ length m"
proof (induction m)
  case (Cons b m)
  show ?case
  proof (cases "m = []")
    case False
    with Cons have "2 * le_val m < 256 ^ length m" by simp
    then have "2 * le_val m + 1 \<le> 256 ^ length m" by simp
    moreover have "even (256 ^ length m :: nat)" using False by simp
    ultimately have "2 * le_val m + 2 \<le> 256 ^ length m" by presburger
    then have "2 * (unat b + 256 * le_val m) < 256 * 256 ^ length m"
      by (rule byte_carry_bound [OF unat_byte_bound])
    then show ?thesis by simp
  qed (use Cons in simp)
qed simp

lemma last_bound_le_val: "m \<noteq> [] \<Longrightarrow> 128 \<le> unat (last m) \<Longrightarrow> 256 ^ length m \<le> 2 * le_val m"
  by (induction m) (auto split: if_splits)

text \<open>A signed value of at most \<open>k\<close> bytes occupies at most \<open>k\<close> bytes, and conversely.\<close>

lemma length_vch_of_int: "0 < k \<Longrightarrow> length (vch_of_int v) \<le> k \<longleftrightarrow> 2 * nat \<bar>v\<bar> < 256 ^ k"
proof -
  assume k: "0 < k"
  define m where "m = num_le (nat \<bar>v\<bar>)"
  have v: "le_val m = nat \<bar>v\<bar>" by (simp add: m_def)
  show ?thesis
  proof (cases "m = []")
    case True
    with k show ?thesis by (simp add: vch_of_int_def sign_le_def m_def)
  next
    case False
    have len: "length (vch_of_int v) = length m + (if 128 \<le> unat (last m) then 1 else 0)"
      using False by (simp add: vch_of_int_def length_sign_le flip: m_def)
    have mk: "length m \<le> k \<longleftrightarrow> nat \<bar>v\<bar> < 256 ^ k" for k by (simp add: m_def length_num_le)
    show ?thesis
    proof (cases "128 \<le> unat (last m)")
      case True
      have lo: "256 ^ length m \<le> 2 * nat \<bar>v\<bar>" using last_bound_le_val [OF False True] v by simp
      have hi: "nat \<bar>v\<bar> < 256 ^ length m" using mk [of "length m"] by simp
      have "length m < k \<longleftrightarrow> 2 * nat \<bar>v\<bar> < 256 ^ k"
      proof
        assume "length m < k"
        then have "(256::nat) ^ Suc (length m) \<le> 256 ^ k" by (intro power_increasing) simp_all
        with hi show "2 * nat \<bar>v\<bar> < 256 ^ k" unfolding power_Suc by linarith
      next
        assume "2 * nat \<bar>v\<bar> < 256 ^ k"
        with lo have "(256::nat) ^ length m < 256 ^ k" by (rule le_less_trans)
        then show "length m < k" by simp
      qed
      with True len show ?thesis by auto
    next
      case hi: False
      have up: "2 * nat \<bar>v\<bar> < 256 ^ length m" using le_val_last_bound [OF False] hi v by simp
      have "length m \<le> k \<longleftrightarrow> 2 * nat \<bar>v\<bar> < 256 ^ k"
      proof
        assume "length m \<le> k"
        then have "(256::nat) ^ length m \<le> 256 ^ k" by (intro power_increasing) simp_all
        with up show "2 * nat \<bar>v\<bar> < 256 ^ k" by linarith
      next
        assume "2 * nat \<bar>v\<bar> < 256 ^ k"
        then have "nat \<bar>v\<bar> < 256 ^ k" by linarith
        then show "length m \<le> k" by (simp add: mk)
      qed
      with hi len show ?thesis by simp
    qed
  qed
qed

section \<open>The reference record meets the documentation\<close>

lemma int_of_mpi_be4: "length d < 2 ^ 31 \<Longrightarrow> int_of_mpi (be4 (length d) @ d) = Some (int_of_vch (rev d))"
proof -
  assume len: "length d < 2 ^ 31"
  have "(2 ^ 31 :: nat) \<le> 256 ^ 4" by simp
  with len have "length d < 256 ^ 4" by linarith
  then have "le_val (le_bytes 4 (length d)) = length d" by (rule le_val_le_bytes)
  then show ?thesis by (simp add: int_of_mpi_def be4_def)
qed

lemma bn_doc_ref_env [simp]: "bn_doc ref_env"
  unfolding bn_doc_def by (simp add: ref_env_def int_of_mpi_be4)

end
