(* ===== verification/Bignum.thy ===== *)
theory Bignum
  imports Environment
begin

unbundle bit_operations_syntax

text \<open>
  The class \<^verbatim>\<open>CBigNum\<close> of \<^verbatim>\<open>src/src/bignum.h\<close>: conversions between big numbers and machine
  integers, byte vectors and the compact target encoding. A \<^verbatim>\<open>CBigNum\<close> is an \<^typ>\<open>int\<close>; each setter
  takes the previous value of the object, which OpenSSL leaves in place when an import fails.
\<close>

section \<open>Definitions\<close>

text \<open>
  The digit loop that \<^verbatim>\<open>setint64\<close>, \<^verbatim>\<open>setuint64\<close> and \<^verbatim>\<open>setuint256\<close> share: leading zero bytes are
  skipped, and the first digit written carries the sign.
\<close>

fun mpi_digits :: "bool \<Rightarrow> bool \<Rightarrow> byte list \<Rightarrow> byte list" where
  "mpi_digits fNegative fLeadingZeroes [] = []"
| "mpi_digits fNegative fLeadingZeroes (c # cs) =
     (if fLeadingZeroes then
        (if c = 0 then mpi_digits fNegative True cs
         else if c AND 0x80 \<noteq> 0 then (if fNegative then 0x80 else 0) # c # mpi_digits fNegative False cs
         else (if fNegative then c OR 0x80 else c) # mpi_digits fNegative False cs)
      else c # mpi_digits fNegative False cs)"

fun shift_bytes :: "nat \<Rightarrow> u64 \<Rightarrow> byte list" where
  "shift_bytes 0 n = []"
| "shift_bytes (Suc i) n = ucast (drop_bit 56 n) # shift_bytes i (push_bit 8 n)"

definition BN_set_mpi :: "env \<Rightarrow> int \<Rightarrow> byte list \<Rightarrow> int" where
  "BN_set_mpi E old pch = (case BN_mpi2bn E pch of None \<Rightarrow> old | Some v \<Rightarrow> v)"

definition setint64 :: "env \<Rightarrow> int \<Rightarrow> int \<Rightarrow> int" where
  "setint64 E old sn =
     (let fNegative = sn < 0;
          n = (if fNegative then word_of_int (- (sn + 1)) + 1 else word_of_int sn) :: u64;
          ds = mpi_digits fNegative True (shift_bytes 8 n)
      in BN_set_mpi E old (be4 (length ds) @ ds))"

definition setuint64 :: "env \<Rightarrow> int \<Rightarrow> u64 \<Rightarrow> int" where
  "setuint64 E old n =
     (let ds = mpi_digits False True (shift_bytes 8 n) in BN_set_mpi E old (be4 (length ds) @ ds))"

definition setuint256 :: "env \<Rightarrow> int \<Rightarrow> u256 \<Rightarrow> int" where
  "setuint256 E old n =
     (let ds = mpi_digits False True (rev (le_bytes 32 (unat n))) in BN_set_mpi E old (be4 (length ds) @ ds))"

definition CBigNum_int :: "env \<Rightarrow> int \<Rightarrow> int" where
  "CBigNum_int E n = (if n \<ge> 0 then n else setint64 E 0 n)"

definition getint :: "env \<Rightarrow> int \<Rightarrow> int" where
  "getint E v =
     (let n = uint (BN_get_word E v)
      in if \<not> v < 0 then (if n > 2147483647 then 2147483647 else n)
         else (if n > 2147483647 then - 2147483648 else - n))"

definition getulong :: "env \<Rightarrow> int \<Rightarrow> u64" where
  "getulong E v = BN_get_word E v"

definition getuint256 :: "env \<Rightarrow> int \<Rightarrow> u256" where
  "getuint256 E v =
     (let vch = BN_bn2mpi E v
      in if length vch < 4 then 0
         else (let vch' = (if length vch > 4 then vch[4 := vch ! 4 AND 0x7f] else vch)
               in word_of_nat (le_val (take 32 (rev (drop 4 vch'))))))"

definition getuint64 :: "env \<Rightarrow> int \<Rightarrow> u64" where
  "getuint64 E v =
     (let vch = BN_bn2mpi E v
      in if length vch < 4 then 0
         else (let vch' = (if length vch > 4 then vch[4 := vch ! 4 AND 0x7f] else vch)
               in word_of_nat (le_val (take 8 (rev (drop 4 vch'))))))"

definition setvch :: "env \<Rightarrow> int \<Rightarrow> valtype \<Rightarrow> int" where
  "setvch E old vch = BN_set_mpi E old (be4 (length vch) @ rev vch)"

definition getvch :: "env \<Rightarrow> int \<Rightarrow> valtype" where
  "getvch E v =
     (let vch = BN_bn2mpi E v in if length vch \<le> 4 then [] else rev (drop 4 vch))"

definition SetCompact :: "env \<Rightarrow> int \<Rightarrow> u32 \<Rightarrow> int" where
  "SetCompact E old nCompact =
     (let nSize = unat (drop_bit 24 nCompact);
          digits = [ucast (drop_bit 16 nCompact), ucast (drop_bit 8 nCompact), ucast nCompact];
          vch = [0, 0, 0, word_of_nat nSize] @ take nSize (digits @ replicate nSize 0)
      in BN_set_mpi E old vch)"

definition GetCompact :: "env \<Rightarrow> int \<Rightarrow> u32" where
  "GetCompact E v =
     (let vch = BN_bn2mpi E v; nSize = length vch - 4;
          c0 = push_bit 24 (word_of_nat nSize) :: u32;
          c1 = (if nSize \<ge> 1 then c0 OR push_bit 16 (ucast (vch ! 4)) else c0);
          c2 = (if nSize \<ge> 2 then c1 OR push_bit 8 (ucast (vch ! 5)) else c1)
      in if nSize \<ge> 3 then c2 OR ucast (vch ! 6) else c2)"

text \<open>Shifts and divisions: \<^verbatim>\<open>operator>>=\<close> tests \<^verbatim>\<open>2^shift\<close> against the number before it shifts.\<close>

definition CBigNum_shr :: "int \<Rightarrow> nat \<Rightarrow> int" where
  "CBigNum_shr v n = (if 2 ^ n > v then 0 else v div 2 ^ n)"

definition CBigNum_shl :: "int \<Rightarrow> nat \<Rightarrow> int" where
  "CBigNum_shl v n = v * 2 ^ n"

definition CBigNum_div :: "int \<Rightarrow> int \<Rightarrow> int option" where
  "CBigNum_div a b = (if b = 0 then None else Some (sgn a * sgn b * (\<bar>a\<bar> div \<bar>b\<bar>)))"

section \<open>Under the documented behaviour of OpenSSL\<close>

lemma bn_docD:
  assumes "bn_doc E"
  shows "length (vch_of_int v) < 2 ^ 31 \<Longrightarrow> BN_bn2mpi E v = mpi_of_int v"
    and "length d < 2 ^ 31 \<Longrightarrow> BN_mpi2bn E (be4 (length d) @ d) = Some (int_of_vch (rev d))"
    and "BN_get_word E v = word_of_bn v"
  using assms unfolding bn_doc_def by blast+

lemma BN_set_mpi_be4:
  "bn_doc E \<Longrightarrow> length d < 2 ^ 31 \<Longrightarrow> BN_set_mpi E old (be4 (length d) @ d) = int_of_vch (rev d)"
  by (simp add: BN_set_mpi_def bn_docD)

lemma getvch_doc: "bn_doc E \<Longrightarrow> length (vch_of_int v) < 2 ^ 31 \<Longrightarrow> getvch E v = vch_of_int v"
  by (simp add: getvch_def bn_docD mpi_of_int_def Let_def)

lemma setvch_doc: "bn_doc E \<Longrightarrow> length vch < 2 ^ 31 \<Longrightarrow> setvch E old vch = int_of_vch vch"
  using BN_set_mpi_be4 [of E "rev vch" old] by (simp add: setvch_def)

lemma length_shift_bytes [simp]: "length (shift_bytes k n) = k"
  by (induction k arbitrary: n) simp_all

lemma nth_shift_bytes: "i < k \<Longrightarrow> shift_bytes k n ! i = ucast (drop_bit 56 (push_bit (8 * i) n))"
proof (induction k arbitrary: n i)
  case (Suc k)
  then show ?case by (cases i) (simp_all add: add.commute)
qed simp

lemma byte_of_shifted:
  fixes n :: u64
  assumes "k \<le> 56"
  shows "(ucast (drop_bit 56 (push_bit k n)) :: byte) = word_of_nat ((unat n div 2 ^ (56 - k)) mod 256)"
proof (rule bit_word_eqI)
  fix i assume "i < LENGTH(8)"
  then have i: "i < 8" by simp
  have "bit (word_of_nat ((unat n div 2 ^ (56 - k)) mod 256) :: byte) i \<longleftrightarrow> bit n (56 - k + i)"
    using i by (simp add: bit_simps flip: drop_bit_eq_div take_bit_eq_mod [of 8, simplified])
  moreover have "bit (ucast (drop_bit 56 (push_bit k n)) :: byte) i \<longleftrightarrow> bit n (56 - k + i)"
    using i assms by (auto simp: bit_simps)
  ultimately show "bit (ucast (drop_bit 56 (push_bit k n)) :: byte) i \<longleftrightarrow>
      bit (word_of_nat ((unat n div 2 ^ (56 - k)) mod 256) :: byte) i"
    by simp
qed

lemma shift_bytes_8: "shift_bytes 8 n = rev (le_bytes 8 (unat n))"
proof (rule nth_equalityI)
  fix i assume "i < length (shift_bytes 8 n)"
  then have i: "i < 8" by simp
  have "(256::nat) ^ (7 - i) = (2 ^ 8) ^ (7 - i)" by simp
  also have "\<dots> = 2 ^ (56 - 8 * i)"
    by (subst power_mult [symmetric]) (simp add: right_diff_distrib')
  finally have p: "(256::nat) ^ (7 - i) = 2 ^ (56 - 8 * i)" .
  have "rev (le_bytes 8 (unat n)) ! i = le_bytes 8 (unat n) ! (7 - i)"
    using i by (simp add: rev_nth)
  also have "\<dots> = word_of_nat (unat n div 2 ^ (56 - 8 * i) mod 256)"
    using i by (simp add: nth_le_bytes p)
  finally show "shift_bytes 8 n ! i = rev (le_bytes 8 (unat n)) ! i"
    using i by (simp add: nth_shift_bytes byte_of_shifted)
qed simp

text \<open>The digit loop produces the documented digits of the number it is given.\<close>

lemma byte_and_high: "(c :: byte) AND 0x80 \<noteq> 0 \<longleftrightarrow> 128 \<le> unat c"
proof -
  have "\<forall>n\<in>set [0..<256]. ((word_of_nat n :: byte) AND 0x80 \<noteq> 0) = (128 \<le> n)" by code_simp
  from bspec [OF this, of "unat c"] show ?thesis by simp
qed

lemma mpi_digits_False: "mpi_digits neg False cs = cs"
  by (induction cs) simp_all

lemma mpi_digits_sign_le: "mpi_digits neg True cs = rev (sign_le neg (num_le (le_val (rev cs))))"
proof (induction cs)
  case (Cons c cs)
  show ?case
  proof (cases "c = 0")
    case True
    with Cons show ?thesis by (simp add: le_val_append)
  next
    case False
    then have "num_le (le_val (rev cs @ [c])) = rev cs @ [c]" by (intro num_le_le_val) simp
    with False show ?thesis
      by (auto simp: sign_le_def byte_and_high mpi_digits_False)
  qed
qed (simp add: sign_le_def)

lemma length_mpi_digits: "length (mpi_digits neg lead cs) \<le> Suc (length cs)"
proof (induction cs arbitrary: lead)
  case (Cons c cs)
  from Cons [of True] show ?case by (simp add: mpi_digits_False)
qed simp

lemma BN_set_mpi_digits:
  assumes "bn_doc E" and "length cs < 2 ^ 30"
  shows "BN_set_mpi E old (be4 (length (mpi_digits neg True cs)) @ mpi_digits neg True cs) =
    (if neg then - int (le_val (rev cs)) else int (le_val (rev cs)))"
proof -
  have "length (mpi_digits neg True cs) < 2 ^ 31"
    using assms(2) length_mpi_digits [of neg True cs] by simp
  moreover have "num_le m = [] \<or> last (num_le m) \<noteq> 0" for m
    using last_num_le [of m] by (auto simp: unat_gt_0)
  then have "int_of_vch (sign_le neg (num_le m)) = (if neg then - int m else int m)" for m
    by (simp add: int_of_sign_le)
  ultimately show ?thesis
    using assms(1) by (subst BN_set_mpi_be4) (simp_all add: mpi_digits_sign_le)
qed

lemma setint64_doc:
  assumes "bn_doc E" and "int64_range sn"
  shows "setint64 E old sn = sn"
proof -
  define n where "n = (if sn < 0 then word_of_int (- (sn + 1)) + 1 else word_of_int sn :: u64)"
  have "n = word_of_int \<bar>sn\<bar>"
    by (simp add: n_def)
  moreover have "\<bar>sn\<bar> < 2 ^ 64"
    using assms(2) by (auto simp: int64_range_def)
  ultimately have "unat n = nat \<bar>sn\<bar>"
    by (simp add: unat_eq_nat_uint uint_word_of_int)
  moreover have "nat \<bar>sn\<bar> < 256 ^ 8"
    using \<open>\<bar>sn\<bar> < 2 ^ 64\<close> by simp
  ultimately have "le_val (rev (shift_bytes 8 n)) = nat \<bar>sn\<bar>"
    unfolding shift_bytes_8 rev_rev_ident by (simp only: le_val_le_bytes)
  with assms(1) show ?thesis
    unfolding setint64_def Let_def n_def [symmetric] by (subst BN_set_mpi_digits) simp_all
qed

lemma setuint64_doc:
  assumes "bn_doc E"
  shows "setuint64 E old n = uint n"
proof -
  have "unat n < 256 ^ 8" using unsigned_less [of n] by simp
  then have "le_val (rev (shift_bytes 8 n)) = unat n"
    unfolding shift_bytes_8 rev_rev_ident by (simp only: le_val_le_bytes)
  with assms show ?thesis
    unfolding setuint64_def Let_def by (subst BN_set_mpi_digits) simp_all
qed

lemma setuint256_doc:
  assumes "bn_doc E"
  shows "setuint256 E old n = uint n"
proof -
  have "unat n < 2 ^ 256" using unsigned_less [of n] by simp
  also have "(2::nat) ^ 256 = 256 ^ 32" by simp
  finally have "le_val (rev (rev (le_bytes 32 (unat n)))) = unat n"
    unfolding rev_rev_ident by (simp only: le_val_le_bytes)
  with assms show ?thesis
    unfolding setuint256_def Let_def by (subst BN_set_mpi_digits) simp_all
qed

lemma CBigNum_int_doc: "bn_doc E \<Longrightarrow> int64_range n \<Longrightarrow> CBigNum_int E n = n"
  by (simp add: CBigNum_int_def setint64_doc)

lemma getint_doc:
  assumes "bn_doc E" and "- (2 ^ 31) < v" and "v < 2 ^ 31"
  shows "getint E v = v"
proof -
  have "\<bar>v\<bar> < 2 ^ 64" using assms(2,3) by simp
  then have "uint (word_of_int \<bar>v\<bar> :: u64) = \<bar>v\<bar>" by (simp add: uint_word_of_int)
  with assms \<open>\<bar>v\<bar> < 2 ^ 64\<close> show ?thesis
    by (simp add: getint_def bn_docD word_of_bn_def Let_def)
qed

section \<open>The compact encoding\<close>

lemma compact_bytes:
  fixes n b2 b1 b0 :: byte
  defines "c \<equiv> push_bit 24 (ucast n) OR push_bit 16 (ucast b2) OR push_bit 8 (ucast b1) OR ucast b0 :: u32"
  shows "ucast (drop_bit 24 c) = n" and "ucast (drop_bit 16 c) = b2"
    and "ucast (drop_bit 8 c) = b1" and "ucast c = b0" and "unat (drop_bit 24 c) = unat n"
proof -
  have hi: "\<not> bit (x :: byte) k" if "8 \<le> k" for x k
    using that by (auto dest: bit_imp_le_length)
  show "ucast (drop_bit 24 c) = n" "ucast (drop_bit 16 c) = b2"
    "ucast (drop_bit 8 c) = b1" "ucast c = b0"
    by (rule bit_word_eqI; simp add: c_def bit_simps hi)+
  have "drop_bit 24 c = ucast n"
    by (rule bit_word_eqI) (auto simp add: c_def bit_simps hi dest: bit_imp_le_length)
  then show "unat (drop_bit 24 c) = unat n"
    by (simp add: unsigned_ucast_eq take_bit_nat_eq_self_iff order_less_trans [OF unat_byte_bound])
qed

lemma vch_of_int_nonneg:
  assumes "0 \<le> v"
  shows "le_val (vch_of_int v) = nat v" and "v \<noteq> 0 \<Longrightarrow> unat (last (vch_of_int v)) < 128"
  using assms by (auto simp: vch_of_int_def sign_le_def le_val_append not_le)

lemma GetCompact_doc:
  assumes "bn_doc E" and "length (vch_of_int v) < 256"
  defines "x \<equiv> \<lambda>i. (rev (vch_of_int v) @ [0, 0, 0]) ! i"
  shows "GetCompact E v =
    push_bit 24 (ucast (word_of_nat (length (vch_of_int v)) :: byte)) OR
    push_bit 16 (ucast (x 0)) OR push_bit 8 (ucast (x 1)) OR ucast (x 2)"
proof -
  define d where "d = rev (vch_of_int v)"
  have len: "length d < 256" using assms(2) by (simp add: d_def)
  have mpi: "BN_bn2mpi E v = be4 (length d) @ d"
    using assms(1,2) by (simp add: bn_docD mpi_of_int_def Let_def d_def)
  have sz: "(word_of_nat (length d) :: u32) = ucast (word_of_nat (length d) :: byte)"
    using len by (intro unsigned_word_eqI [where ?'a = nat])
      (simp add: unat_of_nat unsigned_ucast_eq take_bit_nat_eq_self)
  have "GetCompact E v = push_bit 24 (ucast (word_of_nat (length d) :: byte)) OR
    push_bit 16 (ucast ((d @ [0, 0, 0]) ! 0)) OR push_bit 8 (ucast ((d @ [0, 0, 0]) ! 1)) OR
    ucast ((d @ [0, 0, 0]) ! 2)"
  proof (cases "length d \<ge> 3")
    case True
    then show ?thesis
      by (auto simp add: GetCompact_def Let_def mpi sz nth_append or.assoc)
  next
    case False
    then have "d = [] \<or> (\<exists>a. d = [a]) \<or> (\<exists>a b. d = [a, b])"
      by (cases d; cases "tl d"; cases "tl (tl d)") auto
    then show ?thesis
      by (elim disjE exE) (simp_all add: GetCompact_def Let_def mpi sz nth_append or.assoc)
  qed
  then show ?thesis by (simp add: x_def d_def)
qed

lemma be4_small: "n < 256 \<Longrightarrow> be4 n = [0, 0, 0, word_of_nat n]"
proof -
  assume n: "n < 256"
  have four: "(4::nat) = Suc (Suc (Suc (Suc 0)))" by simp
  show ?thesis unfolding be4_def four using n by simp
qed

lemma SetCompact_doc:
  assumes "bn_doc E"
  shows "SetCompact E old c =
    int_of_vch (rev (take (unat (drop_bit 24 c))
      ([ucast (drop_bit 16 c), ucast (drop_bit 8 c), ucast c] @ replicate (unat (drop_bit 24 c)) 0)))"
proof -
  define n where "n = unat (drop_bit 24 c)"
  define d where "d = take n ([ucast (drop_bit 16 c), ucast (drop_bit 8 c), ucast c] @ replicate n (0::byte))"
  have "unat c < 2 ^ 32" using unsigned_less [of c] by simp
  then have n: "n < 256" unfolding n_def unat_drop_bit_eq by (simp add: drop_bit_eq_div)
  have d: "length d = n" by (simp add: d_def)
  have "BN_set_mpi E old (be4 (length d) @ d) = int_of_vch (rev d)"
    using assms n d by (intro BN_set_mpi_be4) simp_all
  then show ?thesis
    using n d be4_small [OF n] unfolding SetCompact_def Let_def n_def d_def by simp
qed

lemma compact_digits:
  fixes d :: "byte list"
  assumes "length d = n" and "0 < n"
  shows "take n ([(d @ [0,0,0]) ! 0, (d @ [0,0,0]) ! 1, (d @ [0,0,0]) ! 2] @ replicate n 0)
    = take 3 d @ replicate (n - 3) 0"
proof -
  consider a where "d = [a]" | a b where "d = [a, b]" | a b c e where "d = a # b # c # e"
    using assms by (cases d; cases "tl d"; cases "tl (tl d)") auto
  then show ?thesis
  proof cases
    case 3
    have "take k (replicate (Suc (Suc (Suc k))) (0::byte)) = replicate k 0" for k
      by (simp only: take_replicate) simp
    with 3 assms(1) show ?thesis by (auto simp: numeral_3_eq_3)
  qed (use assms in \<open>auto simp: numeral_3_eq_3\<close>)
qed

text \<open>
  A non-negative number survives the compact encoding up to its three most significant bytes.
\<close>

lemma SetCompact_GetCompact:
  assumes "bn_doc E" and "0 \<le> v" and "length (vch_of_int v) < 256"
  shows "SetCompact E old (GetCompact E v) = v - v mod 256 ^ (length (vch_of_int v) - 3)"
proof (cases "v = 0")
  case True
  with assms show ?thesis
    by (simp add: GetCompact_doc SetCompact_doc int_of_vch_def)
next
  case False
  define d where "d = vch_of_int v"
  define n where "n = length d"
  define c where "c = GetCompact E v"
  have dne: "d \<noteq> []" using False by (simp add: d_def)
  have n: "n < 256" "0 < n" using assms(3) dne by (simp_all add: n_def d_def)
  have un: "unat (word_of_nat n :: byte) = n" using n by (simp add: byte_simps)
  have c: "c = push_bit 24 (ucast (word_of_nat n :: byte)) OR push_bit 16 (ucast ((rev d @ [0,0,0]) ! 0)) OR
      push_bit 8 (ucast ((rev d @ [0,0,0]) ! 1)) OR ucast ((rev d @ [0,0,0]) ! 2)"
    using assms(1,3) unfolding c_def n_def d_def by (rule GetCompact_doc)
  have top: "take n ([(rev d @ [0,0,0]) ! 0, (rev d @ [0,0,0]) ! 1, (rev d @ [0,0,0]) ! 2] @ replicate n 0)
      = take 3 (rev d) @ replicate (n - 3) 0"
    using n by (intro compact_digits) (simp_all add: n_def)
  have "SetCompact E old c = int_of_vch (rev (take 3 (rev d) @ replicate (n - 3) 0))"
    unfolding SetCompact_doc [OF assms(1)] c compact_bytes un top ..
  also have "rev (take 3 (rev d) @ replicate (n - 3) 0) = replicate (n - 3) 0 @ drop (n - 3) d"
    by (simp add: n_def take_rev)
  also have "int_of_vch \<dots> = int (256 ^ (n - 3) * le_val (drop (n - 3) d))"
  proof -
    have l: "unat (last d) < 128" using vch_of_int_nonneg(2) [OF assms(2) False] by (simp add: d_def)
    have "n - 3 < length d" using n by (simp add: n_def)
    then have "last (replicate (n - 3) 0 @ drop (n - 3) d) = last d" by simp
    moreover have "le_val (replicate k 0) = 0" for k by (induction k) simp_all
    ultimately show ?thesis using l n
      by (auto simp: int_of_vch_def le_val_append n_def)
  qed
  also have "\<dots> = v - v mod 256 ^ (n - 3)"
  proof -
    have "nat v = le_val (take (n - 3) d) + 256 ^ (n - 3) * le_val (drop (n - 3) d)"
      using vch_of_int_nonneg(1) [OF assms(2)] le_val_append [of "take (n - 3) d" "drop (n - 3) d"]
      by (simp add: d_def n_def)
    moreover have "le_val (take (n - 3) d) < 256 ^ (n - 3)"
      using le_val_bound [of "take (n - 3) d"] by (simp add: n_def)
    moreover from \<open>nat v = _\<close> have
      v: "v = int (le_val (take (n - 3) d)) + 256 ^ (n - 3) * int (le_val (drop (n - 3) d))"
      using assms(2) by (simp add: nat_eq_iff)
    ultimately have "v mod 256 ^ (n - 3) = int (le_val (take (n - 3) d))"
      by (simp add: zmod_trivial_iff)
    with v show ?thesis by simp
  qed
  finally show ?thesis by (simp add: c_def n_def d_def)
qed

section \<open>Properties\<close>

text \<open>Encoding a non-negative number in the compact form used for block targets and decoding it
  again keeps its three most significant bytes and zeroes the rest: the result is the largest
  multiple of the dropped power of 256 that is not above the number. The hypothesis is the
  documented behaviour of OpenSSL's MPI conversion.\<close>

theorem compact_roundtrip:
  assumes "bn_doc E" and "0 \<le> v" and "length (vch_of_int v) < 256"
  shows "SetCompact E old (GetCompact E v) = v - v mod 256 ^ (length (vch_of_int v) - 3)"
  using assms by (rule SetCompact_GetCompact)

theorem compact_roundtrip_witness:
  "SetCompact ref_env 0 (GetCompact ref_env 0x12345678) =
   0x12345678 - 0x12345678 mod 256 ^ (length (vch_of_int 0x12345678) - 3)"
proof -
  have "length (vch_of_int 0x12345678) \<le> 8" using length_vch_of_int [of 8 "0x12345678"] by simp
  then show ?thesis by (intro compact_roundtrip) simp_all
qed

text \<open>Importing a signed 64-bit number into a big number is exact on the whole range, the most
  negative value included, whatever the big number held before.\<close>

theorem setint64_exact:
  assumes "bn_doc E" and "int64_range n"
  shows "setint64 E old n = n"
  using assms by (rule setint64_doc)

theorem setint64_exact_witness: "setint64 ref_env 5 (- (2 ^ 63)) = - (2 ^ 63)"
  by (rule setint64_exact) (simp_all add: int64_range_def)

end
