(* ===== verification/Script.thy ===== *)
theory Script
  imports Serialize Bignum
begin

text \<open>
  The class \<^verbatim>\<open>CScript\<close> of \<^verbatim>\<open>src/src/script.h\<close>: the opcodes, appending to a script, reading one
  instruction (\<^verbatim>\<open>GetOp\<close>), and the queries that walk a script. A script is its byte vector; a script
  iterator is the part of the script from the iterator to the end. An opcode is the byte the C++
  code casts to \<^verbatim>\<open>opcodetype\<close>, since scripts hold arbitrary bytes and the code compares opcodes as
  numbers.
\<close>

section \<open>Opcodes\<close>

abbreviation (input) OP_0 :: byte where "OP_0 \<equiv> 0x00"

abbreviation (input) OP_FALSE :: byte where "OP_FALSE \<equiv> OP_0"

abbreviation (input) OP_PUSHDATA1 :: byte where "OP_PUSHDATA1 \<equiv> 0x4c"

abbreviation (input) OP_PUSHDATA2 :: byte where "OP_PUSHDATA2 \<equiv> 0x4d"

abbreviation (input) OP_PUSHDATA4 :: byte where "OP_PUSHDATA4 \<equiv> 0x4e"

abbreviation (input) OP_1NEGATE :: byte where "OP_1NEGATE \<equiv> 0x4f"

abbreviation (input) OP_RESERVED :: byte where "OP_RESERVED \<equiv> 0x50"

abbreviation (input) OP_1 :: byte where "OP_1 \<equiv> 0x51"

abbreviation (input) OP_TRUE :: byte where "OP_TRUE \<equiv> OP_1"

abbreviation (input) OP_2 :: byte where "OP_2 \<equiv> 0x52"

abbreviation (input) OP_3 :: byte where "OP_3 \<equiv> 0x53"

abbreviation (input) OP_4 :: byte where "OP_4 \<equiv> 0x54"

abbreviation (input) OP_5 :: byte where "OP_5 \<equiv> 0x55"

abbreviation (input) OP_6 :: byte where "OP_6 \<equiv> 0x56"

abbreviation (input) OP_7 :: byte where "OP_7 \<equiv> 0x57"

abbreviation (input) OP_8 :: byte where "OP_8 \<equiv> 0x58"

abbreviation (input) OP_9 :: byte where "OP_9 \<equiv> 0x59"

abbreviation (input) OP_10 :: byte where "OP_10 \<equiv> 0x5a"

abbreviation (input) OP_11 :: byte where "OP_11 \<equiv> 0x5b"

abbreviation (input) OP_12 :: byte where "OP_12 \<equiv> 0x5c"

abbreviation (input) OP_13 :: byte where "OP_13 \<equiv> 0x5d"

abbreviation (input) OP_14 :: byte where "OP_14 \<equiv> 0x5e"

abbreviation (input) OP_15 :: byte where "OP_15 \<equiv> 0x5f"

abbreviation (input) OP_16 :: byte where "OP_16 \<equiv> 0x60"

abbreviation (input) OP_NOP :: byte where "OP_NOP \<equiv> 0x61"

abbreviation (input) OP_VER :: byte where "OP_VER \<equiv> 0x62"

abbreviation (input) OP_IF :: byte where "OP_IF \<equiv> 0x63"

abbreviation (input) OP_NOTIF :: byte where "OP_NOTIF \<equiv> 0x64"

abbreviation (input) OP_VERIF :: byte where "OP_VERIF \<equiv> 0x65"

abbreviation (input) OP_VERNOTIF :: byte where "OP_VERNOTIF \<equiv> 0x66"

abbreviation (input) OP_ELSE :: byte where "OP_ELSE \<equiv> 0x67"

abbreviation (input) OP_ENDIF :: byte where "OP_ENDIF \<equiv> 0x68"

abbreviation (input) OP_VERIFY :: byte where "OP_VERIFY \<equiv> 0x69"

abbreviation (input) OP_RETURN :: byte where "OP_RETURN \<equiv> 0x6a"

abbreviation (input) OP_TOALTSTACK :: byte where "OP_TOALTSTACK \<equiv> 0x6b"

abbreviation (input) OP_FROMALTSTACK :: byte where "OP_FROMALTSTACK \<equiv> 0x6c"

abbreviation (input) OP_2DROP :: byte where "OP_2DROP \<equiv> 0x6d"

abbreviation (input) OP_2DUP :: byte where "OP_2DUP \<equiv> 0x6e"

abbreviation (input) OP_3DUP :: byte where "OP_3DUP \<equiv> 0x6f"

abbreviation (input) OP_2OVER :: byte where "OP_2OVER \<equiv> 0x70"

abbreviation (input) OP_2ROT :: byte where "OP_2ROT \<equiv> 0x71"

abbreviation (input) OP_2SWAP :: byte where "OP_2SWAP \<equiv> 0x72"

abbreviation (input) OP_IFDUP :: byte where "OP_IFDUP \<equiv> 0x73"

abbreviation (input) OP_DEPTH :: byte where "OP_DEPTH \<equiv> 0x74"

abbreviation (input) OP_DROP :: byte where "OP_DROP \<equiv> 0x75"

abbreviation (input) OP_DUP :: byte where "OP_DUP \<equiv> 0x76"

abbreviation (input) OP_NIP :: byte where "OP_NIP \<equiv> 0x77"

abbreviation (input) OP_OVER :: byte where "OP_OVER \<equiv> 0x78"

abbreviation (input) OP_PICK :: byte where "OP_PICK \<equiv> 0x79"

abbreviation (input) OP_ROLL :: byte where "OP_ROLL \<equiv> 0x7a"

abbreviation (input) OP_ROT :: byte where "OP_ROT \<equiv> 0x7b"

abbreviation (input) OP_SWAP :: byte where "OP_SWAP \<equiv> 0x7c"

abbreviation (input) OP_TUCK :: byte where "OP_TUCK \<equiv> 0x7d"

abbreviation (input) OP_CAT :: byte where "OP_CAT \<equiv> 0x7e"

abbreviation (input) OP_SUBSTR :: byte where "OP_SUBSTR \<equiv> 0x7f"

abbreviation (input) OP_LEFT :: byte where "OP_LEFT \<equiv> 0x80"

abbreviation (input) OP_RIGHT :: byte where "OP_RIGHT \<equiv> 0x81"

abbreviation (input) OP_SIZE :: byte where "OP_SIZE \<equiv> 0x82"

abbreviation (input) OP_INVERT :: byte where "OP_INVERT \<equiv> 0x83"

abbreviation (input) OP_AND :: byte where "OP_AND \<equiv> 0x84"

abbreviation (input) OP_OR :: byte where "OP_OR \<equiv> 0x85"

abbreviation (input) OP_XOR :: byte where "OP_XOR \<equiv> 0x86"

abbreviation (input) OP_EQUAL :: byte where "OP_EQUAL \<equiv> 0x87"

abbreviation (input) OP_EQUALVERIFY :: byte where "OP_EQUALVERIFY \<equiv> 0x88"

abbreviation (input) OP_RESERVED1 :: byte where "OP_RESERVED1 \<equiv> 0x89"

abbreviation (input) OP_RESERVED2 :: byte where "OP_RESERVED2 \<equiv> 0x8a"

abbreviation (input) OP_1ADD :: byte where "OP_1ADD \<equiv> 0x8b"

abbreviation (input) OP_1SUB :: byte where "OP_1SUB \<equiv> 0x8c"

abbreviation (input) OP_2MUL :: byte where "OP_2MUL \<equiv> 0x8d"

abbreviation (input) OP_2DIV :: byte where "OP_2DIV \<equiv> 0x8e"

abbreviation (input) OP_NEGATE :: byte where "OP_NEGATE \<equiv> 0x8f"

abbreviation (input) OP_ABS :: byte where "OP_ABS \<equiv> 0x90"

abbreviation (input) OP_NOT :: byte where "OP_NOT \<equiv> 0x91"

abbreviation (input) OP_0NOTEQUAL :: byte where "OP_0NOTEQUAL \<equiv> 0x92"

abbreviation (input) OP_ADD :: byte where "OP_ADD \<equiv> 0x93"

abbreviation (input) OP_SUB :: byte where "OP_SUB \<equiv> 0x94"

abbreviation (input) OP_MUL :: byte where "OP_MUL \<equiv> 0x95"

abbreviation (input) OP_DIV :: byte where "OP_DIV \<equiv> 0x96"

abbreviation (input) OP_MOD :: byte where "OP_MOD \<equiv> 0x97"

abbreviation (input) OP_LSHIFT :: byte where "OP_LSHIFT \<equiv> 0x98"

abbreviation (input) OP_RSHIFT :: byte where "OP_RSHIFT \<equiv> 0x99"

abbreviation (input) OP_BOOLAND :: byte where "OP_BOOLAND \<equiv> 0x9a"

abbreviation (input) OP_BOOLOR :: byte where "OP_BOOLOR \<equiv> 0x9b"

abbreviation (input) OP_NUMEQUAL :: byte where "OP_NUMEQUAL \<equiv> 0x9c"

abbreviation (input) OP_NUMEQUALVERIFY :: byte where "OP_NUMEQUALVERIFY \<equiv> 0x9d"

abbreviation (input) OP_NUMNOTEQUAL :: byte where "OP_NUMNOTEQUAL \<equiv> 0x9e"

abbreviation (input) OP_LESSTHAN :: byte where "OP_LESSTHAN \<equiv> 0x9f"

abbreviation (input) OP_GREATERTHAN :: byte where "OP_GREATERTHAN \<equiv> 0xa0"

abbreviation (input) OP_LESSTHANOREQUAL :: byte where "OP_LESSTHANOREQUAL \<equiv> 0xa1"

abbreviation (input) OP_GREATERTHANOREQUAL :: byte where "OP_GREATERTHANOREQUAL \<equiv> 0xa2"

abbreviation (input) OP_MIN :: byte where "OP_MIN \<equiv> 0xa3"

abbreviation (input) OP_MAX :: byte where "OP_MAX \<equiv> 0xa4"

abbreviation (input) OP_WITHIN :: byte where "OP_WITHIN \<equiv> 0xa5"

abbreviation (input) OP_RIPEMD160 :: byte where "OP_RIPEMD160 \<equiv> 0xa6"

abbreviation (input) OP_SHA1 :: byte where "OP_SHA1 \<equiv> 0xa7"

abbreviation (input) OP_SHA256 :: byte where "OP_SHA256 \<equiv> 0xa8"

abbreviation (input) OP_HASH160 :: byte where "OP_HASH160 \<equiv> 0xa9"

abbreviation (input) OP_HASH256 :: byte where "OP_HASH256 \<equiv> 0xaa"

abbreviation (input) OP_CODESEPARATOR :: byte where "OP_CODESEPARATOR \<equiv> 0xab"

abbreviation (input) OP_CHECKSIG :: byte where "OP_CHECKSIG \<equiv> 0xac"

abbreviation (input) OP_CHECKSIGVERIFY :: byte where "OP_CHECKSIGVERIFY \<equiv> 0xad"

abbreviation (input) OP_CHECKMULTISIG :: byte where "OP_CHECKMULTISIG \<equiv> 0xae"

abbreviation (input) OP_CHECKMULTISIGVERIFY :: byte where "OP_CHECKMULTISIGVERIFY \<equiv> 0xaf"

abbreviation (input) OP_NOP1 :: byte where "OP_NOP1 \<equiv> 0xb0"

abbreviation (input) OP_NOP2 :: byte where "OP_NOP2 \<equiv> 0xb1"

abbreviation (input) OP_NOP3 :: byte where "OP_NOP3 \<equiv> 0xb2"

abbreviation (input) OP_NOP4 :: byte where "OP_NOP4 \<equiv> 0xb3"

abbreviation (input) OP_NOP5 :: byte where "OP_NOP5 \<equiv> 0xb4"

abbreviation (input) OP_NOP6 :: byte where "OP_NOP6 \<equiv> 0xb5"

abbreviation (input) OP_NOP7 :: byte where "OP_NOP7 \<equiv> 0xb6"

abbreviation (input) OP_NOP8 :: byte where "OP_NOP8 \<equiv> 0xb7"

abbreviation (input) OP_NOP9 :: byte where "OP_NOP9 \<equiv> 0xb8"

abbreviation (input) OP_NOP10 :: byte where "OP_NOP10 \<equiv> 0xb9"

abbreviation (input) OP_SMALLINTEGER :: byte where "OP_SMALLINTEGER \<equiv> 0xfa"

abbreviation (input) OP_PUBKEYS :: byte where "OP_PUBKEYS \<equiv> 0xfb"

abbreviation (input) OP_PUBKEYHASH :: byte where "OP_PUBKEYHASH \<equiv> 0xfd"

abbreviation (input) OP_PUBKEY :: byte where "OP_PUBKEY \<equiv> 0xfe"

abbreviation (input) OP_INVALIDOPCODE :: byte where "OP_INVALIDOPCODE \<equiv> 0xff"

definition MAX_SCRIPT_ELEMENT_SIZE :: nat where
  "MAX_SCRIPT_ELEMENT_SIZE = 520"

section \<open>Appending to a script\<close>

text \<open>\<^verbatim>\<open>operator<<(const std::vector<unsigned char>&)\<close>\<close>

definition push_data :: "valtype \<Rightarrow> byte list" where
  "push_data b =
     (if length b < unat OP_PUSHDATA1 then [word_of_nat (length b)] @ b
      else if length b \<le> 0xff then [OP_PUSHDATA1, word_of_nat (length b)] @ b
      else if length b \<le> 0xffff then [OP_PUSHDATA2] @ le_bytes 2 (length b) @ b
      else [OP_PUSHDATA4] @ le_bytes 4 (length b) @ b)"

definition push_int64 :: "env \<Rightarrow> int \<Rightarrow> byte list" where
  "push_int64 E k =
     (if k = - 1 \<or> (1 \<le> k \<and> k \<le> 16) then [word_of_int (k + (uint OP_1 - 1))]
      else push_data (getvch E (CBigNum_int E k)))"

text \<open>\<^verbatim>\<open>operator<<(const uint160&)\<close>: one length byte and the 20 bytes of the hash.\<close>

definition push_uint160 :: "u160 \<Rightarrow> byte list" where
  "push_uint160 b = word_of_nat 20 # le_bytes 20 (unat b)"

section \<open>Reading instructions\<close>

definition GetOp :: "byte list \<Rightarrow> (byte \<times> valtype \<times> byte list) option" where
  "GetOp pc =
     (case pc of
        [] \<Rightarrow> None
      | opcode # pc \<Rightarrow>
          if opcode \<le> OP_PUSHDATA4 then
            (case (if opcode < OP_PUSHDATA1 then Some (unat opcode, pc)
                   else if opcode = OP_PUSHDATA1 then READDATA 1 pc
                   else if opcode = OP_PUSHDATA2 then READDATA 2 pc
                   else READDATA 4 pc) of
               None \<Rightarrow> None
             | Some (nSize, pc) \<Rightarrow>
                 if length pc < nSize then None
                 else Some (opcode, take nSize pc, drop nSize pc))
          else Some (opcode, [], pc))"

definition DecodeOP_N :: "byte \<Rightarrow> nat option" where
  "DecodeOP_N opcode =
     (if opcode = OP_0 then Some 0
      else if OP_1 \<le> opcode \<and> opcode \<le> OP_16 then Some (unat opcode - (unat OP_1 - 1))
      else None)"

definition EncodeOP_N :: "int \<Rightarrow> byte option" where
  "EncodeOP_N k =
     (if 0 \<le> k \<and> k \<le> 16 then Some (if k = 0 then OP_0 else word_of_int (uint OP_1 + k - 1))
      else None)"

lemma GetOp_rest_shorter: "GetOp pc = Some (opcode, vch, rest) \<Longrightarrow> length rest < length pc"
  by (auto simp: GetOp_def READDATA_def split: list.splits if_splits option.splits)

lemma GetOp_Nil [simp]: "GetOp [] = None"
  by (simp add: GetOp_def)

section \<open>Queries that walk the script\<close>

function strip_prefix :: "byte list \<Rightarrow> byte list \<Rightarrow> byte list \<times> nat" where
  "strip_prefix b pc =
     (if b \<noteq> [] \<and> length b \<le> length pc \<and> take (length b) pc = b
      then (let (pc', nFound) = strip_prefix b (drop (length b) pc) in (pc', Suc nFound))
      else (pc, 0))"
  by pat_completeness auto
termination
  by (relation "measure (\<lambda>(b, pc). length pc)") (auto simp: length_greater_0_conv [symmetric] simp del: length_greater_0_conv)

declare strip_prefix.simps [simp del]

lemma length_strip_prefix: "length (fst (strip_prefix b pc)) + snd (strip_prefix b pc) * length b = length pc"
proof (induction b pc rule: strip_prefix.induct)
  case (1 b pc)
  show ?case
  proof (cases "b \<noteq> [] \<and> length b \<le> length pc \<and> take (length b) pc = b")
    case True
    with 1 show ?thesis
      by (subst (1 2) strip_prefix.simps) (auto simp: split_beta Let_def)
  next
    case False
    then show ?thesis by (subst (1 2) strip_prefix.simps) auto
  qed
qed

text \<open>
  \<^verbatim>\<open>FindAndDelete\<close>: at every instruction boundary the occurrences of \<open>b\<close> are erased, then the next
  instruction is skipped. The result is the remaining script and the number of erased occurrences.
\<close>

function FindAndDelete :: "byte list \<Rightarrow> byte list \<Rightarrow> byte list \<times> nat" where
  "FindAndDelete b pc =
     (if b = [] then (pc, 0)
      else (let (pc1, nFound) = strip_prefix b pc
            in case GetOp pc1 of
                 None \<Rightarrow> (pc1, nFound)
               | Some (opcode, vch, pc2) \<Rightarrow>
                   (let (rest, k) = FindAndDelete b pc2
                    in (take (length pc1 - length pc2) pc1 @ rest, nFound + k))))"
  by pat_completeness auto
termination
proof (relation "measure (\<lambda>(b, pc). length pc)", goal_cases)
  case (2 b pc x pc1 nFound z opcode y vch pc2)
  have "length pc1 \<le> length pc"
    using length_strip_prefix [of b pc] 2(2,3) by (metis fst_conv le_add1)
  with GetOp_rest_shorter [of pc1 opcode vch pc2] 2 show ?case by auto
qed simp

declare FindAndDelete.simps [simp del]

function Find :: "byte \<Rightarrow> byte list \<Rightarrow> nat" where
  "Find op pc =
     (case GetOp pc of
        None \<Rightarrow> 0
      | Some (opcode, vch, pc') \<Rightarrow> (if opcode = op then 1 else 0) + Find op pc')"
  by pat_completeness auto
termination
  by (relation "measure (\<lambda>(op, pc). length pc)") (auto dest: GetOp_rest_shorter)

declare Find.simps [simp del]

function IsPushOnly :: "byte list \<Rightarrow> bool" where
  "IsPushOnly pc =
     (if pc = [] then True
      else case GetOp pc of
             None \<Rightarrow> False
           | Some (opcode, vch, pc') \<Rightarrow> if opcode > OP_16 then False else IsPushOnly pc')"
  by pat_completeness auto
termination
  by (relation "measure length") (auto dest: GetOp_rest_shorter)

declare IsPushOnly.simps [simp del]

function HasCanonicalPushes :: "byte list \<Rightarrow> bool" where
  "HasCanonicalPushes pc =
     (if pc = [] then True
      else case GetOp pc of
             None \<Rightarrow> False
           | Some (opcode, data, pc') \<Rightarrow>
               if opcode > OP_16 then HasCanonicalPushes pc'
               else if opcode < OP_PUSHDATA1 \<and> opcode > OP_0 \<and> (length data = 1 \<and> data ! 0 \<le> 16) then False
               else if opcode = OP_PUSHDATA1 \<and> length data < unat OP_PUSHDATA1 then False
               else if opcode = OP_PUSHDATA2 \<and> length data \<le> 0xff then False
               else if opcode = OP_PUSHDATA4 \<and> length data \<le> 0xffff then False
               else HasCanonicalPushes pc')"
  by pat_completeness auto
termination
  by (relation "measure length") (auto dest: GetOp_rest_shorter)

declare HasCanonicalPushes.simps [simp del]

definition IsPayToScriptHash :: "byte list \<Rightarrow> bool" where
  "IsPayToScriptHash s \<longleftrightarrow>
     length s = 23 \<and> s ! 0 = OP_HASH160 \<and> s ! 1 = 0x14 \<and> s ! 22 = OP_EQUAL"

function sigops_loop :: "bool \<Rightarrow> byte \<Rightarrow> byte list \<Rightarrow> nat" where
  "sigops_loop fAccurate lastOpcode pc =
     (if pc = [] then 0
      else case GetOp pc of
             None \<Rightarrow> 0
           | Some (opcode, vch, pc') \<Rightarrow>
               (if opcode = OP_CHECKSIG \<or> opcode = OP_CHECKSIGVERIFY then 1
                else if opcode = OP_CHECKMULTISIG \<or> opcode = OP_CHECKMULTISIGVERIFY then
                  (if fAccurate \<and> OP_1 \<le> lastOpcode \<and> lastOpcode \<le> OP_16
                   then (case DecodeOP_N lastOpcode of Some k \<Rightarrow> k | None \<Rightarrow> 0)
                   else 20)
                else 0) + sigops_loop fAccurate opcode pc')"
  by pat_completeness auto
termination
  by (relation "measure (\<lambda>(fAccurate, lastOpcode, pc). length pc)") (auto dest: GetOp_rest_shorter)

declare sigops_loop.simps [simp del]

definition GetSigOpCount :: "bool \<Rightarrow> byte list \<Rightarrow> nat" where
  "GetSigOpCount fAccurate s = sigops_loop fAccurate OP_INVALIDOPCODE s"

text \<open>The last item a push-only script leaves, as the loop in \<^verbatim>\<open>GetSigOpCount(scriptSig)\<close> finds it.\<close>

function last_push :: "valtype \<Rightarrow> byte list \<Rightarrow> valtype option" where
  "last_push data pc =
     (if pc = [] then Some data
      else case GetOp pc of
             None \<Rightarrow> None
           | Some (opcode, data', pc') \<Rightarrow> if opcode > OP_16 then None else last_push data' pc')"
  by pat_completeness auto
termination
  by (relation "measure (\<lambda>(data, pc). length pc)") (auto dest: GetOp_rest_shorter)

declare last_push.simps [simp del]

definition GetSigOpCount_P2SH :: "byte list \<Rightarrow> byte list \<Rightarrow> nat" where
  "GetSigOpCount_P2SH s sig =
     (if \<not> IsPayToScriptHash s then GetSigOpCount True s
      else case last_push [] sig of None \<Rightarrow> 0 | Some subscript \<Rightarrow> GetSigOpCount True subscript)"

section \<open>Facts about instructions\<close>

lemma push_data_head: "\<exists>h t. push_data b = h # t @ b \<and> h \<le> OP_PUSHDATA4"
  by (auto simp: push_data_def word_le_nat_alt unat_of_nat)

lemma GetOp_small_push: "length b < 76 \<Longrightarrow> GetOp (word_of_nat (length b) # b @ rest) = Some (word_of_nat (length b), b, rest)"
  by (simp add: GetOp_def word_le_nat_alt word_less_nat_alt unat_of_nat)

lemma GetOp_push_data:
  assumes "length b < 2 ^ 32"
  shows "GetOp (push_data b @ rest) = Some (hd (push_data b), b, rest)"
proof -
  consider "length b < 76" | "76 \<le> length b" "length b \<le> 0xff" | "0xff < length b" "length b \<le> 0xffff" | "0xffff < length b"
    by linarith
  then show ?thesis
  proof cases
    case 1
    then show ?thesis by (simp add: push_data_def GetOp_small_push)
  next
    case 2
    then show ?thesis
      using READDATA_le_bytes [of "length b" 1 "b @ rest"] by (simp add: push_data_def GetOp_def)
  next
    case 3
    then show ?thesis by (simp add: push_data_def GetOp_def)
  next
    case 4
    with assms show ?thesis by (simp add: push_data_def GetOp_def)
  qed
qed

lemma hd_push_data_le: "hd (push_data b) \<le> OP_PUSHDATA4"
  using push_data_head [of b] by auto

lemma push_data_not_Nil [simp]: "push_data b \<noteq> []"
  using push_data_head [of b] by auto

lemma IsPushOnly_Nil [simp]: "IsPushOnly []"
  by (simp add: IsPushOnly.simps)

lemma IsPushOnly_push_data:
  assumes "length b < 2 ^ 32"
  shows "IsPushOnly (push_data b @ rest) = IsPushOnly rest"
proof -
  have "hd (push_data b) \<le> OP_16" using hd_push_data_le [of b] by (rule order_trans) simp
  then show ?thesis
    by (subst IsPushOnly.simps) (auto simp: GetOp_push_data [OF assms])
qed

text \<open>Instructions above the push range are a single byte.\<close>

lemma GetOp_opcode: "OP_PUSHDATA4 < c \<Longrightarrow> GetOp (c # rest) = Some (c, [], rest)"
  by (simp add: GetOp_def linorder_not_le [symmetric])

lemma DecodeOP_N_le: "DecodeOP_N c = Some k \<Longrightarrow> k \<le> 16"
  by (auto simp: DecodeOP_N_def word_le_nat_alt split: if_splits)

lemma DecodeOP_N_EncodeOP_N: "0 \<le> k \<Longrightarrow> k \<le> 16 \<Longrightarrow> \<exists>c. EncodeOP_N k = Some c \<and> DecodeOP_N c = Some (nat k)"
proof -
  assume k: "0 \<le> k" "k \<le> 16"
  have "\<forall>j\<in>set [0..<17]. \<exists>c. EncodeOP_N (int j) = Some c \<and> DecodeOP_N c = Some j"
    by (simp add: EncodeOP_N_def DecodeOP_N_def upt_rec word_le_nat_alt)
  from bspec [OF this, of "nat k"] k show ?thesis by simp
qed

lemma sigops_loop_accurate_le: "sigops_loop True l s \<le> sigops_loop False l' s"
proof (induction False l' s arbitrary: l rule: sigops_loop.induct)
  case (1 l' s)
  show ?case
  proof (cases "s = [] \<or> GetOp s = None")
    case True
    then show ?thesis by (subst (1 2) sigops_loop.simps) auto
  next
    case False
    then obtain c v r where g: "GetOp s = Some (c, v, r)" by (cases "GetOp s") auto
    with False 1 have "sigops_loop True c r \<le> sigops_loop False c r" by blast
    moreover have "(case DecodeOP_N l of Some k \<Rightarrow> k | None \<Rightarrow> 0) \<le> 20"
      using DecodeOP_N_le [of l] by (auto split: option.split)
    ultimately show ?thesis
      using False g by (subst (1 2) sigops_loop.simps) auto
  qed
qed

lemma sigops_loop_push_only: "IsPushOnly s \<Longrightarrow> sigops_loop f l s = 0"
proof (induction f l s rule: sigops_loop.induct)
  case (1 f l s)
  show ?case
  proof (cases "s = []")
    case True
    then show ?thesis by (subst sigops_loop.simps) simp
  next
    case False
    with "1.prems" obtain c v r where g: "GetOp s = Some (c, v, r)" "c \<le> OP_16" "IsPushOnly r"
      by (subst (asm) IsPushOnly.simps) (auto split: option.splits if_splits)
    then have "c \<noteq> OP_CHECKSIG \<and> c \<noteq> OP_CHECKSIGVERIFY \<and> c \<noteq> OP_CHECKMULTISIG \<and> c \<noteq> OP_CHECKMULTISIGVERIFY"
      by auto
    with False g 1 show ?thesis by (subst sigops_loop.simps) auto
  qed
qed

lemma length_FindAndDelete:
  "length (fst (FindAndDelete b s)) + snd (FindAndDelete b s) * length b = length s"
proof (induction b s rule: FindAndDelete.induct)
  case (1 b s)
  show ?case
  proof (cases "b = []")
    case True
    then show ?thesis by (simp add: FindAndDelete.simps)
  next
    case False
    obtain s1 k where st: "strip_prefix b s = (s1, k)" by fastforce
    then have len: "length s1 + k * length b = length s" using length_strip_prefix [of b s] by simp
    show ?thesis
    proof (cases "GetOp s1")
      case None
      with False st len show ?thesis by (subst (1 2) FindAndDelete.simps) simp
    next
      case (Some p)
      then obtain c v r where g: "GetOp s1 = Some (c, v, r)" by (cases p) auto
      obtain t m where t: "FindAndDelete b r = (t, m)" by fastforce
      have "length t + m * length b = length r"
        using "1.IH" [OF False st [symmetric] refl g refl refl] t by simp
      moreover have "length r < length s1" using g by (rule GetOp_rest_shorter)
      ultimately show ?thesis
        using False st g t len by (subst (1 2) FindAndDelete.simps) (simp add: add_mult_distrib)
    qed
  qed
qed

lemma IsPayToScriptHash_iff:
  "IsPayToScriptHash s \<longleftrightarrow> (\<exists>h. length h = 20 \<and> s = [OP_HASH160, 0x14] @ h @ [OP_EQUAL])"
proof
  assume p: "IsPayToScriptHash s"
  define h where "h = take 20 (drop 2 s)"
  have "s = [OP_HASH160, 0x14] @ h @ [OP_EQUAL]"
  proof (rule nth_equalityI)
    fix i assume "i < length s"
    then consider "i = 0" | "i = 1" | "2 \<le> i" "i < 22" | "i = 22"
      using p unfolding IsPayToScriptHash_def by linarith
    moreover have "Suc (Suc (i - Suc (Suc 0))) = i" if "2 \<le> i" using that by simp
    ultimately show "s ! i = ([OP_HASH160, 0x14] @ h @ [OP_EQUAL]) ! i"
      using p by cases (auto simp: IsPayToScriptHash_def h_def nth_append nth_Cons')
  qed (use p in \<open>simp add: IsPayToScriptHash_def h_def\<close>)
  moreover have "length h = 20" using p by (simp add: IsPayToScriptHash_def h_def)
  ultimately show "\<exists>h. length h = 20 \<and> s = [OP_HASH160, 0x14] @ h @ [OP_EQUAL]" by blast
next
  assume "\<exists>h. length h = 20 \<and> s = [OP_HASH160, 0x14] @ h @ [OP_EQUAL]"
  then show "IsPayToScriptHash s"
    by (auto simp: IsPayToScriptHash_def nth_append nth_Cons')
qed

section \<open>Properties\<close>

text \<open>The accurate signature-operation count never exceeds the conservative one that charges twenty
  operations for every multisignature check, and a push-only script counts none either way.\<close>

theorem sigop_count_bounds:
  "GetSigOpCount True s \<le> GetSigOpCount False s \<and>
   (IsPushOnly s \<longrightarrow> GetSigOpCount False s = 0)"
  by (simp add: GetSigOpCount_def sigops_loop_accurate_le sigops_loop_push_only)

theorem sigop_count_bounds_witness:
  "IsPushOnly (push_data [1, 2, 3]) \<and> GetSigOpCount False (push_data [1, 2, 3]) = 0"
proof -
  have "IsPushOnly (push_data [1, 2, 3])" using IsPushOnly_push_data [of "[1, 2, 3]" "[]"] by simp
  with sigop_count_bounds [of "push_data [1, 2, 3]"] show ?thesis by simp
qed

text \<open>\<^verbatim>\<open>FindAndDelete\<close> removes whole copies of its pattern and nothing else: the length of the result
  plus the reported number of removals times the pattern's length is the length of the script.\<close>

theorem FindAndDelete_count:
  "length (fst (FindAndDelete b s)) + snd (FindAndDelete b s) * length b = length s"
  by (rule length_FindAndDelete)

text \<open>The instruction reader inverts the push operator: reading from a script that starts with a
  push of at most 2^32 - 1 bytes returns the operand and the rest of the script.\<close>

theorem GetOp_push_roundtrip:
  assumes "length b < 2 ^ 32"
  shows "\<exists>opcode. GetOp (push_data b @ rest) = Some (opcode, b, rest) \<and> opcode \<le> OP_PUSHDATA4"
  using GetOp_push_data [OF assms] hd_push_data_le [of b] by simp

theorem GetOp_push_roundtrip_witness:
  "\<exists>opcode. GetOp (push_data (replicate 300 7) @ [0xac]) = Some (opcode, replicate 300 7, [0xac]) \<and> opcode \<le> OP_PUSHDATA4"
  by (rule GetOp_push_roundtrip) simp

end
