(* ===== verification/Key.thy ===== *)
theory Key
  imports Environment
begin

text \<open>
  Hashing (\<^verbatim>\<open>src/src/hash.h\<close>) and the parts of \<^verbatim>\<open>src/src/key.cpp\<close> and \<^verbatim>\<open>src/src/key.h\<close> that validation
  uses: key identifiers, signature verification and the big-endian comparison behind the low-S
  rule.
\<close>

section \<open>Hashes\<close>

definition uint256_bytes :: "u256 \<Rightarrow> byte list" where
  "uint256_bytes h = le_bytes 32 (unat h)"

definition uint160_bytes :: "u160 \<Rightarrow> byte list" where
  "uint160_bytes h = le_bytes 20 (unat h)"

definition Hash :: "env \<Rightarrow> byte list \<Rightarrow> u256" where
  "Hash E p = (let hash1 = SHA256_digest E p in SHA256_digest E (uint256_bytes hash1))"

text \<open>The two-argument template hashes the concatenation of its ranges.\<close>

definition Hash2 :: "env \<Rightarrow> byte list \<Rightarrow> byte list \<Rightarrow> u256" where
  "Hash2 E p1 p2 = (let hash1 = SHA256_digest E (p1 @ p2) in SHA256_digest E (uint256_bytes hash1))"

definition Hash160 :: "env \<Rightarrow> byte list \<Rightarrow> u160" where
  "Hash160 E p = (let hash1 = SHA256_digest E p in RIPEMD160_digest E (uint256_bytes hash1))"

text \<open>\<^verbatim>\<open>CPubKey::GetID\<close>\<close>

definition GetID :: "env \<Rightarrow> valtype \<Rightarrow> u160" where
  "GetID E vchPubKey = Hash160 E vchPubKey"

section \<open>Comparison of big-endian byte strings\<close>

fun skip_zeros :: "nat \<Rightarrow> byte list \<Rightarrow> byte list option" where
  "skip_zeros 0 c = Some c"
| "skip_zeros (Suc k) [] = Some []"
| "skip_zeros (Suc k) (b # c) = (if b \<noteq> 0 then None else skip_zeros k c)"

fun compare_same_length :: "byte list \<Rightarrow> byte list \<Rightarrow> int" where
  "compare_same_length (b1 # c1) (b2 # c2) =
     (if b1 > b2 then 1 else if b2 > b1 then - 1 else compare_same_length c1 c2)"
| "compare_same_length _ _ = 0"

definition CompareBigEndian :: "byte list \<Rightarrow> byte list \<Rightarrow> int" where
  "CompareBigEndian c1 c2 =
     (case skip_zeros (length c1 - length c2) c1 of
        None \<Rightarrow> 1
      | Some c1' \<Rightarrow>
          (case skip_zeros (length c2 - length c1) c2 of
             None \<Rightarrow> - 1
           | Some c2' \<Rightarrow> compare_same_length c1' c2'))"

definition vchMaxModOrder :: "byte list" where
  "vchMaxModOrder =
     [0xFF,0xFF,0xFF,0xFF,0xFF,0xFF,0xFF,0xFF,
      0xFF,0xFF,0xFF,0xFF,0xFF,0xFF,0xFF,0xFE,
      0xBA,0xAE,0xDC,0xE6,0xAF,0x48,0xA0,0x3B,
      0xBF,0xD2,0x5E,0x8C,0xD0,0x36,0x41,0x40]"

definition vchMaxModHalfOrder :: "byte list" where
  "vchMaxModHalfOrder =
     [0x7F,0xFF,0xFF,0xFF,0xFF,0xFF,0xFF,0xFF,
      0xFF,0xFF,0xFF,0xFF,0xFF,0xFF,0xFF,0xFF,
      0x5D,0x57,0x6E,0x73,0x57,0xA4,0x50,0x1D,
      0xDF,0xE9,0x2F,0x46,0x68,0x1B,0x20,0xA0]"

definition CheckSignatureElement :: "byte list \<Rightarrow> bool \<Rightarrow> bool" where
  "CheckSignatureElement vch half \<longleftrightarrow>
     CompareBigEndian vch [] > 0 \<and>
     CompareBigEndian vch (if half then vchMaxModHalfOrder else vchMaxModOrder) \<le> 0"

section \<open>Verification\<close>

text \<open>\<^verbatim>\<open>CKey::SetPubKey\<close> followed by \<^verbatim>\<open>CKey::Verify\<close>\<close>

definition SetPubKey :: "env \<Rightarrow> valtype \<Rightarrow> bool" where
  "SetPubKey E vchPubKey = o2i_ECPublicKey E vchPubKey"

definition Verify :: "env \<Rightarrow> valtype \<Rightarrow> u256 \<Rightarrow> valtype \<Rightarrow> bool" where
  "Verify E vchPubKey hash vchSig = ECDSA_verify E vchPubKey hash vchSig"

section \<open>The comparison is the comparison of the numbers\<close>

abbreviation be_val :: "byte list \<Rightarrow> nat" where
  "be_val bs \<equiv> le_val (rev bs)"

lemma be_val_Cons: "be_val (b # bs) = unat b * 256 ^ length bs + be_val bs"
  by (simp add: le_val_append)

lemma be_val_bound: "be_val bs < 256 ^ length bs"
  using le_val_bound [of "rev bs"] by simp

lemma skip_zeros_None:
  "skip_zeros k c = None \<Longrightarrow> k \<le> length c \<Longrightarrow> 256 ^ (length c - k) \<le> be_val c"
proof (induction k c rule: skip_zeros.induct)
  case (3 k b c)
  show ?case
  proof (cases "b = 0")
    case True
    with 3 show ?thesis by (simp add: le_val_append)
  next
    case False
    then have "1 \<le> unat b" by (simp add: Suc_le_eq unat_gt_0)
    then have "256 ^ length c \<le> unat b * 256 ^ length c" by simp
    moreover have "(256::nat) ^ (length (b # c) - Suc k) \<le> 256 ^ length c"
      by (intro power_increasing) simp_all
    ultimately show ?thesis unfolding be_val_Cons by linarith
  qed
qed simp_all

lemma skip_zeros_Some:
  "skip_zeros k c = Some c' \<Longrightarrow> k \<le> length c \<Longrightarrow> be_val c' = be_val c \<and> length c' = length c - k"
  by (induction k c rule: skip_zeros.induct) (auto simp: le_val_append split: if_splits)

lemma compare_same_length_sgn:
  "length c1 = length c2 \<Longrightarrow> compare_same_length c1 c2 = sgn (int (be_val c1) - int (be_val c2))"
proof (induction c1 c2 rule: compare_same_length.induct)
  case (1 b1 c1 b2 c2)
  have carry: "be_val (x # c) < be_val (y # d)" if "x < y" "length c = length d" for x y c d
  proof -
    have "unat x + 1 \<le> unat y" using that(1) by (simp add: word_less_nat_alt)
    then have "(unat x + 1) * 256 ^ length c \<le> unat y * 256 ^ length c" by (rule mult_le_mono1)
    then show ?thesis
      using be_val_bound [of c] that(2) unfolding be_val_Cons by (simp add: algebra_simps)
  qed
  consider "b1 > b2" | "b2 > b1" | "b1 = b2" by (rule linorder_cases [of b1 b2]) auto
  then show ?case
  proof cases
    case 1
    with carry [of b2 b1 c2 c1] "1.prems" show ?thesis by (simp add: sgn_if)
  next
    case 2
    with carry [of b1 b2 c1 c2] "1.prems" show ?thesis by (auto simp add: sgn_if)
  next
    case 3
    with 1 show ?thesis by (simp add: le_val_append)
  qed
qed auto

lemma CompareBigEndian_sgn: "CompareBigEndian c1 c2 = sgn (int (be_val c1) - int (be_val c2))"
proof (cases "skip_zeros (length c1 - length c2) c1")
  case None
  then have "length c1 > length c2" by (cases "length c1 - length c2") auto
  with None have "256 ^ length c2 \<le> be_val c1"
    using skip_zeros_None [OF None] by simp
  with be_val_bound [of c2] None show ?thesis
    by (simp add: CompareBigEndian_def sgn_if)
next
  case (Some c1')
  then have c1: "be_val c1' = be_val c1" "length c1' = length c1 - (length c1 - length c2)"
    using skip_zeros_Some by auto
  show ?thesis
  proof (cases "skip_zeros (length c2 - length c1) c2")
    case None
    then have "length c2 > length c1" by (cases "length c2 - length c1") auto
    with None have "256 ^ length c1 \<le> be_val c2"
      using skip_zeros_None [OF None] by simp
    with be_val_bound [of c1] None Some show ?thesis
      by (simp add: CompareBigEndian_def sgn_if)
  next
    case (Some c2')
    then have "be_val c2' = be_val c2" "length c2' = length c2 - (length c2 - length c1)"
      using skip_zeros_Some by auto
    with c1 Some \<open>skip_zeros (length c1 - length c2) c1 = Some c1'\<close> show ?thesis
      by (simp add: CompareBigEndian_def compare_same_length_sgn)
  qed
qed

lemma length_uint256_bytes [simp]: "length (uint256_bytes h) = 32"
  by (simp add: uint256_bytes_def)

lemma length_uint160_bytes [simp]: "length (uint160_bytes h) = 20"
  by (simp add: uint160_bytes_def)

lemma uint160_bytes_inject [simp]: "uint160_bytes a = uint160_bytes b \<longleftrightarrow> a = b"
proof
  have bound: "unat (x :: u160) < 256 ^ 20" for x
  proof -
    have "unat x < 2 ^ 160" using unsigned_less [of x] by simp
    then show ?thesis by simp
  qed
  assume "uint160_bytes a = uint160_bytes b"
  then have "unat a = unat b"
    unfolding uint160_bytes_def by (rule le_bytes_inject [OF bound bound])
  then show "a = b" by (rule unsigned_word_eqI)
qed simp

section \<open>Properties\<close>

text \<open>\<^verbatim>\<open>CompareBigEndian\<close> compares the numbers its arguments denote, whatever their lengths and leading
  zeros.\<close>

theorem CompareBigEndian_spec:
  "CompareBigEndian c1 c2 = sgn (int (be_val c1) - int (be_val c2))"
  by (rule CompareBigEndian_sgn)

end
