(* ===== verification/KeyStore.thy ===== *)
theory KeyStore
  imports Script Key
begin

text \<open>
  Signing keys and key stores: \<^verbatim>\<open>CKey::Sign\<close> and \<^verbatim>\<open>CKey::GetPubKey\<close> of src/src/key.cpp, the abstract
  class \<^verbatim>\<open>CKeyStore\<close> of src/src/keystore.h as a record of its virtual methods, and
  \<^verbatim>\<open>CBasicKeyStore\<close> of src/src/keystore.h and src/src/keystore.cpp as an implementation of it.

  A key that has been set is the pair of its 32-byte secret and its compression flag; the point
  arithmetic behind it is in the environment.
\<close>

type_synonym CKey = "byte list \<times> bool"

definition GetPubKey :: "env \<Rightarrow> CKey \<Rightarrow> valtype" where
  "GetPubKey E key = i2o_ECPublicKey E (fst key) (snd key)"

definition Sign :: "env \<Rightarrow> CKey \<Rightarrow> u256 \<Rightarrow> valtype option" where
  "Sign E key hash =
     (case ECDSA_do_sign E (fst key) hash of
        None \<Rightarrow> None
      | Some (r, s) \<Rightarrow>
          let halforder = EC_order E div 2
          in Some (i2d_ECDSA_SIG E (r, if s > halforder then EC_order E - s else s)))"

section \<open>The interface\<close>

record CKeyStore =
  HaveKey :: "u160 \<Rightarrow> bool"
  GetKey :: "u160 \<Rightarrow> CKey option"
  HaveCScript :: "u160 \<Rightarrow> bool"
  GetCScript :: "u160 \<Rightarrow> byte list option"

definition KeyStore_GetPubKey :: "env \<Rightarrow> CKeyStore \<Rightarrow> u160 \<Rightarrow> valtype option" where
  "KeyStore_GetPubKey E ks address =
     (case GetKey ks address of None \<Rightarrow> None | Some key \<Rightarrow> Some (GetPubKey E key))"

text \<open>
  What every store promises, and what one promises that can reach its secrets. A store whose secrets are
  encrypted knows its keys while it is locked, but does not return them.
\<close>

locale keystore_base =
  fixes ks :: CKeyStore
  assumes get_have: "GetKey ks a \<noteq> None \<Longrightarrow> HaveKey ks a"
    and have_script: "HaveCScript ks h \<longleftrightarrow> GetCScript ks h \<noteq> None"
begin

lemma pubkey_unavailable: "\<not> HaveKey ks a \<Longrightarrow> KeyStore_GetPubKey E ks a = None"
  using get_have by (cases "GetKey ks a") (auto simp: KeyStore_GetPubKey_def)

end

locale keystore = keystore_base +
  assumes have_get: "HaveKey ks a \<Longrightarrow> GetKey ks a \<noteq> None"
begin

lemma have_key: "HaveKey ks a \<longleftrightarrow> GetKey ks a \<noteq> None"
  using get_have have_get by blast

lemma pubkey_available: "HaveKey ks a \<Longrightarrow> \<exists>key. GetKey ks a = Some key \<and> KeyStore_GetPubKey E ks a = Some (GetPubKey E key)"
  by (auto simp: have_key KeyStore_GetPubKey_def)

end

section \<open>The basic key store\<close>

record CBasicKeyStore =
  mapKeys :: "u160 \<rightharpoonup> byte list \<times> bool"
  mapScripts :: "u160 \<rightharpoonup> byte list"

definition empty_keystore :: CBasicKeyStore where
  "empty_keystore = \<lparr>mapKeys = Map.empty, mapScripts = Map.empty\<rparr>"

definition AddKey :: "env \<Rightarrow> CKey \<Rightarrow> 'a CBasicKeyStore_scheme \<Rightarrow> 'a CBasicKeyStore_scheme" where
  "AddKey E key b = b\<lparr>mapKeys := (mapKeys b)(GetID E (GetPubKey E key) \<mapsto> key)\<rparr>"

definition AddCScript :: "env \<Rightarrow> byte list \<Rightarrow> 'a CBasicKeyStore_scheme \<Rightarrow> bool \<times> 'a CBasicKeyStore_scheme" where
  "AddCScript E redeemScript b =
     (if length redeemScript > MAX_SCRIPT_ELEMENT_SIZE then (False, b)
      else (True, b\<lparr>mapScripts := (mapScripts b)(Hash160 E redeemScript \<mapsto> redeemScript)\<rparr>))"

definition basic_keystore :: "'a CBasicKeyStore_scheme \<Rightarrow> CKeyStore" where
  "basic_keystore b =
     \<lparr>HaveKey = (\<lambda>address. mapKeys b address \<noteq> None),
      GetKey = mapKeys b,
      HaveCScript = (\<lambda>h. mapScripts b h \<noteq> None),
      GetCScript = mapScripts b\<rparr>"

text \<open>
  The invariant of a store: every key is filed under the hash of its public key, every script under
  its own hash, and no stored script is larger than a stack element may be.
\<close>

definition keystore_inv :: "env \<Rightarrow> 'a CBasicKeyStore_scheme \<Rightarrow> bool" where
  "keystore_inv E b \<longleftrightarrow>
     (\<forall>a key. mapKeys b a = Some key \<longrightarrow> GetID E (GetPubKey E key) = a) \<and>
     (\<forall>h s. mapScripts b h = Some s \<longrightarrow> Hash160 E s = h \<and> length s \<le> MAX_SCRIPT_ELEMENT_SIZE)"

interpretation basic: keystore "basic_keystore b" for b
  by unfold_locales (simp_all add: basic_keystore_def)

lemma basic_keystore_sel [simp]:
  "HaveKey (basic_keystore b) a \<longleftrightarrow> mapKeys b a \<noteq> None"
  "GetKey (basic_keystore b) = mapKeys b"
  "HaveCScript (basic_keystore b) h \<longleftrightarrow> mapScripts b h \<noteq> None"
  "GetCScript (basic_keystore b) = mapScripts b"
  by (simp_all add: basic_keystore_def)

lemma keystore_inv_empty [simp]: "keystore_inv E empty_keystore"
  by (simp add: keystore_inv_def empty_keystore_def)

lemma keystore_inv_AddKey: "keystore_inv E b \<Longrightarrow> keystore_inv E (AddKey E key b)"
  by (auto simp: keystore_inv_def AddKey_def)

lemma keystore_inv_AddCScript: "keystore_inv E b \<Longrightarrow> keystore_inv E (snd (AddCScript E s b))"
  by (auto simp: keystore_inv_def AddCScript_def)

lemma GetCScript_AddCScript:
  "length s \<le> MAX_SCRIPT_ELEMENT_SIZE \<Longrightarrow>
   GetCScript (basic_keystore (snd (AddCScript E s b))) (Hash160 E s) = Some s"
  by (simp add: AddCScript_def)

lemma Sign_low_S:
  assumes "0 \<le> s" and "s \<le> EC_order E" and "ECDSA_do_sign E (fst key) hash = Some (r, s)"
  shows "\<exists>s'. Sign E key hash = Some (i2d_ECDSA_SIG E (r, s')) \<and> 0 \<le> s' \<and> s' \<le> EC_order E div 2 \<and> (s' = s \<or> s' = EC_order E - s)"
  using assms by (auto simp: Sign_def Let_def)

section \<open>Properties\<close>

text \<open>Every signature \<^verbatim>\<open>CKey::Sign\<close> returns has an S value of at most half the group order, and that
  value is the one ECDSA produced or its complement.\<close>

theorem Sign_enforces_low_S:
  assumes "ECDSA_do_sign E (fst key) hash = Some (r, s)" and "0 \<le> s" and "s \<le> EC_order E"
  shows "\<exists>s'. Sign E key hash = Some (i2d_ECDSA_SIG E (r, s')) \<and> 0 \<le> s' \<and> s' \<le> EC_order E div 2 \<and>
    (s' = s \<or> s' = EC_order E - s)"
  using Sign_low_S [OF assms(2,3,1)] .

theorem Sign_enforces_low_S_witness:
  "\<exists>s'. Sign (ref_env\<lparr>ECDSA_do_sign := (\<lambda>k h. Some (1, 90)), EC_order := 101\<rparr>) ([], True) 0 =
      Some (i2d_ECDSA_SIG ref_env (1, s')) \<and> 0 \<le> s' \<and> s' \<le> 50 \<and> (s' = 90 \<or> s' = 101 - 90)"
  using Sign_enforces_low_S [of "ref_env\<lparr>ECDSA_do_sign := (\<lambda>k h. Some (1, 90)), EC_order := 101\<rparr>" "([], True)" 0 1 90]
  by simp

text \<open>A key store built by adding keys and redeem scripts files every key under the hash of its public
  key and every script under its own hash, and holds no script above the stack-element limit; a
  script that was accepted is found under its hash.\<close>

theorem keystore_invariant:
  assumes "keystore_inv E b"
  shows "keystore_inv E (AddKey E key b) \<and> keystore_inv E (snd (AddCScript E s b)) \<and>
    (fst (AddCScript E s b) \<longrightarrow> GetCScript (basic_keystore (snd (AddCScript E s b))) (Hash160 E s) = Some s)"
  using keystore_inv_AddKey [OF assms] keystore_inv_AddCScript [OF assms] by (simp add: AddCScript_def)

theorem keystore_invariant_witness:
  "keystore_inv ref_env (AddKey ref_env (replicate 32 1, True) empty_keystore) \<and>
   GetCScript (basic_keystore (snd (AddCScript ref_env [0x51] empty_keystore))) (Hash160 ref_env [0x51]) = Some [0x51]"
  using keystore_invariant [of ref_env empty_keystore "(replicate 32 1, True)" "[0x51]"]
  by (simp add: AddCScript_def MAX_SCRIPT_ELEMENT_SIZE_def)

end
