(* ===== verification/CryptoStore.thy ===== *)
theory CryptoStore
  imports KeyStore
begin

text \<open>
  The encrypted key store: \<^verbatim>\<open>CCryptoKeyStore\<close> of src/src/keystore.h and src/src/keystore.cpp over
  \<^verbatim>\<open>EncryptSecret\<close> and \<^verbatim>\<open>DecryptSecret\<close> of src/src/crypter.cpp. OpenSSL's AES-256-CBC is a parameter, a function to
  encrypt and one to decrypt that take the key, the initialization vector and the text; None is a
  failed call. The derivation of a key from a passphrase is not modelled.
\<close>

section \<open>Encrypting a secret\<close>

record aes256_cbc =
  aes_encrypt :: "byte list \<Rightarrow> byte list \<Rightarrow> byte list \<Rightarrow> byte list option"
  aes_decrypt :: "byte list \<Rightarrow> byte list \<Rightarrow> byte list \<Rightarrow> byte list option"

definition WALLET_CRYPTO_KEY_SIZE :: nat where "WALLET_CRYPTO_KEY_SIZE = 32"

definition EncryptSecret :: "aes256_cbc \<Rightarrow> byte list \<Rightarrow> byte list \<Rightarrow> u256 \<Rightarrow> byte list option" where
  "EncryptSecret C vMasterKey vchPlaintext nIV =
     (let chIV = uint256_bytes nIV
      in if length vMasterKey \<noteq> WALLET_CRYPTO_KEY_SIZE \<or> length chIV \<noteq> WALLET_CRYPTO_KEY_SIZE then None
         else aes_encrypt C vMasterKey chIV vchPlaintext)"

definition DecryptSecret :: "aes256_cbc \<Rightarrow> byte list \<Rightarrow> byte list \<Rightarrow> u256 \<Rightarrow> byte list option" where
  "DecryptSecret C vMasterKey vchCiphertext nIV =
     (let chIV = uint256_bytes nIV
      in if length vMasterKey \<noteq> WALLET_CRYPTO_KEY_SIZE \<or> length chIV \<noteq> WALLET_CRYPTO_KEY_SIZE then None
         else aes_decrypt C vMasterKey chIV vchCiphertext)"

text \<open>Decryption inverts encryption, which succeeds with a key of 32 bytes.\<close>

definition aes_doc :: "aes256_cbc \<Rightarrow> bool" where
  "aes_doc C \<longleftrightarrow> (\<forall>k iv p. length k = 32 \<longrightarrow> (\<exists>c. aes_encrypt C k iv p = Some c \<and> aes_decrypt C k iv c = Some p))"

text \<open>A public key has 33 bytes in compressed form and 65 otherwise, and can be read back.\<close>

definition ec_doc :: "env \<Rightarrow> bool" where
  "ec_doc E \<longleftrightarrow>
     (\<forall>s c. length s = 32 \<longrightarrow> length (i2o_ECPublicKey E s c) = (if c then 33 else 65) \<and> o2i_ECPublicKey E (i2o_ECPublicKey E s c))"

section \<open>The store\<close>

record CCryptoKeyStore = CBasicKeyStore +
  mapCryptedKeys :: "u160 \<rightharpoonup> valtype \<times> byte list"
  vMasterKey :: "byte list"
  fUseCrypto :: bool

definition CCryptoKeyStore_new :: CCryptoKeyStore where
  "CCryptoKeyStore_new =
     \<lparr>mapKeys = Map.empty, mapScripts = Map.empty, mapCryptedKeys = Map.empty, vMasterKey = [], fUseCrypto = False\<rparr>"

definition IsLocked :: "CCryptoKeyStore \<Rightarrow> bool" where
  "IsLocked k \<longleftrightarrow> fUseCrypto k \<and> vMasterKey k = []"

definition SetCrypted :: "CCryptoKeyStore \<Rightarrow> bool \<times> CCryptoKeyStore" where
  "SetCrypted k =
     (if fUseCrypto k then (True, k) else if mapKeys k \<noteq> Map.empty then (False, k) else (True, k\<lparr>fUseCrypto := True\<rparr>))"

definition crypto_Lock :: "CCryptoKeyStore \<Rightarrow> bool \<times> CCryptoKeyStore" where
  "crypto_Lock k = (case SetCrypted k of (False, k1) \<Rightarrow> (False, k1) | (True, k1) \<Rightarrow> (True, k1\<lparr>vMasterKey := []\<rparr>))"

text \<open>The key that \<^verbatim>\<open>SetPubKey\<close> and then \<^verbatim>\<open>SetSecret\<close> leave: it is compressed when a public key of 33 bytes was read.\<close>

definition restored_key :: "env \<Rightarrow> valtype \<Rightarrow> byte list \<Rightarrow> CKey" where
  "restored_key E vchPubKey vchSecret = (vchSecret, SetPubKey E vchPubKey \<and> length vchPubKey = 33)"

definition crypto_Unlock :: "aes256_cbc \<Rightarrow> env \<Rightarrow> byte list \<Rightarrow> CCryptoKeyStore \<Rightarrow> bool \<times> CCryptoKeyStore" where
  "crypto_Unlock C E vMasterKeyIn k =
     (case SetCrypted k of
        (False, k1) \<Rightarrow> (False, k1)
      | (True, k1) \<Rightarrow>
          (case sorted_list_of_set (dom (mapCryptedKeys k1)) of
             [] \<Rightarrow> (True, k1\<lparr>vMasterKey := vMasterKeyIn\<rparr>)
           | a # _ \<Rightarrow>
               (case the (mapCryptedKeys k1 a) of
                  (vchPubKey, vchCryptedSecret) \<Rightarrow>
                    (case DecryptSecret C vMasterKeyIn vchCryptedSecret (Hash E vchPubKey) of
                       None \<Rightarrow> (False, k1)
                     | Some vchSecret \<Rightarrow>
                         if length vchSecret \<noteq> 32 then (False, k1)
                         else if GetPubKey E (restored_key E vchPubKey vchSecret) = vchPubKey then (True, k1\<lparr>vMasterKey := vMasterKeyIn\<rparr>)
                         else (False, k1)))))"

definition AddCryptedKey :: "env \<Rightarrow> valtype \<Rightarrow> byte list \<Rightarrow> CCryptoKeyStore \<Rightarrow> bool \<times> CCryptoKeyStore" where
  "AddCryptedKey E vchPubKey vchCryptedSecret k =
     (case SetCrypted k of
        (False, k1) \<Rightarrow> (False, k1)
      | (True, k1) \<Rightarrow> (True, k1\<lparr>mapCryptedKeys := (mapCryptedKeys k1)(GetID E vchPubKey \<mapsto> (vchPubKey, vchCryptedSecret))\<rparr>))"

definition crypto_AddKey :: "aes256_cbc \<Rightarrow> env \<Rightarrow> CKey \<Rightarrow> CCryptoKeyStore \<Rightarrow> bool \<times> CCryptoKeyStore" where
  "crypto_AddKey C E key k =
     (if \<not> fUseCrypto k then (True, AddKey E key k)
      else if IsLocked k then (False, k)
      else
        (let vchPubKey = GetPubKey E key
         in case EncryptSecret C (vMasterKey k) (fst key) (Hash E vchPubKey) of
              None \<Rightarrow> (False, k)
            | Some vchCryptedSecret \<Rightarrow> AddCryptedKey E vchPubKey vchCryptedSecret k))"

definition crypto_HaveKey :: "CCryptoKeyStore \<Rightarrow> u160 \<Rightarrow> bool" where
  "crypto_HaveKey k a = (if \<not> fUseCrypto k then mapKeys k a \<noteq> None else mapCryptedKeys k a \<noteq> None)"

definition crypto_GetKey :: "aes256_cbc \<Rightarrow> env \<Rightarrow> CCryptoKeyStore \<Rightarrow> u160 \<Rightarrow> CKey option" where
  "crypto_GetKey C E k a =
     (if \<not> fUseCrypto k then mapKeys k a
      else
        (case mapCryptedKeys k a of
           None \<Rightarrow> None
         | Some (vchPubKey, vchCryptedSecret) \<Rightarrow>
             (case DecryptSecret C (vMasterKey k) vchCryptedSecret (Hash E vchPubKey) of
                None \<Rightarrow> None
              | Some vchSecret \<Rightarrow> if length vchSecret \<noteq> 32 then None else Some (restored_key E vchPubKey vchSecret))))"

definition crypto_GetPubKey :: "env \<Rightarrow> CCryptoKeyStore \<Rightarrow> u160 \<Rightarrow> valtype option" where
  "crypto_GetPubKey E k a =
     (if \<not> fUseCrypto k then KeyStore_GetPubKey E (basic_keystore k) a else map_option fst (mapCryptedKeys k a))"

definition crypto_GetKeys :: "CCryptoKeyStore \<Rightarrow> u160 set" where
  "crypto_GetKeys k = (if \<not> fUseCrypto k then dom (mapKeys k) else dom (mapCryptedKeys k))"

text \<open>The loop of \<^verbatim>\<open>EncryptKeys\<close>; None is the \<^verbatim>\<open>key_error\<close> that \<^verbatim>\<open>SetSecret\<close> throws for a secret of another length.\<close>

fun encrypt_loop :: "aes256_cbc \<Rightarrow> env \<Rightarrow> byte list \<Rightarrow> u160 list \<Rightarrow> CCryptoKeyStore \<Rightarrow> (bool \<times> CCryptoKeyStore) option" where
  "encrypt_loop C E mk [] k = Some (True, k\<lparr>mapKeys := Map.empty\<rparr>)"
| "encrypt_loop C E mk (a # as) k =
     (let key = the (mapKeys k a)
      in if length (fst key) \<noteq> 32 then None
         else
           (let vchPubKey = GetPubKey E key
            in case EncryptSecret C mk (fst key) (Hash E vchPubKey) of
                 None \<Rightarrow> Some (False, k)
               | Some vchCryptedSecret \<Rightarrow>
                   (case AddCryptedKey E vchPubKey vchCryptedSecret k of
                      (False, k1) \<Rightarrow> Some (False, k1)
                    | (True, k1) \<Rightarrow> encrypt_loop C E mk as k1)))"

definition EncryptKeys :: "aes256_cbc \<Rightarrow> env \<Rightarrow> byte list \<Rightarrow> CCryptoKeyStore \<Rightarrow> (bool \<times> CCryptoKeyStore) option" where
  "EncryptKeys C E vMasterKeyIn k =
     (if mapCryptedKeys k \<noteq> Map.empty \<or> fUseCrypto k then Some (False, k)
      else encrypt_loop C E vMasterKeyIn (sorted_list_of_set (dom (mapKeys k))) (k\<lparr>fUseCrypto := True\<rparr>))"

definition crypto_keystore :: "aes256_cbc \<Rightarrow> env \<Rightarrow> CCryptoKeyStore \<Rightarrow> CKeyStore" where
  "crypto_keystore C E k = (basic_keystore k)\<lparr>HaveKey := crypto_HaveKey k, GetKey := crypto_GetKey C E k\<rparr>"

interpretation crypto: keystore_base "crypto_keystore C E k" for C E k
  by unfold_locales (auto simp: crypto_keystore_def basic_keystore_def crypto_HaveKey_def crypto_GetKey_def split: if_splits option.splits)

section \<open>Consistency\<close>

text \<open>The comment in the class: encrypted and plain keys exclude each other. Keys are filed under the hash of their public key.\<close>

definition crypto_inv :: "env \<Rightarrow> CCryptoKeyStore \<Rightarrow> bool" where
  "crypto_inv E k \<longleftrightarrow>
     (if fUseCrypto k then mapKeys k = Map.empty else vMasterKey k = [] \<and> mapCryptedKeys k = Map.empty) \<and> keystore_inv E k \<and>
     (\<forall>a key. mapKeys k a = Some key \<longrightarrow> length (fst key) = 32) \<and> (\<forall>a p c. mapCryptedKeys k a = Some (p, c) \<longrightarrow> GetID E p = a)"

text \<open>Every encrypted secret opens with the master key \<open>mk\<close> and belongs to its public key.\<close>

definition sealed :: "aes256_cbc \<Rightarrow> env \<Rightarrow> byte list \<Rightarrow> CCryptoKeyStore \<Rightarrow> bool" where
  "sealed C E mk k \<longleftrightarrow>
     (\<forall>a p c. mapCryptedKeys k a = Some (p, c) \<longrightarrow>
        (\<exists>s. length s = 32 \<and> DecryptSecret C mk c (Hash E p) = Some s \<and> GetPubKey E (restored_key E p s) = p))"

lemma uint256_bytes_length [simp]: "length (uint256_bytes h) = 32"
  by (simp add: uint256_bytes_def)

lemma Encrypt_Decrypt:
  assumes "aes_doc C" and "length mk = 32"
  obtains c where "EncryptSecret C mk s iv = Some c" and "DecryptSecret C mk c iv = Some s"
proof -
  obtain c where "aes_encrypt C mk (uint256_bytes iv) s = Some c \<and> aes_decrypt C mk (uint256_bytes iv) c = Some s"
    using assms unfolding aes_doc_def by blast
  with assms(2) that show thesis by (simp add: EncryptSecret_def DecryptSecret_def WALLET_CRYPTO_KEY_SIZE_def)
qed

lemma Decrypt_locked: "DecryptSecret C [] c iv = None"
  by (simp add: DecryptSecret_def WALLET_CRYPTO_KEY_SIZE_def)

lemma restored_same:
  assumes "ec_doc E" and "length (fst key) = 32"
  shows "restored_key E (GetPubKey E key) (fst key) = key"
  using assms by (cases key) (simp add: ec_doc_def restored_key_def GetPubKey_def SetPubKey_def)

lemma AddCryptedKey_crypted:
  "fUseCrypto k \<Longrightarrow> AddCryptedKey E p c k = (True, k\<lparr>mapCryptedKeys := (mapCryptedKeys k)(GetID E p \<mapsto> (p, c))\<rparr>)"
  by (simp add: AddCryptedKey_def SetCrypted_def)

lemma encrypt_loop_spec:
  assumes "aes_doc C" and "length mk = 32" and "fUseCrypto k" and "distinct as"
    and "\<And>a. a \<in> set as \<Longrightarrow> \<exists>key. mapKeys k a = Some key \<and> length (fst key) = 32 \<and> GetID E (GetPubKey E key) = a"
  shows "\<exists>m. encrypt_loop C E mk as k = Some (True, k\<lparr>mapKeys := Map.empty, mapCryptedKeys := m\<rparr>) \<and> (\<forall>a. a \<notin> set as \<longrightarrow> m a = mapCryptedKeys k a) \<and>
    (\<forall>a key. a \<in> set as \<longrightarrow> mapKeys k a = Some key \<longrightarrow>
       (\<exists>c. m a = Some (GetPubKey E key, c) \<and> DecryptSecret C mk c (Hash E (GetPubKey E key)) = Some (fst key)))"
  using assms(3-5)
proof (induction as arbitrary: k)
  case Nil
  have "k\<lparr>mapKeys := Map.empty, mapCryptedKeys := mapCryptedKeys k\<rparr> = k\<lparr>mapKeys := Map.empty\<rparr>" by simp
  then show ?case by (intro exI [of _ "mapCryptedKeys k"]) simp
next
  case (Cons a as)
  obtain key where key: "mapKeys k a = Some key" "length (fst key) = 32" "GetID E (GetPubKey E key) = a" using Cons.prems(3) [of a] by auto
  obtain c where c: "EncryptSecret C mk (fst key) (Hash E (GetPubKey E key)) = Some c" "DecryptSecret C mk c (Hash E (GetPubKey E key)) = Some (fst key)"
    using Encrypt_Decrypt [OF assms(1,2)] .
  let ?k = "k\<lparr>mapCryptedKeys := (mapCryptedKeys k)(a \<mapsto> (GetPubKey E key, c))\<rparr>"
  have step: "encrypt_loop C E mk (a # as) k = encrypt_loop C E mk as ?k"
    using key c(1) Cons.prems(1) by (simp add: AddCryptedKey_crypted Let_def)
  from Cons.IH [of ?k] Cons.prems obtain m where m: "encrypt_loop C E mk as ?k = Some (True, ?k\<lparr>mapKeys := Map.empty, mapCryptedKeys := m\<rparr>)"
      "\<forall>b. b \<notin> set as \<longrightarrow> m b = mapCryptedKeys ?k b"
      "\<forall>b kb. b \<in> set as \<longrightarrow> mapKeys k b = Some kb \<longrightarrow> (\<exists>c. m b = Some (GetPubKey E kb, c) \<and> DecryptSecret C mk c (Hash E (GetPubKey E kb)) = Some (fst kb))"
    by auto
  have ma: "m a = Some (GetPubKey E key, c)" using m(2) Cons.prems(2) by simp
  have "\<exists>c. m b = Some (GetPubKey E kb, c) \<and> DecryptSecret C mk c (Hash E (GetPubKey E kb)) = Some (fst kb)"
    if "b \<in> set (a # as)" "mapKeys k b = Some kb" for b kb
  proof (cases "b = a")
    case True
    with that(2) ma key(1) c(2) show ?thesis by simp
  next
    case False
    with that(1) have "b \<in> set as" by simp
    with that(2) m(3) show ?thesis by blast
  qed
  moreover have "m b = mapCryptedKeys k b" if "b \<notin> set (a # as)" for b using that m(2) by simp
  ultimately show ?case using step m(1) by (intro exI [of _ m]) simp
qed

lemma EncryptKeys_spec:
  assumes "aes_doc C" and "ec_doc E" and "length mk = 32" and "crypto_inv E k" and "\<not> fUseCrypto k"
  obtains m where "EncryptKeys C E mk k = Some (True, k\<lparr>fUseCrypto := True, mapKeys := Map.empty, mapCryptedKeys := m\<rparr>)"
    and "\<And>a. mapKeys k a = None \<Longrightarrow> m a = None"
    and "\<And>a key. mapKeys k a = Some key \<Longrightarrow>
      \<exists>c. m a = Some (GetPubKey E key, c) \<and> DecryptSecret C mk c (Hash E (GetPubKey E key)) = Some (fst key) \<and> length (fst key) = 32"
proof -
  let ?as = "sorted_list_of_set (dom (mapKeys k))" and ?k = "k\<lparr>fUseCrypto := True\<rparr>"
  have as: "set ?as = dom (mapKeys k)" by simp
  have keys: "length (fst key) = 32" "GetID E (GetPubKey E key) = a" if "mapKeys k a = Some key" for a key
    using that assms(4) unfolding crypto_inv_def keystore_inv_def by blast+
  then have "\<exists>key. mapKeys ?k a = Some key \<and> length (fst key) = 32 \<and> GetID E (GetPubKey E key) = a" if "a \<in> set ?as" for a
    using that unfolding as by auto
  moreover have "fUseCrypto ?k" "distinct ?as" by simp_all
  ultimately have "\<exists>m. encrypt_loop C E mk ?as ?k = Some (True, ?k\<lparr>mapKeys := Map.empty, mapCryptedKeys := m\<rparr>) \<and>
      (\<forall>a. a \<notin> set ?as \<longrightarrow> m a = mapCryptedKeys ?k a) \<and> (\<forall>a key. a \<in> set ?as \<longrightarrow> mapKeys ?k a = Some key \<longrightarrow>
       (\<exists>c. m a = Some (GetPubKey E key, c) \<and> DecryptSecret C mk c (Hash E (GetPubKey E key)) = Some (fst key)))"
    by (intro encrypt_loop_spec [OF assms(1,3)])
  then
  obtain m where m: "encrypt_loop C E mk ?as ?k = Some (True, ?k\<lparr>mapKeys := Map.empty, mapCryptedKeys := m\<rparr>)"
      "\<forall>a. a \<notin> set ?as \<longrightarrow> m a = mapCryptedKeys ?k a"
      "\<forall>a key. a \<in> set ?as \<longrightarrow> mapKeys ?k a = Some key \<longrightarrow>
       (\<exists>c. m a = Some (GetPubKey E key, c) \<and> DecryptSecret C mk c (Hash E (GetPubKey E key)) = Some (fst key))"
    by blast
  have none: "mapCryptedKeys k = Map.empty" using assms(4,5) by (simp add: crypto_inv_def)
  show thesis
  proof (rule that [of m])
    show "EncryptKeys C E mk k = Some (True, ?k\<lparr>mapKeys := Map.empty, mapCryptedKeys := m\<rparr>)"
      using m(1) none assms(5) by (simp add: EncryptKeys_def)
    show "m a = None" if "mapKeys k a = None" for a using that m(2) none unfolding as by auto
    show "\<exists>c. m a = Some (GetPubKey E key, c) \<and> DecryptSecret C mk c (Hash E (GetPubKey E key)) = Some (fst key) \<and> length (fst key) = 32"
      if "mapKeys k a = Some key" for a key
    proof -
      have "a \<in> set ?as" "mapKeys ?k a = Some key" unfolding as using that by auto
      with m(3) keys(1) [OF that] show ?thesis by blast
    qed
  qed
qed

lemma Unlock_sealed:
  assumes "sealed C E mk k" and "fUseCrypto k"
  shows "crypto_Unlock C E mk k = (True, k\<lparr>vMasterKey := mk\<rparr>)"
proof (cases "sorted_list_of_set (dom (mapCryptedKeys k))")
  case Nil
  with assms(2) show ?thesis by (simp add: crypto_Unlock_def SetCrypted_def)
next
  case (Cons a as)
  have "set (sorted_list_of_set (dom (mapCryptedKeys k))) = dom (mapCryptedKeys k)" by simp
  then have "a \<in> dom (mapCryptedKeys k)" using Cons by (metis list.set_intros(1))
  then obtain p c where pc: "mapCryptedKeys k a = Some (p, c)" by auto
  with assms(1) obtain s where "length s = 32" "DecryptSecret C mk c (Hash E p) = Some s" "GetPubKey E (restored_key E p s) = p"
    unfolding sealed_def by blast
  with pc Cons assms(2) show ?thesis by (simp add: crypto_Unlock_def SetCrypted_def)
qed

section \<open>Encrypting a wallet\<close>

text \<open>C29: Encrypting a consistent store succeeds and locks it: it still knows its keys and public keys and returns no secret; unlocking it
  with the master key succeeds and every key, with its form, is the one that was stored before.
\<close>

theorem encryption_roundtrip:
  assumes "aes_doc C" and "ec_doc E" and "length mk = 32" and "crypto_inv E k" and "\<not> fUseCrypto k"
  shows "\<exists>k1 k2. EncryptKeys C E mk k = Some (True, k1) \<and> IsLocked k1 \<and> crypto_GetKey C E k1 = Map.empty \<and>
    crypto_GetKeys k1 = crypto_GetKeys k \<and> crypto_GetPubKey E k1 = crypto_GetPubKey E k \<and>
    crypto_Unlock C E mk k1 = (True, k2) \<and> crypto_GetKey C E k2 = crypto_GetKey C E k"
proof -
  obtain m where m: "EncryptKeys C E mk k = Some (True, k\<lparr>fUseCrypto := True, mapKeys := Map.empty, mapCryptedKeys := m\<rparr>)"
      "\<And>a. mapKeys k a = None \<Longrightarrow> m a = None"
      "\<And>a key. mapKeys k a = Some key \<Longrightarrow>
        \<exists>c. m a = Some (GetPubKey E key, c) \<and> DecryptSecret C mk c (Hash E (GetPubKey E key)) = Some (fst key) \<and> length (fst key) = 32"
    using EncryptKeys_spec [OF assms] by blast
  let ?k1 = "k\<lparr>fUseCrypto := True, mapKeys := Map.empty, mapCryptedKeys := m\<rparr>"
  let ?k2 = "?k1\<lparr>vMasterKey := mk\<rparr>"
  have key: "vMasterKey k = []" using assms(4,5) by (simp add: crypto_inv_def)
  have "sealed C E mk ?k1"
    unfolding sealed_def
  proof (intro allI impI)
    fix a p c
    assume "mapCryptedKeys ?k1 a = Some (p, c)"
    then have ma: "m a = Some (p, c)" by simp
    then obtain key where k: "mapKeys k a = Some key" using m(2) by fastforce
    from m(3) [OF k] ma have "p = GetPubKey E key" "DecryptSecret C mk c (Hash E p) = Some (fst key)" "length (fst key) = 32" by auto
    with restored_same [OF assms(2)] show "\<exists>s. length s = 32 \<and> DecryptSecret C mk c (Hash E p) = Some s \<and> GetPubKey E (restored_key E p s) = p"
      by auto
  qed
  then have un: "crypto_Unlock C E mk ?k1 = (True, ?k2)" by (rule Unlock_sealed) simp
  have same: "crypto_GetKey C E ?k2 a = crypto_GetKey C E k a \<and> crypto_GetPubKey E ?k1 a = crypto_GetPubKey E k a \<and> (m a = None \<longleftrightarrow> mapKeys k a = None)" for a
  proof (cases "mapKeys k a")
    case None
    with m(2) [OF None] assms(5) show ?thesis by (simp add: crypto_GetKey_def crypto_GetPubKey_def KeyStore_GetPubKey_def)
  next
    case (Some key)
    from m(3) [OF Some] restored_same [OF assms(2), of key] Some assms(5) show ?thesis
      by (auto simp: crypto_GetKey_def crypto_GetPubKey_def KeyStore_GetPubKey_def)
  qed
  have "crypto_GetKey C E ?k1 = Map.empty"
    using key by (auto simp: crypto_GetKey_def Decrypt_locked fun_eq_iff split: option.split)
  moreover have nn: "m a = None \<longleftrightarrow> mapKeys k a = None" for a using same by blast
  have "dom m = dom (mapKeys k)" unfolding dom_def nn ..
  then have "crypto_GetKeys ?k1 = crypto_GetKeys k" using assms(5) by (simp add: crypto_GetKeys_def)
  moreover have "crypto_GetKey C E ?k2 = crypto_GetKey C E k" "crypto_GetPubKey E ?k1 = crypto_GetPubKey E k" using same by (auto intro!: ext)
  ultimately show ?thesis using m(1) un key by (auto simp: IsLocked_def)
qed

section \<open>Runs of a store\<close>

text \<open>What a wallet with master key \<open>mk\<close> does to its store.\<close>

inductive crypto_step :: "aes256_cbc \<Rightarrow> env \<Rightarrow> byte list \<Rightarrow> CCryptoKeyStore \<Rightarrow> CCryptoKeyStore \<Rightarrow> bool" for C E mk where
  add: "length (fst key) = 32 \<Longrightarrow> crypto_step C E mk k (snd (crypto_AddKey C E key k))"
| script: "crypto_step C E mk k (snd (AddCScript E redeemScript k))"
| lock: "crypto_step C E mk k (snd (crypto_Lock k))"
| unlock: "crypto_step C E mk k (snd (crypto_Unlock C E mk k))"
| encrypt: "EncryptKeys C E mk k = Some (f, k') \<Longrightarrow> crypto_step C E mk k k'"

definition store_ok :: "aes256_cbc \<Rightarrow> env \<Rightarrow> byte list \<Rightarrow> CCryptoKeyStore \<Rightarrow> bool" where
  "store_ok C E mk k \<longleftrightarrow> crypto_inv E k \<and> sealed C E mk k \<and> (vMasterKey k = [] \<or> vMasterKey k = mk)"

lemma SetCrypted_ok:
  assumes "store_ok C E mk k" and "SetCrypted k = (f, k')"
  shows "store_ok C E mk k' \<and> (f \<longrightarrow> fUseCrypto k') \<and> (\<not> f \<longrightarrow> k' = k)"
  using assms by (auto simp: SetCrypted_def store_ok_def crypto_inv_def sealed_def keystore_inv_def split: if_splits)

lemma master_ok:
  assumes "store_ok C E mk k" and "fUseCrypto k" and "x = [] \<or> x = mk"
  shows "store_ok C E mk (k\<lparr>vMasterKey := x\<rparr>)"
  using assms by (simp add: store_ok_def crypto_inv_def sealed_def keystore_inv_def)

lemma AddCryptedKey_ok:
  assumes "store_ok C E mk k" and "fUseCrypto k" and "ec_doc E" and "length (fst key) = 32"
    and "DecryptSecret C mk c (Hash E (GetPubKey E key)) = Some (fst key)"
  shows "store_ok C E mk (snd (AddCryptedKey E (GetPubKey E key) c k))"
proof -
  have "GetPubKey E (restored_key E (GetPubKey E key) (fst key)) = GetPubKey E key" using restored_same [OF assms(3,4)] by simp
  with assms show ?thesis by (auto simp: store_ok_def crypto_inv_def sealed_def keystore_inv_def AddCryptedKey_crypted)
qed

lemma AddKey_ok:
  assumes "aes_doc C" and "ec_doc E" and "length mk = 32" and "store_ok C E mk k" and "length (fst key) = 32"
  shows "store_ok C E mk (snd (crypto_AddKey C E key k))"
proof (cases "fUseCrypto k")
  case False
  have "keystore_inv E (AddKey E key k)" using assms(4) by (intro keystore_inv_AddKey) (simp add: store_ok_def crypto_inv_def)
  with False assms(4,5) show ?thesis by (auto simp: crypto_AddKey_def store_ok_def crypto_inv_def sealed_def AddKey_def split: if_splits)
next
  case True
  show ?thesis
  proof (cases "vMasterKey k = []")
    case locked: True
    with True assms(4) show ?thesis by (simp add: crypto_AddKey_def IsLocked_def)
  next
    case False
    then have mk: "vMasterKey k = mk" using assms(4) by (simp add: store_ok_def)
    obtain c where c: "EncryptSecret C mk (fst key) (Hash E (GetPubKey E key)) = Some c" "DecryptSecret C mk c (Hash E (GetPubKey E key)) = Some (fst key)"
      using Encrypt_Decrypt [OF assms(1,3)] .
    with True False mk AddCryptedKey_ok [OF assms(4) True assms(2,5) c(2)] show ?thesis by (simp add: crypto_AddKey_def IsLocked_def Let_def)
  qed
qed

lemma EncryptKeys_ok:
  assumes "aes_doc C" and "ec_doc E" and "length mk = 32" and "store_ok C E mk k" and "EncryptKeys C E mk k = Some (f, k')"
  shows "store_ok C E mk k'"
proof (cases "fUseCrypto k")
  case True
  with assms(4,5) show ?thesis by (simp add: EncryptKeys_def)
next
  case False
  have inv: "crypto_inv E k" using assms(4) by (simp add: store_ok_def)
  obtain m where m: "EncryptKeys C E mk k = Some (True, k\<lparr>fUseCrypto := True, mapKeys := Map.empty, mapCryptedKeys := m\<rparr>)"
      "\<And>a. mapKeys k a = None \<Longrightarrow> m a = None"
      "\<And>a key. mapKeys k a = Some key \<Longrightarrow>
        \<exists>c. m a = Some (GetPubKey E key, c) \<and> DecryptSecret C mk c (Hash E (GetPubKey E key)) = Some (fst key) \<and> length (fst key) = 32"
    using EncryptKeys_spec [OF assms(1-3) inv False] by blast
  have "GetID E p = a \<and> (\<exists>s. length s = 32 \<and> DecryptSecret C mk c (Hash E p) = Some s \<and> GetPubKey E (restored_key E p s) = p)" if ma: "m a = Some (p, c)" for a p c
  proof -
    obtain key where k: "mapKeys k a = Some key" using m(2) ma by fastforce
    then have "GetID E (GetPubKey E key) = a" using inv unfolding crypto_inv_def keystore_inv_def by blast
    moreover from m(3) [OF k] ma have "p = GetPubKey E key" "DecryptSecret C mk c (Hash E p) = Some (fst key)" "length (fst key) = 32" by auto
    ultimately show ?thesis using restored_same [OF assms(2)] by auto
  qed
  with m(1) assms(4,5) show ?thesis by (auto simp: store_ok_def crypto_inv_def sealed_def keystore_inv_def)
qed

lemma step_ok:
  assumes "aes_doc C" and "ec_doc E" and "length mk = 32" and "crypto_step C E mk k k'" and "store_ok C E mk k"
  shows "store_ok C E mk k'"
  using assms(4,5)
proof cases
  case (add key)
  with AddKey_ok [OF assms(1-3,5)] show ?thesis by simp
next
  case (script redeemScript)
  have "keystore_inv E k'" unfolding script using assms(5) by (intro keystore_inv_AddCScript) (simp add: store_ok_def crypto_inv_def)
  with script assms(5) show ?thesis by (auto simp: store_ok_def crypto_inv_def sealed_def AddCScript_def split: if_splits)
next
  case lock
  obtain f k1 where k1: "SetCrypted k = (f, k1)" by (cases "SetCrypted k")
  note c = SetCrypted_ok [OF assms(5) k1]
  show ?thesis
  proof (cases f)
    case True
    with lock k1 c show ?thesis by (simp add: crypto_Lock_def master_ok)
  next
    case False
    with lock k1 assms(5) c show ?thesis by (simp add: crypto_Lock_def)
  qed
next
  case unlock
  obtain f k1 where k1: "SetCrypted k = (f, k1)" by (cases "SetCrypted k")
  note c = SetCrypted_ok [OF assms(5) k1]
  show ?thesis
  proof (cases f)
    case True
    with c have s: "sealed C E mk k1" "fUseCrypto k1" "store_ok C E mk k1" by (simp_all add: store_ok_def)
    have "crypto_Unlock C E mk k = crypto_Unlock C E mk k1" using k1 True s(2) by (simp add: crypto_Unlock_def SetCrypted_def)
    with unlock Unlock_sealed [OF s(1,2)] master_ok [OF s(3,2)] show ?thesis by simp
  next
    case False
    with unlock k1 assms(5) c show ?thesis by (simp add: crypto_Unlock_def)
  qed
next
  case (encrypt f)
  with EncryptKeys_ok [OF assms(1-3,5)] show ?thesis by blast
qed

lemma new_ok: "store_ok C E mk CCryptoKeyStore_new"
  by (simp add: store_ok_def crypto_inv_def sealed_def keystore_inv_def CCryptoKeyStore_new_def)

lemma run_ok:
  assumes "aes_doc C" and "ec_doc E" and "length mk = 32" and "(crypto_step C E mk)\<^sup>*\<^sup>* CCryptoKeyStore_new k"
  shows "store_ok C E mk k"
  using assms(4) by induction (auto intro: new_ok step_ok [OF assms(1-3)])

text \<open>While it is not locked, the store meets the contract of a store that reaches its secrets.\<close>

lemma unlocked_keystore:
  assumes "store_ok C E mk k" and "\<not> IsLocked k"
  shows "keystore (crypto_keystore C E k)"
proof -
  have "crypto_GetKey C E k a \<noteq> None" if h: "crypto_HaveKey k a" for a
  proof (cases "fUseCrypto k")
    case False
    with h show ?thesis by (simp add: crypto_HaveKey_def crypto_GetKey_def)
  next
    case True
    with h obtain p c where pc: "mapCryptedKeys k a = Some (p, c)" by (auto simp: crypto_HaveKey_def)
    have "vMasterKey k = mk" "sealed C E mk k" using assms True by (auto simp: store_ok_def IsLocked_def)
    then obtain s where "length s = 32" "DecryptSecret C (vMasterKey k) c (Hash E p) = Some s" using pc unfolding sealed_def by blast
    with pc True show ?thesis by (simp add: crypto_GetKey_def)
  qed
  then show ?thesis by unfold_locales (simp add: crypto_keystore_def)
qed

lemma returned_key:
  assumes "store_ok C E mk k" and "crypto_GetKey C E k a = Some key"
  shows "GetID E (GetPubKey E key) = a"
proof (cases "fUseCrypto k")
  case False
  with assms(2) have "mapKeys k a = Some key" by (simp add: crypto_GetKey_def)
  moreover have "keystore_inv E k" using assms(1) by (simp add: store_ok_def crypto_inv_def)
  ultimately show ?thesis unfolding keystore_inv_def by blast
next
  case True
  with assms(2) obtain p c s where pc: "mapCryptedKeys k a = Some (p, c)" "DecryptSecret C (vMasterKey k) c (Hash E p) = Some s" "key = restored_key E p s"
    by (auto simp: crypto_GetKey_def split: option.splits if_splits)
  have "vMasterKey k = mk" using assms(1) pc(2) Decrypt_locked by (fastforce simp: store_ok_def)
  with assms(1) pc have "GetPubKey E key = p" by (fastforce simp: store_ok_def sealed_def)
  moreover have "GetID E p = a" using assms(1) pc(1) unfolding store_ok_def crypto_inv_def by blast
  ultimately show ?thesis by simp
qed

text \<open>
  In every run of a wallet with one master key, plain and encrypted keys exclude each other, a locked store returns no secret,
  one that is not locked returns the key of every address it knows, and a key that is returned belongs to the address.
\<close>

theorem crypto_store_runs:
  assumes "aes_doc C" and "ec_doc E" and "length mk = 32" and "(crypto_step C E mk)\<^sup>*\<^sup>* CCryptoKeyStore_new k"
  shows "(mapKeys k = Map.empty \<or> mapCryptedKeys k = Map.empty) \<and>
    (crypto_GetKey C E k a = Some key \<longrightarrow> \<not> IsLocked k \<and> GetID E (GetPubKey E key) = a) \<and>
    (\<not> IsLocked k \<longrightarrow> crypto_HaveKey k a = (crypto_GetKey C E k a \<noteq> None))"
proof -
  note ok = run_ok [OF assms]
  have "mapKeys k = Map.empty \<or> mapCryptedKeys k = Map.empty" using ok by (auto simp: store_ok_def crypto_inv_def split: if_splits)
  moreover have "crypto_GetKey C E k a = None" if "IsLocked k"
    using that by (auto simp: crypto_GetKey_def IsLocked_def Decrypt_locked split: option.split)
  moreover have "crypto_HaveKey k a = (crypto_GetKey C E k a \<noteq> None)" if "\<not> IsLocked k"
    using keystore.have_key [OF unlocked_keystore [OF ok that], of a] by (simp add: crypto_keystore_def)
  ultimately show ?thesis using returned_key [OF ok, of a key] by auto
qed

section \<open>Samples\<close>

definition plain_aes :: aes256_cbc where
  "plain_aes = \<lparr>aes_encrypt = (\<lambda>k iv p. Some (1 # p)), aes_decrypt = (\<lambda>k iv c. Some (tl c))\<rparr>"

definition sample_key :: CKey where
  "sample_key = (replicate 32 1, True)"

definition sample_store :: CCryptoKeyStore where
  "sample_store = snd (crypto_AddKey plain_aes ref_env sample_key CCryptoKeyStore_new)"

lemma plain_aes_doc: "aes_doc plain_aes"
  by (simp add: aes_doc_def plain_aes_def)

lemma ref_ec_doc: "ec_doc ref_env"
  by (simp add: ec_doc_def ref_env_def)

lemma sample_key_length: "length (fst sample_key) = 32"
  by (simp add: sample_key_def)

lemma sample_store_known: "\<not> fUseCrypto sample_store" "mapKeys sample_store (GetID ref_env (GetPubKey ref_env sample_key)) = Some sample_key"
  by (simp_all add: sample_store_def crypto_AddKey_def CCryptoKeyStore_new_def AddKey_def)

lemma sample_run: "(crypto_step plain_aes ref_env mk)\<^sup>*\<^sup>* CCryptoKeyStore_new sample_store"
  unfolding sample_store_def by (intro r_into_rtranclp crypto_step.add sample_key_length)

theorem encryption_roundtrip_witness:
  "mapKeys sample_store (GetID ref_env (GetPubKey ref_env sample_key)) = Some sample_key \<and>
   (\<exists>k1 k2. EncryptKeys plain_aes ref_env (replicate 32 7) sample_store = Some (True, k1) \<and> IsLocked k1 \<and>
     crypto_Unlock plain_aes ref_env (replicate 32 7) k1 = (True, k2) \<and> crypto_GetKey plain_aes ref_env k2 = crypto_GetKey plain_aes ref_env sample_store)"
proof -
  have mk: "length (replicate 32 (7 :: byte)) = 32" by simp
  have "crypto_inv ref_env sample_store" using run_ok [OF plain_aes_doc ref_ec_doc mk sample_run] by (simp add: store_ok_def)
  from encryption_roundtrip [OF plain_aes_doc ref_ec_doc mk this sample_store_known(1)] sample_store_known(2) show ?thesis by blast
qed

theorem crypto_store_runs_witness:
  "(crypto_step plain_aes ref_env (replicate 32 7))\<^sup>*\<^sup>* CCryptoKeyStore_new sample_store \<and> \<not> IsLocked sample_store \<and>
   crypto_HaveKey sample_store (GetID ref_env (GetPubKey ref_env sample_key)) =
     (crypto_GetKey plain_aes ref_env sample_store (GetID ref_env (GetPubKey ref_env sample_key)) \<noteq> None)"
proof -
  have mk: "length (replicate 32 (7 :: byte)) = 32" by simp
  have "\<not> IsLocked sample_store" using sample_store_known(1) by (simp add: IsLocked_def)
  with crypto_store_runs [OF plain_aes_doc ref_ec_doc mk sample_run, of "GetID ref_env (GetPubKey ref_env sample_key)" sample_key] sample_run
  show ?thesis by blast
qed

end
