(* ===== verification/Sigcheck.thy ===== *)
theory Sigcheck
  imports Script Key
begin

unbundle bit_operations_syntax

text \<open>
  Signature checking of \<^verbatim>\<open>src/src/script.cpp\<close>: the canonical forms of keys and signatures, the hash a
  signature commits to (\<^verbatim>\<open>SignatureHash\<close>), the cache of valid signatures (\<^verbatim>\<open>CSignatureCache\<close>) and
  \<^verbatim>\<open>CheckSig\<close>. The cache is a static object of the process: every operation that may consult it
  takes it as an argument and returns it. The \<^verbatim>\<open>std::set\<close> inside it is the sorted list of its
  elements, in the lexicographic order of the tuples.
\<close>

section \<open>Canonical keys and signatures\<close>

abbreviation (input) SIGHASH_ALL :: int where "SIGHASH_ALL \<equiv> 1"

abbreviation (input) SIGHASH_NONE :: int where "SIGHASH_NONE \<equiv> 2"

abbreviation (input) SIGHASH_SINGLE :: int where "SIGHASH_SINGLE \<equiv> 3"

abbreviation (input) SIGHASH_ANYONECANPAY :: int where "SIGHASH_ANYONECANPAY \<equiv> 0x80"

definition IsCanonicalPubKey :: "valtype \<Rightarrow> bool" where
  "IsCanonicalPubKey vchPubKey =
     (if length vchPubKey < 33 then False
      else if vchPubKey ! 0 = 0x04 then length vchPubKey = 65
      else if vchPubKey ! 0 = 0x02 \<or> vchPubKey ! 0 = 0x03 then length vchPubKey = 33
      else False)"

definition IsCanonicalSignature :: "valtype \<Rightarrow> bool" where
  "IsCanonicalSignature vchSig =
     (if length vchSig < 9 then False
      else if length vchSig > 73 then False
      else
        (let nHashType = vchSig ! (length vchSig - 1) AND NOT 0x80
         in if nHashType < 1 \<or> nHashType > 3 then False
            else if vchSig ! 0 \<noteq> 0x30 then False
            else if unat (vchSig ! 1) \<noteq> length vchSig - 3 then False
            else
              (let nLenR = unat (vchSig ! 3)
               in if 5 + nLenR \<ge> length vchSig then False
                  else
                    (let nLenS = unat (vchSig ! (5 + nLenR))
                     in if nLenR + nLenS + 7 \<noteq> length vchSig then False
                        else if vchSig ! 2 \<noteq> 0x02 then False
                        else if nLenR = 0 then False
                        else if vchSig ! 4 AND 0x80 \<noteq> 0 then False
                        else if nLenR > 1 \<and> vchSig ! 4 = 0x00 \<and> vchSig ! 5 AND 0x80 = 0 then False
                        else if vchSig ! (4 + nLenR) \<noteq> 0x02 then False
                        else if nLenS = 0 then False
                        else if vchSig ! (6 + nLenR) AND 0x80 \<noteq> 0 then False
                        else if nLenS > 1 \<and> vchSig ! (6 + nLenR) = 0x00 \<and> vchSig ! (7 + nLenR) AND 0x80 = 0
                          then False
                        else CheckSignatureElement (take nLenS (drop (6 + nLenR) vchSig)) True))))"

section \<open>The hash that is signed\<close>

definition GetHash :: "env \<Rightarrow> CTransaction \<Rightarrow> u256" where
  "GetHash E tx = Hash E (Serialize_CTransaction tx)"

text \<open>Blanking of the transaction copy \<^verbatim>\<open>txTmp\<close>; \<open>nIn\<close> is a valid input index.\<close>

definition blank_signatures :: "byte list \<Rightarrow> nat \<Rightarrow> CTxIn list \<Rightarrow> CTxIn list" where
  "blank_signatures scriptCode nIn ins =
     (map (\<lambda>i. i\<lparr>scriptSig := []\<rparr>) ins)[nIn := (ins ! nIn)\<lparr>scriptSig := scriptCode\<rparr>]"

definition release_sequences :: "nat \<Rightarrow> CTxIn list \<Rightarrow> CTxIn list" where
  "release_sequences nIn ins =
     map (\<lambda>(k, i). if k \<noteq> nIn then i\<lparr>nSequence := 0\<rparr> else i) (enumerate 0 ins)"

definition CTxOut_SetNull :: CTxOut where
  "CTxOut_SetNull = \<lparr>nValue = - 1, scriptPubKey = []\<rparr>"

definition SignatureHash :: "env \<Rightarrow> byte list \<Rightarrow> CTransaction \<Rightarrow> nat \<Rightarrow> int \<Rightarrow> u256" where
  "SignatureHash E scriptCode txTo nIn nHashType =
     (if nIn \<ge> length (vin txTo) then 1
      else
        (let code = fst (FindAndDelete [OP_CODESEPARATOR] scriptCode);
             txTmp = txTo\<lparr>vin := blank_signatures code nIn (vin txTo)\<rparr>;
             masked =
               (if nHashType AND 0x1f = SIGHASH_NONE then
                  Some (txTmp\<lparr>vout := [], vin := release_sequences nIn (vin txTmp)\<rparr>)
                else if nHashType AND 0x1f = SIGHASH_SINGLE then
                  (if nIn \<ge> length (vout txTmp) then None
                   else Some (txTmp\<lparr>vout := replicate nIn CTxOut_SetNull @ [vout txTmp ! nIn],
                                    vin := release_sequences nIn (vin txTmp)\<rparr>))
                else Some txTmp)
         in case masked of
              None \<Rightarrow> 1
            | Some t \<Rightarrow>
                (let t' = (if nHashType AND SIGHASH_ANYONECANPAY \<noteq> 0 then t\<lparr>vin := [vin t ! nIn]\<rparr> else t)
                 in Hash E (Serialize_CTransaction t' @ le_bytes 4 (nat (nHashType mod 2 ^ 32))))))"

section \<open>The signature cache\<close>

type_synonym sigdata = "u256 \<times> valtype \<times> valtype"

record CSignatureCache =
  setValid :: "sigdata list"
  nRandDrawn :: nat

definition empty_cache :: CSignatureCache where
  "empty_cache = \<lparr>setValid = [], nRandDrawn = 0\<rparr>"

definition cache_Get :: "CSignatureCache \<Rightarrow> sigdata \<Rightarrow> bool" where
  "cache_Get C k = List.member (setValid C) k"

text \<open>
  The eviction loop; \<^verbatim>\<open>Set\<close> enters it with a positive limit only. The victim is the
  \<^verbatim>\<open>lower_bound\<close> of a random hash, the first element when there is none above it.
\<close>

definition evict_victim :: "sigdata list \<Rightarrow> u256 \<Rightarrow> sigdata" where
  "evict_victim s randomHash =
     (case dropWhile (\<lambda>x. x < (randomHash, [], [])) s of [] \<Rightarrow> hd s | x # _ \<Rightarrow> x)"

function cache_evict :: "env \<Rightarrow> int \<Rightarrow> CSignatureCache \<Rightarrow> CSignatureCache" where
  "cache_evict E nMaxCacheSize C =
     (if nMaxCacheSize > 0 \<and> int (length (setValid C)) > nMaxCacheSize
      then cache_evict E nMaxCacheSize
             \<lparr>setValid = remove1 (evict_victim (setValid C) (RAND_hash E (nRandDrawn C))) (setValid C),
              nRandDrawn = Suc (nRandDrawn C)\<rparr>
      else C)"
  by pat_completeness auto

lemma evict_victim_in: "s \<noteq> [] \<Longrightarrow> evict_victim s h \<in> set s"
proof (cases "dropWhile (\<lambda>x. x < (h, [], [])) s")
  case (Cons x xs)
  then have "x \<in> set (dropWhile (\<lambda>x. x < (h, [], [])) s)" by simp
  then have "x \<in> set s" by (rule set_dropWhileD)
  with Cons show ?thesis by (simp add: evict_victim_def)
next
  case Nil
  moreover assume "s \<noteq> []"
  ultimately show ?thesis unfolding evict_victim_def by (simp only: list.case) simp
qed

termination cache_evict
proof (relation "measure (\<lambda>(E, m, C). length (setValid C))", goal_cases)
  case (2 E m C)
  then have "setValid C \<noteq> []" by auto
  then show ?case
    using evict_victim_in [of "setValid C" "RAND_hash E (nRandDrawn C)"]
    by (simp add: length_remove1)
qed simp

declare cache_evict.simps [simp del]

text \<open>
  \<^verbatim>\<open>CSignatureCache::Set\<close>: nothing is stored for a non-positive limit; otherwise entries are
  evicted while the set exceeds the limit, and the new entry is inserted.
\<close>

definition cache_Set :: "env \<Rightarrow> CSignatureCache \<Rightarrow> sigdata \<Rightarrow> CSignatureCache" where
  "cache_Set E C k =
     (if arg_maxsigcachesize E \<le> 0 then C
      else (let C' = cache_evict E (arg_maxsigcachesize E) C
            in C'\<lparr>setValid := (if List.member (setValid C') k then setValid C' else insort k (setValid C'))\<rparr>))"

section \<open>CheckSig\<close>

definition CheckSig ::
  "env \<Rightarrow> CSignatureCache \<Rightarrow> valtype \<Rightarrow> valtype \<Rightarrow> byte list \<Rightarrow> CTransaction \<Rightarrow> nat \<Rightarrow> int
     \<Rightarrow> bool \<times> CSignatureCache" where
  "CheckSig E C vchSig vchPubKey scriptCode txTo nIn nHashType =
     (if vchSig = [] then (False, C)
      else if nHashType \<noteq> 0 \<and> nHashType \<noteq> uint (last vchSig) then (False, C)
      else
        (let hashType = (if nHashType = 0 then uint (last vchSig) else nHashType);
             sig = butlast vchSig;
             sighash = SignatureHash E scriptCode txTo nIn hashType
         in if cache_Get C (sighash, sig, vchPubKey) then (True, C)
            else if \<not> SetPubKey E vchPubKey then (False, C)
            else if \<not> Verify E vchPubKey sighash sig then (False, C)
            else (True, cache_Set E C (sighash, sig, vchPubKey))))"

section \<open>The cache is transparent\<close>

text \<open>The same decision without a cache.\<close>

definition CheckSig_nocache ::
  "env \<Rightarrow> valtype \<Rightarrow> valtype \<Rightarrow> byte list \<Rightarrow> CTransaction \<Rightarrow> nat \<Rightarrow> int \<Rightarrow> bool" where
  "CheckSig_nocache E vchSig vchPubKey scriptCode txTo nIn nHashType \<longleftrightarrow>
     vchSig \<noteq> [] \<and> (nHashType = 0 \<or> nHashType = uint (last vchSig)) \<and>
     (let sighash = SignatureHash E scriptCode txTo nIn (uint (last vchSig))
      in SetPubKey E vchPubKey \<and> Verify E vchPubKey sighash (butlast vchSig))"

text \<open>Every cached triple is a signature the key verifies, and the limit is respected.\<close>

definition sigdata_valid :: "env \<Rightarrow> sigdata \<Rightarrow> bool" where
  "sigdata_valid E = (\<lambda>(h, sig, key). SetPubKey E key \<and> Verify E key h sig)"

definition cache_inv :: "env \<Rightarrow> CSignatureCache \<Rightarrow> bool" where
  "cache_inv E C \<longleftrightarrow>
     sorted (setValid C) \<and> distinct (setValid C) \<and> (\<forall>k\<in>set (setValid C). sigdata_valid E k) \<and>
     int (length (setValid C)) \<le> max 0 (arg_maxsigcachesize E) + 1"

lemma cache_inv_empty [simp]: "cache_inv E empty_cache"
  by (simp add: cache_inv_def empty_cache_def)

lemma cache_evict_props:
  assumes "0 < m"
  shows "int (length (setValid (cache_evict E m C))) \<le> m"
    and "set (setValid (cache_evict E m C)) \<subseteq> set (setValid C)"
    and "sorted (setValid C) \<Longrightarrow> sorted (setValid (cache_evict E m C))"
    and "distinct (setValid C) \<Longrightarrow> distinct (setValid (cache_evict E m C))"
proof -
  have "int (length (setValid (cache_evict E m C))) \<le> m \<and>
    set (setValid (cache_evict E m C)) \<subseteq> set (setValid C) \<and>
    (sorted (setValid C) \<longrightarrow> sorted (setValid (cache_evict E m C))) \<and>
    (distinct (setValid C) \<longrightarrow> distinct (setValid (cache_evict E m C)))"
    using assms
  proof (induction E m C rule: cache_evict.induct)
    case (1 E m C)
    show ?case
    proof (cases "int (length (setValid C)) > m")
      case True
      define D where "D = \<lparr>setValid = remove1 (evict_victim (setValid C) (RAND_hash E (nRandDrawn C))) (setValid C),
        nRandDrawn = Suc (nRandDrawn C)\<rparr>"
      have eq: "cache_evict E m C = cache_evict E m D"
        using True "1.prems" by (subst cache_evict.simps) (simp add: D_def)
      have "set (setValid D) \<subseteq> set (setValid C)" "sorted (setValid C) \<Longrightarrow> sorted (setValid D)"
        "distinct (setValid C) \<Longrightarrow> distinct (setValid D)"
        by (simp_all add: D_def set_remove1_subset sorted_remove1)
      with "1.IH" True "1.prems" show ?thesis
        unfolding eq D_def [symmetric] by blast
    next
      case False
      then show ?thesis by (subst (1 2 3 4) cache_evict.simps) simp
    qed
  qed
  then show "int (length (setValid (cache_evict E m C))) \<le> m"
    and "set (setValid (cache_evict E m C)) \<subseteq> set (setValid C)"
    and "sorted (setValid C) \<Longrightarrow> sorted (setValid (cache_evict E m C))"
    and "distinct (setValid C) \<Longrightarrow> distinct (setValid (cache_evict E m C))"
    by blast+
qed

lemma cache_inv_Set: "cache_inv E C \<Longrightarrow> sigdata_valid E k \<Longrightarrow> cache_inv E (cache_Set E C k)"
proof -
  assume inv: "cache_inv E C" and k: "sigdata_valid E k"
  show ?thesis
  proof (cases "arg_maxsigcachesize E \<le> 0")
    case True
    with inv show ?thesis by (simp add: cache_Set_def)
  next
    case False
    then have "0 < arg_maxsigcachesize E" by simp
    from cache_evict_props [OF this, where E = E and C = C] inv k False show ?thesis
      by (auto simp: cache_Set_def cache_inv_def Let_def sorted_insort distinct_insort set_insort_key)
  qed
qed

lemma CheckSig_transparent:
  assumes "cache_inv E C"
  shows "fst (CheckSig E C sig key code tx nIn ht) = CheckSig_nocache E sig key code tx nIn ht"
    and "cache_inv E (snd (CheckSig E C sig key code tx nIn ht))"
proof -
  have hit: "SetPubKey E key \<and> Verify E key h s" if "cache_Get C (h, s, key)" for h s
    using assms that by (auto simp: cache_inv_def cache_Get_def sigdata_valid_def)
  have add: "cache_inv E (cache_Set E C (h, s, key))" if "SetPubKey E key" "Verify E key h s" for h s
    using assms that by (simp add: cache_inv_Set sigdata_valid_def)
  show "fst (CheckSig E C sig key code tx nIn ht) = CheckSig_nocache E sig key code tx nIn ht"
    by (auto simp: CheckSig_def CheckSig_nocache_def Let_def dest: hit)
  show "cache_inv E (snd (CheckSig E C sig key code tx nIn ht))"
    using assms by (simp add: CheckSig_def Let_def add)
qed

end
