(* ===== verification/Interp.thy ===== *)
theory Interp
  imports Sigcheck
begin

unbundle bit_operations_syntax

text \<open>
  The script interpreter of \<^verbatim>\<open>src/src/script.cpp\<close> (\<^verbatim>\<open>EvalScript\<close>, \<^verbatim>\<open>VerifyScript\<close>). One definition per
  group of \<^verbatim>\<open>case\<close> labels of the big \<^verbatim>\<open>switch\<close>, in its order; \<open>EvalScript\<close> is the loop around them.
  The stacks are kept top first, so \<^verbatim>\<open>stacktop(-i)\<close> is element \<open>i - 1\<close>. An operation yields
  \<^const>\<open>Inr\<close> of the next state, or \<^const>\<open>Inl\<close> of the stack and cache at the moment the C++ code
  executes \<^verbatim>\<open>return false\<close> or throws (the enclosing \<^verbatim>\<open>catch (...)\<close> also returns false).
\<close>

section \<open>State and helpers\<close>

record eval_state =
  es_pbegincodehash :: "byte list"
  es_stack :: "valtype list"
  es_altstack :: "valtype list"
  es_vfExec :: "bool list"
  es_nOpCount :: int
  es_cache :: CSignatureCache

type_synonym eval_result = "valtype list \<times> CSignatureCache + eval_state"

definition vchFalse :: valtype where "vchFalse = []"

definition vchTrue :: valtype where "vchTrue = [1]"

definition eval_fail :: "eval_state \<Rightarrow> eval_result" where
  "eval_fail st = Inl (es_stack st, es_cache st)"

definition CastToBigNum :: "env \<Rightarrow> valtype \<Rightarrow> int option" where
  "CastToBigNum E vch =
     (if length vch > 4 then None else Some (setvch E 0 (getvch E (setvch E 0 vch))))"

fun CastToBool :: "valtype \<Rightarrow> bool" where
  "CastToBool [] = False"
| "CastToBool (b # vch) = (if b \<noteq> 0 then \<not> (vch = [] \<and> b = 0x80) else CastToBool vch)"

definition bool_val :: "bool \<Rightarrow> valtype" where
  "bool_val b = (if b then vchTrue else vchFalse)"

definition bool_num :: "bool \<Rightarrow> int" where
  "bool_num b = (if b then 1 else 0)"

section \<open>Push value and control\<close>

definition op_pushvalue :: "env \<Rightarrow> byte \<Rightarrow> eval_state \<Rightarrow> eval_result" where
  "op_pushvalue E opcode st =
     Inr (st\<lparr>es_stack := getvch E (CBigNum_int E (uint opcode - (uint OP_1 - 1))) # es_stack st\<rparr>)"

definition op_control :: "bool \<Rightarrow> byte \<Rightarrow> eval_state \<Rightarrow> eval_result" where
  "op_control fExec opcode st =
     (if opcode = OP_IF \<or> opcode = OP_NOTIF then
        (if fExec then
           (case es_stack st of
              [] \<Rightarrow> eval_fail st
            | vch # s \<Rightarrow>
                (let fValue = (if opcode = OP_NOTIF then \<not> CastToBool vch else CastToBool vch)
                 in Inr (st\<lparr>es_stack := s, es_vfExec := fValue # es_vfExec st\<rparr>)))
         else Inr (st\<lparr>es_vfExec := False # es_vfExec st\<rparr>))
      else if opcode = OP_ELSE then
        (case es_vfExec st of
           [] \<Rightarrow> eval_fail st
         | f # fs \<Rightarrow> Inr (st\<lparr>es_vfExec := (\<not> f) # fs\<rparr>))
      else if opcode = OP_ENDIF then
        (case es_vfExec st of [] \<Rightarrow> eval_fail st | f # fs \<Rightarrow> Inr (st\<lparr>es_vfExec := fs\<rparr>))
      else if opcode = OP_VERIFY then
        (case es_stack st of
           [] \<Rightarrow> eval_fail st
         | vch # s \<Rightarrow> if CastToBool vch then Inr (st\<lparr>es_stack := s\<rparr>) else eval_fail st)
      else eval_fail st)"

section \<open>Stack operations\<close>

definition op_altstack :: "byte \<Rightarrow> eval_state \<Rightarrow> eval_result" where
  "op_altstack opcode st =
     (if opcode = OP_TOALTSTACK then
        (case es_stack st of
           [] \<Rightarrow> eval_fail st
         | x # s \<Rightarrow> Inr (st\<lparr>es_stack := s, es_altstack := x # es_altstack st\<rparr>))
      else
        (case es_altstack st of
           [] \<Rightarrow> eval_fail st
         | x # s \<Rightarrow> Inr (st\<lparr>es_stack := x # es_stack st, es_altstack := s\<rparr>)))"

text \<open>Operations that only rearrange a fixed number of top elements.\<close>

definition op_stack_fixed :: "env \<Rightarrow> byte \<Rightarrow> valtype list \<Rightarrow> valtype list option" where
  "op_stack_fixed E opcode s =
     (if opcode = OP_2DROP then (case s of x2 # x1 # s \<Rightarrow> Some s | _ \<Rightarrow> None)
      else if opcode = OP_2DUP then
        (case s of x2 # x1 # s \<Rightarrow> Some (x2 # x1 # x2 # x1 # s) | _ \<Rightarrow> None)
      else if opcode = OP_3DUP then
        (case s of x3 # x2 # x1 # s \<Rightarrow> Some (x3 # x2 # x1 # x3 # x2 # x1 # s) | _ \<Rightarrow> None)
      else if opcode = OP_2OVER then
        (case s of x4 # x3 # x2 # x1 # s \<Rightarrow> Some (x2 # x1 # x4 # x3 # x2 # x1 # s) | _ \<Rightarrow> None)
      else if opcode = OP_2ROT then
        (case s of
           x6 # x5 # x4 # x3 # x2 # x1 # s \<Rightarrow> Some (x2 # x1 # x6 # x5 # x4 # x3 # s)
         | _ \<Rightarrow> None)
      else if opcode = OP_2SWAP then
        (case s of x4 # x3 # x2 # x1 # s \<Rightarrow> Some (x2 # x1 # x4 # x3 # s) | _ \<Rightarrow> None)
      else if opcode = OP_IFDUP then
        (case s of x # s \<Rightarrow> Some (if CastToBool x then x # x # s else x # s) | _ \<Rightarrow> None)
      else if opcode = OP_DEPTH then Some (getvch E (int (length s)) # s)
      else if opcode = OP_DROP then (case s of x # s \<Rightarrow> Some s | _ \<Rightarrow> None)
      else if opcode = OP_DUP then (case s of x # s \<Rightarrow> Some (x # x # s) | _ \<Rightarrow> None)
      else if opcode = OP_NIP then (case s of x2 # x1 # s \<Rightarrow> Some (x2 # s) | _ \<Rightarrow> None)
      else if opcode = OP_OVER then (case s of x2 # x1 # s \<Rightarrow> Some (x1 # x2 # x1 # s) | _ \<Rightarrow> None)
      else if opcode = OP_ROT then
        (case s of x3 # x2 # x1 # s \<Rightarrow> Some (x1 # x3 # x2 # s) | _ \<Rightarrow> None)
      else if opcode = OP_SWAP then (case s of x2 # x1 # s \<Rightarrow> Some (x1 # x2 # s) | _ \<Rightarrow> None)
      else if opcode = OP_TUCK then
        (case s of x2 # x1 # s \<Rightarrow> Some (x2 # x1 # x2 # s) | _ \<Rightarrow> None)
      else None)"

text \<open>\<^verbatim>\<open>OP_PICK\<close> and \<^verbatim>\<open>OP_ROLL\<close>: the index is popped before it is checked.\<close>

definition op_pick_roll :: "env \<Rightarrow> byte \<Rightarrow> eval_state \<Rightarrow> eval_result" where
  "op_pick_roll E opcode st =
     (case es_stack st of
        idx # x # s0 \<Rightarrow>
          (case CastToBigNum E idx of
             None \<Rightarrow> eval_fail st
           | Some bn \<Rightarrow>
               (let n = getint E bn; s = x # s0; st' = st\<lparr>es_stack := s\<rparr>
                in if n < 0 \<or> n \<ge> int (length s) then eval_fail st'
                   else Inr (st\<lparr>es_stack := s ! nat n #
                              (if opcode = OP_ROLL then take (nat n) s @ drop (Suc (nat n)) s else s)\<rparr>)))
      | _ \<Rightarrow> eval_fail st)"

section \<open>Splice and bitwise operations\<close>

text \<open>
  The branches of the disabled opcodes are present in the \<^verbatim>\<open>switch\<close> although the loop rejects those
  opcodes before it is entered; they are translated as they stand.
\<close>

definition op_splice :: "env \<Rightarrow> byte \<Rightarrow> eval_state \<Rightarrow> eval_result" where
  "op_splice E opcode st =
     (if opcode = OP_CAT then
        (case es_stack st of
           x2 # x1 # s \<Rightarrow>
             (let st' = st\<lparr>es_stack := (x1 @ x2) # s\<rparr>
              in if length (x1 @ x2) > MAX_SCRIPT_ELEMENT_SIZE then eval_fail st' else Inr st')
         | _ \<Rightarrow> eval_fail st)
      else if opcode = OP_SUBSTR then
        (case es_stack st of
           sz # bg # vch # s \<Rightarrow>
             (case (CastToBigNum E bg, CastToBigNum E sz) of
                (Some b, Some z) \<Rightarrow>
                  (let nBegin = getint E b; nEnd = nBegin + getint E z
                   in if nBegin < 0 \<or> nEnd < nBegin then eval_fail st
                      else
                        (let nb = min (nat nBegin) (length vch); ne = min (nat nEnd) (length vch)
                         in Inr (st\<lparr>es_stack := drop nb (take ne vch) # s\<rparr>)))
              | _ \<Rightarrow> eval_fail st)
         | _ \<Rightarrow> eval_fail st)
      else if opcode = OP_LEFT \<or> opcode = OP_RIGHT then
        (case es_stack st of
           sz # vch # s \<Rightarrow>
             (case CastToBigNum E sz of
                None \<Rightarrow> eval_fail st
              | Some z \<Rightarrow>
                  (let nSize = getint E z
                   in if nSize < 0 then eval_fail st
                      else
                        (let k = min (nat nSize) (length vch)
                         in Inr (st\<lparr>es_stack :=
                              (if opcode = OP_LEFT then take k vch else drop (length vch - k) vch) # s\<rparr>))))
         | _ \<Rightarrow> eval_fail st)
      else
        (case es_stack st of
           [] \<Rightarrow> eval_fail st
         | x # s \<Rightarrow> Inr (st\<lparr>es_stack := getvch E (int (length x)) # x # s\<rparr>)))"

definition MakeSameSize :: "valtype \<Rightarrow> valtype \<Rightarrow> valtype \<times> valtype" where
  "MakeSameSize vch1 vch2 =
     (let vch1' = (if length vch1 < length vch2 then vch1 @ replicate (length vch2 - length vch1) 0 else vch1)
      in (vch1', if length vch2 < length vch1' then vch2 @ replicate (length vch1' - length vch2) 0 else vch2))"

definition op_bitlogic :: "byte \<Rightarrow> eval_state \<Rightarrow> eval_result" where
  "op_bitlogic opcode st =
     (if opcode = OP_INVERT then
        (case es_stack st of
           [] \<Rightarrow> eval_fail st
         | x # s \<Rightarrow> Inr (st\<lparr>es_stack := map (\<lambda>b. NOT b) x # s\<rparr>))
      else if opcode = OP_AND \<or> opcode = OP_OR \<or> opcode = OP_XOR then
        (case es_stack st of
           x2 # x1 # s \<Rightarrow>
             (let (v1, v2) = MakeSameSize x1 x2
              in Inr (st\<lparr>es_stack :=
                   map2 (if opcode = OP_AND then (AND) else if opcode = OP_OR then (OR) else (XOR)) v1 v2 # s\<rparr>))
         | _ \<Rightarrow> eval_fail st)
      else
        (case es_stack st of
           x2 # x1 # s \<Rightarrow>
             (let fEqual = (x1 = x2); st' = st\<lparr>es_stack := bool_val fEqual # s\<rparr>
              in if opcode = OP_EQUALVERIFY then
                   (if fEqual then Inr (st\<lparr>es_stack := s\<rparr>) else eval_fail st')
                 else Inr st')
         | _ \<Rightarrow> eval_fail st))"

section \<open>Numeric operations\<close>

definition numeric1 :: "byte \<Rightarrow> int \<Rightarrow> int" where
  "numeric1 opcode bn =
     (if opcode = OP_1ADD then bn + 1
      else if opcode = OP_1SUB then bn - 1
      else if opcode = OP_2MUL then CBigNum_shl bn 1
      else if opcode = OP_2DIV then CBigNum_shr bn 1
      else if opcode = OP_NEGATE then - bn
      else if opcode = OP_ABS then (if bn < 0 then - bn else bn)
      else if opcode = OP_NOT then bool_num (bn = 0)
      else bool_num (bn \<noteq> 0))"

definition op_numeric1 :: "env \<Rightarrow> byte \<Rightarrow> eval_state \<Rightarrow> eval_result" where
  "op_numeric1 E opcode st =
     (case es_stack st of
        [] \<Rightarrow> eval_fail st
      | x # s \<Rightarrow>
          (case CastToBigNum E x of
             None \<Rightarrow> eval_fail st
           | Some bn \<Rightarrow> Inr (st\<lparr>es_stack := getvch E (numeric1 opcode bn) # s\<rparr>)))"

text \<open>\<^const>\<open>None\<close> where \<^verbatim>\<open>BN_div\<close> or \<^verbatim>\<open>BN_mod\<close> fails on a zero divisor or a shift count is refused.\<close>

definition numeric2 :: "env \<Rightarrow> byte \<Rightarrow> int \<Rightarrow> int \<Rightarrow> int option" where
  "numeric2 E opcode bn1 bn2 =
     (if opcode = OP_ADD then Some (bn1 + bn2)
      else if opcode = OP_SUB then Some (bn1 - bn2)
      else if opcode = OP_MUL then Some (bn1 * bn2)
      else if opcode = OP_DIV then CBigNum_div bn1 bn2
      else if opcode = OP_MOD then map_option (\<lambda>q. bn1 - q * bn2) (CBigNum_div bn1 bn2)
      else if opcode = OP_LSHIFT then
        (if bn2 < 0 \<or> bn2 > 2048 then None else Some (CBigNum_shl bn1 (unat (getulong E bn2))))
      else if opcode = OP_RSHIFT then
        (if bn2 < 0 \<or> bn2 > 2048 then None else Some (CBigNum_shr bn1 (unat (getulong E bn2))))
      else if opcode = OP_BOOLAND then Some (bool_num (bn1 \<noteq> 0 \<and> bn2 \<noteq> 0))
      else if opcode = OP_BOOLOR then Some (bool_num (bn1 \<noteq> 0 \<or> bn2 \<noteq> 0))
      else if opcode = OP_NUMEQUAL then Some (bool_num (bn1 = bn2))
      else if opcode = OP_NUMEQUALVERIFY then Some (bool_num (bn1 = bn2))
      else if opcode = OP_NUMNOTEQUAL then Some (bool_num (bn1 \<noteq> bn2))
      else if opcode = OP_LESSTHAN then Some (bool_num (bn1 < bn2))
      else if opcode = OP_GREATERTHAN then Some (bool_num (bn1 > bn2))
      else if opcode = OP_LESSTHANOREQUAL then Some (bool_num (bn1 \<le> bn2))
      else if opcode = OP_GREATERTHANOREQUAL then Some (bool_num (bn1 \<ge> bn2))
      else if opcode = OP_MIN then Some (if bn1 < bn2 then bn1 else bn2)
      else Some (if bn1 > bn2 then bn1 else bn2))"

definition op_numeric2 :: "env \<Rightarrow> byte \<Rightarrow> eval_state \<Rightarrow> eval_result" where
  "op_numeric2 E opcode st =
     (case es_stack st of
        x2 # x1 # s \<Rightarrow>
          (case (CastToBigNum E x1, CastToBigNum E x2) of
             (Some bn1, Some bn2) \<Rightarrow>
               (case numeric2 E opcode bn1 bn2 of
                  None \<Rightarrow> eval_fail st
                | Some bn \<Rightarrow>
                    (let st' = st\<lparr>es_stack := getvch E bn # s\<rparr>
                     in if opcode = OP_NUMEQUALVERIFY then
                          (if CastToBool (getvch E bn) then Inr (st\<lparr>es_stack := s\<rparr>) else eval_fail st')
                        else Inr st'))
           | _ \<Rightarrow> eval_fail st)
      | _ \<Rightarrow> eval_fail st)"

definition op_within :: "env \<Rightarrow> eval_state \<Rightarrow> eval_result" where
  "op_within E st =
     (case es_stack st of
        x3 # x2 # x1 # s \<Rightarrow>
          (case (CastToBigNum E x1, CastToBigNum E x2, CastToBigNum E x3) of
             (Some bn1, Some bn2, Some bn3) \<Rightarrow>
               Inr (st\<lparr>es_stack := bool_val (bn2 \<le> bn1 \<and> bn1 < bn3) # s\<rparr>)
           | _ \<Rightarrow> eval_fail st)
      | _ \<Rightarrow> eval_fail st)"

section \<open>Crypto operations\<close>

definition script_hash :: "env \<Rightarrow> byte \<Rightarrow> valtype \<Rightarrow> valtype" where
  "script_hash E opcode vch =
     (if opcode = OP_RIPEMD160 then uint160_bytes (RIPEMD160_digest E vch)
      else if opcode = OP_SHA1 then uint160_bytes (SHA1_digest E vch)
      else if opcode = OP_SHA256 then uint256_bytes (SHA256_digest E vch)
      else if opcode = OP_HASH160 then uint160_bytes (Hash160 E vch)
      else uint256_bytes (Hash E vch))"

definition op_hash :: "env \<Rightarrow> byte \<Rightarrow> eval_state \<Rightarrow> eval_result" where
  "op_hash E opcode st =
     (case es_stack st of
        [] \<Rightarrow> eval_fail st
      | x # s \<Rightarrow> Inr (st\<lparr>es_stack := script_hash E opcode x # s\<rparr>))"

text \<open>The test both signature operations apply to one signature and one key.\<close>

definition sig_ok ::
  "env \<Rightarrow> CSignatureCache \<Rightarrow> valtype \<Rightarrow> valtype \<Rightarrow> byte list \<Rightarrow> CTransaction \<Rightarrow> nat \<Rightarrow> int
     \<Rightarrow> bool \<times> CSignatureCache" where
  "sig_ok E C vchSig vchPubKey scriptCode txTo nIn nHashType =
     (if IsCanonicalSignature vchSig \<and> IsCanonicalPubKey vchPubKey
      then CheckSig E C vchSig vchPubKey scriptCode txTo nIn nHashType
      else (False, C))"

text \<open>The tail shared by both: push the verdict, or consume it for the \<^verbatim>\<open>VERIFY\<close> variant.\<close>

definition push_verdict :: "bool \<Rightarrow> bool \<Rightarrow> valtype list \<Rightarrow> eval_state \<Rightarrow> eval_result" where
  "push_verdict verify fSuccess s st =
     (let st' = st\<lparr>es_stack := bool_val fSuccess # s\<rparr>
      in if verify then (if fSuccess then Inr (st\<lparr>es_stack := s\<rparr>) else eval_fail st') else Inr st')"

definition op_checksig :: "env \<Rightarrow> CTransaction \<Rightarrow> nat \<Rightarrow> int \<Rightarrow> byte \<Rightarrow> eval_state \<Rightarrow> eval_result" where
  "op_checksig E txTo nIn nHashType opcode st =
     (case es_stack st of
        vchPubKey # vchSig # s \<Rightarrow>
          (let scriptCode = fst (FindAndDelete (push_data vchSig) (es_pbegincodehash st));
               (fSuccess, C) = sig_ok E (es_cache st) vchSig vchPubKey scriptCode txTo nIn nHashType
           in push_verdict (opcode = OP_CHECKSIGVERIFY) fSuccess s (st\<lparr>es_cache := C\<rparr>))
      | _ \<Rightarrow> eval_fail st)"

fun multisig_loop ::
  "env \<Rightarrow> CSignatureCache \<Rightarrow> byte list \<Rightarrow> CTransaction \<Rightarrow> nat \<Rightarrow> int \<Rightarrow> valtype list \<Rightarrow> valtype list
     \<Rightarrow> bool \<times> CSignatureCache" where
  "multisig_loop E C scriptCode txTo nIn nHashType [] keys = (True, C)"
| "multisig_loop E C scriptCode txTo nIn nHashType (sig # sigs) [] = (False, C)"
| "multisig_loop E C scriptCode txTo nIn nHashType (sig # sigs) (key # keys) =
     (let (fOk, C') = sig_ok E C sig key scriptCode txTo nIn nHashType;
          sigs' = (if fOk then sigs else sig # sigs)
      in if length sigs' > length keys then (False, C')
         else multisig_loop E C' scriptCode txTo nIn nHashType sigs' keys)"

definition drop_signatures :: "valtype list \<Rightarrow> byte list \<Rightarrow> byte list" where
  "drop_signatures sigs scriptCode = fold (\<lambda>sig code. fst (FindAndDelete (push_data sig) code)) sigs scriptCode"

text \<open>
  \<^verbatim>\<open>OP_CHECKMULTISIG\<close>: from the top, the key count, the keys, the signature count, the signatures
  and one extra element that is popped with them.
\<close>

definition op_checkmultisig :: "env \<Rightarrow> CTransaction \<Rightarrow> nat \<Rightarrow> int \<Rightarrow> byte \<Rightarrow> eval_state \<Rightarrow> eval_result" where
  "op_checkmultisig E txTo nIn nHashType opcode st =
     (let s = es_stack st
      in if length s < 1 then eval_fail st
         else case CastToBigNum E (s ! 0) of
           None \<Rightarrow> eval_fail st
         | Some bnKeys \<Rightarrow>
             (let nKeysCount = getint E bnKeys
              in if nKeysCount < 0 \<or> nKeysCount > 20 then eval_fail st
                 else if es_nOpCount st + nKeysCount > 201 then eval_fail st
                 else
                   (let st1 = st\<lparr>es_nOpCount := es_nOpCount st + nKeysCount\<rparr>; k = nat nKeysCount
                    in if length s < 2 + k then eval_fail st1
                       else case CastToBigNum E (s ! (1 + k)) of
                         None \<Rightarrow> eval_fail st1
                       | Some bnSigs \<Rightarrow>
                           (let nSigsCount = getint E bnSigs; m = nat nSigsCount
                            in if nSigsCount < 0 \<or> nSigsCount > nKeysCount then eval_fail st1
                               else if length s < 3 + k + m then eval_fail st1
                               else
                                 (let keys = take k (drop 1 s); sigs = take m (drop (2 + k) s);
                                      scriptCode = drop_signatures sigs (es_pbegincodehash st);
                                      (fSuccess, C) =
                                        multisig_loop E (es_cache st1) scriptCode txTo nIn nHashType sigs keys
                                  in push_verdict (opcode = OP_CHECKMULTISIGVERIFY) fSuccess
                                       (drop (3 + k + m) s) (st1\<lparr>es_cache := C\<rparr>))))))"

section \<open>The loop\<close>

definition disabled_opcode :: "byte \<Rightarrow> bool" where
  "disabled_opcode opcode \<longleftrightarrow>
     opcode = OP_CAT \<or> opcode = OP_SUBSTR \<or> opcode = OP_LEFT \<or> opcode = OP_RIGHT \<or>
     opcode = OP_INVERT \<or> opcode = OP_AND \<or> opcode = OP_OR \<or> opcode = OP_XOR \<or>
     opcode = OP_2MUL \<or> opcode = OP_2DIV \<or> opcode = OP_MUL \<or> opcode = OP_DIV \<or>
     opcode = OP_MOD \<or> opcode = OP_LSHIFT \<or> opcode = OP_RSHIFT"

text \<open>The \<^verbatim>\<open>switch\<close>, label groups in source order; \<open>pc\<close> is the script after the instruction.\<close>

definition op_switch ::
  "env \<Rightarrow> CTransaction \<Rightarrow> nat \<Rightarrow> int \<Rightarrow> bool \<Rightarrow> byte list \<Rightarrow> byte \<Rightarrow> eval_state \<Rightarrow> eval_result" where
  "op_switch E txTo nIn nHashType fExec pc opcode st =
     (if opcode = OP_1NEGATE \<or> (OP_1 \<le> opcode \<and> opcode \<le> OP_16) then op_pushvalue E opcode st
      else if opcode = OP_NOP \<or> (OP_NOP1 \<le> opcode \<and> opcode \<le> OP_NOP10) then Inr st
      else if opcode = OP_IF \<or> opcode = OP_NOTIF \<or> opcode = OP_ELSE \<or> opcode = OP_ENDIF \<or>
              opcode = OP_VERIFY \<or> opcode = OP_RETURN then op_control fExec opcode st
      else if opcode = OP_TOALTSTACK \<or> opcode = OP_FROMALTSTACK then op_altstack opcode st
      else if (OP_2DROP \<le> opcode \<and> opcode \<le> OP_OVER) \<or> (OP_ROT \<le> opcode \<and> opcode \<le> OP_TUCK) then
        (case op_stack_fixed E opcode (es_stack st) of
           None \<Rightarrow> eval_fail st
         | Some s \<Rightarrow> Inr (st\<lparr>es_stack := s\<rparr>))
      else if opcode = OP_PICK \<or> opcode = OP_ROLL then op_pick_roll E opcode st
      else if OP_CAT \<le> opcode \<and> opcode \<le> OP_SIZE then op_splice E opcode st
      else if OP_INVERT \<le> opcode \<and> opcode \<le> OP_EQUALVERIFY then op_bitlogic opcode st
      else if OP_1ADD \<le> opcode \<and> opcode \<le> OP_0NOTEQUAL then op_numeric1 E opcode st
      else if OP_ADD \<le> opcode \<and> opcode \<le> OP_MAX then op_numeric2 E opcode st
      else if opcode = OP_WITHIN then op_within E st
      else if OP_RIPEMD160 \<le> opcode \<and> opcode \<le> OP_HASH256 then op_hash E opcode st
      else if opcode = OP_CODESEPARATOR then Inr (st\<lparr>es_pbegincodehash := pc\<rparr>)
      else if opcode = OP_CHECKSIG \<or> opcode = OP_CHECKSIGVERIFY then
        op_checksig E txTo nIn nHashType opcode st
      else if opcode = OP_CHECKMULTISIG \<or> opcode = OP_CHECKMULTISIGVERIFY then
        op_checkmultisig E txTo nIn nHashType opcode st
      else eval_fail st)"

text \<open>One iteration of the loop, after the instruction was read.\<close>

definition eval_step ::
  "env \<Rightarrow> CTransaction \<Rightarrow> nat \<Rightarrow> int \<Rightarrow> byte \<Rightarrow> valtype \<Rightarrow> byte list \<Rightarrow> eval_state \<Rightarrow> eval_result" where
  "eval_step E txTo nIn nHashType opcode vchPushValue pc st =
     (let fExec = (\<forall>f \<in> set (es_vfExec st). f)
      in if length vchPushValue > MAX_SCRIPT_ELEMENT_SIZE then eval_fail st
         else
           (let st1 = (if opcode > OP_16 then st\<lparr>es_nOpCount := es_nOpCount st + 1\<rparr> else st)
            in if opcode > OP_16 \<and> es_nOpCount st1 > 201 then eval_fail st1
               else if disabled_opcode opcode then eval_fail st1
               else
                 (case (if fExec \<and> opcode \<le> OP_PUSHDATA4
                        then Inr (st1\<lparr>es_stack := vchPushValue # es_stack st1\<rparr>)
                        else if fExec \<or> (OP_IF \<le> opcode \<and> opcode \<le> OP_ENDIF)
                        then op_switch E txTo nIn nHashType fExec pc opcode st1
                        else Inr st1) of
                    Inl r \<Rightarrow> Inl r
                  | Inr st2 \<Rightarrow>
                      if length (es_stack st2) + length (es_altstack st2) > 1000 then eval_fail st2
                      else Inr st2)))"

function eval_loop ::
  "env \<Rightarrow> CTransaction \<Rightarrow> nat \<Rightarrow> int \<Rightarrow> byte list \<Rightarrow> eval_state \<Rightarrow> eval_result" where
  "eval_loop E txTo nIn nHashType pc st =
     (if pc = [] then Inr st
      else case GetOp pc of
             None \<Rightarrow> eval_fail st
           | Some (opcode, vchPushValue, pc') \<Rightarrow>
               (case eval_step E txTo nIn nHashType opcode vchPushValue pc' st of
                  Inl r \<Rightarrow> Inl r
                | Inr st' \<Rightarrow> eval_loop E txTo nIn nHashType pc' st'))"
  by pat_completeness auto
termination
  by (relation "measure (\<lambda>(E, txTo, nIn, nHashType, pc, st). length pc)") (auto dest: GetOp_rest_shorter)

declare eval_loop.simps [simp del]

definition EvalScript ::
  "env \<Rightarrow> CSignatureCache \<Rightarrow> valtype list \<Rightarrow> byte list \<Rightarrow> CTransaction \<Rightarrow> nat \<Rightarrow> int
     \<Rightarrow> bool \<times> valtype list \<times> CSignatureCache" where
  "EvalScript E C stack0 script txTo nIn nHashType =
     (if length script > 10000 then (False, stack0, C)
      else case eval_loop E txTo nIn nHashType script
             \<lparr>es_pbegincodehash = script, es_stack = stack0, es_altstack = [], es_vfExec = [],
              es_nOpCount = 0, es_cache = C\<rparr> of
             Inl (s, C') \<Rightarrow> (False, s, C')
           | Inr st \<Rightarrow> (es_vfExec st = [], es_stack st, es_cache st))"

definition VerifyScript ::
  "env \<Rightarrow> CSignatureCache \<Rightarrow> byte list \<Rightarrow> byte list \<Rightarrow> CTransaction \<Rightarrow> nat \<Rightarrow> int
     \<Rightarrow> bool \<times> CSignatureCache" where
  "VerifyScript E C sig pubkey txTo nIn nHashType =
     (case EvalScript E C [] sig txTo nIn nHashType of
        (ok1, stackCopy, C1) \<Rightarrow>
          if \<not> ok1 then (False, C1)
          else case EvalScript E C1 stackCopy pubkey txTo nIn nHashType of
            (ok2, stack2, C2) \<Rightarrow>
              if \<not> ok2 then (False, C2)
              else (case stack2 of
                  [] \<Rightarrow> (False, C2)
                | t # _ \<Rightarrow>
                    if \<not> CastToBool t then (False, C2)
                    else if IsPayToScriptHash pubkey then
                      (if \<not> IsPushOnly sig then (False, C2)
                       else case stackCopy of
                           [] \<Rightarrow> (False, C2)
                         | pubKeySerialized # rest \<Rightarrow>
                             (case EvalScript E C2 rest pubKeySerialized txTo nIn nHashType of
                                (ok3, stack3, C3) \<Rightarrow>
                                  if \<not> ok3 then (False, C3)
                                  else (case stack3 of
                                      [] \<Rightarrow> (False, C3)
                                    | t # _ \<Rightarrow> (CastToBool t, C3))))
                    else (True, C2)))"

end
