(* ===== verification/Interp_Cache.thy ===== *)
theory Interp_Cache
  imports Interp
begin

text \<open>
  The signature cache of \<open>CheckSig\<close> (src/src/script.cpp) is shared by every verification of the
  node. This theory shows that script evaluation is transparent to it: on caches that hold valid
  entries only, the verdict and the final stack of \<^const>\<open>EvalScript\<close> and the verdict of
  \<^const>\<open>VerifyScript\<close> are the same whatever the cache contains, and the cache left behind again
  holds valid entries only. The proof composes a property of handlers, \<open>cache_blind\<close>, along the
  structure of the interpreter: handlers, the opcode switch, one step, the loop.
\<close>

section \<open>The verdict does not depend on the signature cache\<close>

definition with_cache :: "CSignatureCache \<Rightarrow> eval_result \<Rightarrow> eval_result" where
  "with_cache C r = (case r of Inl (s, _) \<Rightarrow> Inl (s, C) | Inr st \<Rightarrow> Inr (st\<lparr>es_cache := C\<rparr>))"

definition result_cache :: "eval_result \<Rightarrow> CSignatureCache" where
  "result_cache r = (case r of Inl (_, C) \<Rightarrow> C | Inr st \<Rightarrow> es_cache st)"

text \<open>
  A handler is cache-blind when, on caches that hold valid entries only, its outcome apart from the
  cache is the same whatever the cache, and the cache it leaves is again valid.
\<close>

definition cache_blind :: "env \<Rightarrow> (eval_state \<Rightarrow> eval_result) \<Rightarrow> bool" where
  "cache_blind E f \<longleftrightarrow>
     (\<forall>st C. cache_inv E (es_cache st) \<longrightarrow> cache_inv E C \<longrightarrow>
        with_cache empty_cache (f (st\<lparr>es_cache := C\<rparr>)) = with_cache empty_cache (f st) \<and>
        cache_inv E (result_cache (f st)))"

lemma with_cache_simps [simp]:
  "with_cache C (Inr st) = Inr (st\<lparr>es_cache := C\<rparr>)" "with_cache C (Inl (s, D)) = Inl (s, C)"
  "with_cache C (eval_fail st) = eval_fail (st\<lparr>es_cache := C\<rparr>)"
  "with_cache C (with_cache D r) = with_cache C r"
  by (auto simp: with_cache_def eval_fail_def split: sum.splits)

lemma result_cache_simps [simp]:
  "result_cache (Inr st) = es_cache st" "result_cache (Inl (s, D)) = D"
  "result_cache (eval_fail st) = es_cache st" "result_cache (with_cache C r) = C"
  by (auto simp: result_cache_def with_cache_def eval_fail_def split: sum.splits)

lemma pure_handler_blind:
  assumes "\<And>st C. f (st\<lparr>es_cache := C\<rparr>) = with_cache C (f st)"
  shows "cache_blind E f"
proof -
  have "f st = with_cache (es_cache st) (f st)" for st
    using assms [where st = st and C = "es_cache st"] by simp
  then have "result_cache (f st) = es_cache st" for st
    by (metis result_cache_simps(4))
  then show ?thesis by (simp add: cache_blind_def assms)
qed

lemma pure_handlers:
  "cache_blind E (op_pushvalue E c)" "cache_blind E (op_control f c)" "cache_blind E (op_altstack c)"
  "cache_blind E (op_pick_roll E c)" "cache_blind E (op_splice E c)" "cache_blind E (op_bitlogic c)"
  "cache_blind E (op_numeric1 E c)" "cache_blind E (op_numeric2 E c)" "cache_blind E (op_within E)"
  "cache_blind E (op_hash E c)" "cache_blind E eval_fail" "cache_blind E Inr"
  "cache_blind E (\<lambda>st. Inr (st\<lparr>es_pbegincodehash := pc\<rparr>))"
  "cache_blind E (\<lambda>st. case op_stack_fixed E c (es_stack st) of
     None \<Rightarrow> eval_fail st | Some s \<Rightarrow> Inr (st\<lparr>es_stack := s\<rparr>))"
  by (rule pure_handler_blind;
      simp add: op_pushvalue_def op_control_def op_altstack_def op_pick_roll_def op_splice_def
        op_bitlogic_def op_numeric1_def op_numeric2_def op_within_def op_hash_def Let_def eval_fail_def
        split: list.split option.split prod.split)+

lemma cache_blindD:
  assumes "cache_blind E f" "cache_inv E (es_cache st)" "cache_inv E C"
  shows "with_cache empty_cache (f (st\<lparr>es_cache := C\<rparr>)) = with_cache empty_cache (f st)"
    and "cache_inv E (result_cache (f st))"
  using assms unfolding cache_blind_def by blast+

lemma sig_ok_transparent:
  assumes "cache_inv E C"
  shows "fst (sig_ok E C sig key code tx nIn ht) \<longleftrightarrow>
      IsCanonicalSignature sig \<and> IsCanonicalPubKey key \<and> CheckSig_nocache E sig key code tx nIn ht"
    and "cache_inv E (snd (sig_ok E C sig key code tx nIn ht))"
  using assms by (auto simp add: sig_ok_def CheckSig_transparent)

lemma push_verdict_cache:
  "with_cache D (push_verdict v b s (st\<lparr>es_cache := C\<rparr>)) = with_cache D (push_verdict v b s st)"
  "result_cache (push_verdict v b s st) = es_cache st"
  by (simp_all add: push_verdict_def Let_def eval_fail_def)

lemma op_checksig_blind: "cache_blind E (op_checksig E tx nIn ht c)"
  unfolding cache_blind_def
proof (intro allI impI)
  fix st :: eval_state and C :: CSignatureCache
  assume inv: "cache_inv E (es_cache st)" "cache_inv E C"
  show "with_cache empty_cache (op_checksig E tx nIn ht c (st\<lparr>es_cache := C\<rparr>)) =
      with_cache empty_cache (op_checksig E tx nIn ht c st) \<and>
    cache_inv E (result_cache (op_checksig E tx nIn ht c st))"
  proof (cases "\<exists>k s r. es_stack st = k # s # r")
    case True
    then obtain k s r where st: "es_stack st = k # s # r" by blast
    define code where "code = fst (FindAndDelete (push_data s) (es_pbegincodehash st))"
    have f: "fst (sig_ok E C s k code tx nIn ht) = fst (sig_ok E (es_cache st) s k code tx nIn ht)"
      using inv by (simp add: sig_ok_transparent)
    show ?thesis
      using inv st f push_verdict_cache(1) [where st = st]
      by (simp add: op_checksig_def Let_def split_beta push_verdict_cache sig_ok_transparent flip: code_def)
  next
    case False
    then have "op_checksig E tx nIn ht c st = eval_fail st"
      "op_checksig E tx nIn ht c (st\<lparr>es_cache := C\<rparr>) = eval_fail (st\<lparr>es_cache := C\<rparr>)"
      by (auto simp: op_checksig_def split: list.splits)
    with inv show ?thesis by simp
  qed
qed

text \<open>The multisignature loop with the test written without a cache.\<close>

fun multisig_match :: "(valtype \<Rightarrow> valtype \<Rightarrow> bool) \<Rightarrow> valtype list \<Rightarrow> valtype list \<Rightarrow> bool" where
  "multisig_match ok [] keys = True"
| "multisig_match ok (sig # sigs) [] = False"
| "multisig_match ok (sig # sigs) (key # keys) =
     (let sigs' = (if ok sig key then sigs else sig # sigs)
      in if length sigs' > length keys then False else multisig_match ok sigs' keys)"

definition sig_ok_nocache :: "env \<Rightarrow> byte list \<Rightarrow> CTransaction \<Rightarrow> nat \<Rightarrow> int \<Rightarrow> valtype \<Rightarrow> valtype \<Rightarrow> bool" where
  "sig_ok_nocache E code tx nIn ht sig key \<longleftrightarrow>
     IsCanonicalSignature sig \<and> IsCanonicalPubKey key \<and> CheckSig_nocache E sig key code tx nIn ht"

lemma multisig_loop_transparent:
  assumes "cache_inv E C"
  shows "fst (multisig_loop E C code tx nIn ht sigs keys) =
      multisig_match (sig_ok_nocache E code tx nIn ht) sigs keys \<and>
    cache_inv E (snd (multisig_loop E C code tx nIn ht sigs keys))"
  using assms
proof (induction E C code tx nIn ht sigs keys rule: multisig_loop.induct)
  case (3 E C code tx nIn ht sig sigs key keys)
  obtain b D where so: "sig_ok E C sig key code tx nIn ht = (b, D)" by fastforce
  have b: "b = sig_ok_nocache E code tx nIn ht sig key" "cache_inv E D"
    using sig_ok_transparent [OF "3.prems", of sig key code tx nIn ht] so
    by (simp_all add: sig_ok_nocache_def)
  show ?case
  proof (cases "length (if b then sigs else sig # sigs) > length keys")
    case True
    with so b show ?thesis by (auto simp: Let_def)
  next
    case False
    from "3.IH" [OF so [symmetric] refl refl False b(2)] False so b show ?thesis
      by (simp add: Let_def)
  qed
qed simp_all

lemma op_checkmultisig_blind: "cache_blind E (op_checkmultisig E tx nIn ht c)"
  unfolding cache_blind_def
proof (intro allI impI)
  fix st :: eval_state and C :: CSignatureCache
  assume inv: "cache_inv E (es_cache st)" "cache_inv E C"
  have m: "fst (multisig_loop E C code tx nIn ht sigs keys) =
      fst (multisig_loop E (es_cache st) code tx nIn ht sigs keys)"
    "cache_inv E (snd (multisig_loop E (es_cache st) code tx nIn ht sigs keys))" for code sigs keys
    using inv by (simp_all add: multisig_loop_transparent)
  have p: "with_cache D (push_verdict v b s (st\<lparr>es_nOpCount := n, es_cache := C\<rparr>)) =
     with_cache D (push_verdict v b s (st\<lparr>es_nOpCount := n\<rparr>))" for D v b s n C
    by (rule push_verdict_cache)
  show "with_cache empty_cache (op_checkmultisig E tx nIn ht c (st\<lparr>es_cache := C\<rparr>)) =
      with_cache empty_cache (op_checkmultisig E tx nIn ht c st) \<and>
    cache_inv E (result_cache (op_checkmultisig E tx nIn ht c st))"
    using inv by (simp add: op_checkmultisig_def Let_def split_beta m p push_verdict_cache eval_fail_def
        split: option.split)
qed

lemmas handlers_blind = pure_handlers op_checksig_blind op_checkmultisig_blind

lemma cache_blind_if: "cache_blind E f \<Longrightarrow> cache_blind E g \<Longrightarrow> cache_blind E (\<lambda>st. if b then f st else g st)"
  by (cases b) simp_all

lemma op_switch_blind: "cache_blind E (op_switch E tx nIn ht fExec pc c)"
  unfolding op_switch_def by (intro cache_blind_if handlers_blind)


text \<open>The loop: both runs stay in step, and end in valid caches.\<close>

lemma cache_blind_cond:
  assumes "\<And>st C. P (st\<lparr>es_cache := C\<rparr>) = P st" and "cache_blind E f" and "cache_blind E g"
  shows "cache_blind E (\<lambda>st. if P st then f st else g st)"
  using assms unfolding cache_blind_def by simp

lemma cache_blind_bind:
  assumes f: "cache_blind E f" and g: "cache_blind E g"
  shows "cache_blind E (\<lambda>st. case f st of Inl r \<Rightarrow> Inl r | Inr st' \<Rightarrow> g st')"
  unfolding cache_blind_def
proof (intro allI impI)
  fix st :: eval_state and C :: CSignatureCache
  assume inv: "cache_inv E (es_cache st)" "cache_inv E C"
  let ?b = "f (st\<lparr>es_cache := C\<rparr>)" and ?h = "\<lambda>st. case f st of Inl r \<Rightarrow> Inl r | Inr st' \<Rightarrow> g st'"
  note S = cache_blindD [OF f inv]
  have invb: "cache_inv E (result_cache ?b)"
    using cache_blindD(2) [OF f, of "st\<lparr>es_cache := C\<rparr>" C] inv by simp
  show "with_cache empty_cache (?h (st\<lparr>es_cache := C\<rparr>)) = with_cache empty_cache (?h st) \<and>
    cache_inv E (result_cache (?h st))"
  proof (cases "f st")
    case (Inl x)
    with S obtain D where "?b = Inl (fst x, D)"
      by (cases ?b) (auto simp: with_cache_def split: prod.splits)
    with Inl S show ?thesis by (cases x) simp
  next
    case (Inr sa)
    with S obtain sb where b: "?b = Inr sb" "sb\<lparr>es_cache := empty_cache\<rparr> = sa\<lparr>es_cache := empty_cache\<rparr>"
      by (cases ?b) (auto simp: with_cache_def split: prod.splits)
    have sb: "sb = sa\<lparr>es_cache := es_cache sb\<rparr>"
      using b(2) by (cases sa, cases sb) simp
    have "cache_inv E (es_cache sa)" "cache_inv E (es_cache sb)"
      using S(2) invb Inr b by simp_all
    from cache_blindD [OF g this] show ?thesis
      using Inr b by (simp flip: sb)
  qed
qed

lemma cache_blind_pre:
  assumes f: "cache_blind E f" and "\<And>st C. p (st\<lparr>es_cache := C\<rparr>) = (p st)\<lparr>es_cache := C\<rparr>"
    and "\<And>st. es_cache (p st) = es_cache st"
  shows "cache_blind E (\<lambda>st. f (p st))"
  using assms unfolding cache_blind_def by simp

definition count_op :: "byte \<Rightarrow> eval_state \<Rightarrow> eval_state" where
  "count_op c st = (if c > OP_16 then st\<lparr>es_nOpCount := es_nOpCount st + 1\<rparr> else st)"

definition run_op :: "(eval_state \<Rightarrow> eval_result) \<Rightarrow> (eval_state \<Rightarrow> eval_result) \<Rightarrow> byte \<Rightarrow> valtype \<Rightarrow> eval_state \<Rightarrow> eval_result" where
  "run_op t f c v st = (if (\<forall>f \<in> set (es_vfExec st). f)
      then (if c \<le> OP_PUSHDATA4 then Inr (st\<lparr>es_stack := v # es_stack st\<rparr>) else t st)
      else if OP_IF \<le> c \<and> c \<le> OP_ENDIF then f st else Inr st)"

definition check_stacks :: "eval_state \<Rightarrow> eval_result" where
  "check_stacks st = (if length (es_stack st) + length (es_altstack st) > 1000 then eval_fail st else Inr st)"

definition counted_op :: "(eval_state \<Rightarrow> eval_result) \<Rightarrow> byte \<Rightarrow> eval_state \<Rightarrow> eval_result" where
  "counted_op g c st = (if c > OP_16 \<and> es_nOpCount st > 201 then eval_fail st
    else if disabled_opcode c then eval_fail st
    else case g st of Inl r \<Rightarrow> Inl r | Inr st' \<Rightarrow> check_stacks st')"

lemma count_op_cache:
  "count_op c (st\<lparr>es_cache := C\<rparr>) = (count_op c st)\<lparr>es_cache := C\<rparr>" "es_cache (count_op c st) = es_cache st"
  "es_vfExec (count_op c st) = es_vfExec st"
  by (simp_all add: count_op_def)

lemma eval_step_alt:
  "eval_step E tx nIn ht c v pc =
     (\<lambda>st. if length v > MAX_SCRIPT_ELEMENT_SIZE then eval_fail st
       else counted_op (run_op (op_switch E tx nIn ht True pc c) (op_switch E tx nIn ht False pc c) c v) c
              (count_op c st))"
proof (rule ext)
  fix st :: eval_state
  define fx where "fx \<longleftrightarrow> (\<forall>f \<in> set (es_vfExec st). f)"
  show "eval_step E tx nIn ht c v pc st =
     (if length v > MAX_SCRIPT_ELEMENT_SIZE then eval_fail st
      else counted_op (run_op (op_switch E tx nIn ht True pc c) (op_switch E tx nIn ht False pc c) c v) c
              (count_op c st))"
    unfolding eval_step_def counted_op_def check_stacks_def run_op_def Let_def count_op_cache(3)
      fx_def [symmetric] unfolding count_op_def
    by (cases fx) (simp_all only: simp_thms if_True if_False)
qed

lemma run_op_blind:
  assumes "cache_blind E t" and "cache_blind E f"
  shows "cache_blind E (run_op t f c v)"
proof -
  have push: "cache_blind E (\<lambda>st. Inr (st\<lparr>es_stack := v # es_stack st\<rparr>))"
    by (rule pure_handler_blind) simp
  show ?thesis
    unfolding run_op_def [abs_def]
    by (intro cache_blind_cond [where P = "\<lambda>st. \<forall>f \<in> set (es_vfExec st). f"] cache_blind_if push handlers_blind assms) simp
qed

lemma counted_op_blind: "cache_blind E g \<Longrightarrow> cache_blind E (counted_op g c)"
  unfolding counted_op_def [abs_def] check_stacks_def
  by (intro cache_blind_cond [where P = "\<lambda>st. c > OP_16 \<and> es_nOpCount st > 201"] cache_blind_if
       cache_blind_bind cache_blind_cond [where P = "\<lambda>st. length (es_stack st) + length (es_altstack st) > 1000"] handlers_blind) simp_all

lemma eval_step_blind: "cache_blind E (eval_step E tx nIn ht c v pc)"
proof -
  note k = counted_op_blind [OF run_op_blind [OF op_switch_blind op_switch_blind]]
  show ?thesis
    unfolding eval_step_alt
    by (rule cache_blind_if [OF pure_handlers(11) cache_blind_pre [OF k count_op_cache(1,2)]])
qed

lemma eval_loop_blind: "cache_blind E (eval_loop E tx nIn ht pc)"
proof (induction pc rule: length_induct)
  case (1 pc)
  show ?case
  proof (cases "pc = [] \<or> GetOp pc = None")
    case True
    then have "eval_loop E tx nIn ht pc = (\<lambda>st. if pc = [] then Inr st else eval_fail st)"
      by (intro ext) (subst eval_loop.simps, auto)
    then show ?thesis by (simp add: cache_blind_if handlers_blind)
  next
    case False
    then obtain c v r where g: "GetOp pc = Some (c, v, r)" by (cases "GetOp pc") auto
    with 1 have IH: "cache_blind E (eval_loop E tx nIn ht r)" by (blast dest: GetOp_rest_shorter)
    have "eval_loop E tx nIn ht pc = (\<lambda>st. case eval_step E tx nIn ht c v r st of
        Inl x \<Rightarrow> Inl x | Inr st' \<Rightarrow> eval_loop E tx nIn ht r st')"
      using False g by (intro ext) (subst eval_loop.simps, simp)
    then show ?thesis by (simp add: cache_blind_bind eval_step_blind IH)
  qed
qed

lemma EvalScript_transparent:
  assumes "cache_inv E C" and "cache_inv E D"
  shows "fst (EvalScript E C s script tx nIn ht) = fst (EvalScript E D s script tx nIn ht)"
    and "fst (snd (EvalScript E C s script tx nIn ht)) = fst (snd (EvalScript E D s script tx nIn ht))"
    and "cache_inv E (snd (snd (EvalScript E C s script tx nIn ht)))"
proof -
  define st where "st = \<lparr>es_pbegincodehash = script, es_stack = s, es_altstack = [], es_vfExec = [],
      es_nOpCount = 0, es_cache = C\<rparr>"
  have stD: "\<lparr>es_pbegincodehash = script, es_stack = s, es_altstack = [], es_vfExec = [],
      es_nOpCount = 0, es_cache = D\<rparr> = st\<lparr>es_cache := D\<rparr>" by (simp add: st_def)
  have S: "with_cache empty_cache (eval_loop E tx nIn ht script (st\<lparr>es_cache := D\<rparr>)) =
      with_cache empty_cache (eval_loop E tx nIn ht script st)"
    "cache_inv E (result_cache (eval_loop E tx nIn ht script st))"
    using cache_blindD [OF eval_loop_blind, of E st D] assms by (simp_all add: st_def)
  then show "fst (EvalScript E C s script tx nIn ht) = fst (EvalScript E D s script tx nIn ht)"
    "fst (snd (EvalScript E C s script tx nIn ht)) = fst (snd (EvalScript E D s script tx nIn ht))"
    "cache_inv E (snd (snd (EvalScript E C s script tx nIn ht)))"
    using assms unfolding EvalScript_def stD st_def [symmetric]
    by (auto simp: with_cache_def result_cache_def split: sum.splits prod.splits)
       (metis eval_state.ext_inject eval_state.surjective eval_state.update_convs(6))+
qed


lemma EvalScript_cache_cases:
  assumes "cache_inv E C" and "cache_inv E D"
  obtains b st C' D' where "EvalScript E C s script tx nIn ht = (b, st, C')"
    "EvalScript E D s script tx nIn ht = (b, st, D')" "cache_inv E C'" "cache_inv E D'"
  using EvalScript_transparent [OF assms, of s script tx nIn ht]
    EvalScript_transparent(3) [OF assms(2) assms(1), of s script tx nIn ht]
  by (cases "EvalScript E C s script tx nIn ht"; cases "EvalScript E D s script tx nIn ht") auto

lemma VerifyScript_transparent:
  assumes "cache_inv E C" and "cache_inv E D"
  shows "fst (VerifyScript E C sig pub tx nIn ht) = fst (VerifyScript E D sig pub tx nIn ht)"
    and "cache_inv E (snd (VerifyScript E C sig pub tx nIn ht))"
proof -
  obtain b1 s1 C1 D1 where 1: "EvalScript E C [] sig tx nIn ht = (b1, s1, C1)"
    "EvalScript E D [] sig tx nIn ht = (b1, s1, D1)" "cache_inv E C1" "cache_inv E D1"
    using EvalScript_cache_cases [OF assms] by blast
  obtain b2 s2 C2 D2 where 2: "EvalScript E C1 s1 pub tx nIn ht = (b2, s2, C2)"
    "EvalScript E D1 s1 pub tx nIn ht = (b2, s2, D2)" "cache_inv E C2" "cache_inv E D2"
    using EvalScript_cache_cases [OF 1(3,4)] by blast
  obtain b3 s3 C3 D3 where 3: "EvalScript E C2 (tl s1) (hd s1) tx nIn ht = (b3, s3, C3)"
    "EvalScript E D2 (tl s1) (hd s1) tx nIn ht = (b3, s3, D3)" "cache_inv E C3" "cache_inv E D3"
    using EvalScript_cache_cases [OF 2(3,4)] by blast
  show "fst (VerifyScript E C sig pub tx nIn ht) = fst (VerifyScript E D sig pub tx nIn ht)"
    "cache_inv E (snd (VerifyScript E C sig pub tx nIn ht))"
    using 1 2 3 by (auto simp: VerifyScript_def split: list.split if_splits)
qed

section \<open>Properties\<close>

text \<open>C20: The verdict of \<^verbatim>\<open>VerifyScript\<close> does not depend on the signature cache: with any two caches that hold
  valid entries only it is the same, and the cache it leaves again holds valid entries only.\<close>

theorem VerifyScript_cache_independent:
  assumes "cache_inv E C" and "cache_inv E D"
  shows "fst (VerifyScript E C sig pub tx nIn ht) = fst (VerifyScript E D sig pub tx nIn ht) \<and>
    cache_inv E (snd (VerifyScript E C sig pub tx nIn ht))"
  using VerifyScript_transparent [OF assms] by blast

theorem VerifyScript_cache_independent_witness:
  "cache_inv ref_env empty_cache \<and>
   cache_inv ref_env (cache_Set ref_env empty_cache (1, [], replicate 33 0)) \<and>
   fst (VerifyScript ref_env empty_cache [0x51] [0xac] \<lparr>nVersion = 1, nTime = 0, vin = [], vout = [], nLockTime = 0\<rparr> 0 0) =
   fst (VerifyScript ref_env (cache_Set ref_env empty_cache (1, [], replicate 33 0)) [0x51] [0xac]
     \<lparr>nVersion = 1, nTime = 0, vin = [], vout = [], nLockTime = 0\<rparr> 0 0)"
proof -
  have "cache_inv ref_env (cache_Set ref_env empty_cache (1, [], replicate 33 0))"
    by (intro cache_inv_Set) (simp_all add: sigdata_valid_def SetPubKey_def Verify_def ref_env_def)
  with VerifyScript_cache_independent [of ref_env empty_cache] show ?thesis by simp
qed

end
