(* ===== verification/Solver.thy ===== *)
theory Solver
  imports Interp_Cache KeyStore
begin

text \<open>
  The standard output templates and what the wallet does with them, from src/src/script.cpp:
  \<^verbatim>\<open>Solver\<close> (template matching), \<^verbatim>\<open>IsStandard\<close>, \<^verbatim>\<open>ScriptSigArgsExpected\<close>, \<^verbatim>\<open>ExtractDestination\<close>,
  \<^verbatim>\<open>ExtractDestinations\<close>, \<^verbatim>\<open>SetDestination\<close>, \<^verbatim>\<open>SetMultisig\<close>, \<^verbatim>\<open>IsMine\<close>, signing (\<^verbatim>\<open>Sign1\<close>, \<^verbatim>\<open>SignN\<close>,
  \<^verbatim>\<open>SignSignature\<close>) and the merging of partial signatures (\<^verbatim>\<open>CombineSignatures\<close>).
  Functions that return a value through reference parameters and a success flag return the tuple
  of both, because several callers read the reference parameter when the flag is false.
\<close>

datatype txnouttype = TX_NONSTANDARD | TX_PUBKEY | TX_PUBKEYHASH | TX_SCRIPTHASH | TX_MULTISIG | TX_NULL_DATA

datatype CTxDestination = CNoDestination | CKeyID u160 | CScriptID u160

fun GetTxnOutputType :: "txnouttype \<Rightarrow> string" where
  "GetTxnOutputType TX_NONSTANDARD = ''nonstandard''"
| "GetTxnOutputType TX_PUBKEY = ''pubkey''"
| "GetTxnOutputType TX_PUBKEYHASH = ''pubkeyhash''"
| "GetTxnOutputType TX_SCRIPTHASH = ''scripthash''"
| "GetTxnOutputType TX_MULTISIG = ''multisig''"
| "GetTxnOutputType TX_NULL_DATA = ''nulldata''"

text \<open>\<^verbatim>\<open>uint160(const std::vector<unsigned char>&)\<close>: any other length gives zero.\<close>

definition uint160_of_vch :: "valtype \<Rightarrow> u160" where
  "uint160_of_vch vch = (if length vch = 20 then word_of_nat (le_val vch) else 0)"

section \<open>Template matching\<close>

definition mTemplates :: "(txnouttype \<times> byte list) list" where
  "mTemplates =
     [(TX_PUBKEY, [OP_PUBKEY, OP_CHECKSIG]),
      (TX_PUBKEYHASH, [OP_DUP, OP_HASH160, OP_PUBKEYHASH, OP_EQUALVERIFY, OP_CHECKSIG]),
      (TX_MULTISIG, [OP_SMALLINTEGER, OP_PUBKEYS, OP_SMALLINTEGER, OP_CHECKMULTISIG]),
      (TX_NULL_DATA, [OP_RETURN])]"

text \<open>
  The inner loop for \<^verbatim>\<open>OP_PUBKEYS\<close>: it collects operands of a key's size and stops at the first
  instruction that has none, or where no instruction can be read, in which case \<^verbatim>\<open>GetOp\<close> leaves
  \<^verbatim>\<open>OP_INVALIDOPCODE\<close> and an empty operand.
\<close>

function take_pubkeys ::
  "byte \<Rightarrow> valtype \<Rightarrow> byte list \<Rightarrow> valtype list \<Rightarrow> byte \<times> valtype \<times> byte list \<times> valtype list" where
  "take_pubkeys opcode1 vch1 pc1 sols =
     (if 33 \<le> length vch1 \<and> length vch1 \<le> 120
      then (case GetOp pc1 of
              None \<Rightarrow> (OP_INVALIDOPCODE, [], pc1, sols @ [vch1])
            | Some (opcode1', vch1', pc1') \<Rightarrow> take_pubkeys opcode1' vch1' pc1' (sols @ [vch1]))
      else (opcode1, vch1, pc1, sols))"
  by pat_completeness auto
termination
  by (relation "measure (\<lambda>(opcode1, vch1, pc1, sols). length pc1)") (auto dest: GetOp_rest_shorter)

declare take_pubkeys.simps [simp del]

text \<open>
  One comparison of an instruction of the script with an instruction of the template, after the
  \<^verbatim>\<open>OP_PUBKEYS\<close> loop: None is the source's \<^verbatim>\<open>break\<close>, which gives the template up.
\<close>

definition match_op :: "byte \<Rightarrow> valtype \<Rightarrow> byte \<Rightarrow> valtype \<Rightarrow> valtype list \<Rightarrow> valtype list option" where
  "match_op opcode1 vch1 opcode2 vch2 sols =
     (if opcode2 = OP_PUBKEY then
        (if length vch1 < 33 \<or> length vch1 > 120 then None else Some (sols @ [vch1]))
      else if opcode2 = OP_PUBKEYHASH then
        (if length vch1 \<noteq> 20 then None else Some (sols @ [vch1]))
      else if opcode2 = OP_SMALLINTEGER then
        (case DecodeOP_N opcode1 of
           None \<Rightarrow> None
         | Some k \<Rightarrow> Some (sols @ [[word_of_nat k]]))
      else if opcode1 \<noteq> opcode2 \<or> vch1 \<noteq> vch2 then None
      else Some sols)"

function match_template :: "byte list \<Rightarrow> byte list \<Rightarrow> valtype list \<Rightarrow> valtype list option" where
  "match_template pc1 pc2 sols =
     (if pc1 = [] \<and> pc2 = [] then Some sols
      else case GetOp pc1 of
        None \<Rightarrow> None
      | Some (opcode1, vch1, pc1') \<Rightarrow>
          (case GetOp pc2 of
             None \<Rightarrow> None
           | Some (opcode2, vch2, pc2') \<Rightarrow>
               if opcode2 = OP_PUBKEYS then
                 (case take_pubkeys opcode1 vch1 pc1' sols of
                    (opcode1', vch1', pc1'', sols') \<Rightarrow>
                      (case GetOp pc2' of
                         None \<Rightarrow> None
                       | Some (opcode2', vch2', pc2'') \<Rightarrow>
                           (case match_op opcode1' vch1' opcode2' vch2' sols' of
                              None \<Rightarrow> None
                            | Some sols'' \<Rightarrow> match_template pc1'' pc2'' sols'')))
               else (case match_op opcode1 vch1 opcode2 vch2 sols of
                       None \<Rightarrow> None
                     | Some sols' \<Rightarrow> match_template pc1' pc2' sols')))"
  by pat_completeness auto
termination
  by (relation "measure (\<lambda>(pc1, pc2, sols). length pc2)") (force dest: GetOp_rest_shorter)+

declare match_template.simps [simp del]

text \<open>The extra checks for a multisignature match.\<close>

definition multisig_sane :: "valtype list \<Rightarrow> bool" where
  "multisig_sane sols =
     (let m = unat (hd sols ! 0); n = unat (last sols ! 0)
      in \<not> (m < 1 \<or> n < 1 \<or> m > n \<or> length sols - 2 \<noteq> n))"

fun scan_templates :: "byte list \<Rightarrow> (txnouttype \<times> byte list) list \<Rightarrow> bool \<times> txnouttype \<times> valtype list" where
  "scan_templates s [] = (False, TX_NONSTANDARD, [])"
| "scan_templates s ((t, tplate) # ts) =
     (case match_template s tplate [] of
        None \<Rightarrow> scan_templates s ts
      | Some sols \<Rightarrow> (t = TX_MULTISIG \<longrightarrow> multisig_sane sols, t, sols))"

definition Solver :: "byte list \<Rightarrow> bool \<times> txnouttype \<times> valtype list" where
  "Solver s =
     (if IsPayToScriptHash s then (True, TX_SCRIPTHASH, [take 20 (drop 2 s)])
      else scan_templates s mTemplates)"

definition ScriptSigArgsExpected :: "txnouttype \<Rightarrow> valtype list \<Rightarrow> int" where
  "ScriptSigArgsExpected t sols =
     (case t of
        TX_NONSTANDARD \<Rightarrow> - 1
      | TX_NULL_DATA \<Rightarrow> - 1
      | TX_PUBKEY \<Rightarrow> 1
      | TX_PUBKEYHASH \<Rightarrow> 2
      | TX_MULTISIG \<Rightarrow>
          if sols = [] \<or> hd sols = [] then - 1 else uint (hd sols ! 0) + 1
      | TX_SCRIPTHASH \<Rightarrow> 1)"

definition IsStandard :: "byte list \<Rightarrow> bool \<times> txnouttype" where
  "IsStandard s =
     (case Solver s of
        (ok, whichType, sols) \<Rightarrow>
          if \<not> ok then (False, whichType)
          else if whichType = TX_MULTISIG \<and>
                  (let m = unat (hd sols ! 0); n = unat (last sols ! 0)
                   in n < 1 \<or> n > 6 \<or> m < 1 \<or> m > n)
          then (False, whichType)
          else (whichType \<noteq> TX_NONSTANDARD, whichType))"

section \<open>Destinations\<close>

definition ExtractDestination :: "env \<Rightarrow> byte list \<Rightarrow> CTxDestination option" where
  "ExtractDestination E s =
     (case Solver s of
        (ok, whichType, sols) \<Rightarrow>
          if \<not> ok then None
          else if whichType = TX_PUBKEY then Some (CKeyID (GetID E (hd sols)))
          else if whichType = TX_PUBKEYHASH then Some (CKeyID (uint160_of_vch (hd sols)))
          else if whichType = TX_SCRIPTHASH then Some (CScriptID (uint160_of_vch (hd sols)))
          else None)"

definition ExtractDestinations :: "env \<Rightarrow> byte list \<Rightarrow> (txnouttype \<times> CTxDestination list \<times> nat) option" where
  "ExtractDestinations E s =
     (case Solver s of
        (ok, typeRet, sols) \<Rightarrow>
          if \<not> ok then None
          else if typeRet = TX_NULL_DATA then None
          else if typeRet = TX_MULTISIG then
            Some (typeRet, map (\<lambda>k. CKeyID (GetID E k)) (butlast (tl sols)), unat (hd sols ! 0))
          else (case ExtractDestination E s of
                  None \<Rightarrow> None
                | Some address \<Rightarrow> Some (typeRet, [address], 1)))"

fun SetDestination :: "CTxDestination \<Rightarrow> byte list" where
  "SetDestination CNoDestination = []"
| "SetDestination (CKeyID keyID) =
     [OP_DUP, OP_HASH160] @ push_uint160 keyID @ [OP_EQUALVERIFY, OP_CHECKSIG]"
| "SetDestination (CScriptID scriptID) = [OP_HASH160] @ push_uint160 scriptID @ [OP_EQUAL]"

text \<open>\<^verbatim>\<open>EncodeOP_N\<close> asserts its range, so more than 16 keys (or signatures) give no script.\<close>

definition SetMultisig :: "env \<Rightarrow> int \<Rightarrow> CKey list \<Rightarrow> byte list option" where
  "SetMultisig E nRequired keys =
     (case (EncodeOP_N nRequired, EncodeOP_N (int (length keys))) of
        (Some m, Some n) \<Rightarrow>
          Some ([m] @ concat (map (\<lambda>key. push_data (GetPubKey E key)) keys) @ [n, OP_CHECKMULTISIG])
      | _ \<Rightarrow> None)"

section \<open>Ownership\<close>

definition HaveKeys :: "env \<Rightarrow> valtype list \<Rightarrow> CKeyStore \<Rightarrow> nat" where
  "HaveKeys E pubkeys ks = length (filter (\<lambda>pubkey. HaveKey ks (GetID E pubkey)) pubkeys)"

fun IsMine_dest :: "CKeyStore \<Rightarrow> CTxDestination \<Rightarrow> bool" where
  "IsMine_dest ks CNoDestination = False"
| "IsMine_dest ks (CKeyID keyID) = HaveKey ks keyID"
| "IsMine_dest ks (CScriptID scriptID) = HaveCScript ks scriptID"

text \<open>
  \<^verbatim>\<open>IsMine\<close> follows pay-to-script-hash redeem scripts; None stands for a run that does not end, which
  takes a store whose redeem scripts pay to each other in a circle.
\<close>

partial_function (option) IsMine :: "env \<Rightarrow> CKeyStore \<Rightarrow> byte list \<Rightarrow> bool option" where
  "IsMine E ks s =
     (case Solver s of
        (ok, whichType, sols) \<Rightarrow>
          if \<not> ok then Some False
          else if whichType = TX_PUBKEY then Some (HaveKey ks (GetID E (hd sols)))
          else if whichType = TX_PUBKEYHASH then Some (HaveKey ks (uint160_of_vch (hd sols)))
          else if whichType = TX_SCRIPTHASH then
            (case GetCScript ks (uint160_of_vch (hd sols)) of
               None \<Rightarrow> Some False
             | Some subscript \<Rightarrow> IsMine E ks subscript)
          else if whichType = TX_MULTISIG then
            Some (HaveKeys E (butlast (tl sols)) ks = length (butlast (tl sols)))
          else Some False)"

section \<open>Signing\<close>

text \<open>\<^verbatim>\<open>Sign1\<close> and \<^verbatim>\<open>SignN\<close> append to the script they are given and report success.\<close>

definition Sign1 :: "env \<Rightarrow> CKeyStore \<Rightarrow> u160 \<Rightarrow> u256 \<Rightarrow> int \<Rightarrow> byte list \<Rightarrow> bool \<times> byte list" where
  "Sign1 E ks address hash nHashType sigRet =
     (case GetKey ks address of
        None \<Rightarrow> (False, sigRet)
      | Some key \<Rightarrow>
          (case Sign E key hash of
             None \<Rightarrow> (False, sigRet)
           | Some vchSig \<Rightarrow> (True, sigRet @ push_data (vchSig @ [word_of_int nHashType]))))"

fun SignN_loop ::
  "env \<Rightarrow> CKeyStore \<Rightarrow> u256 \<Rightarrow> int \<Rightarrow> nat \<Rightarrow> valtype list \<Rightarrow> nat \<Rightarrow> byte list \<Rightarrow> nat \<times> byte list" where
  "SignN_loop E ks hash nHashType nRequired [] nSigned sigRet = (nSigned, sigRet)"
| "SignN_loop E ks hash nHashType nRequired (pubkey # pubkeys) nSigned sigRet =
     (if nSigned < nRequired
      then (case Sign1 E ks (GetID E pubkey) hash nHashType sigRet of
              (ok, sigRet') \<Rightarrow>
                SignN_loop E ks hash nHashType nRequired pubkeys (if ok then nSigned + 1 else nSigned) sigRet')
      else (nSigned, sigRet))"

definition SignN :: "env \<Rightarrow> CKeyStore \<Rightarrow> valtype list \<Rightarrow> u256 \<Rightarrow> int \<Rightarrow> byte list \<Rightarrow> bool \<times> byte list" where
  "SignN E ks multisigdata hash nHashType sigRet =
     (let nRequired = unat (hd multisigdata ! 0)
      in case SignN_loop E ks hash nHashType nRequired (butlast (tl multisigdata)) 0 sigRet of
           (nSigned, sigRet') \<Rightarrow> (nSigned = nRequired, sigRet'))"

definition Solver_sign ::
  "env \<Rightarrow> CKeyStore \<Rightarrow> byte list \<Rightarrow> u256 \<Rightarrow> int \<Rightarrow> bool \<times> byte list \<times> txnouttype" where
  "Solver_sign E ks s hash nHashType =
     (case Solver s of
        (ok, whichType, sols) \<Rightarrow>
          if \<not> ok then (False, [], whichType)
          else
            (case whichType of
               TX_NONSTANDARD \<Rightarrow> (False, [], whichType)
             | TX_NULL_DATA \<Rightarrow> (False, [], whichType)
             | TX_PUBKEY \<Rightarrow>
                 (case Sign1 E ks (GetID E (hd sols)) hash nHashType [] of
                    (b, sigRet) \<Rightarrow> (b, sigRet, whichType))
             | TX_PUBKEYHASH \<Rightarrow>
                 (let keyID = uint160_of_vch (hd sols)
                  in case Sign1 E ks keyID hash nHashType [] of
                       (b, sigRet) \<Rightarrow>
                         if \<not> b then (False, sigRet, whichType)
                         else (True,
                               sigRet @ push_data (case KeyStore_GetPubKey E ks keyID of
                                                     None \<Rightarrow> [] | Some vch \<Rightarrow> vch),
                               whichType))
             | TX_SCRIPTHASH \<Rightarrow>
                 (case GetCScript ks (uint160_of_vch (hd sols)) of
                    None \<Rightarrow> (False, [], whichType)
                  | Some subscript \<Rightarrow> (True, subscript, whichType))
             | TX_MULTISIG \<Rightarrow>
                 (case SignN E ks sols hash nHashType [OP_0] of
                    (b, sigRet) \<Rightarrow> (b, sigRet, whichType))))"

text \<open>
  \<^verbatim>\<open>SignSignature\<close> writes the input's script in place, also when it fails; None is the failed
  \<^verbatim>\<open>assert(nIn < txTo.vin.size())\<close>.
\<close>

definition set_scriptSig :: "CTransaction \<Rightarrow> nat \<Rightarrow> byte list \<Rightarrow> CTransaction" where
  "set_scriptSig tx nIn s = tx\<lparr>vin := (vin tx)[nIn := (vin tx ! nIn)\<lparr>scriptSig := s\<rparr>]\<rparr>"

definition SignSignature ::
  "env \<Rightarrow> CSignatureCache \<Rightarrow> CKeyStore \<Rightarrow> byte list \<Rightarrow> CTransaction \<Rightarrow> nat \<Rightarrow> int
     \<Rightarrow> (bool \<times> CTransaction \<times> CSignatureCache) option" where
  "SignSignature E C ks fromPubKey txTo nIn nHashType =
     (if nIn \<ge> length (vin txTo) then None
      else
        let hash = SignatureHash E fromPubKey txTo nIn nHashType
        in case Solver_sign E ks fromPubKey hash nHashType of
             (ok, sig1, whichType) \<Rightarrow>
               let tx1 = set_scriptSig txTo nIn sig1
               in if \<not> ok then Some (False, tx1, C)
                  else if whichType = TX_SCRIPTHASH then
                    (let hash2 = SignatureHash E sig1 tx1 nIn nHashType
                     in case Solver_sign E ks sig1 hash2 nHashType of
                          (ok2, sig2, subType) \<Rightarrow>
                            let tx2 = set_scriptSig txTo nIn (sig2 @ push_data sig1)
                            in if \<not> (ok2 \<and> subType \<noteq> TX_SCRIPTHASH) then Some (False, tx2, C)
                               else (case VerifyScript E C (sig2 @ push_data sig1) fromPubKey tx2 nIn 0 of
                                       (b, C') \<Rightarrow> Some (b, tx2, C')))
                  else (case VerifyScript E C sig1 fromPubKey tx1 nIn 0 of
                          (b, C') \<Rightarrow> Some (b, tx1, C')))"

definition VerifySignature ::
  "env \<Rightarrow> CSignatureCache \<Rightarrow> CTransaction \<Rightarrow> CTransaction \<Rightarrow> nat \<Rightarrow> int \<Rightarrow> (bool \<times> CSignatureCache) option" where
  "VerifySignature E C txFrom txTo nIn nHashType =
     (if nIn \<ge> length (vin txTo) then None
      else
        let txin = vin txTo ! nIn; n = unat (prev_n (prevout txin))
        in if n \<ge> length (vout txFrom) then Some (False, C)
           else if prev_hash (prevout txin) \<noteq> GetHash E txFrom then Some (False, C)
           else Some (VerifyScript E C (scriptSig txin) (scriptPubKey (vout txFrom ! n)) txTo nIn nHashType))"

section \<open>Merging partial signatures\<close>

definition PushAll :: "valtype list \<Rightarrow> byte list" where
  "PushAll values = concat (map push_data values)"

text \<open>The search for the key of one signature: keys that have a signature are skipped.\<close>

fun assign_sig ::
  "env \<Rightarrow> byte list \<Rightarrow> CTransaction \<Rightarrow> nat \<Rightarrow> valtype \<Rightarrow> valtype list \<Rightarrow> (valtype \<rightharpoonup> valtype) \<Rightarrow> CSignatureCache
     \<Rightarrow> (valtype \<rightharpoonup> valtype) \<times> CSignatureCache" where
  "assign_sig E s tx nIn sig [] sigs C = (sigs, C)"
| "assign_sig E s tx nIn sig (pubkey # pubkeys) sigs C =
     (if sigs pubkey \<noteq> None then assign_sig E s tx nIn sig pubkeys sigs C
      else (case CheckSig E C sig pubkey s tx nIn 0 of
              (ok, C') \<Rightarrow>
                if ok then (sigs(pubkey \<mapsto> sig), C')
                else assign_sig E s tx nIn sig pubkeys sigs C'))"

fun assign_sigs ::
  "env \<Rightarrow> byte list \<Rightarrow> CTransaction \<Rightarrow> nat \<Rightarrow> valtype list \<Rightarrow> valtype list \<Rightarrow> (valtype \<rightharpoonup> valtype) \<Rightarrow> CSignatureCache
     \<Rightarrow> (valtype \<rightharpoonup> valtype) \<times> CSignatureCache" where
  "assign_sigs E s tx nIn [] pubkeys sigs C = (sigs, C)"
| "assign_sigs E s tx nIn (sig # rest) pubkeys sigs C =
     (case assign_sig E s tx nIn sig pubkeys sigs C of
        (sigs', C') \<Rightarrow> assign_sigs E s tx nIn rest pubkeys sigs' C')"

definition CombineMultisig ::
  "env \<Rightarrow> CSignatureCache \<Rightarrow> byte list \<Rightarrow> CTransaction \<Rightarrow> nat \<Rightarrow> valtype list \<Rightarrow> valtype list \<Rightarrow> valtype list
     \<Rightarrow> byte list \<times> CSignatureCache" where
  "CombineMultisig E C s tx nIn sols sigs1 sigs2 =
     (let allsigs = sort (remdups (filter (\<lambda>v. v \<noteq> []) (sigs1 @ sigs2)));
          nSigsRequired = unat (hd sols ! 0);
          pubkeys = butlast (tl sols)
      in case assign_sigs E s tx nIn allsigs pubkeys Map.empty C of
           (sigs, C') \<Rightarrow>
             let found = take nSigsRequired (List.map_filter sigs pubkeys)
             in ([OP_0] @ PushAll found @ replicate (nSigsRequired - length found) OP_0, C'))"

function CombineSignatures_typed ::
  "env \<Rightarrow> CSignatureCache \<Rightarrow> byte list \<Rightarrow> CTransaction \<Rightarrow> nat \<Rightarrow> txnouttype \<Rightarrow> valtype list \<Rightarrow> valtype list \<Rightarrow> valtype list
     \<Rightarrow> byte list \<times> CSignatureCache" where
  "CombineSignatures_typed E C s tx nIn txType sols sigs1 sigs2 =
     (case txType of
        TX_NONSTANDARD \<Rightarrow> (if length sigs1 \<ge> length sigs2 then PushAll sigs1 else PushAll sigs2, C)
      | TX_NULL_DATA \<Rightarrow> (if length sigs1 \<ge> length sigs2 then PushAll sigs1 else PushAll sigs2, C)
      | TX_PUBKEY \<Rightarrow> (if sigs1 = [] \<or> hd sigs1 = [] then PushAll sigs2 else PushAll sigs1, C)
      | TX_PUBKEYHASH \<Rightarrow> (if sigs1 = [] \<or> hd sigs1 = [] then PushAll sigs2 else PushAll sigs1, C)
      | TX_SCRIPTHASH \<Rightarrow>
          if sigs1 = [] \<or> last sigs1 = [] then (PushAll sigs2, C)
          else if sigs2 = [] \<or> last sigs2 = [] then (PushAll sigs1, C)
          else
            let spk = last sigs1
            in case Solver spk of
                 (ok, txType2, sols2) \<Rightarrow>
                   (case CombineSignatures_typed E C spk tx nIn txType2 sols2 (butlast sigs1) (butlast sigs2) of
                      (result, C') \<Rightarrow> (result @ push_data spk, C'))
      | TX_MULTISIG \<Rightarrow> CombineMultisig E C s tx nIn sols sigs1 sigs2)"
  by pat_completeness auto
termination
  by (relation "measure (\<lambda>(E, C, s, tx, nIn, txType, sols, sigs1, sigs2). length sigs1)") auto

declare CombineSignatures_typed.simps [simp del]

text \<open>\<^verbatim>\<open>CTransaction()\<close>; its time is \<^verbatim>\<open>GetAdjustedTime()\<close> at the call.\<close>

definition null_tx :: "u32 \<Rightarrow> CTransaction" where
  "null_tx now = \<lparr>nVersion = 1, nTime = now, vin = [], vout = [], nLockTime = 0\<rparr>"

definition CombineSignatures ::
  "env \<Rightarrow> u32 \<Rightarrow> CSignatureCache \<Rightarrow> byte list \<Rightarrow> CTransaction \<Rightarrow> nat \<Rightarrow> byte list \<Rightarrow> byte list
     \<Rightarrow> byte list \<times> CSignatureCache" where
  "CombineSignatures E now C s tx nIn sig1 sig2 =
     (case Solver s of
        (ok, txType, sols) \<Rightarrow>
          (case EvalScript E C [] sig1 (null_tx now) 0 0 of
             (b1, stack1, C1) \<Rightarrow>
               (case EvalScript E C1 [] sig2 (null_tx now) 0 0 of
                  (b2, stack2, C2) \<Rightarrow>
                    CombineSignatures_typed E C2 s tx nIn txType sols (rev stack1) (rev stack2))))"

end
