(* ===== verification/Spend.thy ===== *)
theory Spend
  imports Solver "HOL-Library.Sublist"
begin

text \<open>
  What it takes to spend a standard output. The first sections compute with the interpreter: a
  push, an opcode outside a conditional, the handlers the standard scripts use. The theorems then
  say exactly which input scripts \<^const>\<open>VerifyScript\<close> accepts for a pay-to-pubkey-hash, a
  pay-to-script-hash and a multisignature output, in terms of hash equality and of the signature
  test without the cache.
\<close>

section \<open>Computing with the interpreter\<close>

lemma push_uint160_eq: "push_uint160 h = word_of_nat 20 # uint160_bytes h"
  by (simp add: push_uint160_def uint160_bytes_def)

lemma eval_step_push:
  assumes "length v \<le> MAX_SCRIPT_ELEMENT_SIZE" and "c \<le> OP_PUSHDATA4" and "es_vfExec st = []"
    and "length (es_stack st) + length (es_altstack st) < 1000"
  shows "eval_step E tx nIn ht c v pc st = Inr (st\<lparr>es_stack := v # es_stack st\<rparr>)"
proof -
  have "\<not> OP_16 < c" using assms(2) by (simp add: word_le_nat_alt word_less_nat_alt)
  moreover have "\<not> disabled_opcode c"
    using assms(2) by (auto simp: disabled_opcode_def word_le_nat_alt)
  ultimately show ?thesis
    using assms by (simp add: eval_step_def)
qed

lemma eval_loop_push:
  assumes "length v \<le> MAX_SCRIPT_ELEMENT_SIZE" and "es_vfExec st = []"
    and "length (es_stack st) + length (es_altstack st) < 1000"
  shows "eval_loop E tx nIn ht (push_data v @ rest) st = eval_loop E tx nIn ht rest (st\<lparr>es_stack := v # es_stack st\<rparr>)"
proof -
  have "length v < 2 ^ 32" using assms by (simp add: MAX_SCRIPT_ELEMENT_SIZE_def)
  then show ?thesis
    using eval_step_push [OF assms(1) hd_push_data_le assms(2,3)]
    by (subst eval_loop.simps) (simp add: GetOp_push_data)
qed

lemma eval_loop_Nil [simp]: "eval_loop E tx nIn ht [] st = Inr st"
  by (simp add: eval_loop.simps)

lemma eval_loop_op:
  assumes "OP_PUSHDATA4 < c"
  shows "eval_loop E tx nIn ht (c # rest) st =
    (case eval_step E tx nIn ht c [] rest st of Inl r \<Rightarrow> Inl r | Inr st' \<Rightarrow> eval_loop E tx nIn ht rest st')"
  using assms by (subst eval_loop.simps) (simp add: GetOp_opcode)

text \<open>An opcode that is executed in a state with no open conditional.\<close>

lemma eval_step_op:
  assumes "OP_16 < c" and "es_vfExec st = []" and "es_nOpCount st < 201" and "\<not> disabled_opcode c"
  shows "eval_step E tx nIn ht c [] pc st =
    (case op_switch E tx nIn ht True pc c (st\<lparr>es_nOpCount := es_nOpCount st + 1\<rparr>) of
       Inl r \<Rightarrow> Inl r
     | Inr st2 \<Rightarrow> if length (es_stack st2) + length (es_altstack st2) > 1000 then eval_fail st2 else Inr st2)"
proof -
  have "\<not> c \<le> OP_PUSHDATA4" using assms(1) by (simp add: word_le_nat_alt word_less_nat_alt)
  then show ?thesis using assms by (simp add: eval_step_def)
qed


lemma push_uint160_push_data: "push_uint160 h = push_data (uint160_bytes h)"
  by (simp add: push_uint160_eq push_data_def)

lemma switch_DUP:
  "es_stack st = x # s \<Longrightarrow> op_switch E tx nIn ht True pc OP_DUP st = Inr (st\<lparr>es_stack := x # x # s\<rparr>)"
  by (simp add: op_switch_def op_stack_fixed_def)

lemma switch_HASH160:
  "es_stack st = x # s \<Longrightarrow>
   op_switch E tx nIn ht True pc OP_HASH160 st = Inr (st\<lparr>es_stack := uint160_bytes (Hash160 E x) # s\<rparr>)"
  by (simp add: op_switch_def op_hash_def script_hash_def)

lemma switch_EQUAL:
  "es_stack st = x # y # s \<Longrightarrow>
   op_switch E tx nIn ht True pc OP_EQUAL st = Inr (st\<lparr>es_stack := bool_val (y = x) # s\<rparr>)"
  by (simp add: op_switch_def op_bitlogic_def Let_def)

lemma switch_EQUALVERIFY:
  "es_stack st = x # y # s \<Longrightarrow>
   op_switch E tx nIn ht True pc OP_EQUALVERIFY st =
     (if x = y then Inr (st\<lparr>es_stack := s\<rparr>) else eval_fail (st\<lparr>es_stack := bool_val False # s\<rparr>))"
  by (auto simp add: op_switch_def op_bitlogic_def Let_def)

lemma switch_CHECKSIG:
  "op_switch E tx nIn ht True pc OP_CHECKSIG st = op_checksig E tx nIn ht OP_CHECKSIG st"
  by (simp add: op_switch_def)

lemma op_checksig_2:
  assumes "es_stack st = key # sig # s" and "cache_inv E (es_cache st)"
  shows "\<exists>C. cache_inv E C \<and> op_checksig E tx nIn ht OP_CHECKSIG st =
    Inr (st\<lparr>es_cache := C, es_stack := bool_val (sig_ok_nocache E (fst (FindAndDelete (push_data sig) (es_pbegincodehash st))) tx nIn ht sig key) # s\<rparr>)"
proof -
  let ?code = "fst (FindAndDelete (push_data sig) (es_pbegincodehash st))"
  obtain b C where so: "sig_ok E (es_cache st) sig key ?code tx nIn ht = (b, C)" by fastforce
  have "b = sig_ok_nocache E ?code tx nIn ht sig key" "cache_inv E C"
    using sig_ok_transparent [OF assms(2), of sig key ?code tx nIn ht] so by (simp_all add: sig_ok_nocache_def)
  with so assms(1) show ?thesis
    by (auto simp: op_checksig_def push_verdict_def Let_def)
qed

lemma disabled_opcode_False [simp]:
  "\<not> disabled_opcode OP_DUP" "\<not> disabled_opcode OP_HASH160" "\<not> disabled_opcode OP_EQUAL"
  "\<not> disabled_opcode OP_EQUALVERIFY" "\<not> disabled_opcode OP_CHECKSIG"
  by (simp_all add: disabled_opcode_def)

lemma CastToBool_bool_val [simp]: "CastToBool (bool_val b) = b"
  by (simp add: bool_val_def vchTrue_def vchFalse_def)


lemma eval_p2pkh:
  assumes st: "es_stack st = pub # sig # s" "es_vfExec st = []" "es_altstack st = []" "es_nOpCount st = 0"
    and small: "length s < 990" and inv: "cache_inv E (es_cache st)"
    and code: "es_pbegincodehash st = SetDestination (CKeyID h)"
  shows "if Hash160 E pub = h
     then \<exists>st2. eval_loop E tx nIn ht (SetDestination (CKeyID h)) st = Inr st2 \<and> es_vfExec st2 = [] \<and>
       es_stack st2 = bool_val (sig_ok_nocache E
         (fst (FindAndDelete (push_data sig) (SetDestination (CKeyID h)))) tx nIn ht sig pub) # s
     else \<exists>x. eval_loop E tx nIn ht (SetDestination (CKeyID h)) st = Inl x"
proof -
  define st' where "st' = st\<lparr>es_stack := pub # sig # s, es_nOpCount := 4\<rparr>"
  have st': "es_stack st' = pub # sig # s" "cache_inv E (es_cache st')"
    using inv by (simp_all add: st'_def)
  have eq: "eval_loop E tx nIn ht (SetDestination (CKeyID h)) st =
    (if Hash160 E pub = h then eval_loop E tx nIn ht [OP_CHECKSIG] (st\<lparr>es_nOpCount := 3, es_stack := pub # sig # s\<rparr>)
     else eval_fail (st\<lparr>es_nOpCount := 3, es_stack := bool_val False # pub # sig # s\<rparr>))"
    using st small
    by (simp add: eval_loop_op eval_step_op switch_DUP switch_HASH160 switch_EQUALVERIFY push_uint160_push_data
        eval_loop_push MAX_SCRIPT_ELEMENT_SIZE_def eval_fail_def)
  obtain C where C: "op_checksig E tx nIn ht OP_CHECKSIG st' =
    Inr (st'\<lparr>es_cache := C, es_stack := bool_val (sig_ok_nocache E (fst (FindAndDelete (push_data sig) (es_pbegincodehash st'))) tx nIn ht sig pub) # s\<rparr>)"
    using op_checksig_2 [OF st'] by blast
  have "eval_loop E tx nIn ht [OP_CHECKSIG] (st\<lparr>es_nOpCount := 3, es_stack := pub # sig # s\<rparr>) =
      Inr (st'\<lparr>es_cache := C, es_stack := bool_val (sig_ok_nocache E (fst (FindAndDelete (push_data sig) (es_pbegincodehash st'))) tx nIn ht sig pub) # s\<rparr>)"
    using C st small
    by (simp add: eval_loop_op eval_step_op switch_CHECKSIG flip: st'_def) (simp add: st'_def)
  then show ?thesis
    unfolding eq using st code by (simp add: eval_fail_def st'_def)
qed

lemma eval_two_pushes:
  assumes "length a \<le> MAX_SCRIPT_ELEMENT_SIZE" and "length b \<le> MAX_SCRIPT_ELEMENT_SIZE"
  shows "EvalScript E C [] (push_data a @ push_data b) tx nIn ht = (True, [b, a], C)"
proof -
  have "length (push_data a @ push_data b) \<le> 10000"
    using assms by (simp add: push_data_def MAX_SCRIPT_ELEMENT_SIZE_def)
  moreover have "eval_loop E tx nIn ht (push_data a @ push_data b @ []) st = Inr (st\<lparr>es_stack := b # a # es_stack st\<rparr>)"
    if "es_vfExec st = []" "es_stack st = []" "es_altstack st = []" for st
    using assms that by (simp add: eval_loop_push del: append_Nil2 append.right_neutral)
  ultimately show ?thesis by (simp add: EvalScript_def)
qed

lemma not_p2sh_p2pkh: "\<not> IsPayToScriptHash (SetDestination (CKeyID h))"
  by (simp add: IsPayToScriptHash_def push_uint160_eq)

lemma p2pkh_verify:
  assumes "cache_inv E C" and "length sig \<le> MAX_SCRIPT_ELEMENT_SIZE" and "length pub \<le> MAX_SCRIPT_ELEMENT_SIZE"
  shows "fst (VerifyScript E C (push_data sig @ push_data pub) (SetDestination (CKeyID h)) tx nIn ht) \<longleftrightarrow>
    Hash160 E pub = h \<and>
    sig_ok_nocache E (fst (FindAndDelete (push_data sig) (SetDestination (CKeyID h)))) tx nIn ht sig pub"
proof -
  let ?s = "SetDestination (CKeyID h)"
  let ?st = "\<lparr>es_pbegincodehash = ?s, es_stack = [pub, sig], es_altstack = [], es_vfExec = [], es_nOpCount = 0, es_cache = C\<rparr>"
  have len: "\<not> length ?s > 10000" by (simp add: push_uint160_eq)
  have "fst (VerifyScript E C (push_data sig @ push_data pub) ?s tx nIn ht) =
    (case EvalScript E C [pub, sig] ?s tx nIn ht of (ok, s2, _) \<Rightarrow> ok \<and> s2 \<noteq> [] \<and> CastToBool (hd s2))"
    using not_p2sh_p2pkh [of h]
    by (simp add: VerifyScript_def eval_two_pushes assms split: prod.split list.split)
  with eval_p2pkh [of ?st pub sig "[]" E h tx nIn ht] assms(1) len show ?thesis
    by (cases "Hash160 E pub = h") (clarsimp simp: EvalScript_def simp del: SetDestination.simps)+
qed

text \<open>C8: An input of a signature and a public key spends a pay-to-pubkey-hash output exactly when the key
  hashes to the output's hash and the signature is a canonical encoding that verifies under the
  canonically encoded key; the contents of the signature cache do not matter.\<close>

theorem p2pkh_spend_iff:
  assumes "cache_inv E C" and "length sig \<le> MAX_SCRIPT_ELEMENT_SIZE" and "length pub \<le> MAX_SCRIPT_ELEMENT_SIZE"
  shows "fst (VerifyScript E C (push_data sig @ push_data pub) (SetDestination (CKeyID h)) tx nIn ht) \<longleftrightarrow>
    Hash160 E pub = h \<and>
    sig_ok_nocache E (fst (FindAndDelete (push_data sig) (SetDestination (CKeyID h)))) tx nIn ht sig pub"
  using assms by (rule p2pkh_verify)

lemma sig_ok_ref:
  "sig_ok_nocache ref_env code tx nIn 0 [0x30, 6, 2, 1, 1, 2, 1, 1, 1] (2 # replicate 32 0)"
proof -
  have "IsCanonicalSignature [0x30, 6, 2, 1, 1, 2, 1, 1, 1]" by code_simp
  moreover have "IsCanonicalPubKey (2 # replicate 32 0)" by code_simp
  ultimately show ?thesis
    by (simp add: sig_ok_nocache_def CheckSig_nocache_def ref_env_def Verify_def SetPubKey_def)
qed

theorem p2pkh_spend_iff_witness:
  "fst (VerifyScript ref_env empty_cache (push_data [0x30, 6, 2, 1, 1, 2, 1, 1, 1] @ push_data (2 # replicate 32 0))
     (SetDestination (CKeyID (Hash160 ref_env (2 # replicate 32 0)))) (null_tx 0) 0 0)"
  using p2pkh_spend_iff [of ref_env empty_cache "[0x30, 6, 2, 1, 1, 2, 1, 1, 1]" "2 # replicate 32 0"
      "Hash160 ref_env (2 # replicate 32 0)" "null_tx 0" 0 0] sig_ok_ref
  by (simp add: MAX_SCRIPT_ELEMENT_SIZE_def del: SetDestination.simps)

section \<open>Runs of pushes and pay-to-script-hash\<close>

lemma eval_loop_PushAll:
  assumes "\<forall>v \<in> set vs. length v \<le> MAX_SCRIPT_ELEMENT_SIZE" and "es_vfExec st = []"
    and "length vs + length (es_stack st) + length (es_altstack st) \<le> 1000"
  shows "eval_loop E tx nIn ht (PushAll vs @ rest) st = eval_loop E tx nIn ht rest (st\<lparr>es_stack := rev vs @ es_stack st\<rparr>)"
  using assms
proof (induction vs arbitrary: st)
  case Nil
  then show ?case by (simp add: PushAll_def)
next
  case (Cons v vs)
  have "eval_loop E tx nIn ht (push_data v @ PushAll vs @ rest) st =
      eval_loop E tx nIn ht (PushAll vs @ rest) (st\<lparr>es_stack := v # es_stack st\<rparr>)"
    using Cons.prems by (intro eval_loop_push) simp_all
  with Cons show ?case by (simp add: PushAll_def)
qed

lemma IsPushOnly_PushAll:
  assumes "\<forall>v \<in> set vs. length v \<le> MAX_SCRIPT_ELEMENT_SIZE" and "IsPushOnly rest"
  shows "IsPushOnly (PushAll vs @ rest)"
  using assms
  by (induction vs) (simp_all add: PushAll_def MAX_SCRIPT_ELEMENT_SIZE_def IsPushOnly_push_data)

lemma PushAll_snoc: "PushAll (vs @ [v]) = PushAll vs @ push_data v"
  by (simp add: PushAll_def)

lemma EvalScript_PushAll:
  assumes "\<forall>v \<in> set vs. length v \<le> MAX_SCRIPT_ELEMENT_SIZE" and "length vs \<le> 1000" and "length (PushAll vs) \<le> 10000"
  shows "EvalScript E C [] (PushAll vs) tx nIn ht = (True, rev vs, C)"
  using assms eval_loop_PushAll [of vs "\<lparr>es_pbegincodehash = PushAll vs, es_stack = [], es_altstack = [],
      es_vfExec = [], es_nOpCount = 0, es_cache = C\<rparr>" E tx nIn ht "[]"]
  by (simp add: EvalScript_def)

lemma EvalScript_p2sh:
  assumes "length s < 990"
  shows "EvalScript E C (x # s) (SetDestination (CScriptID h)) tx nIn ht =
    (True, bool_val (Hash160 E x = h) # s, C)"
  using assms
  by (simp add: EvalScript_def eval_loop_op eval_step_op switch_HASH160 switch_EQUAL push_uint160_push_data
      eval_loop_push MAX_SCRIPT_ELEMENT_SIZE_def) (simp add: push_data_def)

lemma p2sh_SetDestination: "IsPayToScriptHash (SetDestination (CScriptID h))"
  by (simp add: IsPayToScriptHash_def push_uint160_eq uint160_bytes_def nth_append)

text \<open>C9: An input that pushes arguments and then a redeem script spends a pay-to-script-hash output exactly
  when the redeem script hashes to the output's hash and, run on the arguments, succeeds with a
  true value on top.\<close>

theorem p2sh_spend_iff:
  assumes "\<forall>v \<in> set args. length v \<le> MAX_SCRIPT_ELEMENT_SIZE" and "length redeem \<le> MAX_SCRIPT_ELEMENT_SIZE"
    and "length args < 990" and "length (PushAll args @ push_data redeem) \<le> 10000"
  shows "fst (VerifyScript E C (PushAll args @ push_data redeem) (SetDestination (CScriptID h)) tx nIn ht) \<longleftrightarrow>
    Hash160 E redeem = h \<and>
    (case EvalScript E C (rev args) redeem tx nIn ht of (ok, s, _) \<Rightarrow> ok \<and> s \<noteq> [] \<and> CastToBool (hd s))"
proof -
  have 1: "EvalScript E C [] (PushAll args @ push_data redeem) tx nIn ht = (True, redeem # rev args, C)"
    using EvalScript_PushAll [of "args @ [redeem]" E C tx nIn ht] assms by (auto simp: PushAll_snoc)
  have 2: "IsPushOnly (PushAll args @ push_data redeem)"
    using IsPushOnly_PushAll [of "args @ [redeem]" "[]"] assms by (auto simp: PushAll_snoc)
  show ?thesis
    unfolding VerifyScript_def 1
    using 2 assms(3) EvalScript_p2sh [of "rev args" E C redeem h tx nIn ht] p2sh_SetDestination [of h]
    by (simp del: SetDestination.simps split: prod.split list.split)
qed

theorem p2sh_spend_iff_witness:
  "fst (VerifyScript ref_env empty_cache (PushAll [] @ push_data [0x51]) (SetDestination (CScriptID (Hash160 ref_env [0x51])))
     (null_tx 0) 0 0)"
proof -
  have "EvalScript ref_env empty_cache [] [0x51] (null_tx 0) 0 0 = (True, [[1]], empty_cache)" by code_simp
  with p2sh_spend_iff [of "[]" "[0x51]" ref_env empty_cache "Hash160 ref_env [0x51]" "null_tx 0" 0 0] show ?thesis
    by (simp add: MAX_SCRIPT_ELEMENT_SIZE_def PushAll_def push_data_def del: SetDestination.simps)
qed

section \<open>Multisignature outputs\<close>

lemma multisig_match_iff:
  assumes "length sigs \<le> length keys"
  shows "multisig_match ok sigs keys \<longleftrightarrow> (\<exists>ks. subseq ks keys \<and> list_all2 ok sigs ks)"
  using assms
proof (induction ok sigs keys rule: multisig_match.induct)
  case (3 ok sig sigs key keys)
  have "(\<exists>ks. subseq ks (key # keys) \<and> list_all2 ok (sig # sigs) ks) \<longleftrightarrow>
    (if ok sig key then \<exists>ks. subseq ks keys \<and> list_all2 ok sigs ks
     else \<exists>ks. subseq ks keys \<and> list_all2 ok (sig # sigs) ks)"
    unfolding list_all2_Cons1 by (metis subseq_Cons2_iff subseq_Cons')
  moreover have "\<not> (\<exists>ks. subseq ks keys \<and> list_all2 ok ss ks)" if "length keys < length ss" for ss
    using that by (auto dest!: list_emb_length list_all2_lengthD)
  ultimately show ?case using 3 by (auto simp: Let_def)
qed (auto dest: list_all2_lengthD)

lemma subseq_rev_mono: "subseq xs ys \<Longrightarrow> subseq (rev xs) (rev ys)"
proof (induction rule: list_emb.induct)
  case (list_emb_Cons xs ys y)
  then show ?case by (simp add: subseq_rev_drop_many)
next
  case (list_emb_Cons2 x y xs ys)
  then show ?case by (simp add: list_emb_append_mono)
qed simp

lemma subseq_rev_iff: "subseq (rev xs) (rev ys) \<longleftrightarrow> subseq xs ys"
  using subseq_rev_mono [of xs ys] subseq_rev_mono [of "rev xs" "rev ys"] by auto

lemma multisig_match_rev:
  assumes "length sigs \<le> length keys"
  shows "multisig_match ok (rev sigs) (rev keys) \<longleftrightarrow> (\<exists>ks. subseq ks keys \<and> list_all2 ok sigs ks)"
proof -
  have "(\<exists>ks. subseq ks (rev keys) \<and> list_all2 ok (rev sigs) ks) \<longleftrightarrow> (\<exists>ks. subseq ks keys \<and> list_all2 ok sigs ks)"
    by (metis list_all2_rev rev_rev_ident subseq_rev_iff)
  with multisig_match_iff [of "rev sigs" "rev keys" ok] assms show ?thesis by simp
qed

lemma EncodeOP_N_props:
  assumes "EncodeOP_N k = Some c" and "1 \<le> k"
  shows "OP_1 \<le> c" "c \<le> OP_16" "uint c - (uint OP_1 - 1) = k" "OP_PUSHDATA4 < c" "\<not> disabled_opcode c"
proof -
  from assms have k: "k \<le> 16" "c = word_of_int (80 + k)" by (auto simp: EncodeOP_N_def split: if_splits)
  then have u: "uint c = 80 + k" using assms(2) by (simp only: uint_word_of_int) simp
  with k assms(2) show "OP_1 \<le> c" "c \<le> OP_16" "uint c - (uint OP_1 - 1) = k" "OP_PUSHDATA4 < c"
    by (simp_all add: word_le_def word_less_def)
  show "\<not> disabled_opcode c"
  proof
    assume "disabled_opcode c"
    then have "uint c \<ge> 126" unfolding disabled_opcode_def by auto
    with u k show False by simp
  qed
qed

lemma small_vch: "bn_doc E \<Longrightarrow> \<bar>k\<bar> \<le> 16 \<Longrightarrow> getvch E k = vch_of_int k"
  and length_small_vch: "\<bar>k\<bar> \<le> 16 \<Longrightarrow> length (vch_of_int k) \<le> 1"
  using length_vch_of_int [of 1 k] by (auto intro!: getvch_doc)

lemma eval_loop_number:
  assumes "bn_doc E" and "EncodeOP_N k = Some c" and "1 \<le> k" and "es_vfExec st = []"
    and "length (es_stack st) + length (es_altstack st) < 1000"
  shows "eval_loop E tx nIn ht (c # rest) st = eval_loop E tx nIn ht rest (st\<lparr>es_stack := vch_of_int k # es_stack st\<rparr>)"
proof -
  note p = EncodeOP_N_props [OF assms(2,3)]
  have k: "k \<le> 16" using assms(2) by (auto simp: EncodeOP_N_def split: if_splits)
  have "op_switch E tx nIn ht True rest c st = Inr (st\<lparr>es_stack := vch_of_int k # es_stack st\<rparr>)"
    using p k assms(1,3) by (simp add: op_switch_def op_pushvalue_def CBigNum_int_doc int64_range_def small_vch)
  moreover have "\<not> OP_16 < c" "\<not> c \<le> OP_PUSHDATA4" using p(2,4) by (simp_all add: not_less not_le)
  ultimately show ?thesis
    using p assms(4,5) by (simp add: eval_loop_op eval_step_def)
qed

lemma CastToBigNum_small:
  assumes "bn_doc E" and "\<bar>k\<bar> \<le> 16"
  shows "CastToBigNum E (vch_of_int k) = Some k" "getint E k = k"
proof -
  have "length (vch_of_int k) \<le> 1" using assms(2) by (rule length_small_vch)
  then have "length (vch_of_int k) < 2 ^ 31" "length (vch_of_int k) \<le> 4" by simp_all
  then show "CastToBigNum E (vch_of_int k) = Some k"
    using assms by (simp add: CastToBigNum_def setvch_doc small_vch)
  show "getint E k = k" using assms by (simp add: getint_doc)
qed

lemma op_checkmultisig_frame:
  assumes "bn_doc E" and "cache_inv E (es_cache st)"
    and st: "es_stack st = vch_of_int n # rev keys @ vch_of_int m # rev sigs @ dummy # s"
    and "n = int (length keys)" and "m = int (length sigs)" and "m \<le> n" and "n \<le> 16"
    and "es_nOpCount st + n \<le> 201"
  shows "\<exists>C. cache_inv E C \<and> op_checkmultisig E tx nIn ht OP_CHECKMULTISIG st =
    Inr (st\<lparr>es_nOpCount := es_nOpCount st + n, es_cache := C, es_stack :=
      bool_val (\<exists>ks. subseq ks keys \<and> list_all2 (sig_ok_nocache E (drop_signatures (rev sigs) (es_pbegincodehash st)) tx nIn ht) sigs ks) # s\<rparr>)"
proof -
  let ?code = "drop_signatures (rev sigs) (es_pbegincodehash st)"
  obtain b C where ml: "multisig_loop E (es_cache st) ?code tx nIn ht (rev sigs) (rev keys) = (b, C)" by fastforce
  have b: "b = (\<exists>ks. subseq ks keys \<and> list_all2 (sig_ok_nocache E ?code tx nIn ht) sigs ks)" "cache_inv E C"
    using multisig_loop_transparent [OF assms(2), of ?code tx nIn ht "rev sigs" "rev keys"] ml
      multisig_match_rev [of sigs keys] assms(4-6) by simp_all
  have c: "CastToBigNum E (vch_of_int n) = Some n" "getint E n = n" "CastToBigNum E (vch_of_int m) = Some m" "getint E m = m"
    using CastToBigNum_small [OF assms(1)] assms(4-7) by simp_all
  have "es_stack st ! Suc (length keys) = vch_of_int m"
    unfolding st by (simp add: nth_append)
  moreover have "drop (3 + length keys + length sigs) (es_stack st) = s"
    unfolding st by (simp add: numeral_3_eq_3)
  ultimately have "op_checkmultisig E tx nIn ht OP_CHECKMULTISIG st =
    push_verdict False b s (st\<lparr>es_nOpCount := es_nOpCount st + n, es_cache := C\<rparr>)"
    using st c ml assms(4-8) by (simp add: op_checkmultisig_def Let_def)
  with b show ?thesis by (auto simp: push_verdict_def Let_def)
qed


lemma switch_CHECKMULTISIG:
  "op_switch E tx nIn ht True pc OP_CHECKMULTISIG st = op_checkmultisig E tx nIn ht OP_CHECKMULTISIG st"
  by (simp add: op_switch_def)


lemma SetMultisig_shape:
  assumes "SetMultisig E m keys = Some s"
  obtains cm cn where "EncodeOP_N m = Some cm" "EncodeOP_N (int (length keys)) = Some cn"
    "s = cm # PushAll (map (GetPubKey E) keys) @ [cn, OP_CHECKMULTISIG]" "length keys \<le> 16"
  using assms by (auto simp: SetMultisig_def PushAll_def comp_def EncodeOP_N_def split: option.splits if_splits)

lemma length_PushAll: "\<forall>v \<in> set vs. length v \<le> MAX_SCRIPT_ELEMENT_SIZE \<Longrightarrow> length (PushAll vs) \<le> 526 * length vs"
  by (induction vs) (auto simp: PushAll_def push_data_def MAX_SCRIPT_ELEMENT_SIZE_def)

lemma eval_loop_last_op:
  assumes "OP_16 < c" and "\<not> disabled_opcode c" and "es_vfExec st = []" and "es_nOpCount st < 201"
    and "op_switch E tx nIn ht True [] c (st\<lparr>es_nOpCount := es_nOpCount st + 1\<rparr>) = Inr st2"
    and "length (es_stack st2) + length (es_altstack st2) \<le> 1000"
  shows "eval_loop E tx nIn ht [c] st = Inr st2"
proof -
  have "OP_PUSHDATA4 < c" using assms(1) by (simp add: word_less_nat_alt)
  with assms show ?thesis by (simp add: eval_loop_op eval_step_op)
qed

lemma eval_loop_SetMultisig:
  assumes "bn_doc E" and "SetMultisig E m keys = Some s" and "1 \<le> m" and "1 \<le> length keys"
    and pubs: "\<forall>key \<in> set keys. length (GetPubKey E key) \<le> MAX_SCRIPT_ELEMENT_SIZE"
    and "es_vfExec st = []" and "length (es_stack st) + length (es_altstack st) < 900"
  shows "eval_loop E tx nIn ht s st = eval_loop E tx nIn ht [OP_CHECKMULTISIG] (st\<lparr>es_stack :=
      vch_of_int (int (length keys)) # rev (map (GetPubKey E) keys) @ vch_of_int m # es_stack st\<rparr>)"
proof -
  let ?pubs = "map (GetPubKey E) keys"
  obtain cm cn where c: "EncodeOP_N m = Some cm" "EncodeOP_N (int (length keys)) = Some cn"
      "s = cm # PushAll ?pubs @ [cn, OP_CHECKMULTISIG]" "length keys \<le> 16"
    using SetMultisig_shape [OF assms(2)] .
  define st1 where "st1 = st\<lparr>es_stack := vch_of_int m # es_stack st\<rparr>"
  define st2 where "st2 = st1\<lparr>es_stack := rev ?pubs @ es_stack st1\<rparr>"
  have "eval_loop E tx nIn ht s st = eval_loop E tx nIn ht (PushAll ?pubs @ [cn, OP_CHECKMULTISIG]) st1"
    unfolding c(3) st1_def using assms c by (intro eval_loop_number) simp_all
  also have "\<dots> = eval_loop E tx nIn ht [cn, OP_CHECKMULTISIG] st2"
    unfolding st2_def using assms c(4) by (intro eval_loop_PushAll) (simp_all add: st1_def)
  also have "\<dots> = eval_loop E tx nIn ht [OP_CHECKMULTISIG] (st2\<lparr>es_stack := vch_of_int (int (length keys)) # es_stack st2\<rparr>)"
    using assms c by (intro eval_loop_number) (simp_all add: st2_def st1_def)
  finally show ?thesis by (simp add: st1_def st2_def)
qed

lemma eval_multisig:
  assumes "bn_doc E" and "cache_inv E C" and script: "SetMultisig E m keys = Some s"
    and m: "m = int (length sigs)" "1 \<le> m" "length sigs \<le> length keys"
    and pubs: "\<forall>key \<in> set keys. length (GetPubKey E key) \<le> MAX_SCRIPT_ELEMENT_SIZE"
  shows "\<exists>C'. cache_inv E C' \<and> EvalScript E C (rev sigs @ [[]]) s tx nIn ht =
    (True, [bool_val (\<exists>ks. subseq ks (map (GetPubKey E) keys) \<and>
       list_all2 (sig_ok_nocache E (drop_signatures (rev sigs) s) tx nIn ht) sigs ks)], C')"
proof -
  let ?pubs = "map (GetPubKey E) keys"
  define v where "v = bool_val (\<exists>ks. subseq ks ?pubs \<and>
       list_all2 (sig_ok_nocache E (drop_signatures (rev sigs) s) tx nIn ht) sigs ks)"
  obtain cm cn where c: "s = cm # PushAll ?pubs @ [cn, OP_CHECKMULTISIG]" "length keys \<le> 16"
    using SetMultisig_shape [OF script] .
  have len: "length s \<le> 10000" using length_PushAll [of ?pubs] pubs c by simp
  let ?st = "\<lparr>es_pbegincodehash = s, es_stack = rev sigs @ [[]], es_altstack = [], es_vfExec = [],
      es_nOpCount = 0, es_cache = C\<rparr>"
  define st' where "st' = ?st\<lparr>es_stack := vch_of_int (int (length keys)) # rev ?pubs @ vch_of_int m # rev sigs @ [[]]\<rparr>"
  have 1: "eval_loop E tx nIn ht s ?st = eval_loop E tx nIn ht [OP_CHECKMULTISIG] st'"
    using eval_loop_SetMultisig [OF assms(1) script m(2) _ pubs, of ?st tx nIn ht] m c(2) by (simp add: st'_def)
  define st'' where "st'' = st'\<lparr>es_nOpCount := 1\<rparr>"
  have st'': "cache_inv E (es_cache st'')" "es_pbegincodehash st'' = s" "es_nOpCount st'' + int (length keys) \<le> 201"
    "es_stack st'' = vch_of_int (int (length keys)) # rev ?pubs @ vch_of_int m # rev sigs @ [] # []"
    using assms(2) c(2) by (simp_all add: st''_def st'_def)
  have mn: "m \<le> int (length keys)" "int (length keys) = int (length ?pubs)" "int (length keys) \<le> 16"
    using m c(2) by simp_all
  obtain D where D: "cache_inv E D" "op_checkmultisig E tx nIn ht OP_CHECKMULTISIG st'' =
    Inr (st''\<lparr>es_nOpCount := es_nOpCount st'' + int (length keys), es_cache := D, es_stack := [v]\<rparr>)"
    using op_checkmultisig_frame [OF assms(1) st''(1,4) mn(2) m(1) mn(1,3) st''(3), of tx nIn ht]
    unfolding st''(2) v_def by blast
  then have "op_switch E tx nIn ht True [] OP_CHECKMULTISIG (st'\<lparr>es_nOpCount := es_nOpCount st' + 1\<rparr>) =
    Inr (st''\<lparr>es_nOpCount := es_nOpCount st'' + int (length keys), es_cache := D, es_stack := [v]\<rparr>)"
    by (simp add: switch_CHECKMULTISIG st''_def st'_def)
  then have "eval_loop E tx nIn ht [OP_CHECKMULTISIG] st' =
      Inr (st''\<lparr>es_nOpCount := es_nOpCount st'' + int (length keys), es_cache := D, es_stack := [v]\<rparr>)"
    by (rule eval_loop_last_op [rotated 4]) (simp_all add: disabled_opcode_def st''_def st'_def)
  with len 1 D(1) show ?thesis
    unfolding v_def [symmetric] EvalScript_def by (simp add: st''_def st'_def)
qed

lemma VerifyScript_plain:
  assumes "EvalScript E C [] sig tx nIn ht = (True, s1, C1)" and "EvalScript E C1 s1 pub tx nIn ht = (ok, s2, C2)"
    and "\<not> IsPayToScriptHash pub"
  shows "VerifyScript E C sig pub tx nIn ht = (ok \<and> s2 \<noteq> [] \<and> CastToBool (hd s2), C2)"
  using assms by (simp add: VerifyScript_def split: list.split)

text \<open>C10: An input of an extra empty element and m signatures spends an m-of-n multisignature output exactly
  when there are m of the n keys, in the order of the script, that verify the signatures one by
  one. The hypothesis on the environment is the documented behaviour of OpenSSL's number
  conversions, through which the key and signature counts pass.\<close>

theorem multisig_spend_iff:
  assumes "bn_doc E" and "cache_inv E C" and "SetMultisig E m keys = Some s"
    and "m = int (length sigs)" and "1 \<le> m" and "length sigs \<le> length keys"
    and "\<forall>key \<in> set keys. length (GetPubKey E key) \<le> MAX_SCRIPT_ELEMENT_SIZE"
    and "\<forall>sig \<in> set sigs. length sig \<le> MAX_SCRIPT_ELEMENT_SIZE"
  shows "fst (VerifyScript E C (PushAll ([] # sigs)) s tx nIn ht) \<longleftrightarrow>
    (\<exists>ks. subseq ks (map (GetPubKey E) keys) \<and>
       list_all2 (sig_ok_nocache E (drop_signatures (rev sigs) s) tx nIn ht) sigs ks)"
proof -
  have k: "length sigs \<le> 16" using SetMultisig_shape [OF assms(3)] assms(6) by (metis order_trans)
  have "length (PushAll ([] # sigs)) \<le> 10000"
    using length_PushAll [OF assms(8)] k by (simp add: PushAll_def push_data_def)
  then have 1: "EvalScript E C [] (PushAll ([] # sigs)) tx nIn ht = (True, rev sigs @ [[]], C)"
    using EvalScript_PushAll [of "[] # sigs" E C tx nIn ht] assms(8) k by simp
  have "last s = OP_CHECKMULTISIG" "s \<noteq> []" using assms(3) by (auto simp: SetMultisig_def split: option.splits)
  then have "\<not> IsPayToScriptHash s"
    by (auto simp: IsPayToScriptHash_def last_conv_nth)
  with eval_multisig [OF assms(1-7), of tx nIn ht] 1 show ?thesis
    by (auto simp: VerifyScript_plain)
qed

theorem multisig_spend_iff_witness:
  "fst (VerifyScript ref_env empty_cache (PushAll ([] # [[0x30, 6, 2, 1, 1, 2, 1, 1, 1]]))
     (the (SetMultisig ref_env 1 [(replicate 32 0, True)])) (null_tx 0) 0 0)"
proof -
  define s where "s = the (SetMultisig ref_env 1 [(replicate 32 0, True)])"
  have k: "GetPubKey ref_env (replicate 32 0, True) = 2 # replicate 32 0"
    by (simp add: GetPubKey_def ref_env_def)
  have s: "SetMultisig ref_env 1 [(replicate 32 0, True)] = Some s"
    by (simp add: s_def SetMultisig_def EncodeOP_N_def)
  have "subseq [2 # replicate 32 0] (map (GetPubKey ref_env) [(replicate 32 0, True)]) \<and>
      list_all2 (sig_ok_nocache ref_env (drop_signatures (rev [[0x30, 6, 2, 1, 1, 2, 1, 1, 1]]) s) (null_tx 0) 0 0)
        [[0x30, 6, 2, 1, 1, 2, 1, 1, 1]] [2 # replicate 32 0]"
    using sig_ok_ref k by simp
  with multisig_spend_iff [OF bn_doc_ref_env cache_inv_empty s, of "[[0x30, 6, 2, 1, 1, 2, 1, 1, 1]]" "null_tx 0" 0 0] k
  show ?thesis unfolding s_def [symmetric] by (auto simp: MAX_SCRIPT_ELEMENT_SIZE_def)
qed

section \<open>Destinations\<close>

lemma match_p2pkh: "Solver (SetDestination (CKeyID h)) = (True, TX_PUBKEYHASH, [uint160_bytes h])"
proof -
  have g: "GetOp (push_uint160 h @ rest) = Some (hd (push_uint160 h), uint160_bytes h, rest)" for rest
    using GetOp_push_data [of "uint160_bytes h" rest] by (simp add: push_uint160_push_data)
  have 1: "match_template (SetDestination (CKeyID h)) [OP_PUBKEY, OP_CHECKSIG] [] = None"
    by (subst match_template.simps) (simp add: GetOp_opcode match_op_def)
  have 2: "match_template (SetDestination (CKeyID h)) [OP_DUP, OP_HASH160, OP_PUBKEYHASH, OP_EQUALVERIFY, OP_CHECKSIG] [] = Some [uint160_bytes h]"
    by (simp add: match_template.simps GetOp_opcode match_op_def g)
  show ?thesis
    using not_p2sh_p2pkh [of h] 1 2 by (simp add: Solver_def mTemplates_def del: SetDestination.simps)
qed

lemma uint160_of_vch_bytes [simp]: "uint160_of_vch (uint160_bytes h) = h"
  by (simp add: uint160_of_vch_def uint160_bytes_def unsigned_less [where ?'b = 160, simplified])

lemma match_p2sh: "Solver (SetDestination (CScriptID h)) = (True, TX_SCRIPTHASH, [uint160_bytes h])"
  using p2sh_SetDestination [of h] by (simp add: Solver_def push_uint160_eq)

text \<open>The script built for a key or script destination is standard and the destination is read back
  from it.\<close>

theorem ExtractDestination_SetDestination:
  assumes "d \<noteq> CNoDestination"
  shows "ExtractDestination E (SetDestination d) = Some d \<and> fst (IsStandard (SetDestination d))"
  using assms by (cases d) (simp_all add: ExtractDestination_def IsStandard_def match_p2pkh match_p2sh del: SetDestination.simps(2,3))

theorem ExtractDestination_SetDestination_witness:
  "ExtractDestination ref_env (SetDestination (CScriptID 7)) = Some (CScriptID 7) \<and> fst (IsStandard (SetDestination (CScriptID 7)))"
  by (rule ExtractDestination_SetDestination) simp

end
