(* ===== verification/Interp_Limits.thy ===== *)
theory Interp_Limits
  imports Interp_Cache
begin

text \<open>
  The resource limits \<^const>\<open>EvalScript\<close> enforces: scripts of at most 10000 bytes, stacks of at most
  1000 elements together, elements of at most 520 bytes, at most 201 counted operations. Every
  handler is shown to keep elements small, and the loop to keep the other bounds, so that a run
  that starts within the limits and succeeds ends within them. The last section shows that a
  disabled opcode anywhere in a script, executed or not, makes it fail.
\<close>

section \<open>Limits as an invariant of the interpreter\<close>

definition small_elements :: "eval_state \<Rightarrow> bool" where
  "small_elements st \<longleftrightarrow>
     (\<forall>v \<in> set (es_stack st). length v \<le> MAX_SCRIPT_ELEMENT_SIZE) \<and>
     (\<forall>v \<in> set (es_altstack st). length v \<le> MAX_SCRIPT_ELEMENT_SIZE)"

definition within_limits :: "eval_state \<Rightarrow> bool" where
  "within_limits st \<longleftrightarrow>
     small_elements st \<and> length (es_stack st) + length (es_altstack st) \<le> 1000 \<and> es_nOpCount st \<le> 201"

definition keeps_limits :: "(eval_state \<Rightarrow> eval_result) \<Rightarrow> bool" where
  "keeps_limits f \<longleftrightarrow>
     (\<forall>st st'. within_limits st \<longrightarrow> f st = Inr st' \<longrightarrow> small_elements st' \<and> es_nOpCount st' \<le> 201)"

lemma keeps_limitsI:
  "(\<And>st st'. within_limits st \<Longrightarrow> f st = Inr st' \<Longrightarrow> small_elements st' \<and> es_nOpCount st' \<le> 201) \<Longrightarrow> keeps_limits f"
  by (simp add: keeps_limits_def)

lemma keeps_limitsD:
  "keeps_limits f \<Longrightarrow> within_limits st \<Longrightarrow> f st = Inr st' \<Longrightarrow> small_elements st' \<and> es_nOpCount st' \<le> 201"
  unfolding keeps_limits_def by blast

lemma keeps_limits_if: "(b \<Longrightarrow> keeps_limits f) \<Longrightarrow> (\<not> b \<Longrightarrow> keeps_limits g) \<Longrightarrow> keeps_limits (\<lambda>st. if b then f st else g st)"
  by (cases b) simp_all

lemma length_getvch_le:
  assumes "bn_doc E" and "\<bar>v\<bar> < 2 ^ 62"
  shows "length (getvch E v) \<le> MAX_SCRIPT_ELEMENT_SIZE"
proof -
  have "length (vch_of_int v) \<le> 8" using length_vch_of_int [of 8 v] assms(2) by simp
  with assms show ?thesis by (simp add: getvch_doc MAX_SCRIPT_ELEMENT_SIZE_def)
qed

lemma int_of_vch_bound: "\<bar>int_of_vch d\<bar> < 256 ^ length d"
proof (cases d rule: rev_cases)
  case (snoc ds b)
  have "le_val (ds @ [b AND 127]) < 256 ^ length d" using le_val_bound [of "ds @ [b AND 127]"] snoc by simp
  moreover have "le_val d < 256 ^ length d" by (rule le_val_bound)
  ultimately have "int (le_val (ds @ [b AND 127])) < 256 ^ length d" "int (le_val d) < 256 ^ length d"
    by (simp_all only: of_nat_less_iff [symmetric, where ?'a = int]) simp_all
  then show ?thesis using snoc by (simp add: int_of_vch_def)
qed (simp add: int_of_vch_def)

lemma CastToBigNum_bound:
  assumes "bn_doc E" and "CastToBigNum E vch = Some n"
  shows "\<bar>n\<bar> < 2 ^ 32"
proof -
  define k where "k = int_of_vch vch"
  have len: "length vch \<le> 4" using assms(2) by (auto simp: CastToBigNum_def split: if_splits)
  have "\<bar>k\<bar> < 256 ^ length vch" unfolding k_def by (rule int_of_vch_bound)
  also have "(256::int) ^ length vch \<le> 256 ^ 4" using len by (intro power_increasing) simp_all
  finally have k: "\<bar>k\<bar> < 2 ^ 32" by simp
  have "length (vch_of_int k) \<le> 8" using length_vch_of_int [of 8 k] k by simp
  then have "n = k"
    using assms len by (simp add: CastToBigNum_def setvch_doc getvch_doc flip: k_def)
  with k show ?thesis by simp
qed

lemmas limit_defs = within_limits_def small_elements_def

lemma keeps_simple:
  "keeps_limits (op_control f c)" "keeps_limits (op_altstack c)" "keeps_limits eval_fail" "keeps_limits Inr"
  "keeps_limits (\<lambda>st. Inr (st\<lparr>es_pbegincodehash := pc\<rparr>))"
  "keeps_limits (op_hash E c)"
  by (rule keeps_limitsI;
      auto simp: limit_defs op_control_def op_altstack_def op_hash_def script_hash_def eval_fail_def Let_def MAX_SCRIPT_ELEMENT_SIZE_def
        split: if_splits list.splits)+


lemma op_stack_fixed_small:
  assumes "bn_doc E" and "op_stack_fixed E c s = Some s'" and "length s \<le> 1000"
    and "\<forall>v \<in> set s. length v \<le> MAX_SCRIPT_ELEMENT_SIZE"
  shows "\<forall>v \<in> set s'. length v \<le> MAX_SCRIPT_ELEMENT_SIZE"
proof -
  have "set s' \<subseteq> insert (getvch E (int (length s))) (set s)"
    using assms(2) unfolding op_stack_fixed_def by (auto split: if_splits list.splits)
  moreover have "length (getvch E (int (length s))) \<le> MAX_SCRIPT_ELEMENT_SIZE"
    using assms(1,3) by (intro length_getvch_le) simp_all
  ultimately show ?thesis using assms(4) by blast
qed

lemma keeps_stack_fixed:
  "bn_doc E \<Longrightarrow> keeps_limits (\<lambda>st. case op_stack_fixed E c (es_stack st) of
     None \<Rightarrow> eval_fail st | Some s \<Rightarrow> Inr (st\<lparr>es_stack := s\<rparr>))"
  by (rule keeps_limitsI)
     (auto simp: limit_defs eval_fail_def split: option.splits dest: op_stack_fixed_small)

lemma keeps_pushvalue:
  assumes "bn_doc E"
  shows "keeps_limits (op_pushvalue E c)"
proof -
  define u where "u = uint c"
  have u: "0 \<le> u" "u < 256" using uint_lt2p [of c] by (simp_all add: u_def)
  then have "\<bar>u - 80\<bar> < 2 ^ 62" "int64_range (u - 80)" by (simp_all add: int64_range_def abs_less_iff)
  then have "length (getvch E (CBigNum_int E (uint c - 80))) \<le> MAX_SCRIPT_ELEMENT_SIZE"
    using assms length_getvch_le [OF assms, of "u - 80"] by (simp add: CBigNum_int_doc u_def)
  then show ?thesis
    by (auto intro!: keeps_limitsI simp: limit_defs op_pushvalue_def)
qed

lemma pick_roll_set:
  "n < length s \<Longrightarrow> set (s ! n # (if b then take n s @ drop (Suc n) s else s)) \<subseteq> set s"
  by (auto dest: in_set_takeD in_set_dropD)

lemma keeps_pick_roll: "keeps_limits (op_pick_roll E c)"
proof (rule keeps_limitsI)
  fix st st' assume lim: "within_limits st" and r: "op_pick_roll E c st = Inr st'"
  then have "\<exists>i s n. es_stack st = i # s \<and> n < length s \<and>
      st' = st\<lparr>es_stack := s ! n # (if c = OP_ROLL then take n s @ drop (Suc n) s else s)\<rparr>"
    by (auto simp: op_pick_roll_def eval_fail_def Let_def split: list.splits option.splits if_splits
         intro!: exI [where x = "nat (getint E _)"])
  then obtain i s n where s: "es_stack st = i # s" "n < length s"
      "st' = st\<lparr>es_stack := s ! n # (if c = OP_ROLL then take n s @ drop (Suc n) s else s)\<rparr>" by blast
  have "set (es_stack st') \<subseteq> set s"
    unfolding s(3) using pick_roll_set [OF s(2)] by simp
  with lim s show "small_elements st' \<and> es_nOpCount st' \<le> 201"
    by (fastforce simp: limit_defs)
qed

lemma keeps_size:
  assumes "bn_doc E" and "\<not> disabled_opcode c"
  shows "keeps_limits (op_splice E c)"
proof (rule keeps_limitsI)
  fix st st' assume lim: "within_limits st" and r: "op_splice E c st = Inr st'"
  then obtain x s where s: "es_stack st = x # s" "st' = st\<lparr>es_stack := getvch E (int (length x)) # x # s\<rparr>"
    using assms(2) by (auto simp: op_splice_def disabled_opcode_def eval_fail_def split: list.splits)
  moreover have "length (getvch E (int (length x))) \<le> MAX_SCRIPT_ELEMENT_SIZE"
    using lim s(1) assms(1) by (intro length_getvch_le) (simp_all add: limit_defs MAX_SCRIPT_ELEMENT_SIZE_def)
  ultimately show "small_elements st' \<and> es_nOpCount st' \<le> 201"
    using lim by (simp add: limit_defs)
qed

lemma length_bool_val: "length (bool_val b) \<le> MAX_SCRIPT_ELEMENT_SIZE"
  by (simp add: bool_val_def vchTrue_def vchFalse_def MAX_SCRIPT_ELEMENT_SIZE_def)

lemma keeps_bitlogic: "\<not> disabled_opcode c \<Longrightarrow> keeps_limits (op_bitlogic c)"
  by (rule keeps_limitsI)
     (auto simp: limit_defs op_bitlogic_def disabled_opcode_def eval_fail_def Let_def length_bool_val
       split: list.splits if_splits)

lemma numeric1_bound: "\<not> disabled_opcode c \<Longrightarrow> \<bar>n\<bar> < 2 ^ 32 \<Longrightarrow> \<bar>numeric1 c n\<bar> < 2 ^ 62"
  by (auto simp: numeric1_def disabled_opcode_def bool_num_def)

lemma numeric2_bound:
  "\<not> disabled_opcode c \<Longrightarrow> \<bar>a\<bar> < 2 ^ 32 \<Longrightarrow> \<bar>b\<bar> < 2 ^ 32 \<Longrightarrow> numeric2 E c a b = Some r \<Longrightarrow> \<bar>r\<bar> < 2 ^ 62"
  by (auto simp: numeric2_def disabled_opcode_def bool_num_def split: if_splits)

lemma keeps_numeric1:
  assumes "bn_doc E" and "\<not> disabled_opcode c"
  shows "keeps_limits (op_numeric1 E c)"
  using length_getvch_le [OF assms(1) numeric1_bound [OF assms(2) CastToBigNum_bound [OF assms(1)]]]
  by (intro keeps_limitsI)
     (auto simp: limit_defs op_numeric1_def eval_fail_def split: list.splits option.splits)

lemma keeps_numeric2:
  assumes "bn_doc E" and "\<not> disabled_opcode c"
  shows "keeps_limits (op_numeric2 E c)"
proof -
  have "length (getvch E r) \<le> MAX_SCRIPT_ELEMENT_SIZE"
    if "CastToBigNum E x = Some a" "CastToBigNum E y = Some b" "numeric2 E c a b = Some r" for x y a b r
    using that length_getvch_le [OF assms(1) numeric2_bound [OF assms(2)]] CastToBigNum_bound [OF assms(1)] by blast
  then show ?thesis
    by (intro keeps_limitsI)
       (auto simp: limit_defs op_numeric2_def eval_fail_def Let_def split: list.splits option.splits if_splits)
qed

lemma keeps_within: "keeps_limits (op_within E)"
  by (rule keeps_limitsI)
     (auto simp: limit_defs op_within_def eval_fail_def length_bool_val split: list.splits option.splits)

lemma push_verdict_limits:
  assumes "push_verdict v b s st = Inr st'" and "\<forall>x \<in> set s. length x \<le> MAX_SCRIPT_ELEMENT_SIZE"
    and "\<forall>x \<in> set (es_altstack st). length x \<le> MAX_SCRIPT_ELEMENT_SIZE" and "es_nOpCount st \<le> 201"
  shows "small_elements st' \<and> es_nOpCount st' \<le> 201"
  using assms by (auto simp: push_verdict_def small_elements_def eval_fail_def Let_def length_bool_val split: if_splits)

lemma keeps_checksig: "keeps_limits (op_checksig E tx nIn ht c)"
  by (rule keeps_limitsI)
     (auto simp: op_checksig_def eval_fail_def Let_def limit_defs split_beta split: list.splits
       dest!: push_verdict_limits)

lemma keeps_checkmultisig: "keeps_limits (op_checkmultisig E tx nIn ht c)"
  by (rule keeps_limitsI)
     (auto simp: op_checkmultisig_def eval_fail_def Let_def limit_defs split_beta
       split: option.splits if_splits dest!: push_verdict_limits dest: in_set_dropD)

lemmas keeps_handlers = keeps_simple keeps_stack_fixed keeps_pushvalue keeps_pick_roll keeps_size
  keeps_bitlogic keeps_numeric1 keeps_numeric2 keeps_within keeps_checksig keeps_checkmultisig

lemma keeps_op_switch:
  assumes "bn_doc E" and "\<not> disabled_opcode c"
  shows "keeps_limits (op_switch E tx nIn ht f pc c)"
  unfolding op_switch_def by (intro keeps_limits_if keeps_handlers assms)

lemma run_op_limits:
  assumes "keeps_limits t" and "keeps_limits f" and "length v \<le> MAX_SCRIPT_ELEMENT_SIZE"
  shows "keeps_limits (run_op t f c v)"
proof (rule keeps_limitsI)
  fix st st' assume lim: "within_limits st" and r: "run_op t f c v st = Inr st'"
  have "run_op t f c v st \<in> {t st, f st, Inr st, Inr (st\<lparr>es_stack := v # es_stack st\<rparr>)}"
    by (simp add: run_op_def)
  with r consider "t st = Inr st'" | "f st = Inr st'" | "st' = st" | "st' = st\<lparr>es_stack := v # es_stack st\<rparr>"
    by (simp only: insert_iff empty_iff sum.inject) metis
  then show "small_elements st' \<and> es_nOpCount st' \<le> 201"
  proof cases
    case 1
    then show ?thesis by (rule keeps_limitsD [OF assms(1) lim])
  next
    case 2
    then show ?thesis by (rule keeps_limitsD [OF assms(2) lim])
  qed (use lim assms(3) in \<open>simp_all add: limit_defs\<close>)
qed

lemma counted_op_limits:
  assumes "keeps_limits g" and "small_elements st" and "length (es_stack st) + length (es_altstack st) \<le> 1000"
    and "c \<le> OP_16 \<Longrightarrow> es_nOpCount st \<le> 201" and "counted_op g c st = Inr st'"
  shows "within_limits st'"
proof -
  have n: "\<not> (c > OP_16 \<and> es_nOpCount st > 201)" and "\<not> disabled_opcode c"
    using assms(5) by (auto simp: counted_op_def eval_fail_def split: if_splits)
  with assms(5) have c: "(case g st of Inl r \<Rightarrow> Inl r | Inr st' \<Rightarrow> check_stacks st') = Inr st'"
    by (simp add: counted_op_def)
  then obtain st2 where g: "g st = Inr st2" "check_stacks st2 = Inr st'" by (cases "g st") auto
  have "within_limits st" using assms(2-4) n by (auto simp: within_limits_def not_less)
  with g assms(1) have "small_elements st2 \<and> es_nOpCount st2 \<le> 201" unfolding keeps_limits_def by blast
  with g(2) show ?thesis by (auto simp: check_stacks_def within_limits_def eval_fail_def split: if_splits)
qed

lemma eval_step_limits:
  assumes "bn_doc E" and lim: "within_limits st" and step: "eval_step E tx nIn ht c v pc st = Inr st'"
  shows "within_limits st'"
proof -
  let ?g = "run_op (op_switch E tx nIn ht True pc c) (op_switch E tx nIn ht False pc c) c v"
  have len: "length v \<le> MAX_SCRIPT_ELEMENT_SIZE" and c: "counted_op ?g c (count_op c st) = Inr st'"
    using step unfolding eval_step_alt by (auto simp: eval_fail_def split: if_splits)
  then have "\<not> disabled_opcode c" by (auto simp: counted_op_def eval_fail_def split: if_splits)
  then have "keeps_limits ?g" using assms(1) len by (intro run_op_limits keeps_op_switch)
  then show ?thesis
    by (rule counted_op_limits [OF _ _ _ _ c]) (use lim in \<open>auto simp: count_op_def limit_defs\<close>)
qed

lemma eval_loop_limits:
  assumes "bn_doc E" and "within_limits st" and "eval_loop E tx nIn ht pc st = Inr st'"
  shows "within_limits st'"
  using assms
proof (induction E tx nIn ht pc st rule: eval_loop.induct)
  case (1 E tx nIn ht pc st)
  show ?case
  proof (cases "pc = []")
    case False
    with "1.prems"(3) obtain c v r where g: "GetOp pc = Some (c, v, r)"
      by (subst (asm) eval_loop.simps) (auto simp: eval_fail_def split: option.splits)
    with "1.prems"(3) False obtain st2 where s: "eval_step E tx nIn ht c v r st = Inr st2" "eval_loop E tx nIn ht r st2 = Inr st'"
      by (subst (asm) eval_loop.simps) (auto split: sum.splits)
    show ?thesis
      using "1.IH" [OF False g refl refl s(1) "1.prems"(1) eval_step_limits [OF "1.prems"(1,2) s(1)] s(2)] .
  qed (use "1.prems" in \<open>simp add: eval_loop.simps\<close>)
qed

text \<open>C23: A script evaluation that succeeds was of a script of at most 10000 bytes and leaves at most 1000
  elements of at most 520 bytes each, when it started from such a stack.\<close>

theorem EvalScript_limits:
  assumes "bn_doc E" and "EvalScript E C s0 script tx nIn ht = (True, s, C')"
    and "length s0 \<le> 1000" and "\<forall>v \<in> set s0. length v \<le> MAX_SCRIPT_ELEMENT_SIZE"
  shows "length script \<le> 10000 \<and> length s \<le> 1000 \<and> (\<forall>v \<in> set s. length v \<le> MAX_SCRIPT_ELEMENT_SIZE)"
proof -
  let ?st = "\<lparr>es_pbegincodehash = script, es_stack = s0, es_altstack = [], es_vfExec = [], es_nOpCount = 0, es_cache = C\<rparr>"
  have 0: "length script \<le> 10000" using assms(2) by (auto simp: EvalScript_def split: if_splits)
  with assms(2) obtain st' where 1: "eval_loop E tx nIn ht script ?st = Inr st'" "es_stack st' = s"
    by (cases "eval_loop E tx nIn ht script ?st") (auto simp: EvalScript_def)
  have "within_limits ?st" using assms(3,4) by (simp add: limit_defs)
  from eval_loop_limits [OF assms(1) this 1(1)] 0 1(2) show ?thesis by (simp add: limit_defs)
qed

theorem EvalScript_limits_witness:
  "EvalScript ref_env empty_cache [] [0x51] \<lparr>nVersion = 1, nTime = 0, vin = [], vout = [], nLockTime = 0\<rparr> 0 0 = (True, [[1]], empty_cache) \<and>
   length [[1::byte]] \<le> 1000"
proof -
  have e: "EvalScript ref_env empty_cache [] [0x51] \<lparr>nVersion = 1, nTime = 0, vin = [], vout = [], nLockTime = 0\<rparr> 0 0 = (True, [[1]], empty_cache)"
    by code_simp
  from EvalScript_limits [OF bn_doc_ref_env e] e show ?thesis by simp
qed

section \<open>Disabled opcodes\<close>

lemma eval_step_disabled: "disabled_opcode c \<Longrightarrow> \<exists>x. eval_step E tx nIn ht c v pc st = Inl x"
  by (auto simp: eval_step_def Let_def eval_fail_def)

lemma eval_loop_disabled:
  "disabled_opcode c \<Longrightarrow> Find c pc > 0 \<Longrightarrow> \<exists>x. eval_loop E tx nIn ht pc st = Inl x"
proof (induction pc arbitrary: st rule: length_induct)
  case (1 pc)
  then obtain d v r where g: "GetOp pc = Some (d, v, r)"
    by (subst (asm) Find.simps) (auto split: option.splits)
  then have pc: "pc \<noteq> []" by auto
  have eq: "eval_loop E tx nIn ht pc st = (case eval_step E tx nIn ht d v r st of
      Inl x \<Rightarrow> Inl x | Inr st' \<Rightarrow> eval_loop E tx nIn ht r st')" for st
    using g pc by (subst eval_loop.simps) simp
  show ?case
  proof (cases "d = c")
    case True
    then show ?thesis using eval_step_disabled [OF "1.prems"(1), of E tx nIn ht v r st] by (auto simp: eq)
  next
    case False
    then have "Find c r > 0" using "1.prems"(2) g by (subst (asm) Find.simps) simp
    with "1.IH" "1.prems"(1) GetOp_rest_shorter [OF g] show ?thesis by (auto simp: eq split: sum.splits)
  qed
qed

text \<open>A script that contains a disabled opcode, at any instruction position and whether or not a
  conditional skips it, never evaluates successfully.\<close>

theorem disabled_opcode_rejected:
  assumes "disabled_opcode c" and "Find c script > 0"
  shows "\<not> fst (EvalScript E C s script tx nIn ht)"
  using eval_loop_disabled [OF assms] by (auto simp: EvalScript_def split: sum.splits prod.splits) (metis sum.distinct(1))

theorem disabled_opcode_rejected_witness:
  "\<not> fst (EvalScript ref_env empty_cache [] [0x00, 0x63, 0x7e, 0x68, 0x51]
     \<lparr>nVersion = 1, nTime = 0, vin = [], vout = [], nLockTime = 0\<rparr> 0 0)"
  by (rule disabled_opcode_rejected [of OP_CAT])
     (simp_all add: disabled_opcode_def Find.simps GetOp_def word_le_nat_alt word_less_nat_alt)

end
