(* ===== verification/Transaction.thy ===== *)
theory Transaction
  imports Solver
begin

text \<open>
  The context-free part of \<^verbatim>\<open>CTransaction\<close> (src/src/main.h, src/src/main.cpp): money ranges, finality,
  the classification of coinbase and coinstake transactions, \<^verbatim>\<open>CheckTransaction\<close> with its
  denial-of-service scores, the minimum fee, standardness and signature-operation counts. Amounts
  are 64-bit and additions wrap as the machine's do; the theorems show where they cannot.
\<close>

section \<open>Constants and settings\<close>

definition COIN :: int where "COIN = 100000000"

definition CENT :: int where "CENT = 1000000"

definition MAX_BLOCK_SIZE :: nat where "MAX_BLOCK_SIZE = 1000000"

definition MAX_BLOCK_SIZE_GEN :: nat where "MAX_BLOCK_SIZE_GEN = MAX_BLOCK_SIZE div 2"

definition MAX_BLOCK_SIGOPS :: nat where "MAX_BLOCK_SIGOPS = MAX_BLOCK_SIZE div 50"

definition MAX_ORPHAN_TRANSACTIONS :: nat where "MAX_ORPHAN_TRANSACTIONS = MAX_BLOCK_SIZE div 100"

definition MIN_TX_FEE :: int where "MIN_TX_FEE = 10000"

definition MIN_RELAY_TX_FEE :: int where "MIN_RELAY_TX_FEE = MIN_TX_FEE"

definition MAX_MONEY :: int where "MAX_MONEY = 22000000 * COIN"

definition MoneyRange :: "int \<Rightarrow> bool" where
  "MoneyRange v \<longleftrightarrow> 0 \<le> v \<and> v \<le> MAX_MONEY"

definition LOCKTIME_THRESHOLD :: int where "LOCKTIME_THRESHOLD = 500000000"

text \<open>The globals and settings the transaction code reads.\<close>

record node_params =
  fTestNet :: bool
  fEnforceCanonical :: bool
  nCoinbaseMaturity :: int
  nBestHeight :: int
  AdjustedTime :: int
  TotalBlocksEstimate :: int

section \<open>Errors\<close>

text \<open>
  The ways a check can stop: it returns false after adding to the sender's misbehaviour score
  (0 when it adds nothing), it throws \<^verbatim>\<open>std::runtime_error\<close>, or an \<^verbatim>\<open>assert\<close> fails.
\<close>

datatype failure = Rejected nat | Thrown | Aborted

section \<open>Inputs and outputs\<close>

definition COutPoint_IsNull :: "COutPoint \<Rightarrow> bool" where
  "COutPoint_IsNull p \<longleftrightarrow> prev_hash p = 0 \<and> prev_n p = - 1"

definition CTxIn_IsFinal :: "CTxIn \<Rightarrow> bool" where
  "CTxIn_IsFinal i \<longleftrightarrow> nSequence i = - 1"

definition CTxOut_IsEmpty :: "CTxOut \<Rightarrow> bool" where
  "CTxOut_IsEmpty t \<longleftrightarrow> nValue t = 0 \<and> scriptPubKey t = []"

definition IsCoinBase :: "CTransaction \<Rightarrow> bool" where
  "IsCoinBase tx \<longleftrightarrow> length (vin tx) = 1 \<and> COutPoint_IsNull (prevout (vin tx ! 0)) \<and> length (vout tx) \<ge> 1"

definition IsCoinStake :: "CTransaction \<Rightarrow> bool" where
  "IsCoinStake tx \<longleftrightarrow>
     length (vin tx) > 0 \<and> \<not> COutPoint_IsNull (prevout (vin tx ! 0)) \<and> length (vout tx) \<ge> 2 \<and>
     CTxOut_IsEmpty (vout tx ! 0)"

text \<open>A height or time of zero stands for the current one, as the default arguments do.\<close>

definition IsFinal :: "node_params \<Rightarrow> int \<Rightarrow> int \<Rightarrow> CTransaction \<Rightarrow> bool" where
  "IsFinal N nBlockHeight nBlockTime tx \<longleftrightarrow>
     nLockTime tx = 0 \<or>
     (let h = (if nBlockHeight = 0 then nBestHeight N else nBlockHeight);
          t = (if nBlockTime = 0 then AdjustedTime N else nBlockTime);
          l = uint (nLockTime tx)
      in l < (if l < LOCKTIME_THRESHOLD then h else t)) \<or>
     (\<forall>i \<in> set (vin tx). CTxIn_IsFinal i)"

fun newer_scan :: "bool \<Rightarrow> u32 \<Rightarrow> (CTxIn \<times> CTxIn) list \<Rightarrow> bool" where
  "newer_scan fNewer nLowest [] = fNewer"
| "newer_scan fNewer nLowest ((a, b) # rest) =
     (if nSequence a \<noteq> nSequence b then
        (let (fNewer1, nLowest1) =
               (if nSequence a \<le> nLowest then (False, nSequence a) else (fNewer, nLowest));
             (fNewer2, nLowest2) =
               (if nSequence b < nLowest1 then (True, nSequence b) else (fNewer1, nLowest1))
         in newer_scan fNewer2 nLowest2 rest)
      else newer_scan fNewer nLowest rest)"

definition IsNewerThan :: "CTransaction \<Rightarrow> CTransaction \<Rightarrow> bool" where
  "IsNewerThan tx old \<longleftrightarrow>
     length (vin tx) = length (vin old) \<and> map prevout (vin tx) = map prevout (vin old) \<and>
     newer_scan False (- 1) (zip (vin tx) (vin old))"

section \<open>Values\<close>

fun value_out_loop :: "int \<Rightarrow> CTxOut list \<Rightarrow> int option" where
  "value_out_loop acc [] = Some acc"
| "value_out_loop acc (t # ts) =
     (let acc' = wrap64 (acc + nValue t)
      in if \<not> MoneyRange (nValue t) \<or> \<not> MoneyRange acc' then None else value_out_loop acc' ts)"

text \<open>None is the \<^verbatim>\<open>std::runtime_error\<close> of a value out of range.\<close>

definition GetValueOut :: "CTransaction \<Rightarrow> int option" where
  "GetValueOut tx = value_out_loop 0 (vout tx)"

section \<open>CheckTransaction\<close>

fun check_outputs :: "bool \<Rightarrow> int \<Rightarrow> CTxOut list \<Rightarrow> failure + int" where
  "check_outputs user nValueOut [] = Inr nValueOut"
| "check_outputs user nValueOut (t # ts) =
     (if CTxOut_IsEmpty t \<and> user then Inl (Rejected 100)
      else if nValue t < 0 then Inl (Rejected 100)
      else if nValue t > MAX_MONEY then Inl (Rejected 100)
      else
        (let nValueOut' = wrap64 (nValueOut + nValue t)
         in if \<not> MoneyRange nValueOut' then Inl (Rejected 100) else check_outputs user nValueOut' ts))"

fun duplicate_inputs :: "COutPoint set \<Rightarrow> CTxIn list \<Rightarrow> bool" where
  "duplicate_inputs seen [] = False"
| "duplicate_inputs seen (i # is) = (prevout i \<in> seen \<or> duplicate_inputs (insert (prevout i) seen) is)"

definition CheckTransaction :: "CTransaction \<Rightarrow> failure + unit" where
  "CheckTransaction tx =
     (if vin tx = [] then Inl (Rejected 10)
      else if vout tx = [] then Inl (Rejected 10)
      else if GetSerializeSize_CTransaction tx > MAX_BLOCK_SIZE then Inl (Rejected 100)
      else
        (case check_outputs (\<not> IsCoinBase tx \<and> \<not> IsCoinStake tx) 0 (vout tx) of
           Inl e \<Rightarrow> Inl e
         | Inr nValueOut \<Rightarrow>
             if duplicate_inputs {} (vin tx) then Inl (Rejected 0)
             else if IsCoinBase tx then
               (if length (scriptSig (vin tx ! 0)) < 2 \<or> length (scriptSig (vin tx ! 0)) > 100
                then Inl (Rejected 100) else Inr ())
             else if (\<exists>i \<in> set (vin tx). COutPoint_IsNull (prevout i)) then Inl (Rejected 10)
             else Inr ()))"

section \<open>Fees\<close>

datatype GetMinFee_mode = GMF_BLOCK | GMF_RELAY | GMF_SEND | GMF_MSIG

definition GetMinFee :: "CTransaction \<Rightarrow> u32 \<Rightarrow> GetMinFee_mode \<Rightarrow> u32 \<Rightarrow> int" where
  "GetMinFee tx nBlockSize mode nBytes =
     (if mode = GMF_MSIG then MIN_TX_FEE
      else
        (let nBaseFee = (if mode = GMF_RELAY then MIN_RELAY_TX_FEE else MIN_TX_FEE);
             nNewBlockSize = nBlockSize + nBytes;
             fee1 = wrap64 ((1 + uint nBytes div 1000) * nBaseFee);
             fee2 = (if fee1 < nBaseFee \<and> (\<exists>t \<in> set (vout tx). nValue t < CENT) then nBaseFee else fee1);
             full = nBlockSize \<noteq> 1 \<and> unat nNewBlockSize \<ge> MAX_BLOCK_SIZE_GEN div 2
         in if full \<and> unat nNewBlockSize \<ge> MAX_BLOCK_SIZE_GEN then MAX_MONEY
            else
              (let fee3 = (if full
                           then wrap64 (fee2 * int (MAX_BLOCK_SIZE_GEN div (MAX_BLOCK_SIZE_GEN - unat nNewBlockSize)))
                           else fee2)
               in if \<not> MoneyRange fee3 then MAX_MONEY else fee3)))"

section \<open>Standardness and signature operations\<close>

fun standard_outputs :: "bool \<Rightarrow> nat \<Rightarrow> CTxOut list \<Rightarrow> nat option" where
  "standard_outputs fEnforce nDataOut [] = Some nDataOut"
| "standard_outputs fEnforce nDataOut (t # ts) =
     (case IsStandard (scriptPubKey t) of
        (ok, whichType) \<Rightarrow>
          if \<not> ok then None
          else if nValue t = 0 then None
          else if fEnforce \<and> \<not> HasCanonicalPushes (scriptPubKey t) then None
          else standard_outputs fEnforce (if whichType = TX_NULL_DATA then nDataOut + 1 else nDataOut) ts)"

definition CTransaction_IsStandard :: "node_params \<Rightarrow> CTransaction \<Rightarrow> bool" where
  "CTransaction_IsStandard N tx \<longleftrightarrow>
     \<not> sint (nVersion tx) > 1 \<and>
     (\<forall>i \<in> set (vin tx).
        \<not> length (scriptSig i) > 1000 \<and> IsPushOnly (scriptSig i) \<and>
        \<not> (fEnforceCanonical N \<and> \<not> HasCanonicalPushes (scriptSig i))) \<and>
     (case standard_outputs (fEnforceCanonical N) 0 (vout tx) of
        None \<Rightarrow> False
      | Some nDataOut \<Rightarrow> \<not> nDataOut > 1)"

definition GetLegacySigOpCount :: "CTransaction \<Rightarrow> nat" where
  "GetLegacySigOpCount tx =
     sum_list (map (\<lambda>i. GetSigOpCount False (scriptSig i)) (vin tx)) +
     sum_list (map (\<lambda>t. GetSigOpCount False (scriptPubKey t)) (vout tx))"

text \<open>
  \<^verbatim>\<open>is_teleport_denomination\<close>: a whole number of thousandths of a coin whose lowest non-zero decimal
  digit is 1 or 5.
\<close>

fun teleport_digits :: "nat \<Rightarrow> bool" where
  "teleport_digits divval =
     (if divval = 0 then False
      else if divval mod 10 = 0 then teleport_digits (divval div 10)
      else divval mod 10 = 1 \<or> divval mod 10 = 5)"

declare teleport_digits.simps [simp del]

definition is_teleport_denomination :: "u64 \<Rightarrow> bool" where
  "is_teleport_denomination v =
     (if unat v mod 100000 \<noteq> 0 then False else teleport_digits (unat v div 100000))"

section \<open>What the checks establish\<close>

lemma MAX_MONEY_small: "MAX_MONEY = 2200000000000000"
  by (simp add: MAX_MONEY_def COIN_def)

lemma sum_values_nonneg: "\<forall>t \<in> set ts. 0 \<le> nValue t \<Longrightarrow> 0 \<le> sum_list (map nValue ts)"
  by (rule sum_list_nonneg) auto

lemma value_le_sum: "\<forall>t \<in> set ts. 0 \<le> nValue t \<Longrightarrow> t \<in> set ts \<Longrightarrow> nValue t \<le> sum_list (map nValue ts)"
  by (rule member_le_sum_list) auto

lemma MoneyRange_add_wrap:
  assumes "MoneyRange a" and "MoneyRange b"
  shows "wrap64 (a + b) = a + b"
  using assms by (intro wrap64_id) (simp add: MoneyRange_def MAX_MONEY_small int64_range_def)

lemma check_outputs_iff:
  assumes "MoneyRange acc"
  shows "(\<exists>v. check_outputs user acc ts = Inr v) \<longleftrightarrow>
    (\<forall>t \<in> set ts. MoneyRange (nValue t) \<and> \<not> (CTxOut_IsEmpty t \<and> user)) \<and> acc + sum_list (map nValue ts) \<le> MAX_MONEY"
  using assms
proof (induction user acc ts rule: check_outputs.induct)
  case (1 user acc)
  then show ?case by (simp add: MoneyRange_def)
next
  case (2 user acc t ts)
  show ?case
  proof (cases "MoneyRange (nValue t) \<and> \<not> (CTxOut_IsEmpty t \<and> user)")
    case False
    then show ?thesis by (auto simp: MoneyRange_def)
  next
    case True
    then have w: "wrap64 (acc + nValue t) = acc + nValue t" using "2.prems" by (simp add: MoneyRange_add_wrap)
    show ?thesis
    proof (cases "MoneyRange (acc + nValue t)")
      case mr: True
      with 2 True w show ?thesis by (auto simp: MoneyRange_def Let_def add.assoc)
    next
      case mr: False
      have "(\<forall>t \<in> set ts. MoneyRange (nValue t)) \<Longrightarrow> 0 \<le> sum_list (map nValue ts)"
        by (simp add: MoneyRange_def sum_values_nonneg)
      with mr True w "2.prems" show ?thesis by (auto simp: MoneyRange_def Let_def)
    qed
  qed
qed

lemma check_outputs_step:
  assumes "MoneyRange acc" and "check_outputs user acc (t # ts) = Inr v"
  shows "MoneyRange (nValue t)" "MoneyRange (acc + nValue t)" "check_outputs user (acc + nValue t) ts = Inr v"
proof -
  show t: "MoneyRange (nValue t)" using assms(2) by (auto simp: MoneyRange_def split: if_splits)
  have "wrap64 (acc + nValue t) = acc + nValue t" using assms(1) t by (rule MoneyRange_add_wrap)
  with assms(2) show "MoneyRange (acc + nValue t)" "check_outputs user (acc + nValue t) ts = Inr v"
    by (auto simp: Let_def split: if_splits)
qed

lemma check_outputs_value:
  assumes "MoneyRange acc" and "check_outputs user acc ts = Inr v"
  shows "v = acc + sum_list (map nValue ts)" and "value_out_loop acc ts = Some v"
proof -
  have "v = acc + sum_list (map nValue ts) \<and> value_out_loop acc ts = Some v"
    using assms
  proof (induction ts arbitrary: acc)
    case (Cons t ts)
    note s = check_outputs_step [OF Cons.prems]
    from Cons.IH [OF s(2,3)] s(1,2) Cons.prems(1) show ?case
      by (simp add: MoneyRange_add_wrap Let_def add.assoc)
  qed simp
  then show "v = acc + sum_list (map nValue ts)" "value_out_loop acc ts = Some v" by simp_all
qed

lemma duplicate_inputs_iff:
  "duplicate_inputs seen is \<longleftrightarrow> \<not> distinct (map prevout is) \<or> (\<exists>i \<in> set is. prevout i \<in> seen)"
  by (induction seen "is" rule: duplicate_inputs.induct) (simp, simp add: image_iff, metis)

lemma MoneyRange_0 [simp]: "MoneyRange 0"
  by (simp add: MoneyRange_def MAX_MONEY_small)

lemma CheckTransaction_char:
  "CheckTransaction tx = Inr () \<longleftrightarrow>
     vin tx \<noteq> [] \<and> vout tx \<noteq> [] \<and> length (Serialize_CTransaction tx) \<le> MAX_BLOCK_SIZE \<and>
     (\<forall>t \<in> set (vout tx). 0 \<le> nValue t) \<and> sum_list (map nValue (vout tx)) \<le> MAX_MONEY \<and>
     (\<forall>t \<in> set (vout tx). CTxOut_IsEmpty t \<longrightarrow> IsCoinBase tx \<or> IsCoinStake tx) \<and>
     distinct (map prevout (vin tx)) \<and>
     (if IsCoinBase tx then 2 \<le> length (scriptSig (vin tx ! 0)) \<and> length (scriptSig (vin tx ! 0)) \<le> 100
      else \<forall>i \<in> set (vin tx). \<not> COutPoint_IsNull (prevout i))"
proof -
  have range: "(\<forall>t \<in> set ts. MoneyRange (nValue t)) \<and> sum_list (map nValue ts) \<le> MAX_MONEY \<longleftrightarrow>
      (\<forall>t \<in> set ts. 0 \<le> nValue t) \<and> sum_list (map nValue ts) \<le> MAX_MONEY" for ts
    by (auto simp: MoneyRange_def dest: value_le_sum order_trans)
  have out: "(\<exists>v. check_outputs (\<not> IsCoinBase tx \<and> \<not> IsCoinStake tx) 0 (vout tx) = Inr v) \<longleftrightarrow>
     (\<forall>t \<in> set (vout tx). 0 \<le> nValue t) \<and> sum_list (map nValue (vout tx)) \<le> MAX_MONEY \<and>
     (\<forall>t \<in> set (vout tx). CTxOut_IsEmpty t \<longrightarrow> IsCoinBase tx \<or> IsCoinStake tx)"
    using check_outputs_iff [of 0 "\<not> IsCoinBase tx \<and> \<not> IsCoinStake tx" "vout tx"] range [of "vout tx"] by auto
  show ?thesis
    unfolding CheckTransaction_def duplicate_inputs_iff tx.sz_ser
    by (cases "check_outputs (\<not> IsCoinBase tx \<and> \<not> IsCoinStake tx) 0 (vout tx)")
       (use out in \<open>auto simp: not_less split: if_splits\<close>)
qed

text \<open>C21: \<^verbatim>\<open>CheckTransaction\<close> accepts exactly the transactions with at least one input and output, of at most
  one megabyte, whose output values are non-negative and sum to at most the money supply as plain
  integers, with no empty output unless the transaction is a coinbase or coinstake, with pairwise
  different inputs, and with a coinbase script of 2 to 100 bytes or no null input.\<close>

theorem CheckTransaction_iff:
  "CheckTransaction tx = Inr () \<longleftrightarrow>
     vin tx \<noteq> [] \<and> vout tx \<noteq> [] \<and> length (Serialize_CTransaction tx) \<le> MAX_BLOCK_SIZE \<and>
     (\<forall>t \<in> set (vout tx). 0 \<le> nValue t) \<and> sum_list (map nValue (vout tx)) \<le> MAX_MONEY \<and>
     (\<forall>t \<in> set (vout tx). CTxOut_IsEmpty t \<longrightarrow> IsCoinBase tx \<or> IsCoinStake tx) \<and>
     distinct (map prevout (vin tx)) \<and>
     (if IsCoinBase tx then 2 \<le> length (scriptSig (vin tx ! 0)) \<and> length (scriptSig (vin tx ! 0)) \<le> 100
      else \<forall>i \<in> set (vin tx). \<not> COutPoint_IsNull (prevout i))"
  by (rule CheckTransaction_char)

theorem CheckTransaction_iff_witness:
  "CheckTransaction \<lparr>nVersion = 1, nTime = 0,
      vin = [\<lparr>prevout = \<lparr>prev_hash = 5, prev_n = 0\<rparr>, scriptSig = [], nSequence = 0\<rparr>],
      vout = [\<lparr>nValue = 7, scriptPubKey = [0x51]\<rparr>], nLockTime = 0\<rparr> = Inr ()"
proof -
  have "GetSerializeSize_CTransaction \<lparr>nVersion = 1, nTime = 0,
      vin = [\<lparr>prevout = \<lparr>prev_hash = 5, prev_n = 0\<rparr>, scriptSig = [], nSequence = 0\<rparr>],
      vout = [\<lparr>nValue = 7, scriptPubKey = [0x51]\<rparr>], nLockTime = 0\<rparr> = 65"
    by code_simp
  then show ?thesis
    unfolding CheckTransaction_iff tx.sz_ser [symmetric]
    by (simp add: MAX_BLOCK_SIZE_def MAX_MONEY_small CTxOut_IsEmpty_def IsCoinBase_def COutPoint_IsNull_def)
qed

text \<open>After \<^verbatim>\<open>CheckTransaction\<close> has accepted a transaction, \<^verbatim>\<open>GetValueOut\<close> does not throw and returns the
  exact sum of the outputs, which is within the money range: the 64-bit addition did not wrap.\<close>

theorem CheckTransaction_value:
  assumes "CheckTransaction tx = Inr ()"
  shows "GetValueOut tx = Some (sum_list (map nValue (vout tx))) \<and> MoneyRange (sum_list (map nValue (vout tx)))"
proof -
  obtain v where v: "check_outputs (\<not> IsCoinBase tx \<and> \<not> IsCoinStake tx) 0 (vout tx) = Inr v"
    using assms by (auto simp: CheckTransaction_def split: if_splits sum.splits)
  then have "v = sum_list (map nValue (vout tx))" "value_out_loop 0 (vout tx) = Some v"
    using check_outputs_value [OF MoneyRange_0 v] by simp_all
  moreover have "0 \<le> sum_list (map nValue (vout tx))" "sum_list (map nValue (vout tx)) \<le> MAX_MONEY"
    using check_outputs_iff [OF MoneyRange_0, of "\<not> IsCoinBase tx \<and> \<not> IsCoinStake tx" "vout tx"] v
    by (auto simp: MoneyRange_def sum_values_nonneg)
  ultimately show ?thesis by (simp add: GetValueOut_def MoneyRange_def)
qed

theorem CheckTransaction_value_witness:
  "GetValueOut \<lparr>nVersion = 1, nTime = 0,
      vin = [\<lparr>prevout = \<lparr>prev_hash = 5, prev_n = 0\<rparr>, scriptSig = [], nSequence = 0\<rparr>],
      vout = [\<lparr>nValue = 7, scriptPubKey = [0x51]\<rparr>, \<lparr>nValue = 8, scriptPubKey = [0x51]\<rparr>], nLockTime = 0\<rparr> = Some 15"
proof -
  have size: "GetSerializeSize_CTransaction \<lparr>nVersion = 1, nTime = 0,
      vin = [\<lparr>prevout = \<lparr>prev_hash = 5, prev_n = 0\<rparr>, scriptSig = [], nSequence = 0\<rparr>],
      vout = [\<lparr>nValue = 7, scriptPubKey = [0x51]\<rparr>, \<lparr>nValue = 8, scriptPubKey = [0x51]\<rparr>], nLockTime = 0\<rparr> = 75"
    by code_simp
  have "CheckTransaction \<lparr>nVersion = 1, nTime = 0,
      vin = [\<lparr>prevout = \<lparr>prev_hash = 5, prev_n = 0\<rparr>, scriptSig = [], nSequence = 0\<rparr>],
      vout = [\<lparr>nValue = 7, scriptPubKey = [0x51]\<rparr>, \<lparr>nValue = 8, scriptPubKey = [0x51]\<rparr>], nLockTime = 0\<rparr> = Inr ()"
    using size unfolding CheckTransaction_char tx.sz_ser [symmetric]
    by (simp add: MAX_BLOCK_SIZE_def MAX_MONEY_small CTxOut_IsEmpty_def IsCoinBase_def COutPoint_IsNull_def)
  from CheckTransaction_value [OF this] show ?thesis by simp
qed

lemma fee1_bounds:
  "wrap64 ((1 + uint (nBytes :: u32) div 1000) * MIN_TX_FEE) = (1 + uint nBytes div 1000) * MIN_TX_FEE"
  "MIN_TX_FEE \<le> (1 + uint nBytes div 1000) * MIN_TX_FEE"
proof -
  have "0 \<le> uint nBytes div 1000" "uint nBytes div 1000 \<le> 4294968"
    using uint_lt2p [of nBytes] pos_imp_zdiv_nonneg_iff [of 1000 "uint nBytes"] by simp_all
  then show "wrap64 ((1 + uint nBytes div 1000) * MIN_TX_FEE) = (1 + uint nBytes div 1000) * MIN_TX_FEE"
    "MIN_TX_FEE \<le> (1 + uint nBytes div 1000) * MIN_TX_FEE"
    by (auto intro!: wrap64_id simp: int64_range_def MIN_TX_FEE_def)
qed

lemma full_factor:
  assumes "n < MAX_BLOCK_SIZE_GEN"
  shows "1 \<le> int (MAX_BLOCK_SIZE_GEN div (MAX_BLOCK_SIZE_GEN - n))"
    and "int (MAX_BLOCK_SIZE_GEN div (MAX_BLOCK_SIZE_GEN - n)) \<le> 500000"
proof -
  have "MAX_BLOCK_SIZE_GEN = 500000" by (simp add: MAX_BLOCK_SIZE_GEN_def MAX_BLOCK_SIZE_def)
  moreover have "(1::nat) \<le> 500000 div (500000 - n)" if "n < 500000"
    using that div_le_mono [of "500000 - n" 500000 "500000 - n"] by simp
  moreover have "(500000::nat) div (500000 - n) \<le> 500000" by (rule div_le_dividend)
  ultimately show "1 \<le> int (MAX_BLOCK_SIZE_GEN div (MAX_BLOCK_SIZE_GEN - n))"
    "int (MAX_BLOCK_SIZE_GEN div (MAX_BLOCK_SIZE_GEN - n)) \<le> 500000"
    using assms by simp_all
qed

lemma GetMinFee_eq:
  "GetMinFee tx nBlockSize mode nBytes =
     (if mode = GMF_MSIG then MIN_TX_FEE
      else if nBlockSize \<noteq> 1 \<and> unat (nBlockSize + nBytes) \<ge> MAX_BLOCK_SIZE_GEN then MAX_MONEY
      else min MAX_MONEY ((1 + uint nBytes div 1000) * MIN_TX_FEE *
        (if nBlockSize \<noteq> 1 \<and> unat (nBlockSize + nBytes) \<ge> MAX_BLOCK_SIZE_GEN div 2
         then int (MAX_BLOCK_SIZE_GEN div (MAX_BLOCK_SIZE_GEN - unat (nBlockSize + nBytes))) else 1)))"
proof -
  define n where "n = unat (nBlockSize + nBytes)"
  define f where "f = (1 + uint nBytes div 1000) * MIN_TX_FEE"
  define g where "g = int (MAX_BLOCK_SIZE_GEN div (MAX_BLOCK_SIZE_GEN - n))"
  have f: "MIN_TX_FEE \<le> f" "f \<le> 42949690000"
    using fee1_bounds(2) [of nBytes] uint_lt2p [of nBytes] by (simp_all add: f_def MIN_TX_FEE_def)
  have g: "wrap64 (f * g) = f * g" "0 \<le> f * g" if "n < MAX_BLOCK_SIZE_GEN"
  proof -
    have "1 \<le> g" "g \<le> 500000" using full_factor [OF that] by (simp_all add: g_def)
    moreover from this have "f * g \<le> 42949690000 * 500000" using f by (intro mult_mono) (simp_all add: MIN_TX_FEE_def)
    ultimately have "0 \<le> f * g" "f * g \<le> 42949690000 * 500000" using f by (simp_all add: MIN_TX_FEE_def)
    then show "wrap64 (f * g) = f * g" "0 \<le> f * g" by (auto intro!: wrap64_id simp: int64_range_def)
  qed
  have base: "(if mode = GMF_RELAY then MIN_RELAY_TX_FEE else MIN_TX_FEE) = MIN_TX_FEE"
    by (simp add: MIN_RELAY_TX_FEE_def)
  have wf: "wrap64 f = f" unfolding f_def by (rule fee1_bounds(1))
  have dust: "(if f < MIN_TX_FEE \<and> b then MIN_TX_FEE else f) = f" for b using f(1) by simp
  have cap: "(if \<not> MoneyRange x then MAX_MONEY else x) = min MAX_MONEY x" if "0 \<le> x" for x
    using that by (simp add: MoneyRange_def min_def)
  have "GetMinFee tx nBlockSize mode nBytes =
    (if mode = GMF_MSIG then MIN_TX_FEE
     else if (nBlockSize \<noteq> 1 \<and> n \<ge> MAX_BLOCK_SIZE_GEN div 2) \<and> n \<ge> MAX_BLOCK_SIZE_GEN then MAX_MONEY
     else let fee = (if nBlockSize \<noteq> 1 \<and> n \<ge> MAX_BLOCK_SIZE_GEN div 2 then wrap64 (f * g) else f)
          in if \<not> MoneyRange fee then MAX_MONEY else fee)"
    unfolding GetMinFee_def Let_def base f_def [symmetric] wf dust n_def [symmetric] g_def ..
  also have "\<dots> = (if mode = GMF_MSIG then MIN_TX_FEE
     else if nBlockSize \<noteq> 1 \<and> n \<ge> MAX_BLOCK_SIZE_GEN then MAX_MONEY
     else min MAX_MONEY (f * (if nBlockSize \<noteq> 1 \<and> n \<ge> MAX_BLOCK_SIZE_GEN div 2 then g else 1)))"
  proof (cases "nBlockSize \<noteq> 1 \<and> n \<ge> MAX_BLOCK_SIZE_GEN div 2")
    case True
    then show ?thesis using g cap by (simp add: Let_def)
  next
    case False
    have "0 \<le> f" using f(1) by (simp add: MIN_TX_FEE_def)
    moreover have "\<not> (nBlockSize \<noteq> 1 \<and> n \<ge> MAX_BLOCK_SIZE_GEN)" using False by auto
    ultimately show ?thesis unfolding Let_def if_not_P [OF False] by (simp add: cap [unfolded not_not]) blast
  qed
  finally show ?thesis by (simp only: f_def g_def n_def)
qed

lemma GetMinFee_range:
  "MIN_TX_FEE \<le> GetMinFee tx nBlockSize mode nBytes" "GetMinFee tx nBlockSize mode nBytes \<le> MAX_MONEY"
proof -
  define f where "f = (1 + uint nBytes div 1000) * MIN_TX_FEE"
  have f: "MIN_TX_FEE \<le> f" using fee1_bounds(2) by (simp add: f_def)
  have "MIN_TX_FEE \<le> f * int (MAX_BLOCK_SIZE_GEN div (MAX_BLOCK_SIZE_GEN - n))" if "n < MAX_BLOCK_SIZE_GEN" for n
    using full_factor(1) [OF that] f mult_mono [of MIN_TX_FEE f 1 "int (MAX_BLOCK_SIZE_GEN div (MAX_BLOCK_SIZE_GEN - n))"]
    by (simp add: MIN_TX_FEE_def)
  moreover have "MIN_TX_FEE \<le> MAX_MONEY" by (simp add: MIN_TX_FEE_def MAX_MONEY_small)
  ultimately show "MIN_TX_FEE \<le> GetMinFee tx nBlockSize mode nBytes" "GetMinFee tx nBlockSize mode nBytes \<le> MAX_MONEY"
    using f unfolding GetMinFee_eq f_def [symmetric] by auto
qed

text \<open>The minimum fee is between 0.0001 coins and the money supply for every size and mode, and does not
  depend on the outputs: the rule for outputs below one cent never applies.\<close>

theorem GetMinFee_bounds:
  "MIN_TX_FEE \<le> GetMinFee tx nBlockSize mode nBytes \<and> GetMinFee tx nBlockSize mode nBytes \<le> MAX_MONEY \<and>
   GetMinFee tx nBlockSize mode nBytes = GetMinFee tx' nBlockSize mode nBytes"
  using GetMinFee_range by (simp add: GetMinFee_eq)

lemma teleport_digits_iff:
  "teleport_digits n \<longleftrightarrow> (\<exists>k q d. n = (10 * q + d) * 10 ^ k \<and> (d = 1 \<or> d = 5))"
proof (induction n rule: teleport_digits.induct)
  case (1 n)
  have strip: "(\<exists>k q d. n = (10 * q + d) * 10 ^ k \<and> (d = 1 \<or> d = 5)) \<longleftrightarrow>
      (\<exists>k q d. n div 10 = (10 * q + d) * 10 ^ k \<and> (d = 1 \<or> d = (5::nat)))" if "n mod 10 = 0" "n \<noteq> 0"
  proof
    assume "\<exists>k q d. n = (10 * q + d) * 10 ^ k \<and> (d = 1 \<or> d = 5)"
    then obtain k q d where n: "n = (10 * q + d) * 10 ^ k" "d = 1 \<or> d = 5" by blast
    with that(1) obtain j where "k = Suc j" by (cases k) auto
    with n show "\<exists>k q d. n div 10 = (10 * q + d) * 10 ^ k \<and> (d = 1 \<or> d = (5::nat))" by auto
  next
    assume "\<exists>k q d. n div 10 = (10 * q + d) * 10 ^ k \<and> (d = 1 \<or> d = (5::nat))"
    then obtain k q d where "n div 10 = (10 * q + d) * 10 ^ k" "d = 1 \<or> d = 5" by blast
    moreover have "n = 10 * (n div 10)" using that(1) by auto
    ultimately have "n = (10 * q + d) * 10 ^ Suc k" by simp
    with \<open>d = 1 \<or> d = 5\<close> show "\<exists>k q d. n = (10 * q + d) * 10 ^ k \<and> (d = 1 \<or> d = 5)" by blast
  qed
  have last: "(\<exists>k q d. n = (10 * q + d) * 10 ^ k \<and> (d = 1 \<or> d = 5)) \<longleftrightarrow> n mod 10 = 1 \<or> n mod 10 = 5" if "n mod 10 \<noteq> 0"
  proof
    assume "\<exists>k q d. n = (10 * q + d) * 10 ^ k \<and> (d = 1 \<or> d = 5)"
    then obtain k q d where n: "n = (10 * q + d) * 10 ^ k" "d = 1 \<or> d = 5" by blast
    with that have "k = 0" by (cases k) auto
    with n show "n mod 10 = 1 \<or> n mod 10 = 5" by auto
  next
    assume "n mod 10 = 1 \<or> n mod 10 = 5"
    moreover have "n = (10 * (n div 10) + n mod 10) * 10 ^ 0" by simp
    ultimately show "\<exists>k q d. n = (10 * q + d) * 10 ^ k \<and> (d = 1 \<or> d = 5)" by blast
  qed
  show ?case
  proof (cases "n = 0 \<or> n mod 10 \<noteq> 0")
    case True
    then show ?thesis using last by (subst teleport_digits.simps) auto
  next
    case False
    with 1 strip show ?thesis by (subst teleport_digits.simps) auto
  qed
qed

text \<open>A teleport denomination is a number of thousandths of a coin whose last non-zero decimal digit is
  1 or 5; the digit loop always ends.\<close>

theorem is_teleport_denomination_iff:
  "is_teleport_denomination v \<longleftrightarrow> (\<exists>k q d. unat v = (10 * q + d) * 10 ^ k * 100000 \<and> (d = 1 \<or> d = 5))"
proof
  assume "is_teleport_denomination v"
  then have "unat v = unat v div 100000 * 100000" "teleport_digits (unat v div 100000)"
    by (auto simp: is_teleport_denomination_def split: if_splits)
  then show "\<exists>k q d. unat v = (10 * q + d) * 10 ^ k * 100000 \<and> (d = 1 \<or> d = 5)"
    unfolding teleport_digits_iff by metis
next
  assume "\<exists>k q d. unat v = (10 * q + d) * 10 ^ k * 100000 \<and> (d = 1 \<or> d = 5)"
  then obtain k q d where v: "unat v = (10 * q + d) * 10 ^ k * 100000" "d = 1 \<or> d = 5" by blast
  then have "unat v div 100000 = (10 * q + d) * 10 ^ k" "unat v mod 100000 = 0" by simp_all
  with v(2) show "is_teleport_denomination v"
    unfolding is_teleport_denomination_def teleport_digits_iff by auto
qed

end
