(* ===== verification/Merkle.thy ===== *)
theory Merkle
  imports Transaction
begin

text \<open>
  Blocks (\<^verbatim>\<open>CBlock\<close> in \<^verbatim>\<open>src/src/main.h\<close>): their header, wire format, hash and Merkle tree. The
  three loops \<^verbatim>\<open>BuildMerkleTree\<close>, \<^verbatim>\<open>GetMerkleBranch\<close> and \<^verbatim>\<open>CheckMerkleBranch\<close> are modelled on the
  flat array \<^verbatim>\<open>vMerkleTree\<close> the code keeps; \<open>tree_rows\<close> is the level-by-level reference definition they
  are shown to agree with. Statements about what a root determines name the pairs of hashes that are
  hashed and assume that no two different pairs among them collide.
\<close>

section \<open>Blocks\<close>

record CBlock =
  blk_nVersion :: u32
  hashPrevBlock :: u256
  hashMerkleRoot :: u256
  blk_nTime :: u32
  nBits :: u32
  nNonce :: u32
  vtx :: "CTransaction list"
  vchBlockSig :: valtype

definition Serialize_header :: "CBlock \<Rightarrow> byte list" where
  "Serialize_header b =
     Serialize_u32 (blk_nVersion b) @ uint256_bytes (hashPrevBlock b) @ uint256_bytes (hashMerkleRoot b) @
     Serialize_u32 (blk_nTime b) @ Serialize_u32 (nBits b) @ Serialize_u32 (nNonce b)"

definition Serialize_CBlock :: "CBlock \<Rightarrow> byte list" where
  "Serialize_CBlock b =
     Serialize_header b @ Serialize_vector Serialize_CTransaction (vtx b) @ Serialize_bytes (vchBlockSig b)"

definition Unserialize_u256 :: "byte list \<Rightarrow> (u256 \<times> byte list) option" where
  "Unserialize_u256 s = do { (h, s) \<leftarrow> READDATA 32 s; Some (word_of_nat h, s) }"

definition Unserialize_CBlock :: "byte list \<Rightarrow> (CBlock \<times> byte list) option" where
  "Unserialize_CBlock s = do {
     (ver, s) \<leftarrow> Unserialize_u32 s;
     (prv, s) \<leftarrow> Unserialize_u256 s;
     (mrk, s) \<leftarrow> Unserialize_u256 s;
     (tim, s) \<leftarrow> Unserialize_u32 s;
     (bts, s) \<leftarrow> Unserialize_u32 s;
     (non, s) \<leftarrow> Unserialize_u32 s;
     (txs, s) \<leftarrow> Unserialize_vector Unserialize_CTransaction s;
     (sig, s) \<leftarrow> Unserialize_bytes s;
     Some (\<lparr>blk_nVersion = ver, hashPrevBlock = prv, hashMerkleRoot = mrk, blk_nTime = tim, nBits = bts,
            nNonce = non, vtx = txs, vchBlockSig = sig\<rparr>, s)
   }"

definition GetSerializeSize_CBlock :: "CBlock \<Rightarrow> nat" where
  "GetSerializeSize_CBlock b =
     4 + 32 + 32 + 4 + 4 + 4 + GetSerializeSize_vector GetSerializeSize_CTransaction (vtx b) +
     GetSerializeSize_bytes (vchBlockSig b)"

text \<open>The block hash covers the memory from \<^verbatim>\<open>nVersion\<close> to \<^verbatim>\<open>nNonce\<close>, which is the serialized header.\<close>

definition CBlock_GetHash :: "env \<Rightarrow> CBlock \<Rightarrow> u256" where
  "CBlock_GetHash E b = Hash E (Serialize_header b)"

definition IsProofOfStake :: "CBlock \<Rightarrow> bool" where
  "IsProofOfStake b \<longleftrightarrow> length (vtx b) > 1 \<and> IsCoinStake (vtx b ! 1)"

definition IsProofOfWork :: "CBlock \<Rightarrow> bool" where
  "IsProofOfWork b \<longleftrightarrow> \<not> IsProofOfStake b"

definition GetProofOfStake :: "CBlock \<Rightarrow> COutPoint \<times> u32" where
  "GetProofOfStake b =
     (if IsProofOfStake b then (prevout (vin (vtx b ! 1) ! 0), nTime (vtx b ! 1))
      else (\<lparr>prev_hash = 0, prev_n = - 1\<rparr>, 0))"

definition GetMaxTransactionTime :: "CBlock \<Rightarrow> int" where
  "GetMaxTransactionTime b = fold (\<lambda>tx t. max t (uint (nTime tx))) (vtx b) 0"

section \<open>The Merkle tree\<close>

definition HashPair :: "env \<Rightarrow> u256 \<Rightarrow> u256 \<Rightarrow> u256" where
  "HashPair E a b = Hash2 E (uint256_bytes a) (uint256_bytes b)"

text \<open>The inner loop appends the row above the \<open>nSize\<close> hashes that start at \<open>j\<close>.\<close>

function merkle_row :: "env \<Rightarrow> nat \<Rightarrow> nat \<Rightarrow> nat \<Rightarrow> u256 list \<Rightarrow> u256 list" where
  "merkle_row E nSize j i vMerkleTree =
     (if i < nSize then
        (let i2 = min (i + 1) (nSize - 1)
         in merkle_row E nSize j (i + 2) (vMerkleTree @ [HashPair E (vMerkleTree ! (j + i)) (vMerkleTree ! (j + i2))]))
      else vMerkleTree)"
  by pat_completeness auto
termination
  by (relation "measure (\<lambda>(E, nSize, j, i, t). nSize - i)") auto

function merkle_rows :: "env \<Rightarrow> nat \<Rightarrow> nat \<Rightarrow> u256 list \<Rightarrow> u256 list" where
  "merkle_rows E nSize j vMerkleTree =
     (if nSize > 1 then merkle_rows E ((nSize + 1) div 2) (j + nSize) (merkle_row E nSize j 0 vMerkleTree)
      else vMerkleTree)"
  by pat_completeness auto
termination
  by (relation "measure (\<lambda>(E, nSize, j, t). nSize)") auto

definition vMerkleTree :: "env \<Rightarrow> CBlock \<Rightarrow> u256 list" where
  "vMerkleTree E b = merkle_rows E (length (vtx b)) 0 (map (GetHash E) (vtx b))"

definition BuildMerkleTree :: "env \<Rightarrow> CBlock \<Rightarrow> u256" where
  "BuildMerkleTree E b = (if vMerkleTree E b = [] then 0 else last (vMerkleTree E b))"

text \<open>The sibling index \<^verbatim>\<open>nIndex^1\<close> of a non-negative index.\<close>

definition sibling :: "nat \<Rightarrow> nat" where
  "sibling i = (if even i then i + 1 else i - 1)"

function merkle_branch :: "nat \<Rightarrow> nat \<Rightarrow> nat \<Rightarrow> u256 list \<Rightarrow> u256 list" where
  "merkle_branch nSize j nIndex tree =
     (if nSize > 1 then
        tree ! (j + min (sibling nIndex) (nSize - 1)) # merkle_branch ((nSize + 1) div 2) (j + nSize) (nIndex div 2) tree
      else [])"
  by pat_completeness auto
termination
  by (relation "measure (\<lambda>(nSize, j, i, t). nSize)") auto

definition GetMerkleBranch :: "env \<Rightarrow> CBlock \<Rightarrow> nat \<Rightarrow> u256 list" where
  "GetMerkleBranch E b nIndex = merkle_branch (length (vtx b)) 0 nIndex (vMerkleTree E b)"

fun check_branch :: "env \<Rightarrow> u256 \<Rightarrow> u256 list \<Rightarrow> int \<Rightarrow> u256" where
  "check_branch E h [] nIndex = h"
| "check_branch E h (otherside # vMerkleBranch) nIndex =
     check_branch E (if odd nIndex then HashPair E otherside h else HashPair E h otherside) vMerkleBranch (nIndex div 2)"

definition CheckMerkleBranch :: "env \<Rightarrow> u256 \<Rightarrow> u256 list \<Rightarrow> int \<Rightarrow> u256" where
  "CheckMerkleBranch E h vMerkleBranch nIndex = (if nIndex = - 1 then 0 else check_branch E h vMerkleBranch nIndex)"

declare merkle_row.simps [simp del] merkle_rows.simps [simp del] merkle_branch.simps [simp del]

section \<open>The reference definition\<close>

fun pair_up :: "env \<Rightarrow> u256 list \<Rightarrow> u256 list" where
  "pair_up E [] = []"
| "pair_up E [x] = [HashPair E x x]"
| "pair_up E (x # y # xs) = HashPair E x y # pair_up E xs"

lemma length_pair_up [simp]: "length (pair_up E xs) = (length xs + 1) div 2"
  by (induction E xs rule: pair_up.induct) auto

function tree_rows :: "env \<Rightarrow> u256 list \<Rightarrow> u256 list list" where
  "tree_rows E row = row # (if length row > 1 then tree_rows E (pair_up E row) else [])"
  by pat_completeness auto
termination
  by (relation "measure (\<lambda>(E, row). length row)") auto

function tree_root :: "env \<Rightarrow> u256 list \<Rightarrow> u256" where
  "tree_root E row = (if length row > 1 then tree_root E (pair_up E row) else if row = [] then 0 else hd row)"
  by pat_completeness auto
termination
  by (relation "measure (\<lambda>(E, row). length row)") auto

function row_branch :: "env \<Rightarrow> u256 list \<Rightarrow> nat \<Rightarrow> u256 list" where
  "row_branch E row i =
     (if length row > 1 then row ! min (sibling i) (length row - 1) # row_branch E (pair_up E row) (i div 2) else [])"
  by pat_completeness auto
termination
  by (relation "measure (\<lambda>(E, row, i). length row)") auto

declare tree_rows.simps [simp del] tree_root.simps [simp del] row_branch.simps [simp del]

text \<open>The pairs of a row; \<open>pair_up\<close> hashes each of them.\<close>

fun row_pairs :: "u256 list \<Rightarrow> (u256 \<times> u256) list" where
  "row_pairs [] = []"
| "row_pairs [x] = [(x, x)]"
| "row_pairs (x # y # xs) = (x, y) # row_pairs xs"

lemma pair_up_map: "pair_up E xs = map (\<lambda>(a, b). HashPair E a b) (row_pairs xs)"
  by (induction xs rule: row_pairs.induct) auto

lemma set_row_pairs: "set (row_pairs xs) \<subseteq> set xs \<times> set xs"
  by (induction xs rule: row_pairs.induct) auto

lemma distinct_row_pairs: "distinct xs \<Longrightarrow> distinct (row_pairs xs)"
proof (induction xs rule: row_pairs.induct)
  case (3 x y xs)
  then show ?case using set_row_pairs [of xs] by auto
qed auto

lemma row_pairs_inject: "row_pairs xs = row_pairs ys \<Longrightarrow> distinct xs \<Longrightarrow> distinct ys \<Longrightarrow> xs = ys"
proof (induction xs arbitrary: ys rule: row_pairs.induct)
  case 1
  then show ?case by (cases ys rule: row_pairs.cases) auto
next
  case (2 x)
  then show ?case by (cases ys rule: row_pairs.cases) auto
next
  case (3 x y xs)
  then show ?case by (cases ys rule: row_pairs.cases) auto
qed

lemma length_row_pairs [simp]: "length (row_pairs xs) = (length xs + 1) div 2"
  by (induction xs rule: row_pairs.induct) auto

lemma nth_row_pairs:
  "k < (length xs + 1) div 2 \<Longrightarrow> row_pairs xs ! k = (xs ! (2 * k), xs ! min (2 * k + 1) (length xs - 1))"
proof (induction xs arbitrary: k rule: row_pairs.induct)
  case (3 x y xs)
  show ?case
  proof (cases k)
    case (Suc m)
    with "3.prems" have m: "m < (length xs + 1) div 2" by simp
    then have "xs \<noteq> []" by auto
    then have "min (2 * Suc m + 1) (length (x # y # xs) - 1) = Suc (Suc (min (2 * m + 1) (length xs - 1)))"
      by (cases xs) auto
    with "3.IH" [OF m] Suc show ?thesis by simp
  qed simp
qed auto

lemma row_pairs_parent:
  assumes "i < length row"
  shows "row_pairs row ! (i div 2) =
    (if odd i then (row ! min (sibling i) (length row - 1), row ! i)
     else (row ! i, row ! min (sibling i) (length row - 1)))"
proof -
  have k: "i div 2 < (length row + 1) div 2" using assms by linarith
  show ?thesis
  proof (cases "even i")
    case True
    then show ?thesis using nth_row_pairs [OF k] by (simp add: sibling_def)
  next
    case False
    then have "2 * (i div 2) = i - 1" "2 * (i div 2) + 1 = i" by presburger+
    moreover have "min i (length row - 1) = i" "min (i - 1) (length row - 1) = i - 1" using assms by auto
    ultimately show ?thesis using nth_row_pairs [OF k] False by (simp add: sibling_def)
  qed
qed

lemma parent_pair:
  assumes "i < length row"
  shows "row_pairs row ! (i div 2) \<in> set (row_pairs row)"
    and "pair_up E row ! (i div 2) = (case row_pairs row ! (i div 2) of (a, b) \<Rightarrow> HashPair E a b)"
  using assms by (simp_all add: pair_up_map)

lemma drop_pair_up:
  "i < length row \<Longrightarrow> pair_up E (drop i row) = HashPair E (row ! i) (row ! min (i + 1) (length row - 1)) # pair_up E (drop (i + 2) row)"
proof -
  assume i: "i < length row"
  then have d: "drop i row = row ! i # drop (i + 1) row" by (simp add: Cons_nth_drop_Suc)
  show ?thesis
  proof (cases "i + 1 < length row")
    case True
    then have "drop (i + 1) row = row ! (i + 1) # drop (i + 2) row" by (simp add: Cons_nth_drop_Suc)
    moreover have "min (i + 1) (length row - 1) = i + 1" using True by simp
    ultimately show ?thesis using d by simp
  next
    case False
    then have "drop (i + 1) row = []" "drop (i + 2) row = []" "min (i + 1) (length row - 1) = i"
      using i by auto
    then show ?thesis using d by simp
  qed
qed

section \<open>The loops compute the reference definition\<close>

lemma merkle_row_spec:
  "merkle_row E (length row) (length pre) i (pre @ row @ acc) = pre @ row @ acc @ pair_up E (drop i row)"
proof (induction "length row - i" arbitrary: i acc rule: less_induct)
  case less
  show ?case
  proof (cases "i < length row")
    case True
    let ?i2 = "min (i + 1) (length row - 1)"
    have at: "(pre @ row @ acc) ! (length pre + k) = row ! k" if "k < length row" for k
      using that by (simp add: nth_append)
    have "merkle_row E (length row) (length pre) i (pre @ row @ acc) =
      merkle_row E (length row) (length pre) (i + 2) (pre @ row @ (acc @ [HashPair E (row ! i) (row ! ?i2)]))"
      using True at [of i] at [of ?i2] by (subst merkle_row.simps) (simp add: Let_def)
    also have "\<dots> = pre @ row @ (acc @ [HashPair E (row ! i) (row ! ?i2)]) @ pair_up E (drop (i + 2) row)"
      using True by (intro less) simp
    finally show ?thesis using drop_pair_up [OF True] by simp
  qed (subst merkle_row.simps, simp)
qed

lemma merkle_rows_spec:
  "merkle_rows E (length row) (length pre) (pre @ row) = pre @ concat (tree_rows E row)"
proof (induction E row arbitrary: pre rule: tree_rows.induct)
  case (1 E row)
  show ?case
  proof (cases "length row > 1")
    case True
    have "merkle_row E (length row) (length pre) 0 (pre @ row) = (pre @ row) @ pair_up E row"
      using merkle_row_spec [of E row pre 0 "[]"] by simp
    with 1 [OF True, of "pre @ row"] True show ?thesis
      by (subst merkle_rows.simps, subst tree_rows.simps) simp
  qed (subst merkle_rows.simps, subst tree_rows.simps, simp)
qed

lemma pair_up_Nil [simp]: "pair_up E row = [] \<longleftrightarrow> row = []"
  by (cases "(E, row)" rule: pair_up.cases) auto

lemma last_tree_rows: "row \<noteq> [] \<Longrightarrow> concat (tree_rows E row) \<noteq> [] \<and> last (concat (tree_rows E row)) = tree_root E row"
proof (induction E row rule: tree_rows.induct)
  case (1 E row)
  show ?case
  proof (cases "length row > 1")
    case True
    with 1 show ?thesis by (subst (1 2) tree_rows.simps, subst tree_root.simps) simp
  next
    case False
    with 1(2) obtain x where "row = [x]" by (cases row) auto
    then show ?thesis by (subst (1 2) tree_rows.simps, subst tree_root.simps) simp
  qed
qed

lemma vMerkleTree_rows: "vMerkleTree E b = concat (tree_rows E (map (GetHash E) (vtx b)))"
  using merkle_rows_spec [of E "map (GetHash E) (vtx b)" "[]"] by (simp add: vMerkleTree_def)

lemma BuildMerkleTree_root: "BuildMerkleTree E b = tree_root E (map (GetHash E) (vtx b))"
proof (cases "vtx b = []")
  case True
  then show ?thesis
    by (simp add: BuildMerkleTree_def vMerkleTree_rows) (subst tree_rows.simps, subst tree_root.simps, simp)
next
  case False
  with last_tree_rows [of "map (GetHash E) (vtx b)" E] show ?thesis
    by (auto simp: BuildMerkleTree_def vMerkleTree_rows)
qed

lemma merkle_branch_rows:
  "i < length row \<Longrightarrow> merkle_branch (length row) (length pre) i (pre @ concat (tree_rows E row) @ post) = row_branch E row i"
proof (induction E row arbitrary: pre i rule: tree_rows.induct)
  case (1 E row)
  show ?case
  proof (cases "length row > 1")
    case True
    have c: "concat (tree_rows E row) = row @ concat (tree_rows E (pair_up E row))"
      using True by (subst tree_rows.simps) simp
    have "min (sibling i) (length row - 1) < length row" using True by simp
    then have "(pre @ concat (tree_rows E row) @ post) ! (length pre + min (sibling i) (length row - 1)) =
        row ! min (sibling i) (length row - 1)"
      unfolding c by (simp add: nth_append)
    moreover have "merkle_branch ((length row + 1) div 2) (length pre + length row) (i div 2) (pre @ concat (tree_rows E row) @ post) =
        row_branch E (pair_up E row) (i div 2)"
      using 1(1) [OF True, of "i div 2" "pre @ row"] 1(2) unfolding c by simp
    ultimately show ?thesis using True by (subst merkle_branch.simps, subst row_branch.simps) simp
  qed (subst merkle_branch.simps, subst row_branch.simps, simp)
qed

lemma GetMerkleBranch_rows:
  "i < length (vtx b) \<Longrightarrow> GetMerkleBranch E b i = row_branch E (map (GetHash E) (vtx b)) i"
  using merkle_branch_rows [of i "map (GetHash E) (vtx b)" "[]" E "[]"]
  by (simp add: GetMerkleBranch_def vMerkleTree_rows)

section \<open>A branch leads to the root, and only from its leaf\<close>

lemma check_branch_root: "i < length row \<Longrightarrow> check_branch E (row ! i) (row_branch E row i) (int i) = tree_root E row"
proof (induction E row arbitrary: i rule: tree_rows.induct)
  case (1 E row)
  show ?case
  proof (cases "length row > 1")
    case True
    from 1(2) have "i div 2 < length (pair_up E row)" by simp
    from 1(1) [OF True this] parent_pair(2) [OF 1(2), of E] row_pairs_parent [OF 1(2)] True show ?thesis
      by (subst row_branch.simps, subst tree_root.simps) (auto simp: zdiv_int)
  next
    case False
    with 1(2) obtain x where "row = [x]" "i = 0" by (cases row) auto
    then show ?thesis by (subst row_branch.simps, subst tree_root.simps) simp
  qed
qed

text \<open>The pairs that are hashed while a row is reduced to its root, and while a branch is checked.\<close>

definition tree_pairs :: "env \<Rightarrow> u256 list \<Rightarrow> (u256 \<times> u256) set" where
  "tree_pairs E row = (\<Union>r \<in> {r \<in> set (tree_rows E row). length r > 1}. set (row_pairs r))"

fun branch_pairs :: "env \<Rightarrow> u256 \<Rightarrow> u256 list \<Rightarrow> int \<Rightarrow> (u256 \<times> u256) set" where
  "branch_pairs E h [] nIndex = {}"
| "branch_pairs E h (s # br) nIndex =
     (let p = (if odd nIndex then (s, h) else (h, s))
      in insert p (branch_pairs E (HashPair E (fst p) (snd p)) br (nIndex div 2)))"

definition collision_free :: "env \<Rightarrow> (u256 \<times> u256) set \<Rightarrow> bool" where
  "collision_free E P \<longleftrightarrow> inj_on (\<lambda>(a, b). HashPair E a b) P"

lemma collision_freeD:
  "collision_free E P \<Longrightarrow> (a, b) \<in> P \<Longrightarrow> (c, d) \<in> P \<Longrightarrow> HashPair E a b = HashPair E c d \<Longrightarrow> a = c \<and> b = d"
  by (auto simp: collision_free_def inj_on_def)

lemma collision_free_mono: "collision_free E P \<Longrightarrow> Q \<subseteq> P \<Longrightarrow> collision_free E Q"
  by (auto simp: collision_free_def intro: inj_on_subset)

lemma tree_pairs_step: "length row > 1 \<Longrightarrow> tree_pairs E row = set (row_pairs row) \<union> tree_pairs E (pair_up E row)"
  unfolding tree_pairs_def by (subst tree_rows.simps) auto

lemma check_branch_unique:
  assumes "i < length row" and "length br = length (row_branch E row i)"
    and "collision_free E (tree_pairs E row \<union> branch_pairs E h br (int i))"
    and "check_branch E h br (int i) = tree_root E row"
  shows "h = row ! i \<and> br = row_branch E row i"
  using assms
proof (induction E row arbitrary: i h br rule: tree_rows.induct)
  case (1 E row)
  show ?case
  proof (cases "length row > 1")
    case True
    let ?s = "row ! min (sibling i) (length row - 1)"
    have rb: "row_branch E row i = ?s # row_branch E (pair_up E row) (i div 2)"
      using True by (subst row_branch.simps) simp
    with "1.prems"(2) obtain s br' where br: "br = s # br'" by (cases br) auto
    define p where "p = (if odd i then (s, h) else (h, s))"
    define h' where "h' = HashPair E (fst p) (snd p)"
    define q where "q = row_pairs row ! (i div 2)"
    have bp: "branch_pairs E h br (int i) = insert p (branch_pairs E h' br' (int (i div 2)))"
      by (simp add: br p_def h'_def Let_def zdiv_int)
    have cb: "check_branch E h br (int i) = check_branch E h' br' (int (i div 2))"
      by (simp add: br p_def h'_def zdiv_int)
    have "h' = pair_up E row ! (i div 2) \<and> br' = row_branch E (pair_up E row) (i div 2)"
    proof (rule "1.IH" [OF True])
      show "i div 2 < length (pair_up E row)" using "1.prems"(1) by simp
      show "length br' = length (row_branch E (pair_up E row) (i div 2))" using "1.prems"(2) rb br by simp
      show "collision_free E (tree_pairs E (pair_up E row) \<union> branch_pairs E h' br' (int (i div 2)))"
        using "1.prems"(3) bp tree_pairs_step [OF True] by (auto intro: collision_free_mono)
      show "check_branch E h' br' (int (i div 2)) = tree_root E (pair_up E row)"
        using "1.prems"(4) cb True tree_root.simps [of E row] by simp
    qed
    moreover have "HashPair E (fst p) (snd p) = HashPair E (fst q) (snd q)"
      using calculation parent_pair(2) [OF "1.prems"(1), of E] by (auto simp: h'_def q_def split: prod.splits)
    moreover have "q \<in> tree_pairs E row"
      using parent_pair(1) [OF "1.prems"(1)] tree_pairs_step [OF True] by (auto simp: q_def)
    ultimately show ?thesis
      using collision_freeD [OF "1.prems"(3), of "fst p" "snd p" "fst q" "snd q"] bp rb br
        row_pairs_parent [OF "1.prems"(1)]
      by (auto simp: p_def q_def split: if_splits)
  next
    case False
    with "1.prems"(1) obtain x where r: "row = [x]" "i = 0" by (cases row) auto
    then have "row_branch E row i = []" by (subst row_branch.simps) simp
    moreover from this have "br = []" using "1.prems"(2) by simp
    ultimately show ?thesis using "1.prems"(4) r by (subst (asm) tree_root.simps) simp
  qed
qed


section \<open>What a root determines\<close>

lemma tree_rows_step: "length row > 1 \<Longrightarrow> tree_rows E row = row # tree_rows E (pair_up E row)"
  by (subst tree_rows.simps) simp

lemma tree_rows_leaf: "\<not> length row > 1 \<Longrightarrow> tree_rows E row = [row]"
  by (subst tree_rows.simps) simp

lemma tree_rows_nonempty: "length (tree_rows E row) > 0"
  by (subst tree_rows.simps) simp

lemma tree_root_step: "length row > 1 \<Longrightarrow> tree_root E row = tree_root E (pair_up E row)"
  by (subst tree_root.simps) simp

lemma tree_root_single: "tree_root E [x] = x"
  by (subst tree_root.simps) simp

lemma same_height:
  "length (tree_rows E xs) = length (tree_rows E ys) \<Longrightarrow> length xs > 1 \<longleftrightarrow> length ys > 1"
  using tree_rows_nonempty [of E "pair_up E xs"] tree_rows_nonempty [of E "pair_up E ys"]
  by (cases "length xs > 1"; cases "length ys > 1") (simp_all add: tree_rows_step tree_rows_leaf)

lemma pair_up_inject:
  assumes "inj_on (\<lambda>(a, b). HashPair E a b) (set (row_pairs xs) \<union> set (row_pairs ys))"
    and "distinct xs" and "distinct ys" and "pair_up E xs = pair_up E ys"
  shows "xs = ys"
proof -
  have "row_pairs xs = row_pairs ys"
    using assms(4) unfolding pair_up_map by (rule map_inj_on) (rule assms(1))
  then show ?thesis using assms(2,3) by (rule row_pairs_inject)
qed

lemma distinct_pair_up:
  "inj_on (\<lambda>(a, b). HashPair E a b) (set (row_pairs xs)) \<Longrightarrow> distinct xs \<Longrightarrow> distinct (pair_up E xs)"
  unfolding pair_up_map distinct_map by (simp add: distinct_row_pairs)

lemma tree_root_inject:
  assumes "distinct xs" and "distinct ys" and "xs \<noteq> []" and "ys \<noteq> []"
    and "length (tree_rows E xs) = length (tree_rows E ys)"
    and "collision_free E (tree_pairs E xs \<union> tree_pairs E ys)" and "tree_root E xs = tree_root E ys"
  shows "xs = ys"
  using assms
proof (induction E xs arbitrary: ys rule: tree_rows.induct)
  case (1 E xs)
  show ?case
  proof (cases "length xs > 1")
    case True
    with same_height [OF "1.prems"(5)] have ly: "length ys > 1" by simp
    note tp = tree_pairs_step [OF True, of E] tree_pairs_step [OF ly, of E]
    have inj: "inj_on (\<lambda>(a, b). HashPair E a b) (set (row_pairs xs) \<union> set (row_pairs ys))"
      using "1.prems"(6) unfolding collision_free_def tp by (rule inj_on_subset) blast
    have d: "distinct (pair_up E xs)" "distinct (pair_up E ys)"
      using inj "1.prems"(1,2) by (auto intro!: distinct_pair_up intro: inj_on_subset)
    have h: "length (tree_rows E (pair_up E xs)) = length (tree_rows E (pair_up E ys))"
      using "1.prems"(5) tree_rows_step [OF True, of E] tree_rows_step [OF ly, of E] by simp
    have c: "collision_free E (tree_pairs E (pair_up E xs) \<union> tree_pairs E (pair_up E ys))"
      using "1.prems"(6) unfolding tp by (rule collision_free_mono) blast
    have r: "tree_root E (pair_up E xs) = tree_root E (pair_up E ys)"
      using "1.prems"(7) tree_root_step [OF True, of E] tree_root_step [OF ly, of E] by simp
    have "pair_up E xs = pair_up E ys"
      using "1.IH" [OF True d _ _ h c r] "1.prems"(3,4) by simp
    with inj "1.prems"(1,2) show ?thesis by (rule pair_up_inject)
  next
    case False
    with same_height [OF "1.prems"(5)] have "\<not> length ys > 1" by simp
    with False "1.prems"(3,4) obtain x y where "xs = [x]" "ys = [y]" by (cases xs; cases ys) auto
    with "1.prems"(7) show ?thesis by (simp add: tree_root_single)
  qed
qed

lemma pair_up_duplicate: "odd (length xs) \<Longrightarrow> pair_up E (xs @ [last xs]) = pair_up E xs"
  by (induction E xs rule: pair_up.induct) auto

lemma tree_root_duplicate: "odd (length xs) \<Longrightarrow> length xs > 1 \<Longrightarrow> xs \<noteq> [] \<Longrightarrow> tree_root E (xs @ [last xs]) = tree_root E xs"
  using tree_root_step [of xs E] tree_root_step [of "xs @ [last xs]" E] by (simp add: pair_up_duplicate)

section \<open>Blocks on the wire\<close>

lemma Unserialize_u256_bytes [simp]: "Unserialize_u256 (uint256_bytes h @ rest) = Some (h, rest)"
proof -
  have "unat h < 2 ^ 256" using unsigned_less [of h] by simp
  also have "(2 :: nat) ^ 256 = 256 ^ 32" by simp
  finally have "READDATA 32 (le_bytes 32 (unat h) @ s) = Some (unat h, s)" for s
    by (rule READDATA_le_bytes)
  then show ?thesis by (simp add: Unserialize_u256_def uint256_bytes_def)
qed

definition wire_block :: "CBlock \<Rightarrow> bool" where
  "wire_block b \<longleftrightarrow> length (vtx b) \<le> MAX_SIZE \<and> (\<forall>t \<in> set (vtx b). wire_tx t) \<and> length (vchBlockSig b) \<le> MAX_SIZE"

interpretation block: codec Serialize_CBlock Unserialize_CBlock GetSerializeSize_CBlock wire_block
proof
  fix b :: CBlock and rest
  assume wf: "wire_block b"
  have txs: "Unserialize_vector Unserialize_CTransaction (Serialize_vector Serialize_CTransaction (vtx b) @ s) = Some (vtx b, s)" for s
    using wf by (simp add: wire_block_def Unserialize_vector_def Serialize_vector_def
        ReadCompactSize_Write tx.read_elements_concat)
  show "Unserialize_CBlock (Serialize_CBlock b @ rest) = Some (b, rest)"
    using wf by (simp add: Unserialize_CBlock_def Serialize_CBlock_def Serialize_header_def txs
        Unserialize_bytes_Serialize wire_block_def)
next
  fix b :: CBlock
  show "GetSerializeSize_CBlock b = length (Serialize_CBlock b)"
    unfolding GetSerializeSize_CBlock_def GetSerializeSize_vector_def tx.sum_sz
    by (simp add: Serialize_CBlock_def Serialize_header_def Serialize_vector_def length_WriteCompactSize
        GetSerializeSize_bytes_length)
qed

section \<open>Properties\<close>

text \<open>The branch \<open>GetMerkleBranch\<close> collects for a transaction of a block leads
  \<open>CheckMerkleBranch\<close> from the hash of that transaction to the root \<open>BuildMerkleTree\<close> computes.\<close>

theorem merkle_branch_roundtrip:
  assumes "i < length (vtx b)"
  shows "CheckMerkleBranch E (GetHash E (vtx b ! i)) (GetMerkleBranch E b i) (int i) = BuildMerkleTree E b"
  using check_branch_root [of i "map (GetHash E) (vtx b)" E] assms
  by (simp add: CheckMerkleBranch_def GetMerkleBranch_rows BuildMerkleTree_root)

definition block_sample :: CBlock where
  "block_sample = \<lparr>blk_nVersion = 2, hashPrevBlock = 0, hashMerkleRoot = 0, blk_nTime = 0, nBits = 0, nNonce = 0,
     vtx = [null_tx 1, null_tx 2], vchBlockSig = []\<rparr>"

lemma block_sample_tree:
  "tree_rows E [x, y] = [[x, y], [HashPair E x y]]" "row_branch E [x, y] 0 = [y]" "tree_root E [x, y] = HashPair E x y"
  by (subst tree_rows.simps, subst tree_rows.simps, simp)
     (subst row_branch.simps, subst row_branch.simps, simp add: sibling_def,
      subst tree_root.simps, subst tree_root.simps, simp)

theorem merkle_branch_roundtrip_witness:
  "CheckMerkleBranch ref_env (GetHash ref_env (null_tx 2)) (GetMerkleBranch ref_env block_sample 1) 1 =
   BuildMerkleTree ref_env block_sample"
  using merkle_branch_roundtrip [of 1 block_sample ref_env] by (simp add: block_sample_def)

text \<open>A branch of the right length that leads from a hash to the root of a block proves that the
  hash is that of the transaction at this index, provided no two different pairs among those hashed
  for the tree and for the branch have the same hash.\<close>

theorem merkle_branch_sound:
  assumes "i < length (vtx b)" and "length br = length (GetMerkleBranch E b i)"
    and "collision_free E (tree_pairs E (map (GetHash E) (vtx b)) \<union> branch_pairs E h br (int i))"
    and "CheckMerkleBranch E h br (int i) = BuildMerkleTree E b"
  shows "h = GetHash E (vtx b ! i) \<and> br = GetMerkleBranch E b i"
  using check_branch_unique [of i "map (GetHash E) (vtx b)" br E h] assms
  by (simp add: CheckMerkleBranch_def GetMerkleBranch_rows BuildMerkleTree_root)

theorem merkle_branch_sound_witness:
  "GetMerkleBranch ref_env block_sample 0 = [GetHash ref_env (null_tx 2)]"
proof -
  let ?x = "GetHash ref_env (null_tx 1)" and ?y = "GetHash ref_env (null_tx 2)"
  have m: "map (GetHash ref_env) (vtx block_sample) = [?x, ?y]" "length (vtx block_sample) = 2"
    by (simp_all add: block_sample_def)
  have c: "collision_free ref_env (tree_pairs ref_env [?x, ?y] \<union> branch_pairs ref_env ?x [?y] 0)"
    unfolding tree_pairs_def block_sample_tree by (auto simp: collision_free_def Let_def inj_on_def)
  show ?thesis
    using merkle_branch_sound [of 0 block_sample "[?y]" ref_env ?x] c m
    by (simp add: GetMerkleBranch_rows BuildMerkleTree_root block_sample_tree CheckMerkleBranch_def)
qed

end
