(* ===== verification/Mempool.thy ===== *)
theory Mempool
  imports Transaction
begin

text \<open>
  The memory pool, \<^verbatim>\<open>CTxMemPool\<close> of src/src/main.h and src/src/main.cpp, without the admission rules
  (those are in the theory of the inputs): the transactions by hash and, for every outpoint a pooled
  transaction spends, the transaction and input that spend it. A \<^verbatim>\<open>CInPoint\<close> holds the address of an
  entry of \<^verbatim>\<open>mapTx\<close>; the address of an entry is its key here.
\<close>

section \<open>State and operations\<close>

record CTxMemPool =
  mapTx :: "u256 \<rightharpoonup> CTransaction"
  mapNextTx :: "COutPoint \<rightharpoonup> u256 \<times> nat"
  nTransactionsUpdated :: u32

definition empty_pool :: CTxMemPool where
  "empty_pool = \<lparr>mapTx = Map.empty, mapNextTx = Map.empty, nTransactionsUpdated = 0\<rparr>"

definition outpoint :: "u256 \<Rightarrow> nat \<Rightarrow> COutPoint" where
  "outpoint h i = \<lparr>prev_hash = h, prev_n = word_of_nat i\<rparr>"

text \<open>The loop over the inputs, from input \<open>i\<close> on.\<close>

fun link_inputs :: "u256 \<Rightarrow> nat \<Rightarrow> CTxIn list \<Rightarrow> (COutPoint \<rightharpoonup> u256 \<times> nat) \<Rightarrow> (COutPoint \<rightharpoonup> u256 \<times> nat)" where
  "link_inputs h i [] m = m"
| "link_inputs h i (x # xs) m = link_inputs h (i + 1) xs (m(prevout x \<mapsto> (h, i)))"

definition addUnchecked :: "u256 \<Rightarrow> CTransaction \<Rightarrow> CTxMemPool \<Rightarrow> CTxMemPool" where
  "addUnchecked h tx p =
     p\<lparr>mapTx := (mapTx p)(h \<mapsto> tx), mapNextTx := link_inputs h 0 (vin tx) (mapNextTx p),
       nTransactionsUpdated := nTransactionsUpdated p + 1\<rparr>"

definition erase_entry :: "u256 \<Rightarrow> CTransaction \<Rightarrow> CTxMemPool \<Rightarrow> CTxMemPool" where
  "erase_entry h tx p =
     p\<lparr>mapNextTx := mapNextTx p |` (- prevout ` set (vin tx)), mapTx := (mapTx p)(h := None),
       nTransactionsUpdated := nTransactionsUpdated p + 1\<rparr>"

text \<open>
  \<^verbatim>\<open>remove\<close> descends into the transactions that spend the removed one's outputs. The first argument
  bounds the depth of that recursion; None means it was not enough (or that a link is dangling),
  and the theorems below show that the number of pooled transactions plus one always is.
\<close>

fun pool_remove :: "nat \<Rightarrow> env \<Rightarrow> CTransaction \<Rightarrow> bool \<Rightarrow> CTxMemPool \<Rightarrow> CTxMemPool option"
  and remove_spenders :: "nat \<Rightarrow> env \<Rightarrow> u256 \<Rightarrow> nat list \<Rightarrow> CTxMemPool \<Rightarrow> CTxMemPool option" where
  "pool_remove 0 E tx fRecursive p = None"
| "pool_remove (Suc n) E tx fRecursive p =
     (let h = GetHash E tx
      in if mapTx p h = None then Some p
         else case (if fRecursive then remove_spenders n E h [0..<length (vout tx)] p else Some p) of
           None \<Rightarrow> None
         | Some p' \<Rightarrow> Some (erase_entry h tx p'))"
| "remove_spenders n E h [] p = Some p"
| "remove_spenders n E h (i # is) p =
     (case mapNextTx p (outpoint h i) of
        None \<Rightarrow> remove_spenders n E h is p
      | Some (h', k) \<Rightarrow>
          (case mapTx p h' of
             None \<Rightarrow> None
           | Some tx' \<Rightarrow>
               (case pool_remove n E tx' True p of
                  None \<Rightarrow> None
                | Some p' \<Rightarrow> remove_spenders n E h is p')))"

fun removeConflicts_loop :: "nat \<Rightarrow> env \<Rightarrow> CTransaction \<Rightarrow> CTxIn list \<Rightarrow> CTxMemPool \<Rightarrow> CTxMemPool option" where
  "removeConflicts_loop n E tx [] p = Some p"
| "removeConflicts_loop n E tx (i # is) p =
     (case mapNextTx p (prevout i) of
        None \<Rightarrow> removeConflicts_loop n E tx is p
      | Some (h', k) \<Rightarrow>
          (case mapTx p h' of
             None \<Rightarrow> None
           | Some txConflict \<Rightarrow>
               if txConflict \<noteq> tx then
                 (case pool_remove n E txConflict True p of
                    None \<Rightarrow> None
                  | Some p' \<Rightarrow> removeConflicts_loop n E tx is p')
               else removeConflicts_loop n E tx is p))"

definition removeConflicts :: "nat \<Rightarrow> env \<Rightarrow> CTransaction \<Rightarrow> CTxMemPool \<Rightarrow> CTxMemPool option" where
  "removeConflicts n E tx p = removeConflicts_loop n E tx (vin tx) p"

definition pool_clear :: "CTxMemPool \<Rightarrow> CTxMemPool" where
  "pool_clear p = \<lparr>mapTx = Map.empty, mapNextTx = Map.empty, nTransactionsUpdated = nTransactionsUpdated p + 1\<rparr>"

definition pool_exists :: "CTxMemPool \<Rightarrow> u256 \<Rightarrow> bool" where
  "pool_exists p h \<longleftrightarrow> mapTx p h \<noteq> None"

section \<open>The invariant\<close>

text \<open>
  Every transaction is filed under its hash and has pairwise different inputs, and the outpoint map
  is exactly the relation ``is spent by input k of pooled transaction h''.
\<close>

definition spends :: "CTransaction \<Rightarrow> nat \<Rightarrow> COutPoint \<Rightarrow> bool" where
  "spends tx k p \<longleftrightarrow> k < length (vin tx) \<and> prevout (vin tx ! k) = p"

definition pool_inv :: "env \<Rightarrow> CTxMemPool \<Rightarrow> bool" where
  "pool_inv E p \<longleftrightarrow>
     finite (dom (mapTx p)) \<and>
     (\<forall>h tx. mapTx p h = Some tx \<longrightarrow> GetHash E tx = h \<and> distinct (map prevout (vin tx))) \<and>
     (\<forall>q h k. mapNextTx p q = Some (h, k) \<longleftrightarrow> (\<exists>tx. mapTx p h = Some tx \<and> spends tx k q))"

lemma link_inputs_iff:
  "distinct (map prevout xs) \<Longrightarrow>
   link_inputs h i xs m q = Some (h', k) \<longleftrightarrow>
     (h' = h \<and> (\<exists>j < length xs. prevout (xs ! j) = q \<and> k = i + j)) \<or>
     (q \<notin> prevout ` set xs \<and> m q = Some (h', k))"
proof (induction h i xs m rule: link_inputs.induct)
  case (2 h i x xs m)
  have IH: "link_inputs h i (x # xs) m q = Some (h', k) \<longleftrightarrow>
     (h' = h \<and> (\<exists>j < length xs. prevout (xs ! j) = q \<and> k = i + 1 + j)) \<or>
     (q \<notin> prevout ` set xs \<and> (m(prevout x \<mapsto> (h, i))) q = Some (h', k))"
    using "2.IH" "2.prems" by (simp only: link_inputs.simps list.map distinct.simps)
  have ex: "(\<exists>j < length (x # xs). prevout ((x # xs) ! j) = q \<and> k = i + j) \<longleftrightarrow>
      (prevout x = q \<and> k = i) \<or> (\<exists>j < length xs. prevout (xs ! j) = q \<and> k = i + 1 + j)"
    by (auto simp: less_Suc_eq_0_disj)
  show ?case
  proof (cases "q = prevout x")
    case True
    with "2.prems" have "q \<notin> prevout ` set xs" by simp
    moreover from this have "\<not> (\<exists>j < length xs. prevout (xs ! j) = q)" by (metis imageI nth_mem)
    ultimately show ?thesis unfolding IH ex using True by auto
  next
    case False
    then show ?thesis unfolding IH ex by auto
  qed
qed simp

lemma pool_invD:
  assumes "pool_inv E p"
  shows "mapTx p h = Some tx \<Longrightarrow> GetHash E tx = h" "mapTx p h = Some tx \<Longrightarrow> distinct (map prevout (vin tx))"
    "mapNextTx p q = Some (h, k) \<longleftrightarrow> (\<exists>tx. mapTx p h = Some tx \<and> spends tx k q)" "finite (dom (mapTx p))"
  using assms unfolding pool_inv_def by auto

lemma pool_inv_empty [simp]: "pool_inv E empty_pool"
  by (simp add: pool_inv_def empty_pool_def)

lemma pool_inv_clear: "pool_inv E (pool_clear p)"
  by (simp add: pool_inv_def pool_clear_def)

lemma spends_iff: "(\<exists>k. spends tx k q) \<longleftrightarrow> q \<in> prevout ` set (vin tx)"
proof
  assume "\<exists>k. spends tx k q"
  then show "q \<in> prevout ` set (vin tx)" unfolding spends_def by (metis imageI nth_mem)
next
  assume "q \<in> prevout ` set (vin tx)"
  then show "\<exists>k. spends tx k q" unfolding spends_def by (auto simp: in_set_conv_nth)
qed

lemma pool_inv_addUnchecked:
  assumes inv: "pool_inv E p" and "GetHash E tx = h" and new: "mapTx p h = None"
    and dist: "distinct (map prevout (vin tx))" and free: "\<forall>i \<in> set (vin tx). mapNextTx p (prevout i) = None"
  shows "pool_inv E (addUnchecked h tx p)"
proof -
  have "mapNextTx (addUnchecked h tx p) q = Some (h', k) \<longleftrightarrow>
      (\<exists>t. mapTx (addUnchecked h tx p) h' = Some t \<and> spends t k q)" for q h' k
  proof -
    have "mapNextTx (addUnchecked h tx p) q = Some (h', k) \<longleftrightarrow>
       (h' = h \<and> spends tx k q) \<or> (q \<notin> prevout ` set (vin tx) \<and> mapNextTx p q = Some (h', k))"
      using link_inputs_iff [OF dist, of h 0 "mapNextTx p" q h' k] by (auto simp: addUnchecked_def spends_def)
    also have "\<dots> \<longleftrightarrow> (h' = h \<and> spends tx k q) \<or> mapNextTx p q = Some (h', k)"
      using free by auto
    also have "\<dots> \<longleftrightarrow> (\<exists>t. mapTx (addUnchecked h tx p) h' = Some t \<and> spends t k q)"
      using new pool_invD(3) [OF inv, of q h' k] by (auto simp: addUnchecked_def)
    finally show ?thesis .
  qed
  then show ?thesis
    using assms pool_invD(1,2,4) [OF inv] unfolding pool_inv_def by (auto simp: addUnchecked_def)
qed

lemma pool_inv_erase:
  assumes inv: "pool_inv E p" and h: "mapTx p h = Some tx"
  shows "pool_inv E (erase_entry h tx p)"
proof -
  have "mapNextTx (erase_entry h tx p) q = Some (h', k) \<longleftrightarrow>
      (\<exists>t. mapTx (erase_entry h tx p) h' = Some t \<and> spends t k q)" for q h' k
  proof (cases "q \<in> prevout ` set (vin tx)")
    case True
    then obtain j where j: "spends tx j q" using spends_iff by blast
    then have "mapNextTx p q = Some (h, j)" using pool_invD(3) [OF inv] h by blast
    then have "h' = h" if "mapTx p h' = Some t" "spends t k q" for t
      using that pool_invD(3) [OF inv, of q h' k] by auto
    with True show ?thesis by (auto simp: erase_entry_def restrict_map_def)
  next
    case False
    then have "\<not> spends tx k q" using spends_iff [of tx q] by blast
    with False h pool_invD(3) [OF inv, of q h' k] show ?thesis
      by (auto simp: erase_entry_def restrict_map_def)
  qed
  then show ?thesis
    using pool_invD(1,2,4) [OF inv] unfolding pool_inv_def
    by (auto simp: erase_entry_def dom_def split: if_splits elim: rev_finite_subset)
qed

text \<open>Spending chains in the pool are well-founded: a rank decreases from a transaction to what it spends.\<close>

definition pool_ranked :: "(u256 \<Rightarrow> nat) \<Rightarrow> CTxMemPool \<Rightarrow> bool" where
  "pool_ranked r p \<longleftrightarrow> (\<forall>h tx. mapTx p h = Some tx \<longrightarrow> (\<forall>i \<in> set (vin tx). r (prev_hash (prevout i)) < r h))"

definition above :: "(u256 \<Rightarrow> nat) \<Rightarrow> CTxMemPool \<Rightarrow> u256 \<Rightarrow> nat" where
  "above r p h = card {h' \<in> dom (mapTx p). r h \<le> r h'}"

lemma pool_ranked_sub: "pool_ranked r p \<Longrightarrow> mapTx q \<subseteq>\<^sub>m mapTx p \<Longrightarrow> pool_ranked r q"
  unfolding pool_ranked_def map_le_def by (metis domI)

lemma above_mono: "finite (dom (mapTx p)) \<Longrightarrow> mapTx q \<subseteq>\<^sub>m mapTx p \<Longrightarrow> above r q h \<le> above r p h"
  unfolding above_def using map_le_implies_dom_le [of "mapTx q" "mapTx p"] by (intro card_mono) (simp, blast)

lemma above_less:
  assumes "finite (dom (mapTx p))" and "h \<in> dom (mapTx p)" and "r h < r h'"
  shows "above r p h' < above r p h"
proof -
  have "h \<in> {g \<in> dom (mapTx p). r h \<le> r g}" "h \<notin> {g \<in> dom (mapTx p). r h' \<le> r g}" using assms by auto
  moreover have "{g \<in> dom (mapTx p). r h' \<le> r g} \<subseteq> {g \<in> dom (mapTx p). r h \<le> r g}" using assms(3) by auto
  ultimately have "{g \<in> dom (mapTx p). r h' \<le> r g} \<subset> {g \<in> dom (mapTx p). r h \<le> r g}" by blast
  then show ?thesis unfolding above_def using assms(1) by (intro psubset_card_mono) auto
qed

lemma next_sub:
  assumes "pool_inv E p" and "pool_inv E p'" and "mapTx p' \<subseteq>\<^sub>m mapTx p" and "mapNextTx p' q = Some (g, k)"
  shows "mapNextTx p q = Some (g, k)" "g \<in> dom (mapTx p')"
proof -
  obtain t where t: "mapTx p' g = Some t" "spends t k q" using assms(2,4) pool_invD(3) by blast
  then have "mapTx p g = Some t" using assms(3) by (metis domI map_le_def)
  with t show "mapNextTx p q = Some (g, k)" "g \<in> dom (mapTx p')" using pool_invD(3) [OF assms(1)] by blast+
qed

text \<open>What a removal from \<open>p\<close> to \<open>p'\<close> may do: it drops entries, at or above a rank.\<close>

definition pool_shrinks :: "env \<Rightarrow> (u256 \<Rightarrow> nat) \<Rightarrow> nat \<Rightarrow> CTxMemPool \<Rightarrow> CTxMemPool \<Rightarrow> bool" where
  "pool_shrinks E r l p p' \<longleftrightarrow>
     pool_inv E p' \<and> mapTx p' \<subseteq>\<^sub>m mapTx p \<and> (\<forall>g. r g < l \<longrightarrow> mapTx p' g = mapTx p g)"

lemma pool_shrinks_refl: "pool_inv E p \<Longrightarrow> pool_shrinks E r l p p"
  by (simp add: pool_shrinks_def)

lemma pool_shrinks_trans: "pool_shrinks E r l p q \<Longrightarrow> pool_shrinks E r l q s \<Longrightarrow> pool_shrinks E r l p s"
  unfolding pool_shrinks_def by (metis map_le_trans)

lemma pool_shrinks_weaken: "pool_shrinks E r l p q \<Longrightarrow> l' \<le> l \<Longrightarrow> pool_shrinks E r l' p q"
  unfolding pool_shrinks_def by auto

lemma pool_shrinks_next: "pool_inv E p \<Longrightarrow> pool_shrinks E r l p q \<Longrightarrow> mapNextTx p o1 = None \<Longrightarrow> mapNextTx q o1 = None"
  using next_sub [of E p q o1] unfolding pool_shrinks_def by (cases "mapNextTx q o1") auto

text \<open>
  The transactions that spend an output of one of the given list, those that spend an output of a transaction, and all that
  depend on some of the given ones, directly or through others.
\<close>

definition spenders :: "(u256 \<rightharpoonup> CTransaction) \<Rightarrow> u256 \<Rightarrow> nat set \<Rightarrow> u256 set" where
  "spenders m h is = {g. \<exists>t k i. m g = Some t \<and> i \<in> is \<and> spends t k (outpoint h i)}"

definition pool_child :: "(u256 \<rightharpoonup> CTransaction) \<Rightarrow> (u256 \<times> u256) set" where
  "pool_child m = {(h, g). \<exists>tx. m h = Some tx \<and> g \<in> spenders m h {0..<length (vout tx)}}"

definition dependants :: "(u256 \<rightharpoonup> CTransaction) \<Rightarrow> u256 set \<Rightarrow> u256 set" where
  "dependants m A = (pool_child m)\<^sup>* `` A"

lemma spenders_none [simp]: "spenders m h {} = {}"
  by (simp add: spenders_def)

lemma spenders_Cons: "spenders m h (set (i # is)) = spenders m h {i} \<union> spenders m h (set is)"
  by (auto simp: spenders_def)

lemma spenders_restrict: "spenders (m |` (- S)) h is = spenders m h is - S"
  by (auto simp: spenders_def restrict_map_def split: if_splits)

lemma dependants_Un: "dependants m (A \<union> B) = dependants m A \<union> dependants m B"
  by (auto simp: dependants_def)

lemma dependants_empty [simp]: "dependants m {} = {}"
  by (simp add: dependants_def)

lemma dependants_base: "A \<subseteq> dependants m A"
  by (auto simp: dependants_def)

lemma dependants_step: "h \<in> dependants m A \<Longrightarrow> (h, g) \<in> pool_child m \<Longrightarrow> g \<in> dependants m A"
  by (auto simp: dependants_def intro: rtrancl_into_rtrancl)

lemma dependants_idem: "B \<subseteq> dependants m A \<Longrightarrow> dependants m B \<subseteq> dependants m A"
  by (auto simp: dependants_def intro: rtrancl_trans)

lemma dependants_root: "m h = Some tx \<Longrightarrow> dependants m {h} = insert h (dependants m (spenders m h {0..<length (vout tx)}))"
proof -
  assume "m h = Some tx"
  then have "spenders m h {0..<length (vout tx)} = pool_child m `` {h}" by (auto simp: pool_child_def)
  then show ?thesis by (auto simp: dependants_def elim: converse_rtranclE intro: converse_rtrancl_into_rtrancl)
qed

text \<open>Taking out transactions with all that depends on them does not change what depends on the others.\<close>

lemma dependants_restrict: "dependants (m |` (- dependants m A)) B \<union> dependants m A = dependants m B \<union> dependants m A"
proof -
  let ?S = "dependants m A" and ?c = "pool_child (m |` (- dependants m A))"
  have sub: "?c \<subseteq> pool_child m"
    unfolding pool_child_def spenders_restrict by (auto simp: restrict_map_def split: if_splits)
  have edge: "(y, z) \<in> ?c" if "(y, z) \<in> pool_child m" "y \<notin> ?S" "z \<notin> ?S" for y z
    using that by (auto simp: pool_child_def spenders_restrict)
  have "z \<in> ?c\<^sup>* `` B \<union> ?S" if "(y, z) \<in> (pool_child m)\<^sup>*" "y \<in> B" for y z
    using that
  proof (induction rule: rtrancl_induct)
    case (step w z)
    then show ?case using edge [OF step.hyps(2)] dependants_step [OF _ step.hyps(2)] by (auto intro: rtrancl_into_rtrancl)
  qed blast
  moreover have "?c\<^sup>* `` B \<subseteq> (pool_child m)\<^sup>* `` B" using rtrancl_mono [OF sub] by blast
  ultimately show ?thesis unfolding dependants_def [of _ B] by blast
qed

lemma remove_dependants:
  assumes "q = m |` (- dependants m A)" and "s = q |` (- dependants q (B - dependants m A))"
  shows "s = m |` (- dependants m (A \<union> B))"
proof -
  have "dependants m (B \<inter> dependants m A) \<subseteq> dependants m A" by (rule dependants_idem) simp
  moreover have "dependants m B = dependants m (B - dependants m A) \<union> dependants m (B \<inter> dependants m A)"
    by (simp add: dependants_Un [symmetric] Un_Diff_Int)
  ultimately have "dependants q (B - dependants m A) \<union> dependants m A = dependants m (A \<union> B)"
    using dependants_restrict [of m A "B - dependants m A"] assms(1) dependants_Un [of m A B] by blast
  then show ?thesis unfolding assms by (simp add: Compl_Un [symmetric] Un_commute)
qed

lemma spenders_pool:
  assumes "pool_inv E p"
  shows "spenders (mapTx p) h {i} = (case mapNextTx p (outpoint h i) of None \<Rightarrow> {} | Some (g, _) \<Rightarrow> {g})"
proof -
  have "spenders (mapTx p) h {i} = {g. \<exists>k. mapNextTx p (outpoint h i) = Some (g, k)}"
    by (auto simp: spenders_def pool_invD(3) [OF assms])
  then show ?thesis by (cases "mapNextTx p (outpoint h i)") (simp_all split: prod.split)
qed

lemma remove_total:
  shows "pool_inv E p \<Longrightarrow> pool_ranked r p \<Longrightarrow> mapTx p (GetHash E tx) = Some tx \<Longrightarrow> above r p (GetHash E tx) \<le> n \<Longrightarrow> rec \<Longrightarrow>
     \<exists>p'. pool_remove n E tx rec p = Some p' \<and> pool_shrinks E r (r (GetHash E tx)) p p' \<and>
       mapTx p' = mapTx p |` (- dependants (mapTx p) {GetHash E tx})"
    and "pool_inv E p \<Longrightarrow> pool_ranked r p \<Longrightarrow> (\<forall>g \<in> dom (mapTx p). r h < r g \<longrightarrow> above r p g \<le> n) \<Longrightarrow>
     \<exists>p'. remove_spenders n E h is p = Some p' \<and> pool_shrinks E r (Suc (r h)) p p' \<and>
       mapTx p' = mapTx p |` (- dependants (mapTx p) (spenders (mapTx p) h (set is)))"
proof (induction n E tx "rec" p and n E h "is" p rule: pool_remove_remove_spenders.induct)
  case (1 E tx b p)
  then have "above r p (GetHash E tx) > 0" unfolding above_def using pool_invD(4) by (subst card_gt_0_iff) auto
  with 1 show ?case by simp
next
  case (2 n E tx b p)
  let ?h = "GetHash E tx"
  have dom: "?h \<in> dom (mapTx p)" using 2 by auto
  have "above r p g \<le> n" if "r ?h < r g" for g
    using above_less [OF pool_invD(4) [OF "2.prems"(1)] dom that] "2.prems"(4) by simp
  then obtain q where q: "remove_spenders n E ?h [0..<length (vout tx)] p = Some q" "pool_shrinks E r (Suc (r ?h)) p q"
      "mapTx q = mapTx p |` (- dependants (mapTx p) (spenders (mapTx p) ?h {0..<length (vout tx)}))"
    using "2.IH" "2.prems" dom by auto
  have qh: "mapTx q ?h = Some tx" "pool_inv E q" using q(2) "2.prems"(3) unfolding pool_shrinks_def by auto
  define p' where "p' = erase_entry ?h tx q"
  have sub: "mapTx p' \<subseteq>\<^sub>m mapTx q" by (auto simp: p'_def erase_entry_def map_le_def)
  have inv': "pool_inv E p'" unfolding p'_def using qh by (intro pool_inv_erase)
  have "pool_shrinks E r (r ?h) q p'"
    using sub inv' by (auto simp: pool_shrinks_def p'_def erase_entry_def)
  then have "pool_shrinks E r (r ?h) p p'" using pool_shrinks_trans pool_shrinks_weaken [OF q(2)] by (metis le_SucI order_refl)
  moreover have "mapTx p' = mapTx p |` (- dependants (mapTx p) {?h})"
    unfolding dependants_root [of "mapTx p", OF "2.prems"(3)] by (rule ext) (simp add: p'_def erase_entry_def q(3) restrict_map_def)
  ultimately show ?case using "2.prems" q(1) by (simp add: p'_def Let_def)
next
  case (3 n E h p)
  then show ?case by (simp add: pool_shrinks_refl)
next
  case (4 n E h i "is" p)
  show ?case
  proof (cases "mapNextTx p (outpoint h i)")
    case None
    then have "spenders (mapTx p) h {i} = {}" using spenders_pool [OF "4.prems"(1)] by simp
    then have "spenders (mapTx p) h (set (i # is)) = spenders (mapTx p) h (set is)" unfolding spenders_Cons by simp
    with None "4.IH"(1) "4.prems" show ?thesis by simp
  next
    case (Some x)
    then obtain g k where x: "mapNextTx p (outpoint h i) = Some (g, k)" by (cases x) auto
    then obtain t where t: "mapTx p g = Some t" "spends t k (outpoint h i)"
      using pool_invD(3) [OF "4.prems"(1)] by blast
    then have gh: "GetHash E t = g" using pool_invD(1) [OF "4.prems"(1)] by blast
    have "spenders (mapTx p) h {i} = {g}" using spenders_pool [OF "4.prems"(1)] x by simp
    then have sp: "spenders (mapTx p) h (set (i # is)) = {g} \<union> spenders (mapTx p) h (set is)" unfolding spenders_Cons by simp
    have "r h < r g" using t "4.prems"(2) unfolding pool_ranked_def spends_def
      by (metis nth_mem outpoint_def COutPoint.select_convs(1))
    then have "above r p g \<le> n" using "4.prems"(3) t by blast
    then obtain q where q: "pool_remove n E t True p = Some q" "pool_shrinks E r (r g) p q" "mapTx q = mapTx p |` (- dependants (mapTx p) {g})"
      using "4.IH"(2) [OF x refl t(1)] "4.prems" gh t(1) by auto
    have invq: "pool_inv E q" and subq: "mapTx q \<subseteq>\<^sub>m mapTx p" using q(2) by (auto simp: pool_shrinks_def)
    have "\<forall>g \<in> dom (mapTx q). r h < r g \<longrightarrow> above r q g \<le> n"
      using "4.prems"(3) above_mono [OF pool_invD(4) [OF "4.prems"(1)] subq] map_le_implies_dom_le [OF subq]
      by (meson order_trans subsetD)
    then obtain s where s: "remove_spenders n E h is q = Some s" "pool_shrinks E r (Suc (r h)) q s"
        "mapTx s = mapTx q |` (- dependants (mapTx q) (spenders (mapTx q) h (set is)))"
      using "4.IH"(3) [OF x refl t(1) q(1) invq pool_ranked_sub [OF "4.prems"(2) subq]] by blast
    have "spenders (mapTx q) h (set is) = spenders (mapTx p) h (set is) - dependants (mapTx p) {g}" unfolding q(3) spenders_restrict ..
    from remove_dependants [OF q(3) s(3) [unfolded this]] have "mapTx s = mapTx p |` (- dependants (mapTx p) (spenders (mapTx p) h (set (i # is))))"
      unfolding sp .
    moreover have "pool_shrinks E r (Suc (r h)) p s"
      using pool_shrinks_trans [OF pool_shrinks_weaken [OF q(2)] s(2)] \<open>r h < r g\<close> by simp
    ultimately show ?thesis using x t q s by simp
  qed
qed

lemma removed_gone: "mapTx p' = mapTx p |` (- dependants (mapTx p) {g}) \<Longrightarrow> g \<notin> dom (mapTx p')"
  using dependants_base [of "{g}" "mapTx p"] by auto

lemma above_le_card: "finite (dom (mapTx p)) \<Longrightarrow> above r p h \<le> card (dom (mapTx p))"
  unfolding above_def by (intro card_mono) auto

lemma removeConflicts_loop_total:
  assumes "pool_inv E p" and "pool_ranked r p" and "card (dom (mapTx p)) \<le> n"
  shows "\<exists>p'. removeConflicts_loop n E tx is p = Some p' \<and> pool_inv E p' \<and> mapTx p' \<subseteq>\<^sub>m mapTx p \<and>
    (\<forall>i \<in> set is. \<forall>h k. mapNextTx p' (prevout i) = Some (h, k) \<longrightarrow> mapTx p' h = Some tx)"
  using assms
proof (induction "is" arbitrary: p)
  case Nil
  then show ?case by simp
next
  case (Cons i "is")
  have keep: "\<forall>h k. mapNextTx s (prevout i) = Some (h, k) \<longrightarrow> mapTx s h = Some tx"
    if "pool_inv E q" "\<forall>h k. mapNextTx q (prevout i) = Some (h, k) \<longrightarrow> mapTx q h = Some tx"
      "pool_inv E s" "mapTx s \<subseteq>\<^sub>m mapTx q" for q s
    using that next_sub [OF that(1,3,4)] by (metis domIff map_le_def)
  show ?case
  proof (cases "\<exists>g k t. mapNextTx p (prevout i) = Some (g, k) \<and> mapTx p g = Some t \<and> t \<noteq> tx")
    case False
    then have free: "\<forall>h k. mapNextTx p (prevout i) = Some (h, k) \<longrightarrow> mapTx p h = Some tx"
      using pool_invD(3) [OF Cons.prems(1)] by blast
    obtain s where s: "removeConflicts_loop n E tx is p = Some s" "pool_inv E s" "mapTx s \<subseteq>\<^sub>m mapTx p"
        "\<forall>i \<in> set is. \<forall>h k. mapNextTx s (prevout i) = Some (h, k) \<longrightarrow> mapTx s h = Some tx"
      using Cons.IH [OF Cons.prems] by blast
    have "removeConflicts_loop n E tx (i # is) p = Some s"
      using s(1) free by (auto split: option.split)
    with s keep [OF Cons.prems(1) free s(2,3)] show ?thesis by auto
  next
    case True
    then obtain g k t where g: "mapNextTx p (prevout i) = Some (g, k)" "mapTx p g = Some t" "t \<noteq> tx" by blast
    have gh: "GetHash E t = g" using pool_invD(1) [OF Cons.prems(1) g(2)] .
    have "above r p g \<le> n" using above_le_card [OF pool_invD(4) [OF Cons.prems(1)], of r g] Cons.prems(3) by simp
    then obtain q where q: "pool_remove n E t True p = Some q" "pool_shrinks E r (r g) p q" "g \<notin> dom (mapTx q)"
      using remove_total(1) [OF Cons.prems(1,2), of t n True] g(2) gh removed_gone by metis
    have invq: "pool_inv E q" and subq: "mapTx q \<subseteq>\<^sub>m mapTx p" using q(2) by (auto simp: pool_shrinks_def)
    have free: "\<forall>h k. mapNextTx q (prevout i) = Some (h, k) \<longrightarrow> mapTx q h = Some tx"
      using next_sub [OF Cons.prems(1) invq subq, of "prevout i"] g(1) q(3) by fastforce
    have "card (dom (mapTx q)) \<le> n"
      using card_mono [OF pool_invD(4) [OF Cons.prems(1)] map_le_implies_dom_le [OF subq]] Cons.prems(3) by simp
    then obtain s where s: "removeConflicts_loop n E tx is q = Some s" "pool_inv E s" "mapTx s \<subseteq>\<^sub>m mapTx q"
        "\<forall>i \<in> set is. \<forall>h k. mapNextTx s (prevout i) = Some (h, k) \<longrightarrow> mapTx s h = Some tx"
      using Cons.IH [OF invq pool_ranked_sub [OF Cons.prems(2) subq]] by blast
    have "removeConflicts_loop n E tx (i # is) p = Some s" using g q(1) s(1) by simp
    with s keep [OF invq free s(2,3)] map_le_trans [OF s(3) subq] show ?thesis by auto
  qed
qed

section \<open>Properties\<close>

text \<open>Adding a transaction keeps the pool consistent when it is new, its inputs are pairwise different
  and none of them is spent by a pooled transaction, which is what admission checks: afterwards the
  outpoint map is again exactly the relation of outpoints to the pooled inputs that spend them.\<close>

theorem addUnchecked_keeps_pool_inv:
  assumes "pool_inv E p" and "mapTx p (GetHash E tx) = None" and "distinct (map prevout (vin tx))"
    and "\<forall>i \<in> set (vin tx). mapNextTx p (prevout i) = None"
  shows "pool_inv E (addUnchecked (GetHash E tx) tx p) \<and> mapTx (addUnchecked (GetHash E tx) tx p) (GetHash E tx) = Some tx"
  using pool_inv_addUnchecked [OF assms(1) refl assms(2-4)] by (simp add: addUnchecked_def)

theorem addUnchecked_keeps_pool_inv_witness:
  "pool_inv ref_env (addUnchecked (GetHash ref_env (null_tx 3)) (null_tx 3) empty_pool)"
  using addUnchecked_keeps_pool_inv [of ref_env empty_pool "null_tx 3"]
  by (simp add: empty_pool_def null_tx_def pool_inv_def)

text \<open>C22: Recursive removal of a pooled transaction ends within as many nested calls as there are pooled
  transactions, keeps the pool consistent, and removes exactly the transaction and those that depend on it: the pooled
  transactions that spend one of its outputs, those that spend an output of these, and so on. The hypothesis on ranks
  says that no transaction spends, directly or not, its own output.\<close>

theorem pool_remove_recursive:
  assumes "pool_inv E p" and "pool_ranked r p" and "mapTx p (GetHash E tx) = Some tx"
  shows "\<exists>p'. pool_remove (card (dom (mapTx p))) E tx True p = Some p' \<and> pool_inv E p' \<and>
    mapTx p' = mapTx p |` (- dependants (mapTx p) {GetHash E tx})"
  using remove_total(1) [OF assms above_le_card, of True] pool_invD(4) [OF assms(1)] by (auto simp: pool_shrinks_def)

theorem pool_remove_recursive_witness:
  "\<exists>p'. pool_remove 1 ref_env (null_tx 3) True (addUnchecked (GetHash ref_env (null_tx 3)) (null_tx 3) empty_pool) = Some p' \<and>
     pool_inv ref_env p' \<and> GetHash ref_env (null_tx 3) \<notin> dom (mapTx p')"
proof -
  let ?p = "addUnchecked (GetHash ref_env (null_tx 3)) (null_tx 3) empty_pool"
  have inv: "pool_inv ref_env ?p" by (rule pool_inv_addUnchecked) (simp_all add: empty_pool_def null_tx_def pool_inv_def)
  have r: "pool_ranked (\<lambda>_. 0) ?p" by (simp add: pool_ranked_def addUnchecked_def empty_pool_def null_tx_def)
  have m: "mapTx ?p (GetHash ref_env (null_tx 3)) = Some (null_tx 3)" "card (dom (mapTx ?p)) = 1"
    by (simp_all add: addUnchecked_def empty_pool_def)
  from pool_remove_recursive [OF inv r m(1)] m(2) removed_gone show ?thesis by metis
qed

text \<open>After the conflicts of a transaction have been removed, no pooled transaction other than itself
  spends any of its inputs, and the pool is consistent.\<close>

theorem removeConflicts_clears_inputs:
  assumes "pool_inv E p" and "pool_ranked r p"
  shows "\<exists>p'. removeConflicts (card (dom (mapTx p))) E tx p = Some p' \<and> pool_inv E p' \<and> mapTx p' \<subseteq>\<^sub>m mapTx p \<and>
    (\<forall>i \<in> set (vin tx). \<forall>h k. mapNextTx p' (prevout i) = Some (h, k) \<longrightarrow> mapTx p' h = Some tx)"
  unfolding removeConflicts_def using removeConflicts_loop_total [OF assms order_refl] .

theorem removeConflicts_clears_inputs_witness:
  "\<exists>E p p'. mapTx p \<noteq> Map.empty \<and> removeConflicts 1 E ((null_tx 3)\<lparr>vin := [\<lparr>prevout = \<lparr>prev_hash = 5, prev_n = 0\<rparr>, scriptSig = [], nSequence = 1\<rparr>]\<rparr>) p = Some p' \<and>
     pool_inv E p' \<and> mapTx p' \<subseteq>\<^sub>m mapTx p"
proof -
  define E where "E = ref_env\<lparr>SHA256_digest := (\<lambda>_. 7)\<rparr>"
  define t where "t = (null_tx 4)\<lparr>vin := [\<lparr>prevout = \<lparr>prev_hash = 5, prev_n = 0\<rparr>, scriptSig = [], nSequence = 1\<rparr>]\<rparr>"
  define p where "p = addUnchecked 7 t empty_pool"
  have h: "GetHash E x = 7" for x by (simp add: E_def GetHash_def Hash_def Let_def)
  have inv: "pool_inv E p" unfolding p_def
    by (rule pool_inv_addUnchecked) (simp_all add: h empty_pool_def t_def pool_inv_def)
  have r: "pool_ranked (\<lambda>g. if g = 5 then 0 else 1) p"
    by (simp add: pool_ranked_def p_def addUnchecked_def empty_pool_def t_def)
  have m: "mapTx p \<noteq> Map.empty" "card (dom (mapTx p)) = 1" by (simp_all add: p_def addUnchecked_def empty_pool_def)
  from removeConflicts_clears_inputs [OF inv r,
      of "(null_tx 3)\<lparr>vin := [\<lparr>prevout = \<lparr>prev_hash = 5, prev_n = 0\<rparr>, scriptSig = [], nSequence = 1\<rparr>]\<rparr>"] m
  show ?thesis by auto
qed

end
