(* ===== verification/Inputs.thy ===== *)
theory Inputs
  imports Mempool Spend
begin

text \<open>
  Transactions against the chain state, from src/src/main.cpp: the transaction index with its spent
  markers, \<^verbatim>\<open>FetchInputs\<close>, \<^verbatim>\<open>GetOutputFor\<close>, \<^verbatim>\<open>GetValueIn\<close>, \<^verbatim>\<open>GetP2SHSigOpCount\<close>, \<^verbatim>\<open>AreInputsStandard\<close>,
  \<^verbatim>\<open>ConnectInputs\<close>, \<^verbatim>\<open>DisconnectInputs\<close> and the admission rule \<^verbatim>\<open>CTxMemPool::accept\<close>. The database
  behind \<^verbatim>\<open>CTxDB\<close> (src/src/txdb-leveldb.cpp) is the map it stores, with a predicate for the writes
  that succeed; the block files are a partial function from positions to transactions.
\<close>

section \<open>Data\<close>

record CDiskTxPos =
  nFile :: u32
  nBlockPos :: u32
  nTxPos :: u32

definition CDiskTxPos_SetNull :: CDiskTxPos where
  "CDiskTxPos_SetNull = \<lparr>nFile = - 1, nBlockPos = 0, nTxPos = 0\<rparr>"

definition CDiskTxPos_IsNull :: "CDiskTxPos \<Rightarrow> bool" where
  "CDiskTxPos_IsNull d \<longleftrightarrow> nFile d = - 1"

text \<open>The position that marks a transaction known from memory only.\<close>

definition mempool_pos :: CDiskTxPos where
  "mempool_pos = \<lparr>nFile = 1, nBlockPos = 1, nTxPos = 1\<rparr>"

record CTxIndex =
  tx_pos :: CDiskTxPos
  vSpent :: "CDiskTxPos list"

definition CTxIndex_new :: "CDiskTxPos \<Rightarrow> nat \<Rightarrow> CTxIndex" where
  "CTxIndex_new d nOutputs = \<lparr>tx_pos = d, vSpent = replicate nOutputs CDiskTxPos_SetNull\<rparr>"

type_synonym MapPrevTx = "u256 \<rightharpoonup> CTxIndex \<times> CTransaction"

record CTxDB =
  db_index :: "u256 \<rightharpoonup> CTxIndex"
  db_disk :: "CDiskTxPos \<Rightarrow> CTransaction option"
  db_writable :: "u256 \<Rightarrow> bool"

definition ReadTxIndex :: "CTxDB \<Rightarrow> u256 \<Rightarrow> CTxIndex option" where
  "ReadTxIndex db h = db_index db h"

definition UpdateTxIndex :: "CTxDB \<Rightarrow> u256 \<Rightarrow> CTxIndex \<Rightarrow> CTxDB option" where
  "UpdateTxIndex db h txindex =
     (if db_writable db h then Some (db\<lparr>db_index := (db_index db)(h \<mapsto> txindex)\<rparr>) else None)"

definition EraseTxIndex :: "env \<Rightarrow> CTxDB \<Rightarrow> CTransaction \<Rightarrow> CTxDB" where
  "EraseTxIndex E db tx =
     (if db_writable db (GetHash E tx) then db\<lparr>db_index := (db_index db)(GetHash E tx := None)\<rparr> else db)"

definition ContainsTx :: "CTxDB \<Rightarrow> u256 \<Rightarrow> bool" where
  "ContainsTx db h \<longleftrightarrow> db_index db h \<noteq> None"

text \<open>The part of \<^verbatim>\<open>CBlockIndex\<close> used here; a chain is the list of a block and its ancestors.\<close>

record CBlockPos =
  bp_nHeight :: int
  bp_nFile :: u32
  bp_nBlockPos :: u32

section \<open>Fetching\<close>

fun fetch_loop ::
  "CTxDB \<Rightarrow> (u256 \<rightharpoonup> CTxIndex) \<Rightarrow> CTxMemPool \<Rightarrow> bool \<Rightarrow> bool \<Rightarrow> CTxIn list \<Rightarrow> MapPrevTx \<Rightarrow> failure + MapPrevTx" where
  "fetch_loop db mapTestPool pool fBlock fMiner [] inputsRet = Inr inputsRet"
| "fetch_loop db mapTestPool pool fBlock fMiner (i # is) inputsRet =
     (let h = prev_hash (prevout i)
      in if inputsRet h \<noteq> None then fetch_loop db mapTestPool pool fBlock fMiner is inputsRet
         else
           (let found = (if (fBlock \<or> fMiner) \<and> mapTestPool h \<noteq> None then mapTestPool h else ReadTxIndex db h)
            in if found = None \<and> (fBlock \<or> fMiner) then Inl (Rejected 0)
               else
                 (case (case found of
                          Some txindex \<Rightarrow>
                            if tx_pos txindex = mempool_pos
                            then map_option (\<lambda>txPrev. (txindex, txPrev)) (mapTx pool h)
                            else map_option (\<lambda>txPrev. (txindex, txPrev)) (db_disk db (tx_pos txindex))
                        | None \<Rightarrow>
                            map_option (\<lambda>txPrev. (CTxIndex_new CDiskTxPos_SetNull (length (vout txPrev)), txPrev)) (mapTx pool h)) of
                    None \<Rightarrow> Inl (Rejected 0)
                  | Some entry \<Rightarrow> fetch_loop db mapTestPool pool fBlock fMiner is (inputsRet(h \<mapsto> entry)))))"

definition prevout_in_range :: "MapPrevTx \<Rightarrow> CTxIn \<Rightarrow> bool" where
  "prevout_in_range inputs i =
     (case inputs (prev_hash (prevout i)) of
        None \<Rightarrow> False
      | Some (txindex, txPrev) \<Rightarrow>
          unat (prev_n (prevout i)) < length (vout txPrev) \<and> unat (prev_n (prevout i)) < length (vSpent txindex))"

text \<open>A failure comes with the \<^verbatim>\<open>fInvalid\<close> flag: the transaction itself is invalid, not only unknown.\<close>

definition FetchInputs ::
  "CTxDB \<Rightarrow> (u256 \<rightharpoonup> CTxIndex) \<Rightarrow> CTxMemPool \<Rightarrow> bool \<Rightarrow> bool \<Rightarrow> CTransaction \<Rightarrow> MapPrevTx \<Rightarrow> (bool \<times> failure) + MapPrevTx" where
  "FetchInputs db mapTestPool pool fBlock fMiner tx inputs0 =
     (if IsCoinBase tx then Inr inputs0
      else case fetch_loop db mapTestPool pool fBlock fMiner (vin tx) inputs0 of
        Inl e \<Rightarrow> Inl (False, e)
      | Inr inputs \<Rightarrow>
          if \<not> (\<forall>i \<in> set (vin tx). prevout_in_range inputs i) then Inl (True, Rejected 100) else Inr inputs)"

definition GetOutputFor :: "CTxIn \<Rightarrow> MapPrevTx \<Rightarrow> failure + CTxOut" where
  "GetOutputFor input inputs =
     (case inputs (prev_hash (prevout input)) of
        None \<Rightarrow> Inl Thrown
      | Some (txindex, txPrev) \<Rightarrow>
          if unat (prev_n (prevout input)) \<ge> length (vout txPrev) then Inl Thrown
          else Inr (vout txPrev ! unat (prev_n (prevout input))))"

fun value_in_loop :: "MapPrevTx \<Rightarrow> CTxIn list \<Rightarrow> int \<Rightarrow> failure + int" where
  "value_in_loop inputs [] nResult = Inr nResult"
| "value_in_loop inputs (i # is) nResult =
     (case GetOutputFor i inputs of
        Inl e \<Rightarrow> Inl e
      | Inr t \<Rightarrow> value_in_loop inputs is (wrap64 (nResult + nValue t)))"

definition GetValueIn :: "CTransaction \<Rightarrow> MapPrevTx \<Rightarrow> failure + int" where
  "GetValueIn tx inputs = (if IsCoinBase tx then Inr 0 else value_in_loop inputs (vin tx) 0)"

fun p2sh_sigops_loop :: "MapPrevTx \<Rightarrow> CTxIn list \<Rightarrow> nat \<Rightarrow> failure + nat" where
  "p2sh_sigops_loop inputs [] nSigOps = Inr nSigOps"
| "p2sh_sigops_loop inputs (i # is) nSigOps =
     (case GetOutputFor i inputs of
        Inl e \<Rightarrow> Inl e
      | Inr t \<Rightarrow>
          p2sh_sigops_loop inputs is
            (if IsPayToScriptHash (scriptPubKey t)
             then nSigOps + GetSigOpCount_P2SH (scriptPubKey t) (scriptSig i) else nSigOps))"

definition GetP2SHSigOpCount :: "CTransaction \<Rightarrow> MapPrevTx \<Rightarrow> failure + nat" where
  "GetP2SHSigOpCount tx inputs = (if IsCoinBase tx then Inr 0 else p2sh_sigops_loop inputs (vin tx) 0)"

text \<open>One input of \<^verbatim>\<open>AreInputsStandard\<close>; the result is the verdict on it.\<close>

definition input_standard ::
  "env \<Rightarrow> CSignatureCache \<Rightarrow> CTransaction \<Rightarrow> MapPrevTx \<Rightarrow> nat \<Rightarrow> failure + (bool \<times> CSignatureCache)" where
  "input_standard E C tx inputs k =
     (case GetOutputFor (vin tx ! k) inputs of
        Inl e \<Rightarrow> Inl e
      | Inr prev \<Rightarrow>
          (case Solver (scriptPubKey prev) of
             (ok, whichType, sols) \<Rightarrow>
               let nArgsExpected = ScriptSigArgsExpected whichType sols
               in if \<not> ok \<or> nArgsExpected < 0 then Inr (False, C)
                  else
                    (case EvalScript E C [] (scriptSig (vin tx ! k)) tx k 0 of
                       (evalOk, stack, C') \<Rightarrow>
                         if \<not> evalOk then Inr (False, C')
                         else if whichType = TX_SCRIPTHASH then
                           (if stack = [] then Inr (False, C')
                            else
                              (case Solver (hd stack) of
                                 (ok2, whichType2, sols2) \<Rightarrow>
                                   let tmpExpected = ScriptSigArgsExpected whichType2 sols2
                                   in Inr (ok2 \<and> whichType2 \<noteq> TX_SCRIPTHASH \<and> tmpExpected \<ge> 0 \<and>
                                           int (length stack) = nArgsExpected + tmpExpected, C')))
                         else Inr (int (length stack) = nArgsExpected, C'))))"

fun inputs_standard_loop ::
  "env \<Rightarrow> CSignatureCache \<Rightarrow> CTransaction \<Rightarrow> MapPrevTx \<Rightarrow> nat list \<Rightarrow> failure + (bool \<times> CSignatureCache)" where
  "inputs_standard_loop E C tx inputs [] = Inr (True, C)"
| "inputs_standard_loop E C tx inputs (k # ks) =
     (case input_standard E C tx inputs k of
        Inl e \<Rightarrow> Inl e
      | Inr (ok, C') \<Rightarrow> if \<not> ok then Inr (False, C') else inputs_standard_loop E C' tx inputs ks)"

definition AreInputsStandard ::
  "env \<Rightarrow> CSignatureCache \<Rightarrow> CTransaction \<Rightarrow> MapPrevTx \<Rightarrow> failure + (bool \<times> CSignatureCache)" where
  "AreInputsStandard E C tx inputs =
     (if IsCoinBase tx then Inr (True, C)
      else inputs_standard_loop E C tx inputs [0..<length (vin tx)])"

section \<open>Connecting\<close>

text \<open>Walk back from the block while it is less than the maturity deep, looking for the block of the coin.\<close>

fun immature :: "int \<Rightarrow> int \<Rightarrow> CBlockPos list \<Rightarrow> CDiskTxPos \<Rightarrow> bool" where
  "immature maturity tip [] d = False"
| "immature maturity tip (b # bs) d =
     (if \<not> tip - bp_nHeight b < maturity then False
      else (bp_nBlockPos b = nBlockPos d \<and> bp_nFile b = nFile d) \<or> immature maturity tip bs d)"

fun connect_check ::
  "node_params \<Rightarrow> CBlockPos list \<Rightarrow> u32 \<Rightarrow> MapPrevTx \<Rightarrow> CTxIn list \<Rightarrow> int \<Rightarrow> failure + int" where
  "connect_check N chain nTime0 inputs [] nValueIn = Inr nValueIn"
| "connect_check N chain nTime0 inputs (i # is) nValueIn =
     (case inputs (prev_hash (prevout i)) of
        None \<Rightarrow> Inl Aborted
      | Some (txindex, txPrev) \<Rightarrow>
          if \<not> prevout_in_range inputs i then Inl (Rejected 100)
          else if (IsCoinBase txPrev \<or> IsCoinStake txPrev) \<and> chain \<noteq> [] \<and>
                  immature (nCoinbaseMaturity N) (bp_nHeight (hd chain)) chain (tx_pos txindex)
          then Inl (Rejected 0)
          else if nTime txPrev > nTime0 then Inl (Rejected 100)
          else
            (let v = nValue (vout txPrev ! unat (prev_n (prevout i))); nValueIn' = wrap64 (nValueIn + v)
             in if \<not> MoneyRange v \<or> \<not> MoneyRange nValueIn' then Inl (Rejected 100)
                else connect_check N chain nTime0 inputs is nValueIn'))"

fun connect_spend ::
  "env \<Rightarrow> node_params \<Rightarrow> CSignatureCache \<Rightarrow> CTransaction \<Rightarrow> CDiskTxPos \<Rightarrow> bool \<Rightarrow> bool \<Rightarrow> nat list \<Rightarrow> MapPrevTx \<Rightarrow>
     (u256 \<rightharpoonup> CTxIndex) \<Rightarrow> (failure \<times> CSignatureCache) + (MapPrevTx \<times> (u256 \<rightharpoonup> CTxIndex) \<times> CSignatureCache)" where
  "connect_spend E N C tx posThisTx fBlock fMiner [] inputs mapTestPool = Inr (inputs, mapTestPool, C)"
| "connect_spend E N C tx posThisTx fBlock fMiner (k # ks) inputs mapTestPool =
     (let q = prevout (vin tx ! k); h = prev_hash q; n = unat (prev_n q)
      in case inputs h of
           None \<Rightarrow> Inl (Aborted, C)
         | Some (txindex, txPrev) \<Rightarrow>
             if \<not> CDiskTxPos_IsNull (vSpent txindex ! n) then Inl (Rejected 0, C)
             else
               (case (if fBlock \<and> nBestHeight N < TotalBlocksEstimate N then Some (True, C)
                      else VerifySignature E C txPrev tx k 0) of
                  None \<Rightarrow> Inl (Aborted, C)
                | Some (ok, C') \<Rightarrow>
                    if \<not> ok then Inl (Rejected 100, C')
                    else
                      (let txindex' = txindex\<lparr>vSpent := (vSpent txindex)[n := posThisTx]\<rparr>
                       in connect_spend E N C' tx posThisTx fBlock fMiner ks (inputs(h \<mapsto> (txindex', txPrev)))
                            (if fBlock \<or> fMiner then mapTestPool(h \<mapsto> txindex') else mapTestPool))))"

text \<open>The fee rules after the loops, for transactions that are not coinstakes.\<close>

definition connect_fees :: "CTransaction \<Rightarrow> bool \<Rightarrow> int \<Rightarrow> failure + unit" where
  "connect_fees tx fBlock nValueIn =
     (case GetValueOut tx of
        None \<Rightarrow> Inl Thrown
      | Some nValueOut \<Rightarrow>
          if nValueIn < nValueOut then Inl (Rejected 100)
          else
            (let nTxFee = wrap64 (nValueIn - nValueOut)
             in if nTxFee < 0 then Inl (Rejected 100)
                else if nTxFee < GetMinFee tx 1 GMF_BLOCK 0 then Inl (Rejected (if fBlock then 100 else 0))
                else if \<not> MoneyRange nTxFee then Inl (Rejected 100)
                else Inr ()))"

definition ConnectInputs ::
  "env \<Rightarrow> node_params \<Rightarrow> CSignatureCache \<Rightarrow> CTransaction \<Rightarrow> MapPrevTx \<Rightarrow> (u256 \<rightharpoonup> CTxIndex) \<Rightarrow> CDiskTxPos \<Rightarrow>
     CBlockPos list \<Rightarrow> bool \<Rightarrow> bool \<Rightarrow> (failure \<times> CSignatureCache) + ((u256 \<rightharpoonup> CTxIndex) \<times> CSignatureCache)" where
  "ConnectInputs E N C tx inputs mapTestPool posThisTx chain fBlock fMiner =
     (if IsCoinBase tx then Inr (mapTestPool, C)
      else case connect_check N chain (nTime tx) inputs (vin tx) 0 of
        Inl e \<Rightarrow> Inl (e, C)
      | Inr nValueIn \<Rightarrow>
          (case connect_spend E N C tx posThisTx fBlock fMiner [0..<length (vin tx)] inputs mapTestPool of
             Inl e \<Rightarrow> Inl e
           | Inr (inputs', mapTestPool', C') \<Rightarrow>
               if IsCoinStake tx then Inr (mapTestPool', C')
               else (case connect_fees tx fBlock nValueIn of
                       Inl e \<Rightarrow> Inl (e, C')
                     | Inr _ \<Rightarrow> Inr (mapTestPool', C'))))"

section \<open>Disconnecting\<close>

fun disconnect_loop :: "CTxIn list \<Rightarrow> CTxDB \<Rightarrow> CTxDB option" where
  "disconnect_loop [] db = Some db"
| "disconnect_loop (i # is) db =
     (let h = prev_hash (prevout i); n = unat (prev_n (prevout i))
      in case ReadTxIndex db h of
           None \<Rightarrow> None
         | Some txindex \<Rightarrow>
             if n \<ge> length (vSpent txindex) then None
             else (case UpdateTxIndex db h (txindex\<lparr>vSpent := (vSpent txindex)[n := CDiskTxPos_SetNull]\<rparr>) of
                     None \<Rightarrow> None
                   | Some db' \<Rightarrow> disconnect_loop is db'))"

definition DisconnectInputs :: "env \<Rightarrow> CTransaction \<Rightarrow> CTxDB \<Rightarrow> CTxDB option" where
  "DisconnectInputs E tx db =
     (case (if IsCoinBase tx then Some db else disconnect_loop (vin tx) db) of
        None \<Rightarrow> None
      | Some db' \<Rightarrow> Some (EraseTxIndex E db' tx))"

section \<open>Admission to the memory pool\<close>

text \<open>
  \<^verbatim>\<open>CTxMemPool::accept\<close>. A rejection comes with the value of \<^verbatim>\<open>*pfMissingInputs\<close>. The replacement branch
  after the unconditional \<^verbatim>\<open>return false\<close> is unreachable in the source and absent here. The
  exponentially decaying counter of the free-transaction limiter is floating-point state; its
  decision for this call is the argument \<open>limited\<close>.
\<close>

definition accept_inputs ::
  "env \<Rightarrow> node_params \<Rightarrow> CSignatureCache \<Rightarrow> CTxDB \<Rightarrow> CTxMemPool \<Rightarrow> CBlockPos list \<Rightarrow> bool \<Rightarrow> CTransaction
     \<Rightarrow> (failure \<times> bool \<times> CSignatureCache) + CSignatureCache" where
  "accept_inputs E N C db pool chain limited tx =
     (case FetchInputs db Map.empty pool False False tx Map.empty of
        Inl (fInvalid, e) \<Rightarrow> Inl (e, \<not> fInvalid, C)
      | Inr mapInputs \<Rightarrow>
          (case AreInputsStandard E C tx mapInputs of
             Inl e \<Rightarrow> Inl (e, False, C)
           | Inr (std, C1) \<Rightarrow>
               if \<not> std \<and> \<not> fTestNet N then Inl (Rejected 0, False, C1)
               else
                 (case (GetValueIn tx mapInputs, GetValueOut tx) of
                    (Inr valueIn, Some valueOut) \<Rightarrow>
                      (let nFees = wrap64 (valueIn - valueOut);
                           nSize = word_of_nat (GetSerializeSize_CTransaction tx);
                           txMinFee = GetMinFee tx 1000 GMF_RELAY nSize
                       in if nFees < txMinFee then Inl (Rejected 0, False, C1)
                          else if nFees < MIN_RELAY_TX_FEE \<and> limited then Inl (Rejected 0, False, C1)
                          else (case ConnectInputs E N C1 tx mapInputs Map.empty mempool_pos chain False False of
                                  Inl (e, C2) \<Rightarrow> Inl (e, False, C2)
                                | Inr (_, C2) \<Rightarrow> Inr C2))
                  | _ \<Rightarrow> Inl (Thrown, False, C1))))"

definition accept ::
  "env \<Rightarrow> node_params \<Rightarrow> CSignatureCache \<Rightarrow> CTxDB \<Rightarrow> CTxMemPool \<Rightarrow> CBlockPos list \<Rightarrow> bool \<Rightarrow> CTransaction \<Rightarrow> bool
     \<Rightarrow> (failure \<times> bool \<times> CSignatureCache) + (CTxMemPool \<times> CSignatureCache)" where
  "accept E N C db pool chain limited tx fCheckInputs =
     (case CheckTransaction tx of
        Inl e \<Rightarrow> Inl (e, False, C)
      | Inr _ \<Rightarrow>
          (let h = GetHash E tx
           in if IsCoinBase tx then Inl (Rejected 100, False, C)
              else if IsCoinStake tx then Inl (Rejected 100, False, C)
              else if uint (nLockTime tx) > 2 ^ 31 - 1 then Inl (Rejected 0, False, C)
              else if mapTx pool h \<noteq> None then Inl (Rejected 0, False, C)
              else if fCheckInputs \<and> ContainsTx db h then Inl (Rejected 0, False, C)
              else if (\<exists>i \<in> set (vin tx). mapNextTx pool (prevout i) \<noteq> None) then Inl (Rejected 0, False, C)
              else if fCheckInputs then
                (case accept_inputs E N C db pool chain limited tx of
                   Inl e \<Rightarrow> Inl e
                 | Inr C' \<Rightarrow> Inr (addUnchecked h tx pool, C'))
              else Inr (addUnchecked h tx pool, C)))"

text \<open>The sum of the outputs the inputs refer to, where the map knows them.\<close>

definition input_value :: "MapPrevTx \<Rightarrow> CTxIn \<Rightarrow> int" where
  "input_value inputs i =
     (case inputs (prev_hash (prevout i)) of
        None \<Rightarrow> 0
      | Some (txindex, txPrev) \<Rightarrow> nValue (vout txPrev ! unat (prev_n (prevout i))))"

definition input_checked :: "node_params \<Rightarrow> CBlockPos list \<Rightarrow> u32 \<Rightarrow> MapPrevTx \<Rightarrow> CTxIn \<Rightarrow> bool" where
  "input_checked N chain t inputs i \<longleftrightarrow>
     (\<exists>txindex txPrev. inputs (prev_hash (prevout i)) = Some (txindex, txPrev) \<and> prevout_in_range inputs i \<and>
      nTime txPrev \<le> t \<and>
      \<not> ((IsCoinBase txPrev \<or> IsCoinStake txPrev) \<and> chain \<noteq> [] \<and>
         immature (nCoinbaseMaturity N) (bp_nHeight (hd chain)) chain (tx_pos txindex)))"

lemma value_out_loop_range: "MoneyRange acc \<Longrightarrow> value_out_loop acc ts = Some v \<Longrightarrow> MoneyRange v"
  by (induction acc ts rule: value_out_loop.induct) (auto simp: Let_def split: if_splits)

lemma connect_check_step:
  assumes "MoneyRange acc" and "connect_check N chain t inputs (i # is) acc = Inr v"
  shows "input_checked N chain t inputs i"
    and "MoneyRange (input_value inputs i)" and "MoneyRange (acc + input_value inputs i)"
    and "connect_check N chain t inputs is (acc + input_value inputs i) = Inr v"
proof -
  obtain txindex txPrev where i: "inputs (prev_hash (prevout i)) = Some (txindex, txPrev)"
    using assms(2) by (cases "inputs (prev_hash (prevout i))") auto
  have iv: "input_value inputs i = nValue (vout txPrev ! unat (prev_n (prevout i)))"
    using i by (simp add: input_value_def)
  from assms(2) i have a: "prevout_in_range inputs i" "\<not> nTime txPrev > t"
      "\<not> ((IsCoinBase txPrev \<or> IsCoinStake txPrev) \<and> chain \<noteq> [] \<and>
         immature (nCoinbaseMaturity N) (bp_nHeight (hd chain)) chain (tx_pos txindex))"
      "MoneyRange (input_value inputs i)"
    unfolding iv by (auto simp: Let_def split: if_splits)
  have w: "wrap64 (acc + input_value inputs i) = acc + input_value inputs i"
    using assms(1) a(4) by (rule MoneyRange_add_wrap)
  have "MoneyRange (acc + input_value inputs i) \<and> connect_check N chain t inputs is (acc + input_value inputs i) = Inr v"
    using assms(2) i a w unfolding iv by (auto simp: Let_def split: if_splits)
  with a i show "input_checked N chain t inputs i"
    "MoneyRange (input_value inputs i)" "MoneyRange (acc + input_value inputs i)"
    "connect_check N chain t inputs is (acc + input_value inputs i) = Inr v"
    unfolding input_checked_def by (auto simp: not_less)
qed

lemma connect_check_sound:
  assumes "MoneyRange acc" and "connect_check N chain t inputs is acc = Inr v"
  shows "(\<forall>i \<in> set is. input_checked N chain t inputs i \<and> MoneyRange (input_value inputs i)) \<and>
    v = acc + sum_list (map (input_value inputs) is) \<and> MoneyRange v"
  using assms
proof (induction "is" arbitrary: acc)
  case (Cons i "is")
  note s = connect_check_step [OF Cons.prems]
  from Cons.IH [OF s(3,4)] s(1,2) show ?case
    by (auto simp: add.assoc)
qed simp


text \<open>How the second loop changes the fetched index: it only writes the new position into spent markers.\<close>

definition spent_by :: "CDiskTxPos \<Rightarrow> MapPrevTx \<Rightarrow> MapPrevTx \<Rightarrow> bool" where
  "spent_by d I J \<longleftrightarrow>
     (\<forall>h idx' t. J h = Some (idx', t) \<longrightarrow>
        (\<exists>idx. I h = Some (idx, t) \<and> length (vSpent idx') = length (vSpent idx) \<and>
           (\<forall>n < length (vSpent idx). vSpent idx' ! n = vSpent idx ! n \<or> vSpent idx' ! n = d)))"

definition spent_mark :: "MapPrevTx \<Rightarrow> COutPoint \<Rightarrow> CDiskTxPos" where
  "spent_mark I q = (case I (prev_hash q) of None \<Rightarrow> CDiskTxPos_SetNull | Some (idx, t) \<Rightarrow> vSpent idx ! unat (prev_n q))"

lemma spent_by_refl [simp]: "spent_by d I I"
  by (auto simp: spent_by_def)

lemma spent_by_update:
  assumes "spent_by d I J" and "J h = Some (idx, t)"
  shows "spent_by d I (J(h \<mapsto> (idx\<lparr>vSpent := (vSpent idx)[n := d]\<rparr>, t)))"
proof -
  obtain idx0 where "I h = Some (idx0, t)" "length (vSpent idx) = length (vSpent idx0)"
      "\<forall>m < length (vSpent idx0). vSpent idx ! m = vSpent idx0 ! m \<or> vSpent idx ! m = d"
    using assms unfolding spent_by_def by blast
  then show ?thesis
    using assms(1) unfolding spent_by_def by auto (metis nth_list_update_eq nth_list_update_neq)
qed

definition in_range_of :: "MapPrevTx \<Rightarrow> COutPoint \<Rightarrow> bool" where
  "in_range_of I q \<longleftrightarrow> (\<exists>idx t. I (prev_hash q) = Some (idx, t) \<and> unat (prev_n q) < length (vSpent idx))"

text \<open>The signature of input \<open>k\<close> verifies against the output it spends.\<close>

definition input_verified :: "env \<Rightarrow> CTransaction \<Rightarrow> MapPrevTx \<Rightarrow> nat \<Rightarrow> bool" where
  "input_verified E tx I k \<longleftrightarrow>
     (\<exists>idx t. I (prev_hash (prevout (vin tx ! k))) = Some (idx, t) \<and>
        GetHash E t = prev_hash (prevout (vin tx ! k)) \<and>
        unat (prev_n (prevout (vin tx ! k))) < length (vout t) \<and>
        fst (VerifyScript E empty_cache (scriptSig (vin tx ! k))
               (scriptPubKey (vout t ! unat (prev_n (prevout (vin tx ! k))))) tx k 0))"

lemma VerifySignature_sound:
  assumes "cache_inv E C" and "VerifySignature E C t tx k 0 = Some (ok, C')"
  shows "cache_inv E C'" and "ok \<Longrightarrow> I (prev_hash (prevout (vin tx ! k))) = Some (idx, t) \<Longrightarrow> input_verified E tx I k"
proof -
  let ?n = "unat (prev_n (prevout (vin tx ! k)))"
  note tr = VerifyScript_transparent [OF assms(1) cache_inv_empty, of "scriptSig (vin tx ! k)" "scriptPubKey (vout t ! ?n)" tx k 0]
  show "cache_inv E C'"
    using assms tr by (auto simp: VerifySignature_def Let_def split: if_splits)
  assume ok and I: "I (prev_hash (prevout (vin tx ! k))) = Some (idx, t)"
  with assms(2) have "?n < length (vout t)" "prev_hash (prevout (vin tx ! k)) = GetHash E t"
      "VerifyScript E C (scriptSig (vin tx ! k)) (scriptPubKey (vout t ! ?n)) tx k 0 = (True, C')"
    by (auto simp: VerifySignature_def Let_def split: if_splits)
  with tr I show "input_verified E tx I k" by (auto simp: input_verified_def)
qed


lemma connect_spend_sound:
  assumes "connect_spend E N C tx d fBlock fMiner ks J T = Inr (J', T', C')"
    and "cache_inv E C" and "spent_by d I J" and d: "\<not> CDiskTxPos_IsNull d"
    and "\<forall>k \<in> set ks. in_range_of I (prevout (vin tx ! k))"
  shows "cache_inv E C' \<and> spent_by d I J' \<and>
    (\<forall>k \<in> set ks. CDiskTxPos_IsNull (spent_mark J (prevout (vin tx ! k))) \<and>
       CDiskTxPos_IsNull (spent_mark I (prevout (vin tx ! k))) \<and>
       (\<not> (fBlock \<and> nBestHeight N < TotalBlocksEstimate N) \<longrightarrow> input_verified E tx I k)) \<and>
    distinct (map (\<lambda>k. prevout (vin tx ! k)) ks)"
  using assms
proof (induction ks arbitrary: C J T)
  case (Cons k ks)
  let ?q = "prevout (vin tx ! k)"
  let ?h = "prev_hash ?q" and ?n = "unat (prev_n ?q)"
  let ?skip = "fBlock \<and> nBestHeight N < TotalBlocksEstimate N"
  obtain idx t where J: "J ?h = Some (idx, t)"
    using Cons.prems(1) by (cases "J ?h") (auto simp: Let_def)
  obtain idx0 where I: "I ?h = Some (idx0, t)" "length (vSpent idx) = length (vSpent idx0)"
      "\<forall>m < length (vSpent idx0). vSpent idx ! m = vSpent idx0 ! m \<or> vSpent idx ! m = d"
    using Cons.prems(3) J unfolding spent_by_def by blast
  have n: "?n < length (vSpent idx0)" using Cons.prems(5) I by (auto simp: in_range_of_def)
  have null: "CDiskTxPos_IsNull (vSpent idx ! ?n)"
    using Cons.prems(1) J by (auto simp: Let_def split: if_splits)
  obtain D where v: "(if ?skip then Some (True, C) else VerifySignature E C t tx k 0) = Some (True, D)"
    using Cons.prems(1) J null by (auto simp: Let_def split: if_splits option.splits prod.splits)
  define K where "K = J(?h \<mapsto> (idx\<lparr>vSpent := (vSpent idx)[?n := d]\<rparr>, t))"
  obtain T1 where rest: "connect_spend E N D tx d fBlock fMiner ks K T1 = Inr (J', T', C')"
    using Cons.prems(1) J null v by (auto simp: Let_def K_def split: if_splits)
  have invD: "cache_inv E D" using v Cons.prems(2) VerifySignature_sound(1) by (auto split: if_splits)
  have ver: "\<not> ?skip \<longrightarrow> input_verified E tx I k"
    using v Cons.prems(2) VerifySignature_sound(2) I(1) by (auto split: if_splits)
  have extK: "spent_by d I K" unfolding K_def by (rule spent_by_update [OF Cons.prems(3) J])
  note IH = Cons.IH [OF rest invD extK d]
  have kq: "spent_mark K q = d" if "q = ?q" for q
    using that n I(2) by (simp add: spent_mark_def K_def)
  have other: "spent_mark K q = spent_mark J q" if "q \<noteq> ?q" for q
  proof (cases "prev_hash q = ?h")
    case True
    with that have "?n \<noteq> unat (prev_n q)" by (metis COutPoint.equality old.unit.exhaust word_unat_eq_iff)
    with True J show ?thesis by (simp add: spent_mark_def K_def nth_list_update_neq)
  qed (simp add: spent_mark_def K_def)
  have fresh: "?q \<notin> (\<lambda>k. prevout (vin tx ! k)) ` set ks"
    using IH Cons.prems(5) kq d by auto
  moreover have "spent_mark K (prevout (vin tx ! j)) = spent_mark J (prevout (vin tx ! j))" if "j \<in> set ks" for j
    using other [of "prevout (vin tx ! j)"] fresh that by (metis imageI)
  moreover have "CDiskTxPos_IsNull (spent_mark I ?q)"
    using I(1,3) n null d by (auto simp: spent_mark_def)
  moreover have "CDiskTxPos_IsNull (spent_mark J ?q)" using J null by (simp add: spent_mark_def)
  ultimately show ?case using IH Cons.prems(5) ver by auto
qed simp


lemma in_range_of_checked: "input_checked N chain t I i \<Longrightarrow> in_range_of I (prevout i)"
  by (auto simp: input_checked_def prevout_in_range_def in_range_of_def)

text \<open>What a transaction that connects has been shown to satisfy.\<close>

definition inputs_valid :: "env \<Rightarrow> node_params \<Rightarrow> CBlockPos list \<Rightarrow> CTransaction \<Rightarrow> MapPrevTx \<Rightarrow> bool \<Rightarrow> bool" where
  "inputs_valid E N chain tx I sigs \<longleftrightarrow>
     distinct (map prevout (vin tx)) \<and>
     (\<forall>i \<in> set (vin tx). input_checked N chain (nTime tx) I i \<and> MoneyRange (input_value I i) \<and>
        CDiskTxPos_IsNull (spent_mark I (prevout i))) \<and>
     (sigs \<longrightarrow> (\<forall>k < length (vin tx). input_verified E tx I k))"

lemma ConnectInputs_valid:
  assumes "ConnectInputs E N C tx I T d chain fBlock fMiner = Inr (T', C')" and "cache_inv E C"
    and "\<not> IsCoinBase tx" and "\<not> CDiskTxPos_IsNull d"
  shows "inputs_valid E N chain tx I (\<not> (fBlock \<and> nBestHeight N < TotalBlocksEstimate N))"
    and "cache_inv E C'"
    and "\<not> IsCoinStake tx \<Longrightarrow>
      \<exists>out. GetValueOut tx = Some out \<and> out + MIN_TX_FEE \<le> sum_list (map (input_value I) (vin tx))"
proof -
  obtain v where v: "connect_check N chain (nTime tx) I (vin tx) 0 = Inr v"
    using assms(1,3) by (auto simp: ConnectInputs_def split: sum.splits)
  obtain J' T1 C1 where s: "connect_spend E N C tx d fBlock fMiner [0..<length (vin tx)] I T = Inr (J', T1, C1)" "C' = C1"
    using assms(1,3) v by (auto simp: ConnectInputs_def split: sum.splits if_splits)
  note c = connect_check_sound [OF MoneyRange_0 v]
  have r: "\<forall>k \<in> set [0..<length (vin tx)]. in_range_of I (prevout (vin tx ! k))"
    using c in_range_of_checked by (metis atLeastLessThan_iff atLeastLessThan_upt nth_mem)
  note sp = connect_spend_sound [OF s(1) assms(2) spent_by_refl assms(4) r]
  have m: "map (\<lambda>k. prevout (vin tx ! k)) [0..<length (vin tx)] = map prevout (vin tx)"
    by (rule nth_equalityI) simp_all
  show "inputs_valid E N chain tx I (\<not> (fBlock \<and> nBestHeight N < TotalBlocksEstimate N))"
    unfolding inputs_valid_def using c sp by (auto simp: m in_set_conv_nth)
  show "cache_inv E C'" using sp s(2) by simp
  assume "\<not> IsCoinStake tx"
  then have f: "connect_fees tx fBlock v = Inr ()"
    using assms(1,3) v s by (auto simp: ConnectInputs_def split: sum.splits)
  then obtain out where o1: "GetValueOut tx = Some out" "out \<le> v" "\<not> wrap64 (v - out) < GetMinFee tx 1 GMF_BLOCK 0"
      "MoneyRange (wrap64 (v - out))"
    by (auto simp: connect_fees_def Let_def split: option.splits if_splits)
  have "MoneyRange out" using o1(1) value_out_loop_range [OF MoneyRange_0] by (simp add: GetValueOut_def)
  then have "wrap64 (v - out) = v - out"
    using c by (intro wrap64_id) (auto simp: MoneyRange_def MAX_MONEY_small int64_range_def)
  moreover have "MIN_TX_FEE \<le> GetMinFee tx 1 GMF_BLOCK 0" using GetMinFee_range(1) by simp
  ultimately show "\<exists>out. GetValueOut tx = Some out \<and> out + MIN_TX_FEE \<le> sum_list (map (input_value I) (vin tx))"
    using o1 c by auto
qed


lemma input_standard_cache:
  assumes "cache_inv E C" and "input_standard E C tx I k = Inr (b, C')"
  shows "cache_inv E C'"
proof -
  have e: "cache_inv E (snd (snd (EvalScript E C s sc t n ht)))" for s sc t n ht
    using EvalScript_transparent(3) [OF assms(1) assms(1)] .
  obtain ok st C1 where es: "EvalScript E C [] (scriptSig (vin tx ! k)) tx k 0 = (ok, st, C1)" by (metis prod_cases3)
  with e [of "[]" "scriptSig (vin tx ! k)" tx k 0] have "cache_inv E C1" by simp
  moreover have "C' = C \<or> C' = C1"
    using assms(2) es by (auto simp: input_standard_def Let_def split: sum.splits prod.splits if_splits)
  ultimately show ?thesis using assms(1) by blast
qed

lemma AreInputsStandard_cache:
  assumes "cache_inv E C" and "AreInputsStandard E C tx I = Inr (b, C')"
  shows "cache_inv E C'"
proof -
  have "cache_inv E D \<Longrightarrow> inputs_standard_loop E D tx I ks = Inr (b, C') \<Longrightarrow> cache_inv E C'" for D ks
    by (induction ks arbitrary: D) (auto split: sum.splits prod.splits if_splits dest: input_standard_cache)
  with assms show ?thesis by (auto simp: AreInputsStandard_def split: if_splits)
qed

lemma mempool_pos_not_null: "\<not> CDiskTxPos_IsNull mempool_pos"
  by (simp add: mempool_pos_def CDiskTxPos_IsNull_def)

lemma accept_inputs_sound:
  assumes "accept_inputs E N C db p chain limited tx = Inr C'" and "cache_inv E C"
    and "\<not> IsCoinBase tx" and "\<not> IsCoinStake tx"
  shows "cache_inv E C' \<and> (\<exists>I. FetchInputs db Map.empty p False False tx Map.empty = Inr I \<and>
    inputs_valid E N chain tx I True \<and>
    (\<exists>out. GetValueOut tx = Some out \<and> out + MIN_TX_FEE \<le> sum_list (map (input_value I) (vin tx))))"
proof -
  obtain I where I: "FetchInputs db Map.empty p False False tx Map.empty = Inr I"
    using assms(1) by (auto simp: accept_inputs_def split: sum.splits)
  obtain b C1 where a: "AreInputsStandard E C tx I = Inr (b, C1)"
    using assms(1) I by (auto simp: accept_inputs_def split: sum.splits)
  obtain T' where c: "ConnectInputs E N C1 tx I Map.empty mempool_pos chain False False = Inr (T', C')"
    using assms(1) I a
    by (auto simp: accept_inputs_def Let_def split: sum.splits option.splits if_splits)
  have inv1: "cache_inv E C1" using AreInputsStandard_cache [OF assms(2) a] .
  from ConnectInputs_valid [OF c inv1 assms(3) mempool_pos_not_null] assms(4) I show ?thesis by auto
qed

lemma accept_inputs_limiter:
  "accept_inputs E N C db p chain l tx = accept_inputs E N C db p chain l' tx"
proof -
  have "\<not> (f < MIN_RELAY_TX_FEE)" if "\<not> f < GetMinFee tx 1000 GMF_RELAY n" for f n
    using that GetMinFee_range(1) [of tx 1000 GMF_RELAY n] by (simp add: MIN_RELAY_TX_FEE_def)
  then show ?thesis
    unfolding accept_inputs_def Let_def by (auto split: sum.split option.split)
qed

section \<open>Properties\<close>

text \<open>C11: What acceptance to the memory pool establishes. If \<open>accept\<close> succeeds with input checks
on a pool and a signature cache that satisfy their invariants, then the new pool and cache satisfy
them too, the transaction is stored under its hash, and with the inputs \<open>FetchInputs\<close> found for it:
no outpoint is named twice, every spent output exists, is mature, is not younger than the
transaction, is in the money range and was marked unspent, every input script verifies without any
cache, and the inputs exceed the outputs by at least the minimal fee.\<close>

theorem accept_sound:
  assumes "pool_inv E p" and "cache_inv E C"
    and "accept E N C db p chain limited tx True = Inr (p', C')"
  shows "pool_inv E p' \<and> cache_inv E C' \<and> mapTx p' (GetHash E tx) = Some tx \<and>
    (\<exists>I. FetchInputs db Map.empty p False False tx Map.empty = Inr I \<and> inputs_valid E N chain tx I True \<and>
      (\<exists>out. GetValueOut tx = Some out \<and> out + MIN_TX_FEE \<le> sum_list (map (input_value I) (vin tx))))"
proof -
  from assms(3) have c: "CheckTransaction tx = Inr ()" "\<not> IsCoinBase tx" "\<not> IsCoinStake tx"
      "mapTx p (GetHash E tx) = None" "\<not> (\<exists>i \<in> set (vin tx). mapNextTx p (prevout i) \<noteq> None)"
    by (simp_all add: accept_def Let_def split: sum.splits if_splits)
  with assms(3) have a: "accept_inputs E N C db p chain limited tx = Inr C'" "p' = addUnchecked (GetHash E tx) tx p"
    by (auto simp: accept_def Let_def split: sum.splits if_splits)
  from accept_inputs_sound [OF a(1) assms(2) c(2,3)] have s: "cache_inv E C' \<and> (\<exists>I. FetchInputs db Map.empty p False False tx Map.empty = Inr I \<and>
    inputs_valid E N chain tx I True \<and>
    (\<exists>out. GetValueOut tx = Some out \<and> out + MIN_TX_FEE \<le> sum_list (map (input_value I) (vin tx))))" .
  then have "distinct (map prevout (vin tx))" by (auto simp: inputs_valid_def)
  then have "pool_inv E p'" unfolding a(2) using assms(1) c(4,5) by (intro pool_inv_addUnchecked refl) blast+
  with s a(2) show ?thesis by (simp add: addUnchecked_def)
qed


text \<open>C16: The rate limiter for free transactions in \<open>accept\<close> has no effect: whatever the limiter
answers, the outcome is the same, because a fee that passes the \<open>GetMinFee\<close> test before it is never
below \<open>MIN_RELAY_TX_FEE\<close>.\<close>

theorem accept_limiter_dead: "accept E N C db p chain l tx fCheck = accept E N C db p chain l' tx fCheck"
  unfolding accept_def accept_inputs_limiter [of E N C db p chain l tx l'] ..

text \<open>C12: A transaction other than a coinbase that connects, in a block or in the pool, spends outputs that exist and were
unspent, each once, from mature transactions that are not younger. Its input scripts verify against
those outputs, except in a block while the best chain is lower than the last checkpoint, where they are not
run; and unless it is a coinstake, which may create money, it pays at least the minimal fee. The signature cache stays sound.\<close>

theorem ConnectInputs_sound:
  assumes "ConnectInputs E N C tx I T d chain fBlock fMiner = Inr (T', C')" and "cache_inv E C"
    and "\<not> IsCoinBase tx" and "\<not> CDiskTxPos_IsNull d"
  shows "inputs_valid E N chain tx I (\<not> (fBlock \<and> nBestHeight N < TotalBlocksEstimate N)) \<and> cache_inv E C' \<and>
    (\<not> IsCoinStake tx \<longrightarrow>
      (\<exists>out. GetValueOut tx = Some out \<and> out + MIN_TX_FEE \<le> sum_list (map (input_value I) (vin tx))))"
  using ConnectInputs_valid [OF assms] by blast

section \<open>A concrete run\<close>

text \<open>An environment whose hash of a transaction is the length of its serialization.\<close>

definition len_env :: env where
  "len_env = ref_env\<lparr>SHA256_digest := (\<lambda>bs. if length bs = 32 then word_of_nat (le_val bs) else word_of_nat (length bs))\<rparr>"

definition prev_sample :: CTransaction where
  "prev_sample = \<lparr>nVersion = 1, nTime = 0, vin = [], vout = [\<lparr>nValue = 50000, scriptPubKey = [0x51]\<rparr>], nLockTime = 0\<rparr>"

definition tx_sample :: CTransaction where
  "tx_sample = \<lparr>nVersion = 1, nTime = 5, vin = [\<lparr>prevout = \<lparr>prev_hash = 24, prev_n = 0\<rparr>, scriptSig = [], nSequence = 0\<rparr>],
     vout = [\<lparr>nValue = 30000, scriptPubKey = [0x51]\<rparr>], nLockTime = 0\<rparr>"

definition db_sample :: CTxDB where
  "db_sample = \<lparr>db_index = [24 \<mapsto> CTxIndex_new \<lparr>nFile = 1, nBlockPos = 8, nTxPos = 9\<rparr> 1],
     db_disk = (\<lambda>d. if d = \<lparr>nFile = 1, nBlockPos = 8, nTxPos = 9\<rparr> then Some prev_sample else None), db_writable = (\<lambda>_. True)\<rparr>"

definition params_sample :: node_params where
  "params_sample = \<lparr>fTestNet = True, fEnforceCanonical = False, nCoinbaseMaturity = 10, nBestHeight = 100,
     AdjustedTime = 0, TotalBlocksEstimate = 0\<rparr>"

lemma bn_doc_len_env [simp]: "bn_doc len_env"
  using bn_doc_ref_env by (simp add: bn_doc_def len_env_def)

lemma sample_hashes: "GetHash len_env prev_sample = 24" "GetHash len_env tx_sample = 65"
  "GetSerializeSize_CTransaction tx_sample = 65"
proof -
  have s: "GetSerializeSize_CTransaction prev_sample = 24" "GetSerializeSize_CTransaction tx_sample = 65"
    by code_simp+
  then show "GetSerializeSize_CTransaction tx_sample = 65" by simp
  have "GetHash len_env t = word_of_nat (length (Serialize_CTransaction t))"
    if "length (Serialize_CTransaction t) \<noteq> 32" for t
    using that by (simp add: GetHash_def Hash_def len_env_def Let_def uint256_bytes_def unsigned_less [where ?'b = 256, simplified])
  with s show "GetHash len_env prev_sample = 24" "GetHash len_env tx_sample = 65"
    unfolding tx.sz_ser by auto
qed


lemma sample_script: "VerifyScript len_env C [] [0x51] t k 0 = (True, C)"
proof -
  have e: "EncodeOP_N 1 = Some 0x51" by (simp add: EncodeOP_N_def)
  have "eval_loop len_env t k 0 [0x51] \<lparr>es_pbegincodehash = [0x51], es_stack = [], es_altstack = [], es_vfExec = [], es_nOpCount = 0, es_cache = C\<rparr>
      = Inr \<lparr>es_pbegincodehash = [0x51], es_stack = [vch_of_int 1], es_altstack = [], es_vfExec = [], es_nOpCount = 0, es_cache = C\<rparr>"
    using eval_loop_number [OF bn_doc_len_env e, of "\<lparr>es_pbegincodehash = [0x51], es_stack = [], es_altstack = [], es_vfExec = [], es_nOpCount = 0, es_cache = C\<rparr>" t k 0 "[]"]
    by simp
  moreover have "CastToBool (vch_of_int 1)" by code_simp
  ultimately show ?thesis
    by (simp add: VerifyScript_def EvalScript_def IsPayToScriptHash_def)
qed

definition inputs_sample :: MapPrevTx where
  "inputs_sample = [24 \<mapsto> (CTxIndex_new \<lparr>nFile = 1, nBlockPos = 8, nTxPos = 9\<rparr> 1, prev_sample)]"

lemma sample_fetch: "FetchInputs db_sample Map.empty empty_pool False False tx_sample Map.empty = Inr inputs_sample"
  by (simp add: FetchInputs_def IsCoinBase_def COutPoint_IsNull_def tx_sample_def db_sample_def ReadTxIndex_def
      mempool_pos_def CTxIndex_new_def prevout_in_range_def prev_sample_def inputs_sample_def)

lemma sample_standard: "AreInputsStandard len_env empty_cache tx_sample inputs_sample = Inr (False, empty_cache)"
proof -
  have "fst (Solver [0x51]) = False" by code_simp
  then show ?thesis
    by (cases "Solver [0x51]")
       (simp add: AreInputsStandard_def IsCoinBase_def COutPoint_IsNull_def tx_sample_def input_standard_def
        GetOutputFor_def inputs_sample_def prev_sample_def)
qed

lemma sample_connect:
  "ConnectInputs len_env params_sample empty_cache tx_sample inputs_sample Map.empty mempool_pos [] False False = Inr (Map.empty, empty_cache)"
proof -
  have w: "wrap64 50000 = 50000" "wrap64 30000 = 30000" "wrap64 20000 = 20000" by (simp_all add: wrap64_id int64_range_def)
  have m: "MoneyRange 50000" "MoneyRange 30000" "MoneyRange 20000" by (simp_all add: MoneyRange_def MAX_MONEY_small)
  have f: "GetMinFee tx_sample 1 GMF_BLOCK 0 = 10000" by (simp add: GetMinFee_eq MIN_TX_FEE_def MAX_MONEY_small)
  have v: "VerifySignature len_env empty_cache prev_sample tx_sample 0 0 = Some (True, empty_cache)"
    using sample_hashes(1) sample_script by (simp add: VerifySignature_def tx_sample_def prev_sample_def)
  have c: "connect_check params_sample [] (nTime tx_sample) inputs_sample (vin tx_sample) 0 = Inr 50000"
    using w m by (simp add: tx_sample_def inputs_sample_def prev_sample_def prevout_in_range_def CTxIndex_new_def)
  have g: "GetValueOut tx_sample = Some 30000" using w m by (simp add: GetValueOut_def tx_sample_def)
  have nb: "\<not> IsCoinBase tx_sample" "\<not> IsCoinStake tx_sample"
    by (simp_all add: IsCoinBase_def IsCoinStake_def COutPoint_IsNull_def tx_sample_def)
  have one: "length (vin tx_sample) = 1" "prevout (vin tx_sample ! 0) = \<lparr>prev_hash = 24, prev_n = 0\<rparr>"
    by (simp_all add: tx_sample_def)
  show ?thesis
    using c v g f w m nb one
    by (simp add: ConnectInputs_def connect_fees_def inputs_sample_def CTxIndex_new_def CDiskTxPos_IsNull_def CDiskTxPos_SetNull_def Let_def)
qed

theorem accept_sound_witness:
  "\<exists>p' C'. accept len_env params_sample empty_cache db_sample empty_pool [] False tx_sample True = Inr (p', C') \<and>
     pool_inv len_env p' \<and> mapTx p' 65 = Some tx_sample"
proof -
  have w: "wrap64 50000 = 50000" "wrap64 30000 = 30000" "wrap64 20000 = 20000" by (simp_all add: wrap64_id int64_range_def)
  have m: "MoneyRange 30000" by (simp add: MoneyRange_def MAX_MONEY_small)
  have nb: "\<not> IsCoinBase tx_sample" "\<not> IsCoinStake tx_sample"
    by (simp_all add: IsCoinBase_def IsCoinStake_def COutPoint_IsNull_def tx_sample_def)
  have ct: "CheckTransaction tx_sample = Inr ()"
    unfolding CheckTransaction_char tx.sz_ser [symmetric] sample_hashes(3)
    using nb by (simp add: MAX_BLOCK_SIZE_def MAX_MONEY_small CTxOut_IsEmpty_def COutPoint_IsNull_def tx_sample_def)
  have g: "GetValueOut tx_sample = Some 30000" using w m by (simp add: GetValueOut_def tx_sample_def)
  have i: "GetValueIn tx_sample inputs_sample = Inr 50000"
    using nb w by (simp add: GetValueIn_def) (simp add: tx_sample_def inputs_sample_def prev_sample_def GetOutputFor_def)
  have f: "GetMinFee tx_sample 1000 GMF_RELAY 65 = 10000"
    by (simp add: GetMinFee_eq MIN_TX_FEE_def MAX_MONEY_small MAX_BLOCK_SIZE_GEN_def MAX_BLOCK_SIZE_def)
  have "accept_inputs len_env params_sample empty_cache db_sample empty_pool [] False tx_sample = Inr empty_cache"
    using sample_fetch sample_standard i g f w sample_connect sample_hashes(3)
    by (simp add: accept_inputs_def params_sample_def Let_def)
  then have a: "accept len_env params_sample empty_cache db_sample empty_pool [] False tx_sample True =
      Inr (addUnchecked 65 tx_sample empty_pool, empty_cache)"
    using ct nb sample_hashes(2) by (simp add: accept_def Let_def ContainsTx_def db_sample_def empty_pool_def tx_sample_def)
  from accept_sound [OF pool_inv_empty cache_inv_empty a] a sample_hashes(2) show ?thesis by simp
qed


theorem ConnectInputs_sound_witness:
  "inputs_valid len_env params_sample [] tx_sample inputs_sample True \<and>
   (\<exists>out. GetValueOut tx_sample = Some out \<and> out + MIN_TX_FEE \<le> sum_list (map (input_value inputs_sample) (vin tx_sample)))"
proof -
  have nb: "\<not> IsCoinBase tx_sample" "\<not> IsCoinStake tx_sample"
    by (simp_all add: IsCoinBase_def IsCoinStake_def COutPoint_IsNull_def tx_sample_def)
  from ConnectInputs_sound [OF sample_connect cache_inv_empty nb(1) mempool_pos_not_null] nb(2)
  show ?thesis by simp
qed

end
