(* ===== verification/Difficulty.thy ===== *)
theory Difficulty
  imports Merkle Inputs
begin

text \<open>
  Block index entries (\<^verbatim>\<open>CBlockIndex\<close> in \<^verbatim>\<open>src/src/main.h\<close>), difficulty, proof of work, block trust and
  rewards (\<^verbatim>\<open>src/src/main.cpp\<close>). A pointer to an index entry is the list of the entry and its
  ancestors along \<^verbatim>\<open>pprev\<close>, so a null pointer is the empty list and every walk back is a recursion on
  the list. A dereference of a null pointer is \<^const>\<open>None\<close>.
\<close>

unbundle bit_operations_syntax

section \<open>Constants\<close>

definition LAST_POW_BLOCK :: int where "LAST_POW_BLOCK = 20160"

definition COIN_YEAR_REWARD :: int where "COIN_YEAR_REWARD = 5 * CENT"

definition bnProofOfWorkLimit :: "node_params \<Rightarrow> int" where
  "bnProofOfWorkLimit N = (if fTestNet N then 2 ^ 240 - 1 else 2 ^ 236 - 1)"

definition bnProofOfStakeLimit :: int where "bnProofOfStakeLimit = 2 ^ 236 - 1"

definition bnProofOfStakeLimitV2 :: int where "bnProofOfStakeLimitV2 = 2 ^ 208 - 1"

definition nTargetTimespan :: int where "nTargetTimespan = 60 * 60"

definition nTargetSpacing :: int where "nTargetSpacing = 1 * 60"

definition nStakeMinAge :: "node_params \<Rightarrow> int" where
  "nStakeMinAge N = (if fTestNet N then 1 * 60 * 60 else 8 * 60 * 60)"

definition IsPoSV2 :: "int \<Rightarrow> bool" where
  "IsPoSV2 nHeight \<longleftrightarrow> nHeight > 355000"

definition PastDrift :: "int \<Rightarrow> int" where "PastDrift t = wrap64 (t - 10 * 60)"

definition FutureDrift :: "int \<Rightarrow> int" where "FutureDrift t = wrap64 (t + 10 * 60)"

section \<open>Block index entries\<close>

record CBlockIndex = CBlockPos +
  idx_hash :: u256
  idx_next :: u256
  nChainTrust :: u256
  nMint :: int
  nMoneySupply :: int
  nFlags :: u32
  nStakeModifier :: u64
  nStakeModifierChecksum :: u32
  prevoutStake :: COutPoint
  nStakeTime :: u32
  hashProof :: u256
  idx_nVersion :: u32
  idx_hashMerkleRoot :: u256
  idx_nTime :: u32
  idx_nBits :: u32
  idx_nNonce :: u32

definition Index_IsProofOfStake :: "CBlockIndex \<Rightarrow> bool" where
  "Index_IsProofOfStake p \<longleftrightarrow> nFlags p AND 1 \<noteq> 0"

definition CBlockIndex_new :: "u256 \<Rightarrow> u32 \<Rightarrow> u32 \<Rightarrow> CBlock \<Rightarrow> CBlockIndex" where
  "CBlockIndex_new h nFileIn nBlockPosIn b =
     \<lparr>bp_nHeight = 0, bp_nFile = nFileIn, bp_nBlockPos = nBlockPosIn, idx_hash = h, idx_next = 0, nChainTrust = 0, nMint = 0,
      nMoneySupply = 0, nFlags = (if IsProofOfStake b then 1 else 0), nStakeModifier = 0, nStakeModifierChecksum = 0,
      prevoutStake = fst (GetProofOfStake b), nStakeTime = snd (GetProofOfStake b), hashProof = 0,
      idx_nVersion = blk_nVersion b, idx_hashMerkleRoot = hashMerkleRoot b, idx_nTime = blk_nTime b, idx_nBits = nBits b,
      idx_nNonce = nNonce b\<rparr>"

text \<open>
  \<open>idx_next\<close> is the hash of the entry \<^verbatim>\<open>pnext\<close> points to, 0 for a null pointer. The entry \<^verbatim>\<open>pprev\<close> points to
  is the second element of the list an entry heads.
\<close>

text \<open>The median of the times of the last eleven blocks; the entry itself is never null.\<close>

definition GetMedianTimePast :: "CBlockIndex list \<Rightarrow> int" where
  "GetMedianTimePast chain =
     (let pmedian = sort (map (\<lambda>p. uint (idx_nTime p)) (take 11 chain)) in pmedian ! (length pmedian div 2))"

fun super_majority :: "int \<Rightarrow> CBlockIndex list \<Rightarrow> nat \<Rightarrow> nat \<Rightarrow> nat \<Rightarrow> nat" where
  "super_majority minVersion [] nRequired nToCheck nFound = nFound"
| "super_majority minVersion (p # ps) nRequired nToCheck nFound =
     (if nToCheck > 0 \<and> nFound < nRequired
      then super_majority minVersion ps nRequired (nToCheck - 1) (if sint (idx_nVersion p) \<ge> minVersion then nFound + 1 else nFound)
      else nFound)"

definition IsSuperMajority :: "int \<Rightarrow> CBlockIndex list \<Rightarrow> nat \<Rightarrow> nat \<Rightarrow> bool" where
  "IsSuperMajority minVersion pstart nRequired nToCheck \<longleftrightarrow> super_majority minVersion pstart nRequired nToCheck 0 \<ge> nRequired"

section \<open>Targets\<close>

definition GetProofOfStakeLimit :: "int \<Rightarrow> int" where
  "GetProofOfStakeLimit nHeight = (if IsPoSV2 nHeight then bnProofOfStakeLimitV2 else bnProofOfStakeLimit)"

function max_bits_loop :: "int \<Rightarrow> int \<Rightarrow> int \<Rightarrow> int" where
  "max_bits_loop bnTargetLimit bnResult nTime0 =
     (if nTime0 > 0 \<and> bnResult < bnTargetLimit
      then max_bits_loop bnTargetLimit (bnResult * 2) (nTime0 - 24 * 60 * 60) else bnResult)"
  by pat_completeness auto
termination
  by (relation "measure (\<lambda>(l, r, t). nat t)") auto

definition ComputeMaxBits :: "env \<Rightarrow> int \<Rightarrow> u32 \<Rightarrow> int \<Rightarrow> u32" where
  "ComputeMaxBits E bnTargetLimit nBase nTime0 =
     (let bnResult = max_bits_loop bnTargetLimit (SetCompact E 0 nBase * 2) nTime0
      in GetCompact E (if bnResult > bnTargetLimit then bnTargetLimit else bnResult))"

definition ComputeMinStake :: "env \<Rightarrow> u32 \<Rightarrow> int \<Rightarrow> u32 \<Rightarrow> u32" where
  "ComputeMinStake E nBase nTime0 nBlockTime = ComputeMaxBits E bnProofOfStakeLimit nBase nTime0"

definition ComputeMinWork :: "env \<Rightarrow> node_params \<Rightarrow> u32 \<Rightarrow> int \<Rightarrow> u32" where
  "ComputeMinWork E N nBase nTime0 = ComputeMaxBits E (bnProofOfWorkLimit N) nBase nTime0"

fun GetLastBlockIndex :: "CBlockIndex list \<Rightarrow> bool \<Rightarrow> CBlockIndex list" where
  "GetLastBlockIndex [] fProofOfStake = []"
| "GetLastBlockIndex [p] fProofOfStake = [p]"
| "GetLastBlockIndex (p # q # ps) fProofOfStake =
     (if Index_IsProofOfStake p \<noteq> fProofOfStake then GetLastBlockIndex (q # ps) fProofOfStake else p # q # ps)"

text \<open>
  The exponential moving target, before the limit is applied: \<open>None\<close> is the exception of a division
  by zero.
\<close>

definition retarget :: "env \<Rightarrow> u32 \<Rightarrow> int \<Rightarrow> int option" where
  "retarget E prevBits nActualSpacing =
     (let nInterval = nTargetTimespan div nTargetSpacing;
          bnNew = SetCompact E 0 prevBits *
            setint64 E 0 ((nInterval - 1) * nTargetSpacing + nActualSpacing + nActualSpacing)
      in CBigNum_div bnNew (setint64 E 0 ((nInterval + 1) * nTargetSpacing)))"

definition GetNextTargetRequired :: "env \<Rightarrow> node_params \<Rightarrow> CBlockIndex list \<Rightarrow> bool \<Rightarrow> u32 option" where
  "GetNextTargetRequired E N pindexLast fProofOfStake =
     (if fProofOfStake \<and> pindexLast = [] then None
      else
        (let bnTargetLimit = (if fProofOfStake then GetProofOfStakeLimit (bp_nHeight (hd pindexLast)) else bnProofOfWorkLimit N)
         in if pindexLast = [] then Some (GetCompact E bnTargetLimit)
            else (case GetLastBlockIndex pindexLast fProofOfStake of
                pindexPrev # pprev # rest \<Rightarrow>
                  (case GetLastBlockIndex (pprev # rest) fProofOfStake of
                     pindexPrevPrev # _ # _ \<Rightarrow>
                       (let nActualSpacing = uint (idx_nTime pindexPrev) - uint (idx_nTime pindexPrevPrev);
                            nActualSpacing = (if nActualSpacing < 0 then nTargetSpacing else nActualSpacing)
                        in case retarget E (idx_nBits pindexPrev) nActualSpacing of
                             None \<Rightarrow> None
                           | Some bnNew \<Rightarrow>
                               Some (GetCompact E (if bnNew \<le> 0 \<or> bnNew > bnTargetLimit then bnTargetLimit else bnNew)))
                   | _ \<Rightarrow> Some (GetCompact E bnTargetLimit))
              | _ \<Rightarrow> Some (GetCompact E bnTargetLimit))))"

definition CheckProofOfWork :: "env \<Rightarrow> node_params \<Rightarrow> u256 \<Rightarrow> u32 \<Rightarrow> bool" where
  "CheckProofOfWork E N h bits =
     (let bnTarget = SetCompact E 0 bits
      in if bnTarget \<le> 0 \<or> bnTarget > bnProofOfWorkLimit N then False
         else if h > getuint256 E bnTarget then False
         else True)"

definition GetBlockTrust :: "env \<Rightarrow> u32 \<Rightarrow> u256 option" where
  "GetBlockTrust E bits =
     (let bnTarget = SetCompact E 0 bits
      in if bnTarget \<le> 0 then Some 0
         else map_option (getuint256 E) (CBigNum_div (CBigNum_shl 1 256) (bnTarget + 1)))"

section \<open>Rewards\<close>

definition GetProofOfWorkReward :: "int \<Rightarrow> int" where
  "GetProofOfWorkReward nFees = wrap64 (80 * COIN + nFees)"

definition int_quot :: "int \<Rightarrow> int \<Rightarrow> int" where
  "int_quot a b = sgn a * sgn b * (\<bar>a\<bar> div \<bar>b\<bar>)"

definition GetProofOfStakeReward :: "int \<Rightarrow> int \<Rightarrow> int" where
  "GetProofOfStakeReward nCoinAge nFees =
     (let nSubsidy = int_quot (wrap64 (wrap64 (nCoinAge * COIN_YEAR_REWARD) * 33)) (365 * 33 + 8)
      in wrap64 (nSubsidy + nFees))"

section \<open>Big numbers read as hashes and targets\<close>

lemma low_byte_AND: "unat (c :: byte) < 128 \<Longrightarrow> c AND 0x7f = c"
proof -
  assume "unat c < 128"
  have "\<forall>n\<in>set [0..<128]. ((word_of_nat n :: byte) AND 0x7f) = word_of_nat n" by code_simp
  from bspec [OF this, of "unat c"] \<open>unat c < 128\<close> show ?thesis by simp
qed

lemma getuint256_doc:
  assumes "bn_doc E" and "0 \<le> v" and "v < 2 ^ 255"
  shows "getuint256 E v = word_of_int v"
proof -
  define d where "d = vch_of_int v"
  have len: "length d \<le> 32"
    using length_vch_of_int [of 32 v] assms(2,3) by (simp add: d_def nat_less_iff)
  have mpi: "BN_bn2mpi E v = be4 (length d) @ rev d"
    using assms(1) len by (simp add: bn_docD mpi_of_int_def Let_def d_def)
  have top: "(be4 (length d) @ rev d)[4 := (be4 (length d) @ rev d) ! 4 AND 0x7f] = be4 (length d) @ rev d" if "d \<noteq> []"
  proof -
    have v: "v \<noteq> 0" using that by (auto simp: d_def vch_of_int_def sign_le_def)
    have "(be4 (length d) @ rev d) ! 4 = last d"
      using that by (simp add: be4_def nth_append rev_nth last_conv_nth)
    moreover have "unat (last d) < 128" using vch_of_int_nonneg(2) [OF assms(2) v] by (simp add: d_def)
    ultimately have "(be4 (length d) @ rev d) ! 4 AND 0x7f = (be4 (length d) @ rev d) ! 4"
      by (simp only: low_byte_AND)
    then show ?thesis by (simp only: list_update_id)
  qed
  have "getuint256 E v = word_of_nat (le_val (take 32 d))"
    using mpi top by (auto simp: getuint256_def Let_def be4_def)
  also have "take 32 d = d" using len by simp
  also have "le_val d = nat v" using vch_of_int_nonneg(1) [OF assms(2)] by (simp add: d_def)
  finally show ?thesis using assms(2) by simp
qed

lemma compact_length: "0 \<le> v \<Longrightarrow> v < 2 ^ 255 \<Longrightarrow> length (vch_of_int v) < 256"
  using length_vch_of_int [of 32 v] by (simp add: nat_less_iff)

text \<open>A positive target stays positive and does not grow when it is stored in compact form.\<close>

lemma compact_pos:
  assumes "bn_doc E" and "0 < v" and "v < 2 ^ 255"
  shows "0 < SetCompact E old (GetCompact E v)" and "SetCompact E old (GetCompact E v) \<le> v"
proof -
  define k where "k = length (vch_of_int v) - 3"
  have r: "SetCompact E old (GetCompact E v) = v - v mod 256 ^ k"
    unfolding k_def using assms compact_length by (intro SetCompact_GetCompact) simp_all
  have ge: "256 ^ k \<le> v"
  proof (cases "k = 0")
    case False
    then have l: "length (vch_of_int v) = k + 3" by (simp add: k_def)
    show ?thesis
    proof (rule ccontr)
      assume "\<not> 256 ^ k \<le> v"
      then have "nat v < 256 ^ k" by (simp add: nat_less_iff)
      then have "2 * nat v < 256 * 256 ^ k" by linarith
      then have "2 * nat v < 256 ^ (k + 1)" by simp
      then have "length (vch_of_int v) \<le> k + 1" using length_vch_of_int [of "k + 1" v] assms(2) by simp
      with l show False by simp
    qed
  qed (use assms(2) in simp)
  moreover have "v mod 256 ^ k < 256 ^ k" "0 \<le> v mod 256 ^ k" by simp_all
  ultimately show "0 < SetCompact E old (GetCompact E v)" "SetCompact E old (GetCompact E v) \<le> v"
    unfolding r by linarith+
qed

lemma limits_range:
  "0 < bnProofOfWorkLimit N" "bnProofOfWorkLimit N < 2 ^ 255" "0 < GetProofOfStakeLimit h" "GetProofOfStakeLimit h < 2 ^ 255"
  by (simp_all add: bnProofOfWorkLimit_def GetProofOfStakeLimit_def bnProofOfStakeLimit_def bnProofOfStakeLimitV2_def)

lemma retarget_doc:
  assumes "bn_doc E" and "0 \<le> a" and "a < 2 ^ 32"
  shows "retarget E bits a = CBigNum_div (SetCompact E 0 bits * (3540 + 2 * a)) 3660"
proof -
  have "setint64 E 0 (3540 + a + a) = 3540 + a + a" "setint64 E 0 3660 = 3660"
    using assms by (intro setint64_doc; simp add: int64_range_def)+
  then show ?thesis by (simp add: retarget_def Let_def nTargetTimespan_def nTargetSpacing_def add.commute)
qed

text \<open>The walk to the last block of a kind stops at such a block or at the first block of the chain.\<close>

lemma GetLastBlockIndex_spec:
  "chain \<noteq> [] \<Longrightarrow> \<exists>pre. chain = pre @ GetLastBlockIndex chain s \<and> GetLastBlockIndex chain s \<noteq> [] \<and>
     (\<forall>p \<in> set pre. Index_IsProofOfStake p \<noteq> s) \<and>
     (length (GetLastBlockIndex chain s) = 1 \<or> Index_IsProofOfStake (hd (GetLastBlockIndex chain s)) = s)"
proof (induction chain s rule: GetLastBlockIndex.induct)
  case (3 p q ps s)
  show ?case
  proof (cases "Index_IsProofOfStake p \<noteq> s")
    case True
    from "3.IH" [OF True] obtain pre where "q # ps = pre @ GetLastBlockIndex (q # ps) s"
        "GetLastBlockIndex (q # ps) s \<noteq> []" "\<forall>p \<in> set pre. Index_IsProofOfStake p \<noteq> s"
        "length (GetLastBlockIndex (q # ps) s) = 1 \<or> Index_IsProofOfStake (hd (GetLastBlockIndex (q # ps) s)) = s"
      by auto
    with True show ?thesis by (intro exI [of _ "p # pre"]) auto
  qed (intro exI [of _ "[]"], simp)
qed auto

lemma target_or_limit:
  assumes "bn_doc E" and "0 < l" and "l < 2 ^ 255"
  shows "0 < SetCompact E 0 (GetCompact E (if v \<le> 0 \<or> v > l then l else v)) \<and>
    SetCompact E 0 (GetCompact E (if v \<le> 0 \<or> v > l then l else v)) \<le> l"
  using compact_pos [OF assms(1), of "if v \<le> 0 \<or> v > l then l else v" 0] assms(2,3) by (auto split: if_splits)

lemma GetNextTargetRequired_range:
  fixes N :: node_params and fStake :: bool
  assumes "bn_doc E" and "pindexLast \<noteq> []"
  defines "l \<equiv> if fStake then GetProofOfStakeLimit (bp_nHeight (hd pindexLast)) else bnProofOfWorkLimit N"
  shows "\<exists>c. GetNextTargetRequired E N pindexLast fStake = Some c \<and> 0 < SetCompact E 0 c \<and> SetCompact E 0 c \<le> l"
proof -
  have l: "0 < l" "l < 2 ^ 255" using limits_range by (simp_all add: l_def)
  note lim = compact_pos [OF assms(1) l, of 0] and tgt = target_or_limit [OF assms(1) l]
  obtain p ps where g1: "GetLastBlockIndex pindexLast fStake = p # ps"
    using GetLastBlockIndex_spec [OF assms(2), of fStake] by (cases "GetLastBlockIndex pindexLast fStake") auto
  show ?thesis
  proof (cases ps)
    case Nil
    with g1 lim assms(2) show ?thesis by (auto simp: GetNextTargetRequired_def l_def Let_def)
  next
    case (Cons q qs)
    obtain r rs where g2: "GetLastBlockIndex (q # qs) fStake = r # rs"
      using GetLastBlockIndex_spec [of "q # qs" fStake] by (cases "GetLastBlockIndex (q # qs) fStake") auto
    show ?thesis
    proof (cases rs)
      case Nil
      with g1 g2 Cons lim assms(2) show ?thesis by (auto simp: GetNextTargetRequired_def l_def Let_def)
    next
      case (Cons r2 rs2)
      define a where "a = (let s = uint (idx_nTime p) - uint (idx_nTime r) in if s < 0 then nTargetSpacing else s)"
      have "uint (idx_nTime p) < 2 ^ 32" "0 \<le> uint (idx_nTime r)" using unsigned_less [of "idx_nTime p"] by simp_all
      then have "0 \<le> a" "a < 2 ^ 32" unfolding a_def Let_def nTargetSpacing_def by (simp_all, linarith)
      then obtain v where v: "retarget E (idx_nBits p) a = Some v"
        by (simp add: retarget_doc [OF assms(1)] CBigNum_div_def)
      have "GetNextTargetRequired E N pindexLast fStake = Some (GetCompact E (if v \<le> 0 \<or> v > l then l else v))"
        using g1 \<open>ps = q # qs\<close> g2 Cons v assms(2)
        by (simp add: GetNextTargetRequired_def a_def l_def Let_def)
      with tgt [of v] show ?thesis by simp
    qed
  qed
qed

lemma CheckProofOfWork_char:
  assumes "bn_doc E"
  shows "CheckProofOfWork E N h bits \<longleftrightarrow>
    0 < SetCompact E 0 bits \<and> SetCompact E 0 bits \<le> bnProofOfWorkLimit N \<and> uint h \<le> SetCompact E 0 bits"
proof -
  let ?t = "SetCompact E 0 bits"
  have "uint (getuint256 E ?t) = ?t" if "0 < ?t" "?t \<le> bnProofOfWorkLimit N"
  proof -
    have "?t < 2 ^ 255" using that limits_range(2) [of N] by linarith
    with that show ?thesis by (simp add: getuint256_doc [OF assms] uint_word_of_int)
  qed
  then show ?thesis by (auto simp: CheckProofOfWork_def Let_def word_less_def not_less)
qed

section \<open>Properties\<close>

text \<open>The required target always exists for a block with a predecessor, decodes to a positive
  number and never exceeds the limit for its kind and height, whatever the history of the chain.\<close>

theorem GetNextTargetRequired_bounds:
  assumes "bn_doc E" and "pindexLast \<noteq> []"
  shows "\<exists>c. GetNextTargetRequired E N pindexLast fStake = Some c \<and> 0 < SetCompact E 0 c \<and>
    SetCompact E 0 c \<le> (if fStake then GetProofOfStakeLimit (bp_nHeight (hd pindexLast)) else bnProofOfWorkLimit N)"
  using GetNextTargetRequired_range [OF assms, of N fStake] by simp

definition index_sample :: CBlockIndex where
  "index_sample = CBlockIndex_new 7 1 8 block_sample"

theorem GetNextTargetRequired_bounds_witness:
  "\<exists>c. GetNextTargetRequired ref_env params_sample [index_sample, index_sample, index_sample] False = Some c \<and>
     0 < SetCompact ref_env 0 c \<and> SetCompact ref_env 0 c \<le> 2 ^ 240 - 1"
  using GetNextTargetRequired_bounds [of ref_env "[index_sample, index_sample, index_sample]" params_sample False]
  by (simp add: bnProofOfWorkLimit_def params_sample_def)

text \<open>A hash passes \<open>CheckProofOfWork\<close> exactly when the decoded target is positive and within the
  proof-of-work limit and the hash, read as a number, does not exceed it. The hypothesis is the
  documented behaviour of the big-number conversions.\<close>

theorem CheckProofOfWork_iff:
  assumes "bn_doc E"
  shows "CheckProofOfWork E N h bits \<longleftrightarrow>
    0 < SetCompact E 0 bits \<and> SetCompact E 0 bits \<le> bnProofOfWorkLimit N \<and> uint h \<le> SetCompact E 0 bits"
  using assms by (rule CheckProofOfWork_char)

theorem CheckProofOfWork_iff_witness:
  "\<not> CheckProofOfWork ref_env params_sample 5 0"
proof -
  have "SetCompact ref_env 0 0 = 0" by code_simp
  with CheckProofOfWork_iff [of ref_env params_sample 5 0] show ?thesis by simp
qed

end
