(* ===== verification/Coins.thy ===== *)
theory Coins
  imports Inputs
begin

text \<open>
  What the transaction index promises to the code that connects and disconnects blocks. The locale
  \<open>coin_store\<close> is the contract: outputs can be spent, marked unspent again, added with a transaction
  and erased with it; its client lemmas show that undoing the transactions of a block in reverse order
  undoes the block. \<open>coins\<close>, the spent bits of every indexed transaction, is the abstraction of the
  index of \<^verbatim>\<open>src/src/main.h\<close> and interprets the contract; the loops of \<^verbatim>\<open>ConnectInputs\<close> and
  \<^verbatim>\<open>DisconnectInputs\<close> are shown to refine its operations.
\<close>

section \<open>The contract\<close>

locale coin_store =
  fixes spend unspend :: "COutPoint \<Rightarrow> 'a \<Rightarrow> 'a"
    and add :: "u256 \<Rightarrow> 'e \<Rightarrow> 'a \<Rightarrow> 'a"
    and erase :: "u256 \<Rightarrow> 'a \<Rightarrow> 'a"
    and unspent known :: "'a \<Rightarrow> COutPoint set"
    and outs :: "u256 \<Rightarrow> 'e \<Rightarrow> COutPoint set"
  assumes unspend_spend: "q \<in> unspent A \<Longrightarrow> unspend q (spend q A) = A"
    and unspend_spend_other: "q \<noteq> p \<Longrightarrow> unspend q (spend p A) = spend p (unspend q A)"
    and unspent_spend: "unspent (spend q A) = unspent A - {q}"
    and unspend_add: "prev_hash q \<noteq> h \<Longrightarrow> unspend q (add h e A) = add h e (unspend q A)"
    and unspend_erase: "prev_hash q \<noteq> h \<Longrightarrow> unspend q (erase h A) = erase h (unspend q A)"
    and erase_add: "erase h (add h e A) = erase h A"
    and erase_commute: "erase h (erase k A) = erase k (erase h A)"
    and unspent_add: "unspent (add h e A) = {q \<in> unspent A. prev_hash q \<noteq> h} \<union> outs h e"
    and unspent_known: "unspent A \<subseteq> known A"
    and known_spend: "known (spend q A) = known A"
    and known_add: "q \<in> known A \<Longrightarrow> prev_hash q \<noteq> h \<Longrightarrow> q \<in> known (add h e A)"
    and known_erase: "known (erase h A) = {q \<in> known A. prev_hash q \<noteq> h}"
    and outs_hash: "q \<in> outs h e \<Longrightarrow> prev_hash q = h"
begin

text \<open>A transaction as the store sees it: its hash, its entry and the outputs it spends.\<close>

fun connect_coins :: "(u256 \<times> 'e \<times> COutPoint list) list \<Rightarrow> 'a \<Rightarrow> 'a" where
  "connect_coins [] A = A"
| "connect_coins ((h, e, qs) # ts) A = connect_coins ts (add h e (fold spend qs A))"

definition disconnect_coin :: "u256 \<times> 'e \<times> COutPoint list \<Rightarrow> 'a \<Rightarrow> 'a" where
  "disconnect_coin t A = (case t of (h, e, qs) \<Rightarrow> erase h (fold unspend qs A))"

text \<open>The inputs of each transaction are distinct and unspent when it is connected.\<close>

fun connectable :: "(u256 \<times> 'e \<times> COutPoint list) list \<Rightarrow> 'a \<Rightarrow> bool" where
  "connectable [] A = True"
| "connectable ((h, e, qs) # ts) A \<longleftrightarrow>
     distinct qs \<and> set qs \<subseteq> unspent A \<and> connectable ts (add h e (fold spend qs A))"

text \<open>Each transaction spends outputs the store knows when it is undone.\<close>

fun undoable :: "(u256 \<times> 'e \<times> COutPoint list) list \<Rightarrow> 'a \<Rightarrow> bool" where
  "undoable [] A = True"
| "undoable ((h, e, qs) # ts) A \<longleftrightarrow> set qs \<subseteq> known A \<and> undoable ts (disconnect_coin (h, e, qs) A)"

definition no_unspent :: "u256 \<Rightarrow> 'a \<Rightarrow> bool" where
  "no_unspent h A \<longleftrightarrow> (\<forall>q \<in> unspent A. prev_hash q \<noteq> h)"

lemma unspent_fold_spend: "unspent (fold spend qs A) = unspent A - set qs"
  by (induction qs arbitrary: A) (auto simp: unspent_spend)

lemma unspend_fold_spend: "q \<notin> set qs \<Longrightarrow> unspend q (fold spend qs A) = fold spend qs (unspend q A)"
  by (induction qs arbitrary: A) (auto simp: unspend_spend_other)

lemma fold_unspend_spend: "distinct qs \<Longrightarrow> set qs \<subseteq> unspent A \<Longrightarrow> fold unspend qs (fold spend qs A) = A"
proof (induction qs arbitrary: A)
  case (Cons q qs)
  have "fold unspend (q # qs) (fold spend (q # qs) A) = fold unspend qs (fold spend qs (unspend q (spend q A)))"
    using Cons.prems by (simp add: unspend_fold_spend)
  also have "\<dots> = fold unspend qs (fold spend qs A)" using Cons.prems by (simp add: unspend_spend)
  finally show ?case using Cons by simp
qed simp

lemma fold_unspend_add:
  "\<forall>q \<in> set qs. prev_hash q \<noteq> h \<Longrightarrow> fold unspend qs (add h e A) = add h e (fold unspend qs A)"
  by (induction qs arbitrary: A) (auto simp: unspend_add)

lemma fold_unspend_erase:
  "\<forall>q \<in> set qs. prev_hash q \<noteq> h \<Longrightarrow> fold unspend qs (erase h A) = erase h (fold unspend qs A)"
  by (induction qs arbitrary: A) (auto simp: unspend_erase)

lemma fold_unspend_erases:
  "\<forall>q \<in> set qs. prev_hash q \<notin> set hs \<Longrightarrow> fold unspend qs (fold erase hs A) = fold erase hs (fold unspend qs A)"
  by (induction hs arbitrary: A) (auto simp: fold_unspend_erase)

lemma erase_erases: "erase h (fold erase hs A) = fold erase hs (erase h A)"
  by (induction hs arbitrary: A) (auto simp: erase_commute)

lemma no_unspent_step:
  "no_unspent k A \<Longrightarrow> k \<noteq> h \<Longrightarrow> no_unspent k (add h e (fold spend qs A))"
  using outs_hash unfolding no_unspent_def unspent_add unspent_fold_spend by blast

lemma known_erases: "known (fold erase hs A) = {q \<in> known A. prev_hash q \<notin> set hs}"
  by (induction hs arbitrary: A) (auto simp: known_erase)

lemma known_fold_spend: "known (fold spend qs A) = known A"
  by (induction qs arbitrary: A) (auto simp: known_spend)

lemma undoable_append: "undoable (ts @ us) A \<longleftrightarrow> undoable ts A \<and> undoable us (fold disconnect_coin ts A)"
  by (induction ts A rule: undoable.induct) auto

theorem disconnect_connect:
  assumes "connectable ts A" and "distinct (map fst ts)" and "\<forall>t \<in> set ts. no_unspent (fst t) A"
  shows "undoable (rev ts) (connect_coins ts A) \<and>
    fold disconnect_coin (rev ts) (connect_coins ts A) = fold erase (map fst ts) A"
  using assms
proof (induction ts arbitrary: A)
  case (Cons t ts)
  obtain h e qs where t: "t = (h, e, qs)" by (cases t) auto
  let ?B = "add h e (fold spend qs A)"
  have n: "\<forall>t' \<in> set ts. no_unspent (fst t') ?B"
    using Cons.prems(2,3) t by (auto intro!: no_unspent_step)
  have d: "distinct qs" "set qs \<subseteq> unspent A" "connectable ts ?B" using Cons.prems(1) t by auto
  have nh: "\<forall>q \<in> set qs. prev_hash q \<noteq> h" "\<forall>q \<in> set qs. prev_hash q \<notin> set (map fst ts)"
    using d(2) Cons.prems(3) t by (auto simp: no_unspent_def)
  have IH: "undoable (rev ts) (connect_coins ts ?B)"
    "fold disconnect_coin (rev ts) (connect_coins ts ?B) = fold erase (map fst ts) ?B"
    using Cons.IH [OF d(3) _ n] Cons.prems(2) by simp_all
  have "set qs \<subseteq> known ?B"
    using d(2) nh(1) unspent_known [of A] known_add known_fold_spend [of qs A] by blast
  then have "set qs \<subseteq> known (fold erase (map fst ts) ?B)" using nh(2) unfolding known_erases by blast
  then have "undoable (rev (t # ts)) (connect_coins (t # ts) A)"
    using IH by (simp add: t undoable_append)
  moreover have "disconnect_coin t (fold erase (map fst ts) ?B) =
      fold erase (map fst ts) (erase h (add h e (fold unspend qs (fold spend qs A))))"
    using nh by (simp add: disconnect_coin_def t fold_unspend_erases erase_erases fold_unspend_add)
  ultimately show ?case
    using IH d(1,2) by (simp add: t erase_add fold_unspend_spend)
qed simp

lemma unspent_connect_coins:
  assumes "connectable ts A" and "distinct (map fst ts)" and "\<forall>t \<in> set ts. no_unspent (fst t) A"
  shows "unspent (connect_coins ts A) =
    fold (\<lambda>(h, e, qs) U. (U - set qs) \<union> outs h e) ts (unspent A)"
  using assms
proof (induction ts arbitrary: A)
  case (Cons t ts)
  obtain h e qs where t: "t = (h, e, qs)" by (cases t) auto
  let ?B = "add h e (fold spend qs A)"
  have n: "\<forall>t' \<in> set ts. no_unspent (fst t') ?B"
    using Cons.prems(2,3) t by (auto intro!: no_unspent_step)
  have u: "unspent ?B = (unspent A - set qs) \<union> outs h e"
    using Cons.prems(3) t by (auto simp: unspent_add unspent_fold_spend no_unspent_def)
  show ?case using Cons.IH [of ?B] Cons.prems(1,2) n u by (simp add: t)
qed simp

end

section \<open>Spent bits\<close>

type_synonym coins = "u256 \<rightharpoonup> CDiskTxPos \<times> bool list"

definition set_bit_of :: "bool \<Rightarrow> COutPoint \<Rightarrow> coins \<Rightarrow> coins" where
  "set_bit_of v q A =
     A(prev_hash q := map_option (\<lambda>(p, bs). (p, bs[unat (prev_n q) := v])) (A (prev_hash q)))"

definition coins_spend :: "COutPoint \<Rightarrow> coins \<Rightarrow> coins" where
  "coins_spend = set_bit_of False"

definition coins_unspend :: "COutPoint \<Rightarrow> coins \<Rightarrow> coins" where
  "coins_unspend = set_bit_of True"

definition coins_add :: "u256 \<Rightarrow> CDiskTxPos \<times> nat \<Rightarrow> coins \<Rightarrow> coins" where
  "coins_add h e A = A(h \<mapsto> (fst e, replicate (snd e) True))"

definition coins_erase :: "u256 \<Rightarrow> coins \<Rightarrow> coins" where
  "coins_erase h A = A(h := None)"

definition coins_unspent :: "coins \<Rightarrow> COutPoint set" where
  "coins_unspent A =
     {q. \<exists>p bs. A (prev_hash q) = Some (p, bs) \<and> unat (prev_n q) < length bs \<and> bs ! unat (prev_n q)}"

definition coins_known :: "coins \<Rightarrow> COutPoint set" where
  "coins_known A = {q. \<exists>p bs. A (prev_hash q) = Some (p, bs) \<and> unat (prev_n q) < length bs}"

definition coins_outs :: "u256 \<Rightarrow> CDiskTxPos \<times> nat \<Rightarrow> COutPoint set" where
  "coins_outs h e = {q. prev_hash q = h \<and> unat (prev_n q) < snd e}"

lemma outpoint_eq: "prev_hash q = prev_hash p \<Longrightarrow> unat (prev_n q) = unat (prev_n p) \<Longrightarrow> (q :: COutPoint) = p"
  by (metis COutPoint.equality old.unit.exhaust word_unat_eq_iff)

lemma outpoint_neq: "q \<noteq> (p :: COutPoint) \<Longrightarrow> prev_hash q = prev_hash p \<Longrightarrow> unat (prev_n q) \<noteq> unat (prev_n p)"
  using outpoint_eq by blast

lemma set_bit_commute:
  assumes "q \<noteq> p"
  shows "set_bit_of v q (set_bit_of w p A) = set_bit_of w p (set_bit_of v q A)"
proof (cases "prev_hash q = prev_hash p")
  case True
  have "bs[unat (prev_n p) := w, unat (prev_n q) := v] = bs[unat (prev_n q) := v, unat (prev_n p) := w]" for bs
    by (rule list_update_swap) (use outpoint_neq [OF assms True] in simp)
  with True show ?thesis by (simp add: set_bit_of_def option.map_comp comp_def case_prod_unfold)
next
  case False
  then show ?thesis by (simp add: set_bit_of_def fun_upd_twist)
qed

lemma update_False_nth: "k < length bs \<Longrightarrow> bs[n := False] ! k \<longleftrightarrow> bs ! k \<and> k \<noteq> n"
  by (cases "k = n") auto

interpretation coins: coin_store coins_spend coins_unspend coins_add coins_erase coins_unspent coins_known coins_outs
proof
  fix q p :: COutPoint and A :: coins and h k :: u256 and e :: "CDiskTxPos \<times> nat"
  show "q \<in> coins_unspent A \<Longrightarrow> coins_unspend q (coins_spend q A) = A"
    by (auto simp: coins_unspent_def coins_unspend_def coins_spend_def set_bit_of_def fun_eq_iff)
       (metis list_update_id)
  show "q \<noteq> p \<Longrightarrow> coins_unspend q (coins_spend p A) = coins_spend p (coins_unspend q A)"
    by (simp add: coins_unspend_def coins_spend_def set_bit_commute)
  show "coins_unspent (coins_spend q A) = coins_unspent A - {q}"
    by (auto simp: coins_unspent_def coins_spend_def set_bit_of_def update_False_nth split: if_splits dest: outpoint_neq)
  show "prev_hash q \<noteq> h \<Longrightarrow> coins_unspend q (coins_add h e A) = coins_add h e (coins_unspend q A)"
    by (auto simp: coins_unspend_def coins_add_def set_bit_of_def fun_eq_iff)
  show "prev_hash q \<noteq> h \<Longrightarrow> coins_unspend q (coins_erase h A) = coins_erase h (coins_unspend q A)"
    by (auto simp: coins_unspend_def coins_erase_def set_bit_of_def fun_eq_iff)
  show "coins_unspent (coins_add h e A) = {q \<in> coins_unspent A. prev_hash q \<noteq> h} \<union> coins_outs h e"
    by (auto simp: coins_unspent_def coins_add_def coins_outs_def split: if_splits)
  show "coins_unspent A \<subseteq> coins_known A"
    by (auto simp: coins_unspent_def coins_known_def)
  show "coins_known (coins_spend q A) = coins_known A"
    by (auto simp: coins_known_def coins_spend_def set_bit_of_def split: if_splits)
  show "q \<in> coins_known A \<Longrightarrow> prev_hash q \<noteq> h \<Longrightarrow> q \<in> coins_known (coins_add h e A)"
    by (simp add: coins_known_def coins_add_def)
  show "coins_known (coins_erase h A) = {q \<in> coins_known A. prev_hash q \<noteq> h}"
    by (auto simp: coins_known_def coins_erase_def split: if_splits)
qed (auto simp: coins_erase_def coins_add_def coins_outs_def fun_eq_iff)

section \<open>The transaction index refines the spent bits\<close>

definition coins_of :: "(u256 \<rightharpoonup> CTxIndex) \<Rightarrow> coins" where
  "coins_of V h = map_option (\<lambda>idx. (tx_pos idx, map CDiskTxPos_IsNull (vSpent idx))) (V h)"

definition spent_outpoints :: "CTransaction \<Rightarrow> COutPoint list" where
  "spent_outpoints tx = (if IsCoinBase tx then [] else map prevout (vin tx))"

text \<open>The fetched entries are those of the index under the queued changes of the block.\<close>

definition fetched_from :: "(u256 \<rightharpoonup> CTxIndex) \<Rightarrow> MapPrevTx \<Rightarrow> bool" where
  "fetched_from V J \<longleftrightarrow> (\<forall>h idx t. J h = Some (idx, t) \<longrightarrow> V h = Some idx)"

lemma coins_of_spend:
  assumes "V (prev_hash q) = Some idx" and "\<not> CDiskTxPos_IsNull d"
  shows "coins_of (V(prev_hash q \<mapsto> idx\<lparr>vSpent := (vSpent idx)[unat (prev_n q) := d]\<rparr>)) = coins_spend q (coins_of V)"
  using assms by (auto simp: coins_of_def coins_spend_def set_bit_of_def fun_eq_iff map_update)

lemma coins_of_unspend:
  assumes "V (prev_hash q) = Some idx"
  shows "coins_of (V(prev_hash q \<mapsto> idx\<lparr>vSpent := (vSpent idx)[unat (prev_n q) := CDiskTxPos_SetNull]\<rparr>)) =
    coins_unspend q (coins_of V)"
proof -
  have "CDiskTxPos_IsNull CDiskTxPos_SetNull" by (simp add: CDiskTxPos_IsNull_def CDiskTxPos_SetNull_def)
  with assms show ?thesis by (auto simp: coins_of_def coins_unspend_def set_bit_of_def fun_eq_iff map_update)
qed

lemma coins_of_add: "coins_of (V(h \<mapsto> CTxIndex_new d n)) = coins_add h (d, n) (coins_of V)"
proof -
  have "CDiskTxPos_IsNull CDiskTxPos_SetNull" by (simp add: CDiskTxPos_IsNull_def CDiskTxPos_SetNull_def)
  then show ?thesis by (auto simp: coins_of_def coins_add_def CTxIndex_new_def fun_eq_iff map_replicate)
qed

lemma coins_of_erase: "coins_of (V(h := None)) = coins_erase h (coins_of V)"
  by (auto simp: coins_of_def coins_erase_def)

lemma coins_unspent_of:
  "V (prev_hash q) = Some idx \<Longrightarrow> unat (prev_n q) < length (vSpent idx) \<Longrightarrow>
   q \<in> coins_unspent (coins_of V) \<longleftrightarrow> CDiskTxPos_IsNull (vSpent idx ! unat (prev_n q))"
  by (simp add: coins_unspent_def coins_of_def)

lemma fetch_loop_fetched:
  "fetched_from (V ++ T) J \<Longrightarrow> db_index db = V \<Longrightarrow> fetch_loop db T pool True False is J = Inr I \<Longrightarrow> fetched_from (V ++ T) I"
proof (induction "is" arbitrary: J)
  case (Cons i "is")
  let ?h = "prev_hash (prevout i)"
  show ?case
  proof (cases "J ?h")
    case None
    define found where "found = (if T ?h \<noteq> None then T ?h else V ?h)"
    have f: "found = (V ++ T) ?h" by (simp add: found_def map_add_def split: option.split)
    from Cons.prems(2,3) None obtain idx entry where e: "found = Some idx" "fst entry = idx"
        "fetch_loop db T pool True False is (J(?h \<mapsto> entry)) = Inr I"
      by (auto simp: Let_def ReadTxIndex_def found_def split: if_splits option.splits)
    have "fetched_from (V ++ T) (J(?h \<mapsto> entry))"
      using Cons.prems(1) e(1,2) f by (auto simp: fetched_from_def)
    from Cons.IH [OF this Cons.prems(2) e(3)] show ?thesis .
  next
    case (Some a)
    with Cons.prems have "fetch_loop db T pool True False is J = Inr I" by (auto simp: Let_def)
    from Cons.IH [OF Cons.prems(1,2) this] show ?thesis .
  qed
qed simp

lemma FetchInputs_fetched:
  assumes "FetchInputs db T pool True False tx Map.empty = Inr I"
  shows "fetched_from (db_index db ++ T) I"
proof (cases "IsCoinBase tx")
  case False
  with assms have "fetch_loop db T pool True False (vin tx) Map.empty = Inr I"
    by (auto simp: FetchInputs_def split: sum.splits if_splits)
  moreover have "fetched_from (db_index db ++ T) Map.empty" by (simp add: fetched_from_def)
  ultimately show ?thesis using fetch_loop_fetched [of "db_index db" T Map.empty db pool "vin tx" I] by simp
qed (use assms in \<open>auto simp: FetchInputs_def fetched_from_def\<close>)

lemma connect_spend_step:
  assumes "connect_spend E N C tx d True fMiner (k # ks) J T = Inr (J', T', C')"
  obtains idx t D where "J (prev_hash (prevout (vin tx ! k))) = Some (idx, t)"
    and "CDiskTxPos_IsNull (vSpent idx ! unat (prev_n (prevout (vin tx ! k))))"
    and "connect_spend E N D tx d True fMiner ks
      (J(prev_hash (prevout (vin tx ! k)) \<mapsto> (idx\<lparr>vSpent := (vSpent idx)[unat (prev_n (prevout (vin tx ! k))) := d]\<rparr>, t)))
      (T(prev_hash (prevout (vin tx ! k)) \<mapsto> idx\<lparr>vSpent := (vSpent idx)[unat (prev_n (prevout (vin tx ! k))) := d]\<rparr>)) = Inr (J', T', C')"
proof -
  let ?h = "prev_hash (prevout (vin tx ! k))" and ?n = "unat (prev_n (prevout (vin tx ! k)))"
  obtain idx t where J: "J ?h = Some (idx, t)"
    using assms by (cases "J ?h") (auto simp: Let_def)
  moreover have null: "CDiskTxPos_IsNull (vSpent idx ! ?n)"
    using assms J by (auto simp: Let_def split: if_splits)
  moreover have "\<exists>D. connect_spend E N D tx d True fMiner ks (J(?h \<mapsto> (idx\<lparr>vSpent := (vSpent idx)[?n := d]\<rparr>, t)))
      (T(?h \<mapsto> idx\<lparr>vSpent := (vSpent idx)[?n := d]\<rparr>)) = Inr (J', T', C')"
  proof (cases "nBestHeight N < TotalBlocksEstimate N")
    case True
    with assms J null show ?thesis by (auto simp: Let_def)
  next
    case False
    with assms J null obtain D where v: "VerifySignature E C t tx k 0 = Some (True, D)"
      by (cases "VerifySignature E C t tx k 0") (auto simp: Let_def split: if_splits)
    with False assms J null show ?thesis by (intro exI [of _ D]) (simp add: Let_def)
  qed
  ultimately show thesis using that by blast
qed

lemma connect_spend_coins:
  assumes "connect_spend E N C tx d True fMiner ks J T = Inr (J', T', C')" and "\<not> CDiskTxPos_IsNull d"
    and "fetched_from (V ++ T) J" and "\<forall>k \<in> set ks. in_range_of J (prevout (vin tx ! k))"
  defines "qs \<equiv> map (\<lambda>k. prevout (vin tx ! k)) ks"
  shows "coins_of (V ++ T') = fold coins_spend qs (coins_of (V ++ T)) \<and> distinct qs \<and>
    set qs \<subseteq> coins_unspent (coins_of (V ++ T)) \<and> dom T' = dom T \<union> prev_hash ` set qs"
  using assms(1,3,4) unfolding qs_def
proof (induction ks arbitrary: C J T)
  case (Cons k ks)
  let ?q = "prevout (vin tx ! k)"
  let ?h = "prev_hash ?q" and ?n = "unat (prev_n ?q)"
  let ?qs = "map (\<lambda>k. prevout (vin tx ! k)) ks"
  obtain idx t D where J: "J ?h = Some (idx, t)" and null: "CDiskTxPos_IsNull (vSpent idx ! ?n)"
    and rest: "connect_spend E N D tx d True fMiner ks (J(?h \<mapsto> (idx\<lparr>vSpent := (vSpent idx)[?n := d]\<rparr>, t)))
      (T(?h \<mapsto> idx\<lparr>vSpent := (vSpent idx)[?n := d]\<rparr>)) = Inr (J', T', C')"
    using connect_spend_step [OF Cons.prems(1)] by blast
  let ?J = "J(?h \<mapsto> (idx\<lparr>vSpent := (vSpent idx)[?n := d]\<rparr>, t))" and ?T = "T(?h \<mapsto> idx\<lparr>vSpent := (vSpent idx)[?n := d]\<rparr>)"
  have V: "(V ++ T) ?h = Some idx" using Cons.prems(2) J by (auto simp: fetched_from_def)
  have up: "V ++ ?T = (V ++ T)(?h \<mapsto> idx\<lparr>vSpent := (vSpent idx)[?n := d]\<rparr>)" by simp
  have n: "?n < length (vSpent idx)" using Cons.prems(3) J by (auto simp: in_range_of_def)
  have c: "coins_of (V ++ ?T) = coins_spend ?q (coins_of (V ++ T))"
    unfolding up using V assms(2) by (rule coins_of_spend)
  have f: "fetched_from (V ++ ?T) ?J" using Cons.prems(2) unfolding up by (auto simp: fetched_from_def)
  have r: "\<forall>k \<in> set ks. in_range_of ?J (prevout (vin tx ! k))"
    using Cons.prems(3) J by (auto simp: in_range_of_def)
  note IH = Cons.IH [OF rest f r]
  have q: "?q \<in> coins_unspent (coins_of (V ++ T))" using coins_unspent_of [of "V ++ T" ?q idx] V n null by simp
  have u: "coins_unspent (coins_of (V ++ ?T)) = coins_unspent (coins_of (V ++ T)) - {?q}"
    unfolding c by (rule coins.unspent_spend)
  have "dom T' = dom T \<union> prev_hash ` set (?q # ?qs)" using IH by auto
  with IH q show ?case unfolding c u [unfolded c] by auto
qed simp

lemma ConnectInputs_coins:
  assumes "ConnectInputs E N C tx I T d chain True fMiner = Inr (T', C')" and "\<not> CDiskTxPos_IsNull d"
    and "fetched_from (V ++ T) I"
  shows "coins_of (V ++ T') = fold coins_spend (spent_outpoints tx) (coins_of (V ++ T)) \<and> distinct (spent_outpoints tx) \<and>
    set (spent_outpoints tx) \<subseteq> coins_unspent (coins_of (V ++ T)) \<and> dom T' = dom T \<union> prev_hash ` set (spent_outpoints tx)"
proof (cases "IsCoinBase tx")
  case False
  obtain v where v: "connect_check N chain (nTime tx) I (vin tx) 0 = Inr v"
    using assms(1) False by (auto simp: ConnectInputs_def split: sum.splits)
  obtain J' C1 where s: "connect_spend E N C tx d True fMiner [0..<length (vin tx)] I T = Inr (J', T', C1)"
    using assms(1) False v by (auto simp: ConnectInputs_def split: sum.splits if_splits)
  have "\<forall>k \<in> set [0..<length (vin tx)]. in_range_of I (prevout (vin tx ! k))"
    using connect_check_sound [OF MoneyRange_0 v] in_range_of_checked
    by (metis atLeastLessThan_iff atLeastLessThan_upt nth_mem)
  moreover have "map (\<lambda>k. prevout (vin tx ! k)) [0..<length (vin tx)] = spent_outpoints tx"
    using False by (auto simp: spent_outpoints_def intro: nth_equalityI)
  ultimately show ?thesis using connect_spend_coins [OF s assms(2,3)] by simp
qed (use assms(1) in \<open>simp add: ConnectInputs_def spent_outpoints_def\<close>)

lemma disconnect_loop_coins:
  assumes "\<forall>h. db_writable db h" and "set (map prevout is) \<subseteq> coins_known (coins_of (db_index db))"
  shows "\<exists>db'. disconnect_loop is db = Some db' \<and> db_writable db' = db_writable db \<and> db_disk db' = db_disk db \<and>
    coins_of (db_index db') = fold coins_unspend (map prevout is) (coins_of (db_index db))"
  using assms
proof (induction "is" arbitrary: db)
  case (Cons i "is")
  let ?q = "prevout i"
  obtain idx where idx: "db_index db (prev_hash ?q) = Some idx" "unat (prev_n ?q) < length (vSpent idx)"
    using Cons.prems(2) by (auto simp: coins_known_def coins_of_def)
  define db1 where "db1 = db\<lparr>db_index := (db_index db)(prev_hash ?q \<mapsto> idx\<lparr>vSpent := (vSpent idx)[unat (prev_n ?q) := CDiskTxPos_SetNull]\<rparr>)\<rparr>"
  have c: "coins_of (db_index db1) = coins_unspend ?q (coins_of (db_index db))"
    unfolding db1_def using coins_of_unspend [of "db_index db" ?q idx] idx(1) by simp
  have "coins_known (coins_unspend q A) = coins_known A" for q A
    by (auto simp: coins_known_def coins_unspend_def set_bit_of_def split: if_splits)
  then have "set (map prevout is) \<subseteq> coins_known (coins_of (db_index db1))" using Cons.prems(2) c by simp
  moreover have "\<forall>h. db_writable db1 h" using Cons.prems(1) by (simp add: db1_def)
  ultimately obtain db' where "disconnect_loop is db1 = Some db'" "db_writable db' = db_writable db1" "db_disk db' = db_disk db1"
      "coins_of (db_index db') = fold coins_unspend (map prevout is) (coins_of (db_index db1))"
    using Cons.IH [of db1] by blast
  with idx Cons.prems(1) c show ?case
    by (auto simp: ReadTxIndex_def UpdateTxIndex_def Let_def db1_def)
qed simp

lemma DisconnectInputs_coins:
  assumes "\<forall>h. db_writable db h" and "set (spent_outpoints tx) \<subseteq> coins_known (coins_of (db_index db))"
  shows "\<exists>db'. DisconnectInputs E tx db = Some db' \<and> db_writable db' = db_writable db \<and> db_disk db' = db_disk db \<and>
    coins_of (db_index db') = coins.disconnect_coin (GetHash E tx, e, spent_outpoints tx) (coins_of (db_index db))"
proof -
  obtain db1 where "(if IsCoinBase tx then Some db else disconnect_loop (vin tx) db) = Some db1" "db_writable db1 = db_writable db"
      "db_disk db1 = db_disk db"
      "coins_of (db_index db1) = fold coins_unspend (spent_outpoints tx) (coins_of (db_index db))"
    using disconnect_loop_coins [of db "vin tx"] assms by (auto simp: spent_outpoints_def split: if_splits)
  with assms(1) show ?thesis
    by (simp add: DisconnectInputs_def EraseTxIndex_def coins.disconnect_coin_def coins_of_erase)
qed

end
