(* ===== verification/Block.thy ===== *)
theory Block
  imports Difficulty Coins
begin

text \<open>
  Checking, connecting and disconnecting blocks (\<^verbatim>\<open>CBlock::CheckBlock\<close>, \<^verbatim>\<open>ConnectBlock\<close>,
  \<^verbatim>\<open>DisconnectBlock\<close>, \<^verbatim>\<open>CTransaction::GetCoinAge\<close> in \<^verbatim>\<open>src/src/main.cpp\<close>). The database is the transaction
  index of theory \<open>Inputs\<close> together with the records of the block index; reading the header of a block
  file is the argument \<open>block_time\<close>. A success of \<^verbatim>\<open>ConnectBlock\<close> returns the database, the index entry
  with its mint and money supply, and the signature cache.
\<close>

section \<open>Block checks\<close>

definition CheckCoinStakeTimestamp :: "int \<Rightarrow> int \<Rightarrow> bool" where
  "CheckCoinStakeTimestamp nTimeBlock nTimeTx \<longleftrightarrow> nTimeBlock = nTimeTx"

definition CheckBlockSignature :: "env \<Rightarrow> CBlock \<Rightarrow> bool" where
  "CheckBlockSignature E b =
     (if IsProofOfWork b then vchBlockSig b = []
      else (case Solver (scriptPubKey (vout (vtx b ! 1) ! 1)) of
          (ok, whichType, vSolutions) \<Rightarrow>
            if \<not> ok then False
            else if whichType = TX_PUBKEY then
              (let vchPubKey = vSolutions ! 0
               in if \<not> SetPubKey E vchPubKey then False
                  else if vchBlockSig b = [] then False
                  else Verify E vchPubKey (CBlock_GetHash E b) (vchBlockSig b))
            else False))"

fun check_txs :: "CBlock \<Rightarrow> CTransaction list \<Rightarrow> failure + unit" where
  "check_txs b [] = Inr ()"
| "check_txs b (tx # txs) =
     (case CheckTransaction tx of
        Inl e \<Rightarrow> Inl e
      | Inr _ \<Rightarrow> if uint (blk_nTime b) < uint (nTime tx) then Inl (Rejected 50) else check_txs b txs)"

definition check_stake :: "env \<Rightarrow> CBlock \<Rightarrow> bool \<Rightarrow> failure + unit" where
  "check_stake E b fCheckSig =
     (if length (vout (vtx b ! 0)) \<noteq> 1 \<or> \<not> CTxOut_IsEmpty (vout (vtx b ! 0) ! 0) then Inl (Rejected 100)
      else if \<not> IsCoinStake (vtx b ! 1) then Inl (Rejected 100)
      else if (\<exists>tx \<in> set (drop 2 (vtx b)). IsCoinStake tx) then Inl (Rejected 100)
      else if \<not> CheckCoinStakeTimestamp (uint (blk_nTime b)) (uint (nTime (vtx b ! 1))) then Inl (Rejected 50)
      else if fCheckSig \<and> \<not> CheckBlockSignature E b then Inl (Rejected 100)
      else Inr ())"

definition CheckBlock :: "env \<Rightarrow> node_params \<Rightarrow> CBlock \<Rightarrow> bool \<Rightarrow> bool \<Rightarrow> bool \<Rightarrow> failure + unit" where
  "CheckBlock E N b fCheckPOW fCheckMerkleRoot fCheckSig =
     (if vtx b = [] \<or> length (vtx b) > MAX_BLOCK_SIZE \<or> GetSerializeSize_CBlock b > MAX_BLOCK_SIZE then Inl (Rejected 100)
      else if fCheckPOW \<and> IsProofOfWork b \<and> \<not> CheckProofOfWork E N (CBlock_GetHash E b) (nBits b) then Inl (Rejected 50)
      else if uint (blk_nTime b) > FutureDrift (AdjustedTime N) then Inl (Rejected 0)
      else if \<not> IsCoinBase (vtx b ! 0) then Inl (Rejected 100)
      else if (\<exists>tx \<in> set (drop 1 (vtx b)). IsCoinBase tx) then Inl (Rejected 100)
      else if uint (blk_nTime b) > FutureDrift (uint (nTime (vtx b ! 0))) then Inl (Rejected 50)
      else
        (case (if IsProofOfStake b then check_stake E b fCheckSig else Inr ()) of
           Inl e \<Rightarrow> Inl e
         | Inr _ \<Rightarrow>
             (case check_txs b (vtx b) of
                Inl e \<Rightarrow> Inl e
              | Inr _ \<Rightarrow>
                  if card (set (map (GetHash E) (vtx b))) \<noteq> length (vtx b) then Inl (Rejected 100)
                  else if sum_list (map GetLegacySigOpCount (vtx b)) > MAX_BLOCK_SIGOPS then Inl (Rejected 100)
                  else if fCheckMerkleRoot \<and> hashMerkleRoot b \<noteq> BuildMerkleTree E b then Inl (Rejected 100)
                  else Inr ())))"

section \<open>Coin age\<close>

text \<open>Big-number arithmetic on coin ages; a failing division throws.\<close>

fun coin_age_loop ::
  "env \<Rightarrow> node_params \<Rightarrow> CTxDB \<Rightarrow> (u32 \<Rightarrow> u32 \<Rightarrow> u32 option) \<Rightarrow> CTransaction \<Rightarrow> CTxIn list \<Rightarrow> int \<Rightarrow> failure + int" where
  "coin_age_loop E N db block_time tx [] bnCentSecond = Inr bnCentSecond"
| "coin_age_loop E N db block_time tx (i # is) bnCentSecond =
     (case Option.bind (ReadTxIndex db (prev_hash (prevout i)))
             (\<lambda>txindex. map_option (Pair txindex) (db_disk db (tx_pos txindex))) of
        None \<Rightarrow> coin_age_loop E N db block_time tx is bnCentSecond
      | Some (txindex, txPrev) \<Rightarrow>
          if unat (prev_n (prevout i)) \<ge> length (vout txPrev) then coin_age_loop E N db block_time tx is bnCentSecond
          else if nTime tx < nTime txPrev then Inl (Rejected 0)
          else (case block_time (nFile (tx_pos txindex)) (nBlockPos (tx_pos txindex)) of
              None \<Rightarrow> Inl (Rejected 0)
            | Some t \<Rightarrow>
                if uint t + nStakeMinAge N > uint (nTime tx) then coin_age_loop E N db block_time tx is bnCentSecond
                else
                  (let nValueIn = nValue (vout txPrev ! unat (prev_n (prevout i)))
                   in case CBigNum_div (setint64 E 0 nValueIn * uint (nTime tx - nTime txPrev)) (setint64 E 0 CENT) of
                        None \<Rightarrow> Inl Thrown
                      | Some v \<Rightarrow> coin_age_loop E N db block_time tx is (bnCentSecond + v))))"

definition GetCoinAge ::
  "env \<Rightarrow> node_params \<Rightarrow> CTxDB \<Rightarrow> (u32 \<Rightarrow> u32 \<Rightarrow> u32 option) \<Rightarrow> CTransaction \<Rightarrow> failure + u64" where
  "GetCoinAge E N db block_time tx =
     (if IsCoinBase tx then Inr 0
      else case coin_age_loop E N db block_time tx (vin tx) 0 of
        Inl e \<Rightarrow> Inl e
      | Inr bnCentSecond \<Rightarrow>
          (case Option.bind (CBigNum_div (bnCentSecond * setint64 E 0 CENT) (setint64 E 0 COIN))
                  (\<lambda>v. CBigNum_div v (CBigNum_int E (24 * 60 * 60))) of
             None \<Rightarrow> Inl Thrown
           | Some bnCoinDay \<Rightarrow> Inr (getuint64 E bnCoinDay)))"

section \<open>The database\<close>

text \<open>Records of the block index: the entry with the hashes of its neighbours.\<close>

record CDiskBlockIndex =
  disk_entry :: CBlockIndex
  hashPrev :: u256
  hashNext :: u256

record CChainDB =
  cd_tx :: CTxDB
  cd_index :: "u256 \<rightharpoonup> CDiskBlockIndex"
  cd_index_writable :: "u256 \<Rightarrow> bool"
  cd_best :: "u256 option"
  cd_invalid_trust :: "u256 option"

definition CDiskBlockIndex_of :: "CBlockIndex list \<Rightarrow> CDiskBlockIndex" where
  "CDiskBlockIndex_of pindex =
     \<lparr>disk_entry = hd pindex, hashPrev = (if tl pindex = [] then 0 else idx_hash (hd (tl pindex))),
      hashNext = idx_next (hd pindex)\<rparr>"

text \<open>A write that the database refuses. On a database opened for reading only, the code fails an assertion instead; no caller passes one.\<close>

definition WriteBlockIndex :: "CChainDB \<Rightarrow> CDiskBlockIndex \<Rightarrow> CChainDB option" where
  "WriteBlockIndex D e =
     (if cd_index_writable D (idx_hash (disk_entry e))
      then Some (D\<lparr>cd_index := (cd_index D)(idx_hash (disk_entry e) \<mapsto> e)\<rparr>) else None)"

definition write_queued :: "CTxDB \<Rightarrow> (u256 \<rightharpoonup> CTxIndex) \<Rightarrow> CTxDB option" where
  "write_queued db mapQueuedChanges =
     (if (\<forall>h \<in> dom mapQueuedChanges. db_writable db h)
      then Some (db\<lparr>db_index := db_index db ++ mapQueuedChanges\<rparr>) else None)"

text \<open>Rewriting the record of the previous block with a new \<^verbatim>\<open>hashNext\<close>.\<close>

definition write_prev_next :: "CChainDB \<Rightarrow> CBlockIndex list \<Rightarrow> u256 \<Rightarrow> CChainDB option" where
  "write_prev_next D pindex h =
     (if tl pindex = [] then Some D else WriteBlockIndex D ((CDiskBlockIndex_of (tl pindex))\<lparr>hashNext := h\<rparr>))"

section \<open>Connecting a block\<close>

record connect_state =
  cs_nTxPos :: u32
  mapQueuedChanges :: "u256 \<rightharpoonup> CTxIndex"
  cs_nFees :: int
  cs_nValueIn :: int
  cs_nValueOut :: int
  nStakeReward :: int
  cs_nSigOps :: nat
  cs_cache :: CSignatureCache

definition overwrites_unspent :: "env \<Rightarrow> CTxDB \<Rightarrow> CTransaction \<Rightarrow> bool" where
  "overwrites_unspent E db tx =
     (case ReadTxIndex db (GetHash E tx) of
        None \<Rightarrow> False
      | Some txindexOld \<Rightarrow> (\<exists>d \<in> set (vSpent txindexOld). CDiskTxPos_IsNull d))"

text \<open>A failing call inside \<^verbatim>\<open>ConnectBlock\<close> returns false without a misbehaviour score of the block.\<close>

definition plain_failure :: "failure \<Rightarrow> failure" where
  "plain_failure e = (case e of Rejected _ \<Rightarrow> Rejected 0 | _ \<Rightarrow> e)"

definition connect_noncoinbase ::
  "env \<Rightarrow> node_params \<Rightarrow> CTxDB \<Rightarrow> CTxMemPool \<Rightarrow> CBlockIndex list \<Rightarrow> CDiskTxPos \<Rightarrow> CTransaction \<Rightarrow> connect_state
     \<Rightarrow> failure + connect_state" where
  "connect_noncoinbase E N db pool pindex posThisTx tx st =
     (case FetchInputs db (mapQueuedChanges st) pool True False tx Map.empty of
        Inl (_, e) \<Rightarrow> Inl (plain_failure e)
      | Inr mapInputs \<Rightarrow>
          (case GetP2SHSigOpCount tx mapInputs of
             Inl e \<Rightarrow> Inl e
           | Inr nP2SH \<Rightarrow>
               if cs_nSigOps st + nP2SH > MAX_BLOCK_SIGOPS then Inl (Rejected 100)
               else (case (GetValueIn tx mapInputs, GetValueOut tx) of
                   (Inr nTxValueIn, Some nTxValueOut) \<Rightarrow>
                     (case ConnectInputs E N (cs_cache st) tx mapInputs (mapQueuedChanges st) posThisTx
                             (map CBlockPos.truncate pindex) True False of
                        Inl (e, _) \<Rightarrow> Inl (plain_failure e)
                      | Inr (queue, C') \<Rightarrow>
                          Inr (st\<lparr>cs_nSigOps := cs_nSigOps st + nP2SH,
                                  cs_nValueIn := wrap64 (cs_nValueIn st + nTxValueIn),
                                  cs_nValueOut := wrap64 (cs_nValueOut st + nTxValueOut),
                                  cs_nFees := (if \<not> IsCoinStake tx then wrap64 (cs_nFees st + wrap64 (nTxValueIn - nTxValueOut))
                                               else cs_nFees st),
                                  nStakeReward := (if IsCoinStake tx then wrap64 (nTxValueOut - nTxValueIn) else nStakeReward st),
                                  mapQueuedChanges := queue, cs_cache := C'\<rparr>))
                 | _ \<Rightarrow> Inl Thrown)))"

definition connect_coinbase :: "CTransaction \<Rightarrow> connect_state \<Rightarrow> failure + connect_state" where
  "connect_coinbase tx st =
     (case GetValueOut tx of
        None \<Rightarrow> Inl Thrown
      | Some v \<Rightarrow> Inr (st\<lparr>cs_nValueOut := wrap64 (cs_nValueOut st + v)\<rparr>))"

definition posThisTx :: "CBlockIndex \<Rightarrow> connect_state \<Rightarrow> CDiskTxPos" where
  "posThisTx p st = \<lparr>nFile = bp_nFile p, nBlockPos = bp_nBlockPos p, nTxPos = cs_nTxPos st\<rparr>"

definition enter_tx :: "bool \<Rightarrow> CTransaction \<Rightarrow> connect_state \<Rightarrow> connect_state" where
  "enter_tx fJustCheck tx st =
     st\<lparr>cs_nSigOps := cs_nSigOps st + GetLegacySigOpCount tx,
        cs_nTxPos := (if \<not> fJustCheck then cs_nTxPos st + word_of_nat (GetSerializeSize_CTransaction tx) else cs_nTxPos st)\<rparr>"

definition connect_tx ::
  "env \<Rightarrow> node_params \<Rightarrow> CTxDB \<Rightarrow> CTxMemPool \<Rightarrow> CBlockIndex list \<Rightarrow> bool \<Rightarrow> CTransaction \<Rightarrow> connect_state
     \<Rightarrow> failure + connect_state" where
  "connect_tx E N db pool pindex fJustCheck tx st =
     (if overwrites_unspent E db tx then Inl (Rejected 0)
      else
        (let d = posThisTx (hd pindex) st; st1 = enter_tx fJustCheck tx st
         in if cs_nSigOps st1 > MAX_BLOCK_SIGOPS then Inl (Rejected 100)
            else (case (if IsCoinBase tx then connect_coinbase tx st1
                        else connect_noncoinbase E N db pool pindex d tx st1) of
                Inl e \<Rightarrow> Inl e
              | Inr st2 \<Rightarrow>
                  Inr (st2\<lparr>mapQueuedChanges := (mapQueuedChanges st2)(GetHash E tx \<mapsto> CTxIndex_new d (length (vout tx)))\<rparr>))))"

fun connect_txs ::
  "env \<Rightarrow> node_params \<Rightarrow> CTxDB \<Rightarrow> CTxMemPool \<Rightarrow> CBlockIndex list \<Rightarrow> bool \<Rightarrow> CTransaction list \<Rightarrow> connect_state
     \<Rightarrow> failure + connect_state" where
  "connect_txs E N db pool pindex fJustCheck [] st = Inr st"
| "connect_txs E N db pool pindex fJustCheck (tx # txs) st =
     (case connect_tx E N db pool pindex fJustCheck tx st of
        Inl e \<Rightarrow> Inl e
      | Inr st' \<Rightarrow> connect_txs E N db pool pindex fJustCheck txs st')"

definition check_reward ::
  "env \<Rightarrow> node_params \<Rightarrow> CTxDB \<Rightarrow> (u32 \<Rightarrow> u32 \<Rightarrow> u32 option) \<Rightarrow> CBlock \<Rightarrow> connect_state \<Rightarrow> failure + unit" where
  "check_reward E N db block_time b st =
     (if IsProofOfWork b then
        (case GetValueOut (vtx b ! 0) of
           None \<Rightarrow> Inl Thrown
         | Some v \<Rightarrow> if v > GetProofOfWorkReward (cs_nFees st) then Inl (Rejected 50) else Inr ())
      else
        (case GetCoinAge E N db block_time (vtx b ! 1) of
           Inl e \<Rightarrow> Inl (plain_failure e)
         | Inr nCoinAge \<Rightarrow>
             if nStakeReward st > GetProofOfStakeReward (wrap64 (uint nCoinAge)) (cs_nFees st) then Inl (Rejected 100) else Inr ()))"

definition first_tx_pos :: "CBlock \<Rightarrow> CBlockIndex \<Rightarrow> bool \<Rightarrow> u32" where
  "first_tx_pos b p fJustCheck =
     (if fJustCheck then 1
      else bp_nBlockPos p + word_of_nat (80 + 2 * GetSizeOfCompactSize 0) - word_of_nat (2 * GetSizeOfCompactSize 0) +
        word_of_nat (GetSizeOfCompactSize (length (vtx b))))"

text \<open>
  \<^verbatim>\<open>ConnectBlock\<close> up to the point where the block is connected. The last loop of the function, which hands the transactions to the wallets
  with \<^verbatim>\<open>SyncWithWallets\<close>, is not part of this definition: what it does to one wallet is the operation \<open>AddToWalletIfInvolvingMe\<close> of theory \<open>Wallet\<close>.
\<close>

definition ConnectBlock ::
  "env \<Rightarrow> node_params \<Rightarrow> CSignatureCache \<Rightarrow> CChainDB \<Rightarrow> CTxMemPool \<Rightarrow> (u32 \<Rightarrow> u32 \<Rightarrow> u32 option) \<Rightarrow> CBlock \<Rightarrow>
     CBlockIndex list \<Rightarrow> bool \<Rightarrow> failure + (CChainDB \<times> CBlockIndex \<times> CSignatureCache)" where
  "ConnectBlock E N C D pool block_time b pindex fJustCheck =
     (case CheckBlock E N b (\<not> fJustCheck) (\<not> fJustCheck) False of
        Inl e \<Rightarrow> Inl e
      | Inr _ \<Rightarrow>
          (case connect_txs E N (cd_tx D) pool pindex fJustCheck (vtx b)
                  \<lparr>cs_nTxPos = first_tx_pos b (hd pindex) fJustCheck, mapQueuedChanges = Map.empty, cs_nFees = 0, cs_nValueIn = 0,
                   cs_nValueOut = 0, nStakeReward = 0, cs_nSigOps = 0, cs_cache = C\<rparr> of
             Inl e \<Rightarrow> Inl e
           | Inr st \<Rightarrow>
               (case check_reward E N (cd_tx D) block_time b st of
                  Inl e \<Rightarrow> Inl e
                | Inr _ \<Rightarrow>
                    (let p = (hd pindex)\<lparr>nMint := wrap64 (wrap64 (cs_nValueOut st - cs_nValueIn st) + cs_nFees st),
                               nMoneySupply := wrap64 (wrap64 ((if tl pindex = [] then 0 else nMoneySupply (hd (tl pindex))) +
                                 cs_nValueOut st) - cs_nValueIn st)\<rparr>
                     in case WriteBlockIndex D (CDiskBlockIndex_of (p # tl pindex)) of
                          None \<Rightarrow> Inl (Rejected 0)
                        | Some D1 \<Rightarrow>
                            if fJustCheck then Inr (D1, p, cs_cache st)
                            else (case write_queued (cd_tx D1) (mapQueuedChanges st) of
                                None \<Rightarrow> Inl (Rejected 0)
                              | Some db \<Rightarrow>
                                  (case write_prev_next (D1\<lparr>cd_tx := db\<rparr>) (p # tl pindex) (idx_hash p) of
                                     None \<Rightarrow> Inl (Rejected 0)
                                   | Some D2 \<Rightarrow> Inr (D2, p, cs_cache st)))))))"

section \<open>Disconnecting a block\<close>

fun disconnect_txs :: "env \<Rightarrow> CTransaction list \<Rightarrow> CTxDB \<Rightarrow> CTxDB option" where
  "disconnect_txs E [] db = Some db"
| "disconnect_txs E (tx # txs) db =
     (case DisconnectInputs E tx db of None \<Rightarrow> None | Some db' \<Rightarrow> disconnect_txs E txs db')"

definition DisconnectBlock :: "env \<Rightarrow> CChainDB \<Rightarrow> CBlock \<Rightarrow> CBlockIndex list \<Rightarrow> CChainDB option" where
  "DisconnectBlock E D b pindex =
     (case disconnect_txs E (rev (vtx b)) (cd_tx D) of
        None \<Rightarrow> None
      | Some db \<Rightarrow> write_prev_next (D\<lparr>cd_tx := db\<rparr>) pindex 0)"

end
