(* ===== verification/BlockConnect.thy ===== *)
theory BlockConnect
  imports Block
begin

text \<open>
  What connecting and disconnecting a block achieves. The abstract specification is a set of unspent
  outputs and the function \<open>utxo_apply\<close>; \<^verbatim>\<open>ConnectBlock\<close> refines it through the spent bits of theory \<open>Coins\<close>,
  \<^verbatim>\<open>DisconnectBlock\<close> takes it back, and the totals of a block bound the growth of the money supply.
\<close>

section \<open>Unspent outputs\<close>

text \<open>The abstract specification: a set of unspent outputs, and what a transaction does to it.\<close>

definition tx_outputs :: "env \<Rightarrow> CTransaction \<Rightarrow> COutPoint set" where
  "tx_outputs E tx = {q. prev_hash q = GetHash E tx \<and> unat (prev_n q) < length (vout tx)}"

fun utxo_apply :: "env \<Rightarrow> CTransaction list \<Rightarrow> COutPoint set \<Rightarrow> COutPoint set option" where
  "utxo_apply E [] U = Some U"
| "utxo_apply E (tx # txs) U =
     (if distinct (spent_outpoints tx) \<and> set (spent_outpoints tx) \<subseteq> U \<and> (\<forall>q \<in> U. prev_hash q \<noteq> GetHash E tx)
      then utxo_apply E txs ((U - set (spent_outpoints tx)) \<union> tx_outputs E tx) else None)"

definition utxo :: "CTxDB \<Rightarrow> COutPoint set" where
  "utxo db = {q. \<exists>txindex. ReadTxIndex db (prev_hash q) = Some txindex \<and>
     unat (prev_n q) < length (vSpent txindex) \<and> CDiskTxPos_IsNull (vSpent txindex ! unat (prev_n q))}"

lemma utxo_coins: "utxo db = coins_unspent (coins_of (db_index db))"
  by (auto simp: utxo_def coins_unspent_def coins_of_def ReadTxIndex_def)

text \<open>The entry the database gets for a transaction at a position.\<close>

definition coin_entry :: "env \<Rightarrow> CTransaction \<Rightarrow> CDiskTxPos \<Rightarrow> u256 \<times> (CDiskTxPos \<times> nat) \<times> COutPoint list" where
  "coin_entry E tx d = (GetHash E tx, (d, length (vout tx)), spent_outpoints tx)"

lemma coin_entry_simps [simp]:
  "fst (coin_entry E tx d) = GetHash E tx"
  "coins.connect_coins (coin_entry E tx d # ts) A =
     coins.connect_coins ts (coins_add (GetHash E tx) (d, length (vout tx)) (fold coins_spend (spent_outpoints tx) A))"
  "coins.connectable (coin_entry E tx d # ts) A \<longleftrightarrow>
     distinct (spent_outpoints tx) \<and> set (spent_outpoints tx) \<subseteq> coins_unspent A \<and>
     coins.connectable ts (coins_add (GetHash E tx) (d, length (vout tx)) (fold coins_spend (spent_outpoints tx) A))"
  by (simp_all add: coin_entry_def)

lemma coins_outs_entry: "coins_outs (GetHash E tx) (d, length (vout tx)) = tx_outputs E tx"
  by (simp add: coins_outs_def tx_outputs_def)

lemma utxo_apply_coins:
  assumes "coins.connectable (map2 (coin_entry E) txs ds) A" and "distinct (map (GetHash E) txs)"
    and "\<forall>tx \<in> set txs. coins.no_unspent (GetHash E tx) A" and "length ds = length txs"
  shows "utxo_apply E txs (coins_unspent A) = Some (coins_unspent (coins.connect_coins (map2 (coin_entry E) txs ds) A))"
  using assms
proof (induction txs arbitrary: ds A)
  case (Cons tx txs)
  then obtain d ds' where ds: "ds = d # ds'" by (cases ds) auto
  let ?B = "coins_add (GetHash E tx) (d, length (vout tx)) (fold coins_spend (spent_outpoints tx) A)"
  have n: "\<forall>t \<in> set txs. coins.no_unspent (GetHash E t) ?B"
    using Cons.prems(2,3) by (auto intro!: coins.no_unspent_step) (metis imageI)
  have u: "coins_unspent ?B = (coins_unspent A - set (spent_outpoints tx)) \<union> tx_outputs E tx"
    using Cons.prems(3) by (auto simp: coins.unspent_add coins.unspent_fold_spend coins.no_unspent_def coins_outs_entry)
  have "utxo_apply E txs (coins_unspent ?B) = Some (coins_unspent (coins.connect_coins (map2 (coin_entry E) txs ds') ?B))"
    using Cons.prems n ds by (intro Cons.IH) auto
  with Cons.prems(1,3) show ?case
    by (auto simp: ds u coins.no_unspent_def)
qed simp

section \<open>Connecting refines the specification\<close>

lemma connect_noncoinbase_coins:
  assumes "connect_noncoinbase E N db pool pindex d tx st = Inr st'" and "\<not> CDiskTxPos_IsNull d" and "\<not> IsCoinBase tx"
  shows "coins_of (db_index db ++ mapQueuedChanges st') =
      fold coins_spend (spent_outpoints tx) (coins_of (db_index db ++ mapQueuedChanges st)) \<and>
    distinct (spent_outpoints tx) \<and> set (spent_outpoints tx) \<subseteq> coins_unspent (coins_of (db_index db ++ mapQueuedChanges st))"
proof -
  obtain I where I: "FetchInputs db (mapQueuedChanges st) pool True False tx Map.empty = Inr I"
    using assms(1) by (auto simp: connect_noncoinbase_def split: sum.splits)
  obtain C' where "ConnectInputs E N (cs_cache st) tx I (mapQueuedChanges st) d (map CBlockPos.truncate pindex) True False =
      Inr (mapQueuedChanges st', C')"
    using assms(1) I by (auto simp: connect_noncoinbase_def split: sum.splits if_splits option.splits)
  from ConnectInputs_coins [OF this assms(2) FetchInputs_fetched [OF I]] show ?thesis by simp
qed

lemma connect_tx_coins:
  assumes "connect_tx E N db pool pindex fJust tx st = Inr st'" and "bp_nFile (hd pindex) \<noteq> - 1"
  shows "\<not> overwrites_unspent E db tx"
    and "\<exists>d. \<forall>ts. coins.connect_coins ts (coins_of (db_index db ++ mapQueuedChanges st')) =
        coins.connect_coins (coin_entry E tx d # ts) (coins_of (db_index db ++ mapQueuedChanges st)) \<and>
      (coins.connectable (coin_entry E tx d # ts) (coins_of (db_index db ++ mapQueuedChanges st)) \<longleftrightarrow>
        coins.connectable ts (coins_of (db_index db ++ mapQueuedChanges st')))"
proof -
  show o: "\<not> overwrites_unspent E db tx"
    using assms(1) by (auto simp: connect_tx_def Let_def split: if_splits)
  define d where "d = posThisTx (hd pindex) st"
  have d: "\<not> CDiskTxPos_IsNull d" using assms(2) by (simp add: d_def posThisTx_def CDiskTxPos_IsNull_def)
  define st1 where "st1 = enter_tx fJust tx st"
  obtain st2 where st2: "(if IsCoinBase tx then connect_coinbase tx st1 else connect_noncoinbase E N db pool pindex d tx st1) = Inr st2"
    and st': "mapQueuedChanges st' = (mapQueuedChanges st2)(GetHash E tx \<mapsto> CTxIndex_new d (length (vout tx)))"
    using assms(1) o by (auto simp: connect_tx_def Let_def simp flip: d_def st1_def split: if_splits sum.splits)
  have q1: "mapQueuedChanges st1 = mapQueuedChanges st" by (simp add: st1_def enter_tx_def)
  have c: "coins_of (db_index db ++ mapQueuedChanges st2) =
      fold coins_spend (spent_outpoints tx) (coins_of (db_index db ++ mapQueuedChanges st)) \<and>
    distinct (spent_outpoints tx) \<and> set (spent_outpoints tx) \<subseteq> coins_unspent (coins_of (db_index db ++ mapQueuedChanges st))"
  proof (cases "IsCoinBase tx")
    case True
    with st2 q1 have "mapQueuedChanges st2 = mapQueuedChanges st" by (auto simp: connect_coinbase_def split: option.splits)
    with True show ?thesis by (simp add: spent_outpoints_def)
  next
    case False
    with st2 connect_noncoinbase_coins [of E N db pool pindex d tx st1 st2] d q1 show ?thesis by simp
  qed
  then show "\<exists>d. \<forall>ts. coins.connect_coins ts (coins_of (db_index db ++ mapQueuedChanges st')) =
        coins.connect_coins (coin_entry E tx d # ts) (coins_of (db_index db ++ mapQueuedChanges st)) \<and>
      (coins.connectable (coin_entry E tx d # ts) (coins_of (db_index db ++ mapQueuedChanges st)) \<longleftrightarrow>
        coins.connectable ts (coins_of (db_index db ++ mapQueuedChanges st')))"
    by (intro exI [of _ d]) (simp add: st' coins_of_add)
qed

lemma connect_txs_coins:
  assumes "connect_txs E N db pool pindex fJust txs st = Inr st'" and "bp_nFile (hd pindex) \<noteq> - 1"
  shows "(\<forall>tx \<in> set txs. \<not> overwrites_unspent E db tx) \<and>
    (\<exists>ds. length ds = length txs \<and>
      coins_of (db_index db ++ mapQueuedChanges st') =
        coins.connect_coins (map2 (coin_entry E) txs ds) (coins_of (db_index db ++ mapQueuedChanges st)) \<and>
      coins.connectable (map2 (coin_entry E) txs ds) (coins_of (db_index db ++ mapQueuedChanges st)))"
  using assms(1)
proof (induction txs arbitrary: st)
  case (Cons tx txs)
  then obtain st1 where st1: "connect_tx E N db pool pindex fJust tx st = Inr st1"
      "connect_txs E N db pool pindex fJust txs st1 = Inr st'"
    by (auto split: sum.splits)
  from Cons.IH [OF st1(2)] obtain ds where ds: "length ds = length txs"
      "coins_of (db_index db ++ mapQueuedChanges st') =
        coins.connect_coins (map2 (coin_entry E) txs ds) (coins_of (db_index db ++ mapQueuedChanges st1))"
      "coins.connectable (map2 (coin_entry E) txs ds) (coins_of (db_index db ++ mapQueuedChanges st1))"
      "\<forall>tx \<in> set txs. \<not> overwrites_unspent E db tx"
    by blast
  obtain d where d: "\<And>ts. coins.connect_coins ts (coins_of (db_index db ++ mapQueuedChanges st1)) =
        coins.connect_coins (coin_entry E tx d # ts) (coins_of (db_index db ++ mapQueuedChanges st))"
      "\<And>ts. coins.connectable (coin_entry E tx d # ts) (coins_of (db_index db ++ mapQueuedChanges st)) \<longleftrightarrow>
        coins.connectable ts (coins_of (db_index db ++ mapQueuedChanges st1))"
    using connect_tx_coins(2) [OF st1(1) assms(2)] by blast
  have m: "map2 (coin_entry E) (tx # txs) (d # ds) = coin_entry E tx d # map2 (coin_entry E) txs ds" by simp
  have "coins_of (db_index db ++ mapQueuedChanges st') =
        coins.connect_coins (map2 (coin_entry E) (tx # txs) (d # ds)) (coins_of (db_index db ++ mapQueuedChanges st))"
      "coins.connectable (map2 (coin_entry E) (tx # txs) (d # ds)) (coins_of (db_index db ++ mapQueuedChanges st))"
    unfolding m ds(2) d(1) [symmetric] d(2) using ds(3) by simp_all
  with ds(1,4) connect_tx_coins(1) [OF st1(1) assms(2)] show ?case
    by (intro conjI exI [of _ "d # ds"]) auto
qed simp

lemma no_overwrite: "\<not> overwrites_unspent E db tx \<Longrightarrow> coins.no_unspent (GetHash E tx) (coins_of (db_index db))"
  by (auto simp: overwrites_unspent_def coins.no_unspent_def coins_unspent_def coins_of_def ReadTxIndex_def split: option.splits)

lemma CheckBlock_distinct: "CheckBlock E N b f g s = Inr () \<Longrightarrow> distinct (map (GetHash E) (vtx b))"
  by (auto simp: CheckBlock_def intro!: card_distinct split: if_splits sum.splits)

lemma ConnectBlock_steps:
  assumes "ConnectBlock E N C D pool block_time b pindex False = Inr (D', p, C')"
  obtains st where "CheckBlock E N b True True False = Inr ()"
    and "connect_txs E N (cd_tx D) pool pindex False (vtx b)
           \<lparr>cs_nTxPos = first_tx_pos b (hd pindex) False, mapQueuedChanges = Map.empty, cs_nFees = 0, cs_nValueIn = 0,
            cs_nValueOut = 0, nStakeReward = 0, cs_nSigOps = 0, cs_cache = C\<rparr> = Inr st"
    and "check_reward E N (cd_tx D) block_time b st = Inr ()"
    and "cd_tx D' = (cd_tx D)\<lparr>db_index := db_index (cd_tx D) ++ mapQueuedChanges st\<rparr>"
    and "nMoneySupply p = wrap64 (wrap64 ((if tl pindex = [] then 0 else nMoneySupply (hd (tl pindex))) + cs_nValueOut st) - cs_nValueIn st)"
    and "cs_cache st = C'"
proof -
  have c: "CheckBlock E N b True True False = Inr ()"
    using assms by (auto simp: ConnectBlock_def split: sum.splits)
  obtain st where st: "connect_txs E N (cd_tx D) pool pindex False (vtx b)
           \<lparr>cs_nTxPos = first_tx_pos b (hd pindex) False, mapQueuedChanges = Map.empty, cs_nFees = 0, cs_nValueIn = 0,
            cs_nValueOut = 0, nStakeReward = 0, cs_nSigOps = 0, cs_cache = C\<rparr> = Inr st"
    using assms c by (auto simp: ConnectBlock_def split: sum.splits)
  have r: "check_reward E N (cd_tx D) block_time b st = Inr ()"
    using assms c st by (auto simp: ConnectBlock_def split: sum.splits)
  show thesis
  proof (rule that [OF c st r])
    show "cd_tx D' = (cd_tx D)\<lparr>db_index := db_index (cd_tx D) ++ mapQueuedChanges st\<rparr>"
      "nMoneySupply p = wrap64 (wrap64 ((if tl pindex = [] then 0 else nMoneySupply (hd (tl pindex))) + cs_nValueOut st) - cs_nValueIn st)"
      "cs_cache st = C'"
      using assms c st r
      by (auto simp: ConnectBlock_def Let_def WriteBlockIndex_def write_queued_def write_prev_next_def split: option.splits if_splits)
  qed
qed

lemma ConnectBlock_coins:
  assumes "ConnectBlock E N C D pool block_time b pindex False = Inr (D', p, C')" and "bp_nFile (hd pindex) \<noteq> - 1"
  defines "A \<equiv> coins_of (db_index (cd_tx D))"
  shows "distinct (map (GetHash E) (vtx b)) \<and> (\<forall>tx \<in> set (vtx b). coins.no_unspent (GetHash E tx) A) \<and>
    db_writable (cd_tx D') = db_writable (cd_tx D) \<and>
    (\<exists>ds. length ds = length (vtx b) \<and> coins.connectable (map2 (coin_entry E) (vtx b) ds) A \<and>
       coins_of (db_index (cd_tx D')) = coins.connect_coins (map2 (coin_entry E) (vtx b) ds) A)"
proof -
  from assms(1) obtain st where c: "CheckBlock E N b True True False = Inr ()"
    and st: "connect_txs E N (cd_tx D) pool pindex False (vtx b)
           \<lparr>cs_nTxPos = first_tx_pos b (hd pindex) False, mapQueuedChanges = Map.empty, cs_nFees = 0, cs_nValueIn = 0,
            cs_nValueOut = 0, nStakeReward = 0, cs_nSigOps = 0, cs_cache = C\<rparr> = Inr st"
    and D': "cd_tx D' = (cd_tx D)\<lparr>db_index := db_index (cd_tx D) ++ mapQueuedChanges st\<rparr>"
    by (rule ConnectBlock_steps)
  from connect_txs_coins [OF st assms(2)] CheckBlock_distinct [OF c] D' show ?thesis
    unfolding A_def using no_overwrite by auto
qed

section \<open>Disconnecting undoes connecting\<close>

lemma disconnect_txs_coins:
  assumes "\<forall>h. db_writable db h" and "length ds = length txs"
    and "coins.undoable (map2 (coin_entry E) txs ds) (coins_of (db_index db))"
  shows "\<exists>db'. disconnect_txs E txs db = Some db' \<and>
    coins_of (db_index db') = fold coins.disconnect_coin (map2 (coin_entry E) txs ds) (coins_of (db_index db))"
  using assms
proof (induction txs arbitrary: ds db)
  case (Cons tx txs)
  then obtain d ds' where ds: "ds = d # ds'" by (cases ds) auto
  have k: "set (spent_outpoints tx) \<subseteq> coins_known (coins_of (db_index db))"
    and u: "coins.undoable (map2 (coin_entry E) txs ds') (coins.disconnect_coin (coin_entry E tx d) (coins_of (db_index db)))"
    using Cons.prems(3) by (simp_all add: ds coin_entry_def)
  obtain db1 where db1: "DisconnectInputs E tx db = Some db1" "db_writable db1 = db_writable db"
      "coins_of (db_index db1) = coins.disconnect_coin (coin_entry E tx d) (coins_of (db_index db))"
    using DisconnectInputs_coins [OF Cons.prems(1) k, of E "(d, length (vout tx))"] by (auto simp: coin_entry_def)
  then obtain db' where "disconnect_txs E txs db1 = Some db'"
      "coins_of (db_index db') = fold coins.disconnect_coin (map2 (coin_entry E) txs ds') (coins_of (db_index db1))"
    using Cons.IH [of db1 ds'] Cons.prems(1,2) u ds by auto
  with db1 show ?case by (simp add: ds)
qed simp

lemma DisconnectBlock_coins:
  assumes "ConnectBlock E N C D pool block_time b pindex False = Inr (D', p, C')" and "bp_nFile (hd pindex) \<noteq> - 1"
    and "\<forall>h. db_writable (cd_tx D) h" and "\<forall>h. cd_index_writable D' h"
  shows "\<exists>D''. DisconnectBlock E D' b pindex' = Some D'' \<and>
    coins_of (db_index (cd_tx D'')) = fold coins_erase (map (GetHash E) (vtx b)) (coins_of (db_index (cd_tx D)))"
proof -
  define A where "A = coins_of (db_index (cd_tx D))"
  from ConnectBlock_coins [OF assms(1,2)] obtain ds where c: "distinct (map (GetHash E) (vtx b))"
      "\<forall>tx \<in> set (vtx b). coins.no_unspent (GetHash E tx) A" "db_writable (cd_tx D') = db_writable (cd_tx D)"
      "length ds = length (vtx b)" "coins.connectable (map2 (coin_entry E) (vtx b) ds) A"
      "coins_of (db_index (cd_tx D')) = coins.connect_coins (map2 (coin_entry E) (vtx b) ds) A"
    unfolding A_def by blast
  have f: "map fst (map2 (coin_entry E) (vtx b) ds) = map (GetHash E) (vtx b)"
    using c(4) by (intro nth_equalityI) simp_all
  have n: "\<forall>t \<in> set (map2 (coin_entry E) (vtx b) ds). coins.no_unspent (fst t) A"
    using c(2) by (auto dest: set_zip_leftD)
  have r: "rev (map2 (coin_entry E) (vtx b) ds) = map2 (coin_entry E) (rev (vtx b)) (rev ds)"
    using c(4) by (simp add: rev_map zip_rev)
  note u = coins.disconnect_connect [OF c(5) c(1) [folded f] n, unfolded r f]
  have "\<exists>db. disconnect_txs E (rev (vtx b)) (cd_tx D') = Some db \<and>
      coins_of (db_index db) = fold coins.disconnect_coin (map2 (coin_entry E) (rev (vtx b)) (rev ds)) (coins_of (db_index (cd_tx D')))"
    using disconnect_txs_coins [of "cd_tx D'" "rev ds" "rev (vtx b)" E] c(3,4,6) u assms(3) by simp
  then obtain db where db: "disconnect_txs E (rev (vtx b)) (cd_tx D') = Some db"
      "coins_of (db_index db) = fold coins_erase (map (GetHash E) (vtx b)) A"
    using u c(6) by auto
  with assms(4) show ?thesis
    by (auto simp: DisconnectBlock_def write_prev_next_def WriteBlockIndex_def A_def)
qed

lemma unspent_erases:
  "\<forall>h \<in> set hs. coins.no_unspent h A \<Longrightarrow> coins_unspent (fold coins_erase hs A) = coins_unspent A"
proof (induction hs arbitrary: A)
  case (Cons h hs)
  have "coins_unspent (coins_erase h A) = {q \<in> coins_unspent A. prev_hash q \<noteq> h}"
    by (auto simp: coins_unspent_def coins_erase_def split: if_splits)
  then have "coins_unspent (coins_erase h A) = coins_unspent A"
    using Cons.prems by (auto simp: coins.no_unspent_def)
  with Cons show ?case by (auto simp: coins.no_unspent_def)
qed simp

section \<open>Money\<close>

lemma value_in_loop_exact:
  assumes "\<forall>i \<in> set is. 0 \<le> input_value I i" and "0 \<le> acc" and "acc + sum_list (map (input_value I) is) \<le> MAX_MONEY"
    and "value_in_loop I is acc = Inr v"
  shows "v = acc + sum_list (map (input_value I) is)"
  using assms
proof (induction "is" arbitrary: acc)
  case (Cons i "is")
  obtain t where t: "GetOutputFor i I = Inr t" using Cons.prems(4) by (cases "GetOutputFor i I") auto
  have tv: "nValue t = input_value I i"
    using t by (auto simp: GetOutputFor_def input_value_def split: option.splits if_splits)
  have "0 \<le> sum_list (map (input_value I) is)" using Cons.prems(1) by (intro sum_list_nonneg) auto
  then have "wrap64 (acc + nValue t) = acc + input_value I i"
    unfolding tv using Cons.prems by (intro wrap64_id) (auto simp: int64_range_def MAX_MONEY_small)
  with Cons.IH [of "acc + input_value I i"] Cons.prems t show ?case by (auto simp: add.assoc)
qed simp

text \<open>What connecting a transaction other than the coinbase adds to the totals of the block.\<close>

lemma connect_noncoinbase_values:
  assumes "connect_noncoinbase E N db pool pindex d tx st = Inr st'" and "\<not> IsCoinBase tx"
  obtains vi vo where "MoneyRange vi" and "MoneyRange vo" and "\<not> IsCoinStake tx \<Longrightarrow> vo \<le> vi"
    and "cs_nValueIn st' = wrap64 (cs_nValueIn st + vi)" and "cs_nValueOut st' = wrap64 (cs_nValueOut st + vo)"
    and "cs_nFees st' = (if IsCoinStake tx then cs_nFees st else wrap64 (cs_nFees st + (vi - vo)))"
    and "nStakeReward st' = (if IsCoinStake tx then vo - vi else nStakeReward st)"
proof -
  obtain I where I: "FetchInputs db (mapQueuedChanges st) pool True False tx Map.empty = Inr I"
    using assms(1) by (auto simp: connect_noncoinbase_def split: sum.splits)
  obtain k where k: "GetP2SHSigOpCount tx I = Inr k" "\<not> cs_nSigOps st + k > MAX_BLOCK_SIGOPS"
    using assms(1) I by (auto simp: connect_noncoinbase_def split: sum.splits if_splits)
  obtain vi vo where v: "GetValueIn tx I = Inr vi" "GetValueOut tx = Some vo"
    using assms(1) I k by (cases "GetValueIn tx I"; cases "GetValueOut tx") (auto simp: connect_noncoinbase_def)
  obtain Q C' where Q: "ConnectInputs E N (cs_cache st) tx I (mapQueuedChanges st) d (map CBlockPos.truncate pindex) True False = Inr (Q, C')"
    using assms(1) I k v by (auto simp: connect_noncoinbase_def split: sum.splits)
  obtain w where w: "connect_check N (map CBlockPos.truncate pindex) (nTime tx) I (vin tx) 0 = Inr w"
    using Q assms(2) by (auto simp: ConnectInputs_def split: sum.splits)
  note s = connect_check_sound [OF MoneyRange_0 w]
  have "vi = 0 + sum_list (map (input_value I) (vin tx))"
    using v(1) assms(2) s by (intro value_in_loop_exact) (auto simp: GetValueIn_def MoneyRange_def)
  then have vw: "vi = w" using s by simp
  have mo: "MoneyRange vo" using v(2) value_out_loop_range [OF MoneyRange_0] by (simp add: GetValueOut_def)
  have le: "vo \<le> vi" if "\<not> IsCoinStake tx"
  proof -
    from Q assms(2) w that have "connect_fees tx True w = Inr ()" by (auto simp: ConnectInputs_def split: sum.splits)
    with v(2) vw show ?thesis by (auto simp: connect_fees_def Let_def split: if_splits)
  qed
  have diff: "wrap64 (vi - vo) = vi - vo" "wrap64 (vo - vi) = vo - vi"
    using s mo vw by (auto intro!: wrap64_id simp: int64_range_def MoneyRange_def MAX_MONEY_small)
  have "st' = st\<lparr>cs_nSigOps := cs_nSigOps st + k, cs_nValueIn := wrap64 (cs_nValueIn st + vi),
      cs_nValueOut := wrap64 (cs_nValueOut st + vo),
      cs_nFees := (if \<not> IsCoinStake tx then wrap64 (cs_nFees st + (vi - vo)) else cs_nFees st),
      nStakeReward := (if IsCoinStake tx then vo - vi else nStakeReward st), mapQueuedChanges := Q, cs_cache := C'\<rparr>"
    using assms(1) I k v Q by (auto simp: connect_noncoinbase_def diff cong: if_cong)
  moreover have "MoneyRange vi" using s vw by blast
  ultimately show thesis using that [of vi vo] mo le by simp
qed

lemma connect_tx_inner:
  assumes "connect_tx E N db pool pindex fJust tx st = Inr st'"
  obtains st1 st2 where "cs_nValueIn st1 = cs_nValueIn st" "cs_nValueOut st1 = cs_nValueOut st" "cs_nFees st1 = cs_nFees st"
    "nStakeReward st1 = nStakeReward st"
    "(if IsCoinBase tx then connect_coinbase tx st1 else connect_noncoinbase E N db pool pindex (posThisTx (hd pindex) st) tx st1) = Inr st2"
    "cs_nValueIn st' = cs_nValueIn st2" "cs_nValueOut st' = cs_nValueOut st2" "cs_nFees st' = cs_nFees st2" "nStakeReward st' = nStakeReward st2"
proof -
  define st1 where "st1 = enter_tx fJust tx st"
  obtain st2 where "(if IsCoinBase tx then connect_coinbase tx st1 else connect_noncoinbase E N db pool pindex (posThisTx (hd pindex) st) tx st1) = Inr st2"
    "st' = st2\<lparr>mapQueuedChanges := (mapQueuedChanges st2)(GetHash E tx \<mapsto> CTxIndex_new (posThisTx (hd pindex) st) (length (vout tx)))\<rparr>"
    using assms by (auto simp: connect_tx_def Let_def simp flip: st1_def split: if_splits sum.splits)
  with that [of st1 st2] show thesis by (simp add: st1_def enter_tx_def)
qed

text \<open>
  The totals stay within the 64-bit range for up to 4000 transactions; \<open>within_totals k\<close> bounds them after
  \<open>k\<close> transactions.
\<close>

definition within_totals :: "nat \<Rightarrow> connect_state \<Rightarrow> bool" where
  "within_totals k st \<longleftrightarrow>
     0 \<le> cs_nValueIn st \<and> cs_nValueIn st \<le> int k * MAX_MONEY \<and>
     0 \<le> cs_nValueOut st \<and> cs_nValueOut st \<le> int k * MAX_MONEY \<and>
     0 \<le> cs_nFees st \<and> cs_nFees st \<le> int k * MAX_MONEY"

lemma wrap64_total: "0 \<le> a \<Longrightarrow> a \<le> int k * MAX_MONEY \<Longrightarrow> MoneyRange v \<Longrightarrow> k < 4000 \<Longrightarrow> wrap64 (a + v) = a + v"
proof (rule wrap64_id)
  assume a: "0 \<le> a" "a \<le> int k * MAX_MONEY" "MoneyRange v" "k < 4000"
  have "int k * MAX_MONEY \<le> 3999 * MAX_MONEY" using a(4) by (simp add: MAX_MONEY_small)
  with a show "int64_range (a + v)" by (simp add: int64_range_def MoneyRange_def MAX_MONEY_small)
qed

lemma total_step: "0 \<le> a \<Longrightarrow> a \<le> int k * MAX_MONEY \<Longrightarrow> MoneyRange v \<Longrightarrow> 0 \<le> a + v \<and> a + v \<le> int (Suc k) * MAX_MONEY"
  by (simp add: MoneyRange_def algebra_simps)

lemma connect_tx_balance:
  assumes "connect_tx E N db pool pindex fJust tx st = Inr st'" and "within_totals k st" and "k < 4000"
  shows "within_totals (Suc k) st'"
    and "cs_nValueOut st' - cs_nValueIn st' + cs_nFees st' = cs_nValueOut st - cs_nValueIn st + cs_nFees st +
      (if IsCoinBase tx then the (GetValueOut tx) else if IsCoinStake tx then nStakeReward st' else 0)"
    and "\<not> IsCoinStake tx \<or> IsCoinBase tx \<Longrightarrow> nStakeReward st' = nStakeReward st"
proof -
  note wt = assms(2) [unfolded within_totals_def]
  obtain st1 st2 where eq: "cs_nValueIn st1 = cs_nValueIn st" "cs_nValueOut st1 = cs_nValueOut st" "cs_nFees st1 = cs_nFees st"
    "nStakeReward st1 = nStakeReward st"
    "(if IsCoinBase tx then connect_coinbase tx st1 else connect_noncoinbase E N db pool pindex (posThisTx (hd pindex) st) tx st1) = Inr st2"
    "cs_nValueIn st' = cs_nValueIn st2" "cs_nValueOut st' = cs_nValueOut st2" "cs_nFees st' = cs_nFees st2" "nStakeReward st' = nStakeReward st2"
    using connect_tx_inner [OF assms(1)] by blast
  have mono: "a \<le> int (Suc k) * MAX_MONEY" if "a \<le> int k * MAX_MONEY" for a
    using that by (simp add: MAX_MONEY_small algebra_simps)
  have "within_totals (Suc k) st' \<and>
    cs_nValueOut st' - cs_nValueIn st' + cs_nFees st' = cs_nValueOut st - cs_nValueIn st + cs_nFees st +
      (if IsCoinBase tx then the (GetValueOut tx) else if IsCoinStake tx then nStakeReward st' else 0) \<and>
    (\<not> IsCoinStake tx \<or> IsCoinBase tx \<longrightarrow> nStakeReward st' = nStakeReward st)"
  proof (cases "IsCoinBase tx")
    case True
    with eq(5) obtain v where v: "GetValueOut tx = Some v" "st2 = st1\<lparr>cs_nValueOut := wrap64 (cs_nValueOut st1 + v)\<rparr>"
      by (auto simp: connect_coinbase_def split: option.splits)
    have mv: "MoneyRange v" using v(1) value_out_loop_range [OF MoneyRange_0] by (simp add: GetValueOut_def)
    with wt assms(3) have "wrap64 (cs_nValueOut st + v) = cs_nValueOut st + v" by (intro wrap64_total) auto
    then show ?thesis
      using True v wt eq total_step [of "cs_nValueOut st" k v] mv mono by (simp add: within_totals_def)
  next
    case False
    with eq(5) have "connect_noncoinbase E N db pool pindex (posThisTx (hd pindex) st) tx st1 = Inr st2" by simp
    from connect_noncoinbase_values [OF this False] obtain vi vo where v: "MoneyRange vi" "MoneyRange vo"
        "\<not> IsCoinStake tx \<Longrightarrow> vo \<le> vi"
        "cs_nValueIn st2 = wrap64 (cs_nValueIn st1 + vi)" "cs_nValueOut st2 = wrap64 (cs_nValueOut st1 + vo)"
        "cs_nFees st2 = (if IsCoinStake tx then cs_nFees st1 else wrap64 (cs_nFees st1 + (vi - vo)))"
        "nStakeReward st2 = (if IsCoinStake tx then vo - vi else nStakeReward st1)"
      by blast
    have fee: "MoneyRange (vi - vo)" if "\<not> IsCoinStake tx" using v(1,2,3) that by (simp add: MoneyRange_def)
    have w: "wrap64 (cs_nValueIn st + vi) = cs_nValueIn st + vi" "wrap64 (cs_nValueOut st + vo) = cs_nValueOut st + vo"
      using wt assms(3) v(1,2) by (auto intro!: wrap64_total)
    have wf: "\<not> IsCoinStake tx \<Longrightarrow> wrap64 (cs_nFees st + (vi - vo)) = cs_nFees st + (vi - vo)"
      using wt assms(3) fee by (intro wrap64_total) auto
    have "within_totals (Suc k) st'"
      unfolding within_totals_def eq(6-8) v(4-6) eq(1-3) w
      using total_step [of "cs_nValueIn st" k vi] total_step [of "cs_nValueOut st" k vo]
        total_step [of "cs_nFees st" k "vi - vo"] wt v(1,2) fee wf mono by auto
    then show ?thesis using False v eq w wf by auto
  qed
  then show "within_totals (Suc k) st'" "cs_nValueOut st' - cs_nValueIn st' + cs_nFees st' = cs_nValueOut st - cs_nValueIn st + cs_nFees st +
      (if IsCoinBase tx then the (GetValueOut tx) else if IsCoinStake tx then nStakeReward st' else 0)"
    "\<not> IsCoinStake tx \<or> IsCoinBase tx \<Longrightarrow> nStakeReward st' = nStakeReward st" by blast+
qed

lemma connect_txs_balance:
  assumes "connect_txs E N db pool pindex fJust txs st = Inr st'" and "within_totals k st" and "k + length txs \<le> 4000"
    and "\<forall>tx \<in> set txs. \<not> IsCoinBase tx \<and> \<not> IsCoinStake tx"
  shows "within_totals (k + length txs) st'"
    and "cs_nValueOut st' - cs_nValueIn st' + cs_nFees st' = cs_nValueOut st - cs_nValueIn st + cs_nFees st"
    and "nStakeReward st' = nStakeReward st"
  using assms
proof (induction txs arbitrary: st k)
  case (Cons tx txs)
  {
    case 1
    then obtain st1 where "connect_tx E N db pool pindex fJust tx st = Inr st1" "connect_txs E N db pool pindex fJust txs st1 = Inr st'"
      by (auto split: sum.splits)
    with Cons.IH(1) [of st1 "Suc k"] connect_tx_balance(1) [of E N db pool pindex fJust tx st st1 k] 1 show ?case by auto
  next
    case 2
    then obtain st1 where "connect_tx E N db pool pindex fJust tx st = Inr st1" "connect_txs E N db pool pindex fJust txs st1 = Inr st'"
      by (auto split: sum.splits)
    with Cons.IH(2) [of st1 "Suc k"] connect_tx_balance(1,2) [of E N db pool pindex fJust tx st st1 k] 2 show ?case by auto
  next
    case 3
    then obtain st1 where "connect_tx E N db pool pindex fJust tx st = Inr st1" "connect_txs E N db pool pindex fJust txs st1 = Inr st'"
      by (auto split: sum.splits)
    with Cons.IH(3) [of st1 "Suc k"] connect_tx_balance(1,3) [of E N db pool pindex fJust tx st st1 k] 3 show ?case by auto
  }
qed simp_all

lemma CheckBlock_shape:
  assumes "CheckBlock E N b f g s = Inr ()"
  obtains cb rest where "vtx b = cb # rest" and "IsCoinBase cb" and "\<forall>tx \<in> set rest. \<not> IsCoinBase tx"
    and "IsProofOfStake b \<Longrightarrow> length (vout cb) = 1 \<and> CTxOut_IsEmpty (vout cb ! 0) \<and> (\<forall>tx \<in> set (drop 1 rest). \<not> IsCoinStake tx)"
proof -
  obtain cb rest where v: "vtx b = cb # rest" using assms by (cases "vtx b") (auto simp: CheckBlock_def)
  have a: "IsCoinBase cb" "\<forall>tx \<in> set rest. \<not> IsCoinBase tx"
    using assms v by (auto simp: CheckBlock_def split: if_splits)
  have "length (vout cb) = 1 \<and> CTxOut_IsEmpty (vout cb ! 0) \<and> (\<forall>tx \<in> set (drop 1 rest). \<not> IsCoinStake tx)" if "IsProofOfStake b"
    using assms v that by (auto simp: CheckBlock_def check_stake_def numeral_2_eq_2 split: if_splits sum.splits)
  with that v a show thesis by blast
qed

lemma within_totals_start:
  "within_totals 0 \<lparr>cs_nTxPos = n, mapQueuedChanges = Map.empty, cs_nFees = 0, cs_nValueIn = 0,
     cs_nValueOut = 0, nStakeReward = 0, cs_nSigOps = 0, cs_cache = C\<rparr>"
  by (simp add: within_totals_def)

text \<open>The subsidy of a stake of a given coin age, without fees.\<close>

definition stake_subsidy :: "int \<Rightarrow> int" where
  "stake_subsidy nCoinAge = GetProofOfStakeReward nCoinAge 0"

lemma stake_reward_split:
  assumes "0 \<le> f" and "f \<le> 4000 * MAX_MONEY"
  shows "GetProofOfStakeReward a f = stake_subsidy a + f"
proof -
  define m where "m = wrap64 (wrap64 (a * COIN_YEAR_REWARD) * 33)"
  have m: "int64_range m" by (simp add: m_def)
  have "\<bar>int_quot m 12053\<bar> \<le> \<bar>m\<bar> div 12053"
    by (auto simp: int_quot_def abs_mult sgn_if)
  also have "\<dots> \<le> 2 ^ 63 div 12053" using m by (intro zdiv_mono1) (auto simp: int64_range_def)
  finally have q: "\<bar>int_quot m 12053\<bar> \<le> 2 ^ 63 div 12053" .
  then have "wrap64 (int_quot m 12053 + f) = int_quot m 12053 + f" "wrap64 (int_quot m 12053) = int_quot m 12053"
    using assms by (auto intro!: wrap64_id simp: int64_range_def MAX_MONEY_small)
  then show ?thesis by (simp add: stake_subsidy_def GetProofOfStakeReward_def Let_def flip: m_def)
qed

lemma ConnectBlock_balance:
  assumes "CheckBlock E N b f g s = Inr ()"
    and "connect_txs E N db pool pindex False (vtx b)
           \<lparr>cs_nTxPos = n, mapQueuedChanges = Map.empty, cs_nFees = 0, cs_nValueIn = 0,
            cs_nValueOut = 0, nStakeReward = 0, cs_nSigOps = 0, cs_cache = C\<rparr> = Inr st"
    and "length (vtx b) \<le> 4000" and "IsProofOfWork b \<Longrightarrow> \<forall>tx \<in> set (vtx b). \<not> IsCoinStake tx"
  shows "within_totals (length (vtx b)) st \<and>
    cs_nValueOut st - cs_nValueIn st + cs_nFees st = (if IsProofOfWork b then the (GetValueOut (vtx b ! 0)) else nStakeReward st)"
proof -
  let ?st0 = "\<lparr>cs_nTxPos = n, mapQueuedChanges = Map.empty, cs_nFees = 0, cs_nValueIn = 0,
            cs_nValueOut = 0, nStakeReward = 0, cs_nSigOps = 0, cs_cache = C\<rparr>"
  from assms(1) obtain cb rest where v: "vtx b = cb # rest" "IsCoinBase cb" "\<forall>tx \<in> set rest. \<not> IsCoinBase tx"
    and stk: "IsProofOfStake b \<Longrightarrow> length (vout cb) = 1 \<and> CTxOut_IsEmpty (vout cb ! 0) \<and> (\<forall>tx \<in> set (drop 1 rest). \<not> IsCoinStake tx)"
    by (rule CheckBlock_shape) blast
  from assms(2) v(1) obtain st1 where st1: "connect_tx E N db pool pindex False cb ?st0 = Inr st1"
      "connect_txs E N db pool pindex False rest st1 = Inr st"
    by (auto split: sum.splits)
  note b1 = connect_tx_balance [OF st1(1) within_totals_start, simplified]
  have k1: "cs_nValueOut st1 - cs_nValueIn st1 + cs_nFees st1 = the (GetValueOut cb)" using b1(2) v(2) by simp
  show ?thesis
  proof (cases "IsProofOfWork b")
    case True
    with assms(4) v have "\<forall>tx \<in> set rest. \<not> IsCoinBase tx \<and> \<not> IsCoinStake tx" by simp
    with connect_txs_balance [OF st1(2) b1(1)] assms(3) v(1) True k1 show ?thesis by simp
  next
    case False
    then have pos: "IsProofOfStake b" by (simp add: IsProofOfWork_def)
    then obtain cs rest' where r: "rest = cs # rest'" "IsCoinStake cs"
      using v(1) by (cases rest) (auto simp: IsProofOfStake_def)
    from st1(2) r obtain st2 where st2: "connect_tx E N db pool pindex False cs st1 = Inr st2"
        "connect_txs E N db pool pindex False rest' st2 = Inr st"
      by (auto split: sum.splits)
    note b2 = connect_tx_balance [OF st2(1) b1(1), simplified]
    have z: "GetValueOut cb = Some 0"
    proof -
      obtain t where "vout cb = [t]" "nValue t = 0"
        using stk [OF pos] by (cases "vout cb") (auto simp: CTxOut_IsEmpty_def)
      then show ?thesis by (simp add: GetValueOut_def wrap64_id int64_range_def MoneyRange_0)
    qed
    have nc: "\<forall>tx \<in> set rest'. \<not> IsCoinBase tx \<and> \<not> IsCoinStake tx" using stk [OF pos] v(3) r(1) by simp
    have ncs: "\<not> IsCoinBase cs" using v(3) r(1) by simp
    from connect_txs_balance [OF st2(2) b2(1) _ nc] assms(3) v(1) r(1)
    have "within_totals (length (vtx b)) st"
      "cs_nValueOut st - cs_nValueIn st + cs_nFees st = cs_nValueOut st2 - cs_nValueIn st2 + cs_nFees st2"
      "nStakeReward st = nStakeReward st2" by simp_all
    with b2(2) k1 z ncs r(2) False show ?thesis by simp
  qed
qed

lemma ConnectBlock_supply:
  assumes "ConnectBlock E N C D pool block_time b pindex False = Inr (D', p, C')"
    and "length (vtx b) \<le> 4000" and "IsProofOfWork b \<Longrightarrow> \<forall>tx \<in> set (vtx b). \<not> IsCoinStake tx"
  defines "s \<equiv> if tl pindex = [] then 0 else nMoneySupply (hd (tl pindex))"
  assumes "MoneyRange s"
  shows "IsProofOfWork b \<Longrightarrow> nMoneySupply p \<le> s + 80 * COIN"
    and "IsProofOfStake b \<Longrightarrow> \<exists>nCoinAge. GetCoinAge E N (cd_tx D) block_time (vtx b ! 1) = Inr nCoinAge \<and>
      nMoneySupply p \<le> s + stake_subsidy (wrap64 (uint nCoinAge))"
proof -
  from assms(1) obtain st where c: "CheckBlock E N b True True False = Inr ()"
    and st: "connect_txs E N (cd_tx D) pool pindex False (vtx b)
           \<lparr>cs_nTxPos = first_tx_pos b (hd pindex) False, mapQueuedChanges = Map.empty, cs_nFees = 0, cs_nValueIn = 0,
            cs_nValueOut = 0, nStakeReward = 0, cs_nSigOps = 0, cs_cache = C\<rparr> = Inr st"
    and r: "check_reward E N (cd_tx D) block_time b st = Inr ()"
    and p: "nMoneySupply p = wrap64 (wrap64 ((if tl pindex = [] then 0 else nMoneySupply (hd (tl pindex))) + cs_nValueOut st) - cs_nValueIn st)"
    by (rule ConnectBlock_steps)
  have bal: "within_totals (length (vtx b)) st \<and>
    cs_nValueOut st - cs_nValueIn st + cs_nFees st = (if IsProofOfWork b then the (GetValueOut (vtx b ! 0)) else nStakeReward st)"
    using c st assms(2,3) by (rule ConnectBlock_balance)
  have top: "int (length (vtx b)) * MAX_MONEY \<le> 4000 * MAX_MONEY" using assms(2) by (simp add: MAX_MONEY_small)
  then have tot: "0 \<le> cs_nValueIn st" "cs_nValueIn st \<le> 4000 * MAX_MONEY" "0 \<le> cs_nValueOut st" "cs_nValueOut st \<le> 4000 * MAX_MONEY"
      "0 \<le> cs_nFees st" "cs_nFees st \<le> 4000 * MAX_MONEY"
    using bal by (auto simp: within_totals_def)
  have w1: "wrap64 (s + cs_nValueOut st) = s + cs_nValueOut st"
    using tot assms(5) by (intro wrap64_id) (simp add: int64_range_def MoneyRange_def MAX_MONEY_small)
  have "wrap64 (s + cs_nValueOut st - cs_nValueIn st) = s + cs_nValueOut st - cs_nValueIn st"
    using tot assms(5) by (intro wrap64_id) (simp add: int64_range_def MoneyRange_def MAX_MONEY_small)
  with p w1 have p': "nMoneySupply p = s + cs_nValueOut st - cs_nValueIn st" by (simp add: s_def)
  show "nMoneySupply p \<le> s + 80 * COIN" if pow: "IsProofOfWork b"
  proof -
    obtain v where v: "GetValueOut (vtx b ! 0) = Some v" "v \<le> GetProofOfWorkReward (cs_nFees st)"
      using r pow by (auto simp: check_reward_def split: option.splits if_splits)
    have "GetProofOfWorkReward (cs_nFees st) = 80 * COIN + cs_nFees st"
      unfolding GetProofOfWorkReward_def using tot by (intro wrap64_id) (simp add: int64_range_def MAX_MONEY_small COIN_def)
    with v bal pow p' show ?thesis by simp
  qed
  show "\<exists>nCoinAge. GetCoinAge E N (cd_tx D) block_time (vtx b ! 1) = Inr nCoinAge \<and>
      nMoneySupply p \<le> s + stake_subsidy (wrap64 (uint nCoinAge))" if pos: "IsProofOfStake b"
  proof -
    obtain a where a: "GetCoinAge E N (cd_tx D) block_time (vtx b ! 1) = Inr a"
        "nStakeReward st \<le> GetProofOfStakeReward (wrap64 (uint a)) (cs_nFees st)"
      using r pos by (auto simp: check_reward_def IsProofOfWork_def split: sum.splits if_splits)
    with stake_reward_split [OF tot(5,6)] bal pos p' show ?thesis by (auto simp: IsProofOfWork_def)
  qed
qed

section \<open>Properties\<close>

text \<open>C13: Connecting a block refines the set of unspent outputs. If \<open>ConnectBlock\<close> succeeds, then from the
  outputs the transaction index shows as unspent, the specification \<open>utxo_apply\<close> processes the
  transactions of the block in order: each spends distinct outputs that are unspent at its turn, no
  unspent output of an older transaction with the same hash is overwritten, and the index afterwards
  shows exactly the outputs the specification leaves. The hypothesis on the file number says that the
  position of the block does not look like the null position.\<close>

theorem ConnectBlock_refines_utxo:
  assumes "ConnectBlock E N C D pool block_time b pindex False = Inr (D', p, C')" and "bp_nFile (hd pindex) \<noteq> - 1"
  shows "utxo_apply E (vtx b) (utxo (cd_tx D)) = Some (utxo (cd_tx D'))"
proof -
  from ConnectBlock_coins [OF assms] obtain ds where "distinct (map (GetHash E) (vtx b))"
      "\<forall>tx \<in> set (vtx b). coins.no_unspent (GetHash E tx) (coins_of (db_index (cd_tx D)))"
      "length ds = length (vtx b)" "coins.connectable (map2 (coin_entry E) (vtx b) ds) (coins_of (db_index (cd_tx D)))"
      "coins_of (db_index (cd_tx D')) = coins.connect_coins (map2 (coin_entry E) (vtx b) ds) (coins_of (db_index (cd_tx D)))"
    by blast
  then show ?thesis using utxo_apply_coins unfolding utxo_coins by metis
qed

text \<open>C14: \<open>DisconnectBlock\<close> undoes \<open>ConnectBlock\<close>: on a database that accepts writes it succeeds after a
  successful connection, the unspent outputs are those from before the block, and for every hash the
  index again has the same position and the same outputs marked unspent, except that the entries of the
  block's own transactions are gone.\<close>

theorem DisconnectBlock_undoes_ConnectBlock:
  assumes "ConnectBlock E N C D pool block_time b pindex False = Inr (D', p, C')" and "bp_nFile (hd pindex) \<noteq> - 1"
    and "\<forall>h. db_writable (cd_tx D) h" and "\<forall>h. cd_index_writable D' h"
  shows "\<exists>D''. DisconnectBlock E D' b (p # tl pindex) = Some D'' \<and> utxo (cd_tx D'') = utxo (cd_tx D) \<and>
    coins_of (db_index (cd_tx D'')) = fold coins_erase (map (GetHash E) (vtx b)) (coins_of (db_index (cd_tx D)))"
proof -
  from DisconnectBlock_coins [OF assms] obtain D'' where "DisconnectBlock E D' b (p # tl pindex) = Some D''"
      "coins_of (db_index (cd_tx D'')) = fold coins_erase (map (GetHash E) (vtx b)) (coins_of (db_index (cd_tx D)))"
    by blast
  moreover have "\<forall>h \<in> set (map (GetHash E) (vtx b)). coins.no_unspent h (coins_of (db_index (cd_tx D)))"
    using ConnectBlock_coins [OF assms(1,2)] by auto
  ultimately show ?thesis unfolding utxo_coins by (auto simp: unspent_erases)
qed

text \<open>C15: Blocks inflate the money supply by at most their subsidy: after a successful connection the
  recorded supply exceeds that of the previous block by at most 80 coins for a proof-of-work block
  without coinstake transactions, and by at most the stake subsidy of the coin age spent for a
  proof-of-stake block. For up to 4000 transactions no total leaves the 64-bit range.\<close>

theorem ConnectBlock_money_supply:
  assumes "ConnectBlock E N C D pool block_time b (q # q' # qs) False = Inr (D', p, C')"
    and "length (vtx b) \<le> 4000" and "MoneyRange (nMoneySupply q')"
    and "IsProofOfWork b \<Longrightarrow> \<forall>tx \<in> set (vtx b). \<not> IsCoinStake tx"
  shows "if IsProofOfWork b then nMoneySupply p \<le> nMoneySupply q' + 80 * COIN
    else \<exists>nCoinAge. GetCoinAge E N (cd_tx D) block_time (vtx b ! 1) = Inr nCoinAge \<and>
      nMoneySupply p \<le> nMoneySupply q' + stake_subsidy (wrap64 (uint nCoinAge))"
  using ConnectBlock_supply [OF assms(1,2,4)] assms(3) by (auto simp: IsProofOfWork_def)

end
