(* ===== verification/Chain.thy ===== *)
theory Chain
  imports BlockConnect
begin

text \<open>
  The block tree and the choice of the best chain, from \<^verbatim>\<open>src/src/main.cpp\<close>: \<^verbatim>\<open>CBlock::ReadFromDisk\<close>,
  \<^verbatim>\<open>InvalidChainFound\<close>, \<^verbatim>\<open>Reorganize\<close>, \<^verbatim>\<open>SetBestChainInner\<close> and \<^verbatim>\<open>SetBestChain\<close>. Entries of the block index live in
  the map \<^verbatim>\<open>mapBlockIndex\<close> and are shared, so a pointer to one is its hash; the pointer \<^verbatim>\<open>pprev\<close> never changes
  and the list of a block's ancestors stands for following it. The database is seen through the
  transaction that \<^verbatim>\<open>SetBestChain\<close> opens (theory \<open>Txdb\<close>): writes succeed, an abort returns to the stored
  data and a commit may be refused. The wallet and the user interface are not notified here.
\<close>

section \<open>State\<close>

record index_node = CBlockIndex +
  pprev :: "u256 option"

type_synonym block_map = "u256 \<rightharpoonup> index_node"

text \<open>The block files, by file number and position, and the commits that LevelDB accepts.\<close>

record chain_io =
  block_file :: "u32 \<Rightarrow> u32 \<Rightarrow> CBlock option"
  commit_ok :: "CChainDB \<Rightarrow> bool"

record node_state =
  ns_params :: node_params
  ns_db :: CChainDB
  mapBlockIndex :: block_map
  pindexGenesisBlock :: "u256 option"
  pindexBest :: "u256 option"
  hashBestChain :: u256
  nBestChainTrust :: u256
  nBestInvalidTrust :: u256
  ns_pool :: CTxMemPool
  ns_cache :: CSignatureCache

definition hashGenesisBlock :: "node_params \<Rightarrow> u256" where
  "hashGenesisBlock N =
     (if fTestNet N then 0x0000a3af4d553378169e82ac59a767b343ad5a4b8acb9c84ca4d3fbd0ae54fee
      else 0x0000044966f40703b516c5af180582d53f783bfd319bb045e2dc3e05ea695d46)"

section \<open>The block tree\<close>

text \<open>A block and its ancestors; the height bounds the length of the walk.\<close>

fun ancestry :: "nat \<Rightarrow> block_map \<Rightarrow> u256 \<Rightarrow> u256 list" where
  "ancestry 0 m h = []"
| "ancestry (Suc n) m h =
     (case m h of
        None \<Rightarrow> []
      | Some p \<Rightarrow> h # (case pprev p of None \<Rightarrow> [] | Some q \<Rightarrow> ancestry n m q))"

definition chain_from :: "block_map \<Rightarrow> u256 \<Rightarrow> u256 list" where
  "chain_from m h = (case m h of None \<Rightarrow> [] | Some p \<Rightarrow> ancestry (Suc (nat (bp_nHeight p))) m h)"

definition entries :: "block_map \<Rightarrow> u256 list \<Rightarrow> CBlockIndex list" where
  "entries m hs = map CBlockIndex.truncate (List.map_filter m hs)"

definition node_height :: "block_map \<Rightarrow> u256 \<Rightarrow> int" where
  "node_height m h = (case m h of None \<Rightarrow> - 1 | Some p \<Rightarrow> bp_nHeight p)"

definition node_trust :: "block_map \<Rightarrow> u256 \<Rightarrow> u256" where
  "node_trust m h = (case m h of None \<Rightarrow> 0 | Some p \<Rightarrow> nChainTrust p)"

text \<open>Reading a block through its index entry checks proof of work and the hash.\<close>

definition ReadFromDisk :: "env \<Rightarrow> node_params \<Rightarrow> chain_io \<Rightarrow> block_map \<Rightarrow> u256 \<Rightarrow> CBlock option" where
  "ReadFromDisk E N io m h =
     (case m h of
        None \<Rightarrow> None
      | Some p \<Rightarrow>
          (case block_file io (bp_nFile p) (bp_nBlockPos p) of
             None \<Rightarrow> None
           | Some b \<Rightarrow>
               if IsProofOfWork b \<and> \<not> CheckProofOfWork E N (CBlock_GetHash E b) (nBits b) then None
               else if CBlock_GetHash E b \<noteq> idx_hash p then None
               else Some b))"

text \<open>The time in the header of a stored block; a block whose header alone is readable counts as unreadable.\<close>

definition header_time :: "chain_io \<Rightarrow> u32 \<Rightarrow> u32 \<Rightarrow> u32 option" where
  "header_time io f pos = map_option blk_nTime (block_file io f pos)"

section \<open>Transactions of the database\<close>

definition begin_view :: "CChainDB \<Rightarrow> CChainDB" where
  "begin_view D = D\<lparr>cd_tx := (cd_tx D)\<lparr>db_writable := (\<lambda>_. True)\<rparr>, cd_index_writable := (\<lambda>_. True)\<rparr>"

definition WriteHashBestChain :: "u256 \<Rightarrow> CChainDB \<Rightarrow> CChainDB" where
  "WriteHashBestChain h D = D\<lparr>cd_best := Some h\<rparr>"

text \<open>The stored data after a commit of the view \<open>D\<close> over \<open>D0\<close>; None is a refused commit.\<close>

definition commit_view :: "chain_io \<Rightarrow> CChainDB \<Rightarrow> CChainDB \<Rightarrow> CChainDB option" where
  "commit_view io D0 D =
     (if commit_ok io D
      then Some (D\<lparr>cd_tx := (cd_tx D)\<lparr>db_writable := db_writable (cd_tx D0)\<rparr>, cd_index_writable := cd_index_writable D0\<rparr>)
      else None)"

definition InvalidChainFound :: "u256 \<Rightarrow> node_state \<Rightarrow> node_state" where
  "InvalidChainFound h S =
     (let t = node_trust (mapBlockIndex S) h
      in if t > nBestInvalidTrust S
         then S\<lparr>nBestInvalidTrust := t, ns_db := (ns_db S)\<lparr>cd_invalid_trust := Some t\<rparr>\<rparr>
         else S)"

section \<open>Reorganisation\<close>

text \<open>
  Walking back from the longer chain, then both, until they meet. A chain is the list of a block and
  its ancestors, an empty list is a null pointer, and None is the error of reaching one.
\<close>

fun drop_longer :: "block_map \<Rightarrow> int \<Rightarrow> u256 list \<Rightarrow> u256 list" where
  "drop_longer m k [] = []"
| "drop_longer m k (h # hs) = (if node_height m h > k then drop_longer m k hs else h # hs)"

fun find_fork :: "block_map \<Rightarrow> u256 list \<Rightarrow> u256 list \<Rightarrow> (u256 list) option" where
  "find_fork m [] plonger = None"
| "find_fork m (f # fs) plonger =
     (if plonger \<noteq> [] \<and> f = hd plonger then Some (f # fs)
      else (case drop_longer m (node_height m f) plonger of
          [] \<Rightarrow> None
        | l # ls \<Rightarrow> if f = l then Some (f # fs) else find_fork m fs (l # ls)))"

fun disconnect_branch ::
  "env \<Rightarrow> node_params \<Rightarrow> chain_io \<Rightarrow> block_map \<Rightarrow> u256 list \<Rightarrow> CChainDB \<Rightarrow> CTransaction list
     \<Rightarrow> (CChainDB \<times> CTransaction list) option" where
  "disconnect_branch E N io m [] D vResurrect = Some (D, vResurrect)"
| "disconnect_branch E N io m (h # hs) D vResurrect =
     (case ReadFromDisk E N io m h of
        None \<Rightarrow> None
      | Some b \<Rightarrow>
          (case DisconnectBlock E D b (entries m (chain_from m h)) of
             None \<Rightarrow> None
           | Some D' \<Rightarrow>
               disconnect_branch E N io m hs D'
                 (vResurrect @ filter (\<lambda>tx. \<not> (IsCoinBase tx \<or> IsCoinStake tx)) (vtx b))))"

text \<open>\<^verbatim>\<open>ConnectBlock\<close> on an entry of the tree: the entry gets its mint and money supply.\<close>

definition put_totals :: "u256 \<Rightarrow> CBlockIndex \<Rightarrow> block_map \<Rightarrow> block_map" where
  "put_totals h p m = m(h := map_option (\<lambda>q. q\<lparr>nMint := nMint p, nMoneySupply := nMoneySupply p\<rparr>) (m h))"

definition connect_node ::
  "env \<Rightarrow> node_params \<Rightarrow> chain_io \<Rightarrow> CTxMemPool \<Rightarrow> u256 \<Rightarrow> CBlock \<Rightarrow> CChainDB \<times> block_map \<times> CSignatureCache
     \<Rightarrow> (CChainDB \<times> block_map \<times> CSignatureCache) option" where
  "connect_node E N io pool h b s =
     (case s of (D, m, C) \<Rightarrow>
        (case ConnectBlock E N C D pool (header_time io) b (entries m (chain_from m h)) False of
           Inl _ \<Rightarrow> None
         | Inr (D', p, C') \<Rightarrow> Some (D', put_totals h p m, C')))"

text \<open>The result of connecting a branch: false with the entries changed so far, or the new state.\<close>

fun connect_branch ::
  "env \<Rightarrow> node_params \<Rightarrow> chain_io \<Rightarrow> CTxMemPool \<Rightarrow> u256 list \<Rightarrow> CChainDB \<times> block_map \<times> CSignatureCache \<Rightarrow> CTransaction list
     \<Rightarrow> (block_map \<times> CSignatureCache) + (CChainDB \<times> block_map \<times> CSignatureCache) \<times> CTransaction list" where
  "connect_branch E N io pool [] s vDelete = Inr (s, vDelete)"
| "connect_branch E N io pool (h # hs) s vDelete =
     (case ReadFromDisk E N io (fst (snd s)) h of
        None \<Rightarrow> Inl (snd s)
      | Some b \<Rightarrow>
          (case connect_node E N io pool h b s of
             None \<Rightarrow> Inl (snd s)
           | Some s' \<Rightarrow> connect_branch E N io pool hs s' (vDelete @ vtx b)))"

definition set_next :: "u256 \<Rightarrow> block_map \<Rightarrow> block_map" where
  "set_next h m =
     (case Option.bind (m h) pprev of
        None \<Rightarrow> m
      | Some q \<Rightarrow> m(q := map_option (\<lambda>p. p\<lparr>idx_next := h\<rparr>) (m q)))"

definition clear_next :: "u256 \<Rightarrow> block_map \<Rightarrow> block_map" where
  "clear_next h m =
     (case Option.bind (m h) pprev of
        None \<Rightarrow> m
      | Some q \<Rightarrow> m(q := map_option (\<lambda>p. p\<lparr>idx_next := 0\<rparr>) (m q)))"

text \<open>Back into the pool with the transactions of the old branch, then out with those of the new one.\<close>

fun resurrect :: "env \<Rightarrow> node_params \<Rightarrow> CSignatureCache \<Rightarrow> CTxDB \<Rightarrow> CBlockPos list \<Rightarrow> CTransaction list \<Rightarrow> CTxMemPool \<Rightarrow> CTxMemPool" where
  "resurrect E N C db chain [] pool = pool"
| "resurrect E N C db chain (tx # txs) pool =
     (case accept E N C db pool chain False tx False of
        Inl _ \<Rightarrow> resurrect E N C db chain txs pool
      | Inr (pool', _) \<Rightarrow> resurrect E N C db chain txs pool')"

fun delete_redundant :: "nat \<Rightarrow> env \<Rightarrow> CTransaction list \<Rightarrow> CTxMemPool \<Rightarrow> CTxMemPool option" where
  "delete_redundant n E [] pool = Some pool"
| "delete_redundant n E (tx # txs) pool =
     (case Option.bind (pool_remove n E tx False pool) (removeConflicts n E tx) of
        None \<Rightarrow> None
      | Some pool' \<Rightarrow> delete_redundant n E txs pool')"

text \<open>
  \<^verbatim>\<open>Reorganize\<close>: \<open>Inl\<close> is the state after returning false, before the caller aborts the transaction. The
  first argument bounds the recursion of the removals from the pool; None means it was too small.
\<close>

definition Reorganize :: "nat \<Rightarrow> env \<Rightarrow> chain_io \<Rightarrow> u256 \<Rightarrow> node_state \<Rightarrow> (node_state + node_state) option" where
  "Reorganize n E io hashNew S =
     (let N = ns_params S; m = mapBlockIndex S;
          best = (case pindexBest S of None \<Rightarrow> [] | Some b \<Rightarrow> chain_from m b); new = chain_from m hashNew
      in case find_fork m best new of
           None \<Rightarrow> Some (Inl S)
         | Some fork \<Rightarrow>
             (let vDisconnect = takeWhile (\<lambda>h. h \<noteq> hd fork) best; vConnect = rev (takeWhile (\<lambda>h. h \<noteq> hd fork) new)
              in case disconnect_branch E N io m vDisconnect (begin_view (ns_db S)) [] of
                   None \<Rightarrow> Some (Inl S)
                 | Some (D1, vResurrect) \<Rightarrow>
                     (case connect_branch E N io (ns_pool S) vConnect (D1, m, ns_cache S) [] of
                        Inl (m', C') \<Rightarrow> Some (Inl (S\<lparr>mapBlockIndex := m', ns_cache := C'\<rparr>))
                      | Inr ((D2, m', C'), vDelete) \<Rightarrow>
                          (case commit_view io (ns_db S) (WriteHashBestChain hashNew D2) of
                             None \<Rightarrow> Some (Inl (S\<lparr>mapBlockIndex := m', ns_cache := C'\<rparr>))
                           | Some D3 \<Rightarrow>
                               map_option
                                 (\<lambda>pool. Inr (S\<lparr>ns_db := D3, mapBlockIndex := fold set_next vConnect (fold clear_next vDisconnect m'),
                                              ns_pool := pool, ns_cache := C'\<rparr>))
                                 (delete_redundant n E vDelete
                                    (resurrect E N C' (cd_tx D3) (map CBlockPos.truncate (entries m' best)) vResurrect (ns_pool S)))))))"

section \<open>Setting the best chain\<close>

text \<open>A removal that does not descend into the spenders needs no bound.\<close>

definition remove_from_pool :: "env \<Rightarrow> CTransaction \<Rightarrow> CTxMemPool \<Rightarrow> CTxMemPool" where
  "remove_from_pool E tx pool = (case pool_remove 1 E tx False pool of None \<Rightarrow> pool | Some pool' \<Rightarrow> pool')"

definition SetBestChainInner :: "env \<Rightarrow> chain_io \<Rightarrow> CBlock \<Rightarrow> u256 \<Rightarrow> node_state \<Rightarrow> node_state + node_state" where
  "SetBestChainInner E io b h S =
     (case connect_node E (ns_params S) io (ns_pool S) h b (begin_view (ns_db S), mapBlockIndex S, ns_cache S) of
        None \<Rightarrow> Inl (InvalidChainFound h S)
      | Some (D, m, C) \<Rightarrow>
          (case commit_view io (ns_db S) (WriteHashBestChain (CBlock_GetHash E b) D) of
             None \<Rightarrow> Inl (S\<lparr>mapBlockIndex := m, ns_cache := C\<rparr>)
           | Some D' \<Rightarrow>
               Inr (S\<lparr>ns_db := D', mapBlockIndex := set_next h m,
                      ns_pool := fold (remove_from_pool E) (vtx b) (ns_pool S), ns_cache := C\<rparr>)))"

text \<open>The blocks whose connection is postponed: as long as the parent alone beats the best chain.\<close>

fun postpone :: "block_map \<Rightarrow> u256 \<Rightarrow> u256 list \<Rightarrow> u256 list \<times> u256" where
  "postpone m best (h # q # hs) =
     (if node_trust m q > node_trust m best then (case postpone m best (q # hs) of (hs', i) \<Rightarrow> (h # hs', i)) else ([], h))"
| "postpone m best [h] = ([], h)"
| "postpone m best [] = ([], 0)"

fun connect_postponed :: "env \<Rightarrow> chain_io \<Rightarrow> u256 list \<Rightarrow> node_state \<Rightarrow> node_state" where
  "connect_postponed E io [] S = S"
| "connect_postponed E io (h # hs) S =
     (case ReadFromDisk E (ns_params S) io (mapBlockIndex S) h of
        None \<Rightarrow> S
      | Some b \<Rightarrow> (case SetBestChainInner E io b h S of Inl S' \<Rightarrow> S' | Inr S' \<Rightarrow> connect_postponed E io hs S'))"

definition new_best :: "CBlock \<Rightarrow> env \<Rightarrow> u256 \<Rightarrow> node_state \<Rightarrow> node_state" where
  "new_best b E h S =
     S\<lparr>hashBestChain := CBlock_GetHash E b, pindexBest := Some h,
       ns_params := (ns_params S)\<lparr>nBestHeight := node_height (mapBlockIndex S) h\<rparr>,
       nBestChainTrust := node_trust (mapBlockIndex S) h,
       ns_pool := (ns_pool S)\<lparr>nTransactionsUpdated := nTransactionsUpdated (ns_pool S) + 1\<rparr>\<rparr>"

definition SetBestChain :: "nat \<Rightarrow> env \<Rightarrow> chain_io \<Rightarrow> CBlock \<Rightarrow> u256 \<Rightarrow> node_state \<Rightarrow> (node_state + node_state) option" where
  "SetBestChain n E io b h S =
     (if pindexGenesisBlock S = None \<and> CBlock_GetHash E b = hashGenesisBlock (ns_params S) then
        (case commit_view io (ns_db S) (WriteHashBestChain (CBlock_GetHash E b) (begin_view (ns_db S))) of
           None \<Rightarrow> Some (Inl S)
         | Some D \<Rightarrow> Some (Inr (new_best b E h (S\<lparr>ns_db := D, pindexGenesisBlock := Some h\<rparr>))))
      else if hashPrevBlock b = hashBestChain S then
        (case SetBestChainInner E io b h S of
           Inl S' \<Rightarrow> Some (Inl S')
         | Inr S' \<Rightarrow> Some (Inr (new_best b E h S')))
      else
        (case postpone (mapBlockIndex S) (case pindexBest S of None \<Rightarrow> 0 | Some p \<Rightarrow> p) (chain_from (mapBlockIndex S) h) of
           (vpindexSecondary, pindexIntermediate) \<Rightarrow>
             (case Reorganize n E io pindexIntermediate S of
                None \<Rightarrow> None
              | Some (Inl S') \<Rightarrow> Some (Inl (InvalidChainFound h S'))
              | Some (Inr S') \<Rightarrow> Some (Inr (new_best b E h (connect_postponed E io (rev vpindexSecondary) S'))))))"

end
