(* ===== verification/ChainInv.thy ===== *)
theory ChainInv
  imports Chain
begin

text \<open>
  The invariant of the block tree and the database: the unspent outputs stored on disk are those the
  abstract ledger of theory \<open>BlockConnect\<close> computes by replaying the blocks from the genesis block to the
  block the database records as the best one. \<^verbatim>\<open>SetBestChain\<close> keeps it on every path, and a failed
  attempt leaves the stored data as it was.
\<close>

section \<open>The tree\<close>

text \<open>What an entry never changes after it has been added.\<close>

type_synonym fixed_fields = "int \<times> u32 \<times> u32 \<times> u256 \<times> u256 \<times> u32 \<times> u32 \<times> u32 \<times> u256 option"

definition node_key :: "index_node \<Rightarrow> fixed_fields" where
  "node_key p = (bp_nHeight p, bp_nFile p, bp_nBlockPos p, idx_hash p, nChainTrust p, nFlags p, idx_nTime p, idx_nBits p, pprev p)"

definition tree :: "block_map \<Rightarrow> u256 \<rightharpoonup> fixed_fields" where
  "tree m h = map_option node_key (m h)"

lemma tree_SomeD: "tree m = tree m' \<Longrightarrow> m h = Some p \<Longrightarrow> \<exists>p'. m' h = Some p' \<and> node_key p' = node_key p"
  by (drule fun_cong [of _ _ h]) (cases "m' h"; simp add: tree_def)

lemma tree_NoneD: "tree m = tree m' \<Longrightarrow> m h = None \<Longrightarrow> m' h = None"
  by (drule fun_cong [of _ _ h]) (auto simp: tree_def)

lemma tree_not_None: "tree m = tree m' \<Longrightarrow> (\<exists>p. m h = Some p) \<longleftrightarrow> (\<exists>p. m' h = Some p)"
  using tree_SomeD by metis

lemma node_key_updates [simp]:
  "node_key (p\<lparr>nMint := a, nMoneySupply := b\<rparr>) = node_key p" "node_key (p\<lparr>idx_next := n\<rparr>) = node_key p"
  by (simp_all add: node_key_def)

lemma tree_update: "(\<And>p. node_key (f p) = node_key p) \<Longrightarrow> tree (m(h := map_option f (m h))) = tree m"
  by (rule ext) (simp add: tree_def option.map_comp o_def)

lemma tree_put_totals [simp]: "tree (put_totals h p m) = tree m"
  unfolding put_totals_def by (rule tree_update) simp

lemma tree_set_next [simp]: "tree (set_next h m) = tree m"
  by (auto simp: set_next_def tree_update split: option.split)

lemma tree_clear_next [simp]: "tree (clear_next h m) = tree m"
  by (auto simp: clear_next_def tree_update split: option.split)

lemma tree_fold_set_next [simp]: "tree (fold set_next hs m) = tree m"
  by (induction hs arbitrary: m) simp_all

lemma tree_fold_clear_next [simp]: "tree (fold clear_next hs m) = tree m"
  by (induction hs arbitrary: m) simp_all

lemma ancestry_tree: "tree m = tree m' \<Longrightarrow> ancestry n m h = ancestry n m' h"
proof (induction n m h rule: ancestry.induct)
  case (2 n m h)
  show ?case
  proof (cases "m h")
    case None
    with tree_NoneD [OF "2.prems"] show ?thesis by simp
  next
    case (Some p)
    then obtain p' where p': "m' h = Some p'" "pprev p' = pprev p"
      using tree_SomeD [OF "2.prems"] by (auto simp: node_key_def)
    show ?thesis using "2.IH" [OF Some _ "2.prems"] Some p' by (auto split: option.split)
  qed
qed simp

lemma chain_from_tree: "tree m = tree m' \<Longrightarrow> chain_from m h = chain_from m' h"
proof (cases "m h")
  case None
  assume t: "tree m = tree m'"
  from None tree_NoneD [OF t None] show ?thesis by (simp add: chain_from_def)
next
  case (Some p)
  assume t: "tree m = tree m'"
  obtain p' where "m' h = Some p'" "bp_nHeight p' = bp_nHeight p" using tree_SomeD [OF t Some] by (auto simp: node_key_def)
  with Some ancestry_tree [OF t] show ?thesis by (simp add: chain_from_def del: ancestry.simps)
qed

lemma ReadFromDisk_tree: "tree m = tree m' \<Longrightarrow> ReadFromDisk E N io m h = ReadFromDisk E N io m' h"
proof (cases "m h")
  case None
  assume t: "tree m = tree m'"
  from None tree_NoneD [OF t None] show ?thesis by (simp add: ReadFromDisk_def)
next
  case (Some p)
  assume t: "tree m = tree m'"
  obtain p' where "m' h = Some p'" "node_key p' = node_key p" using tree_SomeD [OF t Some] by auto
  with Some show ?thesis by (simp add: ReadFromDisk_def node_key_def split: option.split)
qed

lemma ReadFromDisk_height: "ReadFromDisk E (N\<lparr>nBestHeight := k\<rparr>) io m h = ReadFromDisk E N io m h"
  by (simp add: ReadFromDisk_def CheckProofOfWork_def bnProofOfWorkLimit_def split: option.split)

text \<open>
  A well-formed tree: entries are filed under their hash, heights count from the only root, which is
  the genesis block, and blocks lie in a file.
\<close>

definition index_inv :: "block_map \<Rightarrow> u256 option \<Rightarrow> bool" where
  "index_inv m g \<longleftrightarrow>
     (\<forall>h p. m h = Some p \<longrightarrow>
        idx_hash p = h \<and> bp_nFile p \<noteq> - 1 \<and> 0 \<le> bp_nHeight p \<and>
        (case pprev p of
           None \<Rightarrow> bp_nHeight p = 0 \<and> (g = Some h \<or> g = None \<and> dom m = {h})
         | Some q \<Rightarrow> \<exists>pq. m q = Some pq \<and> bp_nHeight p = bp_nHeight pq + 1))"

lemma index_invD:
  assumes "index_inv m g" and "m h = Some p"
  shows "idx_hash p = h" "bp_nFile p \<noteq> - 1" "0 \<le> bp_nHeight p"
    "pprev p = None \<Longrightarrow> bp_nHeight p = 0 \<and> (g = Some h \<or> g = None \<and> dom m = {h})"
    "pprev p = Some q \<Longrightarrow> \<exists>pq. m q = Some pq \<and> bp_nHeight p = bp_nHeight pq + 1"
proof -
  have i: "idx_hash p = h \<and> bp_nFile p \<noteq> - 1 \<and> 0 \<le> bp_nHeight p \<and>
        (case pprev p of
           None \<Rightarrow> bp_nHeight p = 0 \<and> (g = Some h \<or> g = None \<and> dom m = {h})
         | Some q \<Rightarrow> \<exists>pq. m q = Some pq \<and> bp_nHeight p = bp_nHeight pq + 1)"
    using assms unfolding index_inv_def by blast
  then show "idx_hash p = h" "bp_nFile p \<noteq> - 1" "0 \<le> bp_nHeight p" by blast+
  show "pprev p = None \<Longrightarrow> bp_nHeight p = 0 \<and> (g = Some h \<or> g = None \<and> dom m = {h})" using i by simp
  show "pprev p = Some q \<Longrightarrow> \<exists>pq. m q = Some pq \<and> bp_nHeight p = bp_nHeight pq + 1" using i by simp
qed

lemma index_inv_tree:
  assumes "tree m = tree m'" and "index_inv m g"
  shows "index_inv m' g"
proof -
  have d: "dom m' = dom m" using tree_SomeD [OF assms(1)] tree_SomeD [OF assms(1) [symmetric]] by blast
  have "idx_hash p' = h \<and> bp_nFile p' \<noteq> - 1 \<and> 0 \<le> bp_nHeight p' \<and>
        (case pprev p' of
           None \<Rightarrow> bp_nHeight p' = 0 \<and> (g = Some h \<or> g = None \<and> dom m' = {h})
         | Some q \<Rightarrow> \<exists>pq. m' q = Some pq \<and> bp_nHeight p' = bp_nHeight pq + 1)" if p': "m' h = Some p'" for h p'
  proof -
    obtain p where p: "m h = Some p" "node_key p = node_key p'" using tree_SomeD [OF assms(1) [symmetric] p'] by auto
    note i = index_invD [OF assms(2) p(1)]
    show ?thesis
    proof (cases "pprev p'")
      case None
      with i p(2) d show ?thesis by (simp add: node_key_def)
    next
      case (Some q)
      with i(5) [of q] p(2) obtain pq where "m q = Some pq" "bp_nHeight p' = bp_nHeight pq + 1" by (auto simp: node_key_def)
      with tree_SomeD [OF assms(1), of q pq] Some i p(2) show ?thesis by (auto simp: node_key_def)
    qed
  qed
  then show ?thesis unfolding index_inv_def by blast
qed

section \<open>Chains\<close>

text \<open>The list of a block and all its ancestors.\<close>

fun linked :: "block_map \<Rightarrow> u256 list \<Rightarrow> bool" where
  "linked m [] \<longleftrightarrow> False"
| "linked m [h] \<longleftrightarrow> (\<exists>p. m h = Some p \<and> pprev p = None)"
| "linked m (h # q # hs) \<longleftrightarrow> (\<exists>p. m h = Some p \<and> pprev p = Some q) \<and> linked m (q # hs)"

lemma linked_ancestry:
  assumes "index_inv m g" and "m h = Some p" and "bp_nHeight p < int n"
  shows "linked m (ancestry n m h) \<and> hd (ancestry n m h) = h"
  using assms(2,3)
proof (induction n arbitrary: h p)
  case 0
  then show ?case using index_invD(3) [OF assms(1)] by fastforce
next
  case (Suc n)
  show ?case
  proof (cases "pprev p")
    case None
    with Suc.prems show ?thesis by simp
  next
    case (Some q)
    with index_invD(5) [OF assms(1) Suc.prems(1)] obtain pq where q: "m q = Some pq" "bp_nHeight p = bp_nHeight pq + 1" by blast
    then have "linked m (ancestry n m q) \<and> hd (ancestry n m q) = q" using Suc.IH [OF q(1)] Suc.prems(2) by simp
    with Some Suc.prems(1) show ?thesis by (cases "ancestry n m q") auto
  qed
qed

lemma linked_chain_from:
  assumes "index_inv m g" and "m h = Some p"
  shows "linked m (chain_from m h)" "hd (chain_from m h) = h"
  using linked_ancestry [OF assms, of "Suc (nat (bp_nHeight p))"] index_invD(3) [OF assms] assms(2)
  by (simp_all add: chain_from_def del: ancestry.simps)

lemma linked_nonempty: "linked m xs \<Longrightarrow> xs \<noteq> []"
  by (cases xs) auto

lemma linked_unique: "linked m xs \<Longrightarrow> linked m ys \<Longrightarrow> hd xs = hd ys \<Longrightarrow> xs = ys"
proof (induction m xs arbitrary: ys rule: linked.induct)
  case (2 m h)
  then show ?case by (cases "(m, ys)" rule: linked.cases) auto
next
  case (3 m h q hs)
  then obtain ys' where ys: "ys = h # q # ys'" "linked m (q # ys')" by (cases "(m, ys)" rule: linked.cases) auto
  have "q # hs = q # ys'" by (rule "3.IH") (use 3 ys in auto)
  with ys show ?case by simp
qed simp

lemma linked_suffix: "linked m (xs @ ys) \<Longrightarrow> ys \<noteq> [] \<Longrightarrow> linked m ys"
  by (induction m xs rule: linked.induct) (auto simp: neq_Nil_conv)

lemma linked_in: "linked m xs \<Longrightarrow> x \<in> set xs \<Longrightarrow> \<exists>p. m x = Some p"
  by (induction m xs rule: linked.induct) auto

lemma linked_last: "linked m xs \<Longrightarrow> \<exists>x p. m x = Some p \<and> pprev p = None"
  by (induction m xs rule: linked.induct) auto

lemma chain_from_linked: "index_inv m g \<Longrightarrow> linked m (h # hs) \<Longrightarrow> chain_from m h = h # hs"
  using linked_in [of m "h # hs" h] linked_chain_from [of m g h] by (intro linked_unique) auto

lemma linked_heights:
  assumes "index_inv m g" and "linked m (h # hs)" and "x \<in> set hs"
  shows "node_height m x < node_height m h"
  using assms(2,3)
proof (induction hs arbitrary: h)
  case (Cons q hs)
  then obtain p where p: "m h = Some p" "pprev p = Some q" "linked m (q # hs)" by auto
  then obtain pq where q: "m q = Some pq" "bp_nHeight p = bp_nHeight pq + 1" using index_invD(5) [OF assms(1)] by blast
  have "node_height m q < node_height m h" using p q by (simp add: node_height_def)
  with Cons p(3) show ?case by fastforce
qed simp

lemma linked_root:
  assumes "index_inv m (Some g)" and "linked m (h # hs)"
  shows "0 \<le> node_height m h" and "node_height m h = 0 \<longleftrightarrow> hs = []" and "hs = [] \<Longrightarrow> h = g"
proof -
  obtain p where p: "m h = Some p" using linked_in [OF assms(2)] by auto
  note i = index_invD [OF assms(1) p]
  show "0 \<le> node_height m h" using p i by (simp add: node_height_def)
  show "hs = [] \<Longrightarrow> h = g" using assms(2) i p by auto
  show "node_height m h = 0 \<longleftrightarrow> hs = []"
  proof (cases hs)
    case Nil
    with assms(2) i p show ?thesis by (auto simp: node_height_def)
  next
    case (Cons q qs)
    with assms(2) p i obtain pq where "m q = Some pq" "bp_nHeight p = bp_nHeight pq + 1" by auto
    with index_invD(3) [OF assms(1)] p Cons show ?thesis by (fastforce simp: node_height_def)
  qed
qed

lemma linked_tree: "tree m' = tree m \<Longrightarrow> linked m xs \<Longrightarrow> linked m' xs"
  by (induction m xs rule: linked.induct) (auto dest!: tree_SomeD [OF sym] simp: node_key_def)

lemma ReadFromDisk_hash: "index_inv m g \<Longrightarrow> ReadFromDisk E N io m h = Some b \<Longrightarrow> CBlock_GetHash E b = h"
  using index_invD(1) by (fastforce simp: ReadFromDisk_def split: option.splits if_splits)

section \<open>The fork\<close>

lemma drop_longer_spec:
  assumes "index_inv m (Some g)" and "linked m xs" and "0 \<le> k"
  obtains pre l ls where "xs = pre @ l # ls" and "drop_longer m k xs = l # ls" and "\<forall>x \<in> set pre. k < node_height m x"
    and "node_height m l \<le> k"
  using assms(2)
proof (induction xs arbitrary: thesis)
  case (Cons x xs)
  show ?case
  proof (cases "node_height m x > k")
    case False
    then show ?thesis using Cons.prems(1) [of "[]" x xs] by simp
  next
    case True
    then have "xs \<noteq> []" using linked_root(2) [OF assms(1) Cons.prems(2)] assms(3) by auto
    then have "linked m xs" using linked_suffix [of m "[x]" xs] Cons.prems(2) by simp
    from Cons.IH [OF _ this] obtain pre l ls where *: "xs = pre @ l # ls" "drop_longer m k xs = l # ls"
        "\<forall>x \<in> set pre. k < node_height m x" "node_height m l \<le> k" by blast
    with Cons.prems(1) [of "x # pre" l ls] True show ?thesis by simp
  qed
qed simp

lemma find_fork_chains:
  assumes "index_inv m (Some g)" and "linked m F" and "linked m L"
  shows "\<exists>ds cs fork. find_fork m F L = Some fork \<and> F = ds @ fork \<and> L = cs @ fork \<and> fork \<noteq> [] \<and> set ds \<inter> set L = {}"
  using assms(2,3)
proof (induction F arbitrary: L)
  case (Cons f fs)
  show ?case
  proof (cases "L \<noteq> [] \<and> f = hd L")
    case True
    then have "L = f # fs" using linked_unique [OF Cons.prems(2,1)] by simp
    then show ?thesis by (intro exI [of _ "[]"] exI [of _ "f # fs"]) simp
  next
    case False
    then have neq: "f \<noteq> hd L" using linked_nonempty [OF Cons.prems(2)] by simp
    obtain pre l ls where d: "L = pre @ l # ls" "drop_longer m (node_height m f) L = l # ls"
        "\<forall>x \<in> set pre. node_height m f < node_height m x" "node_height m l \<le> node_height m f"
      using drop_longer_spec [OF assms(1) Cons.prems(2) linked_root(1) [OF assms(1) Cons.prems(1)]] .
    have L': "linked m (l # ls)" using linked_suffix Cons.prems(2) d(1) by blast
    show ?thesis
    proof (cases "f = l")
      case True
      then have "f # fs = l # ls" using linked_unique [OF Cons.prems(1) L'] by simp
      then show ?thesis using d neq by (intro exI [of _ "[]"] exI [of _ pre] exI [of _ "f # fs"]) auto
    next
      case False
      have "fs \<noteq> []"
      proof
        assume "fs = []"
        then have "f = g" "node_height m f = 0" using linked_root [OF assms(1) Cons.prems(1)] by auto
        moreover have "ls = []" using linked_root(1,2) [OF assms(1) L'] d(4) \<open>node_height m f = 0\<close> by auto
        ultimately show False using linked_root(3) [OF assms(1) L'] False by simp
      qed
      then have "linked m fs" using linked_suffix [of m "[f]" fs] Cons.prems(1) by simp
      then obtain ds cs fork where i: "find_fork m fs (l # ls) = Some fork" "fs = ds @ fork" "l # ls = cs @ fork" "fork \<noteq> []"
          "set ds \<inter> set (l # ls) = {}"
        using Cons.IH [OF _ L'] by blast
      have "f \<notin> set (l # ls)"
        using linked_heights [OF assms(1) L', of f] d(4) False by auto
      moreover have "f \<notin> set pre" using d(3) by auto
      moreover have "set ds \<inter> set pre = {}"
        using linked_heights [OF assms(1) Cons.prems(1)] i(2) d(3) by fastforce
      ultimately have "set (f # ds) \<inter> set L = {}" using i(5) d(1) by auto
      moreover have "find_fork m (f # fs) L = Some fork" using d(2) False neq i(1) by simp
      ultimately show ?thesis using i(2,3,4) d(1) by (intro exI [of _ "f # ds"] exI [of _ "pre @ cs"] exI [of _ fork]) auto
    qed
  qed
qed simp

section \<open>Replaying a chain\<close>

text \<open>The unspent outputs after all blocks of a chain but the genesis block, whose coins are never entered.\<close>

fun replay :: "env \<Rightarrow> (u256 \<Rightarrow> CBlock option) \<Rightarrow> u256 list \<Rightarrow> COutPoint set option" where
  "replay E rd [] = None"
| "replay E rd [g] = Some {}"
| "replay E rd (h # q # hs) =
     (case rd h of None \<Rightarrow> None | Some b \<Rightarrow> Option.bind (replay E rd (q # hs)) (utxo_apply E (vtx b)))"

lemma utxo_unspend:
  assumes "ReadTxIndex db (prev_hash q) = Some idx" and "unat (prev_n q) < length (vSpent idx)"
    and "UpdateTxIndex db (prev_hash q) (idx\<lparr>vSpent := (vSpent idx)[unat (prev_n q) := CDiskTxPos_SetNull]\<rparr>) = Some db'"
  shows "utxo db' = insert q (utxo db)" and "db_writable db' = db_writable db"
proof -
  have n: "CDiskTxPos_IsNull CDiskTxPos_SetNull" by (simp add: CDiskTxPos_IsNull_def CDiskTxPos_SetNull_def)
  have db': "db' = db\<lparr>db_index := (db_index db)(prev_hash q \<mapsto> idx\<lparr>vSpent := (vSpent idx)[unat (prev_n q) := CDiskTxPos_SetNull]\<rparr>)\<rparr>"
    using assms(3) by (auto simp: UpdateTxIndex_def split: if_splits)
  show "db_writable db' = db_writable db" by (simp add: db')
  have "x \<in> utxo db' \<longleftrightarrow> x = q \<or> x \<in> utxo db" for x
  proof (cases "prev_hash x = prev_hash q")
    case True
    show ?thesis
    proof (cases "unat (prev_n x) = unat (prev_n q)")
      case same: True
      then have "x = q" using True by (intro outpoint_eq)
      with assms n show ?thesis by (simp add: utxo_def db' ReadTxIndex_def)
    next
      case False
      then have "x \<noteq> q" by auto
      with False True assms(1) show ?thesis by (simp add: utxo_def db' ReadTxIndex_def nth_list_update_neq)
    qed
  next
    case False
    then show ?thesis by (auto simp: utxo_def db' ReadTxIndex_def)
  qed
  then show "utxo db' = insert q (utxo db)" by blast
qed

lemma disconnect_loop_utxo:
  "disconnect_loop is db = Some db' \<Longrightarrow> utxo db' = utxo db \<union> prevout ` set is \<and> db_writable db' = db_writable db"
proof (induction "is" arbitrary: db)
  case (Cons i "is")
  then obtain idx db1 where 1: "ReadTxIndex db (prev_hash (prevout i)) = Some idx" "unat (prev_n (prevout i)) < length (vSpent idx)"
      "UpdateTxIndex db (prev_hash (prevout i)) (idx\<lparr>vSpent := (vSpent idx)[unat (prev_n (prevout i)) := CDiskTxPos_SetNull]\<rparr>) = Some db1"
      "disconnect_loop is db1 = Some db'"
    by (auto simp: Let_def split: option.splits if_splits)
  from utxo_unspend [OF 1(1-3)] Cons.IH [OF 1(4)] show ?case by simp
qed simp

lemma DisconnectInputs_utxo:
  assumes "DisconnectInputs E tx db = Some db'" and "\<forall>h. db_writable db h"
  shows "utxo db' = {q \<in> utxo db \<union> set (spent_outpoints tx). prev_hash q \<noteq> GetHash E tx}" and "\<forall>h. db_writable db' h"
proof -
  obtain db1 where 1: "(if IsCoinBase tx then Some db else disconnect_loop (vin tx) db) = Some db1" "db' = EraseTxIndex E db1 tx"
    using assms(1) by (auto simp: DisconnectInputs_def split: option.splits)
  have u: "utxo db1 = utxo db \<union> set (spent_outpoints tx)" "db_writable db1 = db_writable db"
    using 1(1) disconnect_loop_utxo [of "vin tx" db db1] by (auto simp: spent_outpoints_def split: if_splits)
  have "utxo db' = {q \<in> utxo db1. prev_hash q \<noteq> GetHash E tx}"
    using assms(2) u(2) by (auto simp: 1(2) EraseTxIndex_def utxo_def ReadTxIndex_def)
  with u(1) show "utxo db' = {q \<in> utxo db \<union> set (spent_outpoints tx). prev_hash q \<noteq> GetHash E tx}" by simp
  show "\<forall>h. db_writable db' h" using assms(2) u(2) by (simp add: 1(2) EraseTxIndex_def)
qed

lemma utxo_apply_append: "utxo_apply E (xs @ ys) U = Option.bind (utxo_apply E xs U) (utxo_apply E ys)"
  by (induction E xs U rule: utxo_apply.induct) auto

lemma disconnect_txs_utxo:
  assumes "utxo_apply E txs U = Some (utxo db)" and "disconnect_txs E (rev txs) db = Some db'" and "\<forall>h. db_writable db h"
  shows "utxo db' = U \<and> (\<forall>h. db_writable db' h)"
  using assms
proof (induction txs arbitrary: db rule: rev_induct)
  case (snoc tx txs)
  obtain V where V: "utxo_apply E txs U = Some V" "utxo_apply E [tx] V = Some (utxo db)"
    using snoc.prems(1) by (auto simp: utxo_apply_append split: bind_splits)
  obtain db1 where db1: "DisconnectInputs E tx db = Some db1" "disconnect_txs E (rev txs) db1 = Some db'"
    using snoc.prems(2) by (auto split: option.splits)
  note d = DisconnectInputs_utxo [OF db1(1) snoc.prems(3)]
  have s: "set (spent_outpoints tx) \<subseteq> V" "\<forall>q \<in> V. prev_hash q \<noteq> GetHash E tx"
      "utxo db = (V - set (spent_outpoints tx)) \<union> tx_outputs E tx"
    using V(2) by (auto split: if_splits)
  have "utxo db1 = V" unfolding d(1) s(3) using s(1,2) by (auto simp: tx_outputs_def)
  with snoc.IH [OF _ db1(2) d(2)] V(1) show ?case by simp
qed simp

lemma DisconnectBlock_utxo:
  assumes "DisconnectBlock E D b pindex = Some D'" and "utxo_apply E (vtx b) U = Some (utxo (cd_tx D))"
    and "\<forall>h. db_writable (cd_tx D) h"
  shows "utxo (cd_tx D') = U" and "\<forall>h. db_writable (cd_tx D') h"
proof -
  obtain db where "disconnect_txs E (rev (vtx b)) (cd_tx D) = Some db" "cd_tx D' = db"
    using assms(1) by (auto simp: DisconnectBlock_def write_prev_next_def WriteBlockIndex_def split: option.splits if_splits)
  with disconnect_txs_utxo [OF assms(2) _ assms(3)] show "utxo (cd_tx D') = U" "\<forall>h. db_writable (cd_tx D') h" by auto
qed

lemma ConnectBlock_utxo:
  assumes "ConnectBlock E N C D pool block_time b pindex False = Inr (D', p, C')" and "bp_nFile (hd pindex) \<noteq> - 1"
  shows "utxo_apply E (vtx b) (utxo (cd_tx D)) = Some (utxo (cd_tx D'))" and "db_writable (cd_tx D') = db_writable (cd_tx D)"
  using ConnectBlock_coins [OF assms] utxo_apply_coins [of E "vtx b" _ "coins_of (db_index (cd_tx D))"] by (auto simp: utxo_coins)

section \<open>Branches\<close>

lemma replay_step:
  assumes "replay E rd (h # hs) = Some U" and "hs \<noteq> []"
  obtains b V where "rd h = Some b" and "replay E rd hs = Some V" and "utxo_apply E (vtx b) V = Some U"
  using assms by (cases hs) (auto split: option.splits bind_splits)

lemma replay_Cons:
  "hs \<noteq> [] \<Longrightarrow> rd h = Some b \<Longrightarrow> replay E rd hs = Some V \<Longrightarrow> utxo_apply E (vtx b) V = Some U \<Longrightarrow> replay E rd (h # hs) = Some U"
  by (cases hs) auto

lemma replay_cong: "(\<And>h. rd h = rd' h) \<Longrightarrow> replay E rd hs = replay E rd' hs"
  by (induction E rd hs rule: replay.induct) (simp_all split: option.split)

lemma disconnect_branch_utxo:
  assumes "disconnect_branch E N io m ds D r = Some (D', r')" and "replay E (ReadFromDisk E N io m) (ds @ fork) = Some (utxo (cd_tx D))"
    and "fork \<noteq> []" and "\<forall>h. db_writable (cd_tx D) h"
  shows "replay E (ReadFromDisk E N io m) fork = Some (utxo (cd_tx D')) \<and> (\<forall>h. db_writable (cd_tx D') h)"
  using assms(1,2,4)
proof (induction ds arbitrary: D r)
  case (Cons h ds)
  obtain b V where b: "ReadFromDisk E N io m h = Some b" "replay E (ReadFromDisk E N io m) (ds @ fork) = Some V"
      "utxo_apply E (vtx b) V = Some (utxo (cd_tx D))"
    using Cons.prems(2) assms(3) by (auto elim: replay_step)
  then obtain D1 r1 where D1: "DisconnectBlock E D b (entries m (chain_from m h)) = Some D1"
      "disconnect_branch E N io m ds D1 r1 = Some (D', r')"
    using Cons.prems(1) by (auto split: option.splits)
  note u = DisconnectBlock_utxo [OF D1(1) b(3) Cons.prems(3)]
  show ?case using Cons.IH [OF D1(2) _ u(2)] b(2) u(1) by simp
qed simp

lemma entries_hd:
  assumes "index_inv m g" and "m h = Some p"
  shows "hd (entries m (chain_from m h)) = CBlockIndex.truncate p"
proof -
  obtain hs where "chain_from m h = h # hs"
    using linked_chain_from [OF assms] linked_nonempty by (metis list.exhaust_sel)
  with assms(2) show ?thesis by (simp add: entries_def List.map_filter_simps)
qed

lemma connect_node_utxo:
  assumes "connect_node E N io pool h b (D, m, C) = Some (D', m', C')" and "index_inv m g" and "m h = Some p"
  shows "utxo_apply E (vtx b) (utxo (cd_tx D)) = Some (utxo (cd_tx D'))" and "db_writable (cd_tx D') = db_writable (cd_tx D)"
    and "tree m' = tree m"
proof -
  obtain p' where c: "ConnectBlock E N C D pool (header_time io) b (entries m (chain_from m h)) False = Inr (D', p', C')"
      "m' = put_totals h p' m"
    using assms(1) by (auto simp: connect_node_def split: sum.splits)
  have "bp_nFile (hd (entries m (chain_from m h))) \<noteq> - 1"
    unfolding entries_hd [OF assms(2,3)] using index_invD(2) [OF assms(2,3)] by (simp add: CBlockIndex.truncate_def)
  from ConnectBlock_utxo [OF c(1) this]
  show "utxo_apply E (vtx b) (utxo (cd_tx D)) = Some (utxo (cd_tx D'))" "db_writable (cd_tx D') = db_writable (cd_tx D)" .
  show "tree m' = tree m" by (simp add: c(2))
qed

lemma connect_branch_tree:
  assumes "index_inv m g" and "\<forall>h \<in> set hs. m h \<noteq> None"
  shows "case connect_branch E N io pool hs (D, m, C) v of Inl (m', C') \<Rightarrow> tree m' = tree m | Inr ((D', m', C'), v') \<Rightarrow> tree m' = tree m"
  using assms
proof (induction hs arbitrary: D m C v)
  case (Cons h hs)
  show ?case
  proof (cases "ReadFromDisk E N io m h")
    case (Some b)
    show ?thesis
    proof (cases "connect_node E N io pool h b (D, m, C)")
      case s': (Some s')
      obtain D1 m1 C1 where s: "s' = (D1, m1, C1)" by (cases s')
      obtain p where "m h = Some p" using Cons.prems(2) by auto
      note t = connect_node_utxo(3) [OF s' [unfolded s] Cons.prems(1) this]
      have "\<forall>k \<in> set hs. m1 k \<noteq> None" using Cons.prems(2) tree_NoneD [OF t] by (metis list.set_intros(2))
      from Cons.IH [OF index_inv_tree [OF t [symmetric] Cons.prems(1)] this, of D1 C1 "v @ vtx b"] t Some s' s show ?thesis
        by (auto split: sum.splits)
    qed (simp add: Some)
  qed simp
qed simp

lemma connect_branch_utxo:
  assumes "connect_branch E N io pool hs (D, m, C) v = Inr ((D', m', C'), v')" and "index_inv m g" and "\<forall>h \<in> set hs. m h \<noteq> None"
    and "replay E (ReadFromDisk E N io m) xs = Some (utxo (cd_tx D))" and "xs \<noteq> []"
  shows "replay E (ReadFromDisk E N io m) (rev hs @ xs) = Some (utxo (cd_tx D')) \<and> db_writable (cd_tx D') = db_writable (cd_tx D)"
  using assms
proof (induction hs arbitrary: D m C v xs)
  case (Cons h hs)
  obtain b where b: "ReadFromDisk E N io m h = Some b" using Cons.prems(1) by (auto split: option.splits)
  obtain D1 m1 C1 where s: "connect_node E N io pool h b (D, m, C) = Some (D1, m1, C1)"
      "connect_branch E N io pool hs (D1, m1, C1) (v @ vtx b) = Inr ((D', m', C'), v')"
    using Cons.prems(1) b by (auto split: option.splits)
  obtain p where "m h = Some p" using Cons.prems(3) by auto
  note u = connect_node_utxo [OF s(1) Cons.prems(2) this]
  have rd: "ReadFromDisk E N io m1 k = ReadFromDisk E N io m k" for k by (rule ReadFromDisk_tree [OF u(3)])
  have r: "replay E (ReadFromDisk E N io m1) (h # xs) = Some (utxo (cd_tx D1))"
    unfolding replay_cong [of "ReadFromDisk E N io m1", OF rd] using Cons.prems(4,5) b u(1) by (intro replay_Cons)
  have "\<forall>k \<in> set hs. m1 k \<noteq> None" using Cons.prems(3) tree_NoneD [OF u(3)] by (metis list.set_intros(2))
  from Cons.IH [OF s(2) index_inv_tree [OF u(3) [symmetric] Cons.prems(2)] this r] u(2) show ?case
    by (simp add: replay_cong [of "ReadFromDisk E N io m1", OF rd])
qed simp

section \<open>The invariant\<close>

text \<open>
  The tree is well-formed, and the stored unspent outputs are those of the chain that ends in the block
  the database records as best; before there is a genesis block the database is empty.
\<close>

definition chain_sync :: "env \<Rightarrow> chain_io \<Rightarrow> node_state \<Rightarrow> bool" where
  "chain_sync E io S \<longleftrightarrow>
     index_inv (mapBlockIndex S) (pindexGenesisBlock S) \<and>
     (case cd_best (ns_db S) of
        None \<Rightarrow> pindexGenesisBlock S = None \<and> utxo (cd_tx (ns_db S)) = {}
      | Some t \<Rightarrow>
          pindexGenesisBlock S \<noteq> None \<and> mapBlockIndex S t \<noteq> None \<and>
          replay E (ReadFromDisk E (ns_params S) io (mapBlockIndex S)) (chain_from (mapBlockIndex S) t) =
            Some (utxo (cd_tx (ns_db S))))"

text \<open>The best block in memory is the one the database records.\<close>

definition best_sync :: "node_state \<Rightarrow> bool" where
  "best_sync S \<longleftrightarrow> pindexBest S = cd_best (ns_db S) \<and> (\<forall>t. pindexBest S = Some t \<longrightarrow> hashBestChain S = t)"

text \<open>The block given to \<^verbatim>\<open>SetBestChain\<close> has just been written and added to the tree.\<close>

definition indexed :: "env \<Rightarrow> chain_io \<Rightarrow> CBlock \<Rightarrow> u256 \<Rightarrow> node_state \<Rightarrow> bool" where
  "indexed E io b h S \<longleftrightarrow>
     CBlock_GetHash E b = h \<and> ReadFromDisk E (ns_params S) io (mapBlockIndex S) h = Some b \<and>
     (\<exists>p. mapBlockIndex S h = Some p \<and> (mapBlockIndex S (hashPrevBlock b) \<noteq> None \<longrightarrow> pprev p = Some (hashPrevBlock b)))"

text \<open>Nothing stored but the record of the best invalid chain differs, nor the best block, nor the pool.\<close>

definition untouched :: "node_state \<Rightarrow> node_state \<Rightarrow> bool" where
  "untouched S S' \<longleftrightarrow>
     cd_tx (ns_db S') = cd_tx (ns_db S) \<and> cd_index (ns_db S') = cd_index (ns_db S) \<and> cd_best (ns_db S') = cd_best (ns_db S) \<and>
     tree (mapBlockIndex S') = tree (mapBlockIndex S) \<and>
     ns_params S' = ns_params S \<and> pindexGenesisBlock S' = pindexGenesisBlock S \<and> pindexBest S' = pindexBest S \<and>
     hashBestChain S' = hashBestChain S \<and> nBestChainTrust S' = nBestChainTrust S \<and> ns_pool S' = ns_pool S"

lemma untouched_refl: "untouched S S"
  by (simp add: untouched_def)

lemma untouched_trans: "untouched S T \<Longrightarrow> untouched T U \<Longrightarrow> untouched S U"
  by (simp add: untouched_def)

lemma untouched_invalid: "untouched S (InvalidChainFound h S)"
  by (simp add: untouched_def InvalidChainFound_def Let_def)

lemma untouched_memory: "tree m = tree (mapBlockIndex S) \<Longrightarrow> untouched S (S\<lparr>mapBlockIndex := m, ns_cache := C\<rparr>)"
  by (simp add: untouched_def)

lemma replay_tree:
  "tree m' = tree m \<Longrightarrow> replay E (ReadFromDisk E N io m') (chain_from m' t) = replay E (ReadFromDisk E N io m) (chain_from m t)"
  using chain_from_tree [of m' m t] replay_cong [of "ReadFromDisk E N io m'" "ReadFromDisk E N io m"] ReadFromDisk_tree [of m' m E N io] by metis

lemma chain_sync_best:
  assumes "index_inv (mapBlockIndex S) (pindexGenesisBlock S)" and "tree m = tree (mapBlockIndex S)"
    and "pindexGenesisBlock S \<noteq> None" and "mapBlockIndex S t \<noteq> None"
    and "replay E (ReadFromDisk E (ns_params S) io (mapBlockIndex S)) (chain_from (mapBlockIndex S) t) = Some (utxo (cd_tx D))"
    and "cd_best D = Some t"
  shows "chain_sync E io (S\<lparr>ns_db := D, mapBlockIndex := m, ns_pool := pool, ns_cache := C\<rparr>)"
  using assms index_inv_tree [OF assms(2) [symmetric] assms(1)] tree_not_None [OF assms(2), of t] replay_tree [OF assms(2), of E "ns_params S" io t]
  by (auto simp: chain_sync_def)

lemma chain_syncE:
  assumes "chain_sync E io S" and "cd_best (ns_db S) = Some t"
  obtains g p where "pindexGenesisBlock S = Some g" and "mapBlockIndex S t = Some p" and "index_inv (mapBlockIndex S) (Some g)"
    and "replay E (ReadFromDisk E (ns_params S) io (mapBlockIndex S)) (chain_from (mapBlockIndex S) t) = Some (utxo (cd_tx (ns_db S)))"
  using assms by (auto simp: chain_sync_def)

lemma chain_sync_untouched:
  assumes "chain_sync E io S" and "untouched S S'"
  shows "chain_sync E io S'"
proof -
  have u: "tree (mapBlockIndex S) = tree (mapBlockIndex S')" "ns_params S' = ns_params S" "pindexGenesisBlock S' = pindexGenesisBlock S"
      "cd_best (ns_db S') = cd_best (ns_db S)" "cd_tx (ns_db S') = cd_tx (ns_db S)"
    using assms(2) by (simp_all add: untouched_def)
  show ?thesis
    using assms(1) index_inv_tree [OF u(1)] tree_not_None [OF u(1)] replay_tree [OF u(1), of E "ns_params S" io]
    unfolding chain_sync_def u(2-5) by (auto split: option.splits)
qed

lemma chain_sync_new_best [simp]: "chain_sync E io (new_best b E h S) = chain_sync E io S"
  using replay_cong [of "ReadFromDisk E (ns_params S\<lparr>nBestHeight := node_height (mapBlockIndex S) h\<rparr>) io (mapBlockIndex S)"
      "ReadFromDisk E (ns_params S) io (mapBlockIndex S)" E, OF ReadFromDisk_height]
  by (simp add: chain_sync_def new_best_def split: option.split)

section \<open>Reorganisation and the best chain\<close>

lemma utxo_begin [simp]: "utxo (cd_tx (begin_view D)) = utxo (cd_tx D)" "db_writable (cd_tx (begin_view D)) h"
  by (simp_all add: begin_view_def utxo_def ReadTxIndex_def)

lemma commit_view_Some:
  assumes "commit_view io D0 (WriteHashBestChain h D) = Some D'"
  shows "cd_best D' = Some h" and "utxo (cd_tx D') = utxo (cd_tx D)"
  using assms by (auto simp: commit_view_def WriteHashBestChain_def utxo_def ReadTxIndex_def split: if_splits)

lemma takeWhile_fork:
  assumes "index_inv m g" and "linked m (ds @ fork)" and "fork \<noteq> []"
  shows "takeWhile (\<lambda>x. x \<noteq> hd fork) (ds @ fork) = ds"
proof -
  have "hd fork \<notin> set ds"
  proof
    assume "hd fork \<in> set ds"
    then obtain a c where "ds = a @ hd fork # c" by (metis split_list)
    with assms(2) have "linked m (hd fork # (c @ fork))" using linked_suffix [of m a "hd fork # (c @ fork)"] by simp
    from linked_heights [OF assms(1) this, of "hd fork"] assms(3) show False by simp
  qed
  with assms(3) show ?thesis by (auto simp: takeWhile_append neq_Nil_conv)
qed

lemma Reorganize_sync:
  assumes "chain_sync E io S" and "best_sync S" and "pindexBest S = Some best" and "mapBlockIndex S h = Some p"
    and "Reorganize n E io h S = Some r"
  shows "case r of
      Inl S' \<Rightarrow> untouched S S'
    | Inr S' \<Rightarrow> chain_sync E io S' \<and> cd_best (ns_db S') = Some h \<and> tree (mapBlockIndex S') = tree (mapBlockIndex S) \<and>
        ns_params S' = ns_params S \<and> pindexGenesisBlock S' = pindexGenesisBlock S"
proof -
  let ?m = "mapBlockIndex S" and ?N = "ns_params S"
  have "cd_best (ns_db S) = Some best" using assms(2,3) by (simp add: best_sync_def)
  from chain_syncE [OF assms(1) this] obtain g pb where g: "pindexGenesisBlock S = Some g" "?m best = Some pb"
    and inv: "index_inv ?m (Some g)"
    and rep: "replay E (ReadFromDisk E ?N io ?m) (chain_from ?m best) = Some (utxo (cd_tx (ns_db S)))" .
  note lb = linked_chain_from [OF inv g(2)] and ln = linked_chain_from [OF inv assms(4)]
  obtain ds cs fork where f: "find_fork ?m (chain_from ?m best) (chain_from ?m h) = Some fork" "chain_from ?m best = ds @ fork"
      "chain_from ?m h = cs @ fork" "fork \<noteq> []"
    using find_fork_chains [OF inv lb(1) ln(1)] by blast
  have tw: "takeWhile (\<lambda>x. x \<noteq> hd fork) (ds @ fork) = ds" "takeWhile (\<lambda>x. x \<noteq> hd fork) (cs @ fork) = cs"
    using takeWhile_fork [OF inv] lb(1) ln(1) f by simp_all
  note R = assms(5) [unfolded Reorganize_def Let_def assms(3) option.case, unfolded f(1) option.case, unfolded f(2,3) tw]
  have defd: "\<forall>k \<in> set (rev cs). ?m k \<noteq> None" using linked_in [OF ln(1)] f(3) by fastforce
  show ?thesis
  proof (cases "disconnect_branch E ?N io ?m ds (begin_view (ns_db S)) []")
    case None
    with R untouched_refl show ?thesis by auto
  next
    case (Some a)
    then obtain D1 v where d: "disconnect_branch E ?N io ?m ds (begin_view (ns_db S)) [] = Some (D1, v)" by (cases a) auto
    have r1: "replay E (ReadFromDisk E ?N io ?m) fork = Some (utxo (cd_tx D1))"
      using disconnect_branch_utxo [OF d _ f(4)] rep f(2) by simp
    note t = connect_branch_tree [OF inv defd, of E ?N io "ns_pool S" D1 "ns_cache S" "[]"]
    show ?thesis
    proof (cases "connect_branch E ?N io (ns_pool S) (rev cs) (D1, ?m, ns_cache S) []")
      case (Inl a)
      with R d t show ?thesis by (cases a) (auto intro!: untouched_memory)
    next
      case (Inr a)
      then obtain D2 m' C' v' where c: "connect_branch E ?N io (ns_pool S) (rev cs) (D1, ?m, ns_cache S) [] = Inr ((D2, m', C'), v')"
        by (metis prod.exhaust)
      have r2: "replay E (ReadFromDisk E ?N io ?m) (chain_from ?m h) = Some (utxo (cd_tx D2))"
        using connect_branch_utxo [OF c inv defd r1 f(4)] f(3) by simp
      have t': "tree m' = tree ?m" using t c by simp
      show ?thesis
      proof (cases "commit_view io (ns_db S) (WriteHashBestChain h D2)")
        case None
        with R d c t' show ?thesis by (auto intro!: untouched_memory)
      next
        case (Some D3)
        note k = commit_view_Some [OF Some]
        have s: "chain_sync E io (S\<lparr>ns_db := D3, mapBlockIndex := m2, ns_pool := pool, ns_cache := C'\<rparr>)"
          if "tree m2 = tree ?m" for m2 pool
          using inv g that assms(4) r2 k by (intro chain_sync_best [where t = h]) simp_all
        from R d c Some show ?thesis by (auto simp: t' k s)
      qed
    qed
  qed
qed

lemma SetBestChainInner_sync:
  assumes "chain_sync E io S" and "cd_best (ns_db S) = Some t" and "mapBlockIndex S h = Some p" and "pprev p = Some t"
    and "ReadFromDisk E (ns_params S) io (mapBlockIndex S) h = Some b" and "CBlock_GetHash E b = h"
  shows "case SetBestChainInner E io b h S of
      Inl S' \<Rightarrow> untouched S S'
    | Inr S' \<Rightarrow> chain_sync E io S' \<and> cd_best (ns_db S') = Some h \<and> tree (mapBlockIndex S') = tree (mapBlockIndex S) \<and>
        ns_params S' = ns_params S \<and> pindexGenesisBlock S' = pindexGenesisBlock S"
proof -
  let ?m = "mapBlockIndex S" and ?N = "ns_params S"
  from chain_syncE [OF assms(1,2)] obtain g pt where g: "pindexGenesisBlock S = Some g" "?m t = Some pt"
    and inv: "index_inv ?m (Some g)"
    and rep: "replay E (ReadFromDisk E ?N io ?m) (chain_from ?m t) = Some (utxo (cd_tx (ns_db S)))" .
  show ?thesis
  proof (cases "connect_node E ?N io (ns_pool S) h b (begin_view (ns_db S), ?m, ns_cache S)")
    case None
    then show ?thesis by (simp add: SetBestChainInner_def untouched_invalid)
  next
    case (Some a)
    then obtain D m' C' where c: "connect_node E ?N io (ns_pool S) h b (begin_view (ns_db S), ?m, ns_cache S) = Some (D, m', C')"
      by (cases a) auto
    note u = connect_node_utxo [OF c inv assms(3)]
    show ?thesis
    proof (cases "commit_view io (ns_db S) (WriteHashBestChain h D)")
      case None
      with c u(3) assms(6) show ?thesis by (simp add: SetBestChainInner_def untouched_memory)
    next
      case (Some D')
      note k = commit_view_Some [OF Some]
      note lt = linked_chain_from [OF inv g(2)]
      obtain ts where ts: "chain_from ?m t = t # ts" using lt linked_nonempty by (metis list.exhaust_sel)
      have "chain_from ?m h = h # t # ts"
        using assms(3,4) lt(1) ts by (intro chain_from_linked [OF inv]) auto
      then have "replay E (ReadFromDisk E ?N io ?m) (chain_from ?m h) = Some (utxo (cd_tx D'))"
        using rep ts assms(5) u(1) k(2) by simp
      moreover have "tree (set_next h m') = tree ?m" using u(3) by simp
      ultimately have "chain_sync E io (S\<lparr>ns_db := D', mapBlockIndex := set_next h m', ns_pool := pool, ns_cache := C'\<rparr>)" for pool
        using inv g k(1) assms(3) by (intro chain_sync_best [where t = h]) simp_all
      with c Some assms(6) u(3) k(1) show ?thesis by (simp add: SetBestChainInner_def)
    qed
  qed
qed

lemma connect_postponed_sync:
  assumes "chain_sync E io S" and "cd_best (ns_db S) = Some t" and "linked (mapBlockIndex S) (rev hs @ t # ts)"
  shows "chain_sync E io (connect_postponed E io hs S) \<and> ns_params (connect_postponed E io hs S) = ns_params S \<and>
    (\<exists>k \<le> length hs. cd_best (ns_db (connect_postponed E io hs S)) = Some (hd (rev (take k hs) @ [t])))"
  using assms
proof (induction hs arbitrary: S t ts)
  case (Cons h hs)
  let ?m = "mapBlockIndex S"
  have l: "linked ?m (h # t # ts)" using linked_suffix [of ?m "rev hs" "h # t # ts"] Cons.prems(3) by simp
  then obtain p where p: "?m h = Some p" "pprev p = Some t" by auto
  have stop: "\<exists>k \<le> length (h # hs). Some t = Some (hd (rev (take k (h # hs)) @ [t]))" by (intro exI [of _ 0]) simp
  show ?case
  proof (cases "ReadFromDisk E (ns_params S) io ?m h")
    case None
    with Cons.prems(1,2) stop show ?thesis by simp
  next
    case (Some b)
    have hb: "CBlock_GetHash E b = h" using Cons.prems(1) ReadFromDisk_hash [OF _ Some] by (auto simp: chain_sync_def)
    note i = SetBestChainInner_sync [OF Cons.prems(1,2) p Some hb]
    show ?thesis
    proof (cases "SetBestChainInner E io b h S")
      case (Inl S')
      with i have u: "untouched S S'" by simp
      with chain_sync_untouched [OF Cons.prems(1)] Inl Some Cons.prems(2) stop show ?thesis by (simp add: untouched_def)
    next
      case (Inr S')
      with i have s: "chain_sync E io S'" "cd_best (ns_db S') = Some h" "tree (mapBlockIndex S') = tree ?m" "ns_params S' = ns_params S" by auto
      have "linked (mapBlockIndex S') (rev hs @ h # t # ts)" using linked_tree [OF s(3)] Cons.prems(3) by simp
      from Cons.IH [OF s(1,2) this] obtain k where k: "chain_sync E io (connect_postponed E io hs S')"
          "ns_params (connect_postponed E io hs S') = ns_params S'" "k \<le> length hs"
          "cd_best (ns_db (connect_postponed E io hs S')) = Some (hd (rev (take k hs) @ [h]))" by blast
      have "hd (rev (take (Suc k) (h # hs)) @ [t]) = hd (rev (take k hs) @ [h])" by (cases "rev (take k hs)") auto
      with k s(4) Inr Some show ?thesis by (auto intro!: exI [of _ "Suc k"])
    qed
  qed
qed simp

lemma postpone_split:
  assumes "postpone m best xs = (sec, i)" and "xs \<noteq> []"
  obtains ys where "xs = sec @ i # ys"
  using assms
proof (induction m best xs arbitrary: sec thesis rule: postpone.induct)
  case (1 m best h q hs)
  show ?case
  proof (cases "node_trust m q > node_trust m best")
    case True
    obtain s' where s': "postpone m best (q # hs) = (s', i)" "sec = h # s'"
      using "1.prems"(2) True by (auto split: prod.splits)
    from "1.IH" [OF True _ s'(1)] obtain ys where "q # hs = s' @ i # ys" by blast
    with "1.prems"(1) [of ys] s'(2) show ?thesis by simp
  next
    case False
    with "1.prems" show ?thesis by simp
  qed
qed simp_all

lemma new_best_fields [simp]:
  "pindexBest (new_best b E h S) = Some h" "hashBestChain (new_best b E h S) = CBlock_GetHash E b"
  "ns_db (new_best b E h S) = ns_db S" "mapBlockIndex (new_best b E h S) = mapBlockIndex S"
  by (simp_all add: new_best_def)

lemma sync_shape:
  assumes "chain_sync E io S" and "best_sync S"
  shows "pindexBest S = None \<longleftrightarrow> pindexGenesisBlock S = None"
  using assms by (auto simp: chain_sync_def best_sync_def split: option.splits)

lemma SetBestChain_genesis:
  assumes "chain_sync E io S" and "mapBlockIndex S h = Some p" and "pindexGenesisBlock S = None" and "cd_best (ns_db S) = None"
    and "commit_view io (ns_db S) (WriteHashBestChain h (begin_view (ns_db S))) = Some D"
  shows "chain_sync E io (S\<lparr>ns_db := D, pindexGenesisBlock := Some h\<rparr>)"
proof -
  have i: "index_inv (mapBlockIndex S) None" "utxo (cd_tx (ns_db S)) = {}" using assms(1,3,4) by (auto simp: chain_sync_def)
  note k = commit_view_Some [OF assms(5)]
  have root: "pprev q = None \<and> k = h" if k: "mapBlockIndex S k = Some q" for k q
  proof -
    obtain x px where x: "mapBlockIndex S x = Some px" "pprev px = None"
      using linked_last [OF linked_chain_from(1) [OF i(1) k]] by blast
    then have "dom (mapBlockIndex S) = {x}" using index_invD(4) [OF i(1) x(1)] by simp
    then have "k = x" "h = x" using k assms(2) by (metis domI singletonD)+
    with x k show ?thesis by simp
  qed
  have "index_inv (mapBlockIndex S) (Some h)"
    unfolding index_inv_def
  proof (intro allI impI)
    fix k q
    assume k: "mapBlockIndex S k = Some q"
    from root [OF k] index_invD(1-4) [OF i(1) k] show "idx_hash q = k \<and> bp_nFile q \<noteq> - 1 \<and> 0 \<le> bp_nHeight q \<and>
        (case pprev q of
           None \<Rightarrow> bp_nHeight q = 0 \<and> (Some h = Some k \<or> Some h = None \<and> dom (mapBlockIndex S) = {k})
         | Some x \<Rightarrow> \<exists>pq. mapBlockIndex S x = Some pq \<and> bp_nHeight q = bp_nHeight pq + 1)"
      by simp
  qed
  moreover have "chain_from (mapBlockIndex S) h = [h]" using root [OF assms(2)] assms(2) by (simp add: chain_from_def)
  ultimately show ?thesis using k i(2) assms(2) by (simp add: chain_sync_def)
qed

lemma SetBestChain_sync:
  assumes "chain_sync E io S" and "best_sync S" and "indexed E io b h S"
    and "pindexBest S \<noteq> None \<or> h = hashGenesisBlock (ns_params S)" and "SetBestChain n E io b h S = Some r"
  shows "case r of
      Inl S' \<Rightarrow> chain_sync E io S' \<and> untouched S S'
    | Inr S' \<Rightarrow> chain_sync E io S' \<and> pindexBest S' = Some h \<and> hashBestChain S' = h \<and>
        (\<exists>t \<in> set (chain_from (mapBlockIndex S) h). cd_best (ns_db S') = Some t) \<and>
        (hashPrevBlock b = hashBestChain S \<longrightarrow> best_sync S')"
proof -
  let ?m = "mapBlockIndex S"
  from assms(3) obtain p where h: "CBlock_GetHash E b = h" "ReadFromDisk E (ns_params S) io ?m h = Some b" "?m h = Some p"
      "?m (hashPrevBlock b) \<noteq> None \<longrightarrow> pprev p = Some (hashPrevBlock b)"
    by (auto simp: indexed_def)
  have inv: "index_inv ?m (pindexGenesisBlock S)" using assms(1) by (simp add: chain_sync_def)
  have self: "h \<in> set (chain_from ?m h)" using linked_chain_from [OF inv h(3)] linked_nonempty hd_in_set by metis
  consider "pindexGenesisBlock S = None" "h = hashGenesisBlock (ns_params S)"
    | "pindexGenesisBlock S \<noteq> None" "hashPrevBlock b = hashBestChain S"
    | "pindexGenesisBlock S \<noteq> None" "hashPrevBlock b \<noteq> hashBestChain S"
    using assms(4) sync_shape [OF assms(1,2)] by metis
  then show ?thesis
  proof cases
    case 1
    with sync_shape [OF assms(1,2)] assms(2) have n: "cd_best (ns_db S) = None" by (simp add: best_sync_def)
    show ?thesis
    proof (cases "commit_view io (ns_db S) (WriteHashBestChain h (begin_view (ns_db S)))")
      case None
      with 1 assms(1,5) h(1) show ?thesis by (auto simp: SetBestChain_def untouched_refl)
    next
      case (Some D)
      from SetBestChain_genesis [OF assms(1) h(3) 1(1) n Some] Some 1 assms(5) h(1) self commit_view_Some(1) [OF Some] show ?thesis
        by (auto simp: SetBestChain_def best_sync_def)
    qed
  next
    case 2
    then obtain t where t: "pindexBest S = Some t" "cd_best (ns_db S) = Some t" "hashBestChain S = t"
      using sync_shape [OF assms(1,2)] assms(2) by (auto simp: best_sync_def)
    from chain_syncE [OF assms(1) t(2)] obtain pt where "?m t = Some pt" by blast
    with h(4) 2(2) t(3) have "pprev p = Some t" by simp
    note i = SetBestChainInner_sync [OF assms(1) t(2) h(3) this h(2,1)]
    from 2 assms(5) have r: "r = (case SetBestChainInner E io b h S of Inl S' \<Rightarrow> Inl S' | Inr S' \<Rightarrow> Inr (new_best b E h S'))"
      by (auto simp: SetBestChain_def split: sum.splits)
    show ?thesis
      using i chain_sync_untouched [OF assms(1)] self h(1) unfolding r
      by (auto simp: best_sync_def split: sum.splits)
  next
    case 3
    then obtain t where t: "pindexBest S = Some t" using sync_shape [OF assms(1,2)] by auto
    obtain sec i where pp: "postpone ?m t (chain_from ?m h) = (sec, i)" by (metis surj_pair)
    note lh = linked_chain_from [OF inv h(3)]
    obtain ys where ys: "chain_from ?m h = sec @ i # ys" using postpone_split [OF pp linked_nonempty [OF lh(1)]] .
    then have li: "linked ?m (i # ys)" using linked_suffix lh(1) by (metis list.distinct(1))
    then obtain pi where pi: "?m i = Some pi" using linked_in [of ?m "i # ys" i] by auto
    from 3 assms(5) t pp h(1) obtain r' where r': "Reorganize n E io i S = Some r'"
        "r = (case r' of Inl S' \<Rightarrow> Inl (InvalidChainFound h S') | Inr S' \<Rightarrow> Inr (new_best b E h (connect_postponed E io (rev sec) S')))"
      by (auto simp: SetBestChain_def split: option.splits sum.splits)
    note R = Reorganize_sync [OF assms(1,2) t pi r'(1)]
    show ?thesis
    proof (cases r')
      case (Inl S')
      with R have "untouched S (InvalidChainFound h S')" using untouched_trans [OF _ untouched_invalid] by simp
      with Inl r'(2) chain_sync_untouched [OF assms(1)] show ?thesis by simp
    next
      case (Inr S')
      with R have s: "chain_sync E io S'" "cd_best (ns_db S') = Some i" "tree (mapBlockIndex S') = tree ?m" by auto
      have "linked (mapBlockIndex S') (rev (rev sec) @ i # ys)" using linked_tree [OF s(3) lh(1)] ys by simp
      from connect_postponed_sync [OF s(1,2) this] obtain k where c: "chain_sync E io (connect_postponed E io (rev sec) S')"
          "cd_best (ns_db (connect_postponed E io (rev sec) S')) = Some (hd (rev (take k (rev sec)) @ [i]))" by blast
      have "hd (rev (take k (rev sec)) @ [i]) \<in> set (sec @ i # ys)"
        by (cases "rev (take k (rev sec))") (auto simp: rev_take dest: in_set_dropD, metis in_set_dropD list.set_intros(1))
      with c Inr r'(2) 3(2) ys h(1) show ?thesis by (auto simp:)
    qed
  qed
qed

lemma SetBestChain_next:
  assumes "chain_sync E io S" and "best_sync S" and "indexed E io b h S" and "pindexBest S = Some (hashPrevBlock b)"
    and "ConnectBlock E (ns_params S) (ns_cache S) (begin_view (ns_db S)) (ns_pool S) (header_time io) b
      (entries (mapBlockIndex S) (chain_from (mapBlockIndex S) h)) False = Inr (D, p, C)"
    and "\<forall>D. commit_ok io D"
  shows "\<exists>S'. SetBestChain n E io b h S = Some (Inr S') \<and> utxo (cd_tx (ns_db S')) = utxo (cd_tx D)"
proof -
  have h: "CBlock_GetHash E b = h" using assms(3) by (simp add: indexed_def)
  have g: "pindexGenesisBlock S \<noteq> None" "hashPrevBlock b = hashBestChain S"
    using sync_shape [OF assms(1,2)] assms(2,4) by (auto simp: best_sync_def)
  define D' where "D' = the (commit_view io (ns_db S) (WriteHashBestChain h D))"
  have c: "commit_view io (ns_db S) (WriteHashBestChain h D) = Some D'" using assms(6) by (simp add: D'_def commit_view_def)
  have "connect_node E (ns_params S) io (ns_pool S) h b (begin_view (ns_db S), mapBlockIndex S, ns_cache S) =
      Some (D, put_totals h p (mapBlockIndex S), C)"
    using assms(5) by (simp add: connect_node_def)
  with c g h commit_view_Some(2) [OF c] show ?thesis by (auto simp: SetBestChain_def SetBestChainInner_def)
qed

section \<open>Properties\<close>

text \<open>The search for the fork ends and finds it. For two blocks of a well-formed tree the loop of
  \<open>Reorganize\<close> never runs into a null pointer and stops at a common ancestor; the blocks to disconnect
  and the blocks to connect are what lies above it on the two sides, and no block is on both lists.\<close>

theorem find_fork_common_ancestor:
  assumes "index_inv m (Some g)" and "m best \<noteq> None" and "m new \<noteq> None"
  shows "\<exists>ds cs fork. find_fork m (chain_from m best) (chain_from m new) = Some fork \<and>
    chain_from m best = ds @ fork \<and> chain_from m new = cs @ fork \<and> fork \<noteq> [] \<and> set ds \<inter> set cs = {}"
proof -
  obtain p q where "m best = Some p" "m new = Some q" using assms(2,3) by blast
  from find_fork_chains [OF assms(1) linked_chain_from(1) [OF assms(1) this(1)] linked_chain_from(1) [OF assms(1) this(2)]]
  obtain ds cs fork where "find_fork m (chain_from m best) (chain_from m new) = Some fork" "chain_from m best = ds @ fork"
      "chain_from m new = cs @ fork" "fork \<noteq> []" "set ds \<inter> set (chain_from m new) = {}" by blast
  then show ?thesis by (intro exI [of _ ds] exI [of _ cs] exI [of _ fork]) auto
qed

text \<open>C3: The stored coins are those of the best chain. Let the stored unspent outputs be the replay of
  all blocks up to the block the database records as best, and let that block be the best one in
  memory. Whatever \<open>SetBestChain\<close> does with a new block of the tree, the replay property holds again.
  If it fails, the stored coins, the best block and the pool are as before. If it succeeds, the new
  block is the best one in memory, the database records it or an ancestor of it, and it records exactly
  it when the block extended the old best chain.\<close>

theorem SetBestChain_keeps_coins:
  assumes "chain_sync E io S" and "best_sync S" and "indexed E io b h S"
    and "pindexBest S \<noteq> None \<or> h = hashGenesisBlock (ns_params S)" and "SetBestChain n E io b h S = Some r"
  shows "case r of
      Inl S' \<Rightarrow> chain_sync E io S' \<and> untouched S S'
    | Inr S' \<Rightarrow> chain_sync E io S' \<and> pindexBest S' = Some h \<and> hashBestChain S' = h \<and>
        (\<exists>t \<in> set (chain_from (mapBlockIndex S) h). cd_best (ns_db S') = Some t) \<and>
        (hashPrevBlock b = hashBestChain S \<longrightarrow> best_sync S')"
  using assms by (rule SetBestChain_sync)

text \<open>C4: A valid block that extends the best chain becomes the best block. If it connects to the stored
  coins and LevelDB accepts commits, \<open>SetBestChain\<close> succeeds, memory and database agree that the block is
  the best one, and the stored coins are those \<open>ConnectBlock\<close> computed.\<close>

theorem SetBestChain_extends:
  assumes "chain_sync E io S" and "best_sync S" and "indexed E io b h S" and "pindexBest S = Some (hashPrevBlock b)"
    and "ConnectBlock E (ns_params S) (ns_cache S) (begin_view (ns_db S)) (ns_pool S) (header_time io) b
      (entries (mapBlockIndex S) (chain_from (mapBlockIndex S) h)) False = Inr (D, p, C)"
    and "\<forall>D. commit_ok io D"
  shows "\<exists>S'. SetBestChain n E io b h S = Some (Inr S') \<and> pindexBest S' = Some h \<and> best_sync S' \<and>
    chain_sync E io S' \<and> utxo (cd_tx (ns_db S')) = utxo (cd_tx D)"
proof -
  obtain S' where S': "SetBestChain n E io b h S = Some (Inr S')" "utxo (cd_tx (ns_db S')) = utxo (cd_tx D)"
    using SetBestChain_next [OF assms] by blast
  have "hashPrevBlock b = hashBestChain S" using assms(2,4) by (simp add: best_sync_def)
  with SetBestChain_sync [OF assms(1-3) _ S'(1)] S' assms(4) show ?thesis by auto
qed

end
