(* ===== verification/Kernel.thy ===== *)
theory Kernel
  imports ChainInv "HOL-Library.Multiset"
begin

text \<open>
  Proof of stake, from \<^verbatim>\<open>src/src/kernel.cpp\<close>: the stake modifier, whose bits are the entropy bits of blocks
  selected from the recent past, and the kernel check of a coinstake. A block pointer that is only
  followed backwards is the list of the entry and its ancestors; \<^verbatim>\<open>GetKernelStakeModifier\<close> walks forwards
  along \<^verbatim>\<open>pnext\<close> through the map of entries.
\<close>

section \<open>Settings and flags\<close>

definition nModifierInterval :: int where "nModifierInterval = 10 * 60"

definition nStakeMaxAge :: int where "nStakeMaxAge = 4294967295"

definition MODIFIER_INTERVAL_RATIO :: int where "MODIFIER_INTERVAL_RATIO = 3"

definition GetStakeEntropyBit :: "'a CBlockIndex_scheme \<Rightarrow> u32" where
  "GetStakeEntropyBit p = drop_bit 1 (nFlags p AND 2)"

definition SetStakeEntropyBit :: "u32 \<Rightarrow> 'a CBlockIndex_scheme \<Rightarrow> 'a CBlockIndex_scheme option" where
  "SetStakeEntropyBit nEntropyBit p =
     (if nEntropyBit > 1 then None else Some (p\<lparr>nFlags := nFlags p OR (if nEntropyBit \<noteq> 0 then 2 else 0)\<rparr>))"

definition GeneratedStakeModifier :: "'a CBlockIndex_scheme \<Rightarrow> bool" where
  "GeneratedStakeModifier p \<longleftrightarrow> nFlags p AND 4 \<noteq> 0"

definition SetStakeModifier :: "u64 \<Rightarrow> bool \<Rightarrow> 'a CBlockIndex_scheme \<Rightarrow> 'a CBlockIndex_scheme" where
  "SetStakeModifier nModifier fGenerated p =
     p\<lparr>nStakeModifier := nModifier, nFlags := (if fGenerated then nFlags p OR 4 else nFlags p)\<rparr>"

text \<open>The entropy bit of a block is the last bit of its hash.\<close>

definition Block_GetStakeEntropyBit :: "env \<Rightarrow> CBlock \<Rightarrow> u32" where
  "Block_GetStakeEntropyBit E b = ucast (CBlock_GetHash E b AND 1)"

definition GetWeight :: "node_params \<Rightarrow> int \<Rightarrow> int \<Rightarrow> int" where
  "GetWeight N nIntervalBeginning nIntervalEnd = min (wrap64 (nIntervalEnd - nIntervalBeginning - nStakeMinAge N)) nStakeMaxAge"

section \<open>The stake modifier\<close>

fun GetLastStakeModifier :: "CBlockIndex list \<Rightarrow> (u64 \<times> int) option" where
  "GetLastStakeModifier [] = None"
| "GetLastStakeModifier [p] = (if GeneratedStakeModifier p then Some (nStakeModifier p, uint (idx_nTime p)) else None)"
| "GetLastStakeModifier (p # q # ps) =
     (if GeneratedStakeModifier p then Some (nStakeModifier p, uint (idx_nTime p)) else GetLastStakeModifier (q # ps))"

text \<open>The length of a section of the selection interval; the callers pass sections below 64, as asserted.\<close>

definition GetStakeModifierSelectionIntervalSection :: "nat \<Rightarrow> int" where
  "GetStakeModifierSelectionIntervalSection nSection =
     nModifierInterval * 63 div (63 + (63 - int nSection) * (MODIFIER_INTERVAL_RATIO - 1))"

definition GetStakeModifierSelectionInterval :: int where
  "GetStakeModifierSelectionInterval = sum_list (map GetStakeModifierSelectionIntervalSection [0..<64])"

definition selection_hash :: "env \<Rightarrow> u64 \<Rightarrow> index_node \<Rightarrow> u256" where
  "selection_hash E nStakeModifierPrev p =
     (let h = Hash E (uint256_bytes (hashProof p) @ le_bytes 8 (unat nStakeModifierPrev))
      in if nFlags p AND 1 \<noteq> 0 then drop_bit 32 h else h)"

text \<open>The loop over the candidates with the best one so far; None is a candidate that is not indexed.\<close>

fun select_loop ::
  "env \<Rightarrow> block_map \<Rightarrow> u256 set \<Rightarrow> int \<Rightarrow> u64 \<Rightarrow> (int \<times> u256) list \<Rightarrow> (u256 \<times> index_node) option
     \<Rightarrow> (u256 \<times> index_node) option option" where
  "select_loop E m mapSelected stop prev [] best = Some best"
| "select_loop E m mapSelected stop prev (item # items) best =
     (case m (snd item) of
        None \<Rightarrow> None
      | Some p \<Rightarrow>
          if best \<noteq> None \<and> uint (idx_nTime p) > stop then Some best
          else if idx_hash p \<in> mapSelected then select_loop E m mapSelected stop prev items best
          else
            (let h = selection_hash E prev p
             in select_loop E m mapSelected stop prev items
                  (case best of None \<Rightarrow> Some (h, p) | Some (hashBest, _) \<Rightarrow> if h < hashBest then Some (h, p) else best)))"

definition SelectBlockFromCandidates ::
  "env \<Rightarrow> block_map \<Rightarrow> (int \<times> u256) list \<Rightarrow> u256 set \<Rightarrow> int \<Rightarrow> u64 \<Rightarrow> index_node option" where
  "SelectBlockFromCandidates E m vSortedByTimestamp mapSelected stop prev =
     (case select_loop E m mapSelected stop prev vSortedByTimestamp None of
        Some (Some (_, p)) \<Rightarrow> Some p
      | _ \<Rightarrow> None)"

text \<open>The selection rounds: the new modifier and the blocks selected so far.\<close>

fun modifier_rounds ::
  "env \<Rightarrow> block_map \<Rightarrow> (int \<times> u256) list \<Rightarrow> u64 \<Rightarrow> nat list \<Rightarrow> int \<Rightarrow> u256 list \<Rightarrow> u64 \<Rightarrow> (u64 \<times> u256 list) option" where
  "modifier_rounds E m cands prev [] stop selected new = Some (new, selected)"
| "modifier_rounds E m cands prev (r # rs) stop selected new =
     (let stop' = stop + GetStakeModifierSelectionIntervalSection r
      in case SelectBlockFromCandidates E m cands (set selected) stop' prev of
           None \<Rightarrow> None
         | Some p \<Rightarrow>
             modifier_rounds E m cands prev rs stop' (selected @ [idx_hash p])
               (new OR push_bit r (ucast (GetStakeEntropyBit p))))"

definition sorted_candidates :: "CBlockIndex list \<Rightarrow> int \<Rightarrow> (int \<times> u256) list" where
  "sorted_candidates pindexPrev start =
     sort (rev (map (\<lambda>p. (uint (idx_nTime p), idx_hash p)) (takeWhile (\<lambda>p. uint (idx_nTime p) \<ge> start) pindexPrev)))"

text \<open>The modifier and whether it was generated here; None is an error.\<close>

definition ComputeNextStakeModifier :: "env \<Rightarrow> block_map \<Rightarrow> CBlockIndex list \<Rightarrow> (u64 \<times> bool) option" where
  "ComputeNextStakeModifier E m pindexPrev =
     (if pindexPrev = [] then Some (0, True)
      else case GetLastStakeModifier pindexPrev of
        None \<Rightarrow> None
      | Some (prev, nModifierTime) \<Rightarrow>
          (let t = uint (idx_nTime (hd pindexPrev))
           in if nModifierTime div nModifierInterval \<ge> t div nModifierInterval then Some (prev, False)
              else
                (let start = t div nModifierInterval * nModifierInterval - GetStakeModifierSelectionInterval;
                     cands = sorted_candidates pindexPrev start
                 in case modifier_rounds E m cands prev [0..<min 64 (length cands)] start [] 0 of
                      None \<Rightarrow> None
                    | Some (new, _) \<Rightarrow> Some (new, True))))"

section \<open>The kernel\<close>

text \<open>
  The walk along \<^verbatim>\<open>pnext\<close> for the modifier a selection interval after the coin's block. The first
  argument bounds the number of steps; \<open>Some None\<close> is the return of false at the best block.
\<close>

fun kernel_modifier_loop :: "nat \<Rightarrow> block_map \<Rightarrow> int \<Rightarrow> index_node \<Rightarrow> int \<Rightarrow> u64 option option" where
  "kernel_modifier_loop n m target p nStakeModifierTime =
     (if \<not> nStakeModifierTime < target then Some (Some (nStakeModifier p))
      else case n of
        0 \<Rightarrow> None
      | Suc k \<Rightarrow>
          (if idx_next p = 0 then Some None
           else case m (idx_next p) of
             None \<Rightarrow> Some None
           | Some q \<Rightarrow>
               kernel_modifier_loop k m target q
                 (if GeneratedStakeModifier q then uint (idx_nTime q) else nStakeModifierTime)))"

declare kernel_modifier_loop.simps [simp del]

definition GetKernelStakeModifier :: "nat \<Rightarrow> block_map \<Rightarrow> u256 \<Rightarrow> u64 option option" where
  "GetKernelStakeModifier n m hashBlockFrom =
     (case m hashBlockFrom of
        None \<Rightarrow> Some None
      | Some p \<Rightarrow>
          kernel_modifier_loop n m (uint (idx_nTime p) + GetStakeModifierSelectionInterval) p (uint (idx_nTime p)))"

text \<open>
  A successful kernel check returns the proof hash and the target; a failure is the return of false or
  the exception of a big-number division. None stands for a walk longer than the bound.
\<close>

definition CheckStakeKernelHashV1 ::
  "nat \<Rightarrow> env \<Rightarrow> node_params \<Rightarrow> block_map \<Rightarrow> u32 \<Rightarrow> CBlock \<Rightarrow> u32 \<Rightarrow> CTransaction \<Rightarrow> COutPoint \<Rightarrow> u32
     \<Rightarrow> (failure + u256 \<times> u256) option" where
  "CheckStakeKernelHashV1 n E N m bits blockFrom nTxPrevOffset txPrev out nTimeTx =
     (if nTimeTx < nTime txPrev then Some (Inl (Rejected 0))
      else if blk_nTime blockFrom + word_of_int (nStakeMinAge N) > nTimeTx then Some (Inl (Rejected 0))
      else
        (let bnTargetPerCoinDay = SetCompact E 0 bits; nValueIn = nValue (vout txPrev ! unat (prev_n out));
             w = GetWeight N (uint (nTime txPrev)) (uint nTimeTx)
         in case Option.bind (CBigNum_div (setint64 E 0 nValueIn * setint64 E 0 w) (setint64 E 0 COIN))
                   (\<lambda>v. CBigNum_div v (CBigNum_int E (24 * 60 * 60))) of
              None \<Rightarrow> Some (Inl Thrown)
            | Some bnCoinDayWeight \<Rightarrow>
                (case GetKernelStakeModifier n m (CBlock_GetHash E blockFrom) of
                   None \<Rightarrow> None
                 | Some None \<Rightarrow> Some (Inl (Rejected 0))
                 | Some (Some nModifier) \<Rightarrow>
                     (let hashProofOfStake = Hash E (le_bytes 8 (unat nModifier) @ Serialize_u32 (blk_nTime blockFrom) @
                            Serialize_u32 nTxPrevOffset @ Serialize_u32 (nTime txPrev) @ Serialize_u32 (prev_n out) @ Serialize_u32 nTimeTx)
                      in if setuint256 E 0 hashProofOfStake > bnCoinDayWeight * bnTargetPerCoinDay then Some (Inl (Rejected 0))
                         else Some (Inr (hashProofOfStake, getuint256 E (bnCoinDayWeight * bnTargetPerCoinDay)))))))"

definition CheckStakeKernelHashV2 ::
  "env \<Rightarrow> node_params \<Rightarrow> u64 \<Rightarrow> u32 \<Rightarrow> u32 \<Rightarrow> CTransaction \<Rightarrow> COutPoint \<Rightarrow> u32 \<Rightarrow> failure + u256 \<times> u256" where
  "CheckStakeKernelHashV2 E N nModifier bits nTimeBlockFrom txPrev out nTimeTx =
     (if nTimeTx < nTime txPrev then Inl (Rejected 0)
      else if nTimeBlockFrom + word_of_int (nStakeMinAge N) > nTimeTx then Inl (Rejected 0)
      else
        (let bnTarget = SetCompact E 0 bits * setint64 E 0 (nValue (vout txPrev ! unat (prev_n out)));
             hashProofOfStake = Hash E (le_bytes 8 (unat nModifier) @ Serialize_u32 nTimeBlockFrom @
               Serialize_u32 (nTime txPrev) @ uint256_bytes (prev_hash out) @ Serialize_u32 (prev_n out) @ Serialize_u32 nTimeTx)
         in if setuint256 E 0 hashProofOfStake > bnTarget then Inl (Rejected 0)
            else Inr (hashProofOfStake, getuint256 E bnTarget)))"

definition CheckStakeKernelHash ::
  "nat \<Rightarrow> env \<Rightarrow> node_params \<Rightarrow> block_map \<Rightarrow> 'a CBlockIndex_scheme \<Rightarrow> u32 \<Rightarrow> CBlock \<Rightarrow> u32 \<Rightarrow> CTransaction \<Rightarrow> COutPoint \<Rightarrow> u32
     \<Rightarrow> (failure + u256 \<times> u256) option" where
  "CheckStakeKernelHash n E N m pindexPrev bits blockFrom nTxPrevOffset txPrev out nTimeTx =
     (if IsPoSV2 (bp_nHeight pindexPrev + 1)
      then Some (CheckStakeKernelHashV2 E N (nStakeModifier pindexPrev) bits (blk_nTime blockFrom) txPrev out nTimeTx)
      else CheckStakeKernelHashV1 n E N m bits blockFrom nTxPrevOffset txPrev out nTimeTx)"

text \<open>
  The check of a coinstake; failures carry the score given to the transaction. A header is read without
  its transactions and without a check.
\<close>

definition CheckProofOfStake ::
  "nat \<Rightarrow> env \<Rightarrow> node_params \<Rightarrow> CSignatureCache \<Rightarrow> CTxDB \<Rightarrow> chain_io \<Rightarrow> block_map \<Rightarrow> 'a CBlockIndex_scheme \<Rightarrow> CTransaction \<Rightarrow> u32
     \<Rightarrow> (failure + (u256 \<times> u256) \<times> CSignatureCache) option" where
  "CheckProofOfStake n E N C db io m pindexPrev tx bits =
     (if \<not> IsCoinStake tx then Some (Inl (Rejected 0))
      else
        (let out = prevout (vin tx ! 0)
         in case Option.bind (ReadTxIndex db (prev_hash out))
                   (\<lambda>txindex. map_option (Pair txindex) (db_disk db (tx_pos txindex))) of
              None \<Rightarrow> Some (Inl (Rejected 1))
            | Some (txindex, txPrev) \<Rightarrow>
                if unat (prev_n out) \<ge> length (vout txPrev) then Some (Inl (Rejected 1))
                else (case VerifySignature E C txPrev tx 0 0 of
                    None \<Rightarrow> Some (Inl Aborted)
                  | Some (ok, C') \<Rightarrow>
                      if \<not> ok then Some (Inl (Rejected 100))
                      else (case block_file io (nFile (tx_pos txindex)) (nBlockPos (tx_pos txindex)) of
                          None \<Rightarrow> Some (Inl (Rejected 0))
                        | Some block \<Rightarrow>
                            (case CheckStakeKernelHash n E N m pindexPrev bits block
                                    (nTxPos (tx_pos txindex) - nBlockPos (tx_pos txindex)) txPrev out (nTime tx) of
                               None \<Rightarrow> None
                             | Some (Inl (Rejected _)) \<Rightarrow> Some (Inl (Rejected 1))
                             | Some (Inl e) \<Rightarrow> Some (Inl e)
                             | Some (Inr r) \<Rightarrow> Some (Inr (r, C')))))))"

definition GetStakeModifierChecksum :: "env \<Rightarrow> CBlockIndex list \<Rightarrow> u32" where
  "GetStakeModifierChecksum E pindex =
     (let p = hd pindex;
          h = Hash E ((if tl pindex = [] then [] else Serialize_u32 (nStakeModifierChecksum (hd (tl pindex)))) @
                Serialize_u32 (nFlags p) @ uint256_bytes (if Index_IsProofOfStake p then hashProof p else 0) @
                le_bytes 8 (unat (nStakeModifier p)))
      in ucast (drop_bit (256 - 32) h))"

definition CheckStakeModifierCheckpoints :: "node_params \<Rightarrow> int \<Rightarrow> u32 \<Rightarrow> bool" where
  "CheckStakeModifierCheckpoints N nHeight nChecksum \<longleftrightarrow>
     (if nHeight = 0 then nChecksum = (if fTestNet N then 0x0e00670b else 0xfd11f4e7) else True)"

section \<open>The selection\<close>

text \<open>The candidates are entries of the map.\<close>

definition indexed_items :: "block_map \<Rightarrow> (int \<times> u256) list \<Rightarrow> bool" where
  "indexed_items m items \<longleftrightarrow> (\<forall>h \<in> snd ` set items. \<exists>p. m h = Some p \<and> idx_hash p = h)"

lemma select_loop_spec:
  assumes "indexed_items m items"
  shows "\<exists>best'. select_loop E m sel stop prev items best = Some best' \<and>
    (best' = best \<or> (\<exists>h p. best' = Some (h, p) \<and> m (idx_hash p) = Some p \<and> idx_hash p \<in> snd ` set items - sel)) \<and>
    (best' = None \<longrightarrow> best = None \<and> snd ` set items \<subseteq> sel)"
  using assms
proof (induction items arbitrary: best)
  case (Cons item items)
  obtain p where p: "m (snd item) = Some p" "idx_hash p = snd item" using Cons.prems by (auto simp: indexed_items_def)
  have items: "indexed_items m items" using Cons.prems by (auto simp: indexed_items_def)
  note IH = Cons.IH [OF items]
  show ?case
  proof (cases "best \<noteq> None \<and> uint (idx_nTime p) > stop")
    case True
    with p show ?thesis by auto
  next
    case False
    show ?thesis
    proof (cases "idx_hash p \<in> sel")
      case True
      with False p IH [of best] show ?thesis by auto
    next
      case new: False
      define best1 where "best1 = (case best of None \<Rightarrow> Some (selection_hash E prev p, p)
        | Some (hashBest, _) \<Rightarrow> if selection_hash E prev p < hashBest then Some (selection_hash E prev p, p) else best)"
      have b1: "best1 \<noteq> None" "best1 = best \<or> (\<exists>h. best1 = Some (h, p))" by (auto simp: best1_def split: option.splits)
      have l: "select_loop E m sel stop prev (item # items) best = select_loop E m sel stop prev items best1"
        using False new p unfolding best1_def by (auto simp: Let_def)
      have pm: "m (idx_hash p) = Some p" "idx_hash p \<in> snd ` set (item # items) - sel" using p new by auto
      from IH [of best1] b1 pm show ?thesis unfolding l by auto
    qed
  qed
qed simp

lemma SelectBlockFromCandidates_spec:
  assumes "indexed_items m cands" and "\<not> snd ` set cands \<subseteq> sel"
  obtains p where "SelectBlockFromCandidates E m cands sel stop prev = Some p" and "m (idx_hash p) = Some p"
    and "idx_hash p \<in> snd ` set cands" and "idx_hash p \<notin> sel"
proof -
  obtain h p where "select_loop E m sel stop prev cands None = Some (Some (h, p))" "m (idx_hash p) = Some p"
      "idx_hash p \<in> snd ` set cands" "idx_hash p \<notin> sel"
    using select_loop_spec [OF assms(1), of E sel stop prev None] assms(2) by blast
  with that [of p] show thesis by (simp add: SelectBlockFromCandidates_def)
qed

lemma bit_entropy: "bit (ucast (GetStakeEntropyBit p) :: u64) j \<longleftrightarrow> j = 0 \<and> GetStakeEntropyBit p \<noteq> 0"
proof -
  have "nFlags p AND 2 = (if bit (nFlags p) 1 then 2 else 0)"
    by (rule bit_word_eqI) (auto simp: bit_simps bit_2_iff)
  then have "GetStakeEntropyBit p = (if bit (nFlags p) 1 then 1 else 0)" by (simp add: GetStakeEntropyBit_def)
  then show ?thesis by (simp add: bit_1_iff)
qed

lemma bit_round: "k < 64 \<Longrightarrow> bit (push_bit k (ucast (GetStakeEntropyBit p)) :: u64) i \<longleftrightarrow> i = k \<and> GetStakeEntropyBit p \<noteq> 0"
  unfolding bit_push_bit_iff bit_entropy by auto

lemma modifier_rounds_spec:
  assumes "indexed_items m cands" and "n \<le> length cands" and "n \<le> 64" and "distinct (map snd cands)"
    and "length selected = k" and "k \<le> n" and "distinct selected" and "set selected \<subseteq> snd ` set cands"
    and "\<forall>i. bit new i \<longleftrightarrow> i < k \<and> GetStakeEntropyBit (the (m (selected ! i))) \<noteq> 0"
  shows "\<exists>new' sel. modifier_rounds E m cands prev [k..<n] stop selected new = Some (new', sel) \<and> length sel = n \<and> distinct sel \<and>
    set sel \<subseteq> snd ` set cands \<and> (\<forall>i. bit new' i \<longleftrightarrow> i < n \<and> GetStakeEntropyBit (the (m (sel ! i))) \<noteq> 0)"
  using assms(5-9)
proof (induction "n - k" arbitrary: k stop selected new)
  case 0
  then show ?case by simp
next
  case (Suc d)
  then have kn: "k < n" by simp
  have "card (snd ` set cands) = length cands" using distinct_card [OF assms(4)] by simp
  moreover have "card (set selected) = k" using Suc.prems(1,3) distinct_card by blast
  ultimately have "\<not> snd ` set cands \<subseteq> set selected"
    using kn assms(2) card_mono [of "set selected" "snd ` set cands"] by auto
  then obtain p where p: "SelectBlockFromCandidates E m cands (set selected) (stop + GetStakeModifierSelectionIntervalSection k) prev = Some p"
      "m (idx_hash p) = Some p" "idx_hash p \<in> snd ` set cands" "idx_hash p \<notin> set selected"
    using SelectBlockFromCandidates_spec [OF assms(1)] by metis
  let ?new = "new OR push_bit k (ucast (GetStakeEntropyBit p)) :: u64" and ?sel = "selected @ [idx_hash p]"
  have bits: "\<forall>i. bit ?new i \<longleftrightarrow> i < Suc k \<and> GetStakeEntropyBit (the (m (?sel ! i))) \<noteq> 0"
  proof
    fix i
    have r: "bit (push_bit k (ucast (GetStakeEntropyBit p)) :: u64) i \<longleftrightarrow> i = k \<and> GetStakeEntropyBit p \<noteq> 0"
      by (rule bit_round) (use kn assms(3) in simp)
    show "bit ?new i \<longleftrightarrow> i < Suc k \<and> GetStakeEntropyBit (the (m (?sel ! i))) \<noteq> 0"
    proof (cases "i = k")
      case True
      then have "?sel ! i = idx_hash p" using Suc.prems(1) by (simp add: nth_append)
      with True r Suc.prems(5) p(2) show ?thesis unfolding bit_or_iff by simp
    next
      case False
      then have "i < Suc k \<Longrightarrow> ?sel ! i = selected ! i" using Suc.prems(1) by (simp add: nth_append)
      with False r Suc.prems(5) show ?thesis unfolding bit_or_iff by (metis less_Suc_eq)
    qed
  qed
  have "\<exists>new' sel. modifier_rounds E m cands prev [Suc k..<n] (stop + GetStakeModifierSelectionIntervalSection k) ?sel ?new = Some (new', sel) \<and>
      length sel = n \<and> distinct sel \<and> set sel \<subseteq> snd ` set cands \<and>
      (\<forall>i. bit new' i \<longleftrightarrow> i < n \<and> GetStakeEntropyBit (the (m (sel ! i))) \<noteq> 0)"
  proof (rule Suc.hyps(1))
    show "d = n - Suc k" using Suc.hyps(2) by simp
    show "length ?sel = Suc k" "Suc k \<le> n" using Suc.prems(1) kn by simp_all
    show "distinct ?sel" "set ?sel \<subseteq> snd ` set cands" using Suc.prems(3,4) p(3,4) by simp_all
    show "\<forall>i. bit ?new i \<longleftrightarrow> i < Suc k \<and> GetStakeEntropyBit (the (m (?sel ! i))) \<noteq> 0" by (rule bits)
  qed
  moreover have "modifier_rounds E m cands prev [k..<n] stop selected new =
      modifier_rounds E m cands prev [Suc k..<n] (stop + GetStakeModifierSelectionIntervalSection k) ?sel ?new"
    using p(1) kn by (simp only: upt_conv_Cons modifier_rounds.simps Let_def option.case)
  ultimately show ?case by (simp only:)
qed

lemma linked_distinct:
  assumes "index_inv m g" and "linked m xs"
  shows "distinct xs"
  using assms(2)
proof (induction xs)
  case (Cons x xs)
  show ?case
  proof (cases "xs = []")
    case False
    then have "linked m xs" using Cons.prems linked_suffix [of m "[x]" xs] by simp
    moreover have "x \<notin> set xs" using linked_heights [OF assms(1) Cons.prems] by blast
    ultimately show ?thesis using Cons.IH by simp
  qed simp
qed simp

lemma entries_hashes:
  assumes "index_inv m g" and "linked m xs"
  shows "map idx_hash (entries m xs) = xs"
proof -
  have "\<forall>x \<in> set xs. \<exists>p. m x = Some p \<and> idx_hash p = x" using linked_in [OF assms(2)] index_invD(1) [OF assms(1)] by blast
  then show ?thesis
    by (induction xs) (auto simp: entries_def List.map_filter_simps CBlockIndex.truncate_def)
qed

lemma candidates_indexed:
  assumes "index_inv m g" and "linked m xs"
  shows "indexed_items m (sorted_candidates (entries m xs) start)" and "distinct (map snd (sorted_candidates (entries m xs) start))"
    and "snd ` set (sorted_candidates (entries m xs) start) \<subseteq> set xs"
proof -
  define ps where "ps = takeWhile (\<lambda>p. uint (idx_nTime p) \<ge> start) (entries m xs)"
  have pre: "map idx_hash ps = take (length ps) xs"
  proof -
    have "ps = take (length ps) (entries m xs)" unfolding ps_def by (rule takeWhile_eq_take)
    then have "map idx_hash ps = map idx_hash (take (length ps) (entries m xs))" by (rule arg_cong)
    also have "\<dots> = take (length ps) xs" by (simp only: take_map [symmetric] entries_hashes [OF assms])
    finally show ?thesis .
  qed
  have sc: "mset (map snd (sorted_candidates (entries m xs) start)) = mset (map idx_hash ps)"
    by (simp add: sorted_candidates_def ps_def image_mset.compositionality o_def)
  have d: "distinct (map idx_hash ps)" unfolding pre using linked_distinct [OF assms] by simp
  show "distinct (map snd (sorted_candidates (entries m xs) start))"
    using mset_eq_imp_distinct_iff [OF sc] d by simp
  have "snd ` set (sorted_candidates (entries m xs) start) = set (map idx_hash ps)"
    using arg_cong [OF sc, of set_mset] by simp
  also have "\<dots> \<subseteq> set xs" unfolding pre by (rule set_take_subset)
  finally show sub: "snd ` set (sorted_candidates (entries m xs) start) \<subseteq> set xs" .
  show "indexed_items m (sorted_candidates (entries m xs) start)"
    unfolding indexed_items_def using sub linked_in [OF assms(2)] index_invD(1) [OF assms(1)] by blast
qed

text \<open>the stake modifier is a record of the past. When the best block has left the interval of the last
  generated modifier, \<^verbatim>\<open>ComputeNextStakeModifier\<close> never fails: it selects pairwise distinct ancestors of the block,
  64 of them or all the candidates of the selection interval if there are fewer, and bit \<open>i\<close> of the new modifier is
  the entropy bit of the \<open>i\<close>-th selected block. All other bits are zero.\<close>

theorem ComputeNextStakeModifier_bits:
  assumes "index_inv m g" and "m h \<noteq> None" and "GetLastStakeModifier (entries m (chain_from m h)) = Some (prev, t0)"
    and "t0 div nModifierInterval < uint (idx_nTime (hd (entries m (chain_from m h)))) div nModifierInterval"
  defines "t \<equiv> uint (idx_nTime (hd (entries m (chain_from m h))))"
  defines "cands \<equiv> sorted_candidates (entries m (chain_from m h)) (t div nModifierInterval * nModifierInterval - GetStakeModifierSelectionInterval)"
  shows "\<exists>new sel. ComputeNextStakeModifier E m (entries m (chain_from m h)) = Some (new, True) \<and>
    length sel = min 64 (length cands) \<and> distinct sel \<and> set sel \<subseteq> set (chain_from m h) \<and>
    (\<forall>i. bit new i \<longleftrightarrow> i < length sel \<and> GetStakeEntropyBit (the (m (sel ! i))) \<noteq> 0)"
proof -
  obtain p where "m h = Some p" using assms(2) by blast
  note l = linked_chain_from(1) [OF assms(1) this]
  note c = candidates_indexed [OF assms(1) l, of "t div nModifierInterval * nModifierInterval - GetStakeModifierSelectionInterval", folded cands_def]
  obtain new sel where r: "modifier_rounds E m cands prev [0..<min 64 (length cands)]
      (t div nModifierInterval * nModifierInterval - GetStakeModifierSelectionInterval) [] 0 = Some (new, sel)"
      "length sel = min 64 (length cands)" "distinct sel" "set sel \<subseteq> snd ` set cands"
      "\<forall>i. bit new i \<longleftrightarrow> i < min 64 (length cands) \<and> GetStakeEntropyBit (the (m (sel ! i))) \<noteq> 0"
    using modifier_rounds_spec [OF c(1) _ _ c(2), of "min 64 (length cands)" "[]" 0 0 E prev
      "t div nModifierInterval * nModifierInterval - GetStakeModifierSelectionInterval"] by (metis bit_0_eq bot_apply distinct.simps(1) empty_subsetI
        le0 list.set(1) list.size(3) min.cobounded1 min.cobounded2 not_less0 bot_bool_def)
  have ne: "entries m (chain_from m h) \<noteq> []" using assms(3) by auto
  have "ComputeNextStakeModifier E m (entries m (chain_from m h)) = Some (new, True)"
    unfolding ComputeNextStakeModifier_def using ne assms(3,4) r(1)
    by (simp add: Let_def not_le flip: t_def cands_def)
  then show ?thesis using r(2-5) c(3) by (intro exI [of _ new] exI [of _ sel]) auto
qed

end
