(* ===== verification/Checkpoints.thy ===== *)
theory Checkpoints
  imports ChainInv
begin

text \<open>
  Checkpoints, from \<^verbatim>\<open>src/src/checkpoints.cpp\<close> and \<^verbatim>\<open>src/src/checkpoints.h\<close>: the blocks fixed in the program and the
  synchronized checkpoint that the holder of the master key broadcasts. A received checkpoint waits until
  its block is known, must descend from the current one and may force a switch of the best chain.
  Messages to peers, the master private key and the signing of checkpoints are not modelled.
\<close>

section \<open>Hardened checkpoints\<close>

definition mapCheckpoints :: "(int \<times> u256) list" where
  "mapCheckpoints =
     [(0, 0x0000044966f40703b516c5af180582d53f783bfd319bb045e2dc3e05ea695d46),
      (500, 0x000000000680a9a697eb71155b18a5827e0889fca28afb81fcbb46469ed7877e),
      (10000, 0x00000000000001634bb95749a866092348aef266f9169c3ddbcf226d4807ba09),
      (20160, 0x00000000000000c01dd622db4c55cf7a2f712fb221cd5d951338ff35d9f0289e),
      (35000, 0x90e4d16dd67369b4b5795571fe0cfe63be8c1796ecf5870cad20798a752d92f2),
      (56000, 0x04002106ca4da32c5c7889c8f17369d23a35bce62a8196477c8f8e0e0dbe4efc)]"

definition mapCheckpointsTestnet :: "(int \<times> u256) list" where
  "mapCheckpointsTestnet = [(0, 0x0000a3af4d553378169e82ac59a767b343ad5a4b8acb9c84ca4d3fbd0ae54fee)]"

definition checkpoints :: "node_params \<Rightarrow> (int \<times> u256) list" where
  "checkpoints N = (if fTestNet N then mapCheckpointsTestnet else mapCheckpoints)"

definition CheckHardened :: "node_params \<Rightarrow> int \<Rightarrow> u256 \<Rightarrow> bool" where
  "CheckHardened N nHeight h = (case map_of (checkpoints N) nHeight of None \<Rightarrow> True | Some k \<Rightarrow> h = k)"

definition GetTotalBlocksEstimate :: "node_params \<Rightarrow> int" where
  "GetTotalBlocksEstimate N = fst (last (checkpoints N))"

definition GetLastCheckpoint :: "node_params \<Rightarrow> block_map \<Rightarrow> u256 option" where
  "GetLastCheckpoint N m = map_option snd (find (\<lambda>(_, h). m h \<noteq> None) (rev (checkpoints N)))"

section \<open>The synchronized checkpoint\<close>

datatype CPMode = STRICT | ADVISORY | PERMISSIVE

record CSyncCheckpoint =
  ck_nVersion :: u32
  hashCheckpoint :: u256
  vchMsg :: "byte list"
  vchSig :: "byte list"

text \<open>The globals of the namespace and the hash the database holds.\<close>

record sync_state =
  hashSyncCheckpoint :: u256
  hashPendingCheckpoint :: u256
  hashInvalidCheckpoint :: u256
  checkpointMessage :: CSyncCheckpoint
  checkpointMessagePending :: CSyncCheckpoint
  stored_sync :: "u256 option"

definition CSyncCheckpoint_SetNull :: CSyncCheckpoint where
  "CSyncCheckpoint_SetNull = \<lparr>ck_nVersion = 1, hashCheckpoint = 0, vchMsg = [], vchSig = []\<rparr>"

definition GetLastSyncCheckpoint :: "block_map \<Rightarrow> sync_state \<Rightarrow> u256 option" where
  "GetLastSyncCheckpoint m st = (if m (hashSyncCheckpoint st) = None then None else Some (hashSyncCheckpoint st))"

text \<open>The loops that trace back are \<open>drop_longer\<close> on the list of ancestors, the empty list a null pointer.\<close>

definition ValidateSyncCheckpoint :: "block_map \<Rightarrow> u256 \<Rightarrow> sync_state \<Rightarrow> bool \<times> sync_state" where
  "ValidateSyncCheckpoint m h st =
     (let s = hashSyncCheckpoint st
      in if m s = None then (False, st)
         else if m h = None then (False, st)
         else if node_height m h \<le> node_height m s then
           (case drop_longer m (node_height m h) (chain_from m s) of
              [] \<Rightarrow> (False, st)
            | k # _ \<Rightarrow> if k \<noteq> h then (False, st\<lparr>hashInvalidCheckpoint := h\<rparr>) else (False, st))
         else
           (case drop_longer m (node_height m s) (chain_from m h) of
              [] \<Rightarrow> (False, st)
            | k # _ \<Rightarrow> if k \<noteq> s then (False, st\<lparr>hashInvalidCheckpoint := h\<rparr>) else (True, st)))"

definition WriteSyncCheckpoint :: "chain_io \<Rightarrow> CChainDB \<Rightarrow> u256 \<Rightarrow> sync_state \<Rightarrow> bool \<times> sync_state" where
  "WriteSyncCheckpoint io D h st =
     (if commit_ok io D then (True, st\<lparr>stored_sync := Some h, hashSyncCheckpoint := h\<rparr>) else (False, st))"

definition IsInMainChain :: "node_state \<Rightarrow> u256 \<Rightarrow> bool" where
  "IsInMainChain S h \<longleftrightarrow> (case mapBlockIndex S h of None \<Rightarrow> False | Some p \<Rightarrow> idx_next p \<noteq> 0 \<or> pindexBest S = Some h)"

text \<open>
  The switch to a checkpoint outside the main chain: \<open>Inl\<close> is a failure, with whether \<^verbatim>\<open>SetBestChain\<close> caused it.
\<close>

definition switch_to :: "nat \<Rightarrow> env \<Rightarrow> chain_io \<Rightarrow> u256 \<Rightarrow> node_state \<Rightarrow> (bool \<times> node_state + node_state) option" where
  "switch_to n E io h S =
     (if IsInMainChain S h then Some (Inr S)
      else case ReadFromDisk E (ns_params S) io (mapBlockIndex S) h of
        None \<Rightarrow> Some (Inl (False, S))
      | Some b \<Rightarrow>
          (case SetBestChain n E io b h S of
             None \<Rightarrow> None
           | Some (Inl S') \<Rightarrow> Some (Inl (True, S'))
           | Some (Inr S') \<Rightarrow> Some (Inr S')))"

definition drop_pending :: "sync_state \<Rightarrow> sync_state" where
  "drop_pending st = st\<lparr>hashPendingCheckpoint := 0, checkpointMessagePending := CSyncCheckpoint_SetNull\<rparr>"

definition AcceptPendingSyncCheckpoint ::
  "nat \<Rightarrow> env \<Rightarrow> chain_io \<Rightarrow> node_state \<Rightarrow> sync_state \<Rightarrow> (bool \<times> node_state \<times> sync_state) option" where
  "AcceptPendingSyncCheckpoint n E io S st =
     (let h = hashPendingCheckpoint st
      in if h \<noteq> 0 \<and> mapBlockIndex S h \<noteq> None then
           (case ValidateSyncCheckpoint (mapBlockIndex S) h st of
              (False, st1) \<Rightarrow> Some (False, S, drop_pending st1)
            | (True, st1) \<Rightarrow>
                (case switch_to n E io h S of
                   None \<Rightarrow> None
                 | Some (Inl (bad, S')) \<Rightarrow> Some (False, S', if bad then st1\<lparr>hashInvalidCheckpoint := h\<rparr> else st1)
                 | Some (Inr S') \<Rightarrow>
                     (case WriteSyncCheckpoint io (ns_db S') h st1 of
                        (False, st2) \<Rightarrow> Some (False, S', st2)
                      | (True, st2) \<Rightarrow> Some (True, S', drop_pending (st2\<lparr>checkpointMessage := checkpointMessagePending st2\<rparr>)))))
         else Some (False, S, st))"

text \<open>The walk back from the best block; the list holds the entry and its ancestors.\<close>

fun auto_select :: "CBlockIndex \<Rightarrow> CBlockIndex list \<Rightarrow> u256" where
  "auto_select best [] = 0"
| "auto_select best [p] = idx_hash p"
| "auto_select best (p # q # ps) =
     (if uint (idx_nTime p) + 10 * nTargetSpacing > uint (idx_nTime best) \<or> bp_nHeight p + 10 > bp_nHeight best
      then auto_select best (q # ps) else idx_hash p)"

definition AutoSelectSyncCheckpoint :: "node_state \<Rightarrow> u256" where
  "AutoSelectSyncCheckpoint S =
     (case pindexBest S of
        None \<Rightarrow> 0
      | Some t \<Rightarrow> (let ps = entries (mapBlockIndex S) (chain_from (mapBlockIndex S) t) in auto_select (hd ps) ps))"

definition CheckSync :: "node_params \<Rightarrow> block_map \<Rightarrow> sync_state \<Rightarrow> u256 \<Rightarrow> u256 \<Rightarrow> failure + bool" where
  "CheckSync N m st hashBlock hashPrv =
     (if fTestNet N then Inr True
      else
        (let nHeight = node_height m hashPrv + 1; s = hashSyncCheckpoint st
         in if m s = None then Inl Aborted
            else
              (let nSync = node_height m s
               in if nHeight > nSync \<and>
                     (case drop_longer m nSync (chain_from m hashPrv) of
                        [] \<Rightarrow> True
                      | k # _ \<Rightarrow> node_height m k < nSync \<or> k \<noteq> s)
                  then Inr False
                  else if nHeight = nSync \<and> hashBlock \<noteq> s then Inr False
                  else if nHeight < nSync \<and> m hashBlock = None then Inr False
                  else Inr True)))"

text \<open>The first argument bounds the walk along orphans; None means it was too small.\<close>

fun WantedByOrphan :: "nat \<Rightarrow> (u256 \<rightharpoonup> CBlock) \<Rightarrow> CBlock \<Rightarrow> u256 option" where
  "WantedByOrphan n orphans b =
     (case orphans (hashPrevBlock b) of
        None \<Rightarrow> Some (hashPrevBlock b)
      | Some b' \<Rightarrow> (case n of 0 \<Rightarrow> None | Suc k \<Rightarrow> WantedByOrphan k orphans b'))"

declare WantedByOrphan.simps [simp del]

definition WantedByPendingSyncCheckpoint :: "nat \<Rightarrow> (u256 \<rightharpoonup> CBlock) \<Rightarrow> sync_state \<Rightarrow> u256 \<Rightarrow> bool option" where
  "WantedByPendingSyncCheckpoint n orphans st hashBlock =
     (if hashPendingCheckpoint st = 0 then Some False
      else if hashBlock = hashPendingCheckpoint st then Some True
      else case orphans (hashPendingCheckpoint st) of
        None \<Rightarrow> Some False
      | Some b \<Rightarrow> map_option (\<lambda>h. hashBlock = h) (WantedByOrphan n orphans b))"

text \<open>The reset uses the main network's checkpoints on both networks.\<close>

definition ResetSyncCheckpoint ::
  "nat \<Rightarrow> env \<Rightarrow> chain_io \<Rightarrow> node_state \<Rightarrow> sync_state \<Rightarrow> (bool \<times> node_state \<times> sync_state) option" where
  "ResetSyncCheckpoint n E io S st =
     (let h = snd (last mapCheckpoints)
      in case (if mapBlockIndex S h \<noteq> None \<and> \<not> IsInMainChain S h then switch_to n E io h S else Some (Inr S)) of
           None \<Rightarrow> None
         | Some (Inl (_, S')) \<Rightarrow> Some (False, S', st)
         | Some (Inr S') \<Rightarrow>
             (let st1 = (if mapBlockIndex S h = None
                         then st\<lparr>hashPendingCheckpoint := h, checkpointMessagePending := CSyncCheckpoint_SetNull\<rparr> else st)
              in case find (\<lambda>(_, k). IsInMainChain S' k) (rev mapCheckpoints) of
                   None \<Rightarrow> Some (False, S', st1)
                 | Some (_, k) \<Rightarrow> (case WriteSyncCheckpoint io (ns_db S') k st1 of (ok, st2) \<Rightarrow> Some (ok, S', st2))))"

definition IsMatureSyncCheckpoint :: "node_params \<Rightarrow> block_map \<Rightarrow> sync_state \<Rightarrow> failure + bool" where
  "IsMatureSyncCheckpoint N m st =
     (case m (hashSyncCheckpoint st) of
        None \<Rightarrow> Inl Aborted
      | Some p \<Rightarrow> Inr (nBestHeight N \<ge> bp_nHeight p + nCoinbaseMaturity N \<or> uint (idx_nTime p) + nStakeMinAge N < AdjustedTime N))"

section \<open>Received checkpoints\<close>

definition strMasterPubKey :: "byte list" where
  "strMasterPubKey = rev (le_bytes 65
     0x04a18357665ed7a802dcf252ef528d3dc786da38653b51d1ab8e9f4820b55aca807892a056781967315908ac205940ec9d6f2fd0a85941966971eac7e475a27826)"

definition Unserialize_CUnsignedSyncCheckpoint :: "byte list \<Rightarrow> (u32 \<times> u256) option" where
  "Unserialize_CUnsignedSyncCheckpoint s = do {
     (ver, s) \<leftarrow> Unserialize_u32 s;
     (h, s) \<leftarrow> Unserialize_u256 s;
     Some (ver, h)
   }"

text \<open>The checked message with the fields it carries; reading too few bytes throws.\<close>

definition CheckSignature :: "env \<Rightarrow> CSyncCheckpoint \<Rightarrow> failure + CSyncCheckpoint" where
  "CheckSignature E c =
     (if \<not> SetPubKey E strMasterPubKey then Inl (Rejected 0)
      else if \<not> Verify E strMasterPubKey (Hash E (vchMsg c)) (vchSig c) then Inl (Rejected 0)
      else case Unserialize_CUnsignedSyncCheckpoint (vchMsg c) of
        None \<Rightarrow> Inl Thrown
      | Some (ver, h) \<Rightarrow> Inr (c\<lparr>ck_nVersion := ver, hashCheckpoint := h\<rparr>))"

definition ProcessSyncCheckpoint ::
  "nat \<Rightarrow> env \<Rightarrow> chain_io \<Rightarrow> CSyncCheckpoint \<Rightarrow> node_state \<Rightarrow> sync_state \<Rightarrow> ((failure + bool) \<times> node_state \<times> sync_state) option" where
  "ProcessSyncCheckpoint n E io c0 S st =
     (case CheckSignature E c0 of
        Inl (Rejected _) \<Rightarrow> Some (Inr False, S, st)
      | Inl e \<Rightarrow> Some (Inl e, S, st)
      | Inr c \<Rightarrow>
          (let h = hashCheckpoint c
           in if mapBlockIndex S h = None
              then Some (Inr False, S, st\<lparr>hashPendingCheckpoint := h, checkpointMessagePending := c\<rparr>)
              else (case ValidateSyncCheckpoint (mapBlockIndex S) h st of
                  (False, st1) \<Rightarrow> Some (Inr False, S, st1)
                | (True, st1) \<Rightarrow>
                    (case switch_to n E io h S of
                       None \<Rightarrow> None
                     | Some (Inl (bad, S')) \<Rightarrow> Some (Inr False, S', if bad then st1\<lparr>hashInvalidCheckpoint := h\<rparr> else st1)
                     | Some (Inr S') \<Rightarrow>
                         (case WriteSyncCheckpoint io (ns_db S') h st1 of
                            (False, st2) \<Rightarrow> Some (Inr False, S', st2)
                          | (True, st2) \<Rightarrow> Some (Inr True, S', drop_pending (st2\<lparr>checkpointMessage := c\<rparr>)))))))"

section \<open>Descendants\<close>

lemma drop_longer_in: "drop_longer m k xs = x # ys \<Longrightarrow> x \<in> set xs"
  by (induction xs) (auto split: if_splits)

lemma Validate_descends:
  assumes "ValidateSyncCheckpoint m h st = (True, st1)"
  shows "st1 = st" and "m h \<noteq> None" and "hashSyncCheckpoint st \<in> set (chain_from m h)"
    and "node_height m (hashSyncCheckpoint st) < node_height m h"
proof -
  have n: "m (hashSyncCheckpoint st) \<noteq> None" "m h \<noteq> None" "\<not> node_height m h \<le> node_height m (hashSyncCheckpoint st)"
    using assms by (auto simp: ValidateSyncCheckpoint_def Let_def split: if_splits list.splits)
  then obtain xs where "drop_longer m (node_height m (hashSyncCheckpoint st)) (chain_from m h) = hashSyncCheckpoint st # xs" "st1 = st"
    using assms by (auto simp: ValidateSyncCheckpoint_def Let_def split: if_splits list.splits)
  with n drop_longer_in show "st1 = st" "m h \<noteq> None" "hashSyncCheckpoint st \<in> set (chain_from m h)"
      "node_height m (hashSyncCheckpoint st) < node_height m h" by simp_all
qed

lemma Validate_keeps: "ValidateSyncCheckpoint m h st = (ok, st1) \<Longrightarrow> hashSyncCheckpoint st1 = hashSyncCheckpoint st"
  by (auto simp: ValidateSyncCheckpoint_def Let_def split: if_splits list.splits)

lemma WriteSync_cases:
  "WriteSyncCheckpoint io D h st = (ok, st2) \<Longrightarrow> hashSyncCheckpoint st2 = (if ok then h else hashSyncCheckpoint st)"
  by (auto simp: WriteSyncCheckpoint_def split: if_splits)

lemma drop_pending_sync [simp]: "hashSyncCheckpoint (drop_pending st) = hashSyncCheckpoint st"
  by (simp add: drop_pending_def)

lemma AcceptPending_sync:
  assumes "AcceptPendingSyncCheckpoint n E io S st = Some (ok, S', st')" and "hashSyncCheckpoint st' \<noteq> hashSyncCheckpoint st"
  shows "ok \<and> hashSyncCheckpoint st' = hashPendingCheckpoint st \<and> hashPendingCheckpoint st \<noteq> 0 \<and>
    (\<exists>st1. ValidateSyncCheckpoint (mapBlockIndex S) (hashPendingCheckpoint st) st = (True, st1))"
  using assms
  by (auto simp: AcceptPendingSyncCheckpoint_def Let_def split: if_splits prod.splits bool.splits option.splits sum.splits
      dest!: Validate_keeps WriteSync_cases)

lemma ProcessSync_sync:
  assumes "ProcessSyncCheckpoint n E io c S st = Some (r, S', st')" and "hashSyncCheckpoint st' \<noteq> hashSyncCheckpoint st"
  shows "\<exists>c1 st1. r = Inr True \<and> CheckSignature E c = Inr c1 \<and> hashSyncCheckpoint st' = hashCheckpoint c1 \<and>
    ValidateSyncCheckpoint (mapBlockIndex S) (hashCheckpoint c1) st = (True, st1)"
  using assms
  by (auto simp: ProcessSyncCheckpoint_def Let_def split: if_splits prod.splits bool.splits option.splits sum.splits failure.splits
      dest!: Validate_keeps WriteSync_cases)

lemma Validate_strict:
  assumes "index_inv m g" and "ValidateSyncCheckpoint m h st = (True, st1)"
  shows "hashSyncCheckpoint st \<in> set (tl (chain_from m h))"
proof -
  note v = Validate_descends [OF assms(2)]
  obtain p where "m h = Some p" using v(2) by blast
  then have "hd (chain_from m h) = h" using linked_chain_from(2) [OF assms(1)] by simp
  moreover have "hashSyncCheckpoint st \<noteq> h" using v(4) by auto
  ultimately show ?thesis using v(3) by (cases "chain_from m h") auto
qed

section \<open>Signed messages\<close>

text \<open>A message that the holder of the master key signed for a hash.\<close>

definition signed_for :: "env \<Rightarrow> CSyncCheckpoint \<Rightarrow> u256 \<Rightarrow> bool" where
  "signed_for E c h \<longleftrightarrow> Verify E strMasterPubKey (Hash E (vchMsg c)) (vchSig c) \<and>
     (\<exists>ver. Unserialize_CUnsignedSyncCheckpoint (vchMsg c) = Some (ver, h))"

text \<open>
  The runs of the synchronized checkpoint with the messages received so far, the latest first: the program starts with no
  pending checkpoint; then messages arrive, the pending checkpoint is tried again, and the checkpoint is reset, each
  on whatever the state of the chain is at that time.
\<close>

inductive sync_run :: "env \<Rightarrow> sync_state \<Rightarrow> CSyncCheckpoint list \<Rightarrow> bool" for E where
  start: "hashPendingCheckpoint st = 0 \<Longrightarrow> sync_run E st []"
| message: "sync_run E st cs \<Longrightarrow> ProcessSyncCheckpoint n E io c S st = Some (r, S', st') \<Longrightarrow> sync_run E st' (c # cs)"
| pending: "sync_run E st cs \<Longrightarrow> AcceptPendingSyncCheckpoint n E io S st = Some (ok, S', st') \<Longrightarrow> sync_run E st' cs"
| reset: "sync_run E st cs \<Longrightarrow> ResetSyncCheckpoint n E io S st = Some (ok, S', st') \<Longrightarrow> sync_run E st' cs"

lemma message_signed_for: "CheckSignature E c = Inr c1 \<Longrightarrow> signed_for E c (hashCheckpoint c1)"
  by (auto simp: CheckSignature_def signed_for_def split: if_splits option.splits)

lemma Validate_pending: "ValidateSyncCheckpoint m h st = (ok, st1) \<Longrightarrow> hashPendingCheckpoint st1 = hashPendingCheckpoint st"
  by (auto simp: ValidateSyncCheckpoint_def Let_def split: if_splits list.splits)

lemma WriteSync_pending: "WriteSyncCheckpoint io D h st = (ok, st2) \<Longrightarrow> hashPendingCheckpoint st2 = hashPendingCheckpoint st"
  by (auto simp: WriteSyncCheckpoint_def split: if_splits)

lemma drop_pending_none [simp]: "hashPendingCheckpoint (drop_pending st) = 0"
  by (simp add: drop_pending_def)

lemma AcceptPending_pending:
  "AcceptPendingSyncCheckpoint n E io S st = Some (ok, S', st') \<Longrightarrow> hashPendingCheckpoint st' \<in> {0, hashPendingCheckpoint st}"
  by (auto simp: AcceptPendingSyncCheckpoint_def Let_def split: if_splits prod.splits bool.splits option.splits sum.splits
      dest!: Validate_pending WriteSync_pending)

lemma ProcessSync_pending:
  "ProcessSyncCheckpoint n E io c S st = Some (r, S', st') \<Longrightarrow>
   hashPendingCheckpoint st' \<in> {0, hashPendingCheckpoint st} \<or> signed_for E c (hashPendingCheckpoint st')"
  by (auto simp: ProcessSyncCheckpoint_def Let_def split: if_splits prod.splits bool.splits option.splits sum.splits failure.splits
      dest!: Validate_pending WriteSync_pending message_signed_for)

lemma ResetSync_pending:
  "ResetSyncCheckpoint n E io S st = Some (ok, S', st') \<Longrightarrow> hashPendingCheckpoint st' \<in> {hashPendingCheckpoint st, snd (last mapCheckpoints)}"
  by (auto simp: ResetSyncCheckpoint_def Let_def split: if_splits prod.splits option.splits sum.splits dest!: WriteSync_pending)

text \<open>A pending checkpoint was signed in a message received, or it is the last one fixed in the program.\<close>

lemma pending_vouched:
  assumes "sync_run E st cs"
  shows "hashPendingCheckpoint st = 0 \<or> (\<exists>m\<in>set cs. signed_for E m (hashPendingCheckpoint st)) \<or> hashPendingCheckpoint st = snd (last mapCheckpoints)"
  using assms
proof induction
  case (message st cs n io c S r S' st')
  then show ?case using ProcessSync_pending [OF message.hyps(2)] by auto
next
  case (pending st cs n io S ok S' st')
  then show ?case using AcceptPending_pending [OF pending.hyps(2)] by auto
next
  case (reset st cs n io S ok S' st')
  then show ?case using ResetSync_pending [OF reset.hyps(2)] by auto
qed simp

section \<open>Properties\<close>


end
