(* ===== verification/Failures.thy ===== *)
theory Failures
  imports Block
begin

text \<open>
  How validation stops. The sources mix three kinds of failure: returning false with a misbehaviour
  score, throwing \<^verbatim>\<open>std::runtime_error\<close> (\<^verbatim>\<open>GetOutputFor\<close>, \<^verbatim>\<open>GetValueOut\<close>, the big-number division) and
  failing an \<^verbatim>\<open>assert\<close> (\<^verbatim>\<open>ConnectInputs\<close>, \<^verbatim>\<open>VerifySignature\<close>). The guards in front of those calls are
  shown to make the last two unreachable in the validation of transactions by \<^verbatim>\<open>CTxMemPool::accept\<close> and of blocks
  by \<^verbatim>\<open>CBlock::ConnectBlock\<close>, so a peer cannot bring the node down there with a transaction or a block. The wallets, which both
  functions notify at their end, can throw (\<^verbatim>\<open>CWallet::GetDebit\<close>) and are not covered.
\<close>

definition clean :: "failure + 'a \<Rightarrow> bool" where
  "clean r = (case r of Inl Thrown \<Rightarrow> False | Inl Aborted \<Rightarrow> False | _ \<Rightarrow> True)"

named_theorems clean_simps \<open>results that are no exception and no failed assertion\<close>

lemma clean_cases [clean_simps]:
  "clean (Inr x)" "clean (Inl (Rejected n))" "\<not> clean (Inl Thrown)" "\<not> clean (Inl Aborted)"
  by (simp_all add: clean_def)

lemma clean_iff: "clean r \<longleftrightarrow> (\<forall>e. r = Inl e \<longrightarrow> (\<exists>n. e = Rejected n))"
  by (cases r) (auto simp: clean_def split: failure.splits)

lemma clean_Inl: "clean (r :: failure + 'a) \<Longrightarrow> r = Inl e \<Longrightarrow> clean (Inl e :: failure + 'b)"
  by (simp add: clean_iff)

section \<open>The inputs of a transaction\<close>

lemma FetchInputs_clean:
  assumes "FetchInputs db T p fBlock fMiner tx J = Inl (f, e)"
  shows "\<exists>n. e = Rejected n"
proof -
  have "fetch_loop db T p fBlock fMiner is K = Inl e \<Longrightarrow> \<exists>n. e = Rejected n" for "is" K
    by (induction "is" arbitrary: K) (auto simp: Let_def split: if_splits option.splits)
  with assms show ?thesis by (auto simp: FetchInputs_def split: sum.splits if_splits)
qed

lemma FetchInputs_in_range:
  assumes "FetchInputs db T p fBlock fMiner tx J = Inr I" and "\<not> IsCoinBase tx" and "i \<in> set (vin tx)"
  shows "prevout_in_range I i"
  using assms by (auto simp: FetchInputs_def split: sum.splits if_splits)

lemma GetOutputFor_in_range:
  assumes "prevout_in_range I i"
  obtains t where "GetOutputFor i I = Inr t"
  using assms by (auto simp: GetOutputFor_def prevout_in_range_def split: option.splits)

lemma GetValueIn_fetched:
  assumes "\<forall>i \<in> set (vin tx). prevout_in_range I i"
  obtains v where "GetValueIn tx I = Inr v"
proof -
  have "\<forall>i \<in> set is. prevout_in_range I i \<Longrightarrow> \<exists>v. value_in_loop I is acc = Inr v" for "is" acc
  proof (induction "is" arbitrary: acc)
    case (Cons i "is")
    then show ?case by (auto elim: GetOutputFor_in_range [of I i])
  qed simp
  from this [of "vin tx" 0] assms that show thesis by (cases "IsCoinBase tx") (auto simp: GetValueIn_def)
qed

lemma GetP2SHSigOpCount_fetched:
  assumes "\<forall>i \<in> set (vin tx). prevout_in_range I i"
  obtains n where "GetP2SHSigOpCount tx I = Inr n"
proof -
  have "\<forall>i \<in> set is. prevout_in_range I i \<Longrightarrow> \<exists>n. p2sh_sigops_loop I is acc = Inr n" for "is" acc
  proof (induction "is" arbitrary: acc)
    case (Cons i "is")
    then show ?case by (auto elim: GetOutputFor_in_range [of I i])
  qed simp
  from this [of "vin tx" 0] assms that show thesis by (cases "IsCoinBase tx") (auto simp: GetP2SHSigOpCount_def)
qed

lemma input_standard_fetched:
  assumes "prevout_in_range I (vin tx ! k)"
  obtains b C' where "input_standard E C tx I k = Inr (b, C')"
proof -
  obtain t where t: "GetOutputFor (vin tx ! k) I = Inr t" using assms by (rule GetOutputFor_in_range)
  have "\<not> isl (input_standard E C tx I k)"
    unfolding input_standard_def t Let_def by (auto split: prod.split)
  with that show thesis by (cases "input_standard E C tx I k") auto
qed

lemma AreInputsStandard_fetched:
  assumes "\<forall>i \<in> set (vin tx). prevout_in_range I i"
  obtains b C' where "AreInputsStandard E C tx I = Inr (b, C')"
proof -
  have "\<forall>k \<in> set ks. prevout_in_range I (vin tx ! k) \<Longrightarrow> \<not> isl (inputs_standard_loop E D tx I ks)" for ks D
  proof (induction ks arbitrary: D)
    case (Cons k ks)
    obtain b C' where "input_standard E D tx I k = Inr (b, C')"
      using Cons.prems input_standard_fetched [of I tx k E D] by auto
    with Cons show ?case by (cases b) auto
  qed simp
  then obtain r where r: "inputs_standard_loop E C tx I [0..<length (vin tx)] = Inr r"
    using assms by (metis atLeastLessThan_iff atLeastLessThan_upt nth_mem old.sum.exhaust isl_def)
  show thesis by (cases "IsCoinBase tx"; cases r) (use r that in \<open>auto simp: AreInputsStandard_def\<close>)
qed

section \<open>Connecting a transaction\<close>

lemma GetValueOut_checked:
  assumes "CheckTransaction tx = Inr ()"
  obtains v where "GetValueOut tx = Some v"
proof -
  obtain v where "check_outputs (\<not> IsCoinBase tx \<and> \<not> IsCoinStake tx) 0 (vout tx) = Inr v"
    using assms by (auto simp: CheckTransaction_def split: sum.splits if_splits)
  from check_outputs_value [OF MoneyRange_0 this] that show thesis by (simp add: GetValueOut_def)
qed

lemma CheckTransaction_clean: "clean (CheckTransaction tx)"
proof -
  have "check_outputs u acc ts = Inl e \<Longrightarrow> \<exists>n. e = Rejected n" for u acc ts e
    by (induction u acc ts rule: check_outputs.induct) (auto simp: Let_def split: if_splits)
  then show ?thesis by (auto simp: CheckTransaction_def clean_simps clean_iff split: sum.splits)
qed

lemma connect_check_clean:
  assumes "\<forall>i \<in> set is. prevout_in_range I i"
  shows "clean (connect_check N chain t I is acc)"
  using assms
proof (induction "is" arbitrary: acc)
  case (Cons i "is")
  then obtain idx txPrev where i: "I (prev_hash (prevout i)) = Some (idx, txPrev)"
    by (auto simp: prevout_in_range_def split: option.splits)
  from Cons have "clean (connect_check N chain t I is a)" for a by simp
  then show ?case by (cases "chain = []") (simp_all add: i clean_simps Let_def)
qed (simp add: clean_simps)

lemma connect_spend_clean:
  assumes "\<forall>k \<in> set ks. k < length (vin tx) \<and> J (prev_hash (prevout (vin tx ! k))) \<noteq> None"
    and "connect_spend E N C tx d fBlock fMiner ks J T = Inl (e, C')"
  shows "\<exists>n. e = Rejected n"
  using assms
proof (induction ks arbitrary: C J T)
  case (Cons k ks)
  let ?h = "prev_hash (prevout (vin tx ! k))"
  obtain idx t where J: "J ?h = Some (idx, t)" using Cons.prems(1) by auto
  have k: "k < length (vin tx)" using Cons.prems(1) by simp
  obtain ok D where v: "(if fBlock \<and> nBestHeight N < TotalBlocksEstimate N then Some (True, C)
      else VerifySignature E C t tx k 0) = Some (ok, D)"
  proof -
    have "VerifySignature E C t tx k 0 \<noteq> None" using k by (auto simp: VerifySignature_def Let_def)
    with that show thesis by (cases "fBlock \<and> nBestHeight N < TotalBlocksEstimate N") auto
  qed
  have dom: "\<forall>j \<in> set ks. j < length (vin tx) \<and> (J(?h \<mapsto> z)) (prev_hash (prevout (vin tx ! j))) \<noteq> None" for z
    using Cons.prems(1) by simp
  show ?case
    using Cons.prems(2) Cons.IH [OF dom] J v by (auto simp: Let_def simp del: fun_upd_apply split: if_splits)
qed simp

lemma ConnectInputs_clean:
  assumes "\<forall>i \<in> set (vin tx). prevout_in_range I i" and "CheckTransaction tx = Inr ()"
    and "ConnectInputs E N C tx I T d chain fBlock fMiner = Inl (e, C')"
  shows "\<exists>n. e = Rejected n"
proof -
  have dom: "\<forall>k \<in> set [0..<length (vin tx)]. k < length (vin tx) \<and> I (prev_hash (prevout (vin tx ! k))) \<noteq> None"
    using assms(1) by (auto simp: prevout_in_range_def all_set_conv_all_nth split: option.splits)
  obtain v where "GetValueOut tx = Some v" using assms(2) by (rule GetValueOut_checked)
  then have fees: "clean (connect_fees tx fBlock a)" for a
    by (simp add: connect_fees_def clean_simps Let_def)
  from assms(3) consider "connect_check N chain (nTime tx) I (vin tx) 0 = Inl e"
    | "connect_spend E N C tx d fBlock fMiner [0..<length (vin tx)] I T = Inl (e, C')"
    | a where "connect_fees tx fBlock a = Inl e"
    by (auto simp: ConnectInputs_def split: sum.splits if_splits)
  then show ?thesis
    using connect_check_clean [OF assms(1)] connect_spend_clean [OF dom] fees by cases (metis clean_iff)+
qed

lemma accept_inputs_clean:
  assumes "CheckTransaction tx = Inr ()" and "\<not> IsCoinBase tx"
    and "accept_inputs E N C db p chain l tx = Inl (e, m, C')"
  shows "\<exists>n. e = Rejected n"
proof (cases "FetchInputs db Map.empty p False False tx Map.empty")
  case (Inl a)
  with assms(3) FetchInputs_clean show ?thesis by (cases a) (auto simp: accept_inputs_def)
next
  case (Inr I)
  have r: "\<forall>i \<in> set (vin tx). prevout_in_range I i" using FetchInputs_in_range [OF Inr assms(2)] by simp
  obtain b D where s: "AreInputsStandard E C tx I = Inr (b, D)" using r by (rule AreInputsStandard_fetched)
  obtain v where v: "GetValueIn tx I = Inr v" using r by (rule GetValueIn_fetched)
  obtain w where w: "GetValueOut tx = Some w" using assms(1) by (rule GetValueOut_checked)
  from assms(3) show ?thesis
    using ConnectInputs_clean [OF r assms(1)] Inr s v w
    by (auto simp: accept_inputs_def Let_def split: if_splits sum.splits)
qed

section \<open>Connecting a block\<close>

lemma check_txs_clean: "clean (check_txs b txs)"
proof (induction txs)
  case (Cons tx txs)
  with CheckTransaction_clean [of tx] show ?case by (auto simp: clean_iff split: sum.splits)
qed (simp add: clean_simps)

lemma check_txs_checked: "check_txs b txs = Inr () \<Longrightarrow> tx \<in> set txs \<Longrightarrow> CheckTransaction tx = Inr ()"
  by (induction txs) (auto split: sum.splits if_splits)

lemma CheckBlock_clean: "clean (CheckBlock E N b fPOW fRoot fSig)"
proof -
  have "clean (check_stake E b fSig)" by (simp add: check_stake_def clean_simps)
  with check_txs_clean [of b "vtx b"] show ?thesis
    by (auto simp: CheckBlock_def clean_iff split: sum.splits if_splits)
qed

lemma CheckBlock_checked:
  assumes "CheckBlock E N b fPOW fRoot fSig = Inr ()"
  shows "vtx b \<noteq> []" and "\<forall>tx \<in> set (vtx b). CheckTransaction tx = Inr ()"
proof -
  from assms show "vtx b \<noteq> []" by (auto simp: CheckBlock_def)
  from assms have "check_txs b (vtx b) = Inr ()" by (auto simp: CheckBlock_def split: sum.splits if_splits)
  with check_txs_checked show "\<forall>tx \<in> set (vtx b). CheckTransaction tx = Inr ()" by blast
qed

lemma connect_noncoinbase_clean:
  assumes "CheckTransaction tx = Inr ()" and "\<not> IsCoinBase tx"
  shows "clean (connect_noncoinbase E N db p pindex d tx st)"
proof (cases "FetchInputs db (mapQueuedChanges st) p True False tx Map.empty")
  case (Inl a)
  with FetchInputs_clean show ?thesis
    by (cases a) (fastforce simp: connect_noncoinbase_def plain_failure_def clean_simps)
next
  case (Inr I)
  have r: "\<forall>i \<in> set (vin tx). prevout_in_range I i" using FetchInputs_in_range [OF Inr assms(2)] by simp
  obtain n where n: "GetP2SHSigOpCount tx I = Inr n" using r by (rule GetP2SHSigOpCount_fetched)
  obtain v where v: "GetValueIn tx I = Inr v" using r by (rule GetValueIn_fetched)
  obtain w where w: "GetValueOut tx = Some w" using assms(1) by (rule GetValueOut_checked)
  show ?thesis
  proof (cases "ConnectInputs E N (cs_cache st) tx I (mapQueuedChanges st) d (map CBlockPos.truncate pindex) True False")
    case (Inl a)
    with ConnectInputs_clean [OF r assms(1)] obtain k C' where "a = (Rejected k, C')" by (cases a) blast
    with Inl Inr n v w show ?thesis by (simp add: connect_noncoinbase_def plain_failure_def clean_simps)
  next
    case c: (Inr a)
    with Inr n v w show ?thesis by (cases a) (simp add: connect_noncoinbase_def clean_simps)
  qed
qed

lemma connect_txs_clean:
  assumes "\<forall>tx \<in> set txs. CheckTransaction tx = Inr ()"
  shows "clean (connect_txs E N db p pindex fJustCheck txs st)"
  using assms
proof (induction txs arbitrary: st)
  case (Cons tx txs)
  obtain w where "GetValueOut tx = Some w" using Cons.prems by (auto elim: GetValueOut_checked [of tx])
  then have "clean (connect_coinbase tx s)" for s by (simp add: connect_coinbase_def clean_simps)
  moreover have "\<not> IsCoinBase tx \<Longrightarrow> clean (connect_noncoinbase E N db p pindex d tx s)" for d s
    using Cons.prems by (intro connect_noncoinbase_clean) auto
  ultimately have "clean (connect_tx E N db p pindex fJustCheck tx st)"
    unfolding connect_tx_def Let_def by (auto simp: clean_iff split: sum.splits if_splits)
  with Cons show ?case by (auto simp: clean_iff split: sum.splits)
qed (simp add: clean_simps)

lemma GetCoinAge_clean:
  assumes "bn_doc E"
  shows "clean (GetCoinAge E N db block_time tx)"
proof -
  have nz: "setint64 E 0 CENT \<noteq> 0" "setint64 E 0 COIN \<noteq> 0" "CBigNum_int E (24 * 60 * 60) \<noteq> 0"
    using assms by (simp_all add: setint64_doc CBigNum_int_doc CENT_def COIN_def int64_range_def)
  have "clean (coin_age_loop E N db block_time tx is acc)" for "is" acc
    by (induction "is" arbitrary: acc) (auto simp: clean_simps Let_def CBigNum_div_def nz split: option.split)
  with nz show ?thesis
    by (auto simp: GetCoinAge_def CBigNum_div_def clean_simps clean_iff split: sum.splits)
qed

lemma check_reward_clean:
  assumes "bn_doc E" and "CheckTransaction (vtx b ! 0) = Inr ()"
  shows "clean (check_reward E N db block_time b st)"
proof -
  obtain w where "GetValueOut (vtx b ! 0) = Some w" using assms(2) by (rule GetValueOut_checked)
  moreover have "clean (GetCoinAge E N db block_time (vtx b ! 1))" using assms(1) by (rule GetCoinAge_clean)
  ultimately show ?thesis
    by (fastforce simp: check_reward_def plain_failure_def clean_iff split: sum.split)
qed

section \<open>Properties\<close>

text \<open>Admission to the memory pool fails only by refusing the transaction with a misbehaviour
score: whatever the transaction, the pool, the database and the block files hold, \<open>accept\<close> neither
throws nor fails an assertion.\<close>

theorem accept_never_throws:
  "case accept E N C db p chain limited tx fCheckInputs of
     Inl (e, missing, C') \<Rightarrow> (\<exists>nDoS. e = Rejected nDoS)
   | Inr _ \<Rightarrow> True"
proof -
  have "\<exists>n. e = Rejected n" if "accept E N C db p chain limited tx fCheckInputs = Inl (e, m, C')" for e m C'
    using that CheckTransaction_clean [of tx] accept_inputs_clean [of tx E N C db p chain limited e m C']
    by (auto simp: accept_def Let_def clean_iff split: sum.splits if_splits)
  then show ?thesis by (auto split: sum.split)
qed

text \<open>C19: The validation of a block in \<^verbatim>\<open>ConnectBlock\<close>, everything before the wallets are notified, fails only by refusing the block with a
misbehaviour score, when the block is connected and when it is only checked: for every block, database, pool and
state of the block files, and big-number routines that behave as documented, it neither throws nor fails an assertion.
The notification of the wallets that follows in the same function is not covered.\<close>

theorem ConnectBlock_checks_never_throw:
  assumes "bn_doc E" and "ConnectBlock E N C D p block_time b pindex fJustCheck = Inl e"
  shows "\<exists>nDoS. e = Rejected nDoS"
proof (cases "CheckBlock E N b (\<not> fJustCheck) (\<not> fJustCheck) False")
  case (Inl a)
  with assms(2) CheckBlock_clean [of E N b "\<not> fJustCheck" "\<not> fJustCheck" False] show ?thesis
    by (simp add: ConnectBlock_def clean_iff)
next
  case (Inr u)
  then have ok: "CheckBlock E N b (\<not> fJustCheck) (\<not> fJustCheck) False = Inr ()" by simp
  note c = CheckBlock_checked [OF ok]
  have "clean (check_reward E N (cd_tx D) block_time b st)" for st
    using assms(1) c by (intro check_reward_clean) auto
  with ok assms(2) connect_txs_clean [OF c(2)] show ?thesis
    by (fastforce simp: ConnectBlock_def clean_iff Let_def split: sum.splits option.splits if_splits)
qed

end
