(* ===== verification/BlockFiles.thy ===== *)
theory BlockFiles
  imports BlockConnect Failures
begin

text \<open>
  The block files of \<^verbatim>\<open>src/src/main.cpp\<close> and \<^verbatim>\<open>src/src/main.h\<close>, as bytes: blocks are appended to the current file
  after a header of the network magic and the size, and blocks and transactions are read back from a
  position. Bytes already written never change, so a reader that only looks at a prefix of what follows a
  position keeps its result; the locale \<open>prefix_reader\<close> states this and every reader of the wire format
  satisfies it. The transaction positions \<^verbatim>\<open>ConnectBlock\<close> records are where the transactions lie.
\<close>

section \<open>Files\<close>

text \<open>The contents by file number, empty for a file that does not exist, and the files that can be opened.\<close>

record block_files =
  bf_bytes :: "u32 \<Rightarrow> byte list"
  bf_opens :: "u32 \<Rightarrow> bool"
  nCurrentBlockFile :: u32

definition pchMessageStart :: "node_params \<Rightarrow> byte list" where
  "pchMessageStart N = (if fTestNet N then [0xcd, 0xf2, 0xc0, 0xef] else [0xe4, 0xc2, 0xd8, 0xe6])"

definition OpenBlockFile :: "block_files \<Rightarrow> u32 \<Rightarrow> byte list option" where
  "OpenBlockFile d f = (if f < 1 \<or> f = - 1 then None else if \<not> bf_opens d f then None else Some (bf_bytes d f))"

text \<open>The loop over the files stops at a full last file because file number \<^verbatim>\<open>(unsigned int) -1\<close> never opens.\<close>

function AppendBlockFile :: "block_files \<Rightarrow> u32 option \<times> block_files" where
  "AppendBlockFile d =
     (case OpenBlockFile d (nCurrentBlockFile d) of
        None \<Rightarrow> (None, d)
      | Some bytes \<Rightarrow>
          if length bytes < 0x7F000000 - MAX_SIZE then (Some (nCurrentBlockFile d), d)
          else AppendBlockFile (d\<lparr>nCurrentBlockFile := nCurrentBlockFile d + 1\<rparr>))"
  by pat_completeness auto
termination
proof (relation "measure (\<lambda>d. 2 ^ 32 - unat (nCurrentBlockFile d))")
  fix d :: block_files and bytes
  assume "OpenBlockFile d (nCurrentBlockFile d) = Some bytes"
  then have "nCurrentBlockFile d \<noteq> - 1" by (auto simp: OpenBlockFile_def split: if_splits)
  then have "unat (nCurrentBlockFile d + 1) = Suc (unat (nCurrentBlockFile d))"
    by (metis add.commute add_eq_0_iff unatSuc)
  moreover have "unat (nCurrentBlockFile d) < 2 ^ 32" using unsigned_less [of "nCurrentBlockFile d"] by simp
  ultimately show "(d\<lparr>nCurrentBlockFile := nCurrentBlockFile d + 1\<rparr>, d) \<in> measure (\<lambda>d. 2 ^ 32 - unat (nCurrentBlockFile d))"
    by simp
qed simp

declare AppendBlockFile.simps [simp del]

text \<open>
  A written block: the file and the position after the header, or None, and the files. A disk that fails while the bytes are written, which the
  code meets with an exception, or that does not tell its position is not modelled.
\<close>

definition WriteToDisk :: "node_params \<Rightarrow> CBlock \<Rightarrow> block_files \<Rightarrow> (u32 \<times> u32) option \<times> block_files" where
  "WriteToDisk N b d =
     (case AppendBlockFile d of
        (None, d') \<Rightarrow> (None, d')
      | (Some f, d') \<Rightarrow>
          (let header = pchMessageStart N @ Serialize_u32 (word_of_nat (GetSerializeSize_CBlock b));
               fileOutPos = length (bf_bytes d' f) + length header
           in (Some (f, word_of_nat fileOutPos),
               d'\<lparr>bf_bytes := (bf_bytes d')(f := bf_bytes d' f @ header @ Serialize_CBlock b)\<rparr>)))"

definition read_block :: "block_files \<Rightarrow> u32 \<Rightarrow> u32 \<Rightarrow> CBlock option" where
  "read_block d f pos =
     (case OpenBlockFile d f of
        None \<Rightarrow> None
      | Some bytes \<Rightarrow> map_option fst (Unserialize_CBlock (drop (unat pos) bytes)))"

definition read_tx :: "block_files \<Rightarrow> CDiskTxPos \<Rightarrow> CTransaction option" where
  "read_tx d pos =
     (case OpenBlockFile d (nFile pos) of
        None \<Rightarrow> None
      | Some bytes \<Rightarrow> map_option fst (Unserialize_CTransaction (drop (unat (nTxPos pos)) bytes)))"

section \<open>Readers of a prefix\<close>

locale prefix_reader =
  fixes rd :: "byte list \<Rightarrow> ('a \<times> byte list) option"
  assumes more: "rd s = Some (x, r) \<Longrightarrow> rd (s @ t) = Some (x, r @ t)"
begin

lemma keeps: "map_option fst (rd s) = Some x \<Longrightarrow> map_option fst (rd (s @ t)) = Some x"
  using more by fastforce

lemma bind_more:
  assumes "\<And>x. prefix_reader (f x)"
  shows "prefix_reader (\<lambda>s. Option.bind (rd s) (\<lambda>(x, s). f x s))"
proof
  fix s y r t
  assume "Option.bind (rd s) (\<lambda>(x, s). f x s) = Some (y, r)"
  then obtain x u where "rd s = Some (x, u)" "f x u = Some (y, r)" by (auto simp: Option.bind_eq_Some_conv)
  with more [of s x u t] prefix_reader.more [OF assms, of x u y r t]
  show "Option.bind (rd (s @ t)) (\<lambda>(x, s). f x s) = Some (y, r @ t)" by simp
qed

end

lemma prefix_reader_return: "prefix_reader (\<lambda>s. Some (c, s))"
  by unfold_locales simp

lemma prefix_reader_if: "prefix_reader f \<Longrightarrow> prefix_reader g \<Longrightarrow> prefix_reader (\<lambda>s. if b then f s else g s)"
  by (cases b) simp_all

lemma prefix_reader_fail: "prefix_reader (\<lambda>s. None)"
  by unfold_locales simp

lemma prefix_reader_READDATA: "prefix_reader (READDATA k)"
  by unfold_locales (auto simp: READDATA_def split: if_splits)

lemmas reader_intros = prefix_reader.bind_more prefix_reader_if prefix_reader_return prefix_reader_fail prefix_reader_READDATA

lemma prefix_reader_elements: "prefix_reader rd \<Longrightarrow> prefix_reader (read_elements rd k)"
proof (induction k)
  case 0
  show ?case by unfold_locales simp
next
  case (Suc k)
  have "read_elements rd (Suc k) = (\<lambda>s. Option.bind (rd s) (\<lambda>(x, s). Option.bind (read_elements rd k s) (\<lambda>(xs, s). Some (x # xs, s))))"
    by (rule ext) simp
  then show ?case using Suc by (auto intro!: reader_intros)
qed

lemma prefix_reader_size: "prefix_reader ReadCompactSize"
  unfolding ReadCompactSize_def [abs_def] by (intro reader_intros)

lemma prefix_reader_blocks: "prefix_reader (read_blocks 0 n [])"
  by unfold_locales (auto simp: read_blocks_exact split: if_splits)

lemma prefix_reader_bytes: "prefix_reader Unserialize_bytes"
  unfolding Unserialize_bytes_def [abs_def] by (intro reader_intros prefix_reader_size prefix_reader_blocks)

lemma prefix_reader_vector: "prefix_reader rd \<Longrightarrow> prefix_reader (Unserialize_vector rd)"
  unfolding Unserialize_vector_def [abs_def] by (intro reader_intros prefix_reader_size prefix_reader_elements)

lemma prefix_reader_u32: "prefix_reader Unserialize_u32"
  unfolding Unserialize_u32_def [abs_def] by (intro reader_intros)

lemma prefix_reader_u256: "prefix_reader Unserialize_u256"
  unfolding Unserialize_u256_def [abs_def] by (intro reader_intros)

lemma prefix_reader_txin: "prefix_reader Unserialize_CTxIn"
  unfolding Unserialize_CTxIn_def [abs_def] Unserialize_COutPoint_def [abs_def]
  by (intro reader_intros prefix_reader_bytes prefix_reader_u32)

lemma prefix_reader_txout: "prefix_reader Unserialize_CTxOut"
  unfolding Unserialize_CTxOut_def [abs_def] Unserialize_int64_def [abs_def] by (intro reader_intros prefix_reader_bytes)

interpretation rd_tx: prefix_reader Unserialize_CTransaction
  unfolding Unserialize_CTransaction_def [abs_def]
  by (intro reader_intros prefix_reader_u32 prefix_reader_vector prefix_reader_txin prefix_reader_txout)

interpretation rd_block: prefix_reader Unserialize_CBlock
  unfolding Unserialize_CBlock_def [abs_def]
  by (intro reader_intros prefix_reader_u32 prefix_reader_u256 prefix_reader_vector prefix_reader_bytes rd_tx.prefix_reader_axioms)

section \<open>Appending\<close>

lemma unat_small: "n < 2 ^ 32 \<Longrightarrow> unat (word_of_nat n :: u32) = n"
  by (simp add: unsigned_of_nat take_bit_nat_eq_self)

lemma AppendBlockFile_spec:
  "AppendBlockFile d = (Some f, d') \<Longrightarrow>
     bf_bytes d' = bf_bytes d \<and> bf_opens d' = bf_opens d \<and> OpenBlockFile d f = Some (bf_bytes d f) \<and>
     length (bf_bytes d f) < 0x7F000000 - MAX_SIZE"
proof (induction d rule: AppendBlockFile.induct)
  case (1 d)
  show ?case
  proof (cases "OpenBlockFile d (nCurrentBlockFile d)")
    case None
    with "1.prems" show ?thesis by (simp add: AppendBlockFile.simps [of d])
  next
    case (Some bytes)
    then have b: "bytes = bf_bytes d (nCurrentBlockFile d)" by (auto simp: OpenBlockFile_def split: if_splits)
    show ?thesis
    proof (cases "length bytes < 0x7F000000 - MAX_SIZE")
      case True
      with Some "1.prems" b show ?thesis by (auto simp: AppendBlockFile.simps [of d])
    next
      case False
      with Some "1.prems" have "AppendBlockFile (d\<lparr>nCurrentBlockFile := nCurrentBlockFile d + 1\<rparr>) = (Some f, d')"
        by (simp add: AppendBlockFile.simps [of d])
      from "1.IH" [OF Some False this] show ?thesis by (auto simp: OpenBlockFile_def split: if_splits)
    qed
  qed
qed

text \<open>Every file keeps its bytes and may grow.\<close>

definition files_grow :: "block_files \<Rightarrow> block_files \<Rightarrow> bool" where
  "files_grow d d' \<longleftrightarrow> bf_opens d' = bf_opens d \<and> (\<forall>f. \<exists>t. bf_bytes d' f = bf_bytes d f @ t)"

lemma files_grow_trans: "files_grow d d' \<Longrightarrow> files_grow d' d'' \<Longrightarrow> files_grow d d''"
  unfolding files_grow_def by (metis append.assoc)

lemma files_grow_block:
  assumes "files_grow d d'" and "read_block d f pos = Some b"
  shows "read_block d' f pos = Some b"
proof -
  obtain t where t: "bf_bytes d' f = bf_bytes d f @ t" "bf_opens d' = bf_opens d" using assms(1) unfolding files_grow_def by blast
  have o: "OpenBlockFile d f = Some (bf_bytes d f)" "OpenBlockFile d' f = Some (bf_bytes d f @ t)"
    using assms(2) t by (auto simp: read_block_def OpenBlockFile_def split: if_splits option.splits)
  show ?thesis
  proof (cases "unat pos \<le> length (bf_bytes d f)")
    case True
    with assms(2) o rd_block.keeps show ?thesis by (simp add: read_block_def)
  next
    case False
    then have "drop (unat pos) (bf_bytes d f) = []" by simp
    with assms(2) o rd_block.keeps [of "[]" b "drop (unat pos) (bf_bytes d f @ t)"] show ?thesis by (simp add: read_block_def)
  qed
qed

lemma files_grow_tx:
  assumes "files_grow d d'" and "read_tx d p = Some tx"
  shows "read_tx d' p = Some tx"
proof -
  obtain t where t: "bf_bytes d' (nFile p) = bf_bytes d (nFile p) @ t" "bf_opens d' = bf_opens d" using assms(1) unfolding files_grow_def by blast
  have o: "OpenBlockFile d (nFile p) = Some (bf_bytes d (nFile p))" "OpenBlockFile d' (nFile p) = Some (bf_bytes d (nFile p) @ t)"
    using assms(2) t by (auto simp: read_tx_def OpenBlockFile_def split: if_splits option.splits)
  show ?thesis
  proof (cases "unat (nTxPos p) \<le> length (bf_bytes d (nFile p))")
    case True
    with assms(2) o rd_tx.keeps show ?thesis by (simp add: read_tx_def)
  next
    case False
    then have "drop (unat (nTxPos p)) (bf_bytes d (nFile p)) = []" by simp
    with assms(2) o rd_tx.keeps [of "[]" tx "drop (unat (nTxPos p)) (bf_bytes d (nFile p) @ t)"] show ?thesis by (simp add: read_tx_def)
  qed
qed

lemma WriteToDisk_spec:
  assumes "WriteToDisk N b d = (Some (f, pos), d')"
  shows "files_grow d d'" and "f \<noteq> - 1" and "OpenBlockFile d' f = Some (bf_bytes d' f)"
    and "unat pos < 0x7F000000" and "drop (unat pos) (bf_bytes d' f) = Serialize_CBlock b"
proof -
  obtain d1 where a: "AppendBlockFile d = (Some f, d1)"
    using assms by (auto simp: WriteToDisk_def Let_def split: prod.splits option.splits)
  note s = AppendBlockFile_spec [OF a]
  define header where "header = pchMessageStart N @ Serialize_u32 (word_of_nat (GetSerializeSize_CBlock b))"
  have lh: "length header = 8" by (simp add: header_def pchMessageStart_def)
  have w: "pos = word_of_nat (length (bf_bytes d f) + 8)" "d' = d1\<lparr>bf_bytes := (bf_bytes d1)(f := bf_bytes d1 f @ header @ Serialize_CBlock b)\<rparr>"
    using assms a s lh unfolding header_def [symmetric] by (auto simp: WriteToDisk_def Let_def simp flip: header_def)
  have "length (bf_bytes d f) + 8 < 0x7F000000" using s by (simp add: MAX_SIZE_def)
  then have u: "unat pos = length (bf_bytes d f) + 8" unfolding w(1) by (intro unat_small) simp
  then show "unat pos < 0x7F000000" using s by (simp add: MAX_SIZE_def)
  show "files_grow d d'" using s w(2) by (auto simp: files_grow_def)
  show "f \<noteq> - 1" "OpenBlockFile d' f = Some (bf_bytes d' f)" using s w(2) by (auto simp: OpenBlockFile_def split: if_splits)
  show "drop (unat pos) (bf_bytes d' f) = Serialize_CBlock b" unfolding u w(2) using s lh by simp
qed

text \<open>A block that passed \<^verbatim>\<open>CheckBlock\<close> is within the limits of the wire format.\<close>

lemma le_sum_list: "x \<in> set xs \<Longrightarrow> (f x :: nat) \<le> sum_list (map f xs)"
  by (induction xs) auto

lemma length_le_size: "(\<And>x. x \<in> set xs \<Longrightarrow> 1 \<le> sz x) \<Longrightarrow> length xs \<le> GetSerializeSize_vector sz xs"
proof -
  assume "\<And>x. x \<in> set xs \<Longrightarrow> 1 \<le> sz x"
  then have "length xs \<le> sum_list (map sz xs)" by (induction xs) force+
  then show ?thesis by (simp add: GetSerializeSize_vector_def)
qed

lemma wire_tx_checked:
  assumes "CheckTransaction tx = Inr ()"
  shows "wire_tx tx"
proof -
  note c = assms [unfolded CheckTransaction_char tx.sz_ser [symmetric]]
  let ?i = "GetSerializeSize_vector (\<lambda>i. 36 + GetSerializeSize_bytes (scriptSig i) + 4) (vin tx)"
  let ?o = "GetSerializeSize_vector (\<lambda>t. 8 + GetSerializeSize_bytes (scriptPubKey t)) (vout tx)"
  have m: "MAX_BLOCK_SIZE \<le> MAX_SIZE" by (simp add: MAX_BLOCK_SIZE_def MAX_SIZE_def)
  have "?i \<le> MAX_BLOCK_SIZE" "?o \<le> MAX_BLOCK_SIZE" using c by (simp_all add: GetSerializeSize_CTransaction_def)
  moreover have "length (vin tx) \<le> ?i" "length (vout tx) \<le> ?o" by (rule length_le_size, simp)+
  moreover have "length (scriptSig i) \<le> ?i" if "i \<in> set (vin tx)" for i
    using le_sum_list [OF that, of "\<lambda>i. 36 + GetSerializeSize_bytes (scriptSig i) + 4"]
    by (simp add: GetSerializeSize_vector_def GetSerializeSize_bytes_def)
  moreover have "length (scriptPubKey t) \<le> ?o" if "t \<in> set (vout tx)" for t
    using le_sum_list [OF that, of "\<lambda>t. 8 + GetSerializeSize_bytes (scriptPubKey t)"]
    by (simp add: GetSerializeSize_vector_def GetSerializeSize_bytes_def)
  moreover have "int64_range (nValue t)" if "t \<in> set (vout tx)" for t
  proof -
    have "nValue t \<le> sum_list (map nValue (vout tx))" using c that by (intro value_le_sum) auto
    then have "0 \<le> nValue t" "nValue t \<le> MAX_MONEY" using c that by auto
    then show ?thesis by (simp add: int64_range_def MAX_MONEY_small)
  qed
  ultimately show ?thesis using m unfolding wire_tx_def by (meson order_trans)
qed

lemma wire_block_checked:
  assumes "CheckBlock E N b fPOW fRoot fSig = Inr ()"
  shows "wire_block b" and "GetSerializeSize_CBlock b \<le> MAX_BLOCK_SIZE"
proof -
  show s: "GetSerializeSize_CBlock b \<le> MAX_BLOCK_SIZE" using assms by (auto simp: CheckBlock_def split: if_splits)
  then have "length (vtx b) \<le> MAX_SIZE" "length (vchBlockSig b) \<le> MAX_SIZE"
    using length_le_size [of "vtx b" GetSerializeSize_CTransaction]
    by (auto simp: GetSerializeSize_CBlock_def GetSerializeSize_bytes_def GetSerializeSize_CTransaction_def MAX_BLOCK_SIZE_def MAX_SIZE_def)
  with CheckBlock_checked(2) [OF assms] wire_tx_checked show "wire_block b" by (auto simp: wire_block_def)
qed

section \<open>Positions of transactions\<close>

definition same_pos :: "MapPrevTx \<Rightarrow> (u256 \<rightharpoonup> CTxIndex) \<Rightarrow> bool" where
  "same_pos J T \<longleftrightarrow> (\<forall>k i t j. J k = Some (i, t) \<longrightarrow> T k = Some j \<longrightarrow> tx_pos i = tx_pos j)"

lemma same_pos_update: "same_pos J T \<Longrightarrow> same_pos (J(k \<mapsto> (e, t))) (T(k \<mapsto> e))"
  unfolding same_pos_def by (metis fun_upd_apply option.inject prod.inject)

lemma connect_spend_pos:
  "connect_spend E N C tx d True fMiner ks J T = Inr (J', T', C') \<Longrightarrow> T h = Some idx \<Longrightarrow> same_pos J T \<Longrightarrow>
     \<exists>idx'. T' h = Some idx' \<and> tx_pos idx' = tx_pos idx"
proof (induction ks arbitrary: C J T idx)
  case Nil
  then show ?case by simp
next
  case (Cons k ks)
  let ?q = "prevout (vin tx ! k)"
  obtain i t D where i: "J (prev_hash ?q) = Some (i, t)"
    and r: "connect_spend E N D tx d True fMiner ks
      (J(prev_hash ?q \<mapsto> (i\<lparr>vSpent := (vSpent i)[unat (prev_n ?q) := d]\<rparr>, t)))
      (T(prev_hash ?q \<mapsto> i\<lparr>vSpent := (vSpent i)[unat (prev_n ?q) := d]\<rparr>)) = Inr (J', T', C')"
    using connect_spend_step [OF Cons.prems(1)] by blast
  define e where "e = i\<lparr>vSpent := (vSpent i)[unat (prev_n ?q) := d]\<rparr>"
  have e: "tx_pos e = tx_pos i" by (simp add: e_def)
  obtain idx1 where 1: "(T(prev_hash ?q \<mapsto> e)) h = Some idx1" "tx_pos idx1 = tx_pos idx"
  proof (cases "h = prev_hash ?q")
    case True
    then have "tx_pos i = tx_pos idx" using Cons.prems(2,3) i unfolding same_pos_def by blast
    with True show thesis using that [of e] e by simp
  next
    case False
    then show thesis using that [of idx] Cons.prems(2) by simp
  qed
  from Cons.IH [OF r [folded e_def] 1(1) same_pos_update [OF Cons.prems(3)]] 1(2) show ?case by simp
qed

lemma connect_noncoinbase_txpos: "connect_noncoinbase E N db pool pindex d tx st = Inr st' \<Longrightarrow> cs_nTxPos st' = cs_nTxPos st"
  by (auto simp: connect_noncoinbase_def split: sum.splits if_splits option.splits prod.splits)

lemma connect_noncoinbase_pos:
  assumes "connect_noncoinbase E N db pool pindex d tx st = Inr st'" and "mapQueuedChanges st h = Some idx"
  shows "\<exists>idx'. mapQueuedChanges st' h = Some idx' \<and> tx_pos idx' = tx_pos idx"
proof -
  obtain I where I: "FetchInputs db (mapQueuedChanges st) pool True False tx Map.empty = Inr I"
    using assms(1) by (auto simp: connect_noncoinbase_def split: sum.splits)
  obtain k where k: "GetP2SHSigOpCount tx I = Inr k" "\<not> cs_nSigOps st + k > MAX_BLOCK_SIGOPS"
    using assms(1) I by (auto simp: connect_noncoinbase_def split: sum.splits if_splits)
  obtain vi vo where v: "GetValueIn tx I = Inr vi" "GetValueOut tx = Some vo"
    using assms(1) I k by (cases "GetValueIn tx I"; cases "GetValueOut tx") (auto simp: connect_noncoinbase_def)
  obtain Q C' where Q: "ConnectInputs E N (cs_cache st) tx I (mapQueuedChanges st) d (map CBlockPos.truncate pindex) True False = Inr (Q, C')"
      "mapQueuedChanges st' = Q"
    using assms(1) I k v by (auto simp: connect_noncoinbase_def split: sum.splits)
  show ?thesis
  proof (cases "IsCoinBase tx")
    case True
    with Q assms(2) show ?thesis by (simp add: ConnectInputs_def)
  next
    case False
    with Q(1) obtain J' where "connect_spend E N (cs_cache st) tx d True False [0..<length (vin tx)] I (mapQueuedChanges st) = Inr (J', Q, C')"
      by (auto simp: ConnectInputs_def split: sum.splits if_splits)
    moreover have "same_pos I (mapQueuedChanges st)"
      using FetchInputs_fetched [OF I] unfolding fetched_from_def same_pos_def by (metis map_add_find_right option.inject)
    ultimately show ?thesis using connect_spend_pos [of E N "cs_cache st" tx d False] assms(2) Q(2) by blast
  qed
qed

text \<open>The position of the transaction that follows the transactions \<open>txs\<close> of a block.\<close>

definition pos_after :: "CBlockIndex \<Rightarrow> u32 \<Rightarrow> CTransaction list \<Rightarrow> CDiskTxPos" where
  "pos_after p start txs =
     \<lparr>nFile = bp_nFile p, nBlockPos = bp_nBlockPos p,
      nTxPos = start + word_of_nat (sum_list (map GetSerializeSize_CTransaction txs))\<rparr>"

lemma connect_tx_pos:
  assumes "connect_tx E N db pool pindex False tx st = Inr st'"
  shows "cs_nTxPos st' = cs_nTxPos st + word_of_nat (GetSerializeSize_CTransaction tx)"
    and "\<exists>idx. mapQueuedChanges st' (GetHash E tx) = Some idx \<and> tx_pos idx = pos_after (hd pindex) (cs_nTxPos st) []"
    and "mapQueuedChanges st h = Some idx \<Longrightarrow> h \<noteq> GetHash E tx \<Longrightarrow> \<exists>idx'. mapQueuedChanges st' h = Some idx' \<and> tx_pos idx' = tx_pos idx"
proof -
  define d where "d = posThisTx (hd pindex) st"
  define st1 where "st1 = enter_tx False tx st"
  obtain st2 where st2: "(if IsCoinBase tx then connect_coinbase tx st1 else connect_noncoinbase E N db pool pindex d tx st1) = Inr st2"
    and st': "st' = st2\<lparr>mapQueuedChanges := (mapQueuedChanges st2)(GetHash E tx \<mapsto> CTxIndex_new d (length (vout tx)))\<rparr>"
    using assms by (auto simp: connect_tx_def Let_def simp flip: d_def st1_def split: if_splits sum.splits)
  have s1: "mapQueuedChanges st1 = mapQueuedChanges st" "cs_nTxPos st1 = cs_nTxPos st + word_of_nat (GetSerializeSize_CTransaction tx)"
    by (simp_all add: st1_def enter_tx_def)
  have p2: "cs_nTxPos st2 = cs_nTxPos st1"
    and q2: "mapQueuedChanges st1 h = Some idx \<Longrightarrow> \<exists>idx'. mapQueuedChanges st2 h = Some idx' \<and> tx_pos idx' = tx_pos idx" for h idx
  proof -
    show "cs_nTxPos st2 = cs_nTxPos st1"
    proof (cases "IsCoinBase tx")
      case True
      with st2 show ?thesis by (auto simp: connect_coinbase_def split: option.splits)
    next
      case False
      with st2 connect_noncoinbase_txpos show ?thesis by simp
    qed
    show "\<exists>idx'. mapQueuedChanges st2 h = Some idx' \<and> tx_pos idx' = tx_pos idx" if "mapQueuedChanges st1 h = Some idx"
    proof (cases "IsCoinBase tx")
      case True
      with st2 that show ?thesis by (auto simp: connect_coinbase_def split: option.splits)
    next
      case False
      with st2 that connect_noncoinbase_pos show ?thesis by simp
    qed
  qed
  show "cs_nTxPos st' = cs_nTxPos st + word_of_nat (GetSerializeSize_CTransaction tx)" using st' p2 s1 by simp
  show "\<exists>idx. mapQueuedChanges st' (GetHash E tx) = Some idx \<and> tx_pos idx = pos_after (hd pindex) (cs_nTxPos st) []"
    using st' by (simp add: CTxIndex_new_def d_def posThisTx_def pos_after_def)
  show "\<exists>idx'. mapQueuedChanges st' h = Some idx' \<and> tx_pos idx' = tx_pos idx"
    if "mapQueuedChanges st h = Some idx" "h \<noteq> GetHash E tx"
    using q2 [of h idx] that s1 st' by simp
qed

lemma connect_txs_pos:
  assumes "connect_txs E N db pool pindex False txs st = Inr st'" and "distinct (map (GetHash E) txs)"
  shows "(\<forall>i < length txs. \<exists>idx. mapQueuedChanges st' (GetHash E (txs ! i)) = Some idx \<and>
      tx_pos idx = pos_after (hd pindex) (cs_nTxPos st) (take i txs)) \<and>
    (\<forall>h idx. mapQueuedChanges st h = Some idx \<longrightarrow> h \<notin> GetHash E ` set txs \<longrightarrow>
      (\<exists>idx'. mapQueuedChanges st' h = Some idx' \<and> tx_pos idx' = tx_pos idx))"
  using assms
proof (induction txs arbitrary: st)
  case (Cons tx txs)
  obtain st1 where st1: "connect_tx E N db pool pindex False tx st = Inr st1" "connect_txs E N db pool pindex False txs st1 = Inr st'"
    using Cons.prems(1) by (auto split: sum.splits)
  note p = connect_tx_pos [OF st1(1)]
  have d: "distinct (map (GetHash E) txs)" "GetHash E tx \<notin> GetHash E ` set txs" using Cons.prems(2) by simp_all
  note IH = Cons.IH [OF st1(2) d(1)]
  have "\<exists>idx. mapQueuedChanges st' (GetHash E ((tx # txs) ! i)) = Some idx \<and>
      tx_pos idx = pos_after (hd pindex) (cs_nTxPos st) (take i (tx # txs))" if i: "i < length (tx # txs)" for i
  proof (cases i)
    case 0
    from p(2) d(2) IH show ?thesis unfolding 0 by (simp add: pos_after_def) metis
  next
    case (Suc j)
    with i IH obtain idx where "mapQueuedChanges st' (GetHash E (txs ! j)) = Some idx"
        "tx_pos idx = pos_after (hd pindex) (cs_nTxPos st1) (take j txs)" by auto
    with p(1) show ?thesis unfolding Suc by (simp add: pos_after_def add.assoc)
  qed
  moreover have "\<exists>idx'. mapQueuedChanges st' h = Some idx' \<and> tx_pos idx' = tx_pos idx"
    if "mapQueuedChanges st h = Some idx" "h \<notin> GetHash E ` set (tx # txs)" for h idx
  proof -
    have h: "h \<noteq> GetHash E tx" "h \<notin> GetHash E ` set txs" using that(2) by auto
    from p(3) [OF that(1) h(1)] IH h(2) show ?thesis by metis
  qed
  ultimately show ?case by blast
qed simp

lemma tx_in_block:
  assumes "i < length (vtx b)"
  shows "\<exists>rest. drop (80 + GetSizeOfCompactSize (length (vtx b)) + sum_list (map GetSerializeSize_CTransaction (take i (vtx b)))) (Serialize_CBlock b) =
    Serialize_CTransaction (vtx b ! i) @ rest"
proof -
  have "length (Serialize_header b) = 80" by (simp add: Serialize_header_def uint256_bytes_def)
  moreover have "vtx b = take i (vtx b) @ vtx b ! i # drop (Suc i) (vtx b)" using assms by (rule id_take_nth_drop)
  then have "concat (map Serialize_CTransaction (vtx b)) = concat (map Serialize_CTransaction (take i (vtx b))) @
      Serialize_CTransaction (vtx b ! i) @ concat (map Serialize_CTransaction (drop (Suc i) (vtx b)))"
    by (metis concat.simps(2) concat_append list.simps(9) map_append)
  ultimately show ?thesis
    by (simp add: Serialize_CBlock_def Serialize_vector_def tx.sum_sz flip: length_WriteCompactSize)
qed

lemma unat_tx_pos:
  assumes "unat pos < 0x7F000000" and "k \<le> MAX_BLOCK_SIZE" and "bp_nBlockPos p = pos"
    and "80 + GetSizeOfCompactSize (length (vtx b)) + s = k"
  shows "unat (first_tx_pos b p False + word_of_nat s) = unat pos + k"
proof -
  have "first_tx_pos b p False + word_of_nat s = word_of_nat (unat pos + k)"
    unfolding assms(4) [symmetric] using assms(3) by (simp add: first_tx_pos_def GetSizeOfCompactSize_def algebra_simps)
  moreover have "unat pos + k < 2 ^ 32" using assms(1,2) by (simp add: MAX_BLOCK_SIZE_def)
  ultimately show ?thesis by (simp only: unat_small)
qed

lemma written_tx:
  assumes "WriteToDisk N b d = (Some (f, pos), d')" and "CheckBlock E N' b fPOW fRoot fSig = Inr ()" and "i < length (vtx b)"
    and "bp_nFile p = f" and "bp_nBlockPos p = pos"
  shows "read_tx d' (pos_after p (first_tx_pos b p False) (take i (vtx b))) = Some (vtx b ! i)"
proof -
  note w = WriteToDisk_spec [OF assms(1)] and c = wire_block_checked [OF assms(2)]
  let ?s = "sum_list (map GetSerializeSize_CTransaction (take i (vtx b)))"
  let ?k = "80 + GetSizeOfCompactSize (length (vtx b)) + ?s"
  obtain rest where r: "drop ?k (Serialize_CBlock b) = Serialize_CTransaction (vtx b ! i) @ rest" using tx_in_block [OF assms(3)] by blast
  moreover have "length (Serialize_CTransaction (vtx b ! i)) \<noteq> 0" unfolding Serialize_CTransaction_def length_append length_Serialize_u32 by simp
  ultimately have "?k \<le> length (Serialize_CBlock b)"
    using arg_cong [OF r, of length] unfolding length_drop length_append by linarith
  then have "?k \<le> MAX_BLOCK_SIZE" using c(2) block.sz_ser [of b] by simp
  from unat_tx_pos [OF w(4) this assms(5) refl] have u: "unat (first_tx_pos b p False + word_of_nat ?s) = unat pos + ?k" .
  have "wire_tx (vtx b ! i)" using c(1) assms(3) by (simp add: wire_block_def)
  from tx.unser_ser [OF this, of rest] r w(5) have "Unserialize_CTransaction (drop ?k (drop (unat pos) (bf_bytes d' f))) = Some (vtx b ! i, rest)"
    by simp
  then have "Unserialize_CTransaction (drop (unat pos + ?k) (bf_bytes d' f)) = Some (vtx b ! i, rest)" by (simp add: add.commute)
  then show ?thesis unfolding read_tx_def pos_after_def using w(3) u assms(4) by simp
qed

section \<open>Properties\<close>

text \<open>C18: what the node writes it can read. A checked block that \<^verbatim>\<open>WriteToDisk\<close> has appended to a block file and
  \<^verbatim>\<open>ConnectBlock\<close> has connected is read back from its position, and the index entry of each of its transactions
  leads to that transaction in the file, also after any number of further writes.\<close>

theorem connected_txs_readable:
  assumes "WriteToDisk N b d = (Some (f, pos), d')" and "files_grow d' d''"
    and "ConnectBlock E N' C D pool block_time b pindex False = Inr (D', p, C')"
    and "bp_nFile (hd pindex) = f" and "bp_nBlockPos (hd pindex) = pos"
  shows "read_block d'' f pos = Some b \<and>
    (\<forall>tx \<in> set (vtx b). \<exists>idx. ReadTxIndex (cd_tx D') (GetHash E tx) = Some idx \<and> read_tx d'' (tx_pos idx) = Some tx)"
proof
  from ConnectBlock_steps [OF assms(3)] obtain st where c: "CheckBlock E N' b True True False = Inr ()"
    and st: "connect_txs E N' (cd_tx D) pool pindex False (vtx b)
           \<lparr>cs_nTxPos = first_tx_pos b (hd pindex) False, mapQueuedChanges = Map.empty, cs_nFees = 0, cs_nValueIn = 0,
            cs_nValueOut = 0, nStakeReward = 0, cs_nSigOps = 0, cs_cache = C\<rparr> = Inr st"
    and D': "cd_tx D' = (cd_tx D)\<lparr>db_index := db_index (cd_tx D) ++ mapQueuedChanges st\<rparr>"
    by blast
  note w = WriteToDisk_spec [OF assms(1)]
  have "read_block d' f pos = Some b"
    unfolding read_block_def using w(3,5) block.unser_ser [OF wire_block_checked(1) [OF c], of "[]"] by simp
  then show "read_block d'' f pos = Some b" by (rule files_grow_block [OF assms(2)])
  show "\<forall>tx \<in> set (vtx b). \<exists>idx. ReadTxIndex (cd_tx D') (GetHash E tx) = Some idx \<and> read_tx d'' (tx_pos idx) = Some tx"
  proof
    fix tx
    assume "tx \<in> set (vtx b)"
    then obtain i where i: "i < length (vtx b)" "tx = vtx b ! i" by (metis in_set_conv_nth)
    with connect_txs_pos [OF st CheckBlock_distinct [OF c]] obtain idx where "mapQueuedChanges st (GetHash E tx) = Some idx"
        "tx_pos idx = pos_after (hd pindex) (first_tx_pos b (hd pindex) False) (take i (vtx b))" by auto
    with files_grow_tx [OF assms(2) written_tx [OF assms(1) c i(1) assms(4,5)]] i(2) D'
    show "\<exists>idx. ReadTxIndex (cd_tx D') (GetHash E tx) = Some idx \<and> read_tx d'' (tx_pos idx) = Some tx" by (simp add: ReadTxIndex_def)
  qed
qed

end
