(* ===== verification/Accept.thy ===== *)
theory Accept
  imports Kernel Checkpoints BlockFiles
begin

text \<open>
  How a block enters the node, from \<^verbatim>\<open>src/src/main.cpp\<close>: \<^verbatim>\<open>CBlock::AddToBlockIndex\<close>, \<^verbatim>\<open>CBlock::AcceptBlock\<close> and
  \<^verbatim>\<open>ProcessBlock\<close> with the orphan blocks that wait for their parent. The state is all that these functions
  share: the tree and the database (theory \<open>Chain\<close>), the block files (theory \<open>BlockFiles\<close>), the checkpoints
  (theory \<open>Checkpoints\<close>), the stakes already seen and the orphans. Requests and announcements to peers,
  the wallet and the user interface are not modelled.
\<close>

section \<open>State\<close>

record block_node =
  bn_state :: node_state
  bn_commit :: "CChainDB \<Rightarrow> bool"
  bn_files :: block_files
  nFreeBytesAvailable :: nat
  bn_sync :: sync_state
  CheckpointsMode :: CPMode
  setStakeSeen :: "(COutPoint \<times> u32) set"
  mapOrphanBlocks :: "u256 \<rightharpoonup> CBlock"
  mapOrphanBlocksByPrev :: "(u256 \<times> CBlock) list"
  setStakeSeenOrphan :: "(COutPoint \<times> u32) set"

definition node_io :: "block_node \<Rightarrow> chain_io" where
  "node_io X = \<lparr>block_file = read_block (bn_files X), commit_ok = bn_commit X\<rparr>"

abbreviation bn_map :: "block_node \<Rightarrow> block_map" where
  "bn_map X \<equiv> mapBlockIndex (bn_state X)"

abbreviation bn_params :: "block_node \<Rightarrow> node_params" where
  "bn_params X \<equiv> ns_params (bn_state X)"

text \<open>Transactions are read from the block files too, so a written file is what the index leads into.\<close>

definition put_files :: "block_files \<Rightarrow> block_node \<Rightarrow> block_node" where
  "put_files d X =
     X\<lparr>bn_files := d,
       bn_state := (bn_state X)\<lparr>ns_db := (ns_db (bn_state X))\<lparr>cd_tx := (cd_tx (ns_db (bn_state X)))\<lparr>db_disk := read_tx d\<rparr>\<rparr>\<rparr>\<rparr>"

definition CheckDiskSpace :: "nat \<Rightarrow> nat \<Rightarrow> bool" where
  "CheckDiskSpace nFree nAdditionalBytes \<longleftrightarrow> \<not> nFree < 52428800 + nAdditionalBytes"

section \<open>The block index\<close>

text \<open>The new entry; the parents are the entry of the previous block and its ancestors.\<close>

definition index_entry :: "env \<Rightarrow> block_map \<Rightarrow> u32 \<Rightarrow> u32 \<Rightarrow> u256 \<Rightarrow> CBlock \<Rightarrow> failure + index_node" where
  "index_entry E m f pos hProof b =
     (let ps = entries m (chain_from m (hashPrevBlock b));
          p = (CBlockIndex_new (CBlock_GetHash E b) f pos b)\<lparr>bp_nHeight := (if ps = [] then 0 else bp_nHeight (hd ps) + 1)\<rparr>
      in case GetBlockTrust E (idx_nBits p) of
           None \<Rightarrow> Inl Thrown
         | Some t \<Rightarrow>
             (case SetStakeEntropyBit (Block_GetStakeEntropyBit E b) (p\<lparr>nChainTrust := (if ps = [] then 0 else nChainTrust (hd ps)) + t\<rparr>) of
                None \<Rightarrow> Inl (Rejected 0)
              | Some p1 \<Rightarrow>
                  (case ComputeNextStakeModifier E m ps of
                     None \<Rightarrow> Inl (Rejected 0)
                   | Some (nModifier, fGenerated) \<Rightarrow>
                       (let p2 = SetStakeModifier nModifier fGenerated (p1\<lparr>hashProof := hProof\<rparr>)
                        in Inr (CBlockIndex.extend (p2\<lparr>nStakeModifierChecksum := GetStakeModifierChecksum E (p2 # ps)\<rparr>)
                             \<lparr>pprev = (if ps = [] then None else Some (hashPrevBlock b))\<rparr>)))))"

text \<open>The entry in the map and its stake among those seen; the entry in the database, None for a refused commit.\<close>

definition put_entry :: "u256 \<Rightarrow> index_node \<Rightarrow> block_node \<Rightarrow> block_node" where
  "put_entry h p X =
     X\<lparr>bn_state := (bn_state X)\<lparr>mapBlockIndex := (bn_map X)(h \<mapsto> p)\<rparr>,
       setStakeSeen := (if nFlags p AND 1 \<noteq> 0 then insert (prevoutStake p, nStakeTime p) (setStakeSeen X) else setStakeSeen X)\<rparr>"

definition store_entry :: "index_node \<Rightarrow> CBlock \<Rightarrow> block_node \<Rightarrow> CChainDB option" where
  "store_entry p b X =
     (let D = ns_db (bn_state X); m = bn_map X
      in commit_view (node_io X) D
           (case WriteBlockIndex (begin_view D) (CDiskBlockIndex_of (CBlockIndex.truncate p # entries m (chain_from m (hashPrevBlock b)))) of
              None \<Rightarrow> begin_view D
            | Some D1 \<Rightarrow> D1))"

text \<open>
  The result is the failure, if any, and the new state, which a failure may have changed too. The first
  argument bounds the loops inside \<^verbatim>\<open>SetBestChain\<close>; None means it was too small.
\<close>

definition AddToBlockIndex :: "nat \<Rightarrow> env \<Rightarrow> u32 \<Rightarrow> u32 \<Rightarrow> u256 \<Rightarrow> CBlock \<Rightarrow> block_node \<Rightarrow> (failure option \<times> block_node) option" where
  "AddToBlockIndex n E f pos hProof b X =
     (let h = CBlock_GetHash E b
      in if bn_map X h \<noteq> None then Some (Some (Rejected 0), X)
         else case index_entry E (bn_map X) f pos hProof b of
           Inl e \<Rightarrow> Some (Some e, X)
         | Inr p \<Rightarrow>
             (let X1 = put_entry h p X
              in case store_entry p b X of
                   None \<Rightarrow> Some (Some (Rejected 0), X1)
                 | Some D \<Rightarrow>
                     (let S2 = (bn_state X1)\<lparr>ns_db := D\<rparr>
                      in if nChainTrust p > nBestChainTrust S2 then
                           (case SetBestChain n E (node_io X) b h S2 of
                              None \<Rightarrow> None
                            | Some (Inl S3) \<Rightarrow> Some (Some (Rejected 0), X1\<lparr>bn_state := S3\<rparr>)
                            | Some (Inr S3) \<Rightarrow> Some (None, X1\<lparr>bn_state := S3\<rparr>))
                         else Some (None, X1\<lparr>bn_state := S2\<rparr>))))"

section \<open>Accepting a block\<close>

text \<open>The proof hash of the block and the signature cache: the kernel hash of the stake or the hash of the block itself.\<close>

definition proof_hash :: "nat \<Rightarrow> env \<Rightarrow> CBlock \<Rightarrow> block_node \<Rightarrow> (failure + u256 \<times> CSignatureCache) option" where
  "proof_hash n E b X =
     (let S = bn_state X; m = mapBlockIndex S
      in if IsProofOfStake b
         then (case CheckProofOfStake n E (ns_params S) (ns_cache S) (cd_tx (ns_db S)) (node_io X) m (the (m (hashPrevBlock b))) (vtx b ! 1) (nBits b) of
             None \<Rightarrow> None
           | Some (Inl (Rejected _)) \<Rightarrow> Some (Inl (Rejected 0))
           | Some (Inl e) \<Rightarrow> Some (Inl e)
           | Some (Inr ((hProof, _), C)) \<Rightarrow> Some (Inr (hProof, C)))
         else Some (Inr (CBlock_GetHash E b, ns_cache S)))"

text \<open>The rules of \<^verbatim>\<open>AcceptBlock\<close> that need only the block and its ancestors.\<close>

definition accept_context :: "env \<Rightarrow> CBlock \<Rightarrow> block_node \<Rightarrow> failure + unit" where
  "accept_context E b X =
     (let m = bn_map X; N = bn_params X; h = CBlock_GetHash E b; ps = entries m (chain_from m (hashPrevBlock b));
          nHeight = bp_nHeight (hd ps) + 1; t = uint (blk_nTime b)
      in if sint (blk_nVersion b) > 2 then Inl (Rejected 100)
         else if m h \<noteq> None then Inl (Rejected 0)
         else if m (hashPrevBlock b) = None then Inl (Rejected 10)
         else if IsProofOfWork b \<and> nHeight > LAST_POW_BLOCK then Inl (Rejected 100)
         else case GetNextTargetRequired E N ps (IsProofOfStake b) of
           None \<Rightarrow> Inl Thrown
         | Some bits \<Rightarrow>
             if nBits b \<noteq> bits then Inl (Rejected 100)
             else if t \<le> GetMedianTimePast ps \<or> FutureDrift t < uint (idx_nTime (hd ps)) then Inl (Rejected 0)
             else if \<not> (\<forall>tx \<in> set (vtx b). IsFinal N nHeight t tx) then Inl (Rejected 10)
             else if \<not> CheckHardened N nHeight h then Inl (Rejected 100)
             else Inr ())"

text \<open>The coinbase starts with the serialized height.\<close>

definition height_in_coinbase :: "env \<Rightarrow> int \<Rightarrow> CBlock \<Rightarrow> bool" where
  "height_in_coinbase E nHeight b =
     (let expect = push_int64 E nHeight; sg = scriptSig (vin (vtx b ! 0) ! 0)
      in \<not> (length sg < length expect \<or> take (length expect) sg \<noteq> expect))"

definition accept_checks :: "nat \<Rightarrow> env \<Rightarrow> CBlock \<Rightarrow> block_node \<Rightarrow> (failure + u256 \<times> CSignatureCache) option" where
  "accept_checks n E b X =
     (case accept_context E b X of
        Inl e \<Rightarrow> Some (Inl e)
      | Inr _ \<Rightarrow>
          (case proof_hash n E b X of
             None \<Rightarrow> None
           | Some (Inl e) \<Rightarrow> Some (Inl e)
           | Some (Inr r) \<Rightarrow>
               (case CheckSync (bn_params X) (bn_map X) (bn_sync X) (CBlock_GetHash E b) (hashPrevBlock b) of
                  Inl e \<Rightarrow> Some (Inl e)
                | Inr cpSatisfies \<Rightarrow>
                    if CheckpointsMode X = STRICT \<and> \<not> cpSatisfies then Some (Inl (Rejected 0))
                    else if \<not> height_in_coinbase E (node_height (bn_map X) (hashPrevBlock b) + 1) b then Some (Inl (Rejected 100))
                    else Some (Inr r))))"

definition AcceptBlock :: "nat \<Rightarrow> env \<Rightarrow> CBlock \<Rightarrow> block_node \<Rightarrow> (failure option \<times> block_node) option" where
  "AcceptBlock n E b X =
     (case accept_checks n E b X of
        None \<Rightarrow> None
      | Some (Inl e) \<Rightarrow> Some (Some e, X)
      | Some (Inr (hProof, C)) \<Rightarrow>
          (let X0 = X\<lparr>bn_state := (bn_state X)\<lparr>ns_cache := C\<rparr>\<rparr>
           in if \<not> CheckDiskSpace (nFreeBytesAvailable X) (GetSerializeSize_CBlock b) then Some (Some (Rejected 0), X0)
              else (case WriteToDisk (bn_params X) b (bn_files X) of
                  (None, d) \<Rightarrow> Some (Some (Rejected 0), put_files d X0)
                | (Some (f, pos), d) \<Rightarrow>
                    (case AddToBlockIndex n E f pos hProof b (put_files d X0) of
                       None \<Rightarrow> None
                     | Some (Some (Rejected _), X1) \<Rightarrow> Some (Some (Rejected 0), X1)
                     | Some (Some e, X1) \<Rightarrow> Some (Some e, X1)
                     | Some (None, X1) \<Rightarrow>
                         (case AcceptPendingSyncCheckpoint n E (node_io X1) (bn_state X1) (bn_sync X1) of
                            None \<Rightarrow> None
                          | Some (_, S, st) \<Rightarrow> Some (None, X1\<lparr>bn_state := S, bn_sync := st\<rparr>))))))"

section \<open>Processing a block\<close>

text \<open>The children of an accepted block that waited for it, and the hashes of those that are accepted.\<close>

fun accept_children :: "nat \<Rightarrow> env \<Rightarrow> CBlock list \<Rightarrow> block_node \<Rightarrow> (failure option \<times> u256 list \<times> block_node) option" where
  "accept_children n E [] X = Some (None, [], X)"
| "accept_children n E (b # bs) X =
     (case AcceptBlock n E b X of
        None \<Rightarrow> None
      | Some (r, X1) \<Rightarrow>
          if r = Some Thrown \<or> r = Some Aborted then Some (r, [], X1)
          else
            (case accept_children n E bs
                    (X1\<lparr>mapOrphanBlocks := (mapOrphanBlocks X1)(CBlock_GetHash E b := None),
                        setStakeSeenOrphan := setStakeSeenOrphan X1 - {GetProofOfStake b}\<rparr>) of
               None \<Rightarrow> None
             | Some (e, hs, X2) \<Rightarrow> Some (e, (if r = None then CBlock_GetHash E b # hs else hs), X2)))"

lemma accept_children_length: "accept_children n E bs X = Some (e, hs, X') \<Longrightarrow> length hs \<le> length bs"
  by (induction bs arbitrary: X e hs) (fastforce split: option.splits prod.splits if_splits)+

lemma accept_children_shrink:
  assumes "accept_children n E (map snd (filter (\<lambda>(k, _). k = h) os)) X = Some (e, hs, X')"
  shows "2 * length (filter (\<lambda>(k, _). k \<noteq> h) os) + length hs < Suc (2 * length os)"
proof -
  have "length hs \<le> length (filter (\<lambda>(k, _). k = h) os)" using accept_children_length [OF assms] by simp
  moreover have "length (filter (\<lambda>(k, _). k = h) os) + length (filter (\<lambda>(k, _). k \<noteq> h) os) = length os"
    using sum_length_filter_compl [of "\<lambda>(k, _). k = h" os] by (simp add: case_prod_unfold)
  ultimately show ?thesis by simp
qed

text \<open>The work queue; \<open>os\<close> is \<^verbatim>\<open>mapOrphanBlocksByPrev\<close>, which accepting a block neither reads nor changes.\<close>

function orphan_loop :: "nat \<Rightarrow> env \<Rightarrow> u256 list \<Rightarrow> (u256 \<times> CBlock) list \<Rightarrow> block_node \<Rightarrow> (failure option \<times> block_node) option" where
  "orphan_loop n E [] os X = Some (None, X\<lparr>mapOrphanBlocksByPrev := os\<rparr>)"
| "orphan_loop n E (h # hs) os X =
     (case accept_children n E (map snd (filter (\<lambda>(k, _). k = h) os)) X of
        None \<Rightarrow> None
      | Some (Some e, _, X1) \<Rightarrow> Some (Some e, X1\<lparr>mapOrphanBlocksByPrev := os\<rparr>)
      | Some (None, hs', X1) \<Rightarrow> orphan_loop n E (hs @ hs') (filter (\<lambda>(k, _). k \<noteq> h) os) X1)"
  by pat_completeness auto
termination
  by (relation "measure (\<lambda>(n, E, hs, os, X). 2 * length os + length hs)") (auto dest!: accept_children_shrink)

declare orphan_loop.simps(2) [simp del]

text \<open>The proof that a block away from the best chain must carry, relative to the checkpoint.\<close>

definition too_little_proof :: "env \<Rightarrow> CBlock \<Rightarrow> block_node \<Rightarrow> u256 \<Rightarrow> bool" where
  "too_little_proof E b X cp =
     (let m = bn_map X; ps = entries m (chain_from m cp); deltaTime = uint (blk_nTime b) - uint (idx_nTime (hd ps));
          bits = (if IsProofOfStake b then ComputeMinStake E (idx_nBits (hd (GetLastBlockIndex ps True))) deltaTime (blk_nTime b)
                  else ComputeMinWork E (bn_params X) (idx_nBits (hd (GetLastBlockIndex ps False))) deltaTime)
      in SetCompact E 0 (nBits b) > SetCompact E 0 bits)"

definition keep_orphan :: "env \<Rightarrow> CBlock \<Rightarrow> block_node \<Rightarrow> block_node" where
  "keep_orphan E b X =
     X\<lparr>setStakeSeenOrphan := (if IsProofOfStake b then insert (GetProofOfStake b) (setStakeSeenOrphan X) else setStakeSeenOrphan X),
       mapOrphanBlocks := (mapOrphanBlocks X)(CBlock_GetHash E b \<mapsto> b),
       mapOrphanBlocksByPrev := mapOrphanBlocksByPrev X @ [(hashPrevBlock b, b)]\<rparr>"

text \<open>The part of \<^verbatim>\<open>ProcessBlock\<close> after the preliminary checks; \<open>fSeen\<close> excuses a repeated stake.\<close>

definition process_checked :: "nat \<Rightarrow> env \<Rightarrow> CBlock \<Rightarrow> bool \<Rightarrow> bool \<Rightarrow> block_node \<Rightarrow> (failure option \<times> block_node) option" where
  "process_checked n E b wanted fSeen X =
     (let m = bn_map X
      in if (case GetLastSyncCheckpoint m (bn_sync X) of
               None \<Rightarrow> False
             | Some cp \<Rightarrow> hashPrevBlock b \<noteq> hashBestChain (bn_state X) \<and> \<not> wanted \<and> too_little_proof E b X cp)
         then Some (Some (Rejected 100), X)
         else if m (hashPrevBlock b) = None then
           if IsProofOfStake b \<and> GetProofOfStake b \<in> setStakeSeenOrphan X \<and> \<not> fSeen
           then Some (Some (Rejected 0), X) else Some (None, keep_orphan E b X)
         else (case AcceptBlock n E b X of
             None \<Rightarrow> None
           | Some (Some e, X1) \<Rightarrow> Some (Some e, X1)
           | Some (None, X1) \<Rightarrow> orphan_loop n E [CBlock_GetHash E b] (mapOrphanBlocksByPrev X1) X1))"

text \<open>\<^verbatim>\<open>WantedByPendingSyncCheckpoint\<close> does not change anything and is evaluated once, before the conditions that use it.\<close>

definition ProcessBlock :: "nat \<Rightarrow> env \<Rightarrow> CBlock \<Rightarrow> block_node \<Rightarrow> (failure option \<times> block_node) option" where
  "ProcessBlock n E b X =
     (let h = CBlock_GetHash E b; child = (\<exists>e \<in> set (mapOrphanBlocksByPrev X). fst e = h)
      in if bn_map X h \<noteq> None then Some (Some (Rejected 0), X)
         else if mapOrphanBlocks X h \<noteq> None then Some (Some (Rejected 0), X)
         else case WantedByPendingSyncCheckpoint n (mapOrphanBlocks X) (bn_sync X) h of
           None \<Rightarrow> None
         | Some wanted \<Rightarrow>
             if IsProofOfStake b \<and> GetProofOfStake b \<in> setStakeSeen X \<and> \<not> child \<and> \<not> wanted then Some (Some (Rejected 0), X)
             else (case CheckBlock E (bn_params X) b True True True of
                 Inl e \<Rightarrow> Some (Some e, X)
               | Inr _ \<Rightarrow> process_checked n E b wanted (child \<or> wanted) X))"

end
