(* ===== verification/AcceptInv.thy ===== *)
theory AcceptInv
  imports Accept
begin

text \<open>
  What holds of the node between blocks. Accepting a block keeps the invariant of theory \<open>ChainInv\<close>, the
  stored coins are those of the best chain, and no known block has more trust than the best one or than a
  chain that was found invalid. The invariant is carried through \<^verbatim>\<open>AddToBlockIndex\<close>, \<^verbatim>\<open>AcceptBlock\<close>, the queue of
  orphans and any sequence of calls of \<^verbatim>\<open>ProcessBlock\<close>.
\<close>

section \<open>What setting the best chain changes\<close>

lemma node_trust_tree: "tree m = tree m' \<Longrightarrow> node_trust m h = node_trust m' h"
  by (drule fun_cong [of _ _ h]) (auto simp: node_trust_def tree_def node_key_def split: option.splits)

text \<open>The tree and the best trust stay and the trust of invalid chains only grows.\<close>

definition same_tree :: "node_state \<Rightarrow> node_state \<Rightarrow> bool" where
  "same_tree S S' \<longleftrightarrow>
     tree (mapBlockIndex S') = tree (mapBlockIndex S) \<and> nBestChainTrust S' = nBestChainTrust S \<and> nBestInvalidTrust S \<le> nBestInvalidTrust S' \<and>
     fTestNet (ns_params S') = fTestNet (ns_params S)"

lemma same_tree_refl: "same_tree S S"
  by (simp add: same_tree_def)

lemma same_tree_trans: "same_tree S T \<Longrightarrow> same_tree T U \<Longrightarrow> same_tree S U"
  by (auto simp: same_tree_def)

lemma InvalidChainFound_tree: "same_tree S (InvalidChainFound h S)" "node_trust (mapBlockIndex S) h \<le> nBestInvalidTrust (InvalidChainFound h S)"
  by (auto simp: same_tree_def InvalidChainFound_def Let_def)

lemma connect_node_tree: "connect_node E N io pool h b (D, m, C) = Some (D', m', C') \<Longrightarrow> tree m' = tree m"
  by (auto simp: connect_node_def split: sum.splits)

lemma connect_branch_keeps_tree:
  "case connect_branch E N io pool hs (D, m, C) v of Inl (m', C') \<Rightarrow> tree m' = tree m | Inr ((D', m', C'), v') \<Rightarrow> tree m' = tree m"
proof (induction hs arbitrary: D m C v)
  case (Cons h hs)
  show ?case
  proof (cases "ReadFromDisk E N io m h")
    case (Some b)
    show ?thesis
    proof (cases "connect_node E N io pool h b (D, m, C)")
      case s': (Some s')
      obtain D1 m1 C1 where s: "s' = (D1, m1, C1)" by (cases s')
      from Cons.IH [where D = D1 and m = m1 and C = C1 and v = "v @ vtx b"] connect_node_tree [OF s' [unfolded s]] Some s' s show ?thesis
        by (auto split: sum.splits)
    qed (simp add: Some)
  qed simp
qed simp

lemma SetBestChainInner_tree:
  "case SetBestChainInner E io b h S of
     Inl S' \<Rightarrow> same_tree S S' \<and> ((\<forall>D. commit_ok io D) \<longrightarrow> node_trust (mapBlockIndex S) h \<le> nBestInvalidTrust S')
   | Inr S' \<Rightarrow> same_tree S S'"
proof (cases "connect_node E (ns_params S) io (ns_pool S) h b (begin_view (ns_db S), mapBlockIndex S, ns_cache S)")
  case None
  then show ?thesis by (simp add: SetBestChainInner_def InvalidChainFound_tree)
next
  case (Some a)
  then obtain D m C where c: "connect_node E (ns_params S) io (ns_pool S) h b (begin_view (ns_db S), mapBlockIndex S, ns_cache S) = Some (D, m, C)"
    by (cases a) auto
  with connect_node_tree [OF c] show ?thesis
    by (auto simp: SetBestChainInner_def same_tree_def commit_view_def split: option.splits)
qed

lemma connect_postponed_tree: "same_tree S (connect_postponed E io hs S)"
proof (induction hs arbitrary: S)
  case (Cons h hs)
  show ?case
  proof (cases "ReadFromDisk E (ns_params S) io (mapBlockIndex S) h")
    case (Some b)
    with SetBestChainInner_tree [where E = E and io = io and b = b and h = h and S = S] same_tree_trans [OF _ Cons.IH] show ?thesis by (auto split: sum.splits)
  qed (simp add: same_tree_refl)
qed (simp add: same_tree_refl)

lemma Reorganize_tree:
  assumes "Reorganize n E io h S = Some r"
  shows "case r of Inl S' \<Rightarrow> same_tree S S' | Inr S' \<Rightarrow> same_tree S S'"
proof -
  define best where "best = (case pindexBest S of None \<Rightarrow> [] | Some b \<Rightarrow> chain_from (mapBlockIndex S) b)"
  define new where "new = chain_from (mapBlockIndex S) h"
  note R = assms [unfolded Reorganize_def Let_def, folded best_def new_def]
  show ?thesis
  proof (cases "find_fork (mapBlockIndex S) best new")
    case None
    with R show ?thesis by (auto simp: same_tree_refl)
  next
    case (Some fork)
    define ds cs where "ds = takeWhile (\<lambda>h. h \<noteq> hd fork) best" and "cs = rev (takeWhile (\<lambda>h. h \<noteq> hd fork) new)"
    note R = R [unfolded Some option.case, folded ds_def cs_def]
    show ?thesis
    proof (cases "disconnect_branch E (ns_params S) io (mapBlockIndex S) ds (begin_view (ns_db S)) []")
      case None
      with R show ?thesis by (auto simp: same_tree_refl)
    next
      case (Some a)
      obtain D1 v where a: "a = (D1, v)" by (cases a)
      note R = R [unfolded Some a option.case prod.case]
      show ?thesis
        using R connect_branch_keeps_tree [where E = E and N = "ns_params S" and io = io and pool = "ns_pool S" and hs = cs and D = D1 and
            m = "mapBlockIndex S" and C = "ns_cache S" and v = "[]"]
        by (auto simp: same_tree_def split: sum.splits prod.splits option.splits)
    qed
  qed
qed

lemma SetBestChain_tree:
  assumes "SetBestChain n E io b h S = Some r"
  shows "case r of
      Inl S' \<Rightarrow> same_tree S S' \<and> ((\<forall>D. commit_ok io D) \<longrightarrow> node_trust (mapBlockIndex S) h \<le> nBestInvalidTrust S')
    | Inr S' \<Rightarrow> tree (mapBlockIndex S') = tree (mapBlockIndex S) \<and> nBestChainTrust S' = node_trust (mapBlockIndex S) h \<and>
        nBestInvalidTrust S \<le> nBestInvalidTrust S' \<and> fTestNet (ns_params S') = fTestNet (ns_params S)"
proof -
  have new: "tree (mapBlockIndex (new_best b E h T)) = tree (mapBlockIndex S) \<and>
      nBestChainTrust (new_best b E h T) = node_trust (mapBlockIndex S) h \<and> nBestInvalidTrust S \<le> nBestInvalidTrust (new_best b E h T) \<and>
      fTestNet (ns_params (new_best b E h T)) = fTestNet (ns_params S)"
    if "same_tree S T" for T
    using that node_trust_tree [of "mapBlockIndex T" "mapBlockIndex S" h] by (auto simp: same_tree_def new_best_def)
  consider "pindexGenesisBlock S = None" "CBlock_GetHash E b = hashGenesisBlock (ns_params S)"
    | "\<not> (pindexGenesisBlock S = None \<and> CBlock_GetHash E b = hashGenesisBlock (ns_params S))" "hashPrevBlock b = hashBestChain S"
    | "\<not> (pindexGenesisBlock S = None \<and> CBlock_GetHash E b = hashGenesisBlock (ns_params S))" "hashPrevBlock b \<noteq> hashBestChain S"
    by (cases "hashPrevBlock b = hashBestChain S") auto
  then show ?thesis
  proof cases
    case 1
    with assms show ?thesis
      using new [of "S\<lparr>ns_db := D, pindexGenesisBlock := Some h\<rparr>" for D]
      by (auto simp: SetBestChain_def same_tree_def commit_view_def split: option.splits if_splits)
  next
    case 2
    with assms SetBestChainInner_tree [where E = E and io = io and b = b and h = h and S = S] new show ?thesis
      by (auto simp: SetBestChain_def split: sum.splits)
  next
    case 3
    obtain sec i where pp: "postpone (mapBlockIndex S) (case pindexBest S of None \<Rightarrow> 0 | Some p \<Rightarrow> p) (chain_from (mapBlockIndex S) h) = (sec, i)"
      by (metis surj_pair)
    from 3 assms pp obtain r' where r': "Reorganize n E io i S = Some r'"
        "r = (case r' of Inl S' \<Rightarrow> Inl (InvalidChainFound h S') | Inr S' \<Rightarrow> Inr (new_best b E h (connect_postponed E io (rev sec) S')))"
      unfolding SetBestChain_def by (simp only: if_False prod.case) (auto split: option.splits sum.splits)
    note R = Reorganize_tree [OF r'(1)]
    show ?thesis
    proof (cases r')
      case (Inl T)
      with R have t: "same_tree S T" by simp
      then have "node_trust (mapBlockIndex S) h \<le> nBestInvalidTrust (InvalidChainFound h T)"
        using InvalidChainFound_tree(2) [of T h] node_trust_tree [of "mapBlockIndex T" "mapBlockIndex S" h] by (simp add: same_tree_def)
      with same_tree_trans [OF t InvalidChainFound_tree(1)] r'(2) Inl show ?thesis by simp
    next
      case (Inr T)
      with R have "same_tree S (connect_postponed E io (rev sec) T)" using same_tree_trans [OF _ connect_postponed_tree] by simp
      from new [OF this] r'(2) Inr show ?thesis by simp
    qed
  qed
qed

text \<open>When the parent of the new block has no more trust than the best block, nothing is postponed.\<close>

lemma SetBestChain_tip:
  assumes "chain_sync E io S" and "best_sync S" and "indexed E io b h S" and "pindexBest S = Some t"
    and "mapBlockIndex S h = Some p" and "pprev p = Some q" and "node_trust (mapBlockIndex S) q \<le> node_trust (mapBlockIndex S) t"
    and "SetBestChain n E io b h S = Some (Inr S')"
  shows "best_sync S'"
proof (cases "hashPrevBlock b = hashBestChain S")
  case True
  with SetBestChain_sync [OF assms(1-3) _ assms(8)] assms(4) show ?thesis by simp
next
  case False
  have g: "pindexGenesisBlock S \<noteq> None" and h: "CBlock_GetHash E b = h"
    using sync_shape [OF assms(1,2)] assms(3,4) by (auto simp: indexed_def)
  have inv: "index_inv (mapBlockIndex S) (pindexGenesisBlock S)" using assms(1) by (simp add: chain_sync_def)
  obtain pq where "mapBlockIndex S q = Some pq" using index_invD(5) [OF inv assms(5,6)] by blast
  from linked_chain_from [OF inv this] obtain hs where "linked (mapBlockIndex S) (q # hs)" by (metis linked_nonempty list.exhaust_sel)
  then have c: "chain_from (mapBlockIndex S) h = h # q # hs" using assms(5,6) by (intro chain_from_linked [OF inv]) auto
  moreover have "\<not> node_trust (mapBlockIndex S) q > node_trust (mapBlockIndex S) t" using assms(7) by (rule leD)
  ultimately have "postpone (mapBlockIndex S) t (chain_from (mapBlockIndex S) h) = ([], h)" by simp
  with assms(4,8) g h False obtain T where T: "Reorganize n E io h S = Some (Inr T)" "S' = new_best b E h T"
    by (auto simp: SetBestChain_def split: option.splits sum.splits)
  from Reorganize_sync [OF assms(1,2,4,5) T(1)] T(2) h show ?thesis by (auto simp: best_sync_def)
qed

section \<open>Adding an entry\<close>

text \<open>What \<^verbatim>\<open>AddToBlockIndex\<close> builds for a block whose parent is known.\<close>

definition child_entry :: "block_map \<Rightarrow> u256 \<Rightarrow> u256 \<Rightarrow> index_node \<Rightarrow> bool" where
  "child_entry m h q p \<longleftrightarrow>
     m h = None \<and> idx_hash p = h \<and> bp_nFile p \<noteq> - 1 \<and> pprev p = Some q \<and> (\<exists>pq. m q = Some pq \<and> bp_nHeight p = bp_nHeight pq + 1)"

lemma index_inv_insert:
  assumes "index_inv m (Some g)" and "child_entry m h q p"
  shows "index_inv (m(h \<mapsto> p)) (Some g)"
  unfolding index_inv_def
proof (intro allI impI)
  fix k r
  assume r: "(m(h \<mapsto> p)) k = Some r"
  obtain pq where pq: "m q = Some pq" "bp_nHeight p = bp_nHeight pq + 1" using assms(2) by (auto simp: child_entry_def)
  show "idx_hash r = k \<and> bp_nFile r \<noteq> - 1 \<and> 0 \<le> bp_nHeight r \<and>
        (case pprev r of
           None \<Rightarrow> bp_nHeight r = 0 \<and> (Some g = Some k \<or> Some g = None \<and> dom (m(h \<mapsto> p)) = {k})
         | Some x \<Rightarrow> \<exists>px. (m(h \<mapsto> p)) x = Some px \<and> bp_nHeight r = bp_nHeight px + 1)"
  proof (cases "k = h")
    case True
    then have "q \<noteq> h" using assms(2) pq(1) by (auto simp: child_entry_def)
    with True r assms(2) pq index_invD(3) [OF assms(1) pq(1)] show ?thesis by (auto simp: child_entry_def)
  next
    case False
    with r have m: "m k = Some r" by simp
    note i = index_invD [OF assms(1) m]
    show ?thesis
    proof (cases "pprev r")
      case None
      with i show ?thesis by simp
    next
      case (Some x)
      with i(5) obtain px where "m x = Some px" "bp_nHeight r = bp_nHeight px + 1" by blast
      moreover have "x \<noteq> h" using calculation(1) assms(2) by (auto simp: child_entry_def)
      ultimately show ?thesis using Some i(1-3) by simp
    qed
  qed
qed

lemma linked_insert: "m h = None \<Longrightarrow> linked m xs \<Longrightarrow> linked (m(h \<mapsto> p)) xs"
proof (induction xs rule: induct_list012)
  case (2 x)
  then show ?case by (cases "x = h") auto
next
  case (3 x y zs)
  then show ?case by (cases "x = h") auto
qed simp

lemma chain_from_insert:
  assumes "index_inv m (Some g)" and "child_entry m h q p" and "m t = Some r"
  shows "chain_from (m(h \<mapsto> p)) t = chain_from m t"
proof -
  note l = linked_chain_from [OF assms(1,3)]
  have "linked (m(h \<mapsto> p)) (chain_from m t)" using l(1) assms(2) linked_insert by (auto simp: child_entry_def)
  then show ?thesis using chain_from_linked [OF index_inv_insert [OF assms(1,2)]] l linked_nonempty by (metis list.exhaust_sel)
qed

lemma replay_mono:
  assumes "\<And>h b. h \<in> set hs \<Longrightarrow> rd h = Some b \<Longrightarrow> rd' h = Some b"
  shows "replay E rd hs = Some U \<Longrightarrow> replay E rd' hs = Some U"
  using assms
proof (induction hs arbitrary: U rule: induct_list012)
  case (3 h q hs)
  then obtain b V where "rd h = Some b" "replay E rd (q # hs) = Some V" "utxo_apply E (vtx b) V = Some U"
    by (auto simp: Option.bind_eq_Some_conv split: option.splits)
  with 3 show ?case by simp
qed simp_all

lemma chain_sync_insert:
  assumes "chain_sync E io S" and "pindexGenesisBlock S = Some g" and "child_entry (mapBlockIndex S) h q p"
    and "utxo (cd_tx D) = utxo (cd_tx (ns_db S))" and "cd_best D = cd_best (ns_db S)"
  shows "chain_sync E io (S\<lparr>mapBlockIndex := (mapBlockIndex S)(h \<mapsto> p), ns_db := D\<rparr>)"
proof -
  let ?m = "mapBlockIndex S"
  have inv: "index_inv ?m (Some g)" using assms(1,2) by (simp add: chain_sync_def)
  obtain t where t: "cd_best (ns_db S) = Some t" using assms(1,2) by (auto simp: chain_sync_def split: option.splits)
  obtain pt where pt: "?m t = Some pt"
    and rep: "replay E (ReadFromDisk E (ns_params S) io ?m) (chain_from ?m t) = Some (utxo (cd_tx (ns_db S)))"
    using chain_syncE [OF assms(1) t] .
  have "t \<noteq> h" using pt assms(3) by (auto simp: child_entry_def)
  moreover have "replay E (ReadFromDisk E (ns_params S) io (?m(h \<mapsto> p))) (chain_from ?m t) = Some (utxo (cd_tx (ns_db S)))"
  proof (rule replay_mono [OF _ rep])
    fix k b
    assume "ReadFromDisk E (ns_params S) io ?m k = Some b"
    moreover have "k \<noteq> h" using calculation assms(3) by (auto simp: child_entry_def ReadFromDisk_def)
    ultimately show "ReadFromDisk E (ns_params S) io (?m(h \<mapsto> p)) k = Some b" by (simp add: ReadFromDisk_def)
  qed
  ultimately show ?thesis
    using index_inv_insert [OF inv assms(3)] chain_from_insert [OF inv assms(3) pt] pt t assms(2,4,5) by (simp add: chain_sync_def)
qed

lemma chain_sync_reads:
  assumes "chain_sync E io S" and "\<And>f pos b. block_file io f pos = Some b \<Longrightarrow> block_file io' f pos = Some b"
  shows "chain_sync E io' S"
proof -
  have r: "ReadFromDisk E N io m k = Some b \<Longrightarrow> ReadFromDisk E N io' m k = Some b" for N m k b
    using assms(2) by (auto simp: ReadFromDisk_def split: option.splits if_splits)
  show ?thesis
    using assms(1) replay_mono [of _ "ReadFromDisk E (ns_params S) io (mapBlockIndex S)" "ReadFromDisk E (ns_params S) io' (mapBlockIndex S)" E] r
    unfolding chain_sync_def by (auto split: option.splits)
qed

lemma index_entry_child:
  assumes "index_inv m g" and "m (hashPrevBlock b) = Some pq" and "m (CBlock_GetHash E b) = None" and "f \<noteq> - 1"
    and "index_entry E m f pos hProof b = Inr p"
  shows "child_entry m (CBlock_GetHash E b) (hashPrevBlock b) p" and "bp_nFile p = f" and "bp_nBlockPos p = pos"
proof -
  let ?ps = "entries m (chain_from m (hashPrevBlock b))"
  have hd: "hd ?ps = CBlockIndex.truncate pq" by (rule entries_hd [OF assms(1,2)])
  obtain hs where "chain_from m (hashPrevBlock b) = hashPrevBlock b # hs"
    using linked_chain_from [OF assms(1,2)] linked_nonempty by (metis list.exhaust_sel)
  then have ne: "?ps \<noteq> []" using assms(2) by (simp add: entries_def List.map_filter_simps)
  obtain q where q: "p = CBlockIndex.extend q \<lparr>pprev = Some (hashPrevBlock b)\<rparr>" "idx_hash q = CBlock_GetHash E b" "bp_nFile q = f"
      "bp_nBlockPos q = pos" "bp_nHeight q = bp_nHeight pq + 1"
    using assms(5) ne hd
    by (auto simp: index_entry_def Let_def SetStakeEntropyBit_def SetStakeModifier_def CBlockIndex_new_def CBlockIndex.truncate_def
        split: option.splits if_splits prod.splits)
  then show "child_entry m (CBlock_GetHash E b) (hashPrevBlock b) p" "bp_nFile p = f" "bp_nBlockPos p = pos"
    using assms(2-4) by (simp_all add: child_entry_def CBlockIndex.extend_def)
qed

section \<open>The invariant of the node\<close>

text \<open>The coins on disk are those of the chain the database records, and the best trust is that of the best block.\<close>

definition synced :: "env \<Rightarrow> block_node \<Rightarrow> bool" where
  "synced E X \<longleftrightarrow>
     chain_sync E (node_io X) (bn_state X) \<and>
     (\<exists>t. pindexBest (bn_state X) = Some t \<and> nBestChainTrust (bn_state X) = node_trust (bn_map X) t)"

definition node_ok :: "env \<Rightarrow> block_node \<Rightarrow> bool" where
  "node_ok E X \<longleftrightarrow> synced E X \<and> best_sync (bn_state X)"

text \<open>No block has more trust than the best one and than every chain found invalid.\<close>

definition heaviest :: "node_state \<Rightarrow> bool" where
  "heaviest S \<longleftrightarrow> (\<forall>h. node_trust (mapBlockIndex S) h \<le> nBestChainTrust S \<or> node_trust (mapBlockIndex S) h \<le> nBestInvalidTrust S)"

lemma heaviest_tree:
  "heaviest S \<Longrightarrow> tree (mapBlockIndex S') = tree (mapBlockIndex S) \<Longrightarrow> nBestChainTrust S \<le> nBestChainTrust S' \<Longrightarrow>
     nBestInvalidTrust S \<le> nBestInvalidTrust S' \<Longrightarrow> heaviest S'"
  unfolding heaviest_def using node_trust_tree [of "mapBlockIndex S'" "mapBlockIndex S"] by (metis order_trans)

lemma best_known:
  assumes "node_ok E X"
  obtains t p g where "pindexBest (bn_state X) = Some t" and "cd_best (ns_db (bn_state X)) = Some t" and "bn_map X t = Some p"
    and "pindexGenesisBlock (bn_state X) = Some g" and "index_inv (bn_map X) (Some g)" and "nBestChainTrust (bn_state X) = node_trust (bn_map X) t"
proof -
  obtain t where t: "pindexBest (bn_state X) = Some t" "nBestChainTrust (bn_state X) = node_trust (bn_map X) t"
      "chain_sync E (node_io X) (bn_state X)" "best_sync (bn_state X)"
    using assms by (auto simp: node_ok_def synced_def)
  then have b: "cd_best (ns_db (bn_state X)) = Some t" by (simp add: best_sync_def)
  from chain_syncE [OF t(3) b] that t b show thesis by metis
qed

text \<open>What adding and accepting a block leave alone.\<close>

definition same_rest :: "block_node \<Rightarrow> block_node \<Rightarrow> bool" where
  "same_rest X X' \<longleftrightarrow>
     bn_commit X' = bn_commit X \<and> bn_sync X' = bn_sync X \<and> CheckpointsMode X' = CheckpointsMode X \<and> mapOrphanBlocks X' = mapOrphanBlocks X \<and>
     mapOrphanBlocksByPrev X' = mapOrphanBlocksByPrev X \<and> setStakeSeenOrphan X' = setStakeSeenOrphan X \<and>
     fTestNet (bn_params X') = fTestNet (bn_params X) \<and> dom (bn_map X) \<subseteq> dom (bn_map X') \<and>
     nBestInvalidTrust (bn_state X) \<le> nBestInvalidTrust (bn_state X')"

lemma same_rest_refl: "same_rest X X"
  by (simp add: same_rest_def)

lemma same_rest_trans: "same_rest X Y \<Longrightarrow> same_rest Y Z \<Longrightarrow> same_rest X Z"
  by (simp add: same_rest_def) (meson order_trans)

lemma tree_dom: "tree m = tree m' \<Longrightarrow> dom m = dom m'"
  using tree_SomeD [of m m'] tree_SomeD [of m' m] by (metis domD domI subsetI subset_antisym)

lemma store_entry_coins:
  assumes "store_entry p b X = Some D"
  shows "utxo (cd_tx D) = utxo (cd_tx (ns_db (bn_state X)))" and "cd_best D = cd_best (ns_db (bn_state X))"
  using assms by (auto simp: store_entry_def Let_def commit_view_def WriteBlockIndex_def begin_view_def utxo_def ReadTxIndex_def split: if_splits)

lemma store_entry_refused: "store_entry p b X = None \<Longrightarrow> \<not> (\<forall>D. bn_commit X D)"
  by (auto simp: store_entry_def Let_def commit_view_def node_io_def split: if_splits)

text \<open>The state after the entry has been stored.\<close>

definition entered :: "u256 \<Rightarrow> index_node \<Rightarrow> CChainDB \<Rightarrow> block_node \<Rightarrow> node_state" where
  "entered h p D X = (bn_state X)\<lparr>mapBlockIndex := (bn_map X)(h \<mapsto> p), ns_db := D\<rparr>"

lemma entered_put: "(bn_state (put_entry h p X))\<lparr>ns_db := D\<rparr> = entered h p D X"
  by (simp add: put_entry_def entered_def)

lemma AddToBlockIndex_cases:
  assumes "AddToBlockIndex n E f pos hProof b X = Some (r, X')" and "bn_map X (CBlock_GetHash E b) = None"
  obtains (entry) e where "index_entry E (bn_map X) f pos hProof b = Inl e" and "X' = X" and "r = Some e"
  | (refused) p where "index_entry E (bn_map X) f pos hProof b = Inr p" and "store_entry p b X = None" and "r = Some (Rejected 0)"
      and "X' = put_entry (CBlock_GetHash E b) p X"
  | (side) p D where "index_entry E (bn_map X) f pos hProof b = Inr p" and "store_entry p b X = Some D"
      and "nChainTrust p \<le> nBestChainTrust (bn_state X)" and "r = None"
      and "X' = (put_entry (CBlock_GetHash E b) p X)\<lparr>bn_state := entered (CBlock_GetHash E b) p D X\<rparr>"
  | (best) p D s where "index_entry E (bn_map X) f pos hProof b = Inr p" and "store_entry p b X = Some D"
      and "nBestChainTrust (bn_state X) < nChainTrust p"
      and "SetBestChain n E (node_io X) b (CBlock_GetHash E b) (entered (CBlock_GetHash E b) p D X) = Some s"
      and "X' = (put_entry (CBlock_GetHash E b) p X)\<lparr>bn_state := (case s of Inl S \<Rightarrow> S | Inr S \<Rightarrow> S)\<rparr>"
      and "r = (case s of Inl _ \<Rightarrow> Some (Rejected 0) | Inr _ \<Rightarrow> None)"
proof (cases "index_entry E (bn_map X) f pos hProof b")
  case (Inl e)
  have "X' = X" "r = Some e" using assms(1) unfolding AddToBlockIndex_def Let_def Inl sum.case assms(2) by simp_all
  with Inl show thesis by (rule entry)
next
  case (Inr p)
  have t: "nBestChainTrust (entered h p D X) = nBestChainTrust (bn_state X)" for h D by (simp add: entered_def)
  note A = assms(1) [unfolded AddToBlockIndex_def Let_def Inr sum.case entered_put t, unfolded assms(2), simplified]
  show thesis
  proof (cases "store_entry p b X")
    case None
    have "r = Some (Rejected 0)" "X' = put_entry (CBlock_GetHash E b) p X" using A unfolding None option.case by simp_all
    with Inr None show thesis by (rule refused)
  next
    case (Some D)
    show thesis
    proof (cases "nBestChainTrust (bn_state X) < nChainTrust p")
      case False
      then have "nChainTrust p \<le> nBestChainTrust (bn_state X)" "r = None"
          "X' = (put_entry (CBlock_GetHash E b) p X)\<lparr>bn_state := entered (CBlock_GetHash E b) p D X\<rparr>"
        using A unfolding Some option.case by simp_all
      with Inr Some show thesis by (rule side)
    next
      case True
      let ?c = "SetBestChain n E (node_io X) b (CBlock_GetHash E b) (entered (CBlock_GetHash E b) p D X)"
      have A: "(case ?c of None \<Rightarrow> None
          | Some (Inl S3) \<Rightarrow> Some (Some (Rejected 0), (put_entry (CBlock_GetHash E b) p X)\<lparr>bn_state := S3\<rparr>)
          | Some (Inr S3) \<Rightarrow> Some (None, (put_entry (CBlock_GetHash E b) p X)\<lparr>bn_state := S3\<rparr>)) = Some (r, X')"
        using A True unfolding Some option.case by simp
      then obtain s where s: "?c = Some s" by (cases ?c) simp_all
      have "X' = (put_entry (CBlock_GetHash E b) p X)\<lparr>bn_state := (case s of Inl S \<Rightarrow> S | Inr S \<Rightarrow> S)\<rparr>"
          "r = (case s of Inl _ \<Rightarrow> Some (Rejected 0) | Inr _ \<Rightarrow> None)"
        using A unfolding s option.case by (cases s; simp)+
      with Inr Some True s show thesis by (rule best)
    qed
  qed
qed

lemma node_io_updates [simp]:
  "node_io (put_entry h p X) = node_io X" "node_io (X\<lparr>bn_state := S\<rparr>) = node_io X" "node_io (X\<lparr>bn_state := S, bn_sync := st\<rparr>) = node_io X"
  "commit_ok (node_io X) = bn_commit X" "block_file (node_io X) = read_block (bn_files X)"
  by (simp_all add: node_io_def put_entry_def)

lemma put_entry_fields [simp]:
  "bn_map (put_entry h p X) = (bn_map X)(h \<mapsto> p)" "bn_files (put_entry h p X) = bn_files X"
  by (simp_all add: put_entry_def)

lemma entered_fields [simp]:
  "mapBlockIndex (entered h p D X) = (bn_map X)(h \<mapsto> p)" "ns_db (entered h p D X) = D" "ns_params (entered h p D X) = bn_params X"
  "pindexBest (entered h p D X) = pindexBest (bn_state X)" "nBestChainTrust (entered h p D X) = nBestChainTrust (bn_state X)"
  "nBestInvalidTrust (entered h p D X) = nBestInvalidTrust (bn_state X)" "hashBestChain (entered h p D X) = hashBestChain (bn_state X)"
  by (simp_all add: entered_def)

text \<open>A block on disk whose parent is known, with its proof of work checked.\<close>

definition ready :: "env \<Rightarrow> u32 \<Rightarrow> u32 \<Rightarrow> CBlock \<Rightarrow> block_node \<Rightarrow> bool" where
  "ready E f pos b X \<longleftrightarrow>
     f \<noteq> - 1 \<and> read_block (bn_files X) f pos = Some b \<and> bn_map X (CBlock_GetHash E b) = None \<and> bn_map X (hashPrevBlock b) \<noteq> None \<and>
     (IsProofOfWork b \<longrightarrow> CheckProofOfWork E (bn_params X) (CBlock_GetHash E b) (nBits b))"

lemma ready_child:
  assumes "node_ok E X" and "ready E f pos b X" and "index_entry E (bn_map X) f pos hProof b = Inr p"
  shows "child_entry (bn_map X) (CBlock_GetHash E b) (hashPrevBlock b) p" and "bp_nFile p = f" and "bp_nBlockPos p = pos"
proof -
  obtain g where "index_inv (bn_map X) (Some g)" using best_known [OF assms(1)] by metis
  moreover obtain pq where "bn_map X (hashPrevBlock b) = Some pq" using assms(2) by (auto simp: ready_def)
  ultimately show "child_entry (bn_map X) (CBlock_GetHash E b) (hashPrevBlock b) p" "bp_nFile p = f" "bp_nBlockPos p = pos"
    using index_entry_child [OF _ _ _ _ assms(3)] assms(2) by (auto simp: ready_def)
qed

lemma entered_sync:
  assumes "node_ok E X" and "ready E f pos b X" and "index_entry E (bn_map X) f pos hProof b = Inr p"
    and "utxo (cd_tx D) = utxo (cd_tx (ns_db (bn_state X)))" and "cd_best D = cd_best (ns_db (bn_state X))"
  defines "T \<equiv> entered (CBlock_GetHash E b) p D X"
  shows "chain_sync E (node_io X) T" and "best_sync T" and "indexed E (node_io X) b (CBlock_GetHash E b) T"
proof -
  note c = ready_child [OF assms(1-3)]
  obtain g where g: "pindexGenesisBlock (bn_state X) = Some g" "chain_sync E (node_io X) (bn_state X)" "best_sync (bn_state X)"
    using best_known [OF assms(1)] assms(1) by (metis node_ok_def synced_def)
  from chain_sync_insert [OF g(2,1) c(1) assms(4,5)] show "chain_sync E (node_io X) T" by (simp add: T_def entered_def)
  from g(3) assms(5) show "best_sync T" by (simp add: T_def best_sync_def)
  have "ReadFromDisk E (bn_params X) (node_io X) ((bn_map X)(CBlock_GetHash E b \<mapsto> p)) (CBlock_GetHash E b) = Some b"
    using assms(2) c by (simp add: ReadFromDisk_def ready_def child_entry_def)
  then show "indexed E (node_io X) b (CBlock_GetHash E b) T" using c(1) by (simp add: T_def indexed_def child_entry_def)
qed

lemma node_trust_insert: "node_trust (m(h \<mapsto> p)) k = (if k = h then nChainTrust p else node_trust m k)"
  by (simp add: node_trust_def)

lemma bn_state_put: "bn_state (put_entry h p X) = entered h p (ns_db (bn_state X)) X"
  by (simp add: put_entry_def entered_def)

lemma same_rest_put:
  assumes "dom ((bn_map X)(h \<mapsto> p)) \<subseteq> dom (mapBlockIndex S)" and "nBestInvalidTrust (bn_state X) \<le> nBestInvalidTrust S"
    and "fTestNet (ns_params S) = fTestNet (bn_params X)"
  shows "same_rest X ((put_entry h p X)\<lparr>bn_state := S\<rparr>)"
  using assms by (simp add: same_rest_def put_entry_def)

lemma entered_trust:
  assumes "node_ok E X" and "bn_map X h = None"
  obtains t where "pindexBest (bn_state X) = Some t" and "nBestChainTrust (bn_state X) = node_trust ((bn_map X)(h \<mapsto> p)) t"
    and "node_trust ((bn_map X)(h \<mapsto> p)) t = node_trust (bn_map X) t"
proof -
  obtain t pt where t: "pindexBest (bn_state X) = Some t" "bn_map X t = Some pt" "nBestChainTrust (bn_state X) = node_trust (bn_map X) t"
    using best_known [OF assms(1)] by metis
  moreover have "t \<noteq> h" using t(2) assms(2) by auto
  ultimately show thesis using that by (simp add: node_trust_insert)
qed

text \<open>What adding a block to the index keeps of the node, whatever its outcome.\<close>

definition kept :: "env \<Rightarrow> CBlock \<Rightarrow> block_node \<Rightarrow> block_node \<Rightarrow> bool" where
  "kept E b X X' \<longleftrightarrow>
     synced E X' \<and> same_rest X X' \<and>
     (node_trust (bn_map X) (hashPrevBlock b) \<le> nBestChainTrust (bn_state X) \<longrightarrow> best_sync (bn_state X')) \<and>
     ((\<forall>D. bn_commit X D) \<longrightarrow> heaviest (bn_state X) \<longrightarrow> heaviest (bn_state X'))"

lemma kept_stored:
  assumes "node_ok E X" and "ready E f pos b X" and "index_entry E (bn_map X) f pos hProof b = Inr p"
    and "utxo (cd_tx D) = utxo (cd_tx (ns_db (bn_state X)))" and "cd_best D = cd_best (ns_db (bn_state X))"
    and "(\<forall>D. bn_commit X D) \<longrightarrow> nChainTrust p \<le> nBestChainTrust (bn_state X)"
  shows "kept E b X ((put_entry (CBlock_GetHash E b) p X)\<lparr>bn_state := entered (CBlock_GetHash E b) p D X\<rparr>)"
proof -
  let ?h = "CBlock_GetHash E b"
  note s = entered_sync [OF assms(1-5)]
  have h: "bn_map X ?h = None" using assms(2) by (simp add: ready_def)
  have "heaviest (bn_state X) \<Longrightarrow> nChainTrust p \<le> nBestChainTrust (bn_state X) \<Longrightarrow> heaviest (entered ?h p D X)"
    by (simp add: heaviest_def node_trust_insert)
  moreover have "same_rest X ((put_entry ?h p X)\<lparr>bn_state := entered ?h p D X\<rparr>)" by (rule same_rest_put) simp_all
  moreover obtain k where "pindexBest (bn_state X) = Some k" "nBestChainTrust (bn_state X) = node_trust ((bn_map X)(?h \<mapsto> p)) k"
    using entered_trust [OF assms(1) h] by metis
  then have "synced E ((put_entry ?h p X)\<lparr>bn_state := entered ?h p D X\<rparr>)" using s(1) by (simp add: synced_def)
  ultimately show ?thesis using s(2) assms(6) by (simp add: kept_def)
qed

lemma heaviest_grow:
  assumes "heaviest S" and "tree (mapBlockIndex S') = tree ((mapBlockIndex S)(h \<mapsto> p))" and "nBestChainTrust S \<le> nBestChainTrust S'"
    and "nBestInvalidTrust S \<le> nBestInvalidTrust S'" and "nChainTrust p \<le> nBestChainTrust S' \<or> nChainTrust p \<le> nBestInvalidTrust S'"
  shows "heaviest S'"
  unfolding heaviest_def
proof
  fix j
  have j: "node_trust (mapBlockIndex S') j = (if j = h then nChainTrust p else node_trust (mapBlockIndex S) j)"
    unfolding node_trust_tree [OF assms(2)] node_trust_insert ..
  show "node_trust (mapBlockIndex S') j \<le> nBestChainTrust S' \<or> node_trust (mapBlockIndex S') j \<le> nBestInvalidTrust S'"
  proof (cases "j = h")
    case True
    with assms(5) j show ?thesis by simp
  next
    case False
    have "node_trust (mapBlockIndex S) j \<le> nBestChainTrust S \<or> node_trust (mapBlockIndex S) j \<le> nBestInvalidTrust S"
      using assms(1) unfolding heaviest_def by blast
    then have "node_trust (mapBlockIndex S) j \<le> nBestChainTrust S' \<or> node_trust (mapBlockIndex S) j \<le> nBestInvalidTrust S'"
      using assms(3,4) order_trans by blast
    with False j show ?thesis by simp
  qed
qed

lemma kept_best:
  assumes "node_ok E X" and "ready E f pos b X" and "index_entry E (bn_map X) f pos hProof b = Inr p" and "store_entry p b X = Some D"
    and "nBestChainTrust (bn_state X) < nChainTrust p"
    and "SetBestChain n E (node_io X) b (CBlock_GetHash E b) (entered (CBlock_GetHash E b) p D X) = Some r"
  shows "kept E b X ((put_entry (CBlock_GetHash E b) p X)\<lparr>bn_state := (case r of Inl S \<Rightarrow> S | Inr S \<Rightarrow> S)\<rparr>)"
proof -
  let ?h = "CBlock_GetHash E b"
  let ?T = "entered ?h p D X"
  note s = entered_sync [OF assms(1-3) store_entry_coins [OF assms(4)]]
  note t = SetBestChain_tree [OF assms(6)] and c = ready_child(1) [OF assms(1-3)]
  have h: "bn_map X ?h = None" "bn_map X (hashPrevBlock b) \<noteq> None" using assms(2) by (simp_all add: ready_def)
  then have ne: "hashPrevBlock b \<noteq> ?h" by metis
  have tp: "node_trust ((bn_map X)(?h \<mapsto> p)) ?h = nChainTrust p" by (simp add: node_trust_insert)
  obtain k where k: "pindexBest (bn_state X) = Some k" "nBestChainTrust (bn_state X) = node_trust ((bn_map X)(?h \<mapsto> p)) k"
      "node_trust ((bn_map X)(?h \<mapsto> p)) k = node_trust (bn_map X) k" using entered_trust [OF assms(1) h(1)] by metis
  have y: "pindexBest ?T \<noteq> None \<or> ?h = hashGenesisBlock (ns_params ?T)" using k(1) by simp
  note y = SetBestChain_sync [OF s y assms(6)]
  show ?thesis
  proof (cases r)
    case (Inl S)
    with t y have S: "same_tree ?T S" "(\<forall>D. bn_commit X D) \<longrightarrow> nChainTrust p \<le> nBestInvalidTrust S" "chain_sync E (node_io X) S" "untouched ?T S"
      using tp by simp_all
    then have tr: "tree (mapBlockIndex S) = tree ((bn_map X)(?h \<mapsto> p))" and tb: "nBestChainTrust S = nBestChainTrust (bn_state X)"
        and ti: "nBestInvalidTrust (bn_state X) \<le> nBestInvalidTrust S" and tn: "fTestNet (ns_params S) = fTestNet (bn_params X)"
      by (simp_all add: same_tree_def)
    have b: "best_sync S" "pindexBest S = Some k" using S(4) s(2) k(1) by (auto simp: untouched_def best_sync_def)
    have "heaviest S" if "heaviest (bn_state X)" "nChainTrust p \<le> nBestInvalidTrust S"
      by (rule heaviest_grow [OF that(1) tr _ ti]) (use tb that(2) in simp_all)
    moreover have "synced E ((put_entry ?h p X)\<lparr>bn_state := S\<rparr>)"
      using S(3) b(2) k tb node_trust_tree [OF tr, of k] by (simp add: synced_def)
    moreover have "same_rest X ((put_entry ?h p X)\<lparr>bn_state := S\<rparr>)" using tree_dom [OF tr] ti tn by (intro same_rest_put) simp_all
    ultimately show ?thesis using Inl S(2) b(1) by (simp add: kept_def)
  next
    case (Inr S)
    with t y have S: "chain_sync E (node_io X) S" "pindexBest S = Some ?h" "nBestChainTrust S = nChainTrust p"
        and tr: "tree (mapBlockIndex S) = tree ((bn_map X)(?h \<mapsto> p))"
        and ti: "nBestInvalidTrust (bn_state X) \<le> nBestInvalidTrust S" and tn: "fTestNet (ns_params S) = fTestNet (bn_params X)"
      using tp by simp_all
    have "heaviest S" if "heaviest (bn_state X)"
      by (rule heaviest_grow [OF that tr _ ti]) (use S(3) assms(5) in simp_all)
    moreover have "synced E ((put_entry ?h p X)\<lparr>bn_state := S\<rparr>)"
      using S tp node_trust_tree [OF tr, of ?h] by (simp add: synced_def)
    moreover have "same_rest X ((put_entry ?h p X)\<lparr>bn_state := S\<rparr>)" using tree_dom [OF tr] ti tn by (intro same_rest_put) simp_all
    moreover have "best_sync S" if "node_trust (bn_map X) (hashPrevBlock b) \<le> nBestChainTrust (bn_state X)"
    proof (rule SetBestChain_tip [OF s])
      show "pindexBest ?T = Some k" "mapBlockIndex ?T ?h = Some p" "pprev p = Some (hashPrevBlock b)" using k(1) c by (simp_all add: child_entry_def)
      show "node_trust (mapBlockIndex ?T) (hashPrevBlock b) \<le> node_trust (mapBlockIndex ?T) k"
        using that k ne by (simp add: node_trust_insert)
      show "SetBestChain n E (node_io X) b ?h ?T = Some (Inr S)" using assms(6) Inr by simp
    qed
    ultimately show ?thesis using Inr by (simp add: kept_def)
  qed
qed

lemma AddToBlockIndex_kept:
  assumes "node_ok E X" and "ready E f pos b X" and "AddToBlockIndex n E f pos hProof b X = Some (r, X')"
  shows "kept E b X X'"
proof -
  have h: "bn_map X (CBlock_GetHash E b) = None" using assms(2) by (simp add: ready_def)
  from assms(3) h show ?thesis
  proof (cases rule: AddToBlockIndex_cases)
    case (entry e)
    with assms(1) same_rest_refl show ?thesis by (simp add: kept_def node_ok_def)
  next
    case (refused p)
    have "put_entry (CBlock_GetHash E b) p X = (put_entry (CBlock_GetHash E b) p X)\<lparr>bn_state := entered (CBlock_GetHash E b) p (ns_db (bn_state X)) X\<rparr>"
      by (simp flip: bn_state_put)
    with kept_stored [OF assms(1,2) refused(1) refl refl] store_entry_refused [OF refused(2)] refused(4) show ?thesis by simp
  next
    case (side p D)
    with kept_stored [OF assms(1,2) side(1) store_entry_coins [OF side(2)]] show ?thesis by simp
  next
    case (best p D s)
    from kept_best [OF assms(1,2) best(1-4)] best(5) show ?thesis by simp
  qed
qed

end
