(* ===== verification/NodeRuns.thy ===== *)
theory NodeRuns
  imports AcceptInv
begin

text \<open>
  Runs of the node: blocks that are processed, transactions that are offered to the memory pool and the
  passing of time, in any order. What \<^verbatim>\<open>AcceptBlock\<close> keeps is carried through the queue of orphans and
  \<^verbatim>\<open>ProcessBlock\<close> to every run, which gives the rule of the chain: as long as no chain was found invalid
  the best block is a block of greatest trust and the stored coins are those of its chain.
\<close>

section \<open>Blocks that may be accepted\<close>

text \<open>What \<^verbatim>\<open>CheckBlock\<close> has established when a block is accepted or kept as an orphan.\<close>

definition clean_block :: "env \<Rightarrow> node_params \<Rightarrow> CBlock \<Rightarrow> bool" where
  "clean_block E N b \<longleftrightarrow> wire_block b \<and> (IsProofOfWork b \<longrightarrow> CheckProofOfWork E N (CBlock_GetHash E b) (nBits b))"

lemma checked_clean_block: "CheckBlock E N b True True True = Inr () \<Longrightarrow> clean_block E N b"
  using wire_block_checked(1) by (auto simp: clean_block_def CheckBlock_def split: if_splits)

lemma CheckProofOfWork_net: "fTestNet N = fTestNet N' \<Longrightarrow> CheckProofOfWork E N = CheckProofOfWork E N'"
  by (simp add: fun_eq_iff CheckProofOfWork_def bnProofOfWorkLimit_def)

lemma clean_block_net: "clean_block E N b \<Longrightarrow> fTestNet N' = fTestNet N \<Longrightarrow> clean_block E N' b"
  using CheckProofOfWork_net [of N' N E] by (simp add: clean_block_def)

lemma AppendBlockFile_bytes: "bf_bytes (snd (AppendBlockFile d)) = bf_bytes d \<and> bf_opens (snd (AppendBlockFile d)) = bf_opens d"
proof (induction d rule: AppendBlockFile.induct)
  case (1 d)
  show ?case
  proof (cases "OpenBlockFile d (nCurrentBlockFile d)")
    case None
    then show ?thesis by (simp add: AppendBlockFile.simps [of d])
  next
    case (Some bytes)
    show ?thesis
    proof (cases "length bytes < 0x7F000000 - MAX_SIZE")
      case True
      with Some show ?thesis by (simp add: AppendBlockFile.simps [of d])
    next
      case False
      then have "AppendBlockFile d = AppendBlockFile (d\<lparr>nCurrentBlockFile := nCurrentBlockFile d + 1\<rparr>)"
        unfolding AppendBlockFile.simps [of d] Some by simp
      with "1.IH" [OF Some False] show ?thesis by simp
    qed
  qed
qed

lemma WriteToDisk_grows:
  assumes "WriteToDisk N b d = (r, d')"
  shows "files_grow d d'"
proof (cases r)
  case None
  with assms have "d' = snd (AppendBlockFile d)" by (auto simp: WriteToDisk_def Let_def split: prod.splits option.splits)
  then show ?thesis by (simp add: files_grow_def AppendBlockFile_bytes)
next
  case (Some p)
  with assms WriteToDisk_spec(1) show ?thesis by (metis surj_pair)
qed

lemma written_block:
  assumes "WriteToDisk N b d = (Some (f, pos), d')" and "wire_block b"
  shows "f \<noteq> - 1" and "read_block d' f pos = Some b"
proof -
  note w = WriteToDisk_spec [OF assms(1)]
  show "f \<noteq> - 1" by (rule w(2))
  show "read_block d' f pos = Some b" using w(3,5) assms(2) block.unser_ser [of b "[]"] by (simp add: read_block_def)
qed

section \<open>Accepting a block\<close>

text \<open>How the two trusts move, without any assumption on the state.\<close>

definition grows :: "block_node \<Rightarrow> block_node \<Rightarrow> bool" where
  "grows X X' \<longleftrightarrow>
     bn_sync X' = bn_sync X \<and> bn_commit X' = bn_commit X \<and> fTestNet (bn_params X') = fTestNet (bn_params X) \<and>
     nBestChainTrust (bn_state X) \<le> nBestChainTrust (bn_state X') \<and> nBestInvalidTrust (bn_state X) \<le> nBestInvalidTrust (bn_state X')"

lemma grows_refl: "grows X X"
  by (simp add: grows_def)

lemma grows_trans: "grows X Y \<Longrightarrow> grows Y Z \<Longrightarrow> grows X Z"
  by (simp add: grows_def) (meson order_trans)

lemma AddToBlockIndex_grows:
  assumes "AddToBlockIndex n E f pos hProof b X = Some (r, X')" and "bn_map X (CBlock_GetHash E b) = None"
  shows "grows X X'"
  using assms
proof (cases rule: AddToBlockIndex_cases)
  case (entry e)
  then show ?thesis by (simp add: grows_refl)
next
  case (refused p)
  then show ?thesis by (simp add: grows_def put_entry_def)
next
  case (side p D)
  then show ?thesis by (simp add: grows_def put_entry_def entered_def)
next
  case (best p D s)
  have t: "node_trust ((bn_map X)(CBlock_GetHash E b \<mapsto> p)) (CBlock_GetHash E b) = nChainTrust p" by (simp add: node_trust_insert)
  let ?S = "case s of Inl S \<Rightarrow> S | Inr S \<Rightarrow> S"
  have "nBestChainTrust (bn_state X) \<le> nBestChainTrust ?S \<and> nBestInvalidTrust (bn_state X) \<le> nBestInvalidTrust ?S \<and>
      fTestNet (ns_params ?S) = fTestNet (bn_params X)"
    using SetBestChain_tree [OF best(4)] less_imp_le [OF best(3)] t by (simp add: same_tree_def split: sum.splits)
  then show ?thesis unfolding best(5) grows_def by (simp add: put_entry_def)
qed

text \<open>The state in which the written block is added to the index.\<close>

lemma node_ok_files:
  assumes "node_ok E X" and "files_grow (bn_files X) d"
  shows "node_ok E (put_files d (X\<lparr>bn_state := (bn_state X)\<lparr>ns_cache := C\<rparr>\<rparr>))"
proof -
  let ?Y = "put_files d (X\<lparr>bn_state := (bn_state X)\<lparr>ns_cache := C\<rparr>\<rparr>)"
  have "chain_sync E (node_io ?Y) (bn_state X)"
    by (rule chain_sync_reads [of _ "node_io X"]) (use assms files_grow_block in \<open>auto simp: node_ok_def synced_def put_files_def\<close>)
  then have "chain_sync E (node_io ?Y) (bn_state ?Y)"
    by (simp add: chain_sync_def put_files_def utxo_def ReadTxIndex_def split: option.splits)
  moreover have "best_sync (bn_state ?Y)" using assms(1) by (simp add: node_ok_def put_files_def best_sync_def)
  ultimately show ?thesis using assms(1) by (simp add: node_ok_def synced_def put_files_def)
qed

lemma accept_checks_context: "accept_checks n E b X = Some (Inr r) \<Longrightarrow> accept_context E b X = Inr ()"
  by (cases "accept_context E b X") (auto simp: accept_checks_def)

lemma accept_context_new:
  assumes "accept_context E b X = Inr ()"
  shows "bn_map X (CBlock_GetHash E b) = None" and "bn_map X (hashPrevBlock b) \<noteq> None"
  using assms by (auto simp: accept_context_def Let_def split: if_splits)

text \<open>The outcomes of \<^verbatim>\<open>AcceptBlock\<close>.\<close>

lemma AcceptBlock_cases:
  assumes "AcceptBlock n E b X = Some (r, X')"
  obtains (checks) e where "accept_checks n E b X = Some (Inl e)" and "r = Some e" and "X' = X"
    | (space) C where "r = Some (Rejected 0)" and "X' = X\<lparr>bn_state := (bn_state X)\<lparr>ns_cache := C\<rparr>\<rparr>"
    | (disk) C d where "r = Some (Rejected 0)" and "files_grow (bn_files X) d" and "X' = put_files d (X\<lparr>bn_state := (bn_state X)\<lparr>ns_cache := C\<rparr>\<rparr>)"
    | (failed) C f pos hProof d e where "accept_checks n E b X = Some (Inr (hProof, C))"
      and "WriteToDisk (bn_params X) b (bn_files X) = (Some (f, pos), d)"
      and "AddToBlockIndex n E f pos hProof b (put_files d (X\<lparr>bn_state := (bn_state X)\<lparr>ns_cache := C\<rparr>\<rparr>)) = Some (Some e, X')"
      and "r \<noteq> None"
    | (added) C f pos hProof d X1 ok S st where "accept_checks n E b X = Some (Inr (hProof, C))"
      and "WriteToDisk (bn_params X) b (bn_files X) = (Some (f, pos), d)"
      and "AddToBlockIndex n E f pos hProof b (put_files d (X\<lparr>bn_state := (bn_state X)\<lparr>ns_cache := C\<rparr>\<rparr>)) = Some (None, X1)"
      and "AcceptPendingSyncCheckpoint n E (node_io X1) (bn_state X1) (bn_sync X1) = Some (ok, S, st)"
      and "X' = X1\<lparr>bn_state := S, bn_sync := st\<rparr>" and "r = None"
proof -
  obtain a where a: "accept_checks n E b X = Some a" using assms by (auto simp: AcceptBlock_def split: option.splits)
  show thesis
  proof (cases a)
    case (Inl e)
    with a assms show thesis by (intro checks) (auto simp: AcceptBlock_def)
  next
    case (Inr hC)
    obtain hProof C where hC: "hC = (hProof, C)" by (cases hC)
    let ?X0 = "X\<lparr>bn_state := (bn_state X)\<lparr>ns_cache := C\<rparr>\<rparr>"
    note A = assms [unfolded AcceptBlock_def a Inr hC option.case sum.case prod.case Let_def]
    obtain w d where w: "WriteToDisk (bn_params X) b (bn_files X) = (w, d)" by (metis surj_pair)
    consider "\<not> CheckDiskSpace (nFreeBytesAvailable X) (GetSerializeSize_CBlock b)"
      | "CheckDiskSpace (nFreeBytesAvailable X) (GetSerializeSize_CBlock b)" "w = None"
      | f pos where "CheckDiskSpace (nFreeBytesAvailable X) (GetSerializeSize_CBlock b)" "w = Some (f, pos)"
      by (metis option.exhaust surj_pair)
    then show thesis
    proof cases
      case 1
      with A show thesis by (intro space [of C]) auto
    next
      case 2
      with A w show thesis by (intro disk [OF _ WriteToDisk_grows [OF w], of C]) auto
    next
      case 3
      note A = A [unfolded w 3(2) prod.case option.case]
      obtain r1 X1 where B: "AddToBlockIndex n E f pos hProof b (put_files d ?X0) = Some (r1, X1)"
        using A 3(1) by (cases "AddToBlockIndex n E f pos hProof b (put_files d ?X0)") auto
      note added = added [OF a [unfolded Inr hC] w [unfolded 3(2)]] and failed = failed [OF a [unfolded Inr hC] w [unfolded 3(2)]]
      note A = A [unfolded B option.case prod.case]
      show thesis using A 3(1) added failed B by (cases r1) (auto split: option.splits failure.splits)
    qed
  qed
qed

lemma AcceptPending_none:
  "hashPendingCheckpoint st = 0 \<Longrightarrow> AcceptPendingSyncCheckpoint n E io S st = Some (False, S, st)"
  by (simp add: AcceptPendingSyncCheckpoint_def Let_def)

lemma checked_new:
  "accept_checks n E b X = Some (Inr r) \<Longrightarrow> bn_map (put_files d (X\<lparr>bn_state := (bn_state X)\<lparr>ns_cache := C\<rparr>\<rparr>)) (CBlock_GetHash E b) = None"
  using accept_context_new(1) [OF accept_checks_context] by (simp add: put_files_def)

lemma AcceptBlock_quiet:
  assumes "AcceptBlock n E b X = Some (r, X')" and "hashPendingCheckpoint (bn_sync X) = 0"
  obtains (checks) "X' = X"
    | (space) C where "X' = X\<lparr>bn_state := (bn_state X)\<lparr>ns_cache := C\<rparr>\<rparr>"
    | (disk) C d where "files_grow (bn_files X) d" and "X' = put_files d (X\<lparr>bn_state := (bn_state X)\<lparr>ns_cache := C\<rparr>\<rparr>)"
    | (added) r' C f pos hProof d where "accept_checks n E b X = Some (Inr (hProof, C))"
      and "WriteToDisk (bn_params X) b (bn_files X) = (Some (f, pos), d)"
      and "AddToBlockIndex n E f pos hProof b (put_files d (X\<lparr>bn_state := (bn_state X)\<lparr>ns_cache := C\<rparr>\<rparr>)) = Some (r', X')"
  using assms(1)
proof (cases rule: AcceptBlock_cases)
  case (added C f pos hProof d X1 ok S st)
  have "bn_sync X1 = bn_sync X" using AddToBlockIndex_grows [OF added(3) checked_new [OF added(1)]] by (simp add: grows_def put_files_def)
  with assms(2) added(4) have "S = bn_state X1" "st = bn_sync X1" by (simp_all add: AcceptPending_none)
  with added show thesis by (intro that(4) [OF added(1,2)]) simp
qed (use that in blast)+

lemma AcceptBlock_grows:
  assumes "AcceptBlock n E b X = Some (r, X')" and "hashPendingCheckpoint (bn_sync X) = 0"
  shows "grows X X'"
  using assms
proof (cases rule: AcceptBlock_quiet)
  case (added r' C f pos hProof d)
  from AddToBlockIndex_grows [OF added(3) checked_new [OF added(1)]] show ?thesis by (simp add: grows_def put_files_def)
qed (simp_all add: grows_def put_files_def)

section \<open>What every step keeps\<close>

text \<open>
  The invariant of a node whose commits succeed: the coins on disk are those of the best chain, which no
  known chain beats but one that was found invalid; \<open>B\<close> is a trust the best chain has reached.
\<close>

definition orphans_clean :: "env \<Rightarrow> block_node \<Rightarrow> bool" where
  "orphans_clean E X \<longleftrightarrow> (\<forall>(k, b) \<in> set (mapOrphanBlocksByPrev X). clean_block E (bn_params X) b)"

definition calm :: "env \<Rightarrow> block_node \<Rightarrow> bool" where
  "calm E X \<longleftrightarrow> hashPendingCheckpoint (bn_sync X) = 0 \<and> (\<forall>D. bn_commit X D)"

definition node_inv :: "env \<Rightarrow> u256 \<Rightarrow> block_node \<Rightarrow> bool" where
  "node_inv E B X \<longleftrightarrow> node_ok E X \<and> heaviest (bn_state X) \<and> B \<le> nBestChainTrust (bn_state X)"

text \<open>From one state to another the invariant is kept if at the end no chain heavier than \<open>B\<close> was found invalid.\<close>

definition carries :: "env \<Rightarrow> u256 \<Rightarrow> block_node \<Rightarrow> block_node \<Rightarrow> bool" where
  "carries E B X X' \<longleftrightarrow> grows X X' \<and> (node_inv E B X \<longrightarrow> nBestInvalidTrust (bn_state X') \<le> B \<longrightarrow> node_inv E B X')"

lemma carries_trans:
  assumes "carries E B X Y" and "carries E B Y Z"
  shows "carries E B X Z"
proof -
  have "nBestInvalidTrust (bn_state Y) \<le> nBestInvalidTrust (bn_state Z)" using assms(2) by (simp add: carries_def grows_def)
  with assms show ?thesis unfolding carries_def using grows_trans order_trans by blast
qed

lemma carries_calm: "carries E B X Y \<Longrightarrow> calm E X \<Longrightarrow> calm E Y"
  by (simp add: carries_def grows_def calm_def)

lemma carries_net: "carries E B X Y \<Longrightarrow> fTestNet (bn_params Y) = fTestNet (bn_params X)"
  by (simp add: carries_def grows_def)

text \<open>Changes of the state that the invariant does not look at.\<close>

lemma chain_sync_memory:
  "fTestNet N = fTestNet (ns_params S) \<Longrightarrow> chain_sync E io (S\<lparr>ns_params := N, ns_pool := pool, ns_cache := C\<rparr>) = chain_sync E io S"
proof -
  assume n: "fTestNet N = fTestNet (ns_params S)"
  have "ReadFromDisk E N = ReadFromDisk E (ns_params S)" unfolding ReadFromDisk_def [abs_def] CheckProofOfWork_net [OF n] ..
  then show ?thesis by (simp add: chain_sync_def split: option.split)
qed

lemma carries_memory:
  assumes "bn_sync X' = bn_sync X" and "bn_commit X' = bn_commit X" and "bn_files X' = bn_files X"
    and "bn_state X' = (bn_state X)\<lparr>ns_params := N, ns_pool := pool, ns_cache := C\<rparr>" and "fTestNet N = fTestNet (bn_params X)"
  shows "carries E B X X'"
proof -
  have "node_io X' = node_io X" using assms(2,3) by (simp add: node_io_def)
  then have "node_ok E X' = node_ok E X"
    unfolding node_ok_def synced_def assms(4) chain_sync_memory [OF assms(5)] by (simp add: best_sync_def)
  then show ?thesis unfolding carries_def node_inv_def grows_def using assms by (simp add: heaviest_def)
qed

lemma carries_same:
  "bn_sync X' = bn_sync X \<Longrightarrow> bn_commit X' = bn_commit X \<Longrightarrow> bn_files X' = bn_files X \<Longrightarrow> bn_state X' = bn_state X \<Longrightarrow> carries E B X X'"
  by (rule carries_memory [where N = "bn_params X" and pool = "ns_pool (bn_state X)" and C = "ns_cache (bn_state X)"]) simp_all

lemma carries_files:
  assumes "files_grow (bn_files X) d"
  shows "carries E B X (put_files d (X\<lparr>bn_state := (bn_state X)\<lparr>ns_cache := C\<rparr>\<rparr>))"
proof -
  let ?Y = "put_files d (X\<lparr>bn_state := (bn_state X)\<lparr>ns_cache := C\<rparr>\<rparr>)"
  have "node_ok E X \<longrightarrow> node_ok E ?Y" using node_ok_files [OF _ assms] by blast
  moreover have "heaviest (bn_state ?Y) = heaviest (bn_state X)" by (simp add: heaviest_def put_files_def)
  ultimately show ?thesis by (simp add: carries_def node_inv_def grows_def put_files_def)
qed

lemma AddToBlockIndex_carries:
  assumes "AddToBlockIndex n E f pos hProof b X = Some (r, X')" and "ready E f pos b X" and "calm E X"
  shows "carries E B X X'"
proof -
  have g: "grows X X'" using AddToBlockIndex_grows [OF assms(1)] assms(2) by (simp add: ready_def)
  have "node_inv E B X'" if i: "node_inv E B X" and le: "nBestInvalidTrust (bn_state X') \<le> B"
  proof -
    have k: "kept E b X X'" using AddToBlockIndex_kept [OF _ assms(2,1)] i by (simp add: node_inv_def)
    have inv: "nBestInvalidTrust (bn_state X) \<le> nBestChainTrust (bn_state X)"
      using g le i by (simp add: grows_def node_inv_def) (meson order_trans)
    have "node_trust (bn_map X) (hashPrevBlock b) \<le> nBestChainTrust (bn_state X)"
      using i inv unfolding node_inv_def heaviest_def by (meson order_trans)
    with k assms(3) i have "node_ok E X'" "heaviest (bn_state X')" by (simp_all add: kept_def node_ok_def node_inv_def calm_def)
    moreover have "B \<le> nBestChainTrust (bn_state X')" using g i by (simp add: grows_def node_inv_def) (meson order_trans)
    ultimately show ?thesis by (simp add: node_inv_def)
  qed
  with g show ?thesis by (simp add: carries_def)
qed

lemma AcceptBlock_carries:
  assumes "AcceptBlock n E b X = Some (r, X')" and "clean_block E (bn_params X) b" and "calm E X"
  shows "carries E B X X'"
proof -
  have "hashPendingCheckpoint (bn_sync X) = 0" using assms(3) by (simp add: calm_def)
  from assms(1) this show ?thesis
  proof (cases rule: AcceptBlock_quiet)
    case checks
    then show ?thesis by (simp add: carries_same)
  next
    case (space C)
    then show ?thesis
      by (intro carries_memory [where N = "bn_params X" and pool = "ns_pool (bn_state X)" and C = C]) simp_all
  next
    case (disk C d)
    then show ?thesis by (simp add: carries_files)
  next
    case (added r' C f pos hProof d)
    let ?Y = "put_files d (X\<lparr>bn_state := (bn_state X)\<lparr>ns_cache := C\<rparr>\<rparr>)"
    note c = accept_context_new [OF accept_checks_context [OF added(1)]]
    have p: "carries E B X ?Y" by (rule carries_files [OF WriteToDisk_grows [OF added(2)]])
    have "ready E f pos b ?Y"
      using c written_block [OF added(2)] assms(2) by (simp add: ready_def clean_block_def put_files_def)
    from carries_trans [OF p AddToBlockIndex_carries [OF added(3) this carries_calm [OF p assms(3)]]] show ?thesis .
  qed
qed

section \<open>Orphans and the processing of a block\<close>

text \<open>Accepting a block leaves the orphans alone and adds no entry but its own.\<close>

definition same_orphans :: "env \<Rightarrow> CBlock \<Rightarrow> block_node \<Rightarrow> block_node \<Rightarrow> bool" where
  "same_orphans E b X X' \<longleftrightarrow>
     mapOrphanBlocks X' = mapOrphanBlocks X \<and> mapOrphanBlocksByPrev X' = mapOrphanBlocksByPrev X \<and> setStakeSeenOrphan X' = setStakeSeenOrphan X \<and>
     dom (bn_map X') \<subseteq> insert (CBlock_GetHash E b) (dom (bn_map X))"

lemma AddToBlockIndex_orphans:
  assumes "AddToBlockIndex n E f pos hProof b X = Some (r, X')" and "bn_map X (CBlock_GetHash E b) = None"
  shows "same_orphans E b X X'"
  using assms
proof (cases rule: AddToBlockIndex_cases)
  case (best p D s)
  let ?S = "case s of Inl S \<Rightarrow> S | Inr S \<Rightarrow> S"
  have "tree (mapBlockIndex ?S) = tree ((bn_map X)(CBlock_GetHash E b \<mapsto> p))"
    using SetBestChain_tree [OF best(4)] by (simp add: same_tree_def split: sum.splits)
  from tree_dom [OF this] show ?thesis unfolding best(5) same_orphans_def by (simp add: put_entry_def)
qed (simp_all add: same_orphans_def put_entry_def entered_def subset_insertI)

lemma switch_to_tree:
  "switch_to n E io h S = Some r \<Longrightarrow> (case r of Inl (_, S') \<Rightarrow> S' | Inr S' \<Rightarrow> S') = S' \<Longrightarrow>
     tree (mapBlockIndex S') = tree (mapBlockIndex S) \<and> fTestNet (ns_params S') = fTestNet (ns_params S)"
  by (auto simp: switch_to_def same_tree_def split: if_splits option.splits sum.splits dest!: SetBestChain_tree)

lemma AcceptPending_tree:
  assumes "AcceptPendingSyncCheckpoint n E io S st = Some (ok, S', st')"
  shows "tree (mapBlockIndex S') = tree (mapBlockIndex S)" and "fTestNet (ns_params S') = fTestNet (ns_params S)"
proof -
  have "tree (mapBlockIndex S') = tree (mapBlockIndex S) \<and> fTestNet (ns_params S') = fTestNet (ns_params S)"
    using assms unfolding AcceptPendingSyncCheckpoint_def Let_def
    by (auto split: if_splits prod.splits bool.splits option.splits sum.splits dest!: switch_to_tree)
  then show "tree (mapBlockIndex S') = tree (mapBlockIndex S)" "fTestNet (ns_params S') = fTestNet (ns_params S)" by simp_all
qed

lemma ProcessSync_tree:
  assumes "ProcessSyncCheckpoint n E io c S st = Some (r, S', st')"
  shows "tree (mapBlockIndex S') = tree (mapBlockIndex S)" and "fTestNet (ns_params S') = fTestNet (ns_params S)"
proof -
  have "tree (mapBlockIndex S') = tree (mapBlockIndex S) \<and> fTestNet (ns_params S') = fTestNet (ns_params S)"
    using assms unfolding ProcessSyncCheckpoint_def Let_def
    by (auto split: if_splits prod.splits bool.splits option.splits sum.splits failure.splits dest!: switch_to_tree)
  then show "tree (mapBlockIndex S') = tree (mapBlockIndex S)" "fTestNet (ns_params S') = fTestNet (ns_params S)" by simp_all
qed

lemma AcceptBlock_orphans:
  assumes "AcceptBlock n E b X = Some (r, X')"
  shows "same_orphans E b X X'"
  using assms
proof (cases rule: AcceptBlock_cases)
  case (failed C f pos hProof d e)
  from AddToBlockIndex_orphans [OF failed(3) checked_new [OF failed(1)]] show ?thesis by (simp add: same_orphans_def put_files_def)
next
  case (added C f pos hProof d X1 ok S st)
  from AddToBlockIndex_orphans [OF added(3) checked_new [OF added(1)]] tree_dom [OF AcceptPending_tree(1) [OF added(4)]] added(5)
  show ?thesis by (simp add: same_orphans_def put_files_def)
qed (simp_all add: same_orphans_def put_files_def subset_insertI)

lemma process_checked_cases:
  assumes "process_checked n E b wanted fSeen X = Some (r, X')"
  obtains (refused) e where "r = Some e" and "X' = X"
    | (orphan) "r = None" and "X' = keep_orphan E b X" and "bn_map X (hashPrevBlock b) = None"
    | (failed) e where "r = Some e" and "AcceptBlock n E b X = Some (Some e, X')"
    | (accepted) X1 where "AcceptBlock n E b X = Some (None, X1)"
      and "orphan_loop n E [CBlock_GetHash E b] (mapOrphanBlocksByPrev X1) X1 = Some (r, X')"
proof (cases "bn_map X (hashPrevBlock b)")
  case None
  with assms show thesis using refused orphan by (auto simp: process_checked_def Let_def split: if_splits)
next
  case (Some p)
  note A = assms [unfolded process_checked_def Let_def Some option.distinct(2) if_False]
  show thesis
  proof (cases "AcceptBlock n E b X")
    case None
    with A show thesis using refused by (auto split: if_splits)
  next
    case (Some a)
    obtain r1 X1 where a: "AcceptBlock n E b X = Some (r1, X1)" using Some by (cases a) simp
    show thesis using A [unfolded a option.case prod.case] a refused failed accepted by (cases r1) (auto split: if_splits)
  qed
qed

lemma ProcessBlock_cases:
  assumes "ProcessBlock n E b X = Some (r, X')"
  obtains (refused) e where "r = Some e" and "X' = X"
    | (checked) wanted fSeen where "CheckBlock E (bn_params X) b True True True = Inr ()" and "bn_map X (CBlock_GetHash E b) = None"
      and "mapOrphanBlocks X (CBlock_GetHash E b) = None" and "process_checked n E b wanted fSeen X = Some (r, X')"
  using assms unfolding ProcessBlock_def Let_def by (auto split: if_splits option.splits sum.splits)

section \<open>Runs\<close>

text \<open>The positions of the best chain, which admission to the memory pool looks at.\<close>

definition best_positions :: "node_state \<Rightarrow> CBlockPos list" where
  "best_positions S =
     (case pindexBest S of None \<Rightarrow> [] | Some t \<Rightarrow> map CBlockPos.truncate (entries (mapBlockIndex S) (chain_from (mapBlockIndex S) t)))"

text \<open>
  A block arrives; a transaction arrives and is admitted to the pool or not; time passes and the free
  space on the disk changes.
\<close>

inductive node_step :: "env \<Rightarrow> block_node \<Rightarrow> block_node \<Rightarrow> bool" for E where
  block_received: "ProcessBlock n E b X = Some (r, X') \<Longrightarrow> node_step E X X'"
| tx_admitted: "accept E (bn_params X) (ns_cache (bn_state X)) (cd_tx (ns_db (bn_state X))) (ns_pool (bn_state X))
      (best_positions (bn_state X)) limited tx True = Inr (pool, C) \<Longrightarrow>
    node_step E X (X\<lparr>bn_state := (bn_state X)\<lparr>ns_pool := pool, ns_cache := C\<rparr>\<rparr>)"
| tx_refused: "accept E (bn_params X) (ns_cache (bn_state X)) (cd_tx (ns_db (bn_state X))) (ns_pool (bn_state X))
      (best_positions (bn_state X)) limited tx True = Inl (e, missing, C) \<Longrightarrow>
    node_step E X (X\<lparr>bn_state := (bn_state X)\<lparr>ns_cache := C\<rparr>\<rparr>)"
| time_passed: "node_step E X (X\<lparr>nFreeBytesAvailable := k, bn_state := (bn_state X)\<lparr>ns_params := (bn_params X)\<lparr>AdjustedTime := t\<rparr>\<rparr>\<rparr>)"

section \<open>Invariants of runs\<close>

text \<open>
  An invariant is carried from \<^verbatim>\<open>AcceptBlock\<close> to every run: \<open>clean\<close> is what a block must satisfy to be accepted,
  which a checked block does, and the last law says that the invariant does not look at the orphans, the
  memory pool, the signature cache or the clock.
\<close>

locale node_invariant =
  fixes E :: env and clean :: "CBlock \<Rightarrow> bool" and I :: "block_node \<Rightarrow> bool"
  assumes accepts: "AcceptBlock n E b X = Some (r, X') \<Longrightarrow> clean b \<Longrightarrow> I X \<Longrightarrow> I X'"
    and checked_clean: "CheckBlock E (bn_params X) b True True True = Inr () \<Longrightarrow> I X \<Longrightarrow> clean b"
    and memory: "I X \<Longrightarrow> bn_sync X' = bn_sync X \<Longrightarrow> bn_commit X' = bn_commit X \<Longrightarrow> bn_files X' = bn_files X \<Longrightarrow>
      bn_state X' = (bn_state X)\<lparr>ns_params := N, ns_pool := pool, ns_cache := C\<rparr> \<Longrightarrow> fTestNet N = fTestNet (bn_params X) \<Longrightarrow> I X'"
begin

definition holds :: "block_node \<Rightarrow> bool" where
  "holds X \<longleftrightarrow> I X \<and> (\<forall>(k, b) \<in> set (mapOrphanBlocksByPrev X). clean b)"

lemma same_state: "I X \<Longrightarrow> bn_sync X' = bn_sync X \<Longrightarrow> bn_commit X' = bn_commit X \<Longrightarrow> bn_files X' = bn_files X \<Longrightarrow> bn_state X' = bn_state X \<Longrightarrow> I X'"
  by (rule memory [where X = X and N = "bn_params X" and pool = "ns_pool (bn_state X)" and C = "ns_cache (bn_state X)"]) simp_all

lemma children: "accept_children n E bs X = Some (e, hs, X') \<Longrightarrow> \<forall>b \<in> set bs. clean b \<Longrightarrow> I X \<Longrightarrow> I X'"
proof (induction bs arbitrary: X e hs)
  case (Cons b bs)
  obtain r X1 where a: "AcceptBlock n E b X = Some (r, X1)" using Cons.prems(1) by (auto split: option.splits)
  have x: "I X1" using accepts [OF a] Cons.prems by simp
  show ?case
  proof (cases "r = Some Thrown \<or> r = Some Aborted")
    case True
    with Cons.prems(1) a x show ?thesis by auto
  next
    case False
    let ?Y = "X1\<lparr>mapOrphanBlocks := (mapOrphanBlocks X1)(CBlock_GetHash E b := None),
        setStakeSeenOrphan := setStakeSeenOrphan X1 - {GetProofOfStake b}\<rparr>"
    obtain hs' where h: "accept_children n E bs ?Y = Some (e, hs', X')" using Cons.prems(1) a False by (auto split: option.splits)
    have "I ?Y" by (rule same_state [OF x]) simp_all
    with Cons.IH [OF h] Cons.prems(2) show ?thesis by simp
  qed
qed simp

lemma loop:
  assumes "orphan_loop n F hs os X = Some (r, X')" and "\<forall>(k, b) \<in> set os. clean b" and "I X" and "F = E"
  shows "I X' \<and> set (mapOrphanBlocksByPrev X') \<subseteq> set os"
  using assms
proof (induction n F hs os X rule: orphan_loop.induct)
  case (1 n F os X)
  then have "X' = X\<lparr>mapOrphanBlocksByPrev := os\<rparr>" by simp
  with same_state [OF "1.prems"(3), of X'] show ?case by simp
next
  case (2 n F h hs os X)
  let ?bs = "map snd (filter (\<lambda>(k, _). k = h) os)"
  obtain e hs' X1 where a: "accept_children n E ?bs X = Some (e, hs', X1)"
    using "2.prems"(1,4) by (auto simp: orphan_loop.simps(2) split: option.splits)
  have x: "I X1" by (rule children [OF a _ "2.prems"(3)]) (use "2.prems"(2) in auto)
  show ?case
  proof (cases e)
    case (Some f)
    with "2.prems"(1,4) a have "X' = X1\<lparr>mapOrphanBlocksByPrev := os\<rparr>" by (auto simp: orphan_loop.simps(2))
    with same_state [OF x, of X'] show ?thesis by simp
  next
    case None
    with "2.prems"(1,4) a have l: "orphan_loop n F (hs @ hs') (filter (\<lambda>(k, _). k \<noteq> h) os) X1 = Some (r, X')" by (simp add: orphan_loop.simps(2))
    have "\<forall>(k, b) \<in> set (filter (\<lambda>(k, _). k \<noteq> h) os). clean b" using "2.prems"(2) by auto
    from "2.IH" [OF a [folded "2.prems"(4)] refl None refl l this x "2.prems"(4)] show ?thesis by auto
  qed
qed

lemma process:
  assumes "ProcessBlock n E b X = Some (r, X')" and "holds X"
  shows "holds X'"
  using assms(1)
proof (cases rule: ProcessBlock_cases)
  case (checked wanted fSeen)
  have x: "I X" and c: "clean b" using assms(2) checked_clean [OF checked(1)] by (simp_all add: holds_def)
  have keeps: "holds Y" if y: "AcceptBlock n E b X = Some (q, Y)" for q Y
    using accepts [OF y c x] AcceptBlock_orphans [OF y] assms(2) by (simp add: holds_def same_orphans_def)
  from checked(4) show ?thesis
  proof (cases rule: process_checked_cases)
    case (orphan)
    with assms(2) c same_state [OF x, of X'] show ?thesis by (auto simp: holds_def keep_orphan_def)
  next
    case (accepted X1)
    from keeps [OF accepted(1)] loop [OF accepted(2) _ _ refl] show ?thesis by (auto simp: holds_def)
  qed (use assms(2) keeps in blast)+
qed (use assms(2) in simp)

lemma step:
  assumes "node_step E X X'" and "holds X"
  shows "holds X'"
proof -
  have x: "I X" using assms(2) by (simp add: holds_def)
  from assms(1) show ?thesis
  proof cases
    case (block_received n b r)
    from process [OF block_received assms(2)] show ?thesis .
  next
    case (tx_admitted limited tx pool C)
    have "I X'" by (rule memory [where N = "bn_params X" and pool = pool and C = C, OF x]) (simp_all add: tx_admitted)
    with assms(2) tx_admitted show ?thesis by (simp add: holds_def)
  next
    case (tx_refused limited tx e missing C)
    have "I X'" by (rule memory [where N = "bn_params X" and pool = "ns_pool (bn_state X)" and C = C, OF x]) (simp_all add: tx_refused)
    with assms(2) tx_refused show ?thesis by (simp add: holds_def)
  next
    case (time_passed t k)
    have "I X'"
      by (rule memory [where N = "(bn_params X)\<lparr>AdjustedTime := t\<rparr>" and pool = "ns_pool (bn_state X)" and C = "ns_cache (bn_state X)", OF x])
        (simp_all add: time_passed)
    with assms(2) time_passed show ?thesis by (simp add: holds_def)
  qed
qed

lemma run: "(node_step E)\<^sup>*\<^sup>* X X' \<Longrightarrow> holds X \<Longrightarrow> holds X'"
  by (induction rule: rtranclp_induct) (auto intro: step)

end

text \<open>Checkpoint messages may force another chain; some invariants survive them too.\<close>

inductive any_step :: "env \<Rightarrow> block_node \<Rightarrow> block_node \<Rightarrow> bool" for E where
  without_checkpoint: "node_step E X X' \<Longrightarrow> any_step E X X'"
| checkpoint_received: "ProcessSyncCheckpoint n E (node_io X) c (bn_state X) (bn_sync X) = Some (r, S, st) \<Longrightarrow>
    any_step E X (X\<lparr>bn_state := S, bn_sync := st\<rparr>)"

locale checkpoint_invariant = node_invariant +
  assumes checkpoint: "ProcessSyncCheckpoint n E (node_io X) c (bn_state X) (bn_sync X) = Some (r, S, st) \<Longrightarrow> I X \<Longrightarrow> I (X\<lparr>bn_state := S, bn_sync := st\<rparr>)"
begin

lemma any_one: "any_step E X X' \<Longrightarrow> holds X \<Longrightarrow> holds X'"
proof (induction rule: any_step.induct)
  case (checkpoint_received n X c r S st)
  then show ?case using checkpoint by (simp add: holds_def)
qed (rule step)

lemma any_run: "(any_step E)\<^sup>*\<^sup>* X X' \<Longrightarrow> holds X \<Longrightarrow> holds X'"
  by (induction rule: rtranclp_induct) (auto intro: any_one)

end

text \<open>The rule of the chain is such an invariant, on the network \<open>t\<close> and with \<open>B\<close> as the bound on invalid chains.\<close>

definition chain_rule :: "env \<Rightarrow> node_params \<Rightarrow> u256 \<Rightarrow> block_node \<Rightarrow> bool" where
  "chain_rule E N B X \<longleftrightarrow>
     calm E X \<and> fTestNet (bn_params X) = fTestNet N \<and> (nBestInvalidTrust (bn_state X) \<le> B \<longrightarrow> node_inv E B X)"

lemma carries_rule:
  assumes "carries E B X X'" and "chain_rule E N B X"
  shows "chain_rule E N B X'"
proof -
  have "nBestInvalidTrust (bn_state X) \<le> nBestInvalidTrust (bn_state X')" using assms(1) by (simp add: carries_def grows_def)
  with assms carries_calm [OF assms(1)] carries_net [OF assms(1)] show ?thesis
    unfolding chain_rule_def carries_def by (metis order_trans)
qed

interpretation rule_of_chain: node_invariant E "clean_block E N" "chain_rule E N B" for E N B
proof
  fix n b r and X X' :: block_node
  assume a: "AcceptBlock n E b X = Some (r, X')" "clean_block E N b" "chain_rule E N B X"
  then have "clean_block E (bn_params X) b" "calm E X" using clean_block_net by (auto simp: chain_rule_def)
  from carries_rule [OF AcceptBlock_carries [OF a(1) this] a(3)] show "chain_rule E N B X'" .
next
  fix X :: block_node and b
  assume "CheckBlock E (bn_params X) b True True True = Inr ()" "chain_rule E N B X"
  then show "clean_block E N b" using checked_clean_block clean_block_net by (metis chain_rule_def)
next
  fix X X' :: block_node and M pool C
  assume "chain_rule E N B X" "bn_sync X' = bn_sync X" "bn_commit X' = bn_commit X" "bn_files X' = bn_files X"
    "bn_state X' = (bn_state X)\<lparr>ns_params := M, ns_pool := pool, ns_cache := C\<rparr>" "fTestNet M = fTestNet (bn_params X)"
  then show "chain_rule E N B X'" using carries_rule [OF carries_memory] by metis
qed

section \<open>The store of orphans\<close>

text \<open>
  The two maps of orphan blocks hold the same blocks, \<open>os\<close> being the one by parent: each block is filed
  under its hash and under its parent, and none of them is in the block index.
\<close>

definition waiting :: "env \<Rightarrow> (u256 \<times> CBlock) list \<Rightarrow> block_node \<Rightarrow> bool" where
  "waiting E os X \<longleftrightarrow>
     (\<forall>h b. mapOrphanBlocks X h = Some b \<longleftrightarrow> CBlock_GetHash E b = h \<and> (hashPrevBlock b, b) \<in> set os) \<and>
     (\<forall>(k, b) \<in> set os. k = hashPrevBlock b) \<and> dom (mapOrphanBlocks X) \<inter> dom (bn_map X) = {}"

definition orphans_ok :: "env \<Rightarrow> block_node \<Rightarrow> bool" where
  "orphans_ok E X \<longleftrightarrow> waiting E (mapOrphanBlocksByPrev X) X"

lemma waiting_same:
  assumes "waiting E os X" and "mapOrphanBlocks X' = mapOrphanBlocks X" and "dom (bn_map X') \<subseteq> insert k (dom (bn_map X))"
    and "mapOrphanBlocks X k = None"
  shows "waiting E os X'"
proof -
  have "k \<notin> dom (mapOrphanBlocks X)" using assms(4) by blast
  then have "dom (mapOrphanBlocks X') \<inter> dom (bn_map X') = {}" using assms(1,3) unfolding waiting_def assms(2) by blast
  with assms(1,2) show ?thesis unfolding waiting_def by simp
qed

lemma waiting_keep:
  assumes "waiting E os X" and "bn_map X (CBlock_GetHash E b) = None" and "mapOrphanBlocks X (CBlock_GetHash E b) = None"
  shows "waiting E (os @ [(hashPrevBlock b, b)]) (keep_orphan E b X)"
proof -
  have w: "mapOrphanBlocks X k = Some d \<longleftrightarrow> CBlock_GetHash E d = k \<and> (hashPrevBlock d, d) \<in> set os" for k d
    using assms(1) by (simp add: waiting_def)
  have "((mapOrphanBlocks X)(CBlock_GetHash E b \<mapsto> b)) k = Some d \<longleftrightarrow>
      CBlock_GetHash E d = k \<and> (hashPrevBlock d, d) \<in> set (os @ [(hashPrevBlock b, b)])" for k d
    using w [of k d] assms(3) by auto
  then show ?thesis using assms(1,2) by (auto simp: waiting_def keep_orphan_def)
qed

lemma accept_children_orphans:
  assumes "accept_children n E bs X = Some (None, hs, X')"
  shows "mapOrphanBlocks X' = mapOrphanBlocks X |` (- CBlock_GetHash E ` set bs)" and "dom (bn_map X') \<subseteq> dom (bn_map X) \<union> CBlock_GetHash E ` set bs"
proof -
  have "mapOrphanBlocks X' = mapOrphanBlocks X |` (- CBlock_GetHash E ` set bs) \<and> dom (bn_map X') \<subseteq> dom (bn_map X) \<union> CBlock_GetHash E ` set bs"
    using assms
  proof (induction bs arbitrary: X hs)
    case (Cons b bs)
    let ?Y = "\<lambda>X1. X1\<lparr>mapOrphanBlocks := (mapOrphanBlocks X1)(CBlock_GetHash E b := None),
        setStakeSeenOrphan := setStakeSeenOrphan X1 - {GetProofOfStake b}\<rparr>"
    obtain r X1 hs' where a: "AcceptBlock n E b X = Some (r, X1)" and c: "accept_children n E bs (?Y X1) = Some (None, hs', X')"
      using Cons.prems by (auto split: option.splits if_splits)
    note i = Cons.IH [OF c]
    have x: "mapOrphanBlocks X1 = mapOrphanBlocks X" "dom (bn_map X1) \<subseteq> insert (CBlock_GetHash E b) (dom (bn_map X))"
      using AcceptBlock_orphans [OF a] by (simp_all add: same_orphans_def)
    have "mapOrphanBlocks X' = mapOrphanBlocks (?Y X1) |` (- CBlock_GetHash E ` set bs)" using i by blast
    also have "mapOrphanBlocks (?Y X1) = (mapOrphanBlocks X)(CBlock_GetHash E b := None)" using x(1) by simp
    also have "(mapOrphanBlocks X)(CBlock_GetHash E b := None) |` (- CBlock_GetHash E ` set bs) =
        mapOrphanBlocks X |` (- CBlock_GetHash E ` set (b # bs))"
      by (rule ext) (simp add: restrict_map_def)
    finally have "mapOrphanBlocks X' = mapOrphanBlocks X |` (- CBlock_GetHash E ` set (b # bs))" .
    moreover have "dom (bn_map X') \<subseteq> dom (bn_map X1) \<union> CBlock_GetHash E ` set bs" using i by simp
    then have "dom (bn_map X') \<subseteq> dom (bn_map X) \<union> CBlock_GetHash E ` set (b # bs)" using x(2) by force
    ultimately show ?case by simp
  qed (simp add: restrict_map_def)
  then show "mapOrphanBlocks X' = mapOrphanBlocks X |` (- CBlock_GetHash E ` set bs)"
      "dom (bn_map X') \<subseteq> dom (bn_map X) \<union> CBlock_GetHash E ` set bs" by simp_all
qed

lemma accept_children_failure: "accept_children n E bs X = Some (Some e, hs, X') \<Longrightarrow> e = Thrown \<or> e = Aborted"
  by (induction bs arbitrary: X hs) (auto split: option.splits if_splits)

lemma orphan_loop_failure: "orphan_loop n E hs os X = Some (Some e, X') \<Longrightarrow> e = Thrown \<or> e = Aborted"
  by (induction n E hs os X rule: orphan_loop.induct)
    (auto simp: orphan_loop.simps(2) split: option.splits prod.splits dest: accept_children_failure)

lemma waiting_children:
  assumes "waiting E os X" and "accept_children n E (map snd (filter (\<lambda>(k, _). k = h) os)) X = Some (None, hs, X')"
  shows "waiting E (filter (\<lambda>(k, _). k \<noteq> h) os) X'"
proof -
  let ?H = "CBlock_GetHash E ` set (map snd (filter (\<lambda>(k, _). k = h) os))"
  note c = accept_children_orphans [OF assms(2)]
  have w: "mapOrphanBlocks X k = Some b \<longleftrightarrow> CBlock_GetHash E b = k \<and> (hashPrevBlock b, b) \<in> set os" for k b
    using assms(1) by (simp add: waiting_def)
  have p: "(k, b) \<in> set os \<Longrightarrow> k = hashPrevBlock b" for k b using assms(1) by (auto simp: waiting_def)
  have "CBlock_GetHash E b \<in> ?H \<longleftrightarrow> hashPrevBlock b = h" if b: "(hashPrevBlock b, b) \<in> set os" for b
  proof
    assume "CBlock_GetHash E b \<in> ?H"
    then obtain d where d: "(h, d) \<in> set os" "CBlock_GetHash E d = CBlock_GetHash E b" by auto
    then have "h = hashPrevBlock d" by (simp add: p)
    with d(1) have "(hashPrevBlock d, d) \<in> set os" by simp
    with w [of "CBlock_GetHash E b" d] w [of "CBlock_GetHash E b" b] b d(2) have "d = b" by simp
    with d p show "hashPrevBlock b = h" by simp
  next
    assume "hashPrevBlock b = h"
    with b show "CBlock_GetHash E b \<in> ?H" by force
  qed
  then have "mapOrphanBlocks X' k = Some b \<longleftrightarrow> CBlock_GetHash E b = k \<and> (hashPrevBlock b, b) \<in> set (filter (\<lambda>(k, _). k \<noteq> h) os)" for k b
    unfolding c(1) using w [of k b] by (auto simp: restrict_map_def)
  moreover have "dom (mapOrphanBlocks X') \<inter> dom (bn_map X') = {}"
    using assms(1) c(2) unfolding waiting_def c(1) dom_restrict by blast
  ultimately show ?thesis using p unfolding waiting_def by auto
qed

lemma orphan_loop_waiting:
  assumes "orphan_loop n E hs os X = Some (None, X')" and "waiting E os X"
  shows "waiting E (mapOrphanBlocksByPrev X') X' \<and> set (mapOrphanBlocksByPrev X') \<subseteq> {e \<in> set os. fst e \<notin> set hs}"
  using assms
proof (induction n E hs os X rule: orphan_loop.induct)
  case (1 n E os X)
  then have "X' = X\<lparr>mapOrphanBlocksByPrev := os\<rparr>" by simp
  with "1.prems"(2) show ?case by (simp add: waiting_def)
next
  case (2 n E h hs os X)
  let ?bs = "map snd (filter (\<lambda>(k, _). k = h) os)"
  obtain hs' X1 where a: "accept_children n E ?bs X = Some (None, hs', X1)"
      and l: "orphan_loop n E (hs @ hs') (filter (\<lambda>(k, _). k \<noteq> h) os) X1 = Some (None, X')"
    using "2.prems"(1) by (auto simp: orphan_loop.simps(2) split: option.splits)
  from "2.IH" [OF a refl refl refl l waiting_children [OF "2.prems"(2) a]] show ?case by auto
qed

text \<open>
  The blocks that were handed to \<^verbatim>\<open>AcceptBlock\<close> one after the other, each with its result; between the calls only the maps of
  orphans change. The hashes of the blocks that were accepted.
\<close>

inductive accepting :: "nat \<Rightarrow> env \<Rightarrow> block_node \<Rightarrow> (CBlock \<times> failure option) list \<Rightarrow> block_node \<Rightarrow> bool" for n E where
  stop: "accepting n E X [] X"
| call: "AcceptBlock n E b X = Some (r, X1) \<Longrightarrow> accepting n E X1 ts X' \<Longrightarrow> accepting n E X ((b, r) # ts) X'"
| orphans: "accepting n E (X\<lparr>mapOrphanBlocks := om, mapOrphanBlocksByPrev := os, setStakeSeenOrphan := ss\<rparr>) ts X' \<Longrightarrow> accepting n E X ts X'"

definition accepted_in :: "env \<Rightarrow> (CBlock \<times> failure option) list \<Rightarrow> u256 set" where
  "accepted_in E ts = {CBlock_GetHash E b | b. (b, None) \<in> set ts}"

lemma accepted_in_simps [simp]:
  "accepted_in E [] = {}"
  "accepted_in E ((b, None) # ts) = insert (CBlock_GetHash E b) (accepted_in E ts)"
  "accepted_in E ((b, Some e) # ts) = accepted_in E ts"
  "accepted_in E (ts @ us) = accepted_in E ts \<union> accepted_in E us"
  by (auto simp: accepted_in_def)

lemma accepting_append: "accepting n E X ts Y \<Longrightarrow> accepting n E Y us Z \<Longrightarrow> accepting n E X (ts @ us) Z"
  by (induction rule: accepting.induct) (auto intro: accepting.call accepting.orphans)

lemma accepting_known: "accepting n E X ts X' \<Longrightarrow> dom (bn_map X') \<subseteq> dom (bn_map X) \<union> CBlock_GetHash E ` fst ` set ts"
proof (induction rule: accepting.induct)
  case (call b X r X1 ts X')
  have "dom (bn_map X1) \<subseteq> insert (CBlock_GetHash E b) (dom (bn_map X))" using AcceptBlock_orphans [OF call.hyps(1)] by (simp add: same_orphans_def)
  with call.IH show ?case by (simp add: subset_iff) blast
qed simp_all

lemma accept_children_trace:
  assumes "accept_children n E bs X = Some (None, hs, X')"
  shows "\<exists>ts. accepting n E X ts X' \<and> map fst ts = bs \<and> set hs = accepted_in E ts"
  using assms
proof (induction bs arbitrary: X hs)
  case Nil
  then show ?case using accepting.stop by auto
next
  case (Cons b bs)
  let ?Y = "\<lambda>X1. X1\<lparr>mapOrphanBlocks := (mapOrphanBlocks X1)(CBlock_GetHash E b := None),
      setStakeSeenOrphan := setStakeSeenOrphan X1 - {GetProofOfStake b}\<rparr>"
  obtain r X1 hs' where a: "AcceptBlock n E b X = Some (r, X1)" and c: "accept_children n E bs (?Y X1) = Some (None, hs', X')"
      and h: "hs = (if r = None then CBlock_GetHash E b # hs' else hs')"
    using Cons.prems by (auto split: option.splits if_splits)
  from Cons.IH [OF c] obtain ts where t: "accepting n E (?Y X1) ts X'" "map fst ts = bs" "set hs' = accepted_in E ts" by blast
  have "accepting n E X ((b, r) # ts) X'"
    using t(1) accepting.orphans [where X = X1 and os = "mapOrphanBlocksByPrev X1"] by (intro accepting.call [OF a]) simp
  moreover have "set hs = accepted_in E ((b, r) # ts)" using h t(3) by (cases r) simp_all
  ultimately show ?case using t(2) by (intro exI [of _ "(b, r) # ts"]) simp
qed

text \<open>The loop tries exactly the orphans whose parent is in the queue or is accepted on the way, and takes them out.\<close>

lemma orphan_loop_trace:
  assumes "orphan_loop n E hs os X = Some (None, X')" and "waiting E os X"
  shows "\<exists>ts. accepting n E X ts X' \<and> fst ` set ts = {d. (hashPrevBlock d, d) \<in> set os \<and> hashPrevBlock d \<in> set hs \<union> accepted_in E ts} \<and>
    (\<forall>h d. mapOrphanBlocks X' h = Some d \<longleftrightarrow> mapOrphanBlocks X h = Some d \<and> hashPrevBlock d \<notin> set hs \<union> accepted_in E ts)"
  using assms
proof (induction n E hs os X rule: orphan_loop.induct)
  case (1 n E os X)
  have "accepting n E X [] (X\<lparr>mapOrphanBlocks := mapOrphanBlocks X, mapOrphanBlocksByPrev := os, setStakeSeenOrphan := setStakeSeenOrphan X\<rparr>)"
    by (rule accepting.orphans [OF accepting.stop])
  also have "X\<lparr>mapOrphanBlocks := mapOrphanBlocks X, mapOrphanBlocksByPrev := os, setStakeSeenOrphan := setStakeSeenOrphan X\<rparr> = X\<lparr>mapOrphanBlocksByPrev := os\<rparr>"
    by (cases X) simp
  also have x: "X\<lparr>mapOrphanBlocksByPrev := os\<rparr> = X'" using "1.prems"(1) by simp
  finally show ?case using x [symmetric] by (intro exI [of _ "[]"]) simp
next
  case (2 n E h hs os X)
  let ?os = "filter (\<lambda>(k, _). k \<noteq> h) os"
  obtain hs' X1 where a: "accept_children n E (map snd (filter (\<lambda>(k, _). k = h) os)) X = Some (None, hs', X1)"
      and l: "orphan_loop n E (hs @ hs') ?os X1 = Some (None, X')"
    using "2.prems"(1) by (auto simp: orphan_loop.simps(2) split: option.splits)
  note w = waiting_children [OF "2.prems"(2) a]
  obtain us where u: "accepting n E X us X1" "map fst us = map snd (filter (\<lambda>(k, _). k = h) os)" "set hs' = accepted_in E us"
    using accept_children_trace [OF a] by blast
  have q: "set (hs @ hs') \<union> accepted_in E ts = set hs \<union> accepted_in E us \<union> accepted_in E ts" for ts using u(3) by (simp add: Un_assoc)
  obtain ts where t: "accepting n E X1 ts X'"
      "fst ` set ts = {d. (hashPrevBlock d, d) \<in> set ?os \<and> hashPrevBlock d \<in> set hs \<union> accepted_in E us \<union> accepted_in E ts}"
      "\<forall>h d. mapOrphanBlocks X' h = Some d \<longleftrightarrow> mapOrphanBlocks X1 h = Some d \<and> hashPrevBlock d \<notin> set hs \<union> accepted_in E us \<union> accepted_in E ts"
    using "2.IH" [OF a refl refl refl l w] unfolding q by (elim exE conjE)
  have p: "(k, d) \<in> set os \<Longrightarrow> k = hashPrevBlock d" for k d using "2.prems"(2) by (auto simp: waiting_def)
  have "fst ` set us = set (map snd (filter (\<lambda>(k, _). k = h) os))" unfolding u(2) [symmetric] by simp
  also have "\<dots> = {d. (h, d) \<in> set os}" by force
  also have "\<dots> = {d. (hashPrevBlock d, d) \<in> set os \<and> hashPrevBlock d = h}" using p by fastforce
  finally have f: "fst ` set us = {d. (hashPrevBlock d, d) \<in> set os \<and> hashPrevBlock d = h}" .
  have m: "mapOrphanBlocks X1 k = Some d \<longleftrightarrow> mapOrphanBlocks X k = Some d \<and> hashPrevBlock d \<noteq> h" for k d
  proof -
    have "mapOrphanBlocks X1 k = Some d \<longleftrightarrow> CBlock_GetHash E d = k \<and> (hashPrevBlock d, d) \<in> set ?os" using w by (simp add: waiting_def)
    moreover have "mapOrphanBlocks X k = Some d \<longleftrightarrow> CBlock_GetHash E d = k \<and> (hashPrevBlock d, d) \<in> set os" using "2.prems"(2) by (simp add: waiting_def)
    ultimately show ?thesis by simp
  qed
  have "fst ` set (us @ ts) = {d. (hashPrevBlock d, d) \<in> set os \<and> hashPrevBlock d \<in> set (h # hs) \<union> accepted_in E (us @ ts)}"
    unfolding set_append image_Un f t(2) accepted_in_simps by (simp add: set_eq_iff) blast
  moreover have "mapOrphanBlocks X' k = Some d \<longleftrightarrow> mapOrphanBlocks X k = Some d \<and> hashPrevBlock d \<notin> set (h # hs) \<union> accepted_in E (us @ ts)" for k d
    unfolding t(3) [rule_format] m by auto
  ultimately show ?case using accepting_append [OF u(1) t(1)] by (intro exI [of _ "us @ ts"] conjI allI)
qed

lemma waiting_ran: "waiting E os X \<Longrightarrow> ran (mapOrphanBlocks X) = {d. (hashPrevBlock d, d) \<in> set os}"
  by (auto simp: waiting_def ran_def)

lemma processed_trace:
  assumes "AcceptBlock n E b X = Some (None, X1)"
    and "orphan_loop n E [CBlock_GetHash E b] (mapOrphanBlocksByPrev X1) X1 = Some (None, X')" and "waiting E (mapOrphanBlocksByPrev X1) X1"
  shows "\<exists>ts. accepting n E X ((b, None) # ts) X' \<and>
    fst ` set ts = {d \<in> ran (mapOrphanBlocks X). hashPrevBlock d \<in> accepted_in E ((b, None) # ts)} \<and>
    (\<forall>h d. mapOrphanBlocks X' h = Some d \<longleftrightarrow> mapOrphanBlocks X h = Some d \<and> hashPrevBlock d \<notin> accepted_in E ((b, None) # ts)) \<and>
    (\<forall>d \<in> ran (mapOrphanBlocks X'). bn_map X' (hashPrevBlock d) \<noteq> None \<longrightarrow>
       bn_map X (hashPrevBlock d) \<noteq> None \<or> (\<exists>a e. (a, Some e) \<in> set ts \<and> CBlock_GetHash E a = hashPrevBlock d))"
proof -
  have x: "mapOrphanBlocks X1 = mapOrphanBlocks X" using AcceptBlock_orphans [OF assms(1)] by (simp add: same_orphans_def)
  from orphan_loop_trace [OF assms(2,3)] obtain ts where t: "accepting n E X1 ts X'"
      "fst ` set ts = {d \<in> ran (mapOrphanBlocks X). hashPrevBlock d \<in> accepted_in E ((b, None) # ts)}"
      "\<forall>h d. mapOrphanBlocks X' h = Some d \<longleftrightarrow> mapOrphanBlocks X h = Some d \<and> hashPrevBlock d \<notin> accepted_in E ((b, None) # ts)"
    using waiting_ran [OF assms(3), unfolded x] unfolding x by force
  note c = accepting.call [OF assms(1) t(1)]
  have "\<exists>a e. (a, Some e) \<in> set ts \<and> CBlock_GetHash E a = hashPrevBlock d"
    if d: "d \<in> ran (mapOrphanBlocks X')" "bn_map X' (hashPrevBlock d) \<noteq> None" "bn_map X (hashPrevBlock d) = None" for d
  proof -
    have n: "hashPrevBlock d \<notin> accepted_in E ((b, None) # ts)" using d(1) t(3) by (auto simp: ran_def)
    have "hashPrevBlock d \<in> CBlock_GetHash E ` fst ` set ((b, None) # ts)" using accepting_known [OF c] d(2,3) by blast
    then obtain e where "e \<in> set ((b, None) # ts)" "CBlock_GetHash E (fst e) = hashPrevBlock d" by (elim imageE) simp
    moreover obtain a q where "e = (a, q)" by fastforce
    ultimately have a: "(a, q) \<in> set ((b, None) # ts)" "CBlock_GetHash E a = hashPrevBlock d" by simp_all
    with n obtain e where "q = Some e" by (cases q) (auto simp: accepted_in_def)
    with a show ?thesis by auto
  qed
  with c t(2,3) show ?thesis by blast
qed

section \<open>Properties\<close>

text \<open>C1: The rule of the chain. From a state whose stored coins are those of its best chain, a chain no
  known block beats, every run of arriving blocks, orphans that find their parent, arriving
  transactions and passing time ends in such a state again: the best block in memory is the one the
  database records, its chain has the greatest trust of all known blocks, and replaying it gives
  exactly the stored unspent outputs. It is assumed that the database accepts every commit, that no
  checkpoint is pending, that the waiting orphans have passed \<^verbatim>\<open>CheckBlock\<close>, and that no chain of more
  trust than the best one at the start was found invalid on the way.\<close>

theorem best_chain_is_heaviest:
  assumes "(node_step E)\<^sup>*\<^sup>* X X'" and "node_ok E X" and "heaviest (bn_state X)" and "orphans_clean E X" and "calm E X"
    and "nBestInvalidTrust (bn_state X') \<le> nBestChainTrust (bn_state X)"
  shows "\<exists>t. pindexBest (bn_state X') = Some t \<and> hashBestChain (bn_state X') = t \<and> cd_best (ns_db (bn_state X')) = Some t \<and>
      replay E (ReadFromDisk E (bn_params X') (node_io X') (bn_map X')) (chain_from (bn_map X') t) = Some (utxo (cd_tx (ns_db (bn_state X')))) \<and>
      (\<forall>h. node_trust (bn_map X') h \<le> node_trust (bn_map X') t)"
proof -
  let ?B = "nBestChainTrust (bn_state X)"
  have "rule_of_chain.holds E (bn_params X) ?B X"
    using assms(2-5) by (simp add: rule_of_chain.holds_def chain_rule_def node_inv_def orphans_clean_def)
  from rule_of_chain.run [OF assms(1) this] assms(6)
  have i: "node_ok E X'" "heaviest (bn_state X')" "?B \<le> nBestChainTrust (bn_state X')"
    by (simp_all add: rule_of_chain.holds_def chain_rule_def node_inv_def)
  obtain t where t: "pindexBest (bn_state X') = Some t" "cd_best (ns_db (bn_state X')) = Some t"
      "nBestChainTrust (bn_state X') = node_trust (bn_map X') t" using best_known [OF i(1)] by metis
  have "node_trust (bn_map X') h \<le> node_trust (bn_map X') t" for h
    using i(2,3) assms(6) t(3) unfolding heaviest_def by (metis order_trans)
  moreover have "hashBestChain (bn_state X') = t" using i(1) t(1) by (simp add: node_ok_def best_sync_def)
  moreover have "replay E (ReadFromDisk E (bn_params X') (node_io X') (bn_map X')) (chain_from (bn_map X') t) = Some (utxo (cd_tx (ns_db (bn_state X'))))"
    using chain_syncE [OF _ t(2)] i(1) by (metis node_ok_def synced_def)
  ultimately show ?thesis using t(1,2) by blast
qed

text \<open>C7: The store of orphan blocks stays consistent whatever block is processed, unless an exception is thrown
  while orphans are accepted: both maps hold the same blocks, each under its hash and under its parent,
  and no orphan is in the block index. When a block with a known parent is processed successfully, the blocks handed to
  \<^verbatim>\<open>AcceptBlock\<close> are this block and then exactly the orphans whose parent is accepted in the same call, directly or through a
  chain of orphans; these leave the store, and all others stay. So no orphan waits for a block that was accepted,
  and one whose parent is known now waits because the parent was known before or was entered in the index and failed.\<close>

theorem ProcessBlock_keeps_orphans:
  assumes "ProcessBlock n E b X = Some (r, X')" and "orphans_ok E X" and "r \<noteq> Some Thrown" and "r \<noteq> Some Aborted"
  shows "orphans_ok E X' \<and>
    (r = None \<longrightarrow> bn_map X (hashPrevBlock b) \<noteq> None \<longrightarrow>
      (\<exists>ts. accepting n E X ((b, None) # ts) X' \<and>
         fst ` set ts = {d \<in> ran (mapOrphanBlocks X). hashPrevBlock d \<in> accepted_in E ((b, None) # ts)} \<and>
         (\<forall>h d. mapOrphanBlocks X' h = Some d \<longleftrightarrow> mapOrphanBlocks X h = Some d \<and> hashPrevBlock d \<notin> accepted_in E ((b, None) # ts)) \<and>
         (\<forall>d \<in> ran (mapOrphanBlocks X'). bn_map X' (hashPrevBlock d) \<noteq> None \<longrightarrow>
            bn_map X (hashPrevBlock d) \<noteq> None \<or> (\<exists>a e. (a, Some e) \<in> set ts \<and> CBlock_GetHash E a = hashPrevBlock d))))"
  using assms(1)
proof (cases rule: ProcessBlock_cases)
  case (refused e)
  with assms(2) show ?thesis by simp
next
  case (checked wanted fSeen)
  have keeps: "waiting E (mapOrphanBlocksByPrev Y) Y" if y: "AcceptBlock n E b X = Some (q, Y)" for q Y
    using AcceptBlock_orphans [OF y] waiting_same [OF _ _ _ checked(3)] assms(2) by (simp add: orphans_ok_def same_orphans_def)
  from checked(4) show ?thesis
  proof (cases rule: process_checked_cases)
    case (refused e)
    with assms(2) show ?thesis by simp
  next
    case orphan
    with assms(2) waiting_keep [OF _ checked(2,3)] show ?thesis by (simp add: orphans_ok_def keep_orphan_def)
  next
    case (failed e)
    from keeps [OF failed(2)] failed(1) show ?thesis by (simp add: orphans_ok_def)
  next
    case (accepted X1)
    then have r: "r = None" using assms(3,4) by (cases r) (auto dest: orphan_loop_failure)
    from processed_trace [OF accepted(1) accepted(2) [unfolded r] keeps [OF accepted(1)]]
      orphan_loop_waiting [OF accepted(2) [unfolded r] keeps [OF accepted(1)]]
    show ?thesis by (simp add: orphans_ok_def)
  qed
qed

end
