(* ===== verification/HeaderRules.thy ===== *)
theory HeaderRules
  imports NodeRuns
begin

text \<open>
  The rules every known block obeys: its difficulty is the one \<^verbatim>\<open>GetNextTargetRequired\<close> demands after its
  parent, its time lies behind the median of the last eleven blocks, its hash is the hardened
  checkpoint of its height where there is one, and proof of work ends at \<^verbatim>\<open>LAST_POW_BLOCK\<close>. \<^verbatim>\<open>AcceptBlock\<close>
  tests them against the tree as it is then; here they are an invariant of the tree along every run.
\<close>

section \<open>What the rules look at\<close>

definition rule_key :: "CBlockIndex \<Rightarrow> int \<times> u32 \<times> u32 \<times> u32" where
  "rule_key p = (bp_nHeight p, nFlags p, idx_nTime p, idx_nBits p)"

lemma rule_keyD:
  "rule_key p = rule_key q \<Longrightarrow>
     bp_nHeight p = bp_nHeight q \<and> Index_IsProofOfStake p = Index_IsProofOfStake q \<and> idx_nTime p = idx_nTime q \<and> idx_nBits p = idx_nBits q"
  by (simp add: rule_key_def Index_IsProofOfStake_def)

lemma GetLastBlockIndex_key:
  "map rule_key ps = map rule_key qs \<Longrightarrow> map rule_key (GetLastBlockIndex ps f) = map rule_key (GetLastBlockIndex qs f)"
proof (induction ps f arbitrary: qs rule: GetLastBlockIndex.induct)
  case (2 p f)
  then obtain q where "qs = [q]" by auto
  with 2 show ?case by simp
next
  case (3 p p' ps f)
  then obtain q q' qs' where q: "qs = q # q' # qs'" by (auto simp: map_eq_Cons_conv)
  with 3 rule_keyD [of p q] show ?case by auto
qed simp

lemma GetMedianTimePast_key:
  assumes "map rule_key ps = map rule_key qs"
  shows "GetMedianTimePast ps = GetMedianTimePast qs"
proof -
  have t: "map (\<lambda>p. uint (idx_nTime p)) xs = map (\<lambda>(_, _, t, _). uint t) (map rule_key xs)" for xs by (simp add: rule_key_def)
  show ?thesis unfolding GetMedianTimePast_def take_map [symmetric] t assms ..
qed

lemma GetNextTargetRequired_key:
  assumes "map rule_key ps = map rule_key qs" and "fTestNet N = fTestNet N'"
  shows "GetNextTargetRequired E N ps f = GetNextTargetRequired E N' qs f"
proof (cases ps)
  case Nil
  with assms show ?thesis by (simp add: GetNextTargetRequired_def bnProofOfWorkLimit_def)
next
  case (Cons p ps')
  with assms(1) obtain q qs' where q: "qs = q # qs'" by (auto simp: map_eq_Cons_conv)
  with Cons assms(1) have h: "bp_nHeight p = bp_nHeight q" using rule_keyD [of p q] by simp
  note k = GetLastBlockIndex_key [OF assms(1), of f]
  have l: "bnProofOfWorkLimit N = bnProofOfWorkLimit N'" using assms(2) by (simp add: bnProofOfWorkLimit_def)
  show ?thesis
  proof (cases "GetLastBlockIndex ps f" rule: remdups_adj.cases)
    case 1
    with k show ?thesis by (simp add: GetNextTargetRequired_def Cons q h l Let_def)
  next
    case (2 x)
    with k obtain x' where "GetLastBlockIndex qs f = [x']" by auto
    with 2 show ?thesis by (simp add: GetNextTargetRequired_def Cons q h l Let_def)
  next
    case (3 x y r)
    with k obtain x' y' r' where x: "GetLastBlockIndex qs f = x' # y' # r'" "rule_key x = rule_key x'" "map rule_key (y # r) = map rule_key (y' # r')"
      by (auto simp: map_eq_Cons_conv)
    note k2 = GetLastBlockIndex_key [OF x(3), of f]
    note e = rule_keyD [OF x(2)]
    show ?thesis
    proof (cases "GetLastBlockIndex (y # r) f" rule: remdups_adj.cases)
      case 1
      with k2 3 x(1) show ?thesis by (simp add: GetNextTargetRequired_def Cons q h l Let_def)
    next
      case (2 z)
      with k2 obtain z' where "GetLastBlockIndex (y' # r') f = [z']" by auto
      with 2 3 x(1) show ?thesis by (simp add: GetNextTargetRequired_def Cons q h l Let_def)
    next
      case z: (3 z w v)
      with k2 obtain z' w' v' where "GetLastBlockIndex (y' # r') f = z' # w' # v'" "rule_key z = rule_key z'" by (auto simp: map_eq_Cons_conv)
      with z 3 x(1) e rule_keyD [of z z'] show ?thesis
        by (simp add: GetNextTargetRequired_def Cons q h l Let_def split: option.split)
    qed
  qed
qed

lemma CheckHardened_net: "fTestNet N = fTestNet N' \<Longrightarrow> CheckHardened N = CheckHardened N'"
  by (simp add: fun_eq_iff CheckHardened_def checkpoints_def)

lemma entries_key: "tree m = tree m' \<Longrightarrow> map rule_key (entries m hs) = map rule_key (entries m' hs)"
proof (induction hs)
  case (Cons h hs)
  show ?case
  proof (cases "m h")
    case None
    with Cons tree_NoneD [OF Cons.prems None] show ?thesis by (simp add: entries_def List.map_filter_simps)
  next
    case (Some p)
    obtain p' where "m' h = Some p'" "node_key p' = node_key p" using tree_SomeD [OF Cons.prems Some] by blast
    with Cons Some show ?thesis by (simp add: entries_def List.map_filter_simps rule_key_def node_key_def CBlockIndex.truncate_def)
  qed
qed (simp add: entries_def List.map_filter_simps)

section \<open>The rules\<close>

text \<open>The rules for a block after the entries \<open>ps\<close> of its parent and further ancestors.\<close>

definition follows :: "env \<Rightarrow> node_params \<Rightarrow> CBlockIndex list \<Rightarrow> CBlockIndex \<Rightarrow> bool" where
  "follows E N ps p \<longleftrightarrow>
     bp_nHeight p = bp_nHeight (hd ps) + 1 \<and> GetNextTargetRequired E N ps (Index_IsProofOfStake p) = Some (idx_nBits p) \<and>
     GetMedianTimePast ps < uint (idx_nTime p) \<and> uint (idx_nTime (hd ps)) \<le> FutureDrift (uint (idx_nTime p)) \<and>
     CheckHardened N (bp_nHeight p) (idx_hash p) \<and> (Index_IsProofOfStake p \<or> bp_nHeight p \<le> LAST_POW_BLOCK)"

definition obeys_rules :: "env \<Rightarrow> node_params \<Rightarrow> block_map \<Rightarrow> bool" where
  "obeys_rules E N m \<longleftrightarrow>
     (\<forall>h p q. m h = Some p \<longrightarrow> pprev p = Some q \<longrightarrow> follows E N (entries m (chain_from m q)) (CBlockIndex.truncate p))"

lemma follows_key:
  assumes "follows E N ps p" and "map rule_key ps = map rule_key qs" and "ps \<noteq> []" and "rule_key p = rule_key p'" and "idx_hash p = idx_hash p'"
    and "fTestNet N' = fTestNet N"
  shows "follows E N' qs p'"
proof -
  obtain x xs y ys where "ps = x # xs" "qs = y # ys" using assms(2,3) by (cases ps; cases qs) auto
  with assms(2) have h: "bp_nHeight (hd ps) = bp_nHeight (hd qs)" "idx_nTime (hd ps) = idx_nTime (hd qs)" using rule_keyD [of x y] by simp_all
  have e: "bp_nHeight p = bp_nHeight p'" "Index_IsProofOfStake p = Index_IsProofOfStake p'" "idx_nTime p = idx_nTime p'" "idx_nBits p = idx_nBits p'"
    using rule_keyD [OF assms(4)] by simp_all
  note assms(1) [unfolded follows_def h e assms(5) GetMedianTimePast_key [OF assms(2)]
      GetNextTargetRequired_key [OF assms(2) assms(6) [symmetric]] CheckHardened_net [OF assms(6), symmetric]]
  then show ?thesis unfolding follows_def .
qed

lemma known_entries:
  assumes "index_inv m g" and "m h = Some p"
  shows "entries m (chain_from m h) \<noteq> []"
proof -
  obtain hs where "chain_from m h = h # hs" using linked_chain_from [OF assms] linked_nonempty by (metis list.exhaust_sel)
  with assms(2) show ?thesis by (simp add: entries_def List.map_filter_simps)
qed

lemma obeys_tree:
  assumes "obeys_rules E N m" and "index_inv m g" and "tree m' = tree m" and "fTestNet N' = fTestNet N"
  shows "obeys_rules E N' m'"
  unfolding obeys_rules_def
proof (intro allI impI)
  fix h p' q
  assume p': "m' h = Some p'" "pprev p' = Some q"
  obtain p where p: "m h = Some p" "node_key p = node_key p'" using tree_SomeD [OF assms(3) p'(1)] by blast
  then have pq: "pprev p = Some q" using p'(2) by (simp add: node_key_def)
  obtain r where r: "m q = Some r" using index_invD(5) [OF assms(2) p(1) pq] by blast
  have "follows E N (entries m (chain_from m q)) (CBlockIndex.truncate p)" using assms(1) p(1) pq unfolding obeys_rules_def by blast
  then show "follows E N' (entries m' (chain_from m' q)) (CBlockIndex.truncate p')"
  proof (rule follows_key)
    show "map rule_key (entries m (chain_from m q)) = map rule_key (entries m' (chain_from m' q))"
      using entries_key [OF assms(3)] chain_from_tree [OF assms(3)] by metis
    show "rule_key (CBlockIndex.truncate p) = rule_key (CBlockIndex.truncate p')" "idx_hash (CBlockIndex.truncate p) = idx_hash (CBlockIndex.truncate p')"
      using p(2) by (simp_all add: rule_key_def node_key_def CBlockIndex.truncate_def)
  qed (use known_entries [OF assms(2) r] assms(4) in simp_all)
qed

lemma map_filter_cong: "(\<And>x. x \<in> set xs \<Longrightarrow> f x = g x) \<Longrightarrow> List.map_filter f xs = List.map_filter g xs"
  by (induction xs) (auto simp: List.map_filter_simps split: option.splits)

lemma obeys_insert:
  assumes "obeys_rules E N m" and "index_inv m (Some g)" and "child_entry m h q p" and "follows E N (entries m (chain_from m q)) (CBlockIndex.truncate p)"
  shows "obeys_rules E N (m(h \<mapsto> p))"
proof -
  have e: "entries (m(h \<mapsto> p)) (chain_from (m(h \<mapsto> p)) x) = entries m (chain_from m x)" if x: "m x = Some px" for x px
  proof -
    have "m h = None" using assms(3) by (simp add: child_entry_def)
    then have "h \<notin> set (chain_from m x)" using linked_in [OF linked_chain_from(1) [OF assms(2) x], of h] by auto
    then have "List.map_filter (m(h \<mapsto> p)) (chain_from m x) = List.map_filter m (chain_from m x)"
      by (intro map_filter_cong) auto
    then show ?thesis by (simp add: entries_def chain_from_insert [OF assms(2,3) x])
  qed
  show ?thesis
    unfolding obeys_rules_def
  proof (intro allI impI)
    fix k r x
    assume r: "(m(h \<mapsto> p)) k = Some r" "pprev r = Some x"
    show "follows E N (entries (m(h \<mapsto> p)) (chain_from (m(h \<mapsto> p)) x)) (CBlockIndex.truncate r)"
    proof (cases "k = h")
      case True
      with r assms(3) obtain pq where "r = p" "x = q" "m x = Some pq" by (auto simp: child_entry_def)
      with e assms(4) show ?thesis by simp
    next
      case False
      with r have k: "m k = Some r" by simp
      then obtain px where "m x = Some px" using index_invD(5) [OF assms(2) k r(2)] by blast
      with e assms(1) k r(2) show ?thesis by (simp add: obeys_rules_def)
    qed
  qed
qed

section \<open>Accepting a block keeps the rules\<close>

definition rules_inv :: "env \<Rightarrow> block_node \<Rightarrow> bool" where
  "rules_inv E X \<longleftrightarrow> (\<exists>g. index_inv (bn_map X) (Some g)) \<and> obeys_rules E (bn_params X) (bn_map X)"

lemma flag_kept: "((f :: u32) OR 2) AND 1 = f AND 1" "(f OR 4) AND 1 = f AND 1"
  by (rule bit_word_eqI; auto simp: bit_simps)+

lemma index_entry_rules:
  assumes "index_entry E m f pos hProof b = Inr p"
  shows "idx_nTime p = blk_nTime b" and "idx_nBits p = nBits b" and "nFlags p AND 1 = (if IsProofOfStake b then 1 else 0)"
  using assms
  by (auto simp: index_entry_def Let_def SetStakeEntropyBit_def SetStakeModifier_def CBlockIndex_new_def CBlockIndex.extend_def flag_kept
      split: option.splits if_splits prod.splits)

lemma accepted_follows:
  assumes "index_inv (bn_map X) (Some g)" and "accept_context E b X = Inr ()" and "f \<noteq> - 1"
    and "index_entry E (bn_map X) f pos hProof b = Inr p"
  shows "follows E (bn_params X) (entries (bn_map X) (chain_from (bn_map X) (hashPrevBlock b))) (CBlockIndex.truncate p)"
    and "child_entry (bn_map X) (CBlock_GetHash E b) (hashPrevBlock b) p"
proof -
  let ?ps = "entries (bn_map X) (chain_from (bn_map X) (hashPrevBlock b))"
  obtain pq where pq: "bn_map X (hashPrevBlock b) = Some pq" using accept_context_new(2) [OF assms(2)] by blast
  have n: "bn_map X (CBlock_GetHash E b) = None" by (rule accept_context_new(1) [OF assms(2)])
  show c: "child_entry (bn_map X) (CBlock_GetHash E b) (hashPrevBlock b) p" by (rule index_entry_child [OF assms(1) pq n assms(3,4)])
  have h: "bp_nHeight p = bp_nHeight (hd ?ps) + 1" "idx_hash p = CBlock_GetHash E b"
    using c pq unfolding entries_hd [OF assms(1) pq] by (simp_all add: child_entry_def CBlockIndex.truncate_def)
  note r = index_entry_rules [OF assms(4)]
  have s: "Index_IsProofOfStake (CBlockIndex.truncate p) = IsProofOfStake b"
    using r(3) by (simp add: Index_IsProofOfStake_def CBlockIndex.truncate_def)
  have "GetNextTargetRequired E (bn_params X) ?ps (IsProofOfStake b) = Some (nBits b)" "GetMedianTimePast ?ps < uint (blk_nTime b)"
      "uint (idx_nTime (hd ?ps)) \<le> FutureDrift (uint (blk_nTime b))" "CheckHardened (bn_params X) (bp_nHeight (hd ?ps) + 1) (CBlock_GetHash E b)"
      "IsProofOfWork b \<longrightarrow> bp_nHeight (hd ?ps) + 1 \<le> LAST_POW_BLOCK"
    using assms(2) by (auto simp: accept_context_def Let_def split: if_splits option.splits)
  then show "follows E (bn_params X) ?ps (CBlockIndex.truncate p)"
    unfolding follows_def s using h r(1,2) by (auto simp: CBlockIndex.truncate_def IsProofOfWork_def)
qed

lemma AddToBlockIndex_map:
  assumes "AddToBlockIndex n E f pos hProof b X = Some (r, X')" and "bn_map X (CBlock_GetHash E b) = None"
  shows "tree (bn_map X') = tree (bn_map X) \<or>
    (\<exists>p. index_entry E (bn_map X) f pos hProof b = Inr p \<and> tree (bn_map X') = tree ((bn_map X)(CBlock_GetHash E b \<mapsto> p)))"
  using assms
proof (cases rule: AddToBlockIndex_cases)
  case (best p D s)
  let ?S = "case s of Inl S \<Rightarrow> S | Inr S \<Rightarrow> S"
  have "tree (mapBlockIndex ?S) = tree ((bn_map X)(CBlock_GetHash E b \<mapsto> p))"
    using SetBestChain_tree [OF best(4)] by (simp add: same_tree_def split: sum.splits)
  with best(1,5) show ?thesis by simp
qed (simp_all add: put_entry_def entered_def)

lemma rules_tree:
  assumes "rules_inv E X" and "tree (bn_map X') = tree (bn_map X)" and "fTestNet (bn_params X') = fTestNet (bn_params X)"
  shows "rules_inv E X'"
  using assms obeys_tree [OF _ _ assms(2,3)] index_inv_tree [OF assms(2) [symmetric]] unfolding rules_inv_def by metis

lemma AddToBlockIndex_rules:
  assumes "AddToBlockIndex n E f pos hProof b X = Some (r, X')" and "accept_context E b X = Inr ()" and "f \<noteq> - 1" and "rules_inv E X"
  shows "rules_inv E X'"
proof -
  have n: "bn_map X (CBlock_GetHash E b) = None" by (rule accept_context_new(1) [OF assms(2)])
  have t: "fTestNet (bn_params X') = fTestNet (bn_params X)" using AddToBlockIndex_grows [OF assms(1) n] by (simp add: grows_def)
  from AddToBlockIndex_map [OF assms(1) n] show ?thesis
  proof
    assume "tree (bn_map X') = tree (bn_map X)"
    from rules_tree [OF assms(4) this t] show ?thesis .
  next
    assume "\<exists>p. index_entry E (bn_map X) f pos hProof b = Inr p \<and> tree (bn_map X') = tree ((bn_map X)(CBlock_GetHash E b \<mapsto> p))"
    then obtain p where p: "index_entry E (bn_map X) f pos hProof b = Inr p"
      and m: "tree (bn_map X') = tree ((bn_map X)(CBlock_GetHash E b \<mapsto> p))" by blast
    obtain g where g: "index_inv (bn_map X) (Some g)" and o: "obeys_rules E (bn_params X) (bn_map X)" using assms(4) by (auto simp: rules_inv_def)
    note a = accepted_follows [OF g assms(2,3) p]
    have i: "index_inv ((bn_map X)(CBlock_GetHash E b \<mapsto> p)) (Some g)" by (rule index_inv_insert [OF g a(2)])
    from obeys_tree [OF obeys_insert [OF o g a(2,1)] i m t] index_inv_tree [OF m [symmetric] i] show ?thesis by (auto simp: rules_inv_def)
  qed
qed

lemma AcceptBlock_rules:
  assumes "AcceptBlock n E b X = Some (r, X')" and "rules_inv E X"
  shows "rules_inv E X'"
proof -
  have y: "rules_inv E (put_files d (X\<lparr>bn_state := (bn_state X)\<lparr>ns_cache := C\<rparr>\<rparr>))" for d C
    by (rule rules_tree [OF assms(2)]) (simp_all add: put_files_def)
  have c: "accept_context E b (put_files d (X\<lparr>bn_state := (bn_state X)\<lparr>ns_cache := C\<rparr>\<rparr>)) = Inr ()"
    if "accept_checks n E b X = Some (Inr q)" for d C q
    using accept_checks_context [OF that] by (simp add: accept_context_def put_files_def)
  from assms(1) show ?thesis
  proof (cases rule: AcceptBlock_cases)
    case (space C)
    then show ?thesis by (intro rules_tree [OF assms(2)]) simp_all
  next
    case (failed C f pos hProof d e)
    from AddToBlockIndex_rules [OF failed(3) c [OF failed(1)] WriteToDisk_spec(2) [OF failed(2)] y] show ?thesis .
  next
    case (added C f pos hProof d X1 ok S st)
    have "rules_inv E X1" by (rule AddToBlockIndex_rules [OF added(3) c [OF added(1)] WriteToDisk_spec(2) [OF added(2)] y])
    then show ?thesis by (rule rules_tree) (simp_all add: added(5) AcceptPending_tree [OF added(4)])
  qed (use assms(2) y in simp_all)
qed

interpretation header_rules: checkpoint_invariant E "\<lambda>_. True" "rules_inv E" for E
proof
  fix X X' :: block_node and M pool C
  assume "rules_inv E X" "bn_state X' = (bn_state X)\<lparr>ns_params := M, ns_pool := pool, ns_cache := C\<rparr>" "fTestNet M = fTestNet (bn_params X)"
  then show "rules_inv E X'" by (intro rules_tree [of E X X']) simp_all
next
  fix n c r S st and X :: block_node
  assume "ProcessSyncCheckpoint n E (node_io X) c (bn_state X) (bn_sync X) = Some (r, S, st)" "rules_inv E X"
  note c = this
  show "rules_inv E (X\<lparr>bn_state := S, bn_sync := st\<rparr>)" by (rule rules_tree [OF c(2)]) (simp_all add: ProcessSync_tree [OF c(1)])
qed (simp_all add: AcceptBlock_rules)

section \<open>Properties\<close>

text \<open>C2: Every block in the index obeys the rules of the header relative to its own ancestors, at every moment of
  every run: whatever blocks, orphans, transactions and checkpoint messages have arrived, whichever of them
  failed to connect, and however often the best chain was reorganised, a block with a parent has the height after
  its parent, exactly the difficulty bits \<^verbatim>\<open>GetNextTargetRequired\<close> demands there, a time after the median
  of its last eleven ancestors, the hash of the hardened checkpoint at its height, and is not a
  proof-of-work block above \<^verbatim>\<open>LAST_POW_BLOCK\<close>.\<close>

theorem known_blocks_obey_rules:
  assumes "(any_step E)\<^sup>*\<^sup>* X X'" and "index_inv (bn_map X) (Some g)" and "obeys_rules E (bn_params X) (bn_map X)"
    and "bn_map X' h = Some p" and "pprev p = Some q"
  shows "follows E (bn_params X') (entries (bn_map X') (chain_from (bn_map X') q)) (CBlockIndex.truncate p)"
proof -
  have "header_rules.holds E X" using assms(2,3) by (auto simp: header_rules.holds_def rules_inv_def)
  from header_rules.any_run [OF assms(1) this] have "obeys_rules E (bn_params X') (bn_map X')"
    by (simp add: header_rules.holds_def rules_inv_def)
  with assms(4,5) show ?thesis unfolding obeys_rules_def by blast
qed

end
