(* ===== verification/ChainPool.thy ===== *)
theory ChainPool
  imports ChainInv
begin

text \<open>
  The memory pool across a reorganisation. The removals that follow recurse along the spending links
  of the pool; on transactions whose hashes do not collide and whose links form no cycle they end, so
  \<^verbatim>\<open>SetBestChain\<close> returns, and the pool stays consistent.
\<close>

section \<open>Transactions in play\<close>

text \<open>A finite set of transactions with different hashes, ranked along their inputs.\<close>

definition acyclic_txs :: "env \<Rightarrow> (u256 \<Rightarrow> nat) \<Rightarrow> CTransaction set \<Rightarrow> bool" where
  "acyclic_txs E r T \<longleftrightarrow>
     finite T \<and> inj_on (GetHash E) T \<and> (\<forall>tx \<in> T. \<forall>i \<in> set (vin tx). r (prev_hash (prevout i)) < r (GetHash E tx))"

definition pool_within :: "env \<Rightarrow> CTransaction set \<Rightarrow> CTxMemPool \<Rightarrow> bool" where
  "pool_within E T p \<longleftrightarrow> pool_inv E p \<and> ran (mapTx p) \<subseteq> T"

lemma pool_within_ranked: "acyclic_txs E r T \<Longrightarrow> pool_within E T p \<Longrightarrow> pool_ranked r p"
  unfolding acyclic_txs_def pool_within_def pool_ranked_def using pool_invD(1) by (metis ranI subsetD)

lemma pool_within_card:
  assumes "acyclic_txs E r T" and "pool_within E T p"
  shows "card (dom (mapTx p)) \<le> card T"
proof -
  have "dom (mapTx p) \<subseteq> GetHash E ` T"
  proof
    fix h
    assume "h \<in> dom (mapTx p)"
    then obtain tx where "mapTx p h = Some tx" by auto
    with assms(2) pool_invD(1) show "h \<in> GetHash E ` T" unfolding pool_within_def by (metis imageI ranI subsetD)
  qed
  with assms(1) have "card (dom (mapTx p)) \<le> card (GetHash E ` T)" by (intro card_mono) (auto simp: acyclic_txs_def)
  also have "\<dots> \<le> card T" using assms(1) by (intro card_image_le) (simp add: acyclic_txs_def)
  finally show ?thesis .
qed

lemma pool_remove_within:
  assumes "acyclic_txs E r T" and "pool_within E T p" and "tx \<in> T"
  shows "\<exists>p'. pool_remove (Suc n) E tx False p = Some p' \<and> pool_within E T p'"
proof (cases "mapTx p (GetHash E tx)")
  case None
  with assms(2) show ?thesis by (simp add: Let_def)
next
  case (Some t)
  have "GetHash E t = GetHash E tx" "t \<in> T"
    using Some assms(2) pool_invD(1) by (auto simp: pool_within_def ranI subsetD)
  then have "t = tx" using assms(1,3) by (auto simp: acyclic_txs_def dest: inj_onD)
  then have "pool_inv E (erase_entry (GetHash E tx) tx p)" using Some assms(2) by (intro pool_inv_erase) (simp_all add: pool_within_def)
  moreover have "ran (mapTx (erase_entry (GetHash E tx) tx p)) \<subseteq> ran (mapTx p)"
    by (auto simp: erase_entry_def ran_def split: if_splits)
  ultimately show ?thesis using Some assms(2) by (auto simp: Let_def pool_within_def)
qed

lemma delete_redundant_within:
  assumes "acyclic_txs E r T" and "card T \<le> n" and "pool_within E T p" and "set txs \<subseteq> T"
  shows "\<exists>p'. delete_redundant n E txs p = Some p' \<and> pool_within E T p'"
  using assms(3,4)
proof (induction txs arbitrary: p)
  case (Cons tx txs)
  have "finite T" using assms(1) by (simp add: acyclic_txs_def)
  then have "card T > 0" using Cons.prems(2) by (simp add: card_gt_0_iff) auto
  then obtain k where k: "n = Suc k" using assms(2) by (cases n) auto
  obtain q where q: "pool_remove n E tx False p = Some q" "pool_within E T q"
    using pool_remove_within [OF assms(1) Cons.prems(1), of tx k] Cons.prems(2) k by auto
  have "pool_inv E q" using q(2) by (simp add: pool_within_def)
  moreover have "card (dom (mapTx q)) \<le> n" using pool_within_card [OF assms(1) q(2)] assms(2) by simp
  ultimately obtain s where s: "removeConflicts n E tx q = Some s" "pool_inv E s" "mapTx s \<subseteq>\<^sub>m mapTx q"
    using removeConflicts_loop_total [OF _ pool_within_ranked [OF assms(1) q(2)], of E n tx "vin tx"] unfolding removeConflicts_def by blast
  have "ran (mapTx s) \<subseteq> ran (mapTx q)" using s(3) by (auto simp: ran_def map_le_def) (metis domI)
  then have "pool_within E T s" using s(2) q(2) by (auto simp: pool_within_def)
  with Cons.IH [of s] Cons.prems(2) q(1) s(1) show ?case by simp
qed simp

lemma accept_unchecked_within:
  assumes "pool_within E T p" and "tx \<in> T" and "accept E N C db p chain l tx False = Inr (p', C')"
  shows "pool_within E T p'"
proof -
  have a: "CheckTransaction tx = Inr ()" "mapTx p (GetHash E tx) = None" "\<not> (\<exists>i \<in> set (vin tx). mapNextTx p (prevout i) \<noteq> None)"
      "p' = addUnchecked (GetHash E tx) tx p"
    using assms(3) by (simp_all add: accept_def Let_def split: sum.splits if_splits)
  have "distinct (map prevout (vin tx))" using a(1) by (simp add: CheckTransaction_char)
  then have "pool_inv E p'" unfolding a(4) using assms(1) a(2,3) by (intro pool_inv_addUnchecked refl) (simp add: pool_within_def, blast+)
  moreover have "ran (mapTx p') \<subseteq> insert tx (ran (mapTx p))" by (auto simp: a(4) addUnchecked_def ran_def split: if_splits)
  ultimately show ?thesis using assms(1,2) by (auto simp: pool_within_def)
qed

lemma resurrect_within:
  "pool_within E T p \<Longrightarrow> set txs \<subseteq> T \<Longrightarrow> pool_within E T (resurrect E N C db chain txs p)"
  by (induction txs arbitrary: p) (auto split: sum.split dest: accept_unchecked_within)

section \<open>Branches\<close>

definition blocks_within :: "env \<Rightarrow> node_params \<Rightarrow> chain_io \<Rightarrow> block_map \<Rightarrow> CTransaction set \<Rightarrow> bool" where
  "blocks_within E N io m T \<longleftrightarrow> (\<forall>h b. ReadFromDisk E N io m h = Some b \<longrightarrow> set (vtx b) \<subseteq> T)"

lemma disconnect_branch_within:
  assumes "blocks_within E N io m T" and "disconnect_branch E N io m hs D v = Some (D', v')" and "set v \<subseteq> T"
  shows "set v' \<subseteq> T"
  using assms(2,3)
proof (induction hs arbitrary: D v)
  case (Cons h hs)
  then obtain b D1 where b: "ReadFromDisk E N io m h = Some b"
      "disconnect_branch E N io m hs D1 (v @ filter (\<lambda>tx. \<not> (IsCoinBase tx \<or> IsCoinStake tx)) (vtx b)) = Some (D', v')"
    by (auto split: option.splits)
  then have "set (vtx b) \<subseteq> T" using assms(1) by (auto simp: blocks_within_def)
  with Cons.prems(2) show ?case by (intro Cons.IH [OF b(2)]) auto
qed simp

lemma connect_branch_within:
  assumes "blocks_within E N io m T" and "index_inv m g" and "\<forall>h \<in> set hs. m h \<noteq> None"
    and "connect_branch E N io pool hs (D, m, C) v = Inr (s', v')" and "set v \<subseteq> T"
  shows "set v' \<subseteq> T"
  using assms
proof (induction hs arbitrary: D m C v)
  case (Cons h hs)
  obtain b where b: "ReadFromDisk E N io m h = Some b" using Cons.prems(4) by (auto split: option.splits)
  obtain D1 m1 C1 where s: "connect_node E N io pool h b (D, m, C) = Some (D1, m1, C1)"
      "connect_branch E N io pool hs (D1, m1, C1) (v @ vtx b) = Inr (s', v')"
    using Cons.prems(4) b by (auto split: option.splits)
  obtain p where "m h = Some p" using Cons.prems(3) by auto
  note t = connect_node_utxo(3) [OF s(1) Cons.prems(2) this]
  have "blocks_within E N io m1 T" using Cons.prems(1) ReadFromDisk_tree [OF t] by (simp add: blocks_within_def)
  moreover have "\<forall>k \<in> set hs. m1 k \<noteq> None" using Cons.prems(3) tree_NoneD [OF t] by (metis list.set_intros(2))
  moreover have "set (v @ vtx b) \<subseteq> T" using Cons.prems(1,5) b by (auto simp: blocks_within_def)
  ultimately show ?case using Cons.IH [OF _ index_inv_tree [OF t [symmetric] Cons.prems(2)] _ s(2)] by blast
qed simp

lemma Reorganize_returns:
  assumes "index_inv (mapBlockIndex S) g" and "mapBlockIndex S h = Some p"
    and "acyclic_txs E r T" and "card T \<le> n" and "pool_within E T (ns_pool S)" and "blocks_within E (ns_params S) io (mapBlockIndex S) T"
  shows "\<exists>r. Reorganize n E io h S = Some r \<and> pool_within E T (ns_pool (case r of Inl S' \<Rightarrow> S' | Inr S' \<Rightarrow> S'))"
proof -
  let ?m = "mapBlockIndex S" and ?N = "ns_params S"
  have defd: "\<forall>k \<in> set (rev (takeWhile P (chain_from ?m h))). ?m k \<noteq> None" for P
    using linked_in [OF linked_chain_from(1) [OF assms(1,2)]] by (fastforce dest: set_takeWhileD)
  have fin: "\<exists>q. delete_redundant n E v' (resurrect E ?N C db chain v (ns_pool S)) = Some q \<and> pool_within E T q"
    if "disconnect_branch E ?N io ?m hs D [] = Some (D1, v)"
      "connect_branch E ?N io (ns_pool S) (rev (takeWhile P (chain_from ?m h))) (D1, ?m, ns_cache S) [] = Inr (s, v')" for hs D D1 v P s v' C db chain
  proof -
    have "set v \<subseteq> T" "set v' \<subseteq> T"
      using disconnect_branch_within [OF assms(6) that(1)] connect_branch_within [OF assms(6,1) defd that(2)] by simp_all
    then show ?thesis using delete_redundant_within [OF assms(3,4) resurrect_within [OF assms(5)]] by blast
  qed
  show ?thesis
    unfolding Reorganize_def Let_def
    by (auto split: option.split sum.split simp: assms(5) dest!: fin)
qed

section \<open>The best chain\<close>

lemma pool_within_updated [simp]: "pool_within E T (p\<lparr>nTransactionsUpdated := k\<rparr>) = pool_within E T p"
  by (simp add: pool_within_def pool_inv_def)

lemma pool_within_new_best [simp]: "pool_within E T (ns_pool (new_best b E h S)) = pool_within E T (ns_pool S)"
  by (simp add: new_best_def)

lemma ns_pool_invalid [simp]: "ns_pool (InvalidChainFound h S) = ns_pool S"
  by (simp add: InvalidChainFound_def Let_def)

lemma remove_block_within:
  assumes "acyclic_txs E r T" and "pool_within E T p" and "set txs \<subseteq> T"
  shows "pool_within E T (fold (remove_from_pool E) txs p)"
  using assms(2,3)
proof (induction txs arbitrary: p)
  case (Cons tx txs)
  obtain q where "pool_remove 1 E tx False p = Some q" "pool_within E T q"
    using pool_remove_within [OF assms(1) Cons.prems(1), of tx 0] Cons.prems(2) by auto
  with Cons show ?case by (simp add: remove_from_pool_def)
qed simp

lemma SetBestChainInner_within:
  assumes "acyclic_txs E r T" and "pool_within E T (ns_pool S)" and "set (vtx b) \<subseteq> T"
  shows "case SetBestChainInner E io b h S of Inl S' \<Rightarrow> pool_within E T (ns_pool S') | Inr S' \<Rightarrow> pool_within E T (ns_pool S')"
  using remove_block_within [OF assms] assms(2) by (auto simp: SetBestChainInner_def split: option.split)

lemma connect_postponed_within:
  assumes "acyclic_txs E r T" and "pool_within E T (ns_pool S)" and "chain_sync E io S" and "cd_best (ns_db S) = Some t"
    and "linked (mapBlockIndex S) (rev hs @ t # ts)" and "blocks_within E (ns_params S) io (mapBlockIndex S) T"
  shows "pool_within E T (ns_pool (connect_postponed E io hs S))"
  using assms(2-6)
proof (induction hs arbitrary: S t ts)
  case (Cons h hs)
  let ?m = "mapBlockIndex S"
  have "linked ?m (h # t # ts)" using linked_suffix [of ?m "rev hs" "h # t # ts"] Cons.prems(4) by simp
  then obtain p where p: "?m h = Some p" "pprev p = Some t" by auto
  show ?case
  proof (cases "ReadFromDisk E (ns_params S) io ?m h")
    case (Some b)
    have hb: "CBlock_GetHash E b = h" using Cons.prems(2) ReadFromDisk_hash [OF _ Some] by (auto simp: chain_sync_def)
    have T: "set (vtx b) \<subseteq> T" using Cons.prems(5) Some by (auto simp: blocks_within_def)
    note w = SetBestChainInner_within [OF assms(1) Cons.prems(1) T, of io h]
    note i = SetBestChainInner_sync [OF Cons.prems(2,3) p Some hb]
    show ?thesis
    proof (cases "SetBestChainInner E io b h S")
      case (Inl S')
      with w Some show ?thesis by simp
    next
      case (Inr S')
      with i have s: "chain_sync E io S'" "cd_best (ns_db S') = Some h" "tree (mapBlockIndex S') = tree ?m" "ns_params S' = ns_params S" by auto
      have "linked (mapBlockIndex S') (rev hs @ h # t # ts)" using linked_tree [OF s(3)] Cons.prems(4) by simp
      moreover have "blocks_within E (ns_params S') io (mapBlockIndex S') T"
        using Cons.prems(5) s(4) ReadFromDisk_tree [OF s(3)] by (simp add: blocks_within_def)
      ultimately show ?thesis using Cons.IH [OF _ s(1,2)] w Inr Some by simp
    qed
  qed (use Cons.prems(1) in simp)
qed simp

lemma SetBestChain_returns:
  assumes "chain_sync E io S" and "best_sync S" and "indexed E io b h S"
    and "acyclic_txs E r T" and "card T \<le> n" and "pool_within E T (ns_pool S)" and "blocks_within E (ns_params S) io (mapBlockIndex S) T"
  shows "\<exists>r. SetBestChain n E io b h S = Some r \<and> pool_within E T (ns_pool (case r of Inl S' \<Rightarrow> S' | Inr S' \<Rightarrow> S'))"
proof -
  let ?m = "mapBlockIndex S"
  let ?best = "case pindexBest S of None \<Rightarrow> 0 | Some p \<Rightarrow> p"
  from assms(3) obtain p where h: "CBlock_GetHash E b = h" "ReadFromDisk E (ns_params S) io ?m h = Some b" "?m h = Some p"
    by (auto simp: indexed_def)
  have T: "set (vtx b) \<subseteq> T" using assms(7) h(2) by (auto simp: blocks_within_def)
  have inv: "index_inv ?m (pindexGenesisBlock S)" using assms(1) by (simp add: chain_sync_def)
  note w = SetBestChainInner_within [OF assms(4,6) T, of io h]
  obtain sec i where pp: "postpone ?m ?best (chain_from ?m h) = (sec, i)" by (metis surj_pair)
  note lh = linked_chain_from [OF inv h(3)]
  obtain ys where ys: "chain_from ?m h = sec @ i # ys" using postpone_split [OF pp linked_nonempty [OF lh(1)]] .
  obtain pi where pi: "?m i = Some pi" using linked_in [OF lh(1), of i] ys by auto
  obtain r' where r': "Reorganize n E io i S = Some r'" "pool_within E T (ns_pool (case r' of Inl S' \<Rightarrow> S' | Inr S' \<Rightarrow> S'))"
    using Reorganize_returns [OF inv pi assms(4-7)] by blast
  have post: "pool_within E T (ns_pool (connect_postponed E io (rev sec) S'))" if S': "r' = Inr S'" for S'
  proof (cases "pindexBest S")
    case None
    then have "find_fork ?m [] x = None" for x by simp
    with None r'(1) S' show ?thesis by (simp add: Reorganize_def Let_def)
  next
    case (Some t)
    note R = Reorganize_sync [OF assms(1,2) Some pi r'(1)]
    with S' have s: "chain_sync E io S'" "cd_best (ns_db S') = Some i" "tree (mapBlockIndex S') = tree ?m" "ns_params S' = ns_params S" by auto
    have "linked (mapBlockIndex S') (rev (rev sec) @ i # ys)" using linked_tree [OF s(3) lh(1)] ys by simp
    moreover have "blocks_within E (ns_params S') io (mapBlockIndex S') T"
      using assms(7) s(4) ReadFromDisk_tree [OF s(3)] by (simp add: blocks_within_def)
    ultimately show ?thesis using connect_postponed_within [OF assms(4) _ s(1,2)] r'(2) S' by simp
  qed
  show ?thesis
    using w pp r' post assms(6) unfolding SetBestChain_def
    by (auto split: option.split sum.split)
qed

section \<open>Properties\<close>

text \<open>C5: \<open>SetBestChain\<close> returns. When the transactions of the pool and of all readable blocks have
  different hashes and no transaction spends, directly or not, its own outputs, the removals from the
  pool nest no deeper than the number of transactions, and the pool is consistent afterwards, whether
  the attempt succeeds or not.\<close>

theorem SetBestChain_terminates:
  assumes "chain_sync E io S" and "best_sync S" and "indexed E io b h S"
    and "acyclic_txs E r T" and "pool_within E T (ns_pool S)" and "blocks_within E (ns_params S) io (mapBlockIndex S) T"
  shows "\<exists>r. SetBestChain (card T) E io b h S = Some r \<and> pool_within E T (ns_pool (case r of Inl S' \<Rightarrow> S' | Inr S' \<Rightarrow> S'))"
  using SetBestChain_returns [OF assms(1-4) order_refl assms(5,6)] .

end
