(* ===== verification/BlockSamples.thy ===== *)
theory BlockSamples
  imports BlockFiles
begin

text \<open>
  Concrete blocks: one that connects, which instantiates the properties of theory \<open>BlockConnect\<close>, and a
  proof-of-work block that mints coins through a coinstake transaction.
\<close>

section \<open>A block that connects\<close>

definition coinbase_sample :: CTransaction where
  "coinbase_sample = \<lparr>nVersion = 1, nTime = 5, vin = [\<lparr>prevout = \<lparr>prev_hash = 0, prev_n = - 1\<rparr>, scriptSig = [0x51, 0x51], nSequence = 0\<rparr>],
     vout = [\<lparr>nValue = 30000, scriptPubKey = [0x51]\<rparr>], nLockTime = 0\<rparr>"

definition mined_sample :: CBlock where
  "mined_sample = \<lparr>blk_nVersion = 2, hashPrevBlock = 0, hashMerkleRoot = 67, blk_nTime = 5, nBits = 0x0300ffff, nNonce = 0,
     vtx = [coinbase_sample], vchBlockSig = []\<rparr>"

definition chain_db_sample :: CChainDB where
  "chain_db_sample = \<lparr>cd_tx = \<lparr>db_index = Map.empty, db_disk = (\<lambda>_. None), db_writable = (\<lambda>_. True)\<rparr>,
     cd_index = Map.empty, cd_index_writable = (\<lambda>_. True), cd_best = None, cd_invalid_trust = None\<rparr>"

definition connected_sample :: "failure + (CChainDB \<times> CBlockIndex \<times> CSignatureCache)" where
  "connected_sample = ConnectBlock len_env params_sample empty_cache chain_db_sample empty_pool (\<lambda>_ _. None)
     mined_sample [index_sample, index_sample] False"

lemma coinbase_size: "GetSerializeSize_CTransaction coinbase_sample = 67"
  by code_simp

lemma mined_size: "GetSerializeSize_CBlock mined_sample = 149"
  by (simp add: GetSerializeSize_CBlock_def mined_sample_def GetSerializeSize_vector_def GetSerializeSize_bytes_def
      GetSizeOfCompactSize_def coinbase_size)

lemma coinbase_sigops: "GetLegacySigOpCount coinbase_sample = 0"
proof -
  have "GetSigOpCount False [0x51, 0x51] = 0" "GetSigOpCount False [0x51] = 0" by code_simp+
  then show ?thesis by (simp add: GetLegacySigOpCount_def coinbase_sample_def)
qed

lemma coinbase_kind: "IsCoinBase coinbase_sample" "\<not> IsCoinStake coinbase_sample" "IsProofOfWork mined_sample"
  by (simp_all add: IsCoinBase_def IsCoinStake_def COutPoint_IsNull_def coinbase_sample_def IsProofOfWork_def IsProofOfStake_def mined_sample_def)

lemma mined_target: "SetCompact len_env 0 0x0300ffff = 0xffff"
proof -
  have a: "unat (drop_bit 24 (0x0300ffff :: u32)) = 3" "ucast (drop_bit 16 (0x0300ffff :: u32)) = (0 :: byte)"
    "ucast (drop_bit 8 (0x0300ffff :: u32)) = (0xff :: byte)" "ucast (0x0300ffff :: u32) = (0xff :: byte)"
    by simp_all
  moreover have "int_of_vch [0xff, 0xff, 0] = 0xffff" by (simp add: int_of_vch_def)
  ultimately show ?thesis unfolding SetCompact_doc [OF bn_doc_len_env] a by simp
qed

lemma hash_len_env: "length bs \<noteq> 32 \<Longrightarrow> length bs < 2 ^ 64 \<Longrightarrow> Hash len_env bs = word_of_nat (length bs)"
  by (simp add: Hash_def len_env_def Let_def uint256_bytes_def unsigned_less [where ?'b = 256, simplified])


lemma mined_hashes: "GetHash len_env coinbase_sample = 67" "CBlock_GetHash len_env mined_sample = 80"
proof -
  have "length (Serialize_CTransaction coinbase_sample) = 67" using coinbase_size tx.sz_ser by simp
  then show "GetHash len_env coinbase_sample = 67" by (simp add: GetHash_def hash_len_env)
  show "CBlock_GetHash len_env mined_sample = 80" by (simp add: CBlock_GetHash_def Serialize_header_def hash_len_env)
qed

lemma mined_work: "CheckProofOfWork len_env params_sample 80 0x0300ffff"
  unfolding CheckProofOfWork_char [OF bn_doc_len_env] mined_target by (simp add: bnProofOfWorkLimit_def params_sample_def)

lemma mined_checked: "CheckBlock len_env params_sample mined_sample True True False = Inr ()"
proof -
  note w = mined_work
  have t: "CheckTransaction coinbase_sample = Inr ()"
    unfolding CheckTransaction_char tx.sz_ser [symmetric] coinbase_size
    using coinbase_kind(1) by (simp add: MAX_BLOCK_SIZE_def MAX_MONEY_small coinbase_sample_def)
  have m: "BuildMerkleTree len_env mined_sample = 67"
    unfolding BuildMerkleTree_root by (simp add: mined_sample_def mined_hashes(1) tree_root_single)
  have f: "FutureDrift 0 = 600" "FutureDrift 5 = 605" by (simp_all add: FutureDrift_def wrap64_id int64_range_def)
  have v: "vtx mined_sample = [coinbase_sample]" "blk_nTime mined_sample = 5" "nBits mined_sample = 0x0300ffff"
      "hashMerkleRoot mined_sample = 67" "nTime coinbase_sample = 5" "AdjustedTime params_sample = 0"
    by (simp_all add: mined_sample_def coinbase_sample_def params_sample_def)
  show ?thesis
    using coinbase_kind w t m f
    by (simp add: CheckBlock_def mined_size mined_hashes v coinbase_sigops MAX_BLOCK_SIZE_def IsProofOfWork_def)
qed

lemma mined_connects_to:
  assumes "db_index (cd_tx D) = Map.empty" and "\<forall>h. db_writable (cd_tx D) h" and "\<forall>h. cd_index_writable D h"
  shows "\<exists>D' p C'. ConnectBlock len_env params_sample C D pool block_time mined_sample pindex False = Inr (D', p, C') \<and>
    cd_index_writable D' = cd_index_writable D"
proof -
  have w: "wrap64 30000 = 30000" by (simp add: wrap64_id int64_range_def)
  have g: "GetValueOut coinbase_sample = Some 30000"
    using w by (simp add: GetValueOut_def coinbase_sample_def MoneyRange_def MAX_MONEY_small)
  have r: "GetProofOfWorkReward 0 = 80 * COIN" by (simp add: GetProofOfWorkReward_def wrap64_id int64_range_def COIN_def)
  have v: "vtx mined_sample = [coinbase_sample]" by (simp add: mined_sample_def)
  show ?thesis
    using coinbase_kind g w r assms
    by (simp add: ConnectBlock_def mined_checked v connect_tx_def overwrites_unspent_def ReadTxIndex_def
        enter_tx_def coinbase_sigops connect_coinbase_def check_reward_def COIN_def Let_def WriteBlockIndex_def write_queued_def
        write_prev_next_def CDiskBlockIndex_of_def)
qed

lemma mined_connects:
  "\<exists>D' p C'. connected_sample = Inr (D', p, C') \<and> cd_index_writable D' = (\<lambda>_. True)"
  using mined_connects_to [of chain_db_sample empty_cache empty_pool "\<lambda>_ _. None" "[index_sample, index_sample]"]
  by (auto simp: connected_sample_def chain_db_sample_def)

lemma index_sample_pos: "bp_nFile index_sample \<noteq> - 1" "nMoneySupply index_sample = 0"
  by (simp_all add: index_sample_def CBlockIndex_new_def)

theorem ConnectBlock_refines_utxo_witness:
  "\<exists>D' p C'. connected_sample = Inr (D', p, C') \<and> utxo_apply len_env [coinbase_sample] (utxo (cd_tx chain_db_sample)) = Some (utxo (cd_tx D'))"
proof -
  obtain D' p C' where c: "connected_sample = Inr (D', p, C')" using mined_connects by blast
  have "utxo_apply len_env (vtx mined_sample) (utxo (cd_tx chain_db_sample)) = Some (utxo (cd_tx D'))"
    using c unfolding connected_sample_def by (rule ConnectBlock_refines_utxo) (simp add: index_sample_pos)
  moreover have "vtx mined_sample = [coinbase_sample]" by (simp add: mined_sample_def)
  ultimately have "utxo_apply len_env [coinbase_sample] (utxo (cd_tx chain_db_sample)) = Some (utxo (cd_tx D'))" by (simp only:)
  with c show ?thesis by blast
qed

theorem DisconnectBlock_undoes_ConnectBlock_witness:
  "\<exists>D' p C' D''. connected_sample = Inr (D', p, C') \<and> DisconnectBlock len_env D' mined_sample [p, index_sample] = Some D'' \<and>
     utxo (cd_tx D'') = utxo (cd_tx chain_db_sample)"
proof -
  obtain D' p C' where c: "connected_sample = Inr (D', p, C')" "cd_index_writable D' = (\<lambda>_. True)" using mined_connects by blast
  have "\<exists>D''. DisconnectBlock len_env D' mined_sample (p # tl [index_sample, index_sample]) = Some D'' \<and> utxo (cd_tx D'') = utxo (cd_tx chain_db_sample) \<and>
    coins_of (db_index (cd_tx D'')) = fold coins_erase (map (GetHash len_env) (vtx mined_sample)) (coins_of (db_index (cd_tx chain_db_sample)))"
    using c(1) unfolding connected_sample_def
    by (rule DisconnectBlock_undoes_ConnectBlock) (simp_all add: index_sample_pos c(2) chain_db_sample_def)
  with c(1) show ?thesis by auto
qed

theorem ConnectBlock_money_supply_witness:
  "\<exists>D' p C'. connected_sample = Inr (D', p, C') \<and> nMoneySupply p \<le> 80 * COIN"
proof -
  obtain D' p C' where c: "connected_sample = Inr (D', p, C')" using mined_connects by blast
  have v: "vtx mined_sample = [coinbase_sample]" by (simp add: mined_sample_def)
  have "if IsProofOfWork mined_sample then nMoneySupply p \<le> nMoneySupply index_sample + 80 * COIN
    else \<exists>nCoinAge. GetCoinAge len_env params_sample (cd_tx chain_db_sample) (\<lambda>_ _. None) (vtx mined_sample ! 1) = Inr nCoinAge \<and>
      nMoneySupply p \<le> nMoneySupply index_sample + stake_subsidy (wrap64 (uint nCoinAge))"
    using c unfolding connected_sample_def
    by (rule ConnectBlock_money_supply) (simp_all add: index_sample_pos MoneyRange_0 v coinbase_kind)
  then have "nMoneySupply p \<le> 80 * COIN" using coinbase_kind(3) by (simp add: index_sample_pos)
  with c show ?thesis by blast
qed

text \<open>The block in the first block file.\<close>

definition files_sample :: block_files where
  "files_sample = \<lparr>bf_bytes = (\<lambda>_. []), bf_opens = (\<lambda>_. True), nCurrentBlockFile = 1\<rparr>"

lemma mined_written: "\<exists>d'. WriteToDisk params_sample mined_sample files_sample = (Some (1, 8), d')"
proof -
  have "AppendBlockFile files_sample = (Some 1, files_sample)"
    by (simp add: AppendBlockFile.simps [of files_sample] OpenBlockFile_def) (simp add: files_sample_def MAX_SIZE_def)
  then show ?thesis by (simp add: WriteToDisk_def Let_def pchMessageStart_def) (simp add: files_sample_def params_sample_def)
qed

theorem connected_txs_readable_witness:
  "\<exists>d' D' p C' idx. WriteToDisk params_sample mined_sample files_sample = (Some (1, 8), d') \<and> connected_sample = Inr (D', p, C') \<and>
     ReadTxIndex (cd_tx D') (GetHash len_env coinbase_sample) = Some idx \<and> read_tx d' (tx_pos idx) = Some coinbase_sample"
proof -
  obtain D' p C' where c: "connected_sample = Inr (D', p, C')" using mined_connects by blast
  obtain d' where d: "WriteToDisk params_sample mined_sample files_sample = (Some (1, 8), d')" using mined_written by blast
  have i: "bp_nFile (hd [index_sample, index_sample]) = 1" "bp_nBlockPos (hd [index_sample, index_sample]) = 8"
    by (simp_all add: index_sample_def CBlockIndex_new_def)
  have "files_grow d' d'" by (simp add: files_grow_def)
  from connected_txs_readable [OF d this c [unfolded connected_sample_def] i] have
    "\<forall>tx \<in> set (vtx mined_sample). \<exists>idx. ReadTxIndex (cd_tx D') (GetHash len_env tx) = Some idx \<and> read_tx d' (tx_pos idx) = Some tx" by blast
  moreover have "vtx mined_sample = [coinbase_sample]" by (simp add: mined_sample_def)
  ultimately show ?thesis using c d by auto
qed

text \<open>The same block on a database that already holds its coinbase unspent.\<close>

definition repeated_db :: CChainDB where
  "repeated_db = chain_db_sample\<lparr>cd_tx := \<lparr>db_index = [67 \<mapsto> CTxIndex_new mempool_pos 1], db_disk = (\<lambda>_. None), db_writable = (\<lambda>_. True)\<rparr>\<rparr>"

theorem ConnectBlock_checks_never_throw_witness:
  "\<exists>e nDoS. ConnectBlock len_env params_sample empty_cache repeated_db empty_pool (\<lambda>_ _. None) mined_sample [index_sample] False = Inl e \<and>
     e = Rejected nDoS"
proof -
  have v: "vtx mined_sample = [coinbase_sample]" by (simp add: mined_sample_def)
  have "overwrites_unspent len_env (cd_tx repeated_db) coinbase_sample"
    by (simp add: overwrites_unspent_def ReadTxIndex_def mined_hashes(1) repeated_db_def CTxIndex_new_def CDiskTxPos_IsNull_def CDiskTxPos_SetNull_def)
  then have "ConnectBlock len_env params_sample empty_cache repeated_db empty_pool (\<lambda>_ _. None) mined_sample [index_sample] False = Inl (Rejected 0)"
    by (simp add: ConnectBlock_def mined_checked v connect_tx_def)
  with ConnectBlock_checks_never_throw [OF bn_doc_len_env this] show ?thesis by blast
qed

lemma CheckBlock_merkle: "CheckBlock E N b f True s = Inr () \<Longrightarrow> hashMerkleRoot b = BuildMerkleTree E b \<and> vtx b \<noteq> []"
  by (auto simp: CheckBlock_def split: if_splits sum.splits)

text \<open>The header of a checked block determines its transactions. Two blocks that pass \<open>CheckBlock\<close> with
  the same Merkle root and trees of the same height have the same transaction hashes in the same order,
  provided no two different pairs among those hashed for the two trees collide. In particular repeating
  the last transactions of a block, which leaves the root unchanged, is rejected.\<close>

theorem CheckBlock_root_determines_txs:
  assumes "CheckBlock E N b f True s = Inr ()" and "CheckBlock E N b' f' True s' = Inr ()"
    and "hashMerkleRoot b = hashMerkleRoot b'"
    and "length (tree_rows E (map (GetHash E) (vtx b))) = length (tree_rows E (map (GetHash E) (vtx b')))"
    and "collision_free E (tree_pairs E (map (GetHash E) (vtx b)) \<union> tree_pairs E (map (GetHash E) (vtx b')))"
  shows "map (GetHash E) (vtx b) = map (GetHash E) (vtx b')"
  using tree_root_inject [of "map (GetHash E) (vtx b)" "map (GetHash E) (vtx b')" E] assms(3-5)
    CheckBlock_merkle [OF assms(1)] CheckBlock_merkle [OF assms(2)]
    CheckBlock_distinct [OF assms(1)] CheckBlock_distinct [OF assms(2)]
  by (simp add: BuildMerkleTree_root)

theorem CheckBlock_root_determines_txs_witness:
  "map (GetHash len_env) (vtx (mined_sample\<lparr>vchBlockSig := []\<rparr>)) = map (GetHash len_env) (vtx mined_sample)"
proof (rule CheckBlock_root_determines_txs)
  show "CheckBlock len_env params_sample mined_sample True True False = Inr ()" by (rule mined_checked)
  show "CheckBlock len_env params_sample (mined_sample\<lparr>vchBlockSig := []\<rparr>) True True False = Inr ()"
    using mined_checked by (simp add: mined_sample_def)
qed (simp_all add: tree_pairs_def tree_rows_leaf mined_sample_def collision_free_def)

section \<open>A coinstake outside a proof-of-stake block\<close>

text \<open>
  In a proof-of-work block \<^verbatim>\<open>CheckBlock\<close> does not look for coinstake transactions, \<^verbatim>\<open>ConnectInputs\<close> exempts
  them from the value rules and \<^verbatim>\<open>ConnectBlock\<close> compares \<^verbatim>\<open>nStakeReward\<close> only for proof-of-stake blocks.
\<close>

definition stake_sample :: CTransaction where
  "stake_sample = \<lparr>nVersion = 1, nTime = 5, vin = [\<lparr>prevout = \<lparr>prev_hash = 65, prev_n = 0\<rparr>, scriptSig = [], nSequence = 0\<rparr>],
     vout = [\<lparr>nValue = 0, scriptPubKey = []\<rparr>, \<lparr>nValue = 20000000 * COIN, scriptPubKey = [0x51]\<rparr>], nLockTime = 0\<rparr>"

definition pow_stake_sample :: CBlock where
  "pow_stake_sample = mined_sample\<lparr>vtx := [coinbase_sample, tx_sample, stake_sample], hashMerkleRoot := 64\<rparr>"

definition pow_stake_db :: CChainDB where
  "pow_stake_db = chain_db_sample\<lparr>cd_tx := \<lparr>db_index = [24 \<mapsto> CTxIndex_new \<lparr>nFile = 1, nBlockPos = 8, nTxPos = 9\<rparr> 1],
     db_disk = (\<lambda>d. if d = \<lparr>nFile = 1, nBlockPos = 8, nTxPos = 9\<rparr> then Some prev_sample else Some tx_sample), db_writable = (\<lambda>_. True)\<rparr>\<rparr>"

lemma connect_single_spend:
  assumes tx: "vin tx = [\<lparr>prevout = \<lparr>prev_hash = h, prev_n = 0\<rparr>, scriptSig = [], nSequence = 0\<rparr>]" "\<not> IsCoinBase tx" "nTime tx = 5"
    and prev: "vout prev = [\<lparr>nValue = v, scriptPubKey = [0x51]\<rparr>]" "GetHash len_env prev = h" "\<not> IsCoinBase prev" "\<not> IsCoinStake prev"
      "nTime prev \<le> 5" "MoneyRange v" "wrap64 v = v"
    and idx: "(db_index db ++ Q) h = Some (CTxIndex_new d 1)" "d \<noteq> mempool_pos" "db_disk db d = Some prev"
    and fees: "IsCoinStake tx \<or> connect_fees tx True v = Inr ()"
  shows "FetchInputs db Q pool True False tx Map.empty = Inr [h \<mapsto> (CTxIndex_new d 1, prev)]"
    and "GetP2SHSigOpCount tx [h \<mapsto> (CTxIndex_new d 1, prev)] = Inr 0"
    and "GetValueIn tx [h \<mapsto> (CTxIndex_new d 1, prev)] = Inr v"
    and "ConnectInputs len_env params_sample C tx [h \<mapsto> (CTxIndex_new d 1, prev)] Q p chain True False =
      Inr (Q(h \<mapsto> \<lparr>tx_pos = d, vSpent = [p]\<rparr>), C)"
proof -
  have f: "(if Q h \<noteq> None then Q h else db_index db h) = Some (CTxIndex_new d 1)"
    using idx(1) by (auto simp: map_add_def split: option.splits)
  show "FetchInputs db Q pool True False tx Map.empty = Inr [h \<mapsto> (CTxIndex_new d 1, prev)]"
    using tx idx(2,3) prev(1) f
    by (auto simp: FetchInputs_def ReadTxIndex_def CTxIndex_new_def prevout_in_range_def Let_def split: if_splits)
  show "GetP2SHSigOpCount tx [h \<mapsto> (CTxIndex_new d 1, prev)] = Inr 0"
    using tx prev(1) by (simp add: GetP2SHSigOpCount_def GetOutputFor_def IsPayToScriptHash_def)
  show "GetValueIn tx [h \<mapsto> (CTxIndex_new d 1, prev)] = Inr v"
    using tx prev(1,7) by (simp add: GetValueIn_def GetOutputFor_def)
  have vs: "VerifySignature len_env C prev tx 0 0 = Some (True, C)"
    using tx prev(1,2) sample_script by (simp add: VerifySignature_def)
  have c: "connect_check params_sample chain (nTime tx) [h \<mapsto> (CTxIndex_new d 1, prev)] (vin tx) 0 = Inr v"
    using tx prev by (simp add: prevout_in_range_def CTxIndex_new_def)
  show "ConnectInputs len_env params_sample C tx [h \<mapsto> (CTxIndex_new d 1, prev)] Q p chain True False =
      Inr (Q(h \<mapsto> \<lparr>tx_pos = d, vSpent = [p]\<rparr>), C)"
    using c vs tx fees
    by (auto simp: ConnectInputs_def CTxIndex_new_def CDiskTxPos_IsNull_def CDiskTxPos_SetNull_def Let_def params_sample_def)
qed


lemma stake_kind: "IsCoinStake stake_sample" "\<not> IsCoinBase stake_sample" "\<not> IsCoinBase tx_sample" "\<not> IsCoinStake tx_sample"
  "IsProofOfWork pow_stake_sample" "\<not> IsCoinBase prev_sample" "\<not> IsCoinStake prev_sample"
  by (simp_all add: IsCoinBase_def IsCoinStake_def COutPoint_IsNull_def CTxOut_IsEmpty_def stake_sample_def tx_sample_def prev_sample_def
      IsProofOfWork_def IsProofOfStake_def pow_stake_sample_def)

lemma stake_size: "GetSerializeSize_CTransaction stake_sample = 74"
  by code_simp

lemma stake_hash: "GetHash len_env stake_sample = 74"
proof -
  have "length (Serialize_CTransaction stake_sample) = 74" using stake_size tx.sz_ser by simp
  then show ?thesis by (simp add: GetHash_def hash_len_env)
qed

lemma stake_sigops: "GetLegacySigOpCount stake_sample = 0" "GetLegacySigOpCount tx_sample = 0"
proof -
  have "GetSigOpCount False [] = 0" "GetSigOpCount False [0x51] = 0" by code_simp+
  then show "GetLegacySigOpCount stake_sample = 0" "GetLegacySigOpCount tx_sample = 0"
    by (simp_all add: GetLegacySigOpCount_def stake_sample_def tx_sample_def)
qed

lemma pow_stake_checked: "CheckBlock len_env params_sample pow_stake_sample True True False = Inr ()"
proof -
  have hp: "HashPair len_env a b = 64" for a b
    by (simp add: HashPair_def Hash2_def len_env_def Let_def uint256_bytes_def)
  have m: "BuildMerkleTree len_env pow_stake_sample = 64"
    unfolding BuildMerkleTree_root by (simp add: pow_stake_sample_def tree_root_step tree_root_single hp)
  have w: "CheckProofOfWork len_env params_sample 80 0x0300ffff"
    unfolding CheckProofOfWork_char [OF bn_doc_len_env] mined_target by (simp add: bnProofOfWorkLimit_def params_sample_def)
  have h: "CBlock_GetHash len_env pow_stake_sample = 80" by (simp add: CBlock_GetHash_def Serialize_header_def hash_len_env)
  have t: "CheckTransaction coinbase_sample = Inr ()" "CheckTransaction tx_sample = Inr ()" "CheckTransaction stake_sample = Inr ()"
    unfolding CheckTransaction_char tx.sz_ser [symmetric] coinbase_size sample_hashes(3) stake_size
    using coinbase_kind stake_kind
    by (simp_all add: MAX_BLOCK_SIZE_def MAX_MONEY_small coinbase_sample_def tx_sample_def stake_sample_def CTxOut_IsEmpty_def
        COutPoint_IsNull_def COIN_def)
  have f: "FutureDrift 0 = 600" "FutureDrift 5 = 605" by (simp_all add: FutureDrift_def wrap64_id int64_range_def)
  have v: "vtx pow_stake_sample = [coinbase_sample, tx_sample, stake_sample]" "blk_nTime pow_stake_sample = 5"
      "nBits pow_stake_sample = 0x0300ffff" "vchBlockSig pow_stake_sample = []"
      "hashMerkleRoot pow_stake_sample = 64" "nTime coinbase_sample = 5" "nTime tx_sample = 5" "nTime stake_sample = 5" "AdjustedTime params_sample = 0"
    by (simp_all add: pow_stake_sample_def mined_sample_def coinbase_sample_def tx_sample_def stake_sample_def params_sample_def)
  have s: "GetSerializeSize_CBlock pow_stake_sample = 288"
    by (simp add: GetSerializeSize_CBlock_def v GetSerializeSize_vector_def GetSerializeSize_bytes_def
        GetSizeOfCompactSize_def coinbase_size sample_hashes(3) stake_size)
  show ?thesis
    using coinbase_kind stake_kind w t m f
    by (simp add: CheckBlock_def s h v mined_hashes sample_hashes stake_hash coinbase_sigops stake_sigops MAX_BLOCK_SIZE_def IsProofOfWork_def)
qed

lemma connect_tx_single_spend:
  assumes tx: "vin tx = [\<lparr>prevout = \<lparr>prev_hash = h, prev_n = 0\<rparr>, scriptSig = [], nSequence = 0\<rparr>]" "\<not> IsCoinBase tx" "nTime tx = 5"
      "GetLegacySigOpCount tx = 0" "GetValueOut tx = Some v'" "cs_nSigOps st = 0" "\<not> overwrites_unspent len_env db tx"
    and prev: "vout prev = [\<lparr>nValue = v, scriptPubKey = [0x51]\<rparr>]" "GetHash len_env prev = h" "\<not> IsCoinBase prev" "\<not> IsCoinStake prev"
      "nTime prev \<le> 5" "MoneyRange v" "wrap64 v = v"
    and idx: "(db_index db ++ mapQueuedChanges st) h = Some (CTxIndex_new d 1)" "d \<noteq> mempool_pos" "db_disk db d = Some prev"
    and fees: "IsCoinStake tx \<or> connect_fees tx True v = Inr ()"
  shows "connect_tx len_env params_sample db pool pindex False tx st =
    Inr \<lparr>cs_nTxPos = cs_nTxPos st + word_of_nat (GetSerializeSize_CTransaction tx),
         mapQueuedChanges = (mapQueuedChanges st)(h \<mapsto> \<lparr>tx_pos = d, vSpent = [posThisTx (hd pindex) st]\<rparr>,
           GetHash len_env tx \<mapsto> CTxIndex_new (posThisTx (hd pindex) st) (length (vout tx))),
         cs_nFees = (if \<not> IsCoinStake tx then wrap64 (cs_nFees st + wrap64 (v - v')) else cs_nFees st),
         cs_nValueIn = wrap64 (cs_nValueIn st + v), cs_nValueOut = wrap64 (cs_nValueOut st + v'),
         nStakeReward = (if IsCoinStake tx then wrap64 (v' - v) else nStakeReward st), cs_nSigOps = 0, cs_cache = cs_cache st\<rparr>"
proof -
  note s = connect_single_spend [OF tx(1-3) prev idx fees]
  show ?thesis
    using tx s
    by (simp add: connect_tx_def Let_def enter_tx_def connect_noncoinbase_def)
qed

lemma sample_fields:
  "vin tx_sample = [\<lparr>prevout = \<lparr>prev_hash = 24, prev_n = 0\<rparr>, scriptSig = [], nSequence = 0\<rparr>]" "nTime tx_sample = 5"
  "vout tx_sample = [\<lparr>nValue = 30000, scriptPubKey = [0x51]\<rparr>]"
  "vin stake_sample = [\<lparr>prevout = \<lparr>prev_hash = 65, prev_n = 0\<rparr>, scriptSig = [], nSequence = 0\<rparr>]" "nTime stake_sample = 5"
  "length (vout stake_sample) = 2"
  "vout prev_sample = [\<lparr>nValue = 50000, scriptPubKey = [0x51]\<rparr>]" "nTime prev_sample = 0" "length (vout coinbase_sample) = 1"
  by (simp_all add: tx_sample_def stake_sample_def prev_sample_def coinbase_sample_def)

lemma pow_stake_db_fields:
  "db_index (cd_tx pow_stake_db) = [24 \<mapsto> CTxIndex_new \<lparr>nFile = 1, nBlockPos = 8, nTxPos = 9\<rparr> 1]"
  "db_disk (cd_tx pow_stake_db) d = (if d = \<lparr>nFile = 1, nBlockPos = 8, nTxPos = 9\<rparr> then Some prev_sample else Some tx_sample)"
  "db_writable (cd_tx pow_stake_db) = (\<lambda>_. True)" "cd_index_writable pow_stake_db = (\<lambda>_. True)"
  by (simp_all add: pow_stake_db_def chain_db_sample_def)

lemma pow_stake_txs:
  assumes n: "n = 89" and C: "C = empty_cache"
  shows "\<exists>st. connect_txs len_env params_sample (cd_tx pow_stake_db) empty_pool [index_sample, index_sample] False
      [coinbase_sample, tx_sample, stake_sample]
      \<lparr>cs_nTxPos = n, mapQueuedChanges = Map.empty, cs_nFees = 0, cs_nValueIn = 0, cs_nValueOut = 0, nStakeReward = 0,
       cs_nSigOps = 0, cs_cache = C\<rparr> = Inr st \<and>
    cs_nFees st = 20000 \<and> cs_nValueIn st = 80000 \<and> cs_nValueOut st = 60000 + 20000000 * COIN"
proof -
  let ?d1 = "\<lparr>nFile = 1, nBlockPos = 8, nTxPos = 9\<rparr>"
  let ?db = "cd_tx pow_stake_db" and ?ix = "[index_sample, index_sample]"
  have w: "wrap64 30000 = 30000" "wrap64 50000 = 50000" "wrap64 20000 = 20000" "wrap64 60000 = 60000" "wrap64 80000 = 80000"
      "wrap64 (60000 + 20000000 * COIN) = 60000 + 20000000 * COIN"
    by (simp_all add: wrap64_id int64_range_def COIN_def)
  have m: "MoneyRange 30000" "MoneyRange 50000" "MoneyRange 20000" by (simp_all add: MoneyRange_def MAX_MONEY_small)
  have g: "GetValueOut coinbase_sample = Some 30000" "GetValueOut tx_sample = Some 30000" "GetValueOut stake_sample = Some (20000000 * COIN)"
    by (simp_all add: GetValueOut_def coinbase_sample_def tx_sample_def stake_sample_def wrap64_id int64_range_def COIN_def
        MoneyRange_def MAX_MONEY_small)
  have fee: "connect_fees tx_sample True 50000 = Inr ()"
    using g w m by (simp add: connect_fees_def Let_def GetMinFee_eq MIN_TX_FEE_def MAX_MONEY_small)
  have ov: "\<not> overwrites_unspent len_env ?db coinbase_sample" "\<not> overwrites_unspent len_env ?db tx_sample" "\<not> overwrites_unspent len_env ?db stake_sample"
    by (simp_all add: overwrites_unspent_def ReadTxIndex_def pow_stake_db_fields mined_hashes sample_hashes stake_hash)
  define st0 where "st0 = \<lparr>cs_nTxPos = n, mapQueuedChanges = Map.empty, cs_nFees = 0,
      cs_nValueIn = 0, cs_nValueOut = 0, nStakeReward = 0, cs_nSigOps = 0, cs_cache = C\<rparr>"
  define st1 where "st1 = \<lparr>cs_nTxPos = 156, mapQueuedChanges = [67 \<mapsto> CTxIndex_new (posThisTx index_sample st0) 1], cs_nFees = 0,
      cs_nValueIn = 0, cs_nValueOut = 30000, nStakeReward = 0, cs_nSigOps = 0, cs_cache = C\<rparr>"
  have c1: "connect_tx len_env params_sample ?db empty_pool ?ix False coinbase_sample st0 = Inr st1"
    using ov(1) coinbase_kind(1) g(1) w(1) n
    by (simp add: connect_tx_def Let_def enter_tx_def coinbase_sigops connect_coinbase_def mined_hashes st0_def st1_def coinbase_size sample_fields)
  obtain st2 where c2: "connect_tx len_env params_sample ?db empty_pool ?ix False tx_sample st1 = Inr st2"
      "mapQueuedChanges st2 65 = Some (CTxIndex_new (posThisTx index_sample st1) 1)"
      "cs_nFees st2 = 20000" "cs_nValueIn st2 = 50000" "cs_nValueOut st2 = 60000" "cs_nSigOps st2 = 0"
    using connect_tx_single_spend [where tx = tx_sample and h = 24 and prev = prev_sample and v = 50000 and v' = 30000 and d = ?d1
        and db = ?db and st = st1 and pool = empty_pool and pindex = ?ix]
      stake_kind stake_sigops g w m fee ov sample_hashes
    by (simp add: pow_stake_db_fields mempool_pos_def sample_fields st1_def)
  have pos: "posThisTx index_sample st1 \<noteq> mempool_pos" "posThisTx index_sample st1 \<noteq> ?d1"
    by (auto simp: posThisTx_def mempool_pos_def index_sample_def CBlockIndex_new_def st1_def)
  obtain st3 where c3: "connect_tx len_env params_sample ?db empty_pool ?ix False stake_sample st2 = Inr st3"
      "cs_nFees st3 = 20000" "cs_nValueIn st3 = 80000" "cs_nValueOut st3 = 60000 + 20000000 * COIN"
    using connect_tx_single_spend [where tx = stake_sample and h = 65 and prev = tx_sample and v = 30000 and v' = "20000000 * COIN"
        and d = "posThisTx index_sample st1" and db = ?db and st = st2 and pool = empty_pool and pindex = ?ix]
      stake_kind stake_sigops g w m ov sample_hashes pos c2
    by (simp add: pow_stake_db_fields sample_fields map_add_def)
  show ?thesis using c1 c2(1) c3 by (simp flip: st0_def)
qed

text \<open>C28: A proof-of-work block can create money beyond its reward. A block whose third transaction is a
  coinstake passes \<open>CheckBlock\<close> and \<open>ConnectBlock\<close> although the coinstake pays out 20 million coins from an
  input of 30000 units: the coinstake rules are applied to proof-of-stake blocks only, and a coinstake is
  exempt from the value rules of \<open>ConnectInputs\<close>.\<close>

theorem pow_block_mints_through_coinstake:
  "\<exists>D' p C'. IsProofOfWork pow_stake_sample \<and>
     ConnectBlock len_env params_sample empty_cache pow_stake_db empty_pool (\<lambda>_ _. None)
       pow_stake_sample [index_sample, index_sample] False = Inr (D', p, C') \<and>
     nMoneySupply p > nMoneySupply index_sample + 80 * COIN"
proof -
  have r: "GetProofOfWorkReward 20000 = 80 * COIN + 20000" by (simp add: GetProofOfWorkReward_def wrap64_id int64_range_def COIN_def)
  have w: "wrap64 (60000 + 20000000 * COIN) = 60000 + 20000000 * COIN" "wrap64 (20000000 * COIN - 20000) = 20000000 * COIN - 20000"
    by (simp_all add: wrap64_id int64_range_def COIN_def)
  have g: "GetValueOut coinbase_sample = Some 30000"
    by (simp add: GetValueOut_def coinbase_sample_def wrap64_id int64_range_def MoneyRange_def MAX_MONEY_small)
  have v: "vtx pow_stake_sample = [coinbase_sample, tx_sample, stake_sample]" by (simp add: pow_stake_sample_def)
  have "first_tx_pos pow_stake_sample index_sample False = 89"
    by (simp add: first_tx_pos_def index_sample_def CBlockIndex_new_def GetSizeOfCompactSize_def v)
  from pow_stake_txs [OF this refl] obtain st where st: "connect_txs len_env params_sample (cd_tx pow_stake_db) empty_pool [index_sample, index_sample] False
      (vtx pow_stake_sample)
      \<lparr>cs_nTxPos = first_tx_pos pow_stake_sample index_sample False, mapQueuedChanges = Map.empty, cs_nFees = 0, cs_nValueIn = 0,
       cs_nValueOut = 0, nStakeReward = 0, cs_nSigOps = 0, cs_cache = empty_cache\<rparr> = Inr st"
      "cs_nFees st = 20000" "cs_nValueIn st = 80000" "cs_nValueOut st = 60000 + 20000000 * COIN"
    unfolding v by blast
  have rw: "check_reward len_env params_sample (cd_tx pow_stake_db) (\<lambda>_ _. None) pow_stake_sample st = Inr ()"
    using stake_kind(5) g r st(2) by (simp add: check_reward_def v COIN_def)
  show ?thesis
    using st rw stake_kind(5) w
    by (simp add: ConnectBlock_def pow_stake_checked Let_def WriteBlockIndex_def pow_stake_db_fields write_queued_def write_prev_next_def
        CDiskBlockIndex_of_def index_sample_pos COIN_def)
qed

end
