(* ===== verification/ChainSamples.thy ===== *)
theory ChainSamples
  imports ChainPool Kernel Checkpoints BlockSamples
begin

text \<open>
  A concrete tree for the properties of theories \<open>ChainInv\<close>, \<open>ChainPool\<close>, \<open>Kernel\<close> and \<open>Checkpoints\<close>: a genesis block and, on top of
  it, the block \<open>mined_sample\<close>, not yet connected.
\<close>

definition genesis_node :: index_node where
  "genesis_node = CBlockIndex.extend (index_sample\<lparr>idx_hash := 0\<rparr>) \<lparr>pprev = None\<rparr>"

definition mined_node :: index_node where
  "mined_node = CBlockIndex.extend (index_sample\<lparr>idx_hash := 80, bp_nHeight := 1\<rparr>) \<lparr>pprev = Some 0\<rparr>"

definition io_sample :: chain_io where
  "io_sample = \<lparr>block_file = (\<lambda>_ _. Some mined_sample), commit_ok = (\<lambda>_. True)\<rparr>"

definition node_sample :: node_state where
  "node_sample = \<lparr>ns_params = params_sample, ns_db = chain_db_sample\<lparr>cd_best := Some 0\<rparr>,
     mapBlockIndex = [0 \<mapsto> genesis_node, 80 \<mapsto> mined_node], pindexGenesisBlock = Some 0, pindexBest = Some 0,
     hashBestChain = 0, nBestChainTrust = 0, nBestInvalidTrust = 0, ns_pool = empty_pool, ns_cache = empty_cache\<rparr>"

lemma node_fields:
  "idx_hash genesis_node = 0" "bp_nHeight genesis_node = 0" "pprev genesis_node = None" "bp_nFile genesis_node = 1" "bp_nBlockPos genesis_node = 8"
  "idx_hash mined_node = 80" "bp_nHeight mined_node = 1" "pprev mined_node = Some 0" "bp_nFile mined_node = 1" "bp_nBlockPos mined_node = 8"
  by (simp_all add: genesis_node_def mined_node_def CBlockIndex.extend_def index_sample_def CBlockIndex_new_def)

lemma sample_index: "index_inv [0 \<mapsto> genesis_node, 80 \<mapsto> mined_node] (Some 0)"
  by (auto simp: index_inv_def node_fields split: option.split)

lemma sample_chain: "chain_from [0 \<mapsto> genesis_node, 80 \<mapsto> mined_node] 0 = [0]"
  by (simp add: chain_from_def node_fields)

lemma sample_read: "ReadFromDisk len_env params_sample io_sample [0 \<mapsto> genesis_node, 80 \<mapsto> mined_node] 80 = Some mined_sample"
proof -
  have "nBits mined_sample = 0x0300ffff" by (simp add: mined_sample_def)
  then show ?thesis using mined_work mined_hashes(2) by (simp add: ReadFromDisk_def node_fields io_sample_def)
qed

lemma sample_sync:
  "chain_sync len_env io_sample node_sample" "best_sync node_sample" "indexed len_env io_sample mined_sample 80 node_sample"
proof -
  have "utxo (cd_tx chain_db_sample) = {}" by (simp add: utxo_def ReadTxIndex_def chain_db_sample_def)
  then show "chain_sync len_env io_sample node_sample"
    by (simp add: chain_sync_def node_sample_def sample_index sample_chain)
  show "best_sync node_sample" by (simp add: best_sync_def node_sample_def)
  show "indexed len_env io_sample mined_sample 80 node_sample"
    using sample_read mined_hashes(2) by (simp add: indexed_def node_sample_def node_fields mined_sample_def)
qed

theorem find_fork_common_ancestor_witness:
  "\<exists>fork. find_fork [0 \<mapsto> genesis_node, 80 \<mapsto> mined_node] (chain_from [0 \<mapsto> genesis_node, 80 \<mapsto> mined_node] 0)
     (chain_from [0 \<mapsto> genesis_node, 80 \<mapsto> mined_node] 80) = Some fork \<and> fork \<noteq> []"
  using find_fork_common_ancestor [OF sample_index, of 0 80] by auto

lemma sample_connects:
  obtains D p C where "ConnectBlock len_env (ns_params node_sample) (ns_cache node_sample) (begin_view (ns_db node_sample)) (ns_pool node_sample)
      (header_time io_sample) mined_sample (entries (mapBlockIndex node_sample) (chain_from (mapBlockIndex node_sample) 80)) False = Inr (D, p, C)"
proof -
  have "db_index (cd_tx (begin_view (ns_db node_sample))) = Map.empty" "ns_params node_sample = params_sample"
    by (simp_all add: begin_view_def node_sample_def chain_db_sample_def)
  moreover have "\<forall>h. cd_index_writable (begin_view (ns_db node_sample)) h" by (simp add: begin_view_def)
  ultimately show thesis
    using mined_connects_to [of "begin_view (ns_db node_sample)" "ns_cache node_sample" "ns_pool node_sample" "header_time io_sample"
        "entries (mapBlockIndex node_sample) (chain_from (mapBlockIndex node_sample) 80)"] that by auto
qed

theorem SetBestChain_extends_witness:
  "\<exists>S'. SetBestChain 0 len_env io_sample mined_sample 80 node_sample = Some (Inr S') \<and> pindexBest S' = Some 80 \<and> best_sync S'"
proof -
  have p: "pindexBest node_sample = Some (hashPrevBlock mined_sample)" by (simp add: node_sample_def mined_sample_def)
  have "\<forall>D. commit_ok io_sample D" by (simp add: io_sample_def)
  then show ?thesis using sample_connects SetBestChain_extends [OF sample_sync p] by metis
qed

theorem SetBestChain_keeps_coins_witness:
  "\<exists>r. SetBestChain 0 len_env io_sample mined_sample 80 node_sample = Some r \<and>
     chain_sync len_env io_sample (case r of Inl S' \<Rightarrow> S' | Inr S' \<Rightarrow> S')"
proof -
  have p: "pindexBest node_sample = Some (hashPrevBlock mined_sample)" by (simp add: node_sample_def mined_sample_def)
  have "\<forall>D. commit_ok io_sample D" by (simp add: io_sample_def)
  then obtain S' where s: "SetBestChain 0 len_env io_sample mined_sample 80 node_sample = Some (Inr S')"
    using sample_connects SetBestChain_next [OF sample_sync p] by metis
  from SetBestChain_keeps_coins [OF sample_sync _ s] p s show ?thesis by auto
qed

theorem SetBestChain_terminates_witness:
  "\<exists>r. SetBestChain 1 len_env io_sample mined_sample 80 node_sample = Some r"
proof -
  have v: "vtx mined_sample = [coinbase_sample]" by (simp add: mined_sample_def)
  have "GetHash len_env coinbase_sample = 67" by (rule mined_hashes)
  then have a: "acyclic_txs len_env (\<lambda>h. if h = 67 then 1 else 0) {coinbase_sample}"
    by (simp add: acyclic_txs_def) (simp add: coinbase_sample_def)
  have w: "pool_within len_env {coinbase_sample} (ns_pool node_sample)" by (simp add: pool_within_def node_sample_def) (simp add: empty_pool_def)
  have b: "blocks_within len_env (ns_params node_sample) io_sample (mapBlockIndex node_sample) {coinbase_sample}"
    by (auto simp: blocks_within_def ReadFromDisk_def io_sample_def v split: option.splits if_splits)
  from SetBestChain_terminates [OF sample_sync a w b] show ?thesis by auto
qed

text \<open>The same tree with a generated modifier in the genesis block and ten minutes to the next block.\<close>

definition stake_tree :: block_map where
  "stake_tree = [0 \<mapsto> genesis_node\<lparr>nFlags := 4\<rparr>, 80 \<mapsto> mined_node\<lparr>idx_nTime := 600\<rparr>]"

lemma stake_index: "index_inv stake_tree (Some 0)"
  by (auto simp: index_inv_def stake_tree_def node_fields split: option.split)

lemma stake_entries:
  "entries stake_tree (chain_from stake_tree 80) =
     [CBlockIndex.truncate (mined_node\<lparr>idx_nTime := 600\<rparr>), CBlockIndex.truncate (genesis_node\<lparr>nFlags := 4\<rparr>)]"
proof -
  have m: "stake_tree 80 = Some (mined_node\<lparr>idx_nTime := 600\<rparr>)" "stake_tree 0 = Some (genesis_node\<lparr>nFlags := 4\<rparr>)"
    by (simp_all add: stake_tree_def)
  have "Suc (nat (bp_nHeight (mined_node\<lparr>idx_nTime := 600\<rparr>))) = Suc (Suc 0)" by (simp add: node_fields)
  then have "chain_from stake_tree 80 = [80, 0]" by (simp only: chain_from_def m option.case) (simp add: m node_fields)
  then show ?thesis by (simp add: m entries_def List.map_filter_simps)
qed

theorem ComputeNextStakeModifier_bits_witness:
  "\<exists>new sel. ComputeNextStakeModifier len_env stake_tree (entries stake_tree (chain_from stake_tree 80)) = Some (new, True) \<and>
     distinct sel \<and> set sel \<subseteq> set (chain_from stake_tree 80) \<and>
     (\<forall>i. bit new i \<longleftrightarrow> i < length sel \<and> GetStakeEntropyBit (the (stake_tree (sel ! i))) \<noteq> 0)"
proof -
  have h: "stake_tree 80 \<noteq> None" by (simp add: stake_tree_def)
  have t: "idx_nTime genesis_node = 0" "nFlags mined_node AND 4 = 0"
    by (simp_all add: genesis_node_def mined_node_def CBlockIndex.extend_def index_sample_def CBlockIndex_new_def block_sample_def)
  have g: "GetLastStakeModifier (entries stake_tree (chain_from stake_tree 80)) = Some (nStakeModifier genesis_node, 0)"
    unfolding stake_entries using t by (simp add: GeneratedStakeModifier_def CBlockIndex.truncate_def)
  have d: "0 div nModifierInterval < uint (idx_nTime (hd (entries stake_tree (chain_from stake_tree 80)))) div nModifierInterval"
    unfolding stake_entries by (simp add: nModifierInterval_def CBlockIndex.truncate_def)
  from ComputeNextStakeModifier_bits [OF stake_index h g d, of len_env] show ?thesis by blast
qed

text \<open>A signed checkpoint at the second block, in an environment whose signatures all verify.\<close>

definition signed_env :: env where
  "signed_env = len_env\<lparr>o2i_ECPublicKey := (\<lambda>_. True), ECDSA_verify := (\<lambda>_ _ _. True)\<rparr>"

definition message_sample :: CSyncCheckpoint where
  "message_sample = CSyncCheckpoint_SetNull\<lparr>vchMsg := Serialize_u32 1 @ uint256_bytes 80\<rparr>"

definition sync_sample :: sync_state where
  "sync_sample = \<lparr>hashSyncCheckpoint = 0, hashPendingCheckpoint = 0, hashInvalidCheckpoint = 0,
     checkpointMessage = CSyncCheckpoint_SetNull, checkpointMessagePending = CSyncCheckpoint_SetNull, stored_sync = None\<rparr>"

definition tip_sample :: node_state where
  "tip_sample = node_sample\<lparr>pindexBest := Some 80\<rparr>"

lemma tip_chain: "chain_from [0 \<mapsto> genesis_node, 80 \<mapsto> mined_node] 80 = [80, 0]"
proof -
  have "Suc (nat (bp_nHeight mined_node)) = Suc (Suc 0)" by (simp add: node_fields)
  then show ?thesis by (simp add: chain_from_def node_fields)
qed

lemma message_checked: "CheckSignature signed_env message_sample = Inr (message_sample\<lparr>ck_nVersion := 1, hashCheckpoint := 80\<rparr>)"
proof -
  have "Unserialize_CUnsignedSyncCheckpoint (Serialize_u32 1 @ uint256_bytes 80) = Some (1, 80)"
    using Unserialize_u256_bytes [of 80 "[]"] by (simp add: Unserialize_CUnsignedSyncCheckpoint_def)
  then show ?thesis by (simp add: CheckSignature_def message_sample_def SetPubKey_def Verify_def signed_env_def)
qed

lemma sync_sample_moves:
  "\<exists>S' st'. ProcessSyncCheckpoint 0 signed_env io_sample message_sample tip_sample sync_sample = Some (Inr True, S', st') \<and> hashSyncCheckpoint st' = 80"
proof -
  have m: "mapBlockIndex tip_sample = [0 \<mapsto> genesis_node, 80 \<mapsto> mined_node]" "pindexBest tip_sample = Some 80"
    by (simp_all add: tip_sample_def node_sample_def)
  have t: "hashSyncCheckpoint sync_sample = 0" by (simp add: sync_sample_def)
  have v: "ValidateSyncCheckpoint (mapBlockIndex tip_sample) 80 sync_sample = (True, sync_sample)"
    unfolding m(1) ValidateSyncCheckpoint_def t tip_chain by (simp add: node_height_def node_fields)
  have w: "switch_to 0 signed_env io_sample 80 tip_sample = Some (Inr tip_sample)"
    by (simp add: switch_to_def IsInMainChain_def m)
  have k: "mapBlockIndex tip_sample 80 \<noteq> None" by (simp add: m)
  have h: "hashCheckpoint (message_sample\<lparr>ck_nVersion := 1, hashCheckpoint := 80\<rparr>) = 80" by simp
  show ?thesis
    unfolding ProcessSyncCheckpoint_def message_checked sum.case Let_def h v prod.case bool.case w option.case
    using k by (simp add: WriteSyncCheckpoint_def io_sample_def)
qed


end
