(* ===== verification/NodeSamples.thy ===== *)
theory NodeSamples
  imports HeaderRules ChainSamples
begin

text \<open>
  A concrete node for the properties of theories \<open>NodeRuns\<close> and \<open>HeaderRules\<close>: only its genesis block is known, so the block
  \<open>mined_sample\<close>, whose parent is another block, becomes an orphan.
\<close>

definition root_node :: index_node where
  "root_node = genesis_node\<lparr>idx_hash := 5, nChainTrust := 7\<rparr>"

definition root_state :: node_state where
  "root_state = node_sample\<lparr>ns_db := chain_db_sample\<lparr>cd_best := Some 5\<rparr>, mapBlockIndex := [5 \<mapsto> root_node],
     pindexGenesisBlock := Some 5, pindexBest := Some 5, hashBestChain := 5, nBestChainTrust := 7\<rparr>"

definition block_node_sample :: block_node where
  "block_node_sample = \<lparr>bn_state = root_state, bn_commit = (\<lambda>_. True), bn_files = files_sample, nFreeBytesAvailable = 0, bn_sync = sync_sample,
     CheckpointsMode = STRICT, setStakeSeen = {}, mapOrphanBlocks = Map.empty, mapOrphanBlocksByPrev = [], setStakeSeenOrphan = {}\<rparr>"

lemma root_fields:
  "idx_hash root_node = 5" "nChainTrust root_node = 7" "bp_nHeight root_node = 0" "pprev root_node = None" "bp_nFile root_node = 1"
  by (simp_all add: root_node_def node_fields)

lemma root_state_fields:
  "ns_params root_state = params_sample" "mapBlockIndex root_state = [5 \<mapsto> root_node]" "pindexGenesisBlock root_state = Some 5"
  "pindexBest root_state = Some 5" "hashBestChain root_state = 5" "nBestChainTrust root_state = 7" "nBestInvalidTrust root_state = 0"
  "ns_db root_state = chain_db_sample\<lparr>cd_best := Some 5\<rparr>"
  by (simp_all add: root_state_def node_sample_def)

lemma block_node_fields:
  "bn_state block_node_sample = root_state" "bn_commit block_node_sample = (\<lambda>_. True)" "bn_sync block_node_sample = sync_sample"
  "mapOrphanBlocks block_node_sample = Map.empty" "mapOrphanBlocksByPrev block_node_sample = []" "setStakeSeen block_node_sample = {}"
  by (simp_all add: block_node_sample_def)

lemma root_ok: "node_ok len_env block_node_sample" "heaviest root_state"
proof -
  have u: "utxo (cd_tx chain_db_sample) = {}" by (simp add: utxo_def ReadTxIndex_def chain_db_sample_def)
  have i: "index_inv [5 \<mapsto> root_node] (Some 5)" by (auto simp: index_inv_def root_fields split: option.split)
  have c: "chain_from [5 \<mapsto> root_node] 5 = [5]" by (simp add: chain_from_def root_fields)
  have "chain_sync len_env io root_state" for io by (simp add: chain_sync_def root_state_fields i c u)
  moreover have "best_sync root_state" by (simp add: best_sync_def root_state_fields)
  ultimately show "node_ok len_env block_node_sample"
    by (simp add: node_ok_def synced_def block_node_fields root_state_fields node_trust_def root_fields)
  show "heaviest root_state" by (simp add: heaviest_def root_state_fields node_trust_def root_fields)
qed

lemma root_quiet: "orphans_clean len_env block_node_sample" "calm len_env block_node_sample" "orphans_ok len_env block_node_sample"
  by (simp_all add: orphans_clean_def calm_def orphans_ok_def waiting_def block_node_fields sync_sample_def)

lemma CheckBlock_work_sig: "\<not> IsProofOfStake b \<Longrightarrow> CheckBlock E N b f r s = CheckBlock E N b f r s'"
  by (simp add: CheckBlock_def)

lemma sample_orphan: "ProcessBlock 0 len_env mined_sample block_node_sample = Some (None, keep_orphan len_env mined_sample block_node_sample)"
proof -
  have k: "\<not> IsProofOfStake mined_sample" using coinbase_kind(3) by (simp add: IsProofOfWork_def)
  then have c: "CheckBlock len_env params_sample mined_sample True True True = Inr ()" using mined_checked CheckBlock_work_sig [OF k] by metis
  have p: "hashPrevBlock mined_sample = 0" by (simp add: mined_sample_def)
  have w: "WantedByPendingSyncCheckpoint 0 Map.empty sync_sample 80 = Some False" by (simp add: WantedByPendingSyncCheckpoint_def sync_sample_def)
  have g: "GetLastSyncCheckpoint [5 \<mapsto> root_node] sync_sample = None" by (simp add: GetLastSyncCheckpoint_def sync_sample_def)
  show ?thesis
    unfolding ProcessBlock_def Let_def block_node_fields root_state_fields mined_hashes w c sum.case
    using k p g by (simp add: process_checked_def Let_def block_node_fields root_state_fields)
qed

theorem ProcessBlock_keeps_orphans_witness:
  "orphans_ok len_env (keep_orphan len_env mined_sample block_node_sample)"
  using ProcessBlock_keeps_orphans [OF sample_orphan root_quiet(3)] by simp

theorem best_chain_is_heaviest_witness:
  "(node_step len_env)\<^sup>*\<^sup>* block_node_sample (keep_orphan len_env mined_sample block_node_sample) \<and>
   (\<exists>t. pindexBest root_state = Some t \<and> (\<forall>h. node_trust [5 \<mapsto> root_node] h \<le> node_trust [5 \<mapsto> root_node] t))"
proof -
  have r: "(node_step len_env)\<^sup>*\<^sup>* block_node_sample (keep_orphan len_env mined_sample block_node_sample)"
    using node_step.block_received [OF sample_orphan] by (rule r_into_rtranclp)
  have s: "bn_state (keep_orphan len_env mined_sample block_node_sample) = root_state" by (simp add: keep_orphan_def block_node_fields)
  have "nBestInvalidTrust (bn_state (keep_orphan len_env mined_sample block_node_sample)) \<le> nBestChainTrust (bn_state block_node_sample)"
    by (simp add: s block_node_fields root_state_fields)
  from best_chain_is_heaviest [OF r root_ok(1) _ root_quiet(1,2) this] root_ok(2) r s show ?thesis
    by (simp add: block_node_fields root_state_fields)
qed

text \<open>Two blocks of which the second has the difficulty required after the first; then time passes.\<close>

definition second_node :: index_node where
  "second_node = mined_node\<lparr>idx_nTime := 5, idx_nBits := GetCompact len_env (bnProofOfWorkLimit params_sample)\<rparr>"

definition two_blocks :: block_node where
  "two_blocks = block_node_sample\<lparr>bn_state := root_state\<lparr>mapBlockIndex := [0 \<mapsto> genesis_node, 80 \<mapsto> second_node]\<rparr>\<rparr>"

definition later :: block_node where
  "later = two_blocks\<lparr>nFreeBytesAvailable := 7, bn_state := (bn_state two_blocks)\<lparr>ns_params := (bn_params two_blocks)\<lparr>AdjustedTime := 900\<rparr>\<rparr>\<rparr>"

lemma second_fields:
  "idx_hash second_node = 80" "bp_nHeight second_node = 1" "pprev second_node = Some 0" "bp_nFile second_node = 1" "idx_nTime second_node = 5"
  "idx_nBits second_node = GetCompact len_env (bnProofOfWorkLimit params_sample)" "nFlags second_node = 0" "idx_nTime genesis_node = 0"
  by (simp_all add: second_node_def node_fields)
    (simp_all add: mined_node_def genesis_node_def CBlockIndex.extend_def index_sample_def CBlockIndex_new_def block_sample_def IsProofOfStake_def IsCoinStake_def null_tx_def)

lemma two_map: "bn_map two_blocks = [0 \<mapsto> genesis_node, 80 \<mapsto> second_node]" "bn_params two_blocks = params_sample" "bn_map later = bn_map two_blocks"
  by (simp_all add: two_blocks_def later_def root_state_fields)

lemma two_index: "index_inv [0 \<mapsto> genesis_node, 80 \<mapsto> second_node] (Some 0)"
  by (auto simp: index_inv_def node_fields second_fields split: option.split)

lemma two_rules: "obeys_rules len_env params_sample [0 \<mapsto> genesis_node, 80 \<mapsto> second_node]"
proof -
  have e: "entries [0 \<mapsto> genesis_node, 80 \<mapsto> second_node] (chain_from [0 \<mapsto> genesis_node, 80 \<mapsto> second_node] 0) = [CBlockIndex.truncate genesis_node]"
    by (simp add: chain_from_def node_fields entries_def List.map_filter_simps)
  have n: "\<not> Index_IsProofOfStake (CBlockIndex.truncate second_node)" using second_fields(7) by (simp add: Index_IsProofOfStake_def CBlockIndex.truncate_def)
  have c: "CheckHardened params_sample 1 80" by (simp add: CheckHardened_def checkpoints_def params_sample_def mapCheckpoints_def mapCheckpointsTestnet_def)
  have f: "FutureDrift 5 = 605" by (simp add: FutureDrift_def wrap64_id int64_range_def)
  have "follows len_env params_sample [CBlockIndex.truncate genesis_node] (CBlockIndex.truncate second_node)"
    using n c f
    by (simp add: follows_def GetNextTargetRequired_def GetMedianTimePast_def CBlockIndex.truncate_def second_fields node_fields LAST_POW_BLOCK_def)
  with e show ?thesis by (auto simp: obeys_rules_def node_fields second_fields split: if_splits)
qed

theorem known_blocks_obey_rules_witness:
  "follows len_env (bn_params later) (entries (bn_map later) (chain_from (bn_map later) 0)) (CBlockIndex.truncate second_node)"
proof (rule known_blocks_obey_rules)
  show "(any_step len_env)\<^sup>*\<^sup>* two_blocks later"
    unfolding later_def by (rule r_into_rtranclp, rule any_step.without_checkpoint, rule node_step.time_passed)
  show "index_inv (bn_map two_blocks) (Some 0)" "obeys_rules len_env (bn_params two_blocks) (bn_map two_blocks)"
    using two_index two_rules by (simp_all add: two_map)
  show "bn_map later 80 = Some second_node" "pprev second_node = Some 0" by (simp_all add: two_map second_fields)
qed

end
