(* ===== verification/Txdb.thy ===== *)
theory Txdb
  imports Merkle Inputs
begin

text \<open>
  The database layer, \<^verbatim>\<open>src/src/txdb-leveldb.h\<close> and \<^verbatim>\<open>src/src/txdb-leveldb.cpp\<close>: \<^verbatim>\<open>CTxDB\<close> on top of LevelDB, with
  the batch that holds the changes of a transaction and the scan that makes reads see them. LevelDB
  itself is a map of byte strings whose writes may fail. The locale \<open>txn_store\<close> states what the block
  code relies on when it brackets its work with \<^verbatim>\<open>TxnBegin\<close>, \<^verbatim>\<open>TxnCommit\<close> and \<^verbatim>\<open>TxnAbort\<close>; the records of the
  transaction index are shown to be read back as they were written, which is the view of the database
  that theory \<open>Inputs\<close> works with.
\<close>

section \<open>State\<close>

datatype batch_op = Put "byte list" "byte list" | Delete "byte list"

record level_db =
  ldb_map :: "byte list \<rightharpoonup> byte list"
  ldb_ok :: "batch_op list \<Rightarrow> bool"

record txdb =
  pdb :: level_db
  activeBatch :: "batch_op list option"
  fReadOnly :: bool

fun apply_op :: "batch_op \<Rightarrow> (byte list \<rightharpoonup> byte list) \<Rightarrow> (byte list \<rightharpoonup> byte list)" where
  "apply_op (Put k v) m = m(k \<mapsto> v)"
| "apply_op (Delete k) m = m(k := None)"

text \<open>\<^verbatim>\<open>DB::Write\<close> applies a batch atomically or fails.\<close>

definition ldb_write :: "level_db \<Rightarrow> batch_op list \<Rightarrow> level_db option" where
  "ldb_write d ops = (if ldb_ok d ops then Some (d\<lparr>ldb_map := fold apply_op ops (ldb_map d)\<rparr>) else None)"

section \<open>Operations\<close>

text \<open>The scanner: whether the key was found, whether its last entry is a deletion, and the value.\<close>

fun scan_batch :: "byte list \<Rightarrow> batch_op list \<Rightarrow> bool \<times> bool \<times> byte list \<Rightarrow> bool \<times> bool \<times> byte list" where
  "scan_batch needle [] r = r"
| "scan_batch needle (Put k v # ops) (found, deleted, val) =
     scan_batch needle ops (if k = needle then (True, False, v) else (found, deleted, val))"
| "scan_batch needle (Delete k # ops) (found, deleted, val) =
     scan_batch needle ops (if k = needle then (True, True, val) else (found, deleted, val))"

definition ScanBatch :: "batch_op list \<Rightarrow> byte list \<Rightarrow> bool \<times> bool \<times> byte list" where
  "ScanBatch batch key = scan_batch key batch (False, False, [])"

definition txdb_Read :: "txdb \<Rightarrow> byte list \<Rightarrow> byte list option" where
  "txdb_Read s key =
     (case activeBatch s of
        None \<Rightarrow> ldb_map (pdb s) key
      | Some batch \<Rightarrow>
          (case ScanBatch batch key of
             (found, deleted, val) \<Rightarrow>
               if deleted then None else if \<not> found then ldb_map (pdb s) key else Some val))"

text \<open>Writing and erasing: the result is the returned flag with the new state.\<close>

definition txdb_Write :: "txdb \<Rightarrow> byte list \<Rightarrow> byte list \<Rightarrow> failure + bool \<times> txdb" where
  "txdb_Write s key v =
     (if fReadOnly s then Inl Aborted
      else case activeBatch s of
        Some batch \<Rightarrow> Inr (True, s\<lparr>activeBatch := Some (batch @ [Put key v])\<rparr>)
      | None \<Rightarrow>
          (case ldb_write (pdb s) [Put key v] of
             None \<Rightarrow> Inr (False, s)
           | Some d \<Rightarrow> Inr (True, s\<lparr>pdb := d\<rparr>)))"

definition txdb_Erase :: "txdb \<Rightarrow> byte list \<Rightarrow> failure + bool \<times> txdb" where
  "txdb_Erase s key =
     (if fReadOnly s then Inl Aborted
      else case activeBatch s of
        Some batch \<Rightarrow> Inr (True, s\<lparr>activeBatch := Some (batch @ [Delete key])\<rparr>)
      | None \<Rightarrow>
          (case ldb_write (pdb s) [Delete key] of
             None \<Rightarrow> Inr (False, s)
           | Some d \<Rightarrow> Inr (True, s\<lparr>pdb := d\<rparr>)))"

definition txdb_Exists :: "txdb \<Rightarrow> byte list \<Rightarrow> bool" where
  "txdb_Exists s key =
     ((case activeBatch s of
         None \<Rightarrow> False
       | Some batch \<Rightarrow> (case ScanBatch batch key of (found, deleted, val) \<Rightarrow> found \<and> \<not> deleted)) \<or>
      ldb_map (pdb s) key \<noteq> None)"

definition TxnBegin :: "txdb \<Rightarrow> failure + txdb" where
  "TxnBegin s = (if activeBatch s \<noteq> None then Inl Aborted else Inr (s\<lparr>activeBatch := Some []\<rparr>))"

definition TxnCommit :: "txdb \<Rightarrow> failure + bool \<times> txdb" where
  "TxnCommit s =
     (case activeBatch s of
        None \<Rightarrow> Inl Aborted
      | Some batch \<Rightarrow>
          (case ldb_write (pdb s) batch of
             None \<Rightarrow> Inr (False, s\<lparr>activeBatch := None\<rparr>)
           | Some d \<Rightarrow> Inr (True, s\<lparr>pdb := d, activeBatch := None\<rparr>)))"

definition TxnAbort :: "txdb \<Rightarrow> txdb" where
  "TxnAbort s = s\<lparr>activeBatch := None\<rparr>"

section \<open>The view of a transaction\<close>

definition txdb_view :: "txdb \<Rightarrow> (byte list \<rightharpoonup> byte list)" where
  "txdb_view s = (case activeBatch s of None \<Rightarrow> ldb_map (pdb s) | Some batch \<Rightarrow> fold apply_op batch (ldb_map (pdb s)))"

text \<open>What the scanner's answer says about a map that was reached from \<open>m0\<close>.\<close>

fun scan_means :: "(byte list \<rightharpoonup> byte list) \<Rightarrow> (byte list \<rightharpoonup> byte list) \<Rightarrow> byte list \<Rightarrow> bool \<times> bool \<times> byte list \<Rightarrow> bool" where
  "scan_means m0 m k (found, deleted, val) \<longleftrightarrow>
     (deleted \<longrightarrow> found) \<and> m k = (if \<not> found then m0 k else if deleted then None else Some val)"

lemma scan_batch_means: "scan_means m0 m k r \<Longrightarrow> scan_means m0 (fold apply_op ops m) k (scan_batch k ops r)"
proof (induction k ops r arbitrary: m rule: scan_batch.induct)
  case (2 needle k v ops found deleted val)
  show ?case unfolding scan_batch.simps fold_simps by (rule "2.IH") (use "2.prems" in auto)
next
  case (3 needle k ops found deleted val)
  show ?case unfolding scan_batch.simps fold_simps by (rule "3.IH") (use "3.prems" in auto)
qed simp

lemma txdb_Read_view: "txdb_Read s k = txdb_view s k"
proof (cases "activeBatch s")
  case (Some batch)
  obtain f d v where r: "scan_batch k batch (False, False, []) = (f, d, v)" by (metis prod_cases3)
  with scan_batch_means [of "ldb_map (pdb s)" "ldb_map (pdb s)" k "(False, False, [])" batch] Some show ?thesis
    by (auto simp: txdb_Read_def txdb_view_def ScanBatch_def)
qed (simp add: txdb_Read_def txdb_view_def)

section \<open>The contract of a transaction\<close>

locale txn_store =
  fixes view stored :: "'s \<Rightarrow> ('k \<rightharpoonup> 'v)"
    and active :: "'s \<Rightarrow> bool"
    and start abort commit :: "'s \<Rightarrow> 's"
    and put :: "'k \<Rightarrow> 'v \<Rightarrow> 's \<Rightarrow> 's"
    and del :: "'k \<Rightarrow> 's \<Rightarrow> 's"
    and commits :: "'s \<Rightarrow> bool"
  assumes start: "\<not> active s \<Longrightarrow> active (start s) \<and> view (start s) = stored s \<and> stored (start s) = stored s"
    and put: "active s \<Longrightarrow> active (put k v s) \<and> view (put k v s) = (view s)(k \<mapsto> v) \<and> stored (put k v s) = stored s"
    and del: "active s \<Longrightarrow> active (del k s) \<and> view (del k s) = (view s)(k := None) \<and> stored (del k s) = stored s"
    and commit: "active s \<Longrightarrow> \<not> active (commit s) \<and> stored (commit s) = (if commits s then view s else stored s)"
    and abort: "\<not> active (abort s) \<and> stored (abort s) = stored s"
    and idle: "\<not> active s \<Longrightarrow> view s = stored s"
begin

text \<open>A sequence of changes: a value to write or None to erase.\<close>

primrec change :: "'k \<times> 'v option \<Rightarrow> 's \<Rightarrow> 's" where
  "change (k, w) s = (case w of Some v \<Rightarrow> put k v s | None \<Rightarrow> del k s)"

definition changes :: "('k \<times> 'v option) list \<Rightarrow> ('k \<rightharpoonup> 'v) \<Rightarrow> ('k \<rightharpoonup> 'v)" where
  "changes cs m = fold (\<lambda>(k, w) m. m(k := w)) cs m"

lemma run_changes:
  assumes "active s"
  shows "active (fold change cs s) \<and> view (fold change cs s) = changes cs (view s) \<and> stored (fold change cs s) = stored s"
  using assms
proof (induction cs arbitrary: s)
  case (Cons c cs)
  obtain k w where c: "c = (k, w)" by (cases c)
  have "active (change c s) \<and> view (change c s) = (view s)(k := w) \<and> stored (change c s) = stored s"
    using Cons.prems put [of s k] del [of s k] unfolding c by (cases w) auto
  with Cons.IH [of "change c s"] show ?case by (simp add: changes_def c)
qed (simp add: changes_def)

theorem all_or_nothing:
  assumes "\<not> active s"
  shows "stored (abort (fold change cs (start s))) = stored s"
    and "stored (commit (fold change cs (start s))) =
      (if commits (fold change cs (start s)) then changes cs (stored s) else stored s)"
    and "view (fold change cs (start s)) = changes cs (stored s)"
  using start [OF assms] run_changes [of "start s" cs] abort [of "fold change cs (start s)"]
    commit [of "fold change cs (start s)"] by auto

end

text \<open>The state after an operation; a failed assertion leaves it unchanged.\<close>

definition state_after :: "failure + bool \<times> txdb \<Rightarrow> txdb \<Rightarrow> txdb" where
  "state_after r s = (case r of Inl _ \<Rightarrow> s | Inr (_, s') \<Rightarrow> s')"

definition txn_active :: "txdb \<Rightarrow> bool" where
  "txn_active s \<longleftrightarrow> activeBatch s \<noteq> None"

definition txn_start :: "txdb \<Rightarrow> txdb" where
  "txn_start s = (case TxnBegin s of Inl _ \<Rightarrow> s | Inr s' \<Rightarrow> s')"

definition txn_put :: "byte list \<Rightarrow> byte list \<Rightarrow> txdb \<Rightarrow> txdb" where
  "txn_put k v s = state_after (txdb_Write (s\<lparr>fReadOnly := False\<rparr>) k v) s"

definition txn_del :: "byte list \<Rightarrow> txdb \<Rightarrow> txdb" where
  "txn_del k s = state_after (txdb_Erase (s\<lparr>fReadOnly := False\<rparr>) k) s"

definition txn_commit :: "txdb \<Rightarrow> txdb" where
  "txn_commit s = state_after (TxnCommit s) s"

definition txn_commits :: "txdb \<Rightarrow> bool" where
  "txn_commits s = (case TxnCommit s of Inr (True, _) \<Rightarrow> True | _ \<Rightarrow> False)"

lemmas txn_defs = txdb_view_def state_after_def txn_active_def txn_start_def txn_put_def txn_del_def txn_commit_def
  txn_commits_def TxnBegin_def TxnCommit_def TxnAbort_def txdb_Write_def txdb_Erase_def ldb_write_def

interpretation txdb: txn_store txdb_view "\<lambda>s. ldb_map (pdb s)" txn_active txn_start TxnAbort txn_commit txn_put txn_del txn_commits
  by unfold_locales (auto simp: txn_defs split: option.splits)

section \<open>Records of the transaction index\<close>

definition Serialize_CDiskTxPos :: "CDiskTxPos \<Rightarrow> byte list" where
  "Serialize_CDiskTxPos d = Serialize_u32 (nFile d) @ Serialize_u32 (nBlockPos d) @ Serialize_u32 (nTxPos d)"

definition Unserialize_CDiskTxPos :: "byte list \<Rightarrow> (CDiskTxPos \<times> byte list) option" where
  "Unserialize_CDiskTxPos s =
     do { (a, s) \<leftarrow> Unserialize_u32 s; (b, s) \<leftarrow> Unserialize_u32 s; (c, s) \<leftarrow> Unserialize_u32 s;
          Some (\<lparr>nFile = a, nBlockPos = b, nTxPos = c\<rparr>, s) }"

text \<open>The record starts with the version of the client that wrote it.\<close>

definition Serialize_CTxIndex :: "u32 \<Rightarrow> CTxIndex \<Rightarrow> byte list" where
  "Serialize_CTxIndex version x =
     Serialize_u32 version @ Serialize_CDiskTxPos (tx_pos x) @ Serialize_vector Serialize_CDiskTxPos (vSpent x)"

definition Unserialize_CTxIndex :: "byte list \<Rightarrow> (CTxIndex \<times> byte list) option" where
  "Unserialize_CTxIndex s =
     do { (_, s) \<leftarrow> Unserialize_u32 s; (d, s) \<leftarrow> Unserialize_CDiskTxPos s;
          (v, s) \<leftarrow> Unserialize_vector Unserialize_CDiskTxPos s;
          Some (\<lparr>tx_pos = d, vSpent = v\<rparr>, s) }"

text \<open>Keys: the string \<^verbatim>\<open>"tx"\<close> followed by the hash.\<close>

definition tx_key :: "u256 \<Rightarrow> byte list" where
  "tx_key h = Serialize_bytes [0x74, 0x78] @ uint256_bytes h"

definition txdb_ReadTxIndex :: "txdb \<Rightarrow> u256 \<Rightarrow> CTxIndex option" where
  "txdb_ReadTxIndex s h = Option.bind (txdb_Read s (tx_key h)) (\<lambda>v. map_option fst (Unserialize_CTxIndex v))"

definition txdb_UpdateTxIndex :: "u32 \<Rightarrow> txdb \<Rightarrow> u256 \<Rightarrow> CTxIndex \<Rightarrow> failure + bool \<times> txdb" where
  "txdb_UpdateTxIndex version s h x = txdb_Write s (tx_key h) (Serialize_CTxIndex version x)"

definition txdb_AddTxIndex :: "u32 \<Rightarrow> env \<Rightarrow> txdb \<Rightarrow> CTransaction \<Rightarrow> CDiskTxPos \<Rightarrow> failure + bool \<times> txdb" where
  "txdb_AddTxIndex version E s tx d =
     txdb_Write s (tx_key (GetHash E tx)) (Serialize_CTxIndex version (CTxIndex_new d (length (vout tx))))"

definition txdb_EraseTxIndex :: "env \<Rightarrow> txdb \<Rightarrow> CTransaction \<Rightarrow> failure + bool \<times> txdb" where
  "txdb_EraseTxIndex E s tx = txdb_Erase s (tx_key (GetHash E tx))"

definition txdb_ContainsTx :: "txdb \<Rightarrow> u256 \<Rightarrow> bool" where
  "txdb_ContainsTx s h = txdb_Exists s (tx_key h)"

interpretation diskpos: codec Serialize_CDiskTxPos Unserialize_CDiskTxPos "\<lambda>_. 12" "\<lambda>_. True"
  by unfold_locales (simp_all add: Serialize_CDiskTxPos_def Unserialize_CDiskTxPos_def)

interpretation txindex: codec "Serialize_CTxIndex version" Unserialize_CTxIndex
    "\<lambda>x. 16 + GetSizeOfCompactSize (length (vSpent x)) + 12 * length (vSpent x)" "\<lambda>x. length (vSpent x) \<le> MAX_SIZE" for version
proof
  fix x :: CTxIndex and rest
  assume "length (vSpent x) \<le> MAX_SIZE"
  then show "Unserialize_CTxIndex (Serialize_CTxIndex version x @ rest) = Some (x, rest)"
    by (simp add: Unserialize_CTxIndex_def Serialize_CTxIndex_def diskpos.unser_ser Unserialize_vector_def
        Serialize_vector_def ReadCompactSize_Write diskpos.read_elements_concat)
next
  fix x :: CTxIndex
  have "12 * length (vSpent x) = sum_list (map (\<lambda>_. 12) (vSpent x))" by (induction "vSpent x" rule: rev_induct) (simp_all add: sum_list_triv)
  then show "16 + GetSizeOfCompactSize (length (vSpent x)) + 12 * length (vSpent x) = length (Serialize_CTxIndex version x)"
    unfolding diskpos.sum_sz
    by (simp add: Serialize_CTxIndex_def Serialize_CDiskTxPos_def Serialize_vector_def length_WriteCompactSize)
qed

lemma uint256_bytes_inject: "uint256_bytes h = uint256_bytes k \<Longrightarrow> h = k"
  by (metis Unserialize_u256_bytes option.inject prod.inject)

lemma tx_key_inject: "tx_key h = tx_key k \<longleftrightarrow> h = k"
  unfolding tx_key_def using uint256_bytes_inject by (metis same_append_eq)

text \<open>In a transaction the index read back from the bytes changes as the map of theory \<open>Inputs\<close> does.\<close>

lemma txdb_index_update:
  assumes "txn_active s" and "length (vSpent x) \<le> MAX_SIZE" and "txdb_UpdateTxIndex version s h x = Inr (ok, s')"
  shows "ok \<and> txdb_ReadTxIndex s' = (txdb_ReadTxIndex s)(h \<mapsto> x)"
proof -
  have "txdb_view s' = (txdb_view s)(tx_key h \<mapsto> Serialize_CTxIndex version x)" and ok
    using assms(1,3) by (auto simp: txdb_UpdateTxIndex_def txdb_Write_def txn_active_def txdb_view_def split: if_splits option.splits)
  moreover have "Unserialize_CTxIndex (Serialize_CTxIndex version x) = Some (x, [])"
    using txindex.unser_ser [OF assms(2), of version "[]"] by simp
  ultimately show ?thesis
    by (intro conjI ext) (simp_all add: txdb_ReadTxIndex_def txdb_Read_view tx_key_inject)
qed

lemma txdb_index_erase:
  assumes "txn_active s" and "txdb_EraseTxIndex E s tx = Inr (ok, s')"
  shows "ok \<and> txdb_ReadTxIndex s' = (txdb_ReadTxIndex s)(GetHash E tx := None)"
proof -
  have "txdb_view s' = (txdb_view s)(tx_key (GetHash E tx) := None)" and ok
    using assms by (auto simp: txdb_EraseTxIndex_def txdb_Erase_def txn_active_def txdb_view_def split: if_splits option.splits)
  then show ?thesis
    by (intro conjI ext) (simp_all add: txdb_ReadTxIndex_def txdb_Read_view tx_key_inject)
qed

section \<open>Properties\<close>

text \<open>A database transaction is all or nothing. Whatever is written and erased between \<open>TxnBegin\<close> and
  the end, reads inside the transaction see all of it, aborting leaves the stored data as it was, and
  committing stores all of it, or none when LevelDB refuses the batch.\<close>

theorem transaction_all_or_nothing:
  assumes "activeBatch s = None"
  shows "ldb_map (pdb (TxnAbort (fold txdb.change cs (txn_start s)))) = ldb_map (pdb s) \<and>
    (\<forall>k. txdb_Read (fold txdb.change cs (txn_start s)) k = txdb.changes cs (ldb_map (pdb s)) k) \<and>
    ldb_map (pdb (txn_commit (fold txdb.change cs (txn_start s)))) =
      (if txn_commits (fold txdb.change cs (txn_start s)) then txdb.changes cs (ldb_map (pdb s)) else ldb_map (pdb s))"
  using txdb.all_or_nothing [of s cs] assms by (simp add: txn_active_def txdb_Read_view)

theorem transaction_all_or_nothing_witness:
  "txdb_Read (fold txdb.change [([1], Some [2]), ([3], None)] (txn_start \<lparr>pdb = \<lparr>ldb_map = [[3] \<mapsto> [4]], ldb_ok = (\<lambda>_. True)\<rparr>, activeBatch = None, fReadOnly = False\<rparr>)) [3] = None"
  using transaction_all_or_nothing [of "\<lparr>pdb = \<lparr>ldb_map = [[3] \<mapsto> [4]], ldb_ok = (\<lambda>_. True)\<rparr>, activeBatch = None, fReadOnly = False\<rparr>" "[([1], Some [2]), ([3], None)]"]
  by (simp add: txdb.changes_def)

text \<open>C17: The transaction index of the byte-level database refines the map that the block code is modelled
  with: inside a transaction, updating an entry whose spent list fits the wire format and then reading
  gives the entry back and leaves every other one, and erasing removes exactly the one entry.\<close>

theorem txdb_refines_index:
  assumes "txn_active s" and "\<not> fReadOnly s" and "length (vSpent x) \<le> MAX_SIZE"
  shows "(\<exists>s'. txdb_UpdateTxIndex version s h x = Inr (True, s') \<and> txdb_ReadTxIndex s' = (txdb_ReadTxIndex s)(h \<mapsto> x)) \<and>
    (\<exists>s'. txdb_EraseTxIndex E s tx = Inr (True, s') \<and> txdb_ReadTxIndex s' = (txdb_ReadTxIndex s)(GetHash E tx := None))"
proof -
  obtain s1 s2 where "txdb_UpdateTxIndex version s h x = Inr (True, s1)" "txdb_EraseTxIndex E s tx = Inr (True, s2)"
    using assms(1,2) by (auto simp: txdb_UpdateTxIndex_def txdb_EraseTxIndex_def txdb_Write_def txdb_Erase_def txn_active_def)
  with txdb_index_update [OF assms(1,3)] txdb_index_erase [OF assms(1)] show ?thesis by blast
qed

theorem txdb_refines_index_witness:
  "\<exists>s'. txdb_UpdateTxIndex 70002 \<lparr>pdb = \<lparr>ldb_map = Map.empty, ldb_ok = (\<lambda>_. False)\<rparr>, activeBatch = Some [], fReadOnly = False\<rparr> 5 (CTxIndex_new mempool_pos 2) = Inr (True, s') \<and>
     txdb_ReadTxIndex s' 5 = Some (CTxIndex_new mempool_pos 2)"
  using txdb_refines_index [of "\<lparr>pdb = \<lparr>ldb_map = Map.empty, ldb_ok = (\<lambda>_. False)\<rparr>, activeBatch = Some [], fReadOnly = False\<rparr>" "CTxIndex_new mempool_pos 2" 70002 5 ref_env "null_tx 1"]
  by (auto simp: txn_active_def CTxIndex_new_def MAX_SIZE_def)

text \<open>\<open>ContainsTx\<close> disagrees with \<open>ReadTxIndex\<close> inside a transaction: an entry stored in the database
  and erased in the running transaction can no longer be read but still counts as present, because
  \<open>Exists\<close> falls through to the stored data when the batch holds a deletion.\<close>

theorem erased_entry_still_exists:
  assumes "ldb_map (pdb s) (tx_key (GetHash E tx)) \<noteq> None" and "txn_active s" and "\<not> fReadOnly s"
  shows "\<exists>s'. txdb_EraseTxIndex E s tx = Inr (True, s') \<and> txdb_ReadTxIndex s' (GetHash E tx) = None \<and>
    txdb_ContainsTx s' (GetHash E tx)"
proof -
  obtain s' where s: "txdb_EraseTxIndex E s tx = Inr (True, s')" "pdb s' = pdb s"
    using assms(2,3) by (auto simp: txdb_EraseTxIndex_def txdb_Erase_def txn_active_def)
  moreover have "txdb_ContainsTx s' (GetHash E tx)"
    using assms(1) s(2) by (simp add: txdb_ContainsTx_def txdb_Exists_def)
  ultimately show ?thesis using txdb_index_erase [OF assms(2) s(1)] by simp
qed

theorem erased_entry_still_exists_witness:
  "\<exists>s'. txdb_EraseTxIndex ref_env \<lparr>pdb = \<lparr>ldb_map = (\<lambda>_. Some []), ldb_ok = (\<lambda>_. True)\<rparr>, activeBatch = Some [], fReadOnly = False\<rparr> (null_tx 1) = Inr (True, s') \<and>
     txdb_ContainsTx s' (GetHash ref_env (null_tx 1))"
  using erased_entry_still_exists [of "\<lparr>pdb = \<lparr>ldb_map = (\<lambda>_. Some []), ldb_ok = (\<lambda>_. True)\<rparr>, activeBatch = Some [], fReadOnly = False\<rparr>" ref_env "null_tx 1"]
  by (auto simp: txn_active_def)

end
