(* ===== verification/NetAddr.thy ===== *)
theory NetAddr
  imports Key
begin

text \<open>
  Network addresses, from \<^verbatim>\<open>src/src/netbase.h\<close>, \<^verbatim>\<open>src/src/netbase.cpp\<close> and \<^verbatim>\<open>src/src/protocol.h\<close>: the classes of addresses
  that are not routed, the group an address belongs to and the key of an address with its port. An
  address is its sixteen bytes in network order; name lookups and sockets are not modelled.
\<close>

unbundle bit_operations_syntax

section \<open>Addresses\<close>

record CNetAddr =
  ip :: "byte list"

record CService = CNetAddr +
  port :: "16 word"

record CAddress = CService +
  nServices :: u64
  addr_nTime :: u32
  nLastTry :: int

definition pchIPv4 :: "byte list" where "pchIPv4 = [0, 0, 0, 0, 0, 0, 0, 0, 0, 0, 0xff, 0xff]"
definition pchOnionCat :: "byte list" where "pchOnionCat = [0xFD, 0x87, 0xD8, 0x7E, 0xEB, 0x43]"
definition pchGarliCat :: "byte list" where "pchGarliCat = [0xFD, 0x60, 0xDB, 0x4D, 0xDD, 0xB5]"

definition NET_UNROUTABLE :: nat where "NET_UNROUTABLE = 0"
definition NET_IPV4 :: nat where "NET_IPV4 = 1"
definition NET_IPV6 :: nat where "NET_IPV6 = 2"
definition NET_TOR :: nat where "NET_TOR = 3"
definition NET_I2P :: nat where "NET_I2P = 4"

definition GetByte :: "'a CNetAddr_scheme \<Rightarrow> nat \<Rightarrow> byte" where
  "GetByte a n = ip a ! (15 - n)"

definition has_prefix :: "byte list \<Rightarrow> 'a CNetAddr_scheme \<Rightarrow> bool" where
  "has_prefix p a \<longleftrightarrow> take (length p) (ip a) = p"

section \<open>Classes of addresses\<close>

definition IsIPv4 :: "'a CNetAddr_scheme \<Rightarrow> bool" where
  "IsIPv4 a \<longleftrightarrow> has_prefix pchIPv4 a"

definition IsTor :: "'a CNetAddr_scheme \<Rightarrow> bool" where
  "IsTor a \<longleftrightarrow> has_prefix pchOnionCat a"

definition IsI2P :: "'a CNetAddr_scheme \<Rightarrow> bool" where
  "IsI2P a \<longleftrightarrow> has_prefix pchGarliCat a"

definition IsIPv6 :: "'a CNetAddr_scheme \<Rightarrow> bool" where
  "IsIPv6 a \<longleftrightarrow> \<not> IsIPv4 a \<and> \<not> IsTor a \<and> \<not> IsI2P a"

definition IsRFC1918 :: "'a CNetAddr_scheme \<Rightarrow> bool" where
  "IsRFC1918 a \<longleftrightarrow> IsIPv4 a \<and>
     (GetByte a 3 = 10 \<or> GetByte a 3 = 192 \<and> GetByte a 2 = 168 \<or> GetByte a 3 = 172 \<and> GetByte a 2 \<ge> 16 \<and> GetByte a 2 \<le> 31)"

definition IsRFC3927 :: "'a CNetAddr_scheme \<Rightarrow> bool" where
  "IsRFC3927 a \<longleftrightarrow> IsIPv4 a \<and> GetByte a 3 = 169 \<and> GetByte a 2 = 254"

definition IsRFC3849 :: "'a CNetAddr_scheme \<Rightarrow> bool" where
  "IsRFC3849 a \<longleftrightarrow> GetByte a 15 = 0x20 \<and> GetByte a 14 = 0x01 \<and> GetByte a 13 = 0x0D \<and> GetByte a 12 = 0xB8"

definition IsRFC3964 :: "'a CNetAddr_scheme \<Rightarrow> bool" where
  "IsRFC3964 a \<longleftrightarrow> GetByte a 15 = 0x20 \<and> GetByte a 14 = 0x02"

definition IsRFC6052 :: "'a CNetAddr_scheme \<Rightarrow> bool" where
  "IsRFC6052 a \<longleftrightarrow> has_prefix [0, 0x64, 0xFF, 0x9B, 0, 0, 0, 0, 0, 0, 0, 0] a"

definition IsRFC4380 :: "'a CNetAddr_scheme \<Rightarrow> bool" where
  "IsRFC4380 a \<longleftrightarrow> GetByte a 15 = 0x20 \<and> GetByte a 14 = 0x01 \<and> GetByte a 13 = 0 \<and> GetByte a 12 = 0"

definition IsRFC4862 :: "'a CNetAddr_scheme \<Rightarrow> bool" where
  "IsRFC4862 a \<longleftrightarrow> has_prefix [0xFE, 0x80, 0, 0, 0, 0, 0, 0] a"

definition IsRFC4193 :: "'a CNetAddr_scheme \<Rightarrow> bool" where
  "IsRFC4193 a \<longleftrightarrow> GetByte a 15 AND 0xFE = 0xFC"

definition IsRFC6145 :: "'a CNetAddr_scheme \<Rightarrow> bool" where
  "IsRFC6145 a \<longleftrightarrow> has_prefix [0, 0, 0, 0, 0, 0, 0, 0, 0xFF, 0xFF, 0, 0] a"

definition IsRFC4843 :: "'a CNetAddr_scheme \<Rightarrow> bool" where
  "IsRFC4843 a \<longleftrightarrow> GetByte a 15 = 0x20 \<and> GetByte a 14 = 0x01 \<and> GetByte a 13 = 0x00 \<and> GetByte a 12 AND 0xF0 = 0x10"

definition IsLocal :: "'a CNetAddr_scheme \<Rightarrow> bool" where
  "IsLocal a \<longleftrightarrow> IsIPv4 a \<and> (GetByte a 3 = 127 \<or> GetByte a 3 = 0) \<or> ip a = replicate 15 0 @ [1]"

definition IsMulticast :: "'a CNetAddr_scheme \<Rightarrow> bool" where
  "IsMulticast a \<longleftrightarrow> IsIPv4 a \<and> GetByte a 3 AND 0xF0 = 0xE0 \<or> GetByte a 15 = 0xFF"

definition IsValid :: "'a CNetAddr_scheme \<Rightarrow> bool" where
  "IsValid a \<longleftrightarrow>
     \<not> has_prefix (drop 3 pchIPv4) a \<and> ip a \<noteq> replicate 16 0 \<and> \<not> IsRFC3849 a \<and>
     \<not> (IsIPv4 a \<and> (drop 12 (ip a) = replicate 4 0xff \<or> drop 12 (ip a) = replicate 4 0))"

definition IsRoutable :: "'a CNetAddr_scheme \<Rightarrow> bool" where
  "IsRoutable a \<longleftrightarrow> IsValid a \<and>
     \<not> (IsRFC1918 a \<or> IsRFC3927 a \<or> IsRFC4862 a \<or> IsRFC4193 a \<and> \<not> IsTor a \<and> \<not> IsI2P a \<or> IsRFC4843 a \<or> IsLocal a)"

definition GetNetwork :: "'a CNetAddr_scheme \<Rightarrow> nat" where
  "GetNetwork a =
     (if \<not> IsRoutable a then NET_UNROUTABLE else if IsIPv4 a then NET_IPV4 else if IsTor a then NET_TOR
      else if IsI2P a then NET_I2P else NET_IPV6)"

section \<open>Groups and keys\<close>

fun group_bytes :: "'a CNetAddr_scheme \<Rightarrow> nat \<Rightarrow> nat \<Rightarrow> byte list" where
  "group_bytes a nStartByte nBits =
     (if nBits \<ge> 8 then GetByte a (15 - nStartByte) # group_bytes a (nStartByte + 1) (nBits - 8)
      else if nBits > 0 then [GetByte a (15 - nStartByte) OR (push_bit nBits 1 - 1)] else [])"

definition GetGroup :: "'a CNetAddr_scheme \<Rightarrow> byte list" where
  "GetGroup a =
     (let group = (\<lambda>nClass nStartByte nBits. word_of_nat nClass # group_bytes a nStartByte nBits)
      in if \<not> IsRoutable a then group NET_UNROUTABLE 0 0
         else if IsIPv4 a \<or> IsRFC6145 a \<or> IsRFC6052 a then group NET_IPV4 12 (if IsLocal a then 0 else 16)
         else if IsRFC3964 a then group NET_IPV4 2 (if IsLocal a then 0 else 16)
         else if IsRFC4380 a then [word_of_nat NET_IPV4, GetByte a 3 XOR 0xFF, GetByte a 2 XOR 0xFF]
         else if IsTor a then group NET_TOR 6 4
         else if IsI2P a then group NET_I2P 6 4
         else if GetByte a 15 = 0x20 \<and> GetByte a 14 = 0x11 \<and> GetByte a 13 = 0x04 \<and> GetByte a 12 = 0x70 then group NET_IPV6 0 36
         else group NET_IPV6 0 32)"

definition GetKey :: "'a CService_scheme \<Rightarrow> byte list" where
  "GetKey s = ip s @ [ucast (port s div 0x100), ucast (port s AND 0x0FF)]"

definition service_eq :: "'a CService_scheme \<Rightarrow> 'b CService_scheme \<Rightarrow> bool" where
  "service_eq a b \<longleftrightarrow> ip a = ip b \<and> port a = port b"

section \<open>Random choices\<close>

text \<open>
  \<^verbatim>\<open>GetRandInt\<close> reduces a number from OpenSSL's generator; the \<open>i\<close>-th number drawn in a call is \<open>r i\<close>, an argument
  of the operations that draw.
\<close>

definition GetRandInt :: "(nat \<Rightarrow> nat) \<Rightarrow> nat \<Rightarrow> nat \<Rightarrow> nat" where
  "GetRandInt r i nMax = (if nMax = 0 then 0 else r i mod nMax)"

definition skip_draws :: "nat \<Rightarrow> (nat \<Rightarrow> nat) \<Rightarrow> nat \<Rightarrow> nat" where
  "skip_draws k r = (\<lambda>i. r (i + k))"

lemma GetRandInt_less: "0 < n \<Longrightarrow> GetRandInt r i n < n"
  by (simp add: GetRandInt_def)

end
