(* ===== verification/AddrMan.thy ===== *)
theory AddrMan
  imports NetAddr Serialize
begin

text \<open>
  The address manager, \<^verbatim>\<open>CAddrMan\<close> of \<^verbatim>\<open>src/src/addrman.h\<close> and \<^verbatim>\<open>src/src/addrman.cpp\<close>: a table of peer addresses in buckets of
  new and of tried ones, with an index by address and a vector in random order. The operations that
  change the tables are modelled with their assertions, \<open>None\<close> being a failed one, and so is the consistency check
  that \<^verbatim>\<open>DEBUG_ADDRMAN\<close> compiles in. The ids are natural numbers (an \<^verbatim>\<open>int\<close> counter that would wrap after \<^verbatim>\<open>2^31\<close> insertions);
  \<^verbatim>\<open>Select_\<close> and \<^verbatim>\<open>GetChance\<close>, which compute in floating point and change nothing, and the file format are not modelled.
\<close>

unbundle bit_operations_syntax

section \<open>State\<close>

record CAddrInfo = CAddress +
  addr_source :: CNetAddr
  nLastSuccess :: int
  nAttempts :: int
  nRefCount :: int
  fInTried :: bool
  nRandomPos :: int

record CAddrMan =
  am_nKey :: "byte list"
  nIdCount :: nat
  mapInfo :: "nat \<rightharpoonup> CAddrInfo"
  mapAddr :: "byte list \<rightharpoonup> nat"
  vRandom :: "nat list"
  nTried :: int
  vvTried :: "nat list list"
  nNew :: int
  vvNew :: "nat set list"

definition ADDRMAN_TRIED_BUCKET_COUNT :: nat where "ADDRMAN_TRIED_BUCKET_COUNT = 64"
definition ADDRMAN_TRIED_BUCKET_SIZE :: nat where "ADDRMAN_TRIED_BUCKET_SIZE = 64"
definition ADDRMAN_NEW_BUCKET_COUNT :: nat where "ADDRMAN_NEW_BUCKET_COUNT = 256"
definition ADDRMAN_NEW_BUCKET_SIZE :: nat where "ADDRMAN_NEW_BUCKET_SIZE = 64"
definition ADDRMAN_TRIED_BUCKETS_PER_GROUP :: nat where "ADDRMAN_TRIED_BUCKETS_PER_GROUP = 4"
definition ADDRMAN_NEW_BUCKETS_PER_SOURCE_GROUP :: nat where "ADDRMAN_NEW_BUCKETS_PER_SOURCE_GROUP = 32"
definition ADDRMAN_NEW_BUCKETS_PER_ADDRESS :: int where "ADDRMAN_NEW_BUCKETS_PER_ADDRESS = 4"
definition ADDRMAN_TRIED_ENTRIES_INSPECT_ON_EVICT :: nat where "ADDRMAN_TRIED_ENTRIES_INSPECT_ON_EVICT = 4"
definition ADDRMAN_HORIZON_DAYS :: int where "ADDRMAN_HORIZON_DAYS = 30"
definition ADDRMAN_RETRIES :: int where "ADDRMAN_RETRIES = 3"
definition ADDRMAN_MAX_FAILURES :: int where "ADDRMAN_MAX_FAILURES = 10"
definition ADDRMAN_MIN_FAIL_DAYS :: int where "ADDRMAN_MIN_FAIL_DAYS = 7"
definition ADDRMAN_GETADDR_MAX_PCT :: nat where "ADDRMAN_GETADDR_MAX_PCT = 23"
definition ADDRMAN_GETADDR_MAX :: nat where "ADDRMAN_GETADDR_MAX = 2500"

definition CAddrMan_new :: "byte list \<Rightarrow> CAddrMan" where
  "CAddrMan_new k = \<lparr>am_nKey = k, nIdCount = 0, mapInfo = Map.empty, mapAddr = Map.empty, vRandom = [], nTried = 0,
     vvTried = replicate ADDRMAN_TRIED_BUCKET_COUNT [], nNew = 0, vvNew = replicate ADDRMAN_NEW_BUCKET_COUNT {}\<rparr>"

definition CAddrInfo_new :: "CAddress \<Rightarrow> CNetAddr \<Rightarrow> CAddrInfo" where
  "CAddrInfo_new addr addrSource =
     CAddress.extend (addr\<lparr>nLastTry := 0\<rparr>)
       \<lparr>addr_source = addrSource, nLastSuccess = 0, nAttempts = 0, nRefCount = 0, fInTried = False, nRandomPos = - 1\<rparr>"

section \<open>Buckets\<close>

definition Get64 :: "u256 \<Rightarrow> u64" where "Get64 h = ucast h"

definition GetTriedBucket :: "env \<Rightarrow> byte list \<Rightarrow> 'a CService_scheme \<Rightarrow> nat" where
  "GetTriedBucket E k a =
     (let hash1 = unat (Get64 (Hash E (Serialize_bytes k @ Serialize_bytes (GetKey a))));
          hash2 = unat (Get64 (Hash E (Serialize_bytes k @ Serialize_bytes (GetGroup a) @ le_bytes 8 (hash1 mod ADDRMAN_TRIED_BUCKETS_PER_GROUP))))
      in hash2 mod ADDRMAN_TRIED_BUCKET_COUNT)"

definition GetNewBucket :: "env \<Rightarrow> byte list \<Rightarrow> 'a CService_scheme \<Rightarrow> CNetAddr \<Rightarrow> nat" where
  "GetNewBucket E k a src =
     (let hash1 = unat (Get64 (Hash E (Serialize_bytes k @ Serialize_bytes (GetGroup a) @ Serialize_bytes (GetGroup src))));
          hash2 = unat (Get64 (Hash E (Serialize_bytes k @ Serialize_bytes (GetGroup src) @ le_bytes 8 (hash1 mod ADDRMAN_NEW_BUCKETS_PER_SOURCE_GROUP))))
      in hash2 mod ADDRMAN_NEW_BUCKET_COUNT)"

definition IsTerrible :: "int \<Rightarrow> CAddrInfo \<Rightarrow> bool" where
  "IsTerrible nNow a =
     (if nLastTry a \<noteq> 0 \<and> nLastTry a \<ge> nNow - 60 then False
      else if uint (addr_nTime a) > nNow + 10 * 60 then True
      else if addr_nTime a = 0 \<or> nNow - uint (addr_nTime a) > ADDRMAN_HORIZON_DAYS * 86400 then True
      else if nLastSuccess a = 0 \<and> nAttempts a \<ge> ADDRMAN_RETRIES then True
      else if nNow - nLastSuccess a > ADDRMAN_MIN_FAIL_DAYS * 86400 \<and> nAttempts a \<ge> ADDRMAN_MAX_FAILURES then True
      else False)"

section \<open>Entries\<close>

definition addr_Find :: "byte list \<Rightarrow> CAddrMan \<Rightarrow> (nat \<times> CAddrInfo) option" where
  "addr_Find a A = (case mapAddr A a of None \<Rightarrow> None | Some nId \<Rightarrow> map_option (Pair nId) (mapInfo A nId))"

definition put_info :: "nat \<Rightarrow> CAddrInfo \<Rightarrow> CAddrMan \<Rightarrow> CAddrMan" where
  "put_info nId info A = A\<lparr>mapInfo := (mapInfo A)(nId \<mapsto> info)\<rparr>"

definition addr_Create :: "CAddress \<Rightarrow> CNetAddr \<Rightarrow> CAddrMan \<Rightarrow> nat \<times> CAddrMan" where
  "addr_Create addr addrSource A =
     (let nId = nIdCount A
      in (nId, A\<lparr>nIdCount := nId + 1, mapAddr := (mapAddr A)(ip addr \<mapsto> nId), vRandom := vRandom A @ [nId],
            mapInfo := (mapInfo A)(nId \<mapsto> (CAddrInfo_new addr addrSource)\<lparr>nRandomPos := int (length (vRandom A))\<rparr>)\<rparr>))"

definition SwapRandom :: "nat \<Rightarrow> nat \<Rightarrow> CAddrMan \<Rightarrow> CAddrMan option" where
  "SwapRandom p1 p2 A =
     (if p1 = p2 then Some A
      else if \<not> (p1 < length (vRandom A) \<and> p2 < length (vRandom A)) then None
      else
        (let nId1 = vRandom A ! p1; nId2 = vRandom A ! p2
         in case (mapInfo A nId1, mapInfo A nId2) of
              (Some i1, Some _) \<Rightarrow>
                (let m1 = (mapInfo A)(nId1 \<mapsto> i1\<lparr>nRandomPos := int p2\<rparr>)
                 in Some (A\<lparr>mapInfo := m1(nId2 \<mapsto> (the (m1 nId2))\<lparr>nRandomPos := int p1\<rparr>),
                            vRandom := (vRandom A)[p1 := nId2, p2 := nId1]\<rparr>))
            | _ \<Rightarrow> None))"

section \<open>Eviction\<close>

text \<open>The loop of \<^verbatim>\<open>SelectTried\<close> from index \<open>i\<close> on; the oldest entry and its position are None for \<^verbatim>\<open>-1\<close>.\<close>

function select_tried :: "(nat \<Rightarrow> nat) \<Rightarrow> (nat \<rightharpoonup> CAddrInfo) \<Rightarrow> nat \<Rightarrow> nat list \<Rightarrow> (nat \<times> nat) option \<Rightarrow> ((nat \<times> nat) option \<times> nat list) option" where
  "select_tried r m i vTried oldest =
     (if i < ADDRMAN_TRIED_ENTRIES_INSPECT_ON_EVICT \<and> i < length vTried then
        (let nPos = GetRandInt r i (length vTried - i) + i;
             nTemp = vTried ! nPos;
             vTried' = vTried[nPos := vTried ! i, i := nTemp]
         in case oldest of
              None \<Rightarrow> select_tried r m (i + 1) vTried' (Some (nTemp, nPos))
            | Some (nOldest, nOldestPos) \<Rightarrow>
                (case m nTemp of
                   None \<Rightarrow> None
                 | Some info \<Rightarrow>
                     if nLastSuccess info < nLastSuccess (the (m nOldest))
                     then select_tried r m (i + 1) vTried' (Some (nTemp, nPos))
                     else select_tried r m (i + 1) vTried' oldest))
      else Some (oldest, vTried))"
  by pat_completeness auto
termination
  by (relation "measure (\<lambda>(r, m, i, v, x). length v - i)") auto

declare select_tried.simps [simp del]

definition SelectTried :: "(nat \<Rightarrow> nat) \<Rightarrow> nat \<Rightarrow> CAddrMan \<Rightarrow> (nat option \<times> CAddrMan) option" where
  "SelectTried r nKBucket A =
     (case select_tried r (mapInfo A) 0 (vvTried A ! nKBucket) None of
        None \<Rightarrow> None
      | Some (oldest, vTried) \<Rightarrow> Some (map_option snd oldest, A\<lparr>vvTried := (vvTried A)[nKBucket := vTried]\<rparr>))"

text \<open>One reference less; an entry without references is deleted.\<close>

definition release_entry :: "nat \<Rightarrow> CAddrInfo \<Rightarrow> CAddrMan \<Rightarrow> CAddrMan option" where
  "release_entry nId info A =
     (let info1 = info\<lparr>nRefCount := nRefCount info - 1\<rparr>; A1 = put_info nId info1 A
      in if nRefCount info1 = 0 then
           map_option
             (\<lambda>A2. A2\<lparr>vRandom := butlast (vRandom A2), mapAddr := (mapAddr A2)(ip info := None), mapInfo := (mapInfo A2)(nId := None),
                      nNew := nNew A2 - 1\<rparr>)
             (SwapRandom (nat (nRandomPos info)) (length (vRandom A) - 1) A1)
         else Some A1)"

text \<open>The oldest of the entries whose index in the bucket was drawn.\<close>

fun oldest_drawn :: "(nat \<Rightarrow> bool) \<Rightarrow> (nat \<rightharpoonup> CAddrInfo) \<Rightarrow> nat \<Rightarrow> nat list \<Rightarrow> nat option \<Rightarrow> nat option option" where
  "oldest_drawn drawn m nI [] nOldest = Some nOldest"
| "oldest_drawn drawn m nI (n # ns) nOldest =
     (if drawn nI then
        (case nOldest of
           None \<Rightarrow> oldest_drawn drawn m (nI + 1) ns (Some n)
         | Some k \<Rightarrow>
             (case m n of
                None \<Rightarrow> None
              | Some info \<Rightarrow> oldest_drawn drawn m (nI + 1) ns (if addr_nTime info < addr_nTime (the (m k)) then Some n else nOldest)))
      else oldest_drawn drawn m (nI + 1) ns nOldest)"

text \<open>The first terrible entry of a bucket; the entries before it must be known.\<close>

fun first_terrible :: "int \<Rightarrow> (nat \<rightharpoonup> CAddrInfo) \<Rightarrow> nat list \<Rightarrow> (nat \<times> CAddrInfo) option option" where
  "first_terrible nNow m [] = Some None"
| "first_terrible nNow m (n # ns) =
     (case m n of
        None \<Rightarrow> None
      | Some info \<Rightarrow> if IsTerrible nNow info then Some (Some (n, info)) else first_terrible nNow m ns)"

definition ShrinkNew :: "int \<Rightarrow> (nat \<Rightarrow> nat) \<Rightarrow> nat \<Rightarrow> CAddrMan \<Rightarrow> CAddrMan option" where
  "ShrinkNew nNow r nUBucket A =
     (if \<not> nUBucket < length (vvNew A) then None
      else
        (let vNew = vvNew A ! nUBucket; ids = sorted_list_of_set vNew;
             erase = (\<lambda>n A'. A'\<lparr>vvNew := (vvNew A')[nUBucket := vNew - {n}]\<rparr>)
         in case first_terrible nNow (mapInfo A) ids of
              None \<Rightarrow> None
            | Some (Some (n, info)) \<Rightarrow> map_option (erase n) (release_entry n info A)
            | Some None \<Rightarrow>
                (let drawn = (\<lambda>nI. \<exists>i < 4. nI = GetRandInt r i (length ids))
                 in case oldest_drawn drawn (mapInfo A) 0 ids None of
                      Some (Some n) \<Rightarrow>
                        (case mapInfo A n of
                           None \<Rightarrow> None
                         | Some info \<Rightarrow> map_option (erase n) (release_entry n info A))
                    | _ \<Rightarrow> None)))"

section \<open>Moving to the tried table\<close>

definition in_new :: "nat \<Rightarrow> CAddrMan \<Rightarrow> nat set" where
  "in_new nId A = {b. b < length (vvNew A) \<and> nId \<in> vvNew A ! b}"

definition MakeTried :: "env \<Rightarrow> (nat \<Rightarrow> nat) \<Rightarrow> nat \<Rightarrow> nat \<Rightarrow> CAddrMan \<Rightarrow> CAddrMan option" where
  "MakeTried E r nId nOrigin A =
     (case mapInfo A nId of
        None \<Rightarrow> None
      | Some info \<Rightarrow>
          if nId \<notin> vvNew A ! nOrigin then None
          else
            (let info1 = info\<lparr>nRefCount := nRefCount info - int (card (in_new nId A))\<rparr>;
                 A1 = (put_info nId info1 A)\<lparr>vvNew := map (\<lambda>s. s - {nId}) (vvNew A), nNew := nNew A - 1\<rparr>
             in if nRefCount info1 \<noteq> 0 then None
                else
                  (let nKBucket = GetTriedBucket E (am_nKey A) info; vTried = vvTried A ! nKBucket
                   in if length vTried < ADDRMAN_TRIED_BUCKET_SIZE then
                        Some ((put_info nId (info1\<lparr>fInTried := True\<rparr>) A1)\<lparr>vvTried := (vvTried A)[nKBucket := vTried @ [nId]], nTried := nTried A + 1\<rparr>)
                      else
                        (case SelectTried r nKBucket A1 of
                           Some (Some nPos, A2) \<Rightarrow>
                             (let nOld = vvTried A2 ! nKBucket ! nPos
                              in case mapInfo A2 nOld of
                                   None \<Rightarrow> None
                                 | Some infoOld \<Rightarrow>
                                     (let nUBucket = GetNewBucket E (am_nKey A2) infoOld (addr_source infoOld);
                                          A3 = put_info nOld (infoOld\<lparr>fInTried := False, nRefCount := 1\<rparr>) A2;
                                          b = (if card (vvNew A3 ! nUBucket) < ADDRMAN_NEW_BUCKET_SIZE then nUBucket else nOrigin);
                                          A4 = A3\<lparr>vvNew := (vvNew A3)[b := insert nOld (vvNew A3 ! b)], nNew := nNew A3 + 1,
                                                  vvTried := (vvTried A3)[nKBucket := (vvTried A3 ! nKBucket)[nPos := nId]]\<rparr>
                                      in Some (put_info nId ((the (mapInfo A4 nId))\<lparr>fInTried := True\<rparr>) A4)))
                         | _ \<Rightarrow> None))))"

section \<open>Operations\<close>

definition addrman_Good :: "env \<Rightarrow> (nat \<Rightarrow> nat) \<Rightarrow> CService \<Rightarrow> int \<Rightarrow> CAddrMan \<Rightarrow> CAddrMan option" where
  "addrman_Good E r addr nTime0 A =
     (case addr_Find (ip addr) A of
        None \<Rightarrow> Some A
      | Some (nId, info) \<Rightarrow>
          if \<not> service_eq info addr then Some A
          else
            (let info1 = info\<lparr>nLastSuccess := nTime0, nLastTry := nTime0, addr_nTime := word_of_int nTime0, nAttempts := 0\<rparr>;
                 A1 = put_info nId info1 A; nRnd = GetRandInt r 0 (length (vvNew A))
             in if fInTried info1 then Some A1
                else (case find (\<lambda>b. nId \<in> vvNew A ! b) (map (\<lambda>n. (n + nRnd) mod length (vvNew A)) [0..<length (vvNew A)]) of
                    None \<Rightarrow> Some A1
                  | Some nUBucket \<Rightarrow> MakeTried E (skip_draws 1 r) nId nUBucket A1)))"

text \<open>The second half of \<^verbatim>\<open>Add_\<close>: into the bucket for the source.\<close>

definition add_to_bucket :: "env \<Rightarrow> (nat \<Rightarrow> nat) \<Rightarrow> int \<Rightarrow> nat \<Rightarrow> CNetAddr \<Rightarrow> CAddrMan \<Rightarrow> CAddrMan option" where
  "add_to_bucket E r nNow nId source A =
     (let info = the (mapInfo A nId); nUBucket = GetNewBucket E (am_nKey A) info source
      in if nId \<in> vvNew A ! nUBucket then Some A
         else
           (let A1 = put_info nId (info\<lparr>nRefCount := nRefCount info + 1\<rparr>) A
            in map_option (\<lambda>A2. A2\<lparr>vvNew := (vvNew A2)[nUBucket := insert nId (vvNew A2 ! nUBucket)]\<rparr>)
                 (if card (vvNew A1 ! nUBucket) = ADDRMAN_NEW_BUCKET_SIZE then ShrinkNew nNow r nUBucket A1 else Some A1)))"

definition refresh :: "int \<Rightarrow> CAddress \<Rightarrow> int \<Rightarrow> CAddrInfo \<Rightarrow> CAddrInfo" where
  "refresh nNow addr nTimePenalty info =
     (let t = uint (addr_nTime addr);
          nUpdateInterval = (if nNow - t < 24 * 60 * 60 then 60 * 60 else 24 * 60 * 60);
          info1 = (if t \<noteq> 0 \<and> (addr_nTime info = 0 \<or> uint (addr_nTime info) < t - nUpdateInterval - nTimePenalty)
                   then info\<lparr>addr_nTime := word_of_int (max 0 (t - nTimePenalty))\<rparr> else info)
      in info1\<lparr>nServices := nServices info1 OR nServices addr\<rparr>)"

definition addrman_Add :: "env \<Rightarrow> (nat \<Rightarrow> nat) \<Rightarrow> int \<Rightarrow> CAddress \<Rightarrow> CNetAddr \<Rightarrow> int \<Rightarrow> CAddrMan \<Rightarrow> (bool \<times> CAddrMan) option" where
  "addrman_Add E r nNow addr source nTimePenalty A =
     (if \<not> IsRoutable addr then Some (False, A)
      else case addr_Find (ip addr) A of
        Some (nId, info0) \<Rightarrow>
          (let info = refresh nNow addr nTimePenalty info0; A1 = put_info nId info A; nFactor = 2 ^ nat (nRefCount info)
           in if addr_nTime addr = 0 \<or> addr_nTime info \<noteq> 0 \<and> addr_nTime addr \<le> addr_nTime info then Some (False, A1)
              else if fInTried info then Some (False, A1)
              else if nRefCount info = ADDRMAN_NEW_BUCKETS_PER_ADDRESS then Some (False, A1)
              else if nFactor > 1 \<and> GetRandInt r 0 nFactor \<noteq> 0 then Some (False, A1)
              else map_option (Pair False) (add_to_bucket E (skip_draws 1 r) nNow nId source A1))
      | None \<Rightarrow>
          (case addr_Create addr source A of
             (nId, A1) \<Rightarrow>
               (let info = the (mapInfo A1 nId);
                    info1 = info\<lparr>addr_nTime := word_of_int (max 0 (uint (addr_nTime info) - nTimePenalty))\<rparr>
                in map_option (Pair True) (add_to_bucket E r nNow nId source ((put_info nId info1 A1)\<lparr>nNew := nNew A1 + 1\<rparr>)))))"

definition addrman_Attempt :: "CService \<Rightarrow> int \<Rightarrow> CAddrMan \<Rightarrow> CAddrMan" where
  "addrman_Attempt addr nTime0 A =
     (case addr_Find (ip addr) A of
        None \<Rightarrow> A
      | Some (nId, info) \<Rightarrow>
          if \<not> service_eq info addr then A else put_info nId (info\<lparr>nLastTry := nTime0, nAttempts := nAttempts info + 1\<rparr>) A)"

definition addrman_Connected :: "CService \<Rightarrow> int \<Rightarrow> CAddrMan \<Rightarrow> CAddrMan" where
  "addrman_Connected addr nTime0 A =
     (case addr_Find (ip addr) A of
        None \<Rightarrow> A
      | Some (nId, info) \<Rightarrow>
          if \<not> service_eq info addr then A
          else if nTime0 - uint (addr_nTime info) > 20 * 60 then put_info nId (info\<lparr>addr_nTime := word_of_int nTime0\<rparr>) A else A)"

fun getaddr_loop :: "(nat \<Rightarrow> nat) \<Rightarrow> nat \<Rightarrow> nat \<Rightarrow> CAddrMan \<Rightarrow> CAddrInfo list \<Rightarrow> (CAddrInfo list \<times> CAddrMan) option" where
  "getaddr_loop r n 0 A vAddr = Some (vAddr, A)"
| "getaddr_loop r n (Suc k) A vAddr =
     (case SwapRandom n (GetRandInt r n (length (vRandom A) - n) + n) A of
        None \<Rightarrow> None
      | Some A1 \<Rightarrow>
          (case mapInfo A1 (vRandom A1 ! n) of
             None \<Rightarrow> None
           | Some info \<Rightarrow> getaddr_loop r (n + 1) k A1 (vAddr @ [info])))"

definition addrman_GetAddr :: "(nat \<Rightarrow> nat) \<Rightarrow> CAddrMan \<Rightarrow> (CAddrInfo list \<times> CAddrMan) option" where
  "addrman_GetAddr r A =
     (let nNodes = ADDRMAN_GETADDR_MAX_PCT * length (vRandom A) div 100
      in getaddr_loop r 0 (if nNodes > ADDRMAN_GETADDR_MAX then ADDRMAN_GETADDR_MAX else nNodes) A [])"

section \<open>Consistency check\<close>

text \<open>
  \<^verbatim>\<open>Check_\<close>, an error code or the sets the loops fill. An address without an index reads as id zero, the value \<^verbatim>\<open>operator[]\<close> creates.
\<close>

definition check_info :: "CAddrMan \<Rightarrow> nat \<Rightarrow> CAddrInfo \<Rightarrow> nat set \<times> (nat \<rightharpoonup> int) \<Rightarrow> int + (nat set \<times> (nat \<rightharpoonup> int))" where
  "check_info A n info st =
     (let found =
        (if fInTried info then
           (if nLastSuccess info = 0 then Inl (- 1) else if nRefCount info \<noteq> 0 then Inl (- 2) else Inr (insert n (fst st), snd st))
         else
           (if nRefCount info < 0 \<or> nRefCount info > ADDRMAN_NEW_BUCKETS_PER_ADDRESS then Inl (- 3)
            else if nRefCount info = 0 then Inl (- 4) else Inr (fst st, (snd st)(n \<mapsto> nRefCount info))))
      in case found of
           Inl e \<Rightarrow> Inl e
         | Inr st' \<Rightarrow>
             if (case mapAddr A (ip info) of None \<Rightarrow> 0 | Some k \<Rightarrow> k) \<noteq> n then Inl (- 5)
             else if nRandomPos info < 0 \<or> nRandomPos info \<ge> int (length (vRandom A)) \<or> vRandom A ! nat (nRandomPos info) \<noteq> n then Inl (- 14)
             else if nLastTry info < 0 then Inl (- 6)
             else if nLastSuccess info < 0 then Inl (- 8)
             else Inr st')"

fun check_infos :: "CAddrMan \<Rightarrow> nat list \<Rightarrow> nat set \<times> (nat \<rightharpoonup> int) \<Rightarrow> int + (nat set \<times> (nat \<rightharpoonup> int))" where
  "check_infos A [] st = Inr st"
| "check_infos A (n # ns) st =
     (case check_info A n (the (mapInfo A n)) st of Inl e \<Rightarrow> Inl e | Inr st' \<Rightarrow> check_infos A ns st')"

fun check_tried :: "nat list \<Rightarrow> nat set \<Rightarrow> int + nat set" where
  "check_tried [] setTried = Inr setTried"
| "check_tried (n # ns) setTried = (if n \<notin> setTried then Inl (- 11) else check_tried ns (setTried - {n}))"

fun check_new :: "nat list \<Rightarrow> (nat \<rightharpoonup> int) \<Rightarrow> int + (nat \<rightharpoonup> int)" where
  "check_new [] mapNew = Inr mapNew"
| "check_new (n # ns) mapNew =
     (case mapNew n of
        None \<Rightarrow> Inl (- 12)
      | Some c \<Rightarrow> check_new ns (if c - 1 = 0 then mapNew(n := None) else mapNew(n \<mapsto> c - 1)))"

definition addrman_Check :: "CAddrMan \<Rightarrow> int" where
  "addrman_Check A =
     (if int (length (vRandom A)) \<noteq> nTried A + nNew A then - 7
      else case check_infos A (sorted_list_of_set (dom (mapInfo A))) ({}, Map.empty) of
        Inl e \<Rightarrow> e
      | Inr (setTried, mapNew) \<Rightarrow>
          if int (card setTried) \<noteq> nTried A then - 9
          else if int (card (dom mapNew)) \<noteq> nNew A then - 10
          else (case check_tried (concat (vvTried A)) setTried of
              Inl e \<Rightarrow> e
            | Inr setTried' \<Rightarrow>
                (case check_new (concat (map sorted_list_of_set (vvNew A))) mapNew of
                   Inl e \<Rightarrow> e
                 | Inr mapNew' \<Rightarrow> if setTried' \<noteq> {} then - 13 else if dom mapNew' \<noteq> {} then - 15 else 0)))"

end
