(* ===== verification/AddrManInv.thy ===== *)
theory AddrManInv
  imports AddrMan "HOL-Library.Multiset"
begin

text \<open>
  The consistency of the address manager. The invariant relates the four views of the table: the
  entries by id, the index by address, the vector in random order and the two tables of buckets. Every
  operation keeps it and fails none of its assertions, and it makes the check that \<^verbatim>\<open>DEBUG_ADDRMAN\<close> runs
  return zero.
\<close>

section \<open>Invariant\<close>

text \<open>Each view is related to the entries \<open>m\<close> by a predicate of its own.\<close>

definition rnd_inv :: "(nat \<rightharpoonup> CAddrInfo) \<Rightarrow> nat list \<Rightarrow> bool" where
  "rnd_inv m v \<longleftrightarrow> (\<forall>p < length v. \<exists>i. m (v ! p) = Some i \<and> nRandomPos i = int p) \<and> dom m \<subseteq> set v"

definition idx_inv :: "(nat \<rightharpoonup> CAddrInfo) \<Rightarrow> (byte list \<rightharpoonup> nat) \<Rightarrow> bool" where
  "idx_inv m ma \<longleftrightarrow> (\<forall>a n. ma a = Some n \<longleftrightarrow> (\<exists>i. m n = Some i \<and> ip i = a))"

definition tried_inv :: "(nat \<rightharpoonup> CAddrInfo) \<Rightarrow> nat list list \<Rightarrow> bool" where
  "tried_inv m vv \<longleftrightarrow>
     length vv = ADDRMAN_TRIED_BUCKET_COUNT \<and> (\<forall>v \<in> set vv. length v \<le> ADDRMAN_TRIED_BUCKET_SIZE) \<and>
     distinct (concat vv) \<and> set (concat vv) = {n. \<exists>i. m n = Some i \<and> fInTried i}"

definition new_inv :: "(nat \<rightharpoonup> CAddrInfo) \<Rightarrow> nat set list \<Rightarrow> bool" where
  "new_inv m vn \<longleftrightarrow>
     length vn = ADDRMAN_NEW_BUCKET_COUNT \<and> (\<forall>s \<in> set vn. finite s \<and> card s \<le> ADDRMAN_NEW_BUCKET_SIZE \<and> s \<subseteq> dom m)"

definition buckets :: "nat set list \<Rightarrow> nat \<Rightarrow> nat set" where
  "buckets vn n = {b. b < length vn \<and> n \<in> vn ! b}"

text \<open>An entry with \<open>c\<close> references.\<close>

definition entry_ok :: "nat \<Rightarrow> CAddrInfo \<Rightarrow> bool" where
  "entry_ok c i \<longleftrightarrow>
     nRefCount i = int c \<and> (if fInTried i then c = 0 \<and> nLastSuccess i \<noteq> 0 else 1 \<le> c \<and> int c \<le> ADDRMAN_NEW_BUCKETS_PER_ADDRESS) \<and>
     0 \<le> nLastTry i \<and> 0 \<le> nLastSuccess i"

text \<open>The references are the buckets an entry is in and those it is about to be put into, \<open>x\<close> of them.\<close>

definition ents_inv :: "(nat \<Rightarrow> nat) \<Rightarrow> (nat \<rightharpoonup> CAddrInfo) \<Rightarrow> nat set list \<Rightarrow> bool" where
  "ents_inv x m vn \<longleftrightarrow> (\<forall>n i. m n = Some i \<longrightarrow> entry_ok (card (buckets vn n) + x n) i)"

definition addr_inv :: "(nat \<Rightarrow> nat) \<Rightarrow> CAddrMan \<Rightarrow> bool" where
  "addr_inv x A \<longleftrightarrow>
     rnd_inv (mapInfo A) (vRandom A) \<and> idx_inv (mapInfo A) (mapAddr A) \<and> tried_inv (mapInfo A) (vvTried A) \<and>
     new_inv (mapInfo A) (vvNew A) \<and> ents_inv x (mapInfo A) (vvNew A) \<and> dom (mapInfo A) \<subseteq> {..<nIdCount A} \<and>
     nTried A = int (length (concat (vvTried A))) \<and> nNew A + nTried A = int (length (vRandom A))"

section \<open>The vector in random order\<close>

lemma rnd_distinct: "rnd_inv m v \<Longrightarrow> distinct v"
  unfolding rnd_inv_def distinct_conv_nth by (metis nat_int option.inject)

lemma rnd_set: "rnd_inv m v \<Longrightarrow> set v = dom m"
  by (force simp: rnd_inv_def in_set_conv_nth)

lemma rnd_pos:
  assumes "rnd_inv m v" and "m n = Some i"
  obtains p where "nRandomPos i = int p" and "p < length v" and "v ! p = n"
proof -
  obtain p where "p < length v" "v ! p = n" using assms rnd_set [OF assms(1)] by (metis domI in_set_conv_nth)
  with assms that show thesis by (auto simp: rnd_inv_def)
qed

text \<open>The same entries up to their positions.\<close>

definition moved :: "(nat \<rightharpoonup> CAddrInfo) \<Rightarrow> (nat \<rightharpoonup> CAddrInfo) \<Rightarrow> bool" where
  "moved m m' \<longleftrightarrow> (\<forall>n. map_option (\<lambda>i. i\<lparr>nRandomPos := 0\<rparr>) (m' n) = map_option (\<lambda>i. i\<lparr>nRandomPos := 0\<rparr>) (m n))"

lemma moved_refl: "moved m m"
  by (simp add: moved_def)

lemma moved_upd: "moved m m' \<Longrightarrow> m n = Some i \<Longrightarrow> moved m (m'(n \<mapsto> i\<lparr>nRandomPos := p\<rparr>))"
  by (simp add: moved_def)

lemma moved_Some:
  assumes "moved m m'" and "m n = Some i"
  shows "\<exists>p. m' n = Some (i\<lparr>nRandomPos := p\<rparr>)"
proof -
  obtain j where j: "m' n = Some j" "j\<lparr>nRandomPos := 0\<rparr> = i\<lparr>nRandomPos := 0\<rparr>"
    using assms by (cases "m' n") (auto simp: moved_def dest!: spec [of _ n])
  have "j = (j\<lparr>nRandomPos := 0\<rparr>)\<lparr>nRandomPos := nRandomPos j\<rparr>" by simp
  also have "\<dots> = i\<lparr>nRandomPos := nRandomPos j\<rparr>" unfolding j(2) by simp
  finally have "m' n = Some (i\<lparr>nRandomPos := nRandomPos j\<rparr>)" using j(1) by simp
  then show ?thesis ..
qed

lemma moved_back:
  assumes "moved m m'" and "m' n = Some j"
  shows "\<exists>i p. m n = Some i \<and> j = i\<lparr>nRandomPos := p\<rparr>"
proof -
  have "map_option (\<lambda>i. i\<lparr>nRandomPos := 0\<rparr>) (m' n) = map_option (\<lambda>i. i\<lparr>nRandomPos := 0\<rparr>) (m n)" using assms(1) by (simp add: moved_def)
  with assms(2) obtain i where i: "m n = Some i" by (cases "m n") simp_all
  with moved_Some [OF assms(1) i] assms(2) show ?thesis by auto
qed

lemma moved_dom: "moved m m' \<Longrightarrow> dom m' = dom m"
  using moved_Some moved_back by fast

lemma moved_inv:
  assumes "moved m m'"
  shows "idx_inv m ma \<Longrightarrow> idx_inv m' ma" and "tried_inv m vv \<Longrightarrow> tried_inv m' vv" and "new_inv m vn \<Longrightarrow> new_inv m' vn"
    and "ents_inv x m vn \<Longrightarrow> ents_inv x m' vn"
proof -
  have e: "(\<exists>i. m' n = Some i \<and> P i) \<longleftrightarrow> (\<exists>i. m n = Some i \<and> P i)" if "\<And>i p. P (i\<lparr>nRandomPos := p\<rparr>) = P i" for n P
    using moved_Some [OF assms] moved_back [OF assms] that by metis
  show "idx_inv m' ma" if "idx_inv m ma" using that by (simp add: idx_inv_def e)
  show "tried_inv m' vv" if "tried_inv m vv" using that by (simp add: tried_inv_def e)
  show "new_inv m' vn" if "new_inv m vn" using that by (simp add: new_inv_def moved_dom [OF assms])
  show "ents_inv x m' vn" if "ents_inv x m vn"
    using that moved_back [OF assms] by (fastforce simp: ents_inv_def entry_ok_def)
qed

lemma SwapRandom_spec:
  assumes "rnd_inv (mapInfo A) (vRandom A)" and "p1 < length (vRandom A)" and "p2 < length (vRandom A)"
  obtains m where "SwapRandom p1 p2 A = Some (A\<lparr>mapInfo := m, vRandom := (vRandom A)[p1 := vRandom A ! p2, p2 := vRandom A ! p1]\<rparr>)"
    and "rnd_inv m ((vRandom A)[p1 := vRandom A ! p2, p2 := vRandom A ! p1])" and "moved (mapInfo A) m"
proof (cases "p1 = p2")
  case True
  show thesis by (rule that [of "mapInfo A"]) (use True assms in \<open>simp_all add: SwapRandom_def moved_refl\<close>)
next
  case False
  let ?v = "vRandom A" and ?m = "mapInfo A"
  obtain i1 i2 where i: "?m (?v ! p1) = Some i1" "?m (?v ! p2) = Some i2" using assms by (meson rnd_inv_def)
  have ne: "?v ! p1 \<noteq> ?v ! p2" using rnd_distinct [OF assms(1)] assms(2,3) False by (simp add: nth_eq_iff_index_eq)
  let ?m' = "?m(?v ! p1 \<mapsto> i1\<lparr>nRandomPos := int p2\<rparr>, ?v ! p2 \<mapsto> i2\<lparr>nRandomPos := int p1\<rparr>)"
  let ?v' = "?v[p1 := ?v ! p2, p2 := ?v ! p1]"
  show thesis
  proof (rule that [of ?m'])
    show "SwapRandom p1 p2 A = Some (A\<lparr>mapInfo := ?m', vRandom := ?v'\<rparr>)"
      using False assms(2,3) i ne by (simp add: SwapRandom_def Let_def)
    show "moved ?m ?m'" by (intro moved_upd moved_refl i)
    have "\<exists>i. ?m' (?v' ! p) = Some i \<and> nRandomPos i = int p" if "p < length ?v'" for p
    proof -
      have p: "p < length ?v" using that by simp
      consider "p = p1" | "p = p2" | "p \<noteq> p1" "p \<noteq> p2" by blast
      then show ?thesis
      proof cases
        case 3
        then have "?v ! p \<noteq> ?v ! p1" "?v ! p \<noteq> ?v ! p2"
          using rnd_distinct [OF assms(1)] p assms(2,3) by (simp_all add: nth_eq_iff_index_eq)
        with 3 p assms(1) show ?thesis by (simp add: rnd_inv_def)
      qed (use ne False assms(2,3) in simp_all)
    qed
    moreover have "dom ?m' = set ?v" using rnd_set [OF assms(1)] assms(2,3) by auto
    then have "dom ?m' \<subseteq> set ?v'" using assms(2,3) by (simp add: set_swap)
    ultimately show "rnd_inv ?m' ?v'" unfolding rnd_inv_def by blast
  qed
qed

section \<open>Buckets of new addresses\<close>

lemma buckets_update:
  "b < length vn \<Longrightarrow> buckets (vn[b := s]) n = (if n \<in> s then insert b (buckets vn n) else buckets vn n - {b})"
  by (auto simp: buckets_def nth_list_update split: if_splits)

lemma finite_buckets [simp]: "finite (buckets vn n)"
  by (simp add: buckets_def)

lemma in_new_buckets: "in_new n A = buckets (vvNew A) n"
  by (simp add: in_new_def buckets_def)

lemma new_bucket:
  assumes "new_inv m vn" and "b < length vn"
  shows "finite (vn ! b)" and "card (vn ! b) \<le> ADDRMAN_NEW_BUCKET_SIZE" and "vn ! b \<subseteq> dom m"
  using assms by (auto simp: new_inv_def)

lemma unknown_buckets: "new_inv m vn \<Longrightarrow> m n = None \<Longrightarrow> buckets vn n = {}"
  using new_bucket(3) [of m vn] by (auto simp: buckets_def)

lemma in_bucket_new:
  assumes "ents_inv x m vn" and "m n = Some i" and "n \<in> vn ! b" and "b < length vn"
  shows "\<not> fInTried i" and "0 < card (buckets vn n)"
proof -
  have "b \<in> buckets vn n" using assms(3,4) by (simp add: buckets_def)
  then show c: "0 < card (buckets vn n)" by (auto simp: card_gt_0_iff)
  have "entry_ok (card (buckets vn n) + x n) i" using assms(1,2) by (simp add: ents_inv_def)
  with c show "\<not> fInTried i" by (cases "fInTried i") (simp_all add: entry_ok_def)
qed

text \<open>Updates of one entry that a view does not look at.\<close>

lemma entry_update:
  assumes "m n = Some i"
  shows "rnd_inv m v \<Longrightarrow> nRandomPos j = nRandomPos i \<Longrightarrow> rnd_inv (m(n \<mapsto> j)) v"
    and "idx_inv m ma \<Longrightarrow> ip j = ip i \<Longrightarrow> idx_inv (m(n \<mapsto> j)) ma"
    and "tried_inv m vv \<Longrightarrow> fInTried j = fInTried i \<Longrightarrow> tried_inv (m(n \<mapsto> j)) vv"
    and "new_inv m vn \<Longrightarrow> new_inv (m(n \<mapsto> j)) vn" and "dom (m(n \<mapsto> j)) = dom m"
proof -
  have e: "(\<exists>k. (m(n \<mapsto> j)) l = Some k \<and> P k) \<longleftrightarrow> (\<exists>k. m l = Some k \<and> P k)" if "P j = P i" for l P
    using that assms by (cases "l = n") auto
  show "rnd_inv (m(n \<mapsto> j)) v" if "rnd_inv m v" "nRandomPos j = nRandomPos i"
    unfolding rnd_inv_def e [where P = "\<lambda>i. nRandomPos i = _", unfolded that(2), OF refl]
    using that(1) assms by (auto simp: rnd_inv_def)
  show "idx_inv (m(n \<mapsto> j)) ma" if "idx_inv m ma" "ip j = ip i" using that(1) unfolding idx_inv_def by (simp only: e [where P = "\<lambda>i. ip i = _", unfolded that(2), OF refl] simp_thms)
  show "tried_inv (m(n \<mapsto> j)) vv" if "tried_inv m vv" "fInTried j = fInTried i" using that(1) unfolding tried_inv_def e [where P = fInTried, unfolded that(2), OF refl] .
  show d: "dom (m(n \<mapsto> j)) = dom m" using assms by auto
  show "new_inv (m(n \<mapsto> j)) vn" if "new_inv m vn" using that unfolding new_inv_def d .
qed

lemma new_inv_bucket:
  assumes "new_inv m vn" and "b < length vn" and "finite s" and "card s \<le> ADDRMAN_NEW_BUCKET_SIZE" and "s \<subseteq> dom m"
  shows "new_inv m (vn[b := s])"
proof -
  have "set (vn[b := s]) \<subseteq> insert s (set vn)" by (rule set_update_subset_insert)
  with assms(1,3-5) show ?thesis unfolding new_inv_def by (metis insert_iff length_list_update subsetD)
qed

lemma new_inv_minus:
  assumes "new_inv m vn" and "b < length vn"
  shows "new_inv m (vn[b := vn ! b - S])"
proof -
  note n = new_bucket [OF assms]
  have "card (vn ! b - S) \<le> card (vn ! b)" using n(1) by (intro card_mono) auto
  with n show ?thesis by (intro new_inv_bucket [OF assms]) auto
qed

text \<open>Taking an entry out of a bucket: its reference count drops, or it disappears.\<close>

lemma unref_kept:
  assumes "addr_inv x A" and "mapInfo A n = Some i" and "n \<in> vvNew A ! b" and "b < length (vvNew A)" and "x n = 0" and "nRefCount i \<noteq> 1"
  shows "addr_inv x ((put_info n (i\<lparr>nRefCount := nRefCount i - 1\<rparr>) A)\<lparr>vvNew := (vvNew A)[b := vvNew A ! b - {n}]\<rparr>)"
proof -
  let ?i = "i\<lparr>nRefCount := nRefCount i - 1\<rparr>"
  let ?m = "(mapInfo A)(n \<mapsto> ?i)" and ?vn = "(vvNew A)[b := vvNew A ! b - {n}]"
  have inv: "rnd_inv (mapInfo A) (vRandom A)" "idx_inv (mapInfo A) (mapAddr A)" "tried_inv (mapInfo A) (vvTried A)"
      "new_inv (mapInfo A) (vvNew A)" "ents_inv x (mapInfo A) (vvNew A)"
    using assms(1) by (simp_all add: addr_inv_def)
  note u = entry_update [where m = "mapInfo A" and n = n and i = i and j = ?i, OF assms(2)]
  have "rnd_inv ?m (vRandom A)" "idx_inv ?m (mapAddr A)" "tried_inv ?m (vvTried A)" using inv by (auto intro: u)
  moreover have "new_inv ?m ?vn" by (intro u(4) new_inv_minus inv assms(4))
  moreover have "ents_inv x ?m ?vn"
    unfolding ents_inv_def
  proof (intro allI impI)
    fix k j
    assume k: "?m k = Some j"
    show "entry_ok (card (buckets ?vn k) + x k) j"
    proof (cases "k = n")
      case True
      have e: "entry_ok (card (buckets (vvNew A) n)) i" using inv(5) assms(2,5) unfolding ents_inv_def by fastforce
      have "b \<in> buckets (vvNew A) n" using assms(3,4) by (simp add: buckets_def)
      moreover have "buckets ?vn n = buckets (vvNew A) n - {b}" using assms(4) by (simp add: buckets_update)
      ultimately have "card (buckets ?vn n) = card (buckets (vvNew A) n) - 1" by simp
      with e k True assms(5,6) in_bucket_new [OF inv(5) assms(2-4)] show ?thesis by (auto simp: entry_ok_def)
    next
      case False
      then have "buckets ?vn k = buckets (vvNew A) k" using assms(4) by (auto simp: buckets_update) (auto simp: buckets_def)
      with False k inv(5) show ?thesis by (simp add: ents_inv_def)
    qed
  qed
  moreover have "dom ?m \<subseteq> {..<nIdCount A}" unfolding u(5) using assms(1) by (simp add: addr_inv_def)
  ultimately show ?thesis using assms(1) by (simp add: addr_inv_def put_info_def)
qed

lemma rnd_delete:
  assumes "rnd_inv m v" and "v \<noteq> []" and "last v = n"
  shows "rnd_inv (m(n := None)) (butlast v)"
  unfolding rnd_inv_def
proof (intro conjI allI impI)
  fix p
  assume p: "p < length (butlast v)"
  then have "v ! p \<noteq> n" using nth_eq_iff_index_eq [OF rnd_distinct [OF assms(1)], of p "length v - 1"] assms(2,3) by (auto simp: last_conv_nth)
  with p assms(1) show "\<exists>i. (m(n := None)) (butlast v ! p) = Some i \<and> nRandomPos i = int p"
    by (simp add: rnd_inv_def nth_butlast)
next
  have "set v = insert n (set (butlast v))" using assms(2,3) by (metis append_butlast_last_id set_append list.simps(15) empty_set Un_insert_right Un_empty_right)
  then show "dom (m(n := None)) \<subseteq> set (butlast v)" using rnd_set [OF assms(1)] by auto
qed

lemma idx_delete:
  assumes "idx_inv m ma" and "m n = Some j"
  shows "idx_inv (m(n := None)) (ma(ip j := None))"
proof -
  have w: "ma a = Some k \<longleftrightarrow> (\<exists>l. m k = Some l \<and> ip l = a)" for a k using assms(1) by (simp add: idx_inv_def)
  have n: "ma (ip j) = Some n" using w assms(2) by blast
  have "(ma(ip j := None)) a = Some k \<longleftrightarrow> (\<exists>l. (m(n := None)) k = Some l \<and> ip l = a)" for a k
  proof (cases "a = ip j")
    case True
    then show ?thesis using w [of "ip j" k] n by auto
  next
    case False
    then show ?thesis using w [of a k] assms(2) by auto
  qed
  then show ?thesis by (simp add: idx_inv_def)
qed

lemma tried_delete: "tried_inv m vv \<Longrightarrow> m n = Some j \<Longrightarrow> \<not> fInTried j \<Longrightarrow> tried_inv (m(n := None)) vv"
  unfolding tried_inv_def by auto

lemma unref_deleted:
  assumes "addr_inv x A" and "mapInfo A n = Some i" and "n \<in> vvNew A ! b" and "b < length (vvNew A)" and "x n = 0" and "nRefCount i = 1"
    and "moved (mapInfo A) m" and "rnd_inv m v" and "v \<noteq> []" and "last v = n" and "length v = length (vRandom A)"
  shows "addr_inv x (A\<lparr>mapInfo := m(n := None), vRandom := butlast v, mapAddr := (mapAddr A)(ip i := None), nNew := nNew A - 1,
      vvNew := (vvNew A)[b := vvNew A ! b - {n}]\<rparr>)"
proof -
  let ?m = "m(n := None)" and ?vn = "(vvNew A)[b := vvNew A ! b - {n}]"
  have inv: "idx_inv (mapInfo A) (mapAddr A)" "tried_inv (mapInfo A) (vvTried A)" "new_inv (mapInfo A) (vvNew A)" "ents_inv x (mapInfo A) (vvNew A)"
    using assms(1) by (simp_all add: addr_inv_def)
  note mv = moved_inv [OF assms(7)]
  obtain j where j: "m n = Some j" "ip j = ip i" "fInTried j = fInTried i" using moved_Some [OF assms(7,2)] by auto
  have t: "\<not> fInTried i" "0 < card (buckets (vvNew A) n)" using in_bucket_new [OF inv(4) assms(2-4)] .
  have "entry_ok (card (buckets (vvNew A) n)) i" using inv(4) assms(2,5) unfolding ents_inv_def by fastforce
  then have "card (buckets (vvNew A) n) = 1" using assms(6) by (simp add: entry_ok_def)
  moreover have "b \<in> buckets (vvNew A) n" using assms(3,4) by (simp add: buckets_def)
  ultimately have only: "buckets (vvNew A) n = {b}" by (metis card_1_singletonE singletonD)
  have bk: "buckets ?vn k = buckets (vvNew A) k" if "k \<noteq> n" for k
    using that assms(4) by (auto simp: buckets_update) (auto simp: buckets_def)
  have "idx_inv ?m ((mapAddr A)(ip i := None))"
    using idx_delete [OF mv(1) [OF inv(1)] j(1)] j(2) by simp
  moreover have "tried_inv ?m (vvTried A)"
    using tried_delete [OF mv(2) [OF inv(2)] j(1)] t(1) j(3) by simp
  moreover have "new_inv ?m ?vn"
  proof -
    have "s \<subseteq> dom ?m" if s: "s \<in> set ?vn" for s
    proof -
      obtain c where c: "c < length ?vn" "s = ?vn ! c" using s by (metis in_set_conv_nth)
      have "n \<notin> s" using only c assms(4) by (cases "c = b") (auto simp: buckets_def)
      moreover have "s \<subseteq> dom m" using s new_inv_minus [OF mv(3) [OF inv(3)] assms(4)] by (auto simp: new_inv_def)
      ultimately show ?thesis by auto
    qed
    with new_inv_minus [OF mv(3) [OF inv(3)] assms(4)] show ?thesis unfolding new_inv_def by blast
  qed
  moreover have "ents_inv x ?m ?vn" using mv(4) [OF inv(4)] bk by (simp add: ents_inv_def)
  moreover have "dom ?m \<subseteq> {..<nIdCount A}" using assms(1) moved_dom [OF assms(7)] by (auto simp: addr_inv_def)
  moreover have "int (length (butlast v)) = int (length (vRandom A)) - 1" 
  proof -
    have "1 \<le> length v" using assms(9) by (cases v) simp_all
    then show ?thesis unfolding length_butlast assms(11) [symmetric] by (simp add: of_nat_diff)
  qed
  ultimately show ?thesis using assms(1) rnd_delete [OF assms(8-10)] by (simp add: addr_inv_def)
qed

lemma release_spec:
  assumes "addr_inv x A" and "mapInfo A n = Some i" and "n \<in> vvNew A ! b" and "b < length (vvNew A)" and "x n = 0"
  obtains A' where "release_entry n i A = Some A'" and "vvNew A' = vvNew A" and "addr_inv x (A'\<lparr>vvNew := (vvNew A')[b := vvNew A ! b - {n}]\<rparr>)"
    and "\<And>k. k \<noteq> n \<Longrightarrow> mapInfo A k \<noteq> None \<Longrightarrow> mapInfo A' k \<noteq> None"
proof (cases "nRefCount i = 1")
  case False
  let ?A = "put_info n (i\<lparr>nRefCount := nRefCount i - 1\<rparr>) A"
  show thesis
  proof (rule that [of ?A])
    show "release_entry n i A = Some ?A" using False by (simp add: release_entry_def Let_def)
    show "addr_inv x (?A\<lparr>vvNew := (vvNew ?A)[b := vvNew A ! b - {n}]\<rparr>)" using unref_kept [OF assms False] by (simp add: put_info_def)
  qed (simp_all add: put_info_def)
next
  case True
  let ?i = "i\<lparr>nRefCount := nRefCount i - 1\<rparr>"
  let ?A = "put_info n ?i A" and ?v = "vRandom A"
  have r: "rnd_inv (mapInfo A) ?v" using assms(1) by (simp add: addr_inv_def)
  have r1: "rnd_inv (mapInfo ?A) (vRandom ?A)" using entry_update(1) [OF assms(2) r, of ?i] by (simp add: put_info_def)
  obtain p where p: "nRandomPos i = int p" "p < length ?v" "?v ! p = n" using rnd_pos [OF r assms(2)] .
  let ?l = "length ?v - 1"
  let ?v' = "?v[p := ?v ! ?l, ?l := ?v ! p]"
  have va: "vRandom ?A = ?v" by (simp add: put_info_def)
  have a: "p < length (vRandom ?A)" "?l < length (vRandom ?A)" using p(2) unfolding va by simp_all
  obtain m where s: "SwapRandom p ?l ?A = Some (?A\<lparr>mapInfo := m, vRandom := ?v'\<rparr>)" "rnd_inv m ?v'" "moved (mapInfo ?A) m"
    using SwapRandom_spec [OF r1 a] unfolding va by blast
  have last: "last ?v' = n" "?v' \<noteq> []" proof -
    show ne: "?v' \<noteq> []" using p(2) by auto
    show "last ?v' = n" unfolding last_conv_nth [OF ne] using p(2,3) by (simp add: nth_list_update)
  qed
  obtain q where q: "m n = Some (?i\<lparr>nRandomPos := q\<rparr>)" using moved_Some [OF s(3), of n ?i] by (auto simp: put_info_def)
  have mv: "moved (mapInfo A) (m(n \<mapsto> i\<lparr>nRandomPos := q\<rparr>))"
    using s(3) assms(2) by (auto simp: moved_def put_info_def split: if_splits)
  have rm: "rnd_inv (m(n \<mapsto> i\<lparr>nRandomPos := q\<rparr>)) ?v'" using entry_update(1) [OF q s(2)] by simp
  let ?A' = "A\<lparr>mapInfo := m(n := None), vRandom := butlast ?v', mapAddr := (mapAddr A)(ip i := None), nNew := nNew A - 1\<rparr>"
  show thesis
  proof (rule that [of ?A'])
    show "release_entry n i A = Some ?A'" using True p(1) s(1) by (simp add: release_entry_def Let_def put_info_def)
    from unref_deleted [OF assms True mv rm last(2,1)]
    show "addr_inv x (?A'\<lparr>vvNew := (vvNew ?A')[b := vvNew A ! b - {n}]\<rparr>)" by simp
    show "mapInfo ?A' k \<noteq> None" if "k \<noteq> n" "mapInfo A k \<noteq> None" for k
      using that moved_dom [OF s(3)] by (auto simp: put_info_def)
  qed simp
qed

section \<open>Making room in a bucket\<close>

lemma first_terrible_spec:
  "\<forall>n \<in> set ns. m n \<noteq> None \<Longrightarrow> \<exists>t. first_terrible nNow m ns = Some t \<and> (\<forall>n i. t = Some (n, i) \<longrightarrow> n \<in> set ns \<and> m n = Some i)"
  by (induction ns) (auto split: option.splits)

lemma oldest_drawn_spec:
  assumes "\<forall>n \<in> set ns. m n \<noteq> None" and "oldest \<noteq> None \<or> (\<exists>k < length ns. drawn (nI + k))" and "\<forall>n. oldest = Some n \<longrightarrow> n \<in> S" and "set ns \<subseteq> S"
  shows "\<exists>n \<in> S. oldest_drawn drawn m nI ns oldest = Some (Some n)"
  using assms
proof (induction ns arbitrary: nI oldest)
  case Nil
  then show ?case by auto
next
  case (Cons n ns)
  obtain i where i: "m n = Some i" using Cons.prems(1) by auto
  show ?case
  proof (cases "drawn nI")
    case True
    show ?thesis
    proof (cases oldest)
      case None
      have "\<exists>k \<in> S. oldest_drawn drawn m (nI + 1) ns (Some n) = Some (Some k)" by (rule Cons.IH) (use Cons.prems in auto)
      with True None show ?thesis by simp
    next
      case (Some k)
      let ?o = "if addr_nTime i < addr_nTime (the (m k)) then Some n else Some k"
      have "\<exists>k \<in> S. oldest_drawn drawn m (nI + 1) ns ?o = Some (Some k)" by (rule Cons.IH) (use Cons.prems Some in auto)
      with True Some i show ?thesis by simp
    qed
  next
    case False
    have "\<exists>k < length ns. drawn (nI + 1 + k)" if "oldest = None"
    proof -
      obtain k where k: "k < length (n # ns)" "drawn (nI + k)" using Cons.prems(2) \<open>oldest = None\<close> by blast
      with False obtain k' where "k = Suc k'" by (cases k) auto
      with k show ?thesis by auto
    qed
    then have "\<exists>k \<in> S. oldest_drawn drawn m (nI + 1) ns oldest = Some (Some k)" by (intro Cons.IH) (use Cons.prems in auto)
    with False show ?thesis by simp
  qed
qed

lemma ShrinkNew_spec:
  assumes "addr_inv x A" and "b < length (vvNew A)" and "vvNew A ! b \<noteq> {}" and "\<forall>n \<in> vvNew A ! b. x n = 0"
  obtains A' n where "ShrinkNew nNow r b A = Some A'" and "addr_inv x A'" and "n \<in> vvNew A ! b" and "vvNew A' = (vvNew A)[b := vvNew A ! b - {n}]"
    and "\<And>k. k \<notin> vvNew A ! b \<Longrightarrow> mapInfo A k \<noteq> None \<Longrightarrow> mapInfo A' k \<noteq> None"
proof -
  note thesisI = that
  let ?s = "vvNew A ! b" and ?ids = "sorted_list_of_set (vvNew A ! b)"
  have new: "new_inv (mapInfo A) (vvNew A)" using assms(1) by (simp add: addr_inv_def)
  note nb = new_bucket [OF new assms(2)]
  have ids: "set ?ids = ?s" "length ?ids = card ?s" using nb(1) by simp_all
  then have known: "\<forall>n \<in> set ?ids. mapInfo A n \<noteq> None" using nb(3) by auto
  have release: thesis if n: "n \<in> ?s" "mapInfo A n = Some i"
    and res: "\<And>A'. release_entry n i A = Some A' \<Longrightarrow> ShrinkNew nNow r b A = Some (A'\<lparr>vvNew := (vvNew A')[b := ?s - {n}]\<rparr>)" for n i
  proof (rule release_spec [OF assms(1) n(2,1) assms(2)])
    show "x n = 0" using assms(4) n(1) by blast
    fix A'
    assume r: "release_entry n i A = Some A'" "vvNew A' = vvNew A" "addr_inv x (A'\<lparr>vvNew := (vvNew A')[b := ?s - {n}]\<rparr>)"
      "\<And>k. k \<noteq> n \<Longrightarrow> mapInfo A k \<noteq> None \<Longrightarrow> mapInfo A' k \<noteq> None"
    show thesis
    proof (rule thesisI [OF res [OF r(1)] r(3) n(1)])
      show "mapInfo (A'\<lparr>vvNew := (vvNew A')[b := ?s - {n}]\<rparr>) k \<noteq> None" if "k \<notin> ?s" "mapInfo A k \<noteq> None" for k
        using r(4) [of k] n(1) that by (cases "k = n") simp_all
    qed (simp add: r(2))
  qed
  obtain t where t: "first_terrible nNow (mapInfo A) ?ids = Some t" "\<forall>n i. t = Some (n, i) \<longrightarrow> n \<in> set ?ids \<and> mapInfo A n = Some i"
    using first_terrible_spec [OF known] by metis
  show thesis
  proof (cases t)
    case (Some ni)
    obtain n i where ni: "ni = (n, i)" by (cases ni)
    show thesis by (rule release [of n i]) (use t Some ni ids assms(2) in \<open>auto simp: ShrinkNew_def Let_def\<close>)
  next
    case None
    let ?d = "\<lambda>nI. \<exists>i < 4. nI = GetRandInt r i (length ?ids)"
    have pos: "0 < length ?ids" using ids assms(3) nb(1) by (simp add: card_gt_0_iff)
    have "\<exists>n \<in> ?s. oldest_drawn ?d (mapInfo A) 0 ?ids None = Some (Some n)"
    proof (rule oldest_drawn_spec [OF known])
      have "?d (0 + GetRandInt r 0 (length ?ids))" by (auto intro: exI [of _ 0])
      then show "None \<noteq> None \<or> (\<exists>k < length ?ids. ?d (0 + k))" using GetRandInt_less [OF pos] by blast
    qed (use ids in auto)
    then obtain n where n: "n \<in> ?s" "oldest_drawn ?d (mapInfo A) 0 ?ids None = Some (Some n)" by blast
    obtain i where i: "mapInfo A n = Some i" using nb(3) n(1) by auto
    show thesis by (rule release [OF n(1) i]) (use t(1) None n(2) i assms(2) in \<open>simp add: ShrinkNew_def Let_def\<close>)
  qed
qed

section \<open>Adding an address\<close>

definition pending :: "nat \<Rightarrow> nat \<Rightarrow> nat" where
  "pending nId = (\<lambda>_. 0)(nId := 1)"

text \<open>The entry, whose reference is already counted, is put into the bucket.\<close>

lemma bucket_insert:
  assumes "addr_inv (pending nId) A" and "mapInfo A nId \<noteq> None" and "b < length (vvNew A)" and "nId \<notin> vvNew A ! b"
    and "card (vvNew A ! b) < ADDRMAN_NEW_BUCKET_SIZE"
  shows "addr_inv (\<lambda>_. 0) (A\<lparr>vvNew := (vvNew A)[b := insert nId (vvNew A ! b)]\<rparr>)"
proof -
  let ?vn = "(vvNew A)[b := insert nId (vvNew A ! b)]"
  have inv: "new_inv (mapInfo A) (vvNew A)" "ents_inv (pending nId) (mapInfo A) (vvNew A)" using assms(1) by (simp_all add: addr_inv_def)
  note nb = new_bucket [OF inv(1) assms(3)]
  have "new_inv (mapInfo A) ?vn" using nb assms(2,4,5) by (intro new_inv_bucket [OF inv(1) assms(3)]) auto
  moreover have "card (buckets ?vn n) + 0 = card (buckets (vvNew A) n) + pending nId n" for n
  proof (cases "n = nId")
    case True
    have "b \<notin> buckets (vvNew A) nId" using assms(4) by (simp add: buckets_def)
    with True assms(3) show ?thesis by (simp add: buckets_update pending_def)
  next
    case False
    then have "buckets ?vn n = buckets (vvNew A) n" using assms(3) by (auto simp: buckets_update) (auto simp: buckets_def)
    with False show ?thesis by (simp add: pending_def)
  qed
  then have "ents_inv (\<lambda>_. 0) (mapInfo A) ?vn" using inv(2) unfolding ents_inv_def by metis
  ultimately show ?thesis using assms(1) by (simp add: addr_inv_def)
qed

lemma GetNewBucket_less: "GetNewBucket E k a src < ADDRMAN_NEW_BUCKET_COUNT"
  by (simp add: GetNewBucket_def Let_def ADDRMAN_NEW_BUCKET_COUNT_def)

lemma GetTriedBucket_less: "GetTriedBucket E k a < ADDRMAN_TRIED_BUCKET_COUNT"
  by (simp add: GetTriedBucket_def Let_def ADDRMAN_TRIED_BUCKET_COUNT_def)

lemma add_to_bucket_spec:
  assumes "mapInfo A nId = Some i" and "addr_inv (pending nId) (put_info nId (i\<lparr>nRefCount := nRefCount i + 1\<rparr>) A)"
    and "nId \<in> vvNew A ! GetNewBucket E (am_nKey A) i source \<Longrightarrow> addr_inv (\<lambda>_. 0) A"
  shows "\<exists>A'. add_to_bucket E r nNow nId source A = Some A' \<and> addr_inv (\<lambda>_. 0) A'"
proof (cases "nId \<in> vvNew A ! GetNewBucket E (am_nKey A) i source")
  case True
  with assms(1,3) show ?thesis by (simp add: add_to_bucket_def Let_def)
next
  case False
  define b where "b = GetNewBucket E (am_nKey A) i source"
  let ?A = "put_info nId (i\<lparr>nRefCount := nRefCount i + 1\<rparr>) A"
  have vn: "vvNew ?A = vvNew A" and known: "mapInfo ?A nId \<noteq> None" by (simp_all add: put_info_def)
  have new: "new_inv (mapInfo ?A) (vvNew ?A)" using assms(2) by (simp add: addr_inv_def)
  have b: "b < length (vvNew ?A)" "nId \<notin> vvNew ?A ! b"
    using new GetNewBucket_less False by (simp_all add: new_inv_def b_def vn)
  have add: "add_to_bucket E r nNow nId source A =
      map_option (\<lambda>A2. A2\<lparr>vvNew := (vvNew A2)[b := insert nId (vvNew A2 ! b)]\<rparr>)
        (if card (vvNew ?A ! b) = ADDRMAN_NEW_BUCKET_SIZE then ShrinkNew nNow r b ?A else Some ?A)"
    using False assms(1) by (simp add: add_to_bucket_def Let_def b_def)
  show ?thesis
  proof (cases "card (vvNew ?A ! b) = ADDRMAN_NEW_BUCKET_SIZE")
    case True
    then have ne: "vvNew ?A ! b \<noteq> {}" by (auto simp: ADDRMAN_NEW_BUCKET_SIZE_def)
    have p: "\<forall>n \<in> vvNew ?A ! b. pending nId n = 0" using b(2) by (auto simp: pending_def)
    show ?thesis
    proof (rule ShrinkNew_spec [OF assms(2) b(1) ne p])
      fix A' n
      assume s: "ShrinkNew nNow r b ?A = Some A'" "addr_inv (pending nId) A'" "n \<in> vvNew ?A ! b" "vvNew A' = (vvNew ?A)[b := vvNew ?A ! b - {n}]"
        "\<And>k. k \<notin> vvNew ?A ! b \<Longrightarrow> mapInfo ?A k \<noteq> None \<Longrightarrow> mapInfo A' k \<noteq> None"
      have "card (vvNew ?A ! b - {n}) < card (vvNew ?A ! b)" using new_bucket(1) [OF new b(1)] s(3) by (rule card_Diff1_less)
      then have "addr_inv (\<lambda>_. 0) (A'\<lparr>vvNew := (vvNew A')[b := insert nId (vvNew A' ! b)]\<rparr>)"
        using s(4,5) b known True by (intro bucket_insert [OF s(2)]) simp_all
      with add True s(1) show ?thesis by simp
    qed
  next
    case False
    then have "card (vvNew ?A ! b) < ADDRMAN_NEW_BUCKET_SIZE" using new_bucket(2) [OF new b(1)] by simp
    with add False bucket_insert [OF assms(2) known b] show ?thesis by simp
  qed
qed

text \<open>Updates of an entry that keep its place, its state and its references.\<close>

lemma put_info_inv:
  assumes "addr_inv x A" and "mapInfo A n = Some i" and "ip j = ip i" and "nRandomPos j = nRandomPos i" and "fInTried j = fInTried i"
    and "nRefCount j = nRefCount i + int (y n) - int (x n)" and "\<And>k. k \<noteq> n \<Longrightarrow> y k = x k"
    and "entry_ok (card (buckets (vvNew A) n) + y n) j"
  shows "addr_inv y (put_info n j A)"
proof -
  note u = entry_update [where m = "mapInfo A" and n = n and i = i and j = j, OF assms(2)]
  have "ents_inv y ((mapInfo A)(n \<mapsto> j)) (vvNew A)" using assms(1,7,8) by (simp add: addr_inv_def ents_inv_def)
  with u assms(1,3,4,5) show ?thesis unfolding addr_inv_def put_info_def by simp
qed

lemma known_entry: "addr_inv x A \<Longrightarrow> mapInfo A n = Some i \<Longrightarrow> entry_ok (card (buckets (vvNew A) n) + x n) i"
  by (simp add: addr_inv_def ents_inv_def)

lemma touch_inv:
  assumes "addr_inv (\<lambda>_. 0) A" and "mapInfo A n = Some i" and "ip j = ip i" and "nRandomPos j = nRandomPos i" and "fInTried j = fInTried i"
    and "nRefCount j = nRefCount i" and "0 \<le> nLastTry j" and "nLastSuccess j = nLastSuccess i \<or> 0 < nLastSuccess j"
  shows "addr_inv (\<lambda>_. 0) (put_info n j A)"
  by (rule put_info_inv [OF assms(1-5)]) (use assms(5-8) known_entry [OF assms(1,2)] in \<open>auto simp: entry_ok_def split: if_splits\<close>)

lemma Find_known:
  assumes "addr_inv x A" and "addr_Find a A = Some (n, i)"
  shows "mapInfo A n = Some i" and "ip i = a"
  using assms by (auto simp: addr_Find_def addr_inv_def idx_inv_def split: option.splits)

lemma Find_unknown:
  assumes "addr_inv x A" and "addr_Find a A = None"
  shows "mapAddr A a = None"
  using assms by (auto simp: addr_Find_def addr_inv_def idx_inv_def split: option.splits)

lemma Create_inv:
  assumes "addr_inv (\<lambda>_. 0) A" and "mapAddr A (ip addr) = None"
    and "i = (CAddrInfo_new addr source)\<lparr>nRandomPos := int (length (vRandom A)), addr_nTime := t, nRefCount := 1\<rparr>"
  shows "addr_inv (pending (nIdCount A)) (A\<lparr>nIdCount := nIdCount A + 1, mapAddr := (mapAddr A)(ip addr \<mapsto> nIdCount A),
      vRandom := vRandom A @ [nIdCount A], nNew := nNew A + 1, mapInfo := (mapInfo A)(nIdCount A \<mapsto> i)\<rparr>)"
proof -
  let ?n = "nIdCount A"
  let ?m = "(mapInfo A)(?n \<mapsto> i)"
  have inv: "rnd_inv (mapInfo A) (vRandom A)" "idx_inv (mapInfo A) (mapAddr A)" "tried_inv (mapInfo A) (vvTried A)"
      "new_inv (mapInfo A) (vvNew A)" "ents_inv (\<lambda>_. 0) (mapInfo A) (vvNew A)" "dom (mapInfo A) \<subseteq> {..<?n}"
    using assms(1) by (simp_all add: addr_inv_def)
  have n: "mapInfo A ?n = None" using inv(6) by auto
  have i: "ip i = ip addr" "nRandomPos i = int (length (vRandom A))" "\<not> fInTried i" "nRefCount i = 1" "nLastTry i = 0" "nLastSuccess i = 0"
    by (simp_all add: assms(3) CAddrInfo_new_def CAddress.extend_def)
  have "rnd_inv ?m (vRandom A @ [?n])"
  proof -
    have "\<exists>j. ?m ((vRandom A @ [?n]) ! p) = Some j \<and> nRandomPos j = int p" if "p < length (vRandom A @ [?n])" for p
    proof (cases "p < length (vRandom A)")
      case True
      then obtain j where "mapInfo A (vRandom A ! p) = Some j" "nRandomPos j = int p" using inv(1) by (auto simp: rnd_inv_def)
      with True n show ?thesis by (auto simp: nth_append)
    next
      case False
      with that i(2) show ?thesis by (simp add: nth_append)
    qed
    then show ?thesis using inv(1) by (auto simp: rnd_inv_def)
  qed
  moreover have "idx_inv ?m ((mapAddr A)(ip addr \<mapsto> ?n))"
  proof -
    have w: "mapAddr A a = Some k \<longleftrightarrow> (\<exists>l. mapInfo A k = Some l \<and> ip l = a)" for a k using inv(2) by (simp add: idx_inv_def)
    have "((mapAddr A)(ip addr \<mapsto> ?n)) a = Some k \<longleftrightarrow> (\<exists>l. ?m k = Some l \<and> ip l = a)" for a k
    proof (cases "k = ?n")
      case True
      then show ?thesis using w [of a ?n] n i(1) by (cases "a = ip addr") simp_all
    next
      case False
      then show ?thesis using w [of a k] assms(2) by (cases "a = ip addr") simp_all
    qed
    then show ?thesis unfolding idx_inv_def by blast
  qed
  moreover have "(\<exists>j. ?m k = Some j \<and> fInTried j) \<longleftrightarrow> (\<exists>j. mapInfo A k = Some j \<and> fInTried j)" for k
    using n i(3) by (cases "k = ?n") simp_all
  then have "tried_inv ?m (vvTried A)" using inv(3) unfolding tried_inv_def by simp
  moreover have "dom (mapInfo A) \<subseteq> dom ?m" by auto
  then have "new_inv ?m (vvNew A)" using inv(4) unfolding new_inv_def by blast
  moreover have "entry_ok (card (buckets (vvNew A) ?n) + pending ?n ?n) i"
    using unknown_buckets [OF inv(4) n] i by (simp add: pending_def entry_ok_def ADDRMAN_NEW_BUCKETS_PER_ADDRESS_def)
  then have "ents_inv (pending ?n) ?m (vvNew A)"
    using inv(5) by (simp add: ents_inv_def) (simp add: pending_def)
  moreover have "dom ?m \<subseteq> {..<?n + 1}" using inv(6) by auto
  ultimately show ?thesis using assms(1) by (simp add: addr_inv_def)
qed

lemma refresh_fields:
  "ip (refresh nNow addr p i) = ip i" "nRandomPos (refresh nNow addr p i) = nRandomPos i" "fInTried (refresh nNow addr p i) = fInTried i"
  "nRefCount (refresh nNow addr p i) = nRefCount i" "nLastTry (refresh nNow addr p i) = nLastTry i" "nLastSuccess (refresh nNow addr p i) = nLastSuccess i"
  by (simp_all add: refresh_def Let_def)

lemma add_reference:
  assumes "addr_inv (\<lambda>_. 0) A" and "mapInfo A n = Some i" and "\<not> fInTried i" and "nRefCount i \<noteq> ADDRMAN_NEW_BUCKETS_PER_ADDRESS"
  shows "\<exists>A'. add_to_bucket E r nNow n source A = Some A' \<and> addr_inv (\<lambda>_. 0) A'"
proof (rule add_to_bucket_spec [OF assms(2)])
  have e: "entry_ok (card (buckets (vvNew A) n)) i" using known_entry [OF assms(1,2)] by simp
  then show "addr_inv (pending n) (put_info n (i\<lparr>nRefCount := nRefCount i + 1\<rparr>) A)"
    using assms(3,4) by (intro put_info_inv [OF assms(1,2)]) (auto simp: pending_def entry_ok_def)
qed (rule assms(1))

lemma Add_inv:
  assumes "addr_inv (\<lambda>_. 0) A"
  shows "\<exists>f A'. addrman_Add E r nNow addr source p A = Some (f, A') \<and> addr_inv (\<lambda>_. 0) A'"
proof (cases "IsRoutable addr")
  case False
  with assms show ?thesis by (auto simp: addrman_Add_def)
next
  case True
  show ?thesis
  proof (cases "addr_Find (ip addr) A")
    case None
    note free = Find_unknown [OF assms None]
    let ?n = "nIdCount A" and ?t = "word_of_int (max 0 (uint (addr_nTime addr) - p))"
    let ?i = "(CAddrInfo_new addr source)\<lparr>nRandomPos := int (length (vRandom A)), addr_nTime := ?t\<rparr>"
    let ?A = "A\<lparr>nIdCount := ?n + 1, mapAddr := (mapAddr A)(ip addr \<mapsto> ?n), vRandom := vRandom A @ [?n], mapInfo := (mapInfo A)(?n \<mapsto> ?i), nNew := nNew A + 1\<rparr>"
    have t: "addr_nTime (CAddrInfo_new addr source) = addr_nTime addr" and c: "nRefCount (CAddrInfo_new addr source) = 0"
      by (simp_all add: CAddrInfo_new_def CAddress.extend_def)
    have "\<exists>A'. add_to_bucket E r nNow ?n source ?A = Some A' \<and> addr_inv (\<lambda>_. 0) A'"
    proof (rule add_to_bucket_spec [of _ _ ?i])
      from Create_inv [OF assms free refl, where source = source and t = ?t]
      show "addr_inv (pending ?n) (put_info ?n (?i\<lparr>nRefCount := nRefCount ?i + 1\<rparr>) ?A)" by (simp add: put_info_def c)
      have new: "new_inv (mapInfo A) (vvNew A)" and d: "dom (mapInfo A) \<subseteq> {..<?n}" using assms by (simp_all add: addr_inv_def)
      have "GetNewBucket E (am_nKey ?A) ?i source < length (vvNew A)" using new GetNewBucket_less by (simp add: new_inv_def)
      then have "?n \<notin> vvNew ?A ! GetNewBucket E (am_nKey ?A) ?i source" using new_bucket(3) [OF new] d by fastforce
      then show "addr_inv (\<lambda>_. 0) ?A" if "?n \<in> vvNew ?A ! GetNewBucket E (am_nKey ?A) ?i source" using that by blast
    qed simp
    then show ?thesis using True None t by (auto simp: addrman_Add_def addr_Create_def Let_def put_info_def)
  next
    case (Some ni)
    obtain n i where ni: "ni = (n, i)" by (cases ni)
    note k = Find_known [OF assms Some [unfolded ni]]
    let ?i = "refresh nNow addr p i"
    have e: "entry_ok (card (buckets (vvNew A) n)) i" using known_entry [OF assms k(1)] by simp
    have i: "addr_inv (\<lambda>_. 0) (put_info n ?i A)" using e by (intro touch_inv [OF assms k(1)]) (simp_all add: refresh_fields entry_ok_def)
    have m: "mapInfo (put_info n ?i A) n = Some ?i" by (simp add: put_info_def)
    show ?thesis
    proof (cases "fInTried ?i \<or> nRefCount ?i = ADDRMAN_NEW_BUCKETS_PER_ADDRESS")
      case c: True
      with True Some ni i show ?thesis by (auto simp: addrman_Add_def Let_def)
    next
      case c: False
      then obtain A' where "add_to_bucket E (skip_draws 1 r) nNow n source (put_info n ?i A) = Some A'" "addr_inv (\<lambda>_. 0) A'"
        using add_reference [OF i m] by blast
      with True Some ni i show ?thesis by (auto simp: addrman_Add_def Let_def)
    qed
  qed
qed

lemma Attempt_inv: "addr_inv (\<lambda>_. 0) A \<Longrightarrow> 0 \<le> t \<Longrightarrow> addr_inv (\<lambda>_. 0) (addrman_Attempt a t A)"
  by (auto simp: addrman_Attempt_def split: option.split dest: Find_known intro!: touch_inv)

lemma Connected_inv:
  assumes "addr_inv (\<lambda>_. 0) A"
  shows "addr_inv (\<lambda>_. 0) (addrman_Connected a t A)"
proof (cases "addr_Find (ip a) A")
  case (Some ni)
  obtain n i where ni: "ni = (n, i)" by (cases ni)
  note k = Find_known(1) [OF assms Some [unfolded ni]]
  have "0 \<le> nLastTry i" using known_entry [OF assms k] by (simp add: entry_ok_def)
  then have "addr_inv (\<lambda>_. 0) (put_info n (i\<lparr>addr_nTime := word_of_int t\<rparr>) A)" by (intro touch_inv [OF assms k]) simp_all
  with assms Some ni show ?thesis by (simp add: addrman_Connected_def)
qed (simp add: assms addrman_Connected_def)

section \<open>Moving to the tried table\<close>

lemma select_tried_spec:
  assumes "\<forall>n \<in> set v. m n \<noteq> None" and "\<forall>k p. oldest = Some (k, p) \<longrightarrow> p < length v"
  shows "\<exists>o' v'. select_tried r m i v oldest = Some (o', v') \<and> mset v' = mset v \<and> (\<forall>k p. o' = Some (k, p) \<longrightarrow> p < length v) \<and>
    (oldest \<noteq> None \<or> i < ADDRMAN_TRIED_ENTRIES_INSPECT_ON_EVICT \<and> i < length v \<longrightarrow> o' \<noteq> None)"
  using assms
proof (induction r m i v oldest rule: select_tried.induct)
  case (1 r m i v oldest)
  show ?case
  proof (cases "i < ADDRMAN_TRIED_ENTRIES_INSPECT_ON_EVICT \<and> i < length v")
    case False
    with "1.prems"(2) show ?thesis by (auto simp: select_tried.simps [of r m i v])
  next
    case True
    define p where "p = GetRandInt r i (length v - i) + i"
    let ?v = "v[p := v ! i, i := v ! p]"
    have p: "p < length v" using True GetRandInt_less [of "length v - i" r i] by (simp add: p_def)
    have ms: "mset ?v = mset v" using True p by (intro mset_swap) simp_all
    then have set: "\<forall>n \<in> set ?v. m n \<noteq> None" using "1.prems"(1) mset_eq_setD by blast
    obtain j where j: "m (v ! p) = Some j" using "1.prems"(1) p by fastforce
    have step: "\<exists>n'. select_tried r m i v oldest = select_tried r m (i + 1) ?v n' \<and> n' \<noteq> None \<and> (\<forall>k q. n' = Some (k, q) \<longrightarrow> q < length ?v) \<and>
        (\<exists>o' v'. select_tried r m (i + 1) ?v n' = Some (o', v') \<and> mset v' = mset ?v \<and> (\<forall>k q. o' = Some (k, q) \<longrightarrow> q < length ?v) \<and>
          (n' \<noteq> None \<or> i + 1 < ADDRMAN_TRIED_ENTRIES_INSPECT_ON_EVICT \<and> i + 1 < length ?v \<longrightarrow> o' \<noteq> None))"
    proof (cases oldest)
      case None
      have "select_tried r m i v oldest = select_tried r m (i + 1) ?v (Some (v ! p, p))"
        using True None by (simp add: select_tried.simps [of r m i v] Let_def p_def)
      with "1.IH"(1) [OF True p_def refl refl None set] p show ?thesis by (intro exI [of _ "Some (v ! p, p)"]) simp
    next
      case (Some kq)
      obtain k q where kq: "kq = (k, q)" by (cases kq)
      show ?thesis
      proof (cases "nLastSuccess j < nLastSuccess (the (m k))")
        case True': True
        have "select_tried r m i v oldest = select_tried r m (i + 1) ?v (Some (v ! p, p))"
          using True Some kq j True' by (simp add: select_tried.simps [of r m i v] Let_def p_def)
        with "1.IH"(2) [OF True p_def refl refl Some kq [symmetric] j True' set] p show ?thesis by (intro exI [of _ "Some (v ! p, p)"]) simp
      next
        case False
        have "select_tried r m i v oldest = select_tried r m (i + 1) ?v oldest"
          using True Some kq j False by (simp add: select_tried.simps [of r m i v] Let_def p_def)
        with "1.IH"(3) [OF True p_def refl refl Some kq [symmetric] j False set] "1.prems"(2) Some show ?thesis by (intro exI [of _ oldest]) simp
      qed
    qed
    then show ?thesis using ms by (elim exE conjE) simp
  qed
qed

text \<open>The tables of tried entries as a multiset of ids.\<close>

lemma concat_update:
  assumes "k < length vv"
  shows "mset (concat (vv[k := v])) + mset (vv ! k) = mset (concat vv) + mset v"
proof -
  have "concat vv = concat (take k vv) @ vv ! k @ concat (drop (Suc k) vv)"
    by (subst id_take_nth_drop [OF assms]) simp
  then show ?thesis using assms by (simp add: upd_conv_take_nth_drop)
qed

lemma bucket_set: "v \<in> set (vv[k := w]) \<Longrightarrow> v = w \<or> v \<in> set vv"
  using set_update_subset_insert [of vv k w] by blast

lemma tried_shuffle:
  assumes "tried_inv m vv" and "k < length vv" and "mset v = mset (vv ! k)"
  shows "tried_inv m (vv[k := v])"
proof -
  have "mset (concat (vv[k := v])) = mset (concat vv)" using concat_update [OF assms(2), of v] assms(3) by simp
  then have "distinct (concat (vv[k := v])) = distinct (concat vv)" "set (concat (vv[k := v])) = set (concat vv)"
    using mset_eq_imp_distinct_iff mset_eq_setD by blast+
  moreover have "length v = length (vv ! k)" using assms(3) mset_eq_length by blast
  then have "length v \<le> ADDRMAN_TRIED_BUCKET_SIZE" using assms(1,2) by (simp add: tried_inv_def)
  ultimately show ?thesis using assms(1) unfolding tried_inv_def by (auto dest!: bucket_set)
qed

lemma tried_append:
  assumes "tried_inv m vv" and "k < length vv" and "length (vv ! k) < ADDRMAN_TRIED_BUCKET_SIZE" and "m n = Some i" and "\<not> fInTried i" and "fInTried j"
  shows "tried_inv (m(n \<mapsto> j)) (vv[k := vv ! k @ [n]])" and "length (concat (vv[k := vv ! k @ [n]])) = length (concat vv) + 1"
proof -
  let ?vv = "vv[k := vv ! k @ [n]]"
  have ms: "mset (concat ?vv) = mset (n # concat vv)" using concat_update [OF assms(2), of "vv ! k @ [n]"] by simp
  then show "length (concat ?vv) = length (concat vv) + 1" by (metis Suc_eq_plus1 length_Cons mset_eq_length)
  have t: "set (concat vv) = {k. \<exists>i. m k = Some i \<and> fInTried i}" "distinct (concat vv)" using assms(1) by (simp_all add: tried_inv_def)
  have n: "n \<notin> set (concat vv)" unfolding t(1) using assms(4,5) by simp
  have "distinct (concat ?vv)" using ms n t(2) mset_eq_imp_distinct_iff by (metis distinct.simps(2))
  moreover have "set (concat ?vv) = insert n (set (concat vv))" using mset_eq_setD [OF ms] by simp
  then have "set (concat ?vv) = {k. \<exists>i. (m(n \<mapsto> j)) k = Some i \<and> fInTried i}" unfolding t(1) using assms(6) by auto
  moreover have "length v \<le> ADDRMAN_TRIED_BUCKET_SIZE" if "v \<in> set ?vv" for v
    using bucket_set [OF that] assms(1,3) by (auto simp: tried_inv_def)
  ultimately show "tried_inv (m(n \<mapsto> j)) ?vv" using assms(1) unfolding tried_inv_def by simp
qed

lemma tried_replace:
  assumes "tried_inv m vv" and "k < length vv" and "p < length (vv ! k)" and "m n = Some i" and "\<not> fInTried i" and "fInTried j" and "\<not> fInTried oj"
  shows "tried_inv (m(n \<mapsto> j, vv ! k ! p \<mapsto> oj)) (vv[k := (vv ! k)[p := n]])" and "length (concat (vv[k := (vv ! k)[p := n]])) = length (concat vv)"
proof -
  let ?vv = "vv[k := (vv ! k)[p := n]]" and ?o = "vv ! k ! p"
  have "mset ((vv ! k)[p := n]) + {#?o#} = mset (vv ! k) + {#n#}" using assms(3) by (simp add: mset_update)
  with concat_update [OF assms(2), of "(vv ! k)[p := n]"]
  have "(mset (concat ?vv) + {#?o#}) + mset (vv ! k) = (mset (concat vv) + {#n#}) + mset (vv ! k)" by (simp add: ac_simps)
  then have ms: "mset (?o # concat ?vv) = mset (n # concat vv)" by simp
  then show "length (concat ?vv) = length (concat vv)" by (metis length_Cons mset_eq_length nat.inject)
  have t: "set (concat vv) = {k. \<exists>i. m k = Some i \<and> fInTried i}" "distinct (concat vv)" using assms(1) by (simp_all add: tried_inv_def)
  have n: "n \<notin> set (concat vv)" unfolding t(1) using assms(4,5) by simp
  then have d: "distinct (?o # concat ?vv)" using ms t(2) mset_eq_imp_distinct_iff by (metis distinct.simps(2))
  have "insert ?o (set (concat ?vv)) = insert n (set (concat vv))" using mset_eq_setD [OF ms] by simp
  with d have "set (concat ?vv) = insert n (set (concat vv)) - {?o}" by auto
  moreover have "?o \<in> set (concat vv)" using assms(2,3) by (auto intro!: bexI [of _ "vv ! k"])
  then have "?o \<noteq> n" using n by blast
  ultimately have "set (concat ?vv) = {k. \<exists>i. (m(n \<mapsto> j, ?o \<mapsto> oj)) k = Some i \<and> fInTried i}" unfolding t(1) using assms(6,7) by auto
  moreover have "length v \<le> ADDRMAN_TRIED_BUCKET_SIZE" if "v \<in> set ?vv" for v
    using bucket_set [OF that] assms(1,2) by (auto simp: tried_inv_def)
  ultimately show "tried_inv (m(n \<mapsto> j, ?o \<mapsto> oj)) ?vv" using assms(1) d unfolding tried_inv_def by simp
qed

text \<open>The entry is taken out of all its new buckets.\<close>

lemma buckets_clear: "buckets (map (\<lambda>s. s - {n}) vn) k = (if k = n then {} else buckets vn k)"
  by (auto simp: buckets_def)

lemma new_inv_clear:
  assumes "new_inv m vn"
  shows "new_inv m (map (\<lambda>s. s - {n}) vn)"
proof -
  have "finite (s - {n}) \<and> card (s - {n}) \<le> ADDRMAN_NEW_BUCKET_SIZE \<and> s - {n} \<subseteq> dom m" if "s \<in> set vn" for s
    using that assms card_mono [of s "s - {n}"] unfolding new_inv_def by (metis Diff_subset finite_Diff le_trans subset_trans)
  with assms show ?thesis by (auto simp: new_inv_def)
qed

lemma promote_inv:
  assumes "addr_inv (\<lambda>_. 0) A" and "mapInfo A n = Some i" and "\<not> fInTried i" and "0 < nLastSuccess i"
    and "k < length (vvTried A)" and "length (vvTried A ! k) < ADDRMAN_TRIED_BUCKET_SIZE"
  shows "addr_inv (\<lambda>_. 0) (A\<lparr>mapInfo := (mapInfo A)(n \<mapsto> i\<lparr>nRefCount := 0, fInTried := True\<rparr>), vvNew := map (\<lambda>s. s - {n}) (vvNew A),
      nNew := nNew A - 1, vvTried := (vvTried A)[k := vvTried A ! k @ [n]], nTried := nTried A + 1\<rparr>)"
proof -
  let ?j = "i\<lparr>nRefCount := 0, fInTried := True\<rparr>" and ?vn = "map (\<lambda>s. s - {n}) (vvNew A)"
  let ?m = "(mapInfo A)(n \<mapsto> ?j)"
  note u = entry_update [where m = "mapInfo A" and n = n and i = i and j = ?j, OF assms(2)]
  have inv: "rnd_inv (mapInfo A) (vRandom A)" "idx_inv (mapInfo A) (mapAddr A)" "tried_inv (mapInfo A) (vvTried A)"
      "new_inv (mapInfo A) (vvNew A)" "ents_inv (\<lambda>_. 0) (mapInfo A) (vvNew A)"
    using assms(1) by (simp_all add: addr_inv_def)
  note t = tried_append [where j = ?j, OF inv(3) assms(5,6,2,3)]
  have "rnd_inv ?m (vRandom A)" "idx_inv ?m (mapAddr A)" using inv by (auto intro: u)
  moreover have "new_inv ?m ?vn" by (intro u(4) new_inv_clear inv)
  moreover have "entry_ok 0 ?j" using known_entry [OF assms(1,2)] assms(4) by (auto simp: entry_ok_def)
  then have "ents_inv (\<lambda>_. 0) ?m ?vn" using inv(5) by (simp add: ents_inv_def buckets_clear)
  moreover have "dom ?m \<subseteq> {..<nIdCount A}" unfolding u(5) using assms(1) by (simp add: addr_inv_def)
  ultimately show ?thesis using assms(1) t by (simp add: addr_inv_def)
qed

lemma exchange_inv:
  assumes "addr_inv (\<lambda>_. 0) A" and "mapInfo A n = Some i" and "\<not> fInTried i" and "0 < nLastSuccess i"
    and "k < length (vvTried A)" and "p < length (vvTried A ! k)" and "mapInfo A (vvTried A ! k ! p) = Some io" and "fInTried io"
    and "b < length (vvNew A)" and "card (vvNew A ! b - {n}) < ADDRMAN_NEW_BUCKET_SIZE"
  shows "addr_inv (\<lambda>_. 0) (A\<lparr>mapInfo := (mapInfo A)(n \<mapsto> i\<lparr>nRefCount := 0, fInTried := True\<rparr>,
        vvTried A ! k ! p \<mapsto> io\<lparr>fInTried := False, nRefCount := 1\<rparr>),
      vvNew := (map (\<lambda>s. s - {n}) (vvNew A))[b := insert (vvTried A ! k ! p) (vvNew A ! b - {n})],
      vvTried := (vvTried A)[k := (vvTried A ! k)[p := n]]\<rparr>)"
proof -
  let ?o = "vvTried A ! k ! p" and ?j = "i\<lparr>nRefCount := 0, fInTried := True\<rparr>" and ?jo = "io\<lparr>fInTried := False, nRefCount := 1\<rparr>"
  let ?vc = "map (\<lambda>s. s - {n}) (vvNew A)" and ?m1 = "(mapInfo A)(n \<mapsto> ?j)"
  let ?vn = "?vc[b := insert ?o (vvNew A ! b - {n})]" and ?m = "?m1(?o \<mapsto> ?jo)"
  note u = entry_update [where m = "mapInfo A" and n = n and i = i and j = ?j, OF assms(2)]
  have inv: "rnd_inv (mapInfo A) (vRandom A)" "idx_inv (mapInfo A) (mapAddr A)" "tried_inv (mapInfo A) (vvTried A)"
      "new_inv (mapInfo A) (vvNew A)" "ents_inv (\<lambda>_. 0) (mapInfo A) (vvNew A)"
    using assms(1) by (simp_all add: addr_inv_def)
  have ne: "?o \<noteq> n" using assms(2,3,7,8) by auto
  then have o: "?m1 ?o = Some io" using assms(7) by simp
  note v = entry_update [where m = ?m1 and n = ?o and i = io and j = ?jo, OF o]
  note t = tried_replace [where j = ?j and oj = ?jo, OF inv(3) assms(5,6,2,3)]
  have none: "buckets (vvNew A) ?o = {}" using known_entry [OF assms(1,7)] assms(8) by (simp add: entry_ok_def)
  have "rnd_inv ?m (vRandom A)" "idx_inv ?m (mapAddr A)" using inv by (auto intro!: u v)
  moreover have "new_inv ?m ?vn"
  proof (rule new_inv_bucket)
    show "new_inv ?m ?vc" by (intro v(4) u(4) new_inv_clear inv)
    have "finite (vvNew A ! b)" "vvNew A ! b \<subseteq> dom ?m" using new_bucket [OF inv(4) assms(9)] by auto
    then show "finite (insert ?o (vvNew A ! b - {n}))" "insert ?o (vvNew A ! b - {n}) \<subseteq> dom ?m" by auto
    show "card (insert ?o (vvNew A ! b - {n})) \<le> ADDRMAN_NEW_BUCKET_SIZE"
      using assms(10) \<open>finite (vvNew A ! b)\<close> card_insert_le_m1 by (simp add: card_insert_if)
  qed (simp add: assms(9))
  moreover have "ents_inv (\<lambda>_. 0) ?m ?vn"
    unfolding ents_inv_def
  proof (intro allI impI)
    fix l j
    assume l: "?m l = Some j"
    have bk: "buckets ?vn l = (if l = ?o then {b} else if l = n then {} else buckets (vvNew A) l)"
      using none ne assms(9) by (auto simp: buckets_update buckets_clear) (auto simp: buckets_def)
    consider "l = ?o" | "l = n" "l \<noteq> ?o" | "l \<noteq> n" "l \<noteq> ?o" by blast
    then show "entry_ok (card (buckets ?vn l) + 0) j"
    proof cases
      case 1
      with l bk known_entry [OF assms(1,7)] assms(8) show ?thesis by (auto simp: entry_ok_def ADDRMAN_NEW_BUCKETS_PER_ADDRESS_def)
    next
      case 2
      with l bk known_entry [OF assms(1,2)] assms(4) show ?thesis by (auto simp: entry_ok_def)
    next
      case 3
      with l bk inv(5) show ?thesis by (simp add: ents_inv_def)
    qed
  qed
  moreover have "dom ?m \<subseteq> {..<nIdCount A}" unfolding v(5) u(5) using assms(1) by (simp add: addr_inv_def)
  ultimately show ?thesis using assms(1) t by (simp add: addr_inv_def)
qed

lemma SelectTried_spec:
  assumes "addr_inv x A" and "k < length (vvTried A)" and "vvTried A ! k \<noteq> []" and "\<And>n. n \<in> set (vvTried A ! k) \<Longrightarrow> m n \<noteq> None"
  obtains p v where "select_tried r m 0 (vvTried A ! k) None = Some (Some p, v)" and "snd p < length v"
    and "addr_inv x (A\<lparr>vvTried := (vvTried A)[k := v]\<rparr>)" and "v \<noteq> []" and "length v = length (vvTried A ! k)"
proof -
  have "\<forall>n \<in> set (vvTried A ! k). m n \<noteq> None" using assms(4) by blast
  from select_tried_spec [OF this, where oldest = None and i = 0 and r = r] assms(3)
  obtain o' v where s: "select_tried r m 0 (vvTried A ! k) None = Some (o', v)" "mset v = mset (vvTried A ! k)" "o' \<noteq> None"
      "\<forall>l q. o' = Some (l, q) \<longrightarrow> q < length (vvTried A ! k)"
    by (auto simp: ADDRMAN_TRIED_ENTRIES_INSPECT_ON_EVICT_def)
  then obtain p where p: "o' = Some p" by blast
  have len: "length v = length (vvTried A ! k)" using s(2) mset_eq_length by blast
  have t: "tried_inv (mapInfo A) (vvTried A)" using assms(1) by (simp add: addr_inv_def)
  have "mset (concat ((vvTried A)[k := v])) = mset (concat (vvTried A))" using concat_update [OF assms(2), of v] s(2) by simp
  then have "length (concat ((vvTried A)[k := v])) = length (concat (vvTried A))" by (rule mset_eq_length)
  then have "addr_inv x (A\<lparr>vvTried := (vvTried A)[k := v]\<rparr>)" using assms(1) tried_shuffle [OF t assms(2) s(2)] by (simp add: addr_inv_def)
  with s p len assms(3) show thesis by (intro that [of p v]) (auto simp: prod_eq_iff)
qed

lemma MakeTried_inv:
  assumes "addr_inv (\<lambda>_. 0) A" and "mapInfo A n = Some i" and "n \<in> vvNew A ! b" and "b < length (vvNew A)" and "0 < nLastSuccess i"
  shows "\<exists>A'. MakeTried E r n b A = Some A' \<and> addr_inv (\<lambda>_. 0) A'"
proof -
  define k where "k = GetTriedBucket E (am_nKey A) i"
  let ?j = "i\<lparr>nRefCount := 0\<rparr>"
  let ?A1 = "(put_info n ?j A)\<lparr>vvNew := map (\<lambda>s. s - {n}) (vvNew A), nNew := nNew A - 1\<rparr>"
  have inv: "tried_inv (mapInfo A) (vvTried A)" "new_inv (mapInfo A) (vvNew A)" "ents_inv (\<lambda>_. 0) (mapInfo A) (vvNew A)"
    using assms(1) by (simp_all add: addr_inv_def)
  have new: "\<not> fInTried i" using in_bucket_new [OF inv(3) assms(2-4)] by blast
  have ref: "i\<lparr>nRefCount := nRefCount i - int (card (in_new n A))\<rparr> = ?j"
    using known_entry [OF assms(1,2)] by (simp add: entry_ok_def in_new_buckets)
  have k: "k < length (vvTried A)" using inv(1) GetTriedBucket_less by (simp add: tried_inv_def k_def)
  show ?thesis
  proof (cases "length (vvTried A ! k) < ADDRMAN_TRIED_BUCKET_SIZE")
    case True
    from promote_inv [OF assms(1,2) new assms(5) k True] show ?thesis
      using True assms(2,3) unfolding MakeTried_def k_def by (simp add: ref Let_def put_info_def addr_inv_def)
  next
    case False
    have tr: "n \<in> set (vvTried A ! k) \<Longrightarrow> \<exists>i. mapInfo A n = Some i \<and> fInTried i" for n
      using inv(1) k by (fastforce simp: tried_inv_def)
    have full: "vvTried A ! k \<noteq> []" using False by (auto simp: ADDRMAN_TRIED_BUCKET_SIZE_def)
    have known: "\<And>l. l \<in> set (vvTried A ! k) \<Longrightarrow> mapInfo ?A1 l \<noteq> None" using tr by (auto simp: put_info_def)
    obtain pp v where s: "select_tried r (mapInfo ?A1) 0 (vvTried A ! k) None = Some (Some pp, v)" "snd pp < length v"
        "addr_inv (\<lambda>_. 0) (A\<lparr>vvTried := (vvTried A)[k := v]\<rparr>)"
      using SelectTried_spec [where m = "mapInfo ?A1" and r = r, OF assms(1) k full known] by blast
    define p where "p = snd pp"
    let ?B = "A\<lparr>vvTried := (vvTried A)[k := v]\<rparr>"
    have kB: "k < length (vvTried ?B)" and pB: "p < length (vvTried ?B ! k)" and o: "vvTried ?B ! k ! p = v ! p" using k s(2) by (simp_all add: p_def)
    have "v ! p \<in> set (concat (vvTried ?B))" using k pB by (auto intro!: bexI [of _ v] set_update_memI)
    moreover have "tried_inv (mapInfo A) (vvTried ?B)" using s(3) by (simp add: addr_inv_def)
    ultimately obtain io where io: "mapInfo A (v ! p) = Some io" "fInTried io" unfolding tried_inv_def by blast
    then have ne: "v ! p \<noteq> n" using assms(2) new by auto
    define c where "c = GetNewBucket E (am_nKey A) io (addr_source io)"
    define d where "d = (if card (vvNew A ! c - {n}) < ADDRMAN_NEW_BUCKET_SIZE then c else b)"
    have c: "c < length (vvNew A)" using inv(2) GetNewBucket_less by (simp add: new_inv_def c_def)
    have d: "d < length (vvNew A)" using c assms(4) by (simp add: d_def)
    have "card (vvNew A ! b - {n}) < card (vvNew A ! b)" using new_bucket(1) [OF inv(2) assms(4)] assms(3) by (rule card_Diff1_less)
    then have room: "card (vvNew A ! d - {n}) < ADDRMAN_NEW_BUCKET_SIZE" using new_bucket(2) [OF inv(2) assms(4)] by (simp add: d_def)
    have m: "(mapInfo A)(n \<mapsto> ?j, v ! p \<mapsto> y, n \<mapsto> ?j\<lparr>fInTried := True\<rparr>) = (mapInfo A)(n \<mapsto> ?j\<lparr>fInTried := True\<rparr>, v ! p \<mapsto> y)" for y
      using ne by (auto simp: fun_eq_iff)
    let ?R = "?B\<lparr>mapInfo := (mapInfo A)(n \<mapsto> ?j\<lparr>fInTried := True\<rparr>, v ! p \<mapsto> io\<lparr>fInTried := False, nRefCount := 1\<rparr>),
        vvNew := (map (\<lambda>s. s - {n}) (vvNew A))[d := insert (v ! p) (vvNew A ! d - {n})], vvTried := (vvTried A)[k := v[p := n]]\<rparr>"
    have sel: "SelectTried r k ?A1 = Some (Some p, ?A1\<lparr>vvTried := (vvTried A)[k := v]\<rparr>)"
      using s(1) by (simp add: SelectTried_def p_def put_info_def)
    have "MakeTried E r n b A = Some ?R"
      using False assms(2,3) sel io ne c d k unfolding MakeTried_def k_def [symmetric]
      by (simp add: ref Let_def k_def [symmetric] put_info_def c_def [symmetric] d_def m)
    moreover have "addr_inv (\<lambda>_. 0) ?R"
      using exchange_inv [where A = ?B and n = n and i = i and k = k and p = p and io = io and b = d] s(3) assms(2,5) new kB pB io d room o k by simp
    ultimately show ?thesis by blast
  qed
qed

lemma Good_inv:
  assumes "addr_inv (\<lambda>_. 0) A" and "0 < t"
  shows "\<exists>A'. addrman_Good E r a t A = Some A' \<and> addr_inv (\<lambda>_. 0) A'"
proof (cases "addr_Find (ip a) A")
  case None
  with assms show ?thesis by (simp add: addrman_Good_def)
next
  case (Some ni)
  obtain n i where ni: "ni = (n, i)" by (cases ni)
  note k = Find_known(1) [OF assms(1) Some [unfolded ni]]
  let ?i = "i\<lparr>nLastSuccess := t, nLastTry := t, addr_nTime := word_of_int t, nAttempts := 0\<rparr>"
  let ?A = "put_info n ?i A" and ?N = "length (vvNew A)"
  let ?f = "find (\<lambda>b. n \<in> vvNew A ! b) (map (\<lambda>m. (m + GetRandInt r 0 ?N) mod ?N) [0..<?N])"
  have inv: "addr_inv (\<lambda>_. 0) ?A" using assms(2) by (intro touch_inv [OF assms(1) k]) simp_all
  show ?thesis
  proof (cases "service_eq i a \<and> \<not> fInTried i")
    case False
    with assms(1) Some ni inv show ?thesis by (auto simp: addrman_Good_def Let_def)
  next
    case True
    show ?thesis
    proof (cases ?f)
      case None
      with True Some ni inv show ?thesis by (simp add: addrman_Good_def Let_def)
    next
      case (Some b)
      then have b: "n \<in> vvNew A ! b" "b < ?N"
        by (auto simp: find_Some_iff intro!: mod_less_divisor)
      have "\<exists>A'. MakeTried E (skip_draws 1 r) n b ?A = Some A' \<and> addr_inv (\<lambda>_. 0) A'"
        using b assms(2) by (intro MakeTried_inv [where i = ?i, OF inv]) (simp_all add: put_info_def)
      with True Some ni \<open>addr_Find (ip a) A = Some ni\<close> show ?thesis by (simp add: addrman_Good_def Let_def)
    qed
  qed
qed

section \<open>Sending addresses\<close>

lemma SwapRandom_inv:
  assumes "addr_inv x A" and "p < length (vRandom A)" and "q < length (vRandom A)"
  obtains A' where "SwapRandom p q A = Some A'" and "addr_inv x A'" and "mapAddr A' = mapAddr A"
    and "vRandom A' = (vRandom A)[p := vRandom A ! q, q := vRandom A ! p]"
proof -
  have r: "rnd_inv (mapInfo A) (vRandom A)" using assms(1) by (simp add: addr_inv_def)
  obtain m where s: "SwapRandom p q A = Some (A\<lparr>mapInfo := m, vRandom := (vRandom A)[p := vRandom A ! q, q := vRandom A ! p]\<rparr>)"
      "rnd_inv m ((vRandom A)[p := vRandom A ! q, q := vRandom A ! p])" "moved (mapInfo A) m"
    using SwapRandom_spec [OF r assms(2,3)] .
  have "addr_inv x (A\<lparr>mapInfo := m, vRandom := (vRandom A)[p := vRandom A ! q, q := vRandom A ! p]\<rparr>)"
    using assms(1) s(2) moved_inv [OF s(3)] moved_dom [OF s(3)] by (simp add: addr_inv_def)
  with s(1) show thesis by (rule that) simp_all
qed

lemma getaddr_loop_spec:
  assumes "addr_inv x A" and "n + k \<le> length (vRandom A)"
  shows "\<exists>w A'. getaddr_loop r n k A vs = Some (vs @ w, A') \<and> addr_inv x A' \<and> mapAddr A' = mapAddr A \<and> length (vRandom A') = length (vRandom A) \<and>
    take n (vRandom A') = take n (vRandom A) \<and> map (\<lambda>i. mapAddr A (ip i)) w = map Some (take k (drop n (vRandom A')))"
  using assms
proof (induction k arbitrary: n A vs)
  case 0
  then show ?case by simp
next
  case (Suc k)
  let ?q = "GetRandInt r n (length (vRandom A) - n) + n" and ?v = "vRandom A"
  have n: "n < length ?v" and q: "?q < length ?v" using Suc.prems(2) GetRandInt_less [of "length ?v - n" r n] by simp_all
  obtain B where B: "SwapRandom n ?q A = Some B" "addr_inv x B" "mapAddr B = mapAddr A" "vRandom B = ?v[n := ?v ! ?q, ?q := ?v ! n]"
    using SwapRandom_inv [OF Suc.prems(1) n q] .
  have len: "length (vRandom B) = length ?v" and pre: "take n (vRandom B) = take n ?v" using B(4) by simp_all
  have "rnd_inv (mapInfo B) (vRandom B)" "idx_inv (mapInfo B) (mapAddr B)" using B(2) by (simp_all add: addr_inv_def)
  then obtain i where i: "mapInfo B (vRandom B ! n) = Some i" "mapAddr B (ip i) = Some (vRandom B ! n)"
    using n len by (auto simp: rnd_inv_def idx_inv_def)
  have "n + 1 + k \<le> length (vRandom B)" using Suc.prems(2) len by simp
  from Suc.IH [OF B(2) this, of "vs @ [i]"] obtain w A' where w: "getaddr_loop r (n + 1) k B (vs @ [i]) = Some ((vs @ [i]) @ w, A')"
      "addr_inv x A'" "mapAddr A' = mapAddr B" "length (vRandom A') = length (vRandom B)" "take (n + 1) (vRandom A') = take (n + 1) (vRandom B)"
      "map (\<lambda>i. mapAddr B (ip i)) w = map Some (take k (drop (n + 1) (vRandom A')))"
    by blast
  have "take n (vRandom A') = take n ?v" using arg_cong [OF w(5), of "take n"] pre by simp
  moreover have "vRandom A' ! n = vRandom B ! n" using arg_cong [OF w(5), of "\<lambda>v. v ! n"] by simp
  then have "map (\<lambda>i. mapAddr A (ip i)) (i # w) = map Some (take (Suc k) (drop n (vRandom A')))"
    using w(4,6) i(2) B(3) n len by (simp add: Cons_nth_drop_Suc [symmetric])
  ultimately show ?case using B(1,3) i(1) w(1-4) len by (auto intro!: exI [of _ "i # w"])
qed

lemma GetAddr_spec:
  assumes "addr_inv x A"
  shows "\<exists>w A'. addrman_GetAddr r A = Some (w, A') \<and> addr_inv x A' \<and> mapAddr A' = mapAddr A \<and> length (vRandom A') = length (vRandom A) \<and>
    map (\<lambda>i. mapAddr A (ip i)) w = map Some (take (min ADDRMAN_GETADDR_MAX (ADDRMAN_GETADDR_MAX_PCT * length (vRandom A) div 100)) (vRandom A'))"
proof -
  let ?N = "ADDRMAN_GETADDR_MAX_PCT * length (vRandom A) div 100"
  let ?k = "if ?N > ADDRMAN_GETADDR_MAX then ADDRMAN_GETADDR_MAX else ?N"
  have "0 + ?k \<le> length (vRandom A)" by (auto simp: ADDRMAN_GETADDR_MAX_PCT_def)
  moreover have "?k = min ADDRMAN_GETADDR_MAX ?N" by simp
  ultimately have le: "0 + min ADDRMAN_GETADDR_MAX ?N \<le> length (vRandom A)" and
    eq: "addrman_GetAddr r A = getaddr_loop r 0 (min ADDRMAN_GETADDR_MAX ?N) A []"
    by (simp_all only: addrman_GetAddr_def Let_def)
  from getaddr_loop_spec [OF assms le, of r "[]"] show ?thesis unfolding eq by simp
qed

end
