(* ===== verification/AddrManRuns.thy ===== *)
theory AddrManRuns
  imports AddrManInv
begin

text \<open>
  What the consistency of the address manager gives: the check that \<^verbatim>\<open>DEBUG_ADDRMAN\<close> compiles in returns zero,
  the tables are bounded, and a peer that sends addresses reaches a fixed share of the buckets.
\<close>

section \<open>The consistency check\<close>

lemma check_info_ok:
  assumes "addr_inv (\<lambda>_. 0) A" and "mapInfo A n = Some i"
  shows "check_info A n i (T, N) = Inr (if fInTried i then (insert n T, N) else (T, N(n \<mapsto> nRefCount i)))"
proof -
  have e: "entry_ok (card (buckets (vvNew A) n)) i" using known_entry [OF assms] by simp
  have r: "rnd_inv (mapInfo A) (vRandom A)" "idx_inv (mapInfo A) (mapAddr A)" using assms(1) by (simp_all add: addr_inv_def)
  obtain p where "nRandomPos i = int p" "p < length (vRandom A)" "vRandom A ! p = n" using rnd_pos [OF r(1) assms(2)] .
  moreover have "mapAddr A (ip i) = Some n" using r(2) assms(2) by (auto simp: idx_inv_def)
  ultimately show ?thesis using e by (auto simp: check_info_def Let_def entry_ok_def split: if_splits)
qed

lemma check_infos_ok:
  assumes "addr_inv (\<lambda>_. 0) A" and "set ns \<subseteq> dom (mapInfo A)"
  shows "check_infos A ns (T, N) =
    Inr (T \<union> {n \<in> set ns. fInTried (the (mapInfo A n))},
      \<lambda>n. if n \<in> set ns \<and> \<not> fInTried (the (mapInfo A n)) then Some (nRefCount (the (mapInfo A n))) else N n)"
  using assms(2)
proof (induction ns arbitrary: T N)
  case Nil
  then show ?case by simp
next
  case (Cons n ns)
  then obtain i where i: "mapInfo A n = Some i" by auto
  show ?case
  proof (cases "fInTried i")
    case True
    with Cons i check_info_ok [OF assms(1) i] show ?thesis by (auto simp: fun_eq_iff)
  next
    case False
    with Cons i check_info_ok [OF assms(1) i] show ?thesis by (auto simp: fun_eq_iff)
  qed
qed

lemma check_tried_ok: "distinct ns \<Longrightarrow> set ns \<subseteq> T \<Longrightarrow> check_tried ns T = Inr (T - set ns)"
proof (induction ns arbitrary: T)
  case (Cons n ns)
  have "check_tried ns (T - {n}) = Inr (T - {n} - set ns)" by (rule Cons.IH) (use Cons.prems in auto)
  moreover have "n \<in> T" using Cons.prems(2) by simp
  ultimately show ?case by (simp add: Diff_insert2 [symmetric])
qed simp

lemma check_new_ok:
  "(\<And>n. N n = (if n \<in> set ns then Some (int (count_list ns n)) else None)) \<Longrightarrow> check_new ns N = Inr Map.empty"
proof (induction ns arbitrary: N)
  case Nil
  then show ?case by (simp add: fun_eq_iff)
next
  case (Cons n ns)
  have c: "count_list ns n = 0 \<longleftrightarrow> n \<notin> set ns" by (rule count_list_0_iff)
  have "check_new ns (if int (count_list ns n) = 0 then N(n := None) else N(n \<mapsto> int (count_list ns n))) = Inr Map.empty"
    by (rule Cons.IH) (use Cons.prems c in auto)
  with Cons.prems [of n] show ?case by (simp split: if_split_asm)
qed

lemma count_buckets:
  assumes "\<forall>s \<in> set vn. finite s"
  shows "count_list (concat (map sorted_list_of_set vn)) n = card (buckets vn n)"
proof -
  have one: "count_list (sorted_list_of_set s) n = (if n \<in> s then 1 else 0)" if "finite s" for s
    using that by (simp add: count_list_eq_length_filter distinct_length_filter)
  have "count_list (concat (map sorted_list_of_set vn)) n = length (filter (\<lambda>s. n \<in> s) vn)"
    using assms by (induction vn) (simp_all add: one count_list_append)
  then show ?thesis by (simp add: length_filter_conv_card buckets_def)
qed

lemma tried_ids:
  assumes "addr_inv x A"
  shows "{n \<in> dom (mapInfo A). fInTried (the (mapInfo A n))} = set (concat (vvTried A))" and "distinct (concat (vvTried A))"
proof -
  have t: "tried_inv (mapInfo A) (vvTried A)" using assms by (simp add: addr_inv_def)
  then show "distinct (concat (vvTried A))" by (simp add: tried_inv_def)
  have "set (concat (vvTried A)) = {n. \<exists>i. mapInfo A n = Some i \<and> fInTried i}" using t by (simp add: tried_inv_def)
  then show "{n \<in> dom (mapInfo A). fInTried (the (mapInfo A n))} = set (concat (vvTried A))" by auto
qed

lemma ids_finite: "addr_inv x A \<Longrightarrow> finite (dom (mapInfo A))"
  using finite_subset by (auto simp: addr_inv_def)

lemma ids_card:
  assumes "addr_inv x A"
  shows "card (dom (mapInfo A)) = length (vRandom A)"
proof -
  have "rnd_inv (mapInfo A) (vRandom A)" using assms by (simp add: addr_inv_def)
  then show ?thesis using rnd_set rnd_distinct distinct_card by metis
qed

lemma new_refs:
  assumes "addr_inv (\<lambda>_. 0) A"
  shows "(if n \<in> dom (mapInfo A) \<and> \<not> fInTried (the (mapInfo A n)) then Some (nRefCount (the (mapInfo A n))) else None) =
    (let ns = concat (map sorted_list_of_set (vvNew A)) in if n \<in> set ns then Some (int (count_list ns n)) else None)"
proof -
  let ?ns = "concat (map sorted_list_of_set (vvNew A))"
  have new: "new_inv (mapInfo A) (vvNew A)" using assms by (simp add: addr_inv_def)
  then have fin: "\<forall>s \<in> set (vvNew A). finite s" by (simp add: new_inv_def)
  note c = count_buckets [OF fin, of n]
  have mem: "n \<in> set ?ns \<longleftrightarrow> 0 < card (buckets (vvNew A) n)" unfolding c [symmetric] using count_list_0_iff [of ?ns n] by linarith
  show ?thesis
  proof (cases "mapInfo A n")
    case None
    with unknown_buckets [OF new None] show ?thesis unfolding Let_def mem c by (simp add: domIff)
  next
    case (Some i)
    have "entry_ok (card (buckets (vvNew A) n)) i" using known_entry [OF assms Some] by simp
    with Some show ?thesis unfolding Let_def mem c by (auto simp: entry_ok_def split: if_splits)
  qed
qed

lemma Check_zero:
  assumes "addr_inv (\<lambda>_. 0) A"
  shows "addrman_Check A = 0"
proof -
  let ?m = "mapInfo A" and ?ns = "concat (map sorted_list_of_set (vvNew A))"
  let ?T = "{n \<in> dom ?m. fInTried (the (?m n))}"
  let ?N = "\<lambda>n. if n \<in> dom ?m \<and> \<not> fInTried (the (?m n)) then Some (nRefCount (the (?m n))) else None"
  note t = tried_ids [OF assms] and fin = ids_finite [OF assms]
  have sums: "nTried A = int (length (concat (vvTried A)))" "nNew A + nTried A = int (length (vRandom A))" using assms by (simp_all add: addr_inv_def)
  have infos: "check_infos A (sorted_list_of_set (dom ?m)) ({}, Map.empty) = Inr (?T, ?N)"
    using check_infos_ok [OF assms, where ns = "sorted_list_of_set (dom ?m)" and T = "{}" and N = Map.empty] fin by simp
  have cT: "int (card ?T) = nTried A" unfolding t(1) sums(1) using distinct_card [OF t(2)] by simp
  have "dom ?N = dom ?m - ?T" by (auto split: if_splits)
  moreover have "finite ?T" "?T \<subseteq> dom ?m" using fin by auto
  ultimately have cN: "card (dom ?N) = card (dom ?m) - card ?T" "card ?T \<le> card (dom ?m)"
    using fin by (simp_all add: card_Diff_subset card_mono)
  have cN': "int (card (dom ?N)) = nNew A" using cN cT sums(2) ids_card [OF assms] by (simp add: of_nat_diff)
  have tr: "check_tried (concat (vvTried A)) ?T = Inr {}" using check_tried_ok [OF t(2), of ?T] unfolding t(1) by simp
  have nw: "check_new ?ns ?N = Inr Map.empty"
    by (rule check_new_ok) (use new_refs [OF assms] in \<open>simp only: Let_def\<close>)
  show ?thesis unfolding addrman_Check_def infos using sums(2) cT cN' tr nw by simp
qed

section \<open>Runs of the address manager\<close>

inductive addr_reach :: "env \<Rightarrow> CAddrMan \<Rightarrow> bool" for E where
  start: "addr_reach E (CAddrMan_new k)"
| add: "addr_reach E A \<Longrightarrow> addrman_Add E r nNow addr source nTimePenalty A = Some (fNew, A') \<Longrightarrow> addr_reach E A'"
| good: "addr_reach E A \<Longrightarrow> 0 < t \<Longrightarrow> addrman_Good E r a t A = Some A' \<Longrightarrow> addr_reach E A'"
| attempt: "addr_reach E A \<Longrightarrow> 0 \<le> t \<Longrightarrow> addr_reach E (addrman_Attempt a t A)"
| connected: "addr_reach E A \<Longrightarrow> addr_reach E (addrman_Connected a t A)"
| getaddr: "addr_reach E A \<Longrightarrow> addrman_GetAddr r A = Some (vAddr, A') \<Longrightarrow> addr_reach E A'"

lemma start_inv: "addr_inv (\<lambda>_. 0) (CAddrMan_new k)"
  by (simp add: addr_inv_def CAddrMan_new_def rnd_inv_def idx_inv_def tried_inv_def new_inv_def ents_inv_def ADDRMAN_TRIED_BUCKET_COUNT_def
      ADDRMAN_NEW_BUCKET_COUNT_def)

lemma reach_inv: "addr_reach E A \<Longrightarrow> addr_inv (\<lambda>_. 0) A"
proof (induction rule: addr_reach.induct)
  case (add A r nNow addr source nTimePenalty fNew A')
  with Add_inv [OF add.IH, of E r nNow addr source nTimePenalty] show ?case by auto
next
  case (good A t r a A')
  with Good_inv [OF good.IH good.hyps(2), of E r a] show ?case by auto
next
  case (getaddr A r vAddr A')
  with GetAddr_spec [OF getaddr.IH, of r] show ?case by auto
qed (auto intro: start_inv Attempt_inv Connected_inv)

text \<open>C30: In every state that a run of additions, successful connections, attempts and requests reaches, the consistency check
  returns zero, and no assertion of the next addition, connection or request fails, whatever numbers are drawn.
\<close>

theorem addrman_consistent:
  assumes "addr_reach E A"
  shows "addrman_Check A = 0 \<and> addrman_Add E r nNow addr source nTimePenalty A \<noteq> None \<and>
    addrman_Good E r peer (1 + int t) A \<noteq> None \<and> addrman_GetAddr r A \<noteq> None"
proof -
  note inv = reach_inv [OF assms]
  have "0 < 1 + int t" by simp
  with Check_zero [OF inv] Add_inv [OF inv, of E r nNow addr source nTimePenalty] Good_inv [OF inv, of "1 + int t" E r peer] GetAddr_spec [OF inv, of r]
  show ?thesis by auto
qed

section \<open>Bounds\<close>

lemma new_ids:
  assumes "addr_inv (\<lambda>_. 0) A"
  shows "dom (mapInfo A) \<subseteq> set (concat (vvTried A)) \<union> \<Union> (set (vvNew A))"
proof
  fix n
  assume "n \<in> dom (mapInfo A)"
  then obtain i where i: "mapInfo A n = Some i" by auto
  show "n \<in> set (concat (vvTried A)) \<union> \<Union> (set (vvNew A))"
  proof (cases "fInTried i")
    case True
    with i tried_ids(1) [OF assms] show ?thesis by (metis (mono_tags, lifting) UnI1 domI mem_Collect_eq option.sel)
  next
    case False
    then have "0 < card (buckets (vvNew A) n)" using known_entry [OF assms i] by (simp add: entry_ok_def)
    then have "buckets (vvNew A) n \<noteq> {}" by auto
    then show ?thesis by (auto simp: buckets_def)
  qed
qed

lemma card_Union_le:
  assumes "\<forall>s \<in> set vn. finite s \<and> card s \<le> c"
  shows "card (\<Union> (set vn)) \<le> length vn * c"
  using assms
proof (induction vn)
  case (Cons s vn)
  have "card (\<Union> (set (s # vn))) \<le> card s + card (\<Union> (set vn))" using card_Un_le [of s "\<Union> (set vn)"] by simp
  also have "\<dots> \<le> c + length vn * c" using Cons by (intro add_mono) simp_all
  finally show ?case by simp
qed simp

lemma concat_length_le: "\<forall>v \<in> set vv. length v \<le> c \<Longrightarrow> length (concat vv) \<le> length vv * c"
  by (induction vv) auto

text \<open>
  A run never keeps more than 256 * 64 new and 64 * 64 tried addresses, none of them in more than four buckets.
\<close>

theorem addrman_bounded:
  assumes "addr_reach E A"
  shows "nNew A \<le> 16384 \<and> nTried A \<le> 4096 \<and> card (dom (mapInfo A)) \<le> 20480 \<and> card (in_new nId A) \<le> 4"
proof -
  note inv = reach_inv [OF assms]
  have new: "new_inv (mapInfo A) (vvNew A)" and tried: "tried_inv (mapInfo A) (vvTried A)" using inv by (simp_all add: addr_inv_def)
  have T: "length (concat (vvTried A)) \<le> 4096"
    using concat_length_le [of "vvTried A" 64] tried by (simp add: tried_inv_def ADDRMAN_TRIED_BUCKET_COUNT_def ADDRMAN_TRIED_BUCKET_SIZE_def)
  have N: "card (\<Union> (set (vvNew A))) \<le> 16384"
    using card_Union_le [of "vvNew A" 64] new by (simp add: new_inv_def ADDRMAN_NEW_BUCKET_COUNT_def ADDRMAN_NEW_BUCKET_SIZE_def)
  have fin: "finite (\<Union> (set (vvNew A)))" using new by (auto simp: new_inv_def)
  have ids: "card (dom (mapInfo A)) \<le> card (set (concat (vvTried A)) \<union> \<Union> (set (vvNew A)))"
    using fin by (intro card_mono new_ids [OF inv]) simp
  also have "\<dots> \<le> card (set (concat (vvTried A))) + card (\<Union> (set (vvNew A)))" by (rule card_Un_le)
  also have "card (set (concat (vvTried A))) = length (concat (vvTried A))" by (rule distinct_card [OF tried_ids(2) [OF inv]])
  finally have sum: "card (dom (mapInfo A)) \<le> length (concat (vvTried A)) + card (\<Union> (set (vvNew A)))" .
  have cnt: "nTried A = int (length (concat (vvTried A)))" "nNew A + nTried A = int (card (dom (mapInfo A)))"
    using inv ids_card [OF inv] by (simp_all add: addr_inv_def)
  have "card (buckets (vvNew A) nId) \<le> 4"
  proof (cases "mapInfo A nId")
    case None
    with unknown_buckets [OF new None] show ?thesis by simp
  next
    case (Some i)
    with known_entry [OF inv Some] show ?thesis by (auto simp: entry_ok_def ADDRMAN_NEW_BUCKETS_PER_ADDRESS_def split: if_splits)
  qed
  with sum cnt T N show ?thesis by (simp add: in_new_buckets)
qed

section \<open>Groups of peers\<close>

text \<open>The buckets that addresses sent from a group of peers can reach, and the buckets that a group of addresses can.\<close>

definition source_buckets :: "env \<Rightarrow> byte list \<Rightarrow> byte list \<Rightarrow> nat set" where
  "source_buckets E k g = {GetNewBucket E k (a :: CAddrInfo) src | a src. GetGroup src = g}"

definition group_buckets :: "env \<Rightarrow> byte list \<Rightarrow> byte list \<Rightarrow> nat set" where
  "group_buckets E k g = {GetTriedBucket E k (a :: CAddrInfo) | a. GetGroup a = g}"

lemma card_reach:
  assumes "S \<subseteq> f ` {..<N}"
  shows "card S \<le> N"
proof -
  have "card S \<le> card (f ` {..<N})" using assms by (intro card_mono) simp_all
  also have "\<dots> \<le> N" using card_image_le [of "{..<N}" f] by simp
  finally show ?thesis .
qed

lemma source_buckets_card: "card (source_buckets E k g) \<le> ADDRMAN_NEW_BUCKETS_PER_SOURCE_GROUP"
proof (rule card_reach)
  let ?f = "\<lambda>j. unat (Get64 (Hash E (Serialize_bytes k @ Serialize_bytes g @ le_bytes 8 j))) mod ADDRMAN_NEW_BUCKET_COUNT"
  have "GetNewBucket E k a src \<in> ?f ` {..<ADDRMAN_NEW_BUCKETS_PER_SOURCE_GROUP}" if "GetGroup src = g" for a :: CAddrInfo and src
    unfolding GetNewBucket_def Let_def that by (rule imageI) (simp add: ADDRMAN_NEW_BUCKETS_PER_SOURCE_GROUP_def)
  then show "source_buckets E k g \<subseteq> ?f ` {..<ADDRMAN_NEW_BUCKETS_PER_SOURCE_GROUP}" by (auto simp: source_buckets_def)
qed

lemma group_buckets_card: "card (group_buckets E k g) \<le> ADDRMAN_TRIED_BUCKETS_PER_GROUP"
proof (rule card_reach)
  let ?f = "\<lambda>j. unat (Get64 (Hash E (Serialize_bytes k @ Serialize_bytes g @ le_bytes 8 j))) mod ADDRMAN_TRIED_BUCKET_COUNT"
  have "GetTriedBucket E k a \<in> ?f ` {..<ADDRMAN_TRIED_BUCKETS_PER_GROUP}" if "GetGroup a = g" for a :: CAddrInfo
    unfolding GetTriedBucket_def Let_def that by (rule imageI) (simp add: ADDRMAN_TRIED_BUCKETS_PER_GROUP_def)
  then show "group_buckets E k g \<subseteq> ?f ` {..<ADDRMAN_TRIED_BUCKETS_PER_GROUP}" by (auto simp: group_buckets_def)
qed

lemma SwapRandom_tables: "SwapRandom p q A = Some A' \<Longrightarrow> vvNew A' = vvNew A \<and> vvTried A' = vvTried A"
  by (auto simp: SwapRandom_def Let_def split: if_splits option.splits)

lemma release_tables: "release_entry n i A = Some A' \<Longrightarrow> vvNew A' = vvNew A \<and> vvTried A' = vvTried A"
  by (auto simp: release_entry_def Let_def put_info_def split: if_splits dest!: SwapRandom_tables)

lemma ShrinkNew_tables:
  assumes "ShrinkNew nNow r b A = Some A'"
  shows "\<exists>s. vvNew A' = (vvNew A)[b := s] \<and> vvTried A' = vvTried A"
  using assms release_tables by (fastforce simp: ShrinkNew_def Let_def split: if_splits option.splits)

lemma add_to_bucket_tables:
  assumes "add_to_bucket E r nNow n source A = Some A'"
  shows "\<exists>s. vvNew A' = (vvNew A)[GetNewBucket E (am_nKey A) (the (mapInfo A n)) source := s] \<and> vvTried A' = vvTried A"
proof -
  let ?b = "GetNewBucket E (am_nKey A) (the (mapInfo A n)) source"
  show ?thesis
  proof (cases "n \<in> vvNew A ! ?b")
    case True
    with assms show ?thesis by (auto simp: add_to_bucket_def intro!: exI [of _ "vvNew A ! ?b"])
  next
    case False
    let ?A = "put_info n ((the (mapInfo A n))\<lparr>nRefCount := nRefCount (the (mapInfo A n)) + 1\<rparr>) A"
    have "\<exists>B. (B = ?A \<or> ShrinkNew nNow r ?b ?A = Some B) \<and> A' = B\<lparr>vvNew := (vvNew B)[?b := insert n (vvNew B ! ?b)]\<rparr>"
      using assms False by (auto simp: add_to_bucket_def Let_def split: if_splits)
    moreover have "vvNew ?A = vvNew A" "vvTried ?A = vvTried A" by (simp_all add: put_info_def)
    ultimately show ?thesis using ShrinkNew_tables [of nNow r ?b ?A] by fastforce
  qed
qed

text \<open>Adding an address changes no bucket of tried ones, and among the buckets of new ones only one that the group of the peer who sent
  it reaches; a group of peers reaches at most 32 of the 256 buckets, and a group of addresses at most 4 of the 64 tried ones.
\<close>

theorem source_group_confined:
  assumes "addrman_Add E r nNow addr source nTimePenalty A = Some (fNew, A')"
  shows "vvTried A' = vvTried A \<and> (\<forall>b. vvNew A' ! b \<noteq> vvNew A ! b \<longrightarrow> b \<in> source_buckets E (am_nKey A) (GetGroup source)) \<and>
    card (source_buckets E (am_nKey A) (GetGroup source)) \<le> 32 \<and> card (group_buckets E (am_nKey A) (GetGroup addr)) \<le> 4"
proof -
  let ?S = "source_buckets E (am_nKey A) (GetGroup source)"
  define P where "P \<longleftrightarrow> vvTried A' = vvTried A \<and> (\<forall>b. vvNew A' ! b \<noteq> vvNew A ! b \<longrightarrow> b \<in> ?S)"
  have kept: P if B: "add_to_bucket E r' nNow n source B = Some A'" "am_nKey B = am_nKey A" "vvNew B = vvNew A" "vvTried B = vvTried A" for r' n B
  proof -
    have b: "GetNewBucket E (am_nKey A) (the (mapInfo B n)) source \<in> ?S" by (auto simp: source_buckets_def)
    with add_to_bucket_tables [OF B(1)] B(2-4) show ?thesis unfolding P_def by (metis nth_list_update_neq)
  qed
  have same: P if "vvNew A' = vvNew A" "vvTried A' = vvTried A" using that by (simp add: P_def)
  have P
    using assms by (auto simp: addrman_Add_def addr_Create_def put_info_def Let_def split: if_splits option.splits dest!: kept) (simp_all add: same)
  with source_buckets_card [of E "am_nKey A" "GetGroup source"] group_buckets_card [of E "am_nKey A" "GetGroup addr"]
  show ?thesis by (simp add: P_def ADDRMAN_NEW_BUCKETS_PER_SOURCE_GROUP_def ADDRMAN_TRIED_BUCKETS_PER_GROUP_def)
qed

section \<open>Sending addresses\<close>

text \<open>
  A request is answered with 23 per cent of the addresses, at most 2500 of them, all known and no two the same.
\<close>

theorem GetAddr_answer:
  assumes "addr_reach E A"
  shows "\<exists>vAddr A'. addrman_GetAddr r A = Some (vAddr, A') \<and> length vAddr = min 2500 (23 * card (dom (mapInfo A)) div 100) \<and>
    distinct (map ip vAddr) \<and> (\<forall>a \<in> set vAddr. mapAddr A (ip a) \<noteq> None)"
proof -
  note inv = reach_inv [OF assms]
  let ?n = "min 2500 (23 * card (dom (mapInfo A)) div 100)"
  have c: "card (dom (mapInfo A)) = length (vRandom A)" by (rule ids_card [OF inv])
  obtain w A' where w: "addrman_GetAddr r A = Some (w, A')" "addr_inv (\<lambda>_. 0) A'" "length (vRandom A') = length (vRandom A)"
      "map (\<lambda>i. mapAddr A (ip i)) w = map Some (take ?n (vRandom A'))"
    using GetAddr_spec [OF inv, of r] unfolding c ADDRMAN_GETADDR_MAX_def ADDRMAN_GETADDR_MAX_PCT_def by blast
  have "rnd_inv (mapInfo A') (vRandom A')" using w(2) by (simp add: addr_inv_def)
  then have "distinct (map Some (take ?n (vRandom A')))" using rnd_distinct by (auto simp: distinct_map)
  then have "distinct (map (mapAddr A) (map ip w))" unfolding w(4) [symmetric] by (simp add: comp_def)
  then have "distinct (map ip w)" unfolding distinct_map [of "mapAddr A"] by blast
  moreover have "length w = ?n" using arg_cong [OF w(4), of length] w(3) c by simp
  moreover have "mapAddr A (ip a) \<noteq> None" if "a \<in> set w" for a
  proof -
    have "mapAddr A (ip a) \<in> set (map Some (take ?n (vRandom A')))" unfolding w(4) [symmetric] using that by auto
    then show ?thesis by auto
  qed
  ultimately show ?thesis using w(1) by blast
qed

section \<open>The entry that is evicted\<close>

text \<open>
  \<^verbatim>\<open>SelectTried\<close> moves the entry it inspects to the front of the bucket, but keeps the position it was drawn from: the entry that is evicted
  is the one that was moved there, and not the one that was found to be the least recently tried.
\<close>

definition old_info :: CAddrInfo where
  "old_info = \<lparr>ip = pchIPv4 @ [8, 8, 8, 8], port = 8333, nServices = 1, addr_nTime = 1000, nLastTry = 1, addr_source = \<lparr>ip = pchIPv4 @ [9, 9, 9, 9]\<rparr>,
     nLastSuccess = 1, nAttempts = 0, nRefCount = 0, fInTried = True, nRandomPos = 0\<rparr>"

definition five_infos :: "nat \<rightharpoonup> CAddrInfo" where
  "five_infos = (\<lambda>n. if n < 5 then Some (old_info\<lparr>nLastSuccess := if n = 2 then 1 else 100\<rparr>) else None)"

text \<open>Of a bucket of five tried entries of which the third is the least recently tried, and the first draw is the third, the position
  that is returned holds the first entry: the oldest entry that was inspected stays.
\<close>

theorem SelectTried_misses_oldest:
  "select_tried ((\<lambda>_. 0)(0 := 2)) five_infos 0 [0, 1, 2, 3, 4] None = Some (Some (2, 2), [2, 1, 0, 3, 4]) \<and> [2, 1, 0, 3, 4] ! 2 = (0 :: nat) \<and>
   nLastSuccess (the (five_infos 2)) < nLastSuccess (the (five_infos 0))"
  by (simp add: select_tried.simps GetRandInt_def five_infos_def ADDRMAN_TRIED_ENTRIES_INSPECT_ON_EVICT_def)

section \<open>Samples\<close>

definition sample_peer :: CAddress where
  "sample_peer = \<lparr>ip = pchIPv4 @ [8, 8, 8, 8], port = 8333, nServices = 1, addr_nTime = 1000, nLastTry = 0\<rparr>"

definition sample_source :: CNetAddr where
  "sample_source = \<lparr>ip = pchIPv4 @ [9, 9, 9, 9]\<rparr>"

definition sample_service :: CService where
  "sample_service = \<lparr>ip = pchIPv4 @ [8, 8, 8, 8], port = 8333\<rparr>"

definition sample_table :: CAddrMan where
  "sample_table = snd (the (addrman_Add ref_env (\<lambda>_. 0) 1000 sample_peer sample_source 0 (CAddrMan_new [])))"

definition tried_table :: CAddrMan where
  "tried_table = the (addrman_Good ref_env (\<lambda>_. 0) sample_service 1000 sample_table)"

lemma sample_routable: "IsRoutable sample_peer"
  by code_simp

lemma sample_Add: "\<exists>f. addrman_Add ref_env (\<lambda>_. 0) 1000 sample_peer sample_source 0 (CAddrMan_new []) = Some (f, sample_table)"
  using Add_inv [OF start_inv, of ref_env "\<lambda>_. 0" 1000 sample_peer sample_source 0 "[]"] by (auto simp: sample_table_def)

lemma sample_reach: "addr_reach ref_env sample_table"
  using sample_Add addr_reach.add [OF addr_reach.start] by blast

lemma tried_reach: "addr_reach ref_env tried_table"
proof -
  obtain A where A: "addrman_Good ref_env (\<lambda>_. 0) sample_service 1000 sample_table = Some A"
    using Good_inv [OF reach_inv [OF sample_reach], of 1000 ref_env "\<lambda>_. 0" sample_service] by auto
  then have "A = tried_table" by (simp add: tried_table_def)
  with A show ?thesis using addr_reach.good [OF sample_reach, of 1000 "\<lambda>_. 0" sample_service] by simp
qed

lemma sample_new: "nNew sample_table = 1" and sample_known: "mapAddr sample_table (ip sample_peer) = Some 0"
proof -
  have b: "GetNewBucket ref_env [] a sample_source < 256" for a :: CAddrInfo using GetNewBucket_less [of ref_env "[]" a] by (simp add: ADDRMAN_NEW_BUCKET_COUNT_def)
  have "addrman_Add ref_env (\<lambda>_. 0) 1000 sample_peer sample_source 0 (CAddrMan_new []) \<noteq> None" using sample_Add by auto
  then have "nNew sample_table = 1 \<and> mapAddr sample_table (ip sample_peer) = Some 0"
    unfolding sample_table_def addrman_Add_def using sample_routable b
    by (simp add: addr_Find_def CAddrMan_new_def addr_Create_def Let_def add_to_bucket_def put_info_def ADDRMAN_NEW_BUCKET_COUNT_def
        ADDRMAN_NEW_BUCKET_SIZE_def)
  then show "nNew sample_table = 1" "mapAddr sample_table (ip sample_peer) = Some 0" by simp_all
qed

theorem addrman_consistent_witness:
  "addr_reach ref_env tried_table \<and> addrman_Check tried_table = 0 \<and> addrman_Good ref_env (\<lambda>_. 7) sample_service (1 + int 4) tried_table \<noteq> None"
  using tried_reach addrman_consistent [OF tried_reach, of "\<lambda>_. 7" 1000 sample_peer sample_source 0 sample_service 4] by blast

theorem addrman_bounded_witness:
  "addr_reach ref_env sample_table \<and> nNew sample_table = 1 \<and> card (dom (mapInfo sample_table)) \<le> 20480 \<and> card (in_new 0 sample_table) \<le> 4"
  using sample_reach sample_new addrman_bounded [OF sample_reach, of 0] by blast

theorem source_group_confined_witness:
  "nNew sample_table = 1 \<and> vvTried sample_table = vvTried (CAddrMan_new []) \<and>
   (\<exists>f. addrman_Add ref_env (\<lambda>_. 0) 1000 sample_peer sample_source 0 (CAddrMan_new []) = Some (f, sample_table))"
proof -
  obtain f where f: "addrman_Add ref_env (\<lambda>_. 0) 1000 sample_peer sample_source 0 (CAddrMan_new []) = Some (f, sample_table)" using sample_Add by blast
  from source_group_confined [OF f] f sample_new show ?thesis by blast
qed

theorem GetAddr_answer_witness:
  "addr_reach ref_env sample_table \<and> mapAddr sample_table (ip sample_peer) = Some 0 \<and>
   (\<exists>vAddr A'. addrman_GetAddr (\<lambda>_. 3) sample_table = Some (vAddr, A') \<and> distinct (map ip vAddr))"
  using sample_reach sample_known GetAddr_answer [OF sample_reach, of "\<lambda>_. 3"] by blast

end
