(* ===== verification/Wallet.thy ===== *)
theory Wallet
  imports Checkpoints
begin

text \<open>
  The wallet's view of transactions: \<^verbatim>\<open>CMerkleTx\<close> and its depth in the main chain (src/src/main.h,
  src/src/main.cpp), \<^verbatim>\<open>CWalletTx\<close> with the marks of spent outputs (src/src/wallet.h), and of \<^verbatim>\<open>CWallet\<close> (src/src/wallet.h,
  src/src/wallet.cpp) the ownership tests, the coins that may be spent, and the updates of the marks
  when a transaction is added or sent.

  A pointer to a wallet transaction is its key in \<^verbatim>\<open>mapWallet\<close>. The amounts are computed anew at every call: the caches of debit, credit and
  available credit in \<^verbatim>\<open>CWalletTx\<close> are not modelled, so \<open>GetAvailableCredit\<close> is the call with \<^verbatim>\<open>fUseCache\<close> false and the balances are
  those that an empty cache gives. A cached amount can be out of date: adding a redeem script makes outputs ours
  without \<^verbatim>\<open>MarkDirty\<close>. Nor is it recorded that a Merkle branch was verified, so it is verified again. The times and order numbers
  shown to the user, the replacement of a used default
  key, the notifications and the wallet file are not modelled; whether a write to the
  file succeeds is an argument. None is an exception or a call that does not end. A redeem script that pays
  to itself through a circle of scripts, on which \<^verbatim>\<open>IsMine\<close> would not end, counts as foreign.
\<close>

section \<open>Data\<close>

record CMerkleTx = CTransaction +
  mtx_hashBlock :: u256
  vMerkleBranch :: "u256 list"
  mtx_nIndex :: int
  fMerkleVerified :: bool

record CWalletTx = CMerkleTx +
  vtxPrev :: "CMerkleTx list"
  fFromMe :: bool
  vfSpent :: "bool list"

record CWallet =
  w_keys :: CKeyStore
  mapWallet :: "u256 \<rightharpoonup> CWalletTx"

record CCoinControl =
  destChange :: CTxDestination
  setSelected :: "COutPoint set"

record COutput =
  out_tx :: u256
  out_i :: nat
  out_nDepth :: int

record wallet_settings =
  nTransactionFee :: int
  nMinimumInputValue :: int
  fConfChange :: bool

abbreviation tx_of :: "'a CTransaction_scheme \<Rightarrow> CTransaction" where
  "tx_of t \<equiv> CTransaction.truncate t"

definition CMerkleTx_new :: "CTransaction \<Rightarrow> CMerkleTx" where
  "CMerkleTx_new tx = CTransaction.extend tx \<lparr>mtx_hashBlock = 0, vMerkleBranch = [], mtx_nIndex = - 1, fMerkleVerified = False\<rparr>"

definition CWalletTx_new :: "CTransaction \<Rightarrow> CWalletTx" where
  "CWalletTx_new tx = CMerkleTx.extend (CMerkleTx_new tx) \<lparr>vtxPrev = [], fFromMe = False, vfSpent = []\<rparr>"

section \<open>Depth in the main chain\<close>

definition GetDepthInMainChainINTERNAL :: "env \<Rightarrow> node_state \<Rightarrow> 'a CMerkleTx_scheme \<Rightarrow> int" where
  "GetDepthInMainChainINTERNAL E S t =
     (if mtx_hashBlock t = 0 \<or> mtx_nIndex t = - 1 then 0
      else
        (case mapBlockIndex S (mtx_hashBlock t) of
           None \<Rightarrow> 0
         | Some pindex \<Rightarrow>
             if \<not> IsInMainChain S (mtx_hashBlock t) then 0
             else if \<not> fMerkleVerified t \<and> CheckMerkleBranch E (GetHash E (tx_of t)) (vMerkleBranch t) (mtx_nIndex t) \<noteq> idx_hashMerkleRoot pindex then 0
             else node_height (mapBlockIndex S) (the (pindexBest S)) - bp_nHeight pindex + 1))"

definition GetDepthInMainChain :: "env \<Rightarrow> node_state \<Rightarrow> 'a CMerkleTx_scheme \<Rightarrow> int" where
  "GetDepthInMainChain E S t =
     (let nResult = GetDepthInMainChainINTERNAL E S t
      in if nResult = 0 \<and> \<not> pool_exists (ns_pool S) (GetHash E (tx_of t)) then - 1 else nResult)"

definition GetBlocksToMaturity :: "env \<Rightarrow> node_state \<Rightarrow> 'a CMerkleTx_scheme \<Rightarrow> int" where
  "GetBlocksToMaturity E S t =
     (if \<not> (IsCoinBase (tx_of t) \<or> IsCoinStake (tx_of t)) then 0
      else max 0 ((nCoinbaseMaturity (ns_params S) + 10) - GetDepthInMainChain E S t))"

text \<open>\<^verbatim>\<open>SetMerkleBranch\<close> for a given block.\<close>

definition SetMerkleBranch :: "env \<Rightarrow> CBlock \<Rightarrow> 'a CMerkleTx_scheme \<Rightarrow> 'a CMerkleTx_scheme" where
  "SetMerkleBranch E pblock t =
     (let t1 = t\<lparr>mtx_hashBlock := CBlock_GetHash E pblock\<rparr>
      in case find (\<lambda>i. vtx pblock ! i = tx_of t) [0..<length (vtx pblock)] of
           None \<Rightarrow> t1\<lparr>vMerkleBranch := [], mtx_nIndex := - 1\<rparr>
         | Some i \<Rightarrow> t1\<lparr>mtx_nIndex := int i, vMerkleBranch := GetMerkleBranch E pblock i\<rparr>)"

section \<open>Marks of spent outputs\<close>

definition resize_marks :: "nat \<Rightarrow> bool list \<Rightarrow> bool list" where
  "resize_marks n v = take n v @ replicate (n - length v) False"

definition IsSpent :: "CWalletTx \<Rightarrow> nat \<Rightarrow> bool" where
  "IsSpent w n \<longleftrightarrow> n < length (vfSpent w) \<and> vfSpent w ! n"

definition MarkSpent :: "nat \<Rightarrow> CWalletTx \<Rightarrow> CWalletTx option" where
  "MarkSpent n w =
     (if n \<ge> length (vout w) then None else Some (w\<lparr>vfSpent := (resize_marks (length (vout w)) (vfSpent w))[n := True]\<rparr>))"

definition MarkUnspent :: "nat \<Rightarrow> CWalletTx \<Rightarrow> CWalletTx option" where
  "MarkUnspent n w =
     (if n \<ge> length (vout w) then None else Some (w\<lparr>vfSpent := (resize_marks (length (vout w)) (vfSpent w))[n := False]\<rparr>))"

definition UpdateSpent :: "bool list \<Rightarrow> CWalletTx \<Rightarrow> bool \<times> CWalletTx" where
  "UpdateSpent vfNewSpent w =
     (let n = min (length vfNewSpent) (length (vfSpent w));
          v = map (\<lambda>i. vfSpent w ! i \<or> i < n \<and> vfNewSpent ! i) [0..<length (vfSpent w)]
      in (v \<noteq> vfSpent w, w\<lparr>vfSpent := v\<rparr>))"

section \<open>Ownership\<close>

definition wallet_IsMine :: "env \<Rightarrow> CWallet \<Rightarrow> CTxOut \<Rightarrow> bool" where
  "wallet_IsMine E W txout \<longleftrightarrow> IsMine E (w_keys W) (scriptPubKey txout) = Some True"

definition tx_IsMine :: "env \<Rightarrow> wallet_settings \<Rightarrow> CWallet \<Rightarrow> CTransaction \<Rightarrow> bool" where
  "tx_IsMine E G W tx \<longleftrightarrow> (\<exists>txout \<in> set (vout tx). wallet_IsMine E W txout \<and> nValue txout \<ge> nMinimumInputValue G)"

definition txin_GetDebit :: "env \<Rightarrow> CWallet \<Rightarrow> CTxIn \<Rightarrow> int" where
  "txin_GetDebit E W txin =
     (case mapWallet W (prev_hash (prevout txin)) of
        None \<Rightarrow> 0
      | Some prev \<Rightarrow>
          let n = unat (prev_n (prevout txin))
          in if n < length (vout prev) \<and> wallet_IsMine E W (vout prev ! n) then nValue (vout prev ! n) else 0)"

fun debit_loop :: "env \<Rightarrow> CWallet \<Rightarrow> int \<Rightarrow> CTxIn list \<Rightarrow> int option" where
  "debit_loop E W nDebit [] = Some nDebit"
| "debit_loop E W nDebit (i # is) =
     (let nDebit' = wrap64 (nDebit + txin_GetDebit E W i) in if \<not> MoneyRange nDebit' then None else debit_loop E W nDebit' is)"

definition tx_GetDebit :: "env \<Rightarrow> CWallet \<Rightarrow> CTransaction \<Rightarrow> int option" where
  "tx_GetDebit E W tx = debit_loop E W 0 (vin tx)"

definition tx_IsFromMe :: "env \<Rightarrow> CWallet \<Rightarrow> CTransaction \<Rightarrow> bool option" where
  "tx_IsFromMe E W tx = map_option (\<lambda>d. d > 0) (tx_GetDebit E W tx)"

section \<open>Trust in unconfirmed coins\<close>

text \<open>The work queue of \<^verbatim>\<open>IsTrusted\<close>: every transaction is confirmed, or our own with known predecessors.\<close>

partial_function (option) trusted_loop :: "env \<Rightarrow> node_state \<Rightarrow> CWallet \<Rightarrow> (u256 \<rightharpoonup> CMerkleTx) \<Rightarrow> CMerkleTx list \<Rightarrow> bool option" where
  "trusted_loop E S W mapPrev vWorkQueue =
     (case vWorkQueue of
        [] \<Rightarrow> Some True
      | ptx # rest \<Rightarrow>
          if \<not> IsFinal (ns_params S) 0 0 (tx_of ptx) then Some False
          else if GetDepthInMainChain E S ptx \<ge> 1 then trusted_loop E S W mapPrev rest
          else if GetDepthInMainChain E S ptx < 0 then Some False
          else
            (case tx_IsFromMe E W (tx_of ptx) of
               None \<Rightarrow> None
             | Some mine \<Rightarrow>
                 if \<not> mine then Some False
                 else if (\<exists>i \<in> set (vin ptx). mapPrev (prev_hash (prevout i)) = None) then Some False
                 else trusted_loop E S W mapPrev (rest @ map (\<lambda>i. the (mapPrev (prev_hash (prevout i)))) (vin ptx))))"

definition IsTrusted :: "env \<Rightarrow> node_state \<Rightarrow> wallet_settings \<Rightarrow> CWallet \<Rightarrow> CWalletTx \<Rightarrow> bool option" where
  "IsTrusted E S G W w =
     (if \<not> IsFinal (ns_params S) 0 0 (tx_of w) then Some False
      else
        (let nDepth = GetDepthInMainChain E S w
         in if nDepth \<ge> 1 then Some True
            else if nDepth < 0 then Some False
            else if fConfChange G then Some False
            else
              (case tx_IsFromMe E W (tx_of w) of
                 None \<Rightarrow> None
               | Some mine \<Rightarrow>
                   if \<not> mine then Some False
                   else trusted_loop E S W (map_of (rev (map (\<lambda>t. (GetHash E (tx_of t), t)) (vtxPrev w)))) [CMerkleTx.truncate w])))"

section \<open>Coins that may be spent\<close>

definition HasSelected :: "CCoinControl option \<Rightarrow> bool" where
  "HasSelected c \<longleftrightarrow> (case c of None \<Rightarrow> False | Some cc \<Rightarrow> setSelected cc \<noteq> {})"

definition coin_allowed :: "CCoinControl option \<Rightarrow> u256 \<Rightarrow> nat \<Rightarrow> bool" where
  "coin_allowed c h i \<longleftrightarrow> \<not> HasSelected c \<or> \<lparr>prev_hash = h, prev_n = word_of_nat i\<rparr> \<in> setSelected (the c)"

definition own_outputs :: "env \<Rightarrow> wallet_settings \<Rightarrow> CWallet \<Rightarrow> CCoinControl option \<Rightarrow> u256 \<Rightarrow> CWalletTx \<Rightarrow> int \<Rightarrow> COutput list" where
  "own_outputs E G W c h w nDepth =
     map (\<lambda>i. \<lparr>out_tx = h, out_i = i, out_nDepth = nDepth\<rparr>)
       (filter (\<lambda>i. \<not> IsSpent w i \<and> wallet_IsMine E W (vout w ! i) \<and> nValue (vout w ! i) \<ge> nMinimumInputValue G \<and> coin_allowed c h i)
          [0..<length (vout w)])"

definition tx_coins :: "env \<Rightarrow> node_state \<Rightarrow> wallet_settings \<Rightarrow> CWallet \<Rightarrow> bool \<Rightarrow> CCoinControl option \<Rightarrow> u256 \<Rightarrow> CWalletTx \<Rightarrow> COutput list option" where
  "tx_coins E S G W fOnlyConfirmed c h w =
     (if \<not> IsFinal (ns_params S) 0 0 (tx_of w) then Some []
      else
        (case (if fOnlyConfirmed then IsTrusted E S G W w else Some True) of
           None \<Rightarrow> None
         | Some trusted \<Rightarrow>
             if \<not> trusted then Some []
             else if (IsCoinBase (tx_of w) \<or> IsCoinStake (tx_of w)) \<and> GetBlocksToMaturity E S w > 0 then Some []
             else if GetDepthInMainChain E S w < 0 then Some []
             else Some (own_outputs E G W c h w (GetDepthInMainChain E S w))))"

definition AvailableCoins :: "env \<Rightarrow> node_state \<Rightarrow> wallet_settings \<Rightarrow> CWallet \<Rightarrow> bool \<Rightarrow> CCoinControl option \<Rightarrow> COutput list option" where
  "AvailableCoins E S G W fOnlyConfirmed c =
     map_option concat (those (map (\<lambda>h. tx_coins E S G W fOnlyConfirmed c h (the (mapWallet W h))) (sorted_list_of_set (dom (mapWallet W)))))"

definition AvailableCoinsMinConf :: "env \<Rightarrow> node_state \<Rightarrow> wallet_settings \<Rightarrow> CWallet \<Rightarrow> int \<Rightarrow> COutput list" where
  "AvailableCoinsMinConf E S G W nConf =
     concat (map (\<lambda>h. let w = the (mapWallet W h)
         in if \<not> IsFinal (ns_params S) 0 0 (tx_of w) \<or> GetDepthInMainChain E S w < nConf then []
            else own_outputs E G W None h w (GetDepthInMainChain E S w))
       (sorted_list_of_set (dom (mapWallet W))))"

section \<open>Updating the marks\<close>

definition put_wtx :: "u256 \<Rightarrow> CWalletTx \<Rightarrow> CWallet \<Rightarrow> CWallet" where
  "put_wtx h w W = W\<lparr>mapWallet := (mapWallet W)(h \<mapsto> w)\<rparr>"

text \<open>The loops of \<^verbatim>\<open>WalletUpdateSpent\<close>: the inputs are marked as spent, and our outputs of a transaction in a block as unspent.\<close>

fun mark_inputs :: "env \<Rightarrow> CTxIn list \<Rightarrow> CWallet \<Rightarrow> CWallet option" where
  "mark_inputs E [] W = Some W"
| "mark_inputs E (i # is) W =
     (let h = prev_hash (prevout i); n = unat (prev_n (prevout i))
      in case mapWallet W h of
           None \<Rightarrow> mark_inputs E is W
         | Some w \<Rightarrow>
             if n \<ge> length (vout w) then mark_inputs E is W
             else if \<not> IsSpent w n \<and> wallet_IsMine E W (vout w ! n) then
               (case MarkSpent n w of None \<Rightarrow> None | Some w' \<Rightarrow> mark_inputs E is (put_wtx h w' W))
             else mark_inputs E is W)"

fun unmark_outputs :: "env \<Rightarrow> CWallet \<Rightarrow> CTxOut list \<Rightarrow> nat \<Rightarrow> CWalletTx \<Rightarrow> CWalletTx option" where
  "unmark_outputs E W [] n w = Some w"
| "unmark_outputs E W (t # ts) n w =
     (if wallet_IsMine E W t then (case MarkUnspent n w of None \<Rightarrow> None | Some w' \<Rightarrow> unmark_outputs E W ts (n + 1) w')
      else unmark_outputs E W ts (n + 1) w)"

definition WalletUpdateSpent :: "env \<Rightarrow> CTransaction \<Rightarrow> bool \<Rightarrow> CWallet \<Rightarrow> CWallet option" where
  "WalletUpdateSpent E tx fBlock W =
     (case mark_inputs E (vin tx) W of
        None \<Rightarrow> None
      | Some W1 \<Rightarrow>
          if \<not> fBlock then Some W1
          else
            (let hash = GetHash E tx
             in case mapWallet W1 hash of
                  None \<Rightarrow> None
                | Some w \<Rightarrow> map_option (\<lambda>w'. put_wtx hash w' W1) (unmark_outputs E W1 (vout tx) 0 w)))"

text \<open>Merging a transaction into the one the wallet already has.\<close>

definition merge_wtx :: "CWalletTx \<Rightarrow> CWalletTx \<Rightarrow> bool \<times> CWalletTx" where
  "merge_wtx wtxIn w =
     (let upd1 = mtx_hashBlock wtxIn \<noteq> 0 \<and> mtx_hashBlock wtxIn \<noteq> mtx_hashBlock w;
          w1 = (if upd1 then w\<lparr>mtx_hashBlock := mtx_hashBlock wtxIn\<rparr> else w);
          upd2 = mtx_nIndex wtxIn \<noteq> - 1 \<and> (vMerkleBranch wtxIn \<noteq> vMerkleBranch w1 \<or> mtx_nIndex wtxIn \<noteq> mtx_nIndex w1);
          w2 = (if upd2 then w1\<lparr>vMerkleBranch := vMerkleBranch wtxIn, mtx_nIndex := mtx_nIndex wtxIn\<rparr> else w1);
          upd3 = fFromMe wtxIn \<and> fFromMe wtxIn \<noteq> fFromMe w2;
          w3 = (if upd3 then w2\<lparr>fFromMe := fFromMe wtxIn\<rparr> else w2)
      in case UpdateSpent (vfSpent wtxIn) w3 of (upd4, w4) \<Rightarrow> (upd1 \<or> upd2 \<or> upd3 \<or> upd4, w4))"

definition AddToWallet :: "env \<Rightarrow> bool \<Rightarrow> CWalletTx \<Rightarrow> CWallet \<Rightarrow> (bool \<times> CWallet) option" where
  "AddToWallet E disk_ok wtxIn W =
     (let hash = GetHash E (tx_of wtxIn);
          (changed, wtx) = (case mapWallet W hash of None \<Rightarrow> (True, wtxIn) | Some w \<Rightarrow> merge_wtx wtxIn w);
          W1 = put_wtx hash wtx W
      in if changed \<and> \<not> disk_ok then Some (False, W1)
         else map_option (Pair True) (WalletUpdateSpent E (tx_of wtx) (mtx_hashBlock wtxIn \<noteq> 0) W1))"

definition AddToWalletIfInvolvingMe :: "env \<Rightarrow> wallet_settings \<Rightarrow> bool \<Rightarrow> CTransaction \<Rightarrow> CBlock option \<Rightarrow> bool \<Rightarrow> CWallet \<Rightarrow> (bool \<times> CWallet) option" where
  "AddToWalletIfInvolvingMe E G disk_ok tx pblock fUpdate W =
     (let fExisted = mapWallet W (GetHash E tx) \<noteq> None
      in if fExisted \<and> \<not> fUpdate then Some (False, W)
         else
           (case (if fExisted \<or> tx_IsMine E G W tx then Some True else tx_IsFromMe E W tx) of
              None \<Rightarrow> None
            | Some True \<Rightarrow>
                (let wtx = CWalletTx_new tx
                 in AddToWallet E disk_ok (case pblock of None \<Rightarrow> wtx | Some b \<Rightarrow> SetMerkleBranch E b wtx) W)
            | Some False \<Rightarrow> map_option (Pair False) (WalletUpdateSpent E tx False W)))"

text \<open>What \<^verbatim>\<open>CommitTransaction\<close> does to the wallet before the transaction is sent.\<close>

fun spend_coins :: "CTxIn list \<Rightarrow> CWallet \<Rightarrow> CWallet option" where
  "spend_coins [] W = Some W"
| "spend_coins (i # is) W =
     (let h = prev_hash (prevout i)
      in case mapWallet W h of
           None \<Rightarrow> None
         | Some w \<Rightarrow> (case MarkSpent (unat (prev_n (prevout i))) w of None \<Rightarrow> None | Some w' \<Rightarrow> spend_coins is (put_wtx h w' W)))"

definition commit_wallet :: "env \<Rightarrow> bool \<Rightarrow> CWalletTx \<Rightarrow> CWallet \<Rightarrow> CWallet option" where
  "commit_wallet E disk_ok wtxNew W =
     (case AddToWallet E disk_ok wtxNew W of None \<Rightarrow> None | Some (_, W1) \<Rightarrow> spend_coins (vin wtxNew) W1)"

text \<open>Erasing from a wallet with a file; one without keeps the transaction.\<close>

definition EraseFromWallet :: "u256 \<Rightarrow> CWallet \<Rightarrow> CWallet" where
  "EraseFromWallet h W = W\<lparr>mapWallet := (mapWallet W)(h := None)\<rparr>"

text \<open>A coin stake of ours that leaves the chain gives its inputs back.\<close>

fun unmark_inputs :: "env \<Rightarrow> CTxIn list \<Rightarrow> CWallet \<Rightarrow> CWallet option" where
  "unmark_inputs E [] W = Some W"
| "unmark_inputs E (i # is) W =
     (let h = prev_hash (prevout i); n = unat (prev_n (prevout i))
      in case mapWallet W h of
           None \<Rightarrow> unmark_inputs E is W
         | Some w \<Rightarrow>
             if n < length (vout w) \<and> wallet_IsMine E W (vout w ! n) then
               (case MarkUnspent n w of None \<Rightarrow> None | Some w' \<Rightarrow> unmark_inputs E is (put_wtx h w' W))
             else unmark_inputs E is W)"

definition DisableTransaction :: "env \<Rightarrow> CTransaction \<Rightarrow> CWallet \<Rightarrow> CWallet option" where
  "DisableTransaction E tx W =
     (if \<not> IsCoinStake tx then Some W
      else
        (case tx_IsFromMe E W tx of
           None \<Rightarrow> None
         | Some mine \<Rightarrow> if \<not> mine then Some W else unmark_inputs E (vin tx) W))"

text \<open>\<^verbatim>\<open>FixSpentCoins\<close> compares the marks with the transaction index and, unless it only checks, repairs them. It counts
  the differences and their value.\<close>

definition index_unspent :: "CTxIndex \<Rightarrow> nat \<Rightarrow> bool" where
  "index_unspent txindex n \<longleftrightarrow> length (vSpent txindex) \<le> n \<or> CDiskTxPos_IsNull (vSpent txindex ! n)"

definition fix_output :: "env \<Rightarrow> CWallet \<Rightarrow> CTxIndex \<Rightarrow> bool \<Rightarrow> nat \<Rightarrow> int \<times> int \<times> CWalletTx \<Rightarrow> int \<times> int \<times> CWalletTx" where
  "fix_output E W txindex fCheckOnly n st =
     (case st of (nMismatchFound, nBalanceInQuestion, w) \<Rightarrow>
        if wallet_IsMine E W (vout w ! n) \<and> IsSpent w n \<and> index_unspent txindex n then
          (nMismatchFound + 1, wrap64 (nBalanceInQuestion + nValue (vout w ! n)), if fCheckOnly then w else the (MarkUnspent n w))
        else if wallet_IsMine E W (vout w ! n) \<and> \<not> IsSpent w n \<and> \<not> index_unspent txindex n then
          (nMismatchFound + 1, wrap64 (nBalanceInQuestion + nValue (vout w ! n)), if fCheckOnly then w else the (MarkSpent n w))
        else st)"

definition fix_wtx :: "env \<Rightarrow> CTxDB \<Rightarrow> bool \<Rightarrow> u256 \<Rightarrow> int \<times> int \<times> CWallet \<Rightarrow> int \<times> int \<times> CWallet" where
  "fix_wtx E db fCheckOnly h st =
     (case st of (nMismatchFound, nBalanceInQuestion, W) \<Rightarrow>
        let pcoin = the (mapWallet W h)
        in case ReadTxIndex db (GetHash E (tx_of pcoin)) of
             None \<Rightarrow> st
           | Some txindex \<Rightarrow>
               (case fold (fix_output E W txindex fCheckOnly) [0..<length (vout pcoin)] (nMismatchFound, nBalanceInQuestion, pcoin) of
                  (k, b, w) \<Rightarrow> (k, b, put_wtx h w W)))"

definition FixSpentCoins :: "env \<Rightarrow> CTxDB \<Rightarrow> bool \<Rightarrow> CWallet \<Rightarrow> int \<times> int \<times> CWallet" where
  "FixSpentCoins E db fCheckOnly W = fold (fix_wtx E db fCheckOnly) (sorted_list_of_set (dom (mapWallet W))) (0, 0, W)"

section \<open>Credit and balance\<close>

definition txout_GetCredit :: "env \<Rightarrow> CWallet \<Rightarrow> CTxOut \<Rightarrow> int option" where
  "txout_GetCredit E W txout =
     (if \<not> MoneyRange (nValue txout) then None else Some (if wallet_IsMine E W txout then nValue txout else 0))"

fun credit_loop :: "env \<Rightarrow> CWallet \<Rightarrow> int \<Rightarrow> CTxOut list \<Rightarrow> int option" where
  "credit_loop E W nCredit [] = Some nCredit"
| "credit_loop E W nCredit (t # ts) =
     (case txout_GetCredit E W t of
        None \<Rightarrow> None
      | Some v \<Rightarrow> let nCredit' = wrap64 (nCredit + v) in if \<not> MoneyRange nCredit' then None else credit_loop E W nCredit' ts)"

definition tx_GetCredit :: "env \<Rightarrow> CWallet \<Rightarrow> CTransaction \<Rightarrow> int option" where
  "tx_GetCredit E W tx = credit_loop E W 0 (vout tx)"

definition GetAvailableCredit :: "env \<Rightarrow> node_state \<Rightarrow> CWallet \<Rightarrow> CWalletTx \<Rightarrow> int option" where
  "GetAvailableCredit E S W w =
     (if (IsCoinBase (tx_of w) \<or> IsCoinStake (tx_of w)) \<and> GetBlocksToMaturity E S w > 0 then Some 0
      else credit_loop E W 0 (map (\<lambda>i. vout w ! i) (filter (\<lambda>i. \<not> IsSpent w i) [0..<length (vout w)])))"

text \<open>A sum over the wallet, in the order of the transaction hashes.\<close>

fun balance_loop :: "(CWalletTx \<Rightarrow> int option) \<Rightarrow> CWallet \<Rightarrow> u256 list \<Rightarrow> int \<Rightarrow> int option" where
  "balance_loop f W [] nTotal = Some nTotal"
| "balance_loop f W (h # hs) nTotal =
     (case f (the (mapWallet W h)) of None \<Rightarrow> None | Some v \<Rightarrow> balance_loop f W hs (wrap64 (nTotal + v)))"

definition trusted_credit :: "env \<Rightarrow> node_state \<Rightarrow> wallet_settings \<Rightarrow> CWallet \<Rightarrow> CWalletTx \<Rightarrow> int option" where
  "trusted_credit E S G W w =
     (case IsTrusted E S G W w of None \<Rightarrow> None | Some t \<Rightarrow> if t then GetAvailableCredit E S W w else Some 0)"

definition GetBalance :: "env \<Rightarrow> node_state \<Rightarrow> wallet_settings \<Rightarrow> CWallet \<Rightarrow> int option" where
  "GetBalance E S G W = balance_loop (trusted_credit E S G W) W (sorted_list_of_set (dom (mapWallet W))) 0"

definition unconfirmed_credit :: "env \<Rightarrow> node_state \<Rightarrow> wallet_settings \<Rightarrow> CWallet \<Rightarrow> CWalletTx \<Rightarrow> int option" where
  "unconfirmed_credit E S G W w =
     (if \<not> IsFinal (ns_params S) 0 0 (tx_of w) then GetAvailableCredit E S W w
      else
        (case IsTrusted E S G W w of
           None \<Rightarrow> None
         | Some t \<Rightarrow> if \<not> t \<and> GetDepthInMainChain E S w = 0 then GetAvailableCredit E S W w else Some 0))"

definition GetUnconfirmedBalance :: "env \<Rightarrow> node_state \<Rightarrow> wallet_settings \<Rightarrow> CWallet \<Rightarrow> int option" where
  "GetUnconfirmedBalance E S G W = balance_loop (unconfirmed_credit E S G W) W (sorted_list_of_set (dom (mapWallet W))) 0"

definition GetStake :: "env \<Rightarrow> node_state \<Rightarrow> CWallet \<Rightarrow> int option" where
  "GetStake E S W =
     balance_loop (\<lambda>w. if IsCoinStake (tx_of w) \<and> GetBlocksToMaturity E S w > 0 \<and> GetDepthInMainChain E S w > 0 then tx_GetCredit E W (tx_of w) else Some 0)
       W (sorted_list_of_set (dom (mapWallet W))) 0"

definition GetNewMint :: "env \<Rightarrow> node_state \<Rightarrow> CWallet \<Rightarrow> int option" where
  "GetNewMint E S W =
     balance_loop (\<lambda>w. if IsCoinBase (tx_of w) \<and> GetBlocksToMaturity E S w > 0 \<and> GetDepthInMainChain E S w > 0 then tx_GetCredit E W (tx_of w) else Some 0)
       W (sorted_list_of_set (dom (mapWallet W))) 0"

end
