(* ===== verification/CoinSelection.thy ===== *)
theory CoinSelection
  imports Wallet NetAddr "HOL-Library.Multiset"
begin

text \<open>
  Coin selection, from src/src/wallet.cpp: \<^verbatim>\<open>ApproximateBestSubset\<close>, \<^verbatim>\<open>SelectCoinsMinConf\<close>, \<^verbatim>\<open>SelectCoins\<close> and \<^verbatim>\<open>SelectCoinsSimple\<close>. A coin is its value with
  the key of its transaction and the index of the output. The bits that \<^verbatim>\<open>rand()\<close> yields are an argument, by round and
  index, and so are the numbers that shuffle the coins.
\<close>

type_synonym coin = "int \<times> (u256 \<times> nat)"

section \<open>Subsets of coins\<close>

record subset_state =
  vfIncluded :: "bool list"
  nTotal :: int
  fReachedTarget :: bool
  nBest :: int
  vfBest :: "bool list"

definition include_coin :: "int list \<Rightarrow> int \<Rightarrow> nat \<Rightarrow> subset_state \<Rightarrow> subset_state" where
  "include_coin v nTargetValue i st =
     (let st1 = st\<lparr>nTotal := wrap64 (nTotal st + v ! i), vfIncluded := (vfIncluded st)[i := True]\<rparr>
      in if nTotal st1 \<ge> nTargetValue then
           (let st2 = (if nTotal st1 < nBest st1 then st1\<lparr>nBest := nTotal st1, vfBest := vfIncluded st1\<rparr> else st1)
            in st2\<lparr>fReachedTarget := True, nTotal := wrap64 (nTotal st2 - v ! i), vfIncluded := (vfIncluded st2)[i := False]\<rparr>)
         else st1)"

definition random_pass :: "(nat \<Rightarrow> bool) \<Rightarrow> int list \<Rightarrow> int \<Rightarrow> subset_state \<Rightarrow> subset_state" where
  "random_pass bits v nTargetValue = fold (\<lambda>i st. if bits i then include_coin v nTargetValue i st else st) [0..<length v]"

definition filling_pass :: "int list \<Rightarrow> int \<Rightarrow> subset_state \<Rightarrow> subset_state" where
  "filling_pass v nTargetValue = fold (\<lambda>i st. if \<not> vfIncluded st ! i then include_coin v nTargetValue i st else st) [0..<length v]"

definition subset_round :: "(nat \<Rightarrow> bool) \<Rightarrow> int list \<Rightarrow> int \<Rightarrow> subset_state \<Rightarrow> subset_state" where
  "subset_round bits v nTargetValue st =
     (let st1 = random_pass bits v nTargetValue (st\<lparr>vfIncluded := replicate (length v) False, nTotal := 0, fReachedTarget := False\<rparr>)
      in if fReachedTarget st1 then st1 else filling_pass v nTargetValue st1)"

fun subset_loop :: "(nat \<Rightarrow> nat \<Rightarrow> bool) \<Rightarrow> int list \<Rightarrow> int \<Rightarrow> nat \<Rightarrow> nat \<Rightarrow> subset_state \<Rightarrow> subset_state" where
  "subset_loop bits v nTargetValue nRep 0 st = st"
| "subset_loop bits v nTargetValue nRep (Suc k) st =
     (if nBest st = nTargetValue then st else subset_loop bits v nTargetValue (nRep + 1) k (subset_round (bits nRep) v nTargetValue st))"

definition ApproximateBestSubset :: "(nat \<Rightarrow> nat \<Rightarrow> bool) \<Rightarrow> int list \<Rightarrow> int \<Rightarrow> int \<Rightarrow> nat \<Rightarrow> bool list \<times> int" where
  "ApproximateBestSubset bits v nTotalLower nTargetValue iterations =
     (let st = subset_loop bits v nTargetValue 0 iterations
        \<lparr>vfIncluded = [], nTotal = 0, fReachedTarget = False, nBest = nTotalLower, vfBest = replicate (length v) True\<rparr>
      in (vfBest st, nBest st))"

section \<open>Selection\<close>

text \<open>\<^verbatim>\<open>random_shuffle\<close>: each element is exchanged with a random one up to itself.\<close>

definition shuffle_step :: "(nat \<Rightarrow> nat) \<Rightarrow> nat \<Rightarrow> 'a list \<Rightarrow> 'a list" where
  "shuffle_step r i xs = (let j = GetRandInt r i (i + 1) in xs[i := xs ! j, j := xs ! i])"

definition random_shuffle :: "(nat \<Rightarrow> nat) \<Rightarrow> 'a list \<Rightarrow> 'a list" where
  "random_shuffle r xs = fold (shuffle_step r) [1..<length xs] xs"

definition coin_value :: "CWallet \<Rightarrow> u256 \<times> nat \<Rightarrow> int" where
  "coin_value W c = nValue (vout (the (mapWallet W (fst c))) ! snd c)"

definition coin_of :: "CWallet \<Rightarrow> COutput \<Rightarrow> coin" where
  "coin_of W out = (coin_value W (out_tx out, out_i out), (out_tx out, out_i out))"

text \<open>The loop over the coins: it stops at a coin of the exact value, or returns the coins below the target plus a cent, their sum, and
  the least of the others.\<close>

fun scan_coins :: "env \<Rightarrow> CWallet \<Rightarrow> int \<Rightarrow> u32 \<Rightarrow> int \<Rightarrow> int \<Rightarrow> COutput list \<Rightarrow> coin list \<Rightarrow> int \<Rightarrow> coin option
    \<Rightarrow> (coin + (coin list \<times> int \<times> coin option)) option" where
  "scan_coins E W nTargetValue nSpendTime nConfMine nConfTheirs [] vValue nTotalLower lowest = Some (Inr (vValue, nTotalLower, lowest))"
| "scan_coins E W nTargetValue nSpendTime nConfMine nConfTheirs (out # outs) vValue nTotalLower lowest =
     (let next = scan_coins E W nTargetValue nSpendTime nConfMine nConfTheirs outs; pcoin = the (mapWallet W (out_tx out)); coin = coin_of W out; n = fst coin
      in case tx_IsFromMe E W (tx_of pcoin) of
           None \<Rightarrow> None
         | Some mine \<Rightarrow>
             if out_nDepth out < (if mine then nConfMine else nConfTheirs) then next vValue nTotalLower lowest
             else if nTime pcoin > nSpendTime then next vValue nTotalLower lowest
             else if n = nTargetValue then Some (Inl coin)
             else if n < wrap64 (nTargetValue + CENT) then next (vValue @ [coin]) (wrap64 (nTotalLower + n)) lowest
             else if n < (case lowest of None \<Rightarrow> 2 ^ 63 - 1 | Some c \<Rightarrow> fst c) then next vValue nTotalLower (Some coin)
             else next vValue nTotalLower lowest)"

definition chosen :: "coin list \<Rightarrow> bool list \<Rightarrow> coin list" where
  "chosen vValue vf = map fst (filter snd (zip vValue vf))"

definition coin_result :: "coin list \<Rightarrow> bool \<times> (u256 \<times> nat) set \<times> int" where
  "coin_result cs = (True, snd ` set cs, fold (\<lambda>c n. wrap64 (n + fst c)) cs 0)"

definition SelectCoinsMinConf :: "env \<Rightarrow> CWallet \<Rightarrow> (nat \<Rightarrow> nat) \<Rightarrow> (nat \<Rightarrow> nat \<Rightarrow> nat \<Rightarrow> bool) \<Rightarrow> int \<Rightarrow> u32 \<Rightarrow> int \<Rightarrow> int \<Rightarrow> COutput list
    \<Rightarrow> (bool \<times> (u256 \<times> nat) set \<times> int) option" where
  "SelectCoinsMinConf E W r bits nTargetValue nSpendTime nConfMine nConfTheirs vCoins =
     (case scan_coins E W nTargetValue nSpendTime nConfMine nConfTheirs (random_shuffle r vCoins) [] 0 None of
        None \<Rightarrow> None
      | Some (Inl coin) \<Rightarrow> Some (coin_result [coin])
      | Some (Inr (vValue, nTotalLower, lowest)) \<Rightarrow>
          if nTotalLower = nTargetValue then Some (coin_result vValue)
          else if nTotalLower < nTargetValue then
            (case lowest of None \<Rightarrow> Some (False, {}, 0) | Some c \<Rightarrow> Some (coin_result [c]))
          else
            (let vSorted = sort_key (\<lambda>c. - fst c) vValue; v = map fst vSorted;
                 (vf1, best1) = ApproximateBestSubset (bits 0) v nTotalLower nTargetValue 1000;
                 (vf, nBest) = (if best1 \<noteq> nTargetValue \<and> nTotalLower \<ge> wrap64 (nTargetValue + CENT)
                    then ApproximateBestSubset (bits 1) v nTotalLower (wrap64 (nTargetValue + CENT)) 1000 else (vf1, best1))
             in case lowest of
                  Some c \<Rightarrow>
                    if nBest \<noteq> nTargetValue \<and> nBest < wrap64 (nTargetValue + CENT) \<or> fst c \<le> nBest then Some (coin_result [c])
                    else Some (coin_result (chosen vSorted vf))
                | None \<Rightarrow> Some (coin_result (chosen vSorted vf))))"

text \<open>\<^verbatim>\<open>SelectCoins\<close>: the selected coins as a whole, or three attempts with weaker demands on confirmations.\<close>

definition SelectCoins :: "env \<Rightarrow> node_state \<Rightarrow> wallet_settings \<Rightarrow> CWallet \<Rightarrow> (nat \<Rightarrow> nat \<Rightarrow> nat) \<Rightarrow> (nat \<Rightarrow> nat \<Rightarrow> nat \<Rightarrow> nat \<Rightarrow> bool) \<Rightarrow> int \<Rightarrow> u32
    \<Rightarrow> CCoinControl option \<Rightarrow> (bool \<times> (u256 \<times> nat) set \<times> int) option" where
  "SelectCoins E S G W r bits nTargetValue nSpendTime c =
     (case AvailableCoins E S G W True c of
        None \<Rightarrow> None
      | Some vCoins \<Rightarrow>
          if HasSelected c then
            (case coin_result (map (coin_of W) vCoins) of (_, setCoinsRet, nValueRet) \<Rightarrow> Some (nValueRet \<ge> nTargetValue, setCoinsRet, nValueRet))
          else
            (case SelectCoinsMinConf E W (r 0) (bits 0) nTargetValue nSpendTime 1 10 vCoins of
               None \<Rightarrow> None
             | Some (True, res) \<Rightarrow> Some (True, res)
             | Some (False, _) \<Rightarrow>
                 (case SelectCoinsMinConf E W (r 1) (bits 1) nTargetValue nSpendTime 1 1 vCoins of
                    None \<Rightarrow> None
                  | Some (True, res) \<Rightarrow> Some (True, res)
                  | Some (False, _) \<Rightarrow> SelectCoinsMinConf E W (r 2) (bits 2) nTargetValue nSpendTime 0 1 vCoins)))"

text \<open>Selection for staking: coins in order until the target is met.\<close>

fun simple_loop :: "CWallet \<Rightarrow> int \<Rightarrow> u32 \<Rightarrow> COutput list \<Rightarrow> (u256 \<times> nat) set \<Rightarrow> int \<Rightarrow> (u256 \<times> nat) set \<times> int" where
  "simple_loop W nTargetValue nSpendTime [] setCoinsRet nValueRet = (setCoinsRet, nValueRet)"
| "simple_loop W nTargetValue nSpendTime (out # outs) setCoinsRet nValueRet =
     (if nValueRet \<ge> nTargetValue then (setCoinsRet, nValueRet)
      else if nTime (the (mapWallet W (out_tx out))) > nSpendTime then simple_loop W nTargetValue nSpendTime outs setCoinsRet nValueRet
      else
        (let c = coin_of W out
         in if fst c \<ge> nTargetValue then (insert (snd c) setCoinsRet, wrap64 (nValueRet + fst c))
            else if fst c < wrap64 (nTargetValue + CENT) then simple_loop W nTargetValue nSpendTime outs (insert (snd c) setCoinsRet) (wrap64 (nValueRet + fst c))
            else simple_loop W nTargetValue nSpendTime outs setCoinsRet nValueRet))"

definition SelectCoinsSimple :: "env \<Rightarrow> node_state \<Rightarrow> wallet_settings \<Rightarrow> CWallet \<Rightarrow> int \<Rightarrow> u32 \<Rightarrow> int \<Rightarrow> (u256 \<times> nat) set \<times> int" where
  "SelectCoinsSimple E S G W nTargetValue nSpendTime nMinConf =
     simple_loop W nTargetValue nSpendTime (AvailableCoinsMinConf E S G W nMinConf) {} 0"

section \<open>The subset search\<close>

definition masked :: "int list \<Rightarrow> bool list \<Rightarrow> int" where
  "masked v m = (\<Sum>i < length v. if m ! i then v ! i else 0)"

lemma masked_insert:
  assumes "i < length v" and "length m = length v" and "\<not> m ! i"
  shows "masked v (m[i := True]) = masked v m + v ! i"
proof -
  have i: "i \<in> {..<length v}" using assms(1) by simp
  have "(\<Sum>j \<in> {..<length v} - {i}. if m[i := True] ! j then v ! j else 0) = (\<Sum>j \<in> {..<length v} - {i}. if m ! j then v ! j else 0)"
    by (rule sum.cong) auto
  then show ?thesis unfolding masked_def sum.remove [OF finite_lessThan i] using assms by simp
qed

lemma masked_bounds:
  assumes "\<forall>x \<in> set v. 0 \<le> x"
  shows "0 \<le> masked v m" and "masked v m \<le> sum_list v"
proof -
  have p: "0 \<le> v ! i" if "i < length v" for i using assms that by simp
  show "0 \<le> masked v m" unfolding masked_def by (rule sum_nonneg) (use p in auto)
  have "masked v m \<le> (\<Sum>i < length v. v ! i)" unfolding masked_def by (rule sum_mono) (use p in auto)
  then show "masked v m \<le> sum_list v" by (simp add: sum_list_sum_nth atLeast0LessThan)
qed

lemma masked_all: "masked v (replicate (length v) True) = sum_list v"
  by (simp add: masked_def sum_list_sum_nth atLeast0LessThan)

lemma masked_none: "masked v (replicate (length v) False) = 0"
  by (simp add: masked_def)

text \<open>The best subset so far, and the subset under construction.\<close>

definition best_ok :: "int list \<Rightarrow> int \<Rightarrow> subset_state \<Rightarrow> bool" where
  "best_ok v T st \<longleftrightarrow> length (vfBest st) = length v \<and> nBest st = masked v (vfBest st) \<and> T \<le> nBest st"

definition subset_ok :: "int list \<Rightarrow> int \<Rightarrow> subset_state \<Rightarrow> bool" where
  "subset_ok v T st \<longleftrightarrow> best_ok v T st \<and> length (vfIncluded st) = length v \<and> nTotal st = masked v (vfIncluded st)"

definition small_sum :: "int list \<Rightarrow> bool" where
  "small_sum v \<longleftrightarrow> (\<forall>x \<in> set v. 0 \<le> x) \<and> sum_list v < 2 ^ 63"

lemma masked_wrap: "small_sum v \<Longrightarrow> wrap64 (masked v m) = masked v m"
  using masked_bounds [of v m] by (intro wrap64_id) (simp add: small_sum_def int64_range_def)

lemma include_ok:
  assumes "small_sum v" and "subset_ok v T st" and "i < length v" and "\<not> vfIncluded st ! i"
  shows "subset_ok v T (include_coin v T i st)" and "\<And>j. j \<noteq> i \<Longrightarrow> vfIncluded (include_coin v T i st) ! j = vfIncluded st ! j"
proof -
  let ?inc = "(vfIncluded st)[i := True]"
  have len: "length (vfIncluded st) = length v" and tot: "nTotal st = masked v (vfIncluded st)" using assms(2) by (simp_all add: subset_ok_def)
  have m: "masked v ?inc = masked v (vfIncluded st) + v ! i" by (rule masked_insert [OF assms(3) len assms(4)])
  have w: "wrap64 (nTotal st + v ! i) = masked v ?inc" using masked_wrap [OF assms(1), of ?inc] by (simp add: tot m)
  have w2: "wrap64 (masked v ?inc - v ! i) = masked v (vfIncluded st)" using masked_wrap [OF assms(1), of "vfIncluded st"] by (simp add: m)
  have undo: "?inc[i := False] = vfIncluded st" using assms(3,4) len by (simp add: list_update_same_conv)
  show "subset_ok v T (include_coin v T i st)"
    using assms(2) w w2 undo len by (auto simp: include_coin_def Let_def subset_ok_def best_ok_def)
  show "vfIncluded (include_coin v T i st) ! j = vfIncluded st ! j" if "j \<noteq> i" for j
    using that by (simp add: include_coin_def Let_def)
qed

lemma random_ok:
  assumes "small_sum v" and "distinct is" and "set is \<subseteq> {..<length v}" and "subset_ok v T st" and "\<forall>i \<in> set is. \<not> vfIncluded st ! i"
  shows "subset_ok v T (fold (\<lambda>i st. if bits i then include_coin v T i st else st) is st)"
  using assms(2-)
proof (induction "is" arbitrary: st)
  case (Cons i "is")
  show ?case
  proof (cases "bits i")
    case True
    have "subset_ok v T (include_coin v T i st)" by (rule include_ok(1) [OF assms(1)]) (use Cons.prems in auto)
    moreover have "\<not> vfIncluded (include_coin v T i st) ! j" if "j \<in> set is" for j
      using that Cons.prems include_ok(2) [OF assms(1), of T st i j] by auto
    ultimately show ?thesis using True Cons.IH [of "include_coin v T i st"] Cons.prems by simp
  next
    case False
    with Cons show ?thesis by simp
  qed
qed simp

lemma filling_ok:
  assumes "small_sum v" and "set is \<subseteq> {..<length v}" and "subset_ok v T st"
  shows "subset_ok v T (fold (\<lambda>i st. if \<not> vfIncluded st ! i then include_coin v T i st else st) is st)"
  using assms(2,3)
proof (induction "is" arbitrary: st)
  case (Cons i "is")
  then have "subset_ok v T (if \<not> vfIncluded st ! i then include_coin v T i st else st)" using include_ok(1) [OF assms(1)] by simp
  with Cons show ?case by simp
qed simp

lemma round_ok:
  assumes "small_sum v" and "best_ok v T st"
  shows "best_ok v T (subset_round bits v T st)"
proof -
  let ?st = "st\<lparr>vfIncluded := replicate (length v) False, nTotal := 0, fReachedTarget := False\<rparr>"
  have "subset_ok v T ?st" using assms(2) by (simp add: subset_ok_def best_ok_def masked_none)
  then have "subset_ok v T (random_pass bits v T ?st)" unfolding random_pass_def by (intro random_ok [OF assms(1)]) auto
  moreover from this have "subset_ok v T (filling_pass v T (random_pass bits v T ?st))" unfolding filling_pass_def by (intro filling_ok [OF assms(1)]) auto
  ultimately show ?thesis by (simp add: subset_round_def Let_def subset_ok_def)
qed

lemma loop_ok: "small_sum v \<Longrightarrow> best_ok v T st \<Longrightarrow> best_ok v T (subset_loop bits v T n k st)"
  by (induction k arbitrary: n st) (simp_all add: round_ok)

lemma ApproximateBestSubset_ok:
  assumes "small_sum v" and "T \<le> sum_list v" and "ApproximateBestSubset bits v (sum_list v) T k = (vf, best)"
  shows "length vf = length v" and "best = masked v vf" and "T \<le> best"
proof -
  let ?st = "\<lparr>vfIncluded = [], nTotal = 0, fReachedTarget = False, nBest = sum_list v, vfBest = replicate (length v) True\<rparr>"
  have "best_ok v T ?st" using assms(2) by (simp add: best_ok_def masked_all)
  from loop_ok [OF assms(1) this, of bits 0 k] assms(3) show "length vf = length v" "best = masked v vf" "T \<le> best"
    by (auto simp: ApproximateBestSubset_def Let_def best_ok_def)
qed

section \<open>Sorting out the coins\<close>

definition coin_id :: "COutput \<Rightarrow> u256 \<times> nat" where
  "coin_id out = (out_tx out, out_i out)"

text \<open>A coin with enough confirmations that is not newer than the spending transaction.\<close>

definition eligible :: "env \<Rightarrow> CWallet \<Rightarrow> u32 \<Rightarrow> int \<Rightarrow> int \<Rightarrow> COutput \<Rightarrow> bool" where
  "eligible E W t cm ct out \<longleftrightarrow>
     (let pcoin = the (mapWallet W (out_tx out))
      in (\<exists>mine. tx_IsFromMe E W (tx_of pcoin) = Some mine \<and> (if mine then cm else ct) \<le> out_nDepth out) \<and> nTime pcoin \<le> t)"

definition lower_coin :: "env \<Rightarrow> CWallet \<Rightarrow> int \<Rightarrow> u32 \<Rightarrow> int \<Rightarrow> int \<Rightarrow> COutput \<Rightarrow> bool" where
  "lower_coin E W T t cm ct out \<longleftrightarrow> eligible E W t cm ct out \<and> coin_value W (coin_id out) < T + CENT"

definition larger_coin :: "env \<Rightarrow> CWallet \<Rightarrow> int \<Rightarrow> u32 \<Rightarrow> int \<Rightarrow> int \<Rightarrow> COutput \<Rightarrow> bool" where
  "larger_coin E W T t cm ct out \<longleftrightarrow> eligible E W t cm ct out \<and> T + CENT \<le> coin_value W (coin_id out)"

lemma coin_of_sel [simp]: "snd (coin_of W out) = coin_id out" "fst (coin_of W out) = coin_value W (coin_id out)"
  by (simp_all add: coin_of_def coin_id_def)

lemma scan_Inl:
  "scan_coins E W T t cm ct outs vs tot low = Some (Inl c) \<Longrightarrow> \<exists>out \<in> set outs. eligible E W t cm ct out \<and> c = coin_of W out \<and> fst c = T"
proof (induction outs arbitrary: vs tot low)
  case (Cons out outs)
  let ?p = "the (mapWallet W (out_tx out))"
  obtain mine where mine: "tx_IsFromMe E W (tx_of ?p) = Some mine" using Cons.prems by (auto simp: Let_def split: option.splits)
  show ?case
  proof (cases "(if mine then cm else ct) \<le> out_nDepth out \<and> nTime ?p \<le> t \<and> fst (coin_of W out) = T")
    case True
    then have "\<not> t < nTime ?p" by (simp add: not_less)
    with True Cons.prems mine have "c = coin_of W out" by (simp add: Let_def)
    with True mine show ?thesis by (auto simp: eligible_def)
  next
    case False
    then have "\<exists>vs tot low. scan_coins E W T t cm ct outs vs tot low = Some (Inl c)"
      using Cons.prems mine by (fastforce simp: Let_def not_less simp del: coin_of_sel split: if_splits)
    then show ?thesis using Cons.IH by fastforce
  qed
qed simp

lemma scan_step:
  assumes "wrap64 (T + CENT) = T + CENT" and "wrap64 (tot + coin_value W (coin_id out)) = tot + coin_value W (coin_id out)"
    and "coin_value W (coin_id out) < 2 ^ 63 - 1" and "scan_coins E W T t cm ct (out # outs) vs tot low = Some (Inr res)"
  obtains "\<not> eligible E W t cm ct out" and "scan_coins E W T t cm ct outs vs tot low = Some (Inr res)"
  | "lower_coin E W T t cm ct out" and "scan_coins E W T t cm ct outs (vs @ [coin_of W out]) (tot + coin_value W (coin_id out)) low = Some (Inr res)"
  | low2 where "larger_coin E W T t cm ct out" and "scan_coins E W T t cm ct outs vs tot low2 = Some (Inr res)" and "low2 \<noteq> None"
      and "low2 = low \<or> low2 = Some (coin_of W out)"
proof -
  let ?p = "the (mapWallet W (out_tx out))"
  obtain mine where mine: "tx_IsFromMe E W (tx_of ?p) = Some mine" using assms(4) by (auto simp: Let_def split: option.splits)
  have el: "eligible E W t cm ct out \<longleftrightarrow> (if mine then cm else ct) \<le> out_nDepth out \<and> nTime ?p \<le> t" by (simp add: eligible_def mine)
  show thesis
  proof (cases "eligible E W t cm ct out")
    case False
    with assms(4) mine el have "scan_coins E W T t cm ct outs vs tot low = Some (Inr res)"
      by (cases "(if mine then cm else ct) \<le> out_nDepth out") (simp_all add: Let_def not_le)
    with False that(1) show thesis by blast
  next
    case True
    then have lt: "\<not> t < nTime ?p" using el by (simp add: not_less)
    have ne: "coin_value W (coin_id out) \<noteq> T" using assms(4) mine el True by (auto simp: Let_def split: if_splits)
    show thesis
    proof (cases "coin_value W (coin_id out) < T + CENT")
      case le: True
      with assms mine el True ne lt have "scan_coins E W T t cm ct outs (vs @ [coin_of W out]) (tot + coin_value W (coin_id out)) low = Some (Inr res)"
        by (simp add: Let_def)
      moreover have "lower_coin E W T t cm ct out" using True le by (simp add: lower_coin_def)
      ultimately show thesis using that(2) by blast
    next
      case False
      let ?low = "if coin_value W (coin_id out) < (case low of None \<Rightarrow> 2 ^ 63 - 1 | Some c \<Rightarrow> fst c) then Some (coin_of W out) else low"
      have "scan_coins E W T t cm ct outs vs tot ?low = Some (Inr res)" using assms(1,4) mine el True ne False lt by (simp add: Let_def split: if_splits)
      moreover have "?low \<noteq> None" using assms(3) by (cases low) (simp_all del: not_None_eq)
      moreover have "larger_coin E W T t cm ct out" using True False by (simp add: larger_coin_def)
      ultimately show thesis using that(3) [of ?low] by (auto split: if_splits)
    qed
  qed
qed

lemma scan_Inr:
  assumes "0 \<le> T" and "\<forall>out \<in> set outs. 0 \<le> coin_value W (coin_id out)"
    and "0 \<le> tot" and "T + CENT + tot + (\<Sum>out \<leftarrow> outs. coin_value W (coin_id out)) < 2 ^ 63"
    and "scan_coins E W T t cm ct outs vs tot low = Some (Inr (vs', tot', low'))"
  shows "vs' = vs @ map (coin_of W) (filter (lower_coin E W T t cm ct) outs)"
    and "tot' = tot + (\<Sum>out \<leftarrow> filter (lower_coin E W T t cm ct) outs. coin_value W (coin_id out))"
    and "low' = None \<longleftrightarrow> low = None \<and> (\<forall>out \<in> set outs. \<not> larger_coin E W T t cm ct out)"
    and "\<forall>c. low' = Some c \<longrightarrow> low = Some c \<or> (\<exists>out \<in> set outs. larger_coin E W T t cm ct out \<and> c = coin_of W out)"
proof -
  let ?lo = "lower_coin E W T t cm ct" and ?la = "larger_coin E W T t cm ct"
  have "vs' = vs @ map (coin_of W) (filter ?lo outs) \<and> tot' = tot + (\<Sum>out \<leftarrow> filter ?lo outs. coin_value W (coin_id out)) \<and>
    (low' = None \<longleftrightarrow> low = None \<and> (\<forall>out \<in> set outs. \<not> ?la out)) \<and>
    (\<forall>c. low' = Some c \<longrightarrow> low = Some c \<or> (\<exists>out \<in> set outs. ?la out \<and> c = coin_of W out))"
    using assms(2-)
  proof (induction outs arbitrary: vs tot low)
    case (Cons out outs)
    let ?n = "coin_value W (coin_id out)"
    have n: "0 \<le> ?n" and rest: "0 \<le> (\<Sum>out \<leftarrow> outs. coin_value W (coin_id out))" using Cons.prems(1) by (auto intro!: sum_list_nonneg)
    have w: "wrap64 (T + CENT) = T + CENT" "wrap64 (tot + ?n) = tot + ?n" "?n < 2 ^ 63 - 1"
      using Cons.prems(2,3) assms(1) n rest by (auto intro!: wrap64_id simp: int64_range_def CENT_def)
    have p: "\<forall>out \<in> set outs. 0 \<le> coin_value W (coin_id out)" using Cons.prems(1) by simp
    show ?case
    proof (rule scan_step [OF w Cons.prems(4)])
      assume c: "\<not> eligible E W t cm ct out" and sc: "scan_coins E W T t cm ct outs vs tot low = Some (Inr (vs', tot', low'))"
      have "T + CENT + tot + (\<Sum>out \<leftarrow> outs. coin_value W (coin_id out)) < 2 ^ 63" using Cons.prems(3) n by simp
      from Cons.IH [OF p Cons.prems(2) this sc] c show ?case by (simp add: lower_coin_def larger_coin_def)
    next
      assume c: "?lo out" and sc: "scan_coins E W T t cm ct outs (vs @ [coin_of W out]) (tot + ?n) low = Some (Inr (vs', tot', low'))"
      have "0 \<le> tot + ?n" "T + CENT + (tot + ?n) + (\<Sum>out \<leftarrow> outs. coin_value W (coin_id out)) < 2 ^ 63" using Cons.prems(2,3) n by simp_all
      moreover have "\<not> ?la out" using c by (simp add: lower_coin_def larger_coin_def)
      ultimately show ?case using Cons.IH [OF p _ _ sc] c by simp
    next
      fix low2
      assume c: "?la out" and sc: "scan_coins E W T t cm ct outs vs tot low2 = Some (Inr (vs', tot', low'))"
        and l: "low2 \<noteq> None" "low2 = low \<or> low2 = Some (coin_of W out)"
      have "T + CENT + tot + (\<Sum>out \<leftarrow> outs. coin_value W (coin_id out)) < 2 ^ 63" using Cons.prems(3) n by simp
      moreover have "\<not> ?lo out" using c by (simp add: lower_coin_def larger_coin_def)
      ultimately show ?case using Cons.IH [OF p Cons.prems(2) _ sc] c l by auto
    qed
  qed auto
  then show "vs' = vs @ map (coin_of W) (filter ?lo outs)" "tot' = tot + (\<Sum>out \<leftarrow> filter ?lo outs. coin_value W (coin_id out))"
    "low' = None \<longleftrightarrow> low = None \<and> (\<forall>out \<in> set outs. \<not> ?la out)"
    "\<forall>c. low' = Some c \<longrightarrow> low = Some c \<or> (\<exists>out \<in> set outs. ?la out \<and> c = coin_of W out)" by blast+
qed

section \<open>What is selected\<close>

lemma shuffle_step_mset: "i < length xs \<Longrightarrow> mset (shuffle_step r i xs) = mset xs"
  using GetRandInt_less [of "i + 1" r i] by (auto simp: shuffle_step_def Let_def intro!: mset_swap)

lemma shuffle_fold_mset: "set is \<subseteq> {..<length xs} \<Longrightarrow> mset (fold (shuffle_step r) is xs) = mset xs"
proof (induction "is" arbitrary: xs)
  case (Cons i "is")
  then have m: "mset (shuffle_step r i xs) = mset xs" by (intro shuffle_step_mset) simp
  then have "length (shuffle_step r i xs) = length xs" by (rule mset_eq_length)
  with Cons m show ?case by simp
qed simp

lemma random_shuffle_mset: "mset (random_shuffle r xs) = mset xs"
  unfolding random_shuffle_def by (rule shuffle_fold_mset) auto

lemma fold_value:
  assumes "\<forall>c \<in> set cs. 0 \<le> fst c" and "0 \<le> a" and "a + (\<Sum>c \<leftarrow> cs. fst c) < 2 ^ 63"
  shows "fold (\<lambda>c n. wrap64 (n + fst c)) cs a = a + (\<Sum>c \<leftarrow> cs. fst c)"
  using assms
proof (induction cs arbitrary: a)
  case (Cons c cs)
  have "0 \<le> (\<Sum>c \<leftarrow> cs. fst c)" using Cons.prems(1) by (intro sum_list_nonneg) auto
  then have "wrap64 (a + fst c) = a + fst c" using Cons.prems by (intro wrap64_id) (simp add: int64_range_def)
  with Cons show ?case by simp
qed simp

text \<open>Coins of the wallet, each of them once: the amount returned is the sum of their values.\<close>

definition coins_in :: "CWallet \<Rightarrow> (u256 \<times> nat) set \<Rightarrow> coin list \<Rightarrow> bool" where
  "coins_in W P cs \<longleftrightarrow> (\<forall>c \<in> set cs. snd c \<in> P \<and> fst c = coin_value W (snd c)) \<and> distinct (map snd cs)"

lemma coins_in_sum: "coins_in W P cs \<Longrightarrow> (\<Sum>c \<leftarrow> cs. fst c) = sum (coin_value W) (snd ` set cs)"
proof -
  assume c: "coins_in W P cs"
  have "(\<Sum>c \<leftarrow> cs. fst c) = (\<Sum>c \<leftarrow> map snd cs. coin_value W c)"
    using c unfolding coins_in_def by (induction cs) auto
  also have "\<dots> = sum (coin_value W) (set (map snd cs))" using c by (intro sum_list_distinct_conv_sum_set) (simp add: coins_in_def)
  finally show ?thesis by simp
qed

lemma coin_result_ok:
  assumes "coins_in W P cs" and "finite P" and "\<forall>c \<in> P. 0 \<le> coin_value W c" and "sum (coin_value W) P < 2 ^ 63"
  shows "coin_result cs = (True, snd ` set cs, sum (coin_value W) (snd ` set cs))" and "snd ` set cs \<subseteq> P"
    and "sum (coin_value W) (snd ` set cs) \<le> sum (coin_value W) P"
proof -
  show sub: "snd ` set cs \<subseteq> P" using assms(1) by (auto simp: coins_in_def)
  then show le: "sum (coin_value W) (snd ` set cs) \<le> sum (coin_value W) P" using assms(2,3) by (intro sum_mono2) auto
  have "\<forall>c \<in> set cs. 0 \<le> fst c" using assms(1,3) by (auto simp: coins_in_def)
  then have "fold (\<lambda>c n. wrap64 (n + fst c)) cs 0 = 0 + (\<Sum>c \<leftarrow> cs. fst c)" using le assms(4) coins_in_sum [OF assms(1)] by (intro fold_value) auto
  then show "coin_result cs = (True, snd ` set cs, sum (coin_value W) (snd ` set cs))" by (simp add: coin_result_def coins_in_sum [OF assms(1)])
qed

lemma masked_Cons: "masked (x # v) (b # m) = (if b then x else 0) + masked v m"
  unfolding masked_def by (auto simp: sum.lessThan_Suc_shift simp del: sum.lessThan_Suc intro!: sum.cong)

lemma chosen_sum: "length vf = length vs \<Longrightarrow> (\<Sum>c \<leftarrow> chosen vs vf. fst c) = masked (map fst vs) vf"
proof (induction vs vf rule: list_induct2')
  case (4 c vs b vf)
  then show ?case by (simp add: chosen_def masked_Cons)
qed (simp_all add: chosen_def masked_def)

lemma chosen_in:
  assumes "coins_in W P vs"
  shows "coins_in W P (chosen vs vf)"
proof -
  have sub: "set (chosen vs vf) \<subseteq> set vs" for vs and vf by (auto simp: chosen_def dest: set_zip_leftD)
  have "distinct (map snd (chosen vs vf))" if "distinct (map snd vs)" for vs and vf :: "bool list" using that
  proof (induction vs vf rule: list_induct2')
    case (4 c vs b vf)
    have "snd ` set (chosen vs vf) \<subseteq> snd ` set vs" using sub by (rule image_mono)
    with 4 have "distinct (map snd (chosen vs vf))" "snd c \<notin> snd ` set (chosen vs vf)" by auto
    then show ?case by (simp add: chosen_def image_image)
  qed (simp_all add: chosen_def)
  with assms sub show ?thesis unfolding coins_in_def by blast
qed

text \<open>The search among the lower coins, for the target and then for the target plus a cent.\<close>

lemma search_ok:
  assumes "coins_in W P vs" and "finite P" and "\<forall>c \<in> P. 0 \<le> coin_value W c" and "sum (coin_value W) P < 2 ^ 63"
    and "(\<Sum>c \<leftarrow> vs. fst c) = tot" and "T \<le> tot"
    and "ApproximateBestSubset bits (map fst (sort_key (\<lambda>c. - fst c) vs)) tot T k = (vf, best)"
  shows "coins_in W P (chosen (sort_key (\<lambda>c. - fst c) vs) vf)"
    and "sum (coin_value W) (snd ` set (chosen (sort_key (\<lambda>c. - fst c) vs) vf)) = best" and "T \<le> best"
proof -
  let ?vs = "sort_key (\<lambda>c. - fst c) vs"
  have "mset (map snd ?vs) = mset (map snd vs)" by simp
  then have "distinct (map snd ?vs) = distinct (map snd vs)" by (rule mset_eq_imp_distinct_iff)
  then have in': "coins_in W P ?vs" using assms(1) by (simp add: coins_in_def)
  have "mset (map fst ?vs) = mset (map fst vs)" by simp
  then have sum: "sum_list (map fst ?vs) = tot" using assms(5) by (metis sum_mset_sum_list)
  have "tot = sum (coin_value W) (snd ` set vs)" using coins_in_sum [OF assms(1)] assms(5) by simp
  also have "\<dots> \<le> sum (coin_value W) P" by (rule coin_result_ok(3) [OF assms(1-4)])
  finally have "small_sum (map fst ?vs)" using assms(1,3,4) sum by (auto simp: small_sum_def coins_in_def)
  from ApproximateBestSubset_ok [OF this, of T bits k vf best] assms(6,7) sum
  have vf: "length vf = length ?vs" "best = masked (map fst ?vs) vf" "T \<le> best" by simp_all
  show ch: "coins_in W P (chosen ?vs vf)" by (rule chosen_in [OF in'])
  show "sum (coin_value W) (snd ` set (chosen ?vs vf)) = best" using coins_in_sum [OF ch] chosen_sum [OF vf(1)] vf(2) by simp
  show "T \<le> best" by (rule vf(3))
qed

text \<open>
  A selection \<open>A\<close> of the eligible coins \<open>P\<close> for the target \<open>T\<close>: it reaches the target, and unless all eligible coins together leave less,
  it leaves no change or at least a cent.
\<close>

definition good_selection :: "CWallet \<Rightarrow> (u256 \<times> nat) set \<Rightarrow> int \<Rightarrow> (u256 \<times> nat) set \<Rightarrow> int \<Rightarrow> bool" where
  "good_selection W P T A v \<longleftrightarrow>
     A \<subseteq> P \<and> v = sum (coin_value W) A \<and> T \<le> v \<and> (v = T \<or> T + CENT \<le> v \<or> sum (coin_value W) P < T + CENT)"

lemma select_result:
  assumes "coins_in W P cs" and "finite P" and "\<forall>c \<in> P. 0 \<le> coin_value W c" and "sum (coin_value W) P < 2 ^ 63"
    and "T \<le> sum (coin_value W) (snd ` set cs)"
    and "sum (coin_value W) (snd ` set cs) = T \<or> T + CENT \<le> sum (coin_value W) (snd ` set cs) \<or> sum (coin_value W) P < T + CENT"
    and "coin_result cs = (ok, A, v)"
  shows "ok \<and> good_selection W P T A v \<and> T \<le> sum (coin_value W) P"
  using coin_result_ok [OF assms(1-4)] assms(5-7) by (auto simp: good_selection_def)

definition eligible_ids :: "env \<Rightarrow> CWallet \<Rightarrow> u32 \<Rightarrow> int \<Rightarrow> int \<Rightarrow> COutput list \<Rightarrow> (u256 \<times> nat) set" where
  "eligible_ids E W t cm ct vCoins = coin_id ` {out \<in> set vCoins. eligible E W t cm ct out}"

text \<open>The coins the selection works on.\<close>

definition coins_ok :: "CWallet \<Rightarrow> int \<Rightarrow> COutput list \<Rightarrow> bool" where
  "coins_ok W T vCoins \<longleftrightarrow> distinct (map coin_id vCoins) \<and> (\<forall>out \<in> set vCoins. 0 \<le> coin_value W (coin_id out)) \<and> 0 \<le> T \<and>
     T + CENT + (\<Sum>out \<leftarrow> vCoins. coin_value W (coin_id out)) < 2 ^ 63"

lemma eligible_sum:
  assumes "coins_ok W T vCoins"
  shows "finite (eligible_ids E W t cm ct vCoins)" and "\<forall>c \<in> eligible_ids E W t cm ct vCoins. 0 \<le> coin_value W c"
    and "T + CENT + sum (coin_value W) (eligible_ids E W t cm ct vCoins) < 2 ^ 63"
proof -
  let ?P = "eligible_ids E W t cm ct vCoins"
  show "finite ?P" "\<forall>c \<in> ?P. 0 \<le> coin_value W c" using assms by (auto simp: eligible_ids_def coins_ok_def)
  have "(\<Sum>out \<leftarrow> vCoins. coin_value W (coin_id out)) = (\<Sum>c \<leftarrow> map coin_id vCoins. coin_value W c)" by (simp add: comp_def)
  also have "\<dots> = sum (coin_value W) (set (map coin_id vCoins))" using assms by (intro sum_list_distinct_conv_sum_set) (simp add: coins_ok_def)
  finally have all: "(\<Sum>out \<leftarrow> vCoins. coin_value W (coin_id out)) = sum (coin_value W) (coin_id ` set vCoins)" by simp
  have "sum (coin_value W) ?P \<le> sum (coin_value W) (coin_id ` set vCoins)"
    using assms by (intro sum_mono2) (auto simp: eligible_ids_def coins_ok_def)
  then show "T + CENT + sum (coin_value W) ?P < 2 ^ 63" using assms all by (simp add: coins_ok_def)
qed

lemma lower_coins:
  assumes "coins_ok W T vCoins"
  shows "coins_in W (eligible_ids E W t cm ct vCoins) (map (coin_of W) (filter (lower_coin E W T t cm ct) vCoins))"
    and "\<forall>out \<in> set vCoins. \<not> larger_coin E W T t cm ct out \<Longrightarrow>
      (\<Sum>out \<leftarrow> filter (lower_coin E W T t cm ct) vCoins. coin_value W (coin_id out)) = sum (coin_value W) (eligible_ids E W t cm ct vCoins)"
proof -
  let ?vs = "map (coin_of W) (filter (lower_coin E W T t cm ct) vCoins)" and ?P = "eligible_ids E W t cm ct vCoins"
  have "map snd ?vs = map coin_id (filter (lower_coin E W T t cm ct) vCoins)" by simp
  moreover have "distinct (map coin_id (filter (lower_coin E W T t cm ct) vCoins))" using assms by (simp add: coins_ok_def distinct_map_filter)
  ultimately have "distinct (map snd ?vs)" by (simp only:)
  then show c: "coins_in W ?P ?vs" unfolding coins_in_def by (auto simp: eligible_ids_def lower_coin_def)
  assume "\<forall>out \<in> set vCoins. \<not> larger_coin E W T t cm ct out"
  then have "snd ` set ?vs = ?P" by (force simp: eligible_ids_def lower_coin_def larger_coin_def image_image)
  with coins_in_sum [OF c] show "(\<Sum>out \<leftarrow> filter (lower_coin E W T t cm ct) vCoins. coin_value W (coin_id out)) = sum (coin_value W) ?P"
    by (simp add: comp_def)
qed

lemma select_scanned:
  assumes "coins_ok W T vCoins" and "P = eligible_ids E W t cm ct vCoins"
    and "vs = map (coin_of W) (filter (lower_coin E W T t cm ct) vCoins)" and "tot = (\<Sum>c \<leftarrow> vs. fst c)" and "T < tot"
    and "low = None \<longleftrightarrow> (\<forall>out \<in> set vCoins. \<not> larger_coin E W T t cm ct out)"
    and "\<And>c. low = Some c \<Longrightarrow> coins_in W P [c] \<and> T + CENT \<le> fst c"
    and "(let vSorted = sort_key (\<lambda>c. - fst c) vs; v = map fst vSorted;
             (vf1, best1) = ApproximateBestSubset b0 v tot T 1000;
             (vf, nBest) = (if best1 \<noteq> T \<and> tot \<ge> wrap64 (T + CENT) then ApproximateBestSubset b1 v tot (wrap64 (T + CENT)) 1000 else (vf1, best1))
         in case low of
              Some c \<Rightarrow> if nBest \<noteq> T \<and> nBest < wrap64 (T + CENT) \<or> fst c \<le> nBest then Some (coin_result [c]) else Some (coin_result (chosen vSorted vf))
            | None \<Rightarrow> Some (coin_result (chosen vSorted vf))) = Some (ok, A, v)"
  shows "ok \<and> good_selection W P T A v \<and> T \<le> sum (coin_value W) P"
proof -
  let ?vs = "sort_key (\<lambda>c. - fst c) vs"
  note P = eligible_sum [OF assms(1), of E t cm ct, folded assms(2)]
  have T: "0 \<le> T" using assms(1) by (simp add: coins_ok_def)
  have nn: "0 \<le> sum (coin_value W) P" using P(2) by (intro sum_nonneg) blast
  have small: "sum (coin_value W) P < 2 ^ 63" and wT: "wrap64 (T + CENT) = T + CENT"
    using P(3) T nn by (auto intro!: wrap64_id simp: int64_range_def CENT_def)
  have vs: "coins_in W P vs" using lower_coins(1) [OF assms(1)] assms(2,3) by simp
  have none: "sum (coin_value W) P = tot" if "low = None"
    using lower_coins(2) [OF assms(1), of E t cm ct] that assms(2-4,6) by (simp add: comp_def)
  obtain vf1 best1 where a1: "ApproximateBestSubset b0 (map fst ?vs) tot T 1000 = (vf1, best1)" by (cases "ApproximateBestSubset b0 (map fst ?vs) tot T 1000")
  obtain vf best where a2: "(if best1 \<noteq> T \<and> tot \<ge> T + CENT then ApproximateBestSubset b1 (map fst ?vs) tot (T + CENT) 1000 else (vf1, best1)) = (vf, best)"
    by (cases "if best1 \<noteq> T \<and> tot \<ge> T + CENT then ApproximateBestSubset b1 (map fst ?vs) tot (T + CENT) 1000 else (vf1, best1)")
  have tot: "(\<Sum>c \<leftarrow> vs. fst c) = tot" "T \<le> tot" using assms(4,5) by simp_all
  note s1 = search_ok [OF vs P(1,2) small tot a1]
  have found: "coins_in W P (chosen ?vs vf) \<and> sum (coin_value W) (snd ` set (chosen ?vs vf)) = best \<and> T \<le> best \<and> (best = T \<or> T + CENT \<le> best \<or> tot < T + CENT)"
  proof (cases "best1 \<noteq> T \<and> tot \<ge> T + CENT")
    case True
    with a2 have a2': "ApproximateBestSubset b1 (map fst ?vs) tot (T + CENT) 1000 = (vf, best)" by simp
    have "T + CENT \<le> tot" using True by simp
    from search_ok [OF vs P(1,2) small tot(1) this a2'] show ?thesis by (simp add: CENT_def)
  next
    case False
    with a2 have "vf = vf1" "best = best1" by simp_all
    with s1 False show ?thesis by auto
  qed
  have large: "ok \<and> good_selection W P T A v \<and> T \<le> sum (coin_value W) P" if l: "low = Some c" and r: "coin_result [c] = (ok, A, v)" for c
  proof -
    have c: "coins_in W P [c]" "T + CENT \<le> fst c" using assms(7) [OF l] by simp_all
    then have "sum (coin_value W) (snd ` set [c]) = fst c" by (simp add: coins_in_def)
    with c(2) show ?thesis by (intro select_result [OF c(1) P(1,2) small _ _ r]) (simp_all add: CENT_def)
  qed
  have subset: "ok \<and> good_selection W P T A v \<and> T \<le> sum (coin_value W) P"
    if r: "coin_result (chosen ?vs vf) = (ok, A, v)" and b: "best = T \<or> T + CENT \<le> best \<or> sum (coin_value W) P < T + CENT"
    by (rule select_result [OF _ P(1,2) small _ _ r]) (use found b in auto)
  have res: "(case low of
        Some c \<Rightarrow> if best \<noteq> T \<and> best < T + CENT \<or> fst c \<le> best then Some (coin_result [c]) else Some (coin_result (chosen ?vs vf))
      | None \<Rightarrow> Some (coin_result (chosen ?vs vf))) = Some (ok, A, v)"
    using assms(8) unfolding Let_def wT by (simp only: a1 a2 prod.case)
  show ?thesis
  proof (cases low)
    case None
    with res have r: "coin_result (chosen ?vs vf) = (ok, A, v)" by simp
    show ?thesis by (rule subset [OF r]) (use found none [OF None] in auto)
  next
    case (Some c)
    show ?thesis
    proof (cases "best \<noteq> T \<and> best < T + CENT \<or> fst c \<le> best")
      case True
      with res Some have r: "coin_result [c] = (ok, A, v)" by simp
      show ?thesis by (rule large [OF Some r])
    next
      case False
      with res Some have r: "coin_result (chosen ?vs vf) = (ok, A, v)" by simp
      show ?thesis by (rule subset [OF r]) (use False in auto)
    qed
  qed
qed

lemma coins_ok_shuffle: "coins_ok W T (random_shuffle r vCoins) = coins_ok W T vCoins"
proof -
  have m: "mset (random_shuffle r vCoins) = mset vCoins" by (rule random_shuffle_mset)
  then have "mset (map coin_id (random_shuffle r vCoins)) = mset (map coin_id vCoins)" by (simp only: mset_map)
  then have "distinct (map coin_id (random_shuffle r vCoins)) = distinct (map coin_id vCoins)" by (rule mset_eq_imp_distinct_iff)
  moreover have "sum_mset (mset (map (\<lambda>out. coin_value W (coin_id out)) (random_shuffle r vCoins))) =
      sum_mset (mset (map (\<lambda>out. coin_value W (coin_id out)) vCoins))" by (simp only: mset_map m)
  then have "(\<Sum>out \<leftarrow> random_shuffle r vCoins. coin_value W (coin_id out)) = (\<Sum>out \<leftarrow> vCoins. coin_value W (coin_id out))"
    unfolding sum_mset_sum_list .
  ultimately show ?thesis unfolding coins_ok_def mset_eq_setD [OF m] by simp
qed

lemma SelectCoinsMinConf_ok:
  assumes "coins_ok W T vCoins" and "SelectCoinsMinConf E W r bits T t cm ct vCoins = Some (ok, A, v)"
  shows "ok = (T \<le> sum (coin_value W) (eligible_ids E W t cm ct vCoins)) \<and> (ok \<longrightarrow> good_selection W (eligible_ids E W t cm ct vCoins) T A v)"
proof -
  let ?outs = "random_shuffle r vCoins"
  define P where "P = eligible_ids E W t cm ct ?outs"
  have same: "eligible_ids E W t cm ct vCoins = P" by (simp add: P_def eligible_ids_def mset_eq_setD [OF random_shuffle_mset])
  have ok: "coins_ok W T ?outs" using assms(1) by (simp add: coins_ok_shuffle)
  note P = eligible_sum [OF ok, of E t cm ct, folded P_def]
  have T: "0 \<le> T" "\<forall>out \<in> set ?outs. 0 \<le> coin_value W (coin_id out)" "T + CENT + 0 + (\<Sum>out \<leftarrow> ?outs. coin_value W (coin_id out)) < 2 ^ 63"
    using ok by (simp_all add: coins_ok_def)
  have nn: "0 \<le> sum (coin_value W) P" using P(2) by (intro sum_nonneg) blast
  have small: "sum (coin_value W) P < 2 ^ 63" using P(3) T(1) by (simp add: CENT_def)
  have single: "coins_in W P [coin_of W out]" if "out \<in> set ?outs" "eligible E W t cm ct out" for out
    using that by (auto simp: coins_in_def P_def eligible_ids_def)
  obtain sc where sc: "scan_coins E W T t cm ct ?outs [] 0 None = Some sc"
    using assms(2) by (cases "scan_coins E W T t cm ct ?outs [] 0 None") (simp_all add: SelectCoinsMinConf_def)
  have "ok = (T \<le> sum (coin_value W) P) \<and> (ok \<longrightarrow> good_selection W P T A v)"
  proof (cases sc)
    case (Inl c)
    obtain out where out: "out \<in> set ?outs" "eligible E W t cm ct out" "c = coin_of W out" "fst c = T" using scan_Inl sc Inl by blast
    have r: "coin_result [c] = (ok, A, v)" using assms(2) sc Inl by (simp add: SelectCoinsMinConf_def)
    have "coins_in W P [c]" using single out by simp
    from select_result [OF this P(1,2) small _ _ r, of T] out show ?thesis by simp
  next
    case (Inr res)
    obtain vs tot low where res: "res = (vs, tot, low)" by (cases res)
    note s = scan_Inr [OF T(1,2) order.refl T(3) sc [unfolded Inr res]]
    have vs: "vs = map (coin_of W) (filter (lower_coin E W T t cm ct) ?outs)" "tot = (\<Sum>c \<leftarrow> vs. fst c)"
      using s(1,2) by (simp_all add: comp_def)
    have low: "low = None \<longleftrightarrow> (\<forall>out \<in> set ?outs. \<not> larger_coin E W T t cm ct out)" using s(3) by simp
    have large: "coins_in W P [c] \<and> T + CENT \<le> fst c" if "low = Some c" for c
      using s(4) that single by (auto simp: larger_coin_def)
    have all: "coins_in W P vs" using lower_coins(1) [OF ok] vs(1) by (simp add: P_def)
    consider "tot = T" | "tot < T" | "T < tot" by linarith
    then show ?thesis
    proof cases
      case 1
      then have r: "coin_result vs = (ok, A, v)" using assms(2) sc Inr res by (simp add: SelectCoinsMinConf_def)
      from select_result [OF all P(1,2) small _ _ r, of T] 1 vs(2) coins_in_sum [OF all] show ?thesis by simp
    next
      case 2
      show ?thesis
      proof (cases low)
        case None
        then have "sum (coin_value W) P = tot" using lower_coins(2) [OF ok, of E t cm ct] low s(2) by (simp add: P_def)
        with 2 None assms(2) sc Inr res show ?thesis by (simp add: SelectCoinsMinConf_def)
      next
        case (Some c)
        then have r: "coin_result [c] = (ok, A, v)" using assms(2) sc Inr res 2 by (simp add: SelectCoinsMinConf_def)
        have c: "coins_in W P [c]" "T + CENT \<le> fst c" using large [OF Some] by simp_all
        then have "sum (coin_value W) (snd ` set [c]) = fst c" by (simp add: coins_in_def)
        with select_result [OF c(1) P(1,2) small _ _ r, of T] c(2) show ?thesis by (simp add: CENT_def)
      qed
    next
      case 3
      then have ne: "tot \<noteq> T" "\<not> tot < T" by simp_all
      note r = assms(2) [unfolded SelectCoinsMinConf_def sc Inr res option.case sum.case prod.case if_not_P [OF ne(1)] if_not_P [OF ne(2)]]
      have "ok \<and> good_selection W P T A v \<and> T \<le> sum (coin_value W) P" by (rule select_scanned [OF ok P_def vs 3 low large r])
      then show ?thesis by simp
    qed
  qed
  then show ?thesis unfolding same .
qed

text \<open>C35: Coin selection finds coins exactly when the eligible ones suffice. What it returns are eligible coins and the sum of their values, which
  reaches the target and, unless the eligible coins together exceed the target by less than a cent, leaves no change or at least a cent.
\<close>

theorem SelectCoinsMinConf_spec:
  assumes "coins_ok W T vCoins" and "SelectCoinsMinConf E W r bits T t cm ct vCoins = Some (ok, A, v)"
  shows "ok = (T \<le> sum (coin_value W) (eligible_ids E W t cm ct vCoins)) \<and> (ok \<longrightarrow> good_selection W (eligible_ids E W t cm ct vCoins) T A v)"
  using assms by (rule SelectCoinsMinConf_ok)

end
