(* ===== verification/WalletInv.thy ===== *)
theory WalletInv
  imports Wallet
begin

text \<open>
  What the operations of the wallet do to its marks. Every operation is described by the set of outputs it marks or unmarks;
  everything else of the wallet's transactions stays as it is.
\<close>

section \<open>Marks\<close>

definition wtx_core :: "CWalletTx \<Rightarrow> CWalletTx" where
  "wtx_core w = w\<lparr>vfSpent := []\<rparr>"

definition spent_at :: "CWallet \<Rightarrow> u256 \<times> nat \<Rightarrow> bool" where
  "spent_at W c \<longleftrightarrow> (\<exists>w. mapWallet W (fst c) = Some w \<and> IsSpent w (snd c))"

definition own_at :: "env \<Rightarrow> CWallet \<Rightarrow> u256 \<times> nat \<Rightarrow> bool" where
  "own_at E W c \<longleftrightarrow> (\<exists>w. mapWallet W (fst c) = Some w \<and> snd c < length (vout w) \<and> wallet_IsMine E W (vout w ! snd c))"

definition input_coin :: "CTxIn \<Rightarrow> u256 \<times> nat" where
  "input_coin i = (prev_hash (prevout i), unat (prev_n (prevout i)))"

definition marks_fit :: "CWallet \<Rightarrow> bool" where
  "marks_fit W \<longleftrightarrow> (\<forall>h w. mapWallet W h = Some w \<longrightarrow> length (vfSpent w) \<le> length (vout w))"

definition marks_only :: "CWallet \<Rightarrow> CWallet \<Rightarrow> bool" where
  "marks_only W W' \<longleftrightarrow> w_keys W' = w_keys W \<and> (\<forall>h. map_option wtx_core (mapWallet W' h) = map_option wtx_core (mapWallet W h))"

text \<open>Every transaction is stored under its hash, and has no more marks than outputs.\<close>

definition wallet_ok :: "env \<Rightarrow> CWallet \<Rightarrow> bool" where
  "wallet_ok E W \<longleftrightarrow> finite (dom (mapWallet W)) \<and> marks_fit W \<and> (\<forall>h w. mapWallet W h = Some w \<longrightarrow> GetHash E (tx_of w) = h)"

lemma core_eq: "wtx_core w = wtx_core w' \<Longrightarrow> tx_of w = tx_of w' \<and> vout w = vout w' \<and> vin w = vin w'"
proof -
  assume "wtx_core w = wtx_core w'"
  then have "tx_of (wtx_core w) = tx_of (wtx_core w')" "vout (wtx_core w) = vout (wtx_core w')" "vin (wtx_core w) = vin (wtx_core w')" by simp_all
  then show ?thesis by (simp add: wtx_core_def CTransaction.defs)
qed

lemma core_marks [simp]: "wtx_core (w\<lparr>vfSpent := v\<rparr>) = wtx_core w"
  by (simp add: wtx_core_def)

lemma marks_only_refl [simp]: "marks_only W W"
  by (simp add: marks_only_def)

lemma marks_only_trans: "marks_only W W1 \<Longrightarrow> marks_only W1 W2 \<Longrightarrow> marks_only W W2"
  by (simp add: marks_only_def)

lemma marks_only_lookup:
  assumes "marks_only W W'"
  shows "(mapWallet W' h = None) = (mapWallet W h = None)"
    and "mapWallet W h = Some w \<Longrightarrow> \<exists>w'. mapWallet W' h = Some w' \<and> wtx_core w' = wtx_core w"
  using assms by (metis marks_only_def map_option_is_None, metis marks_only_def map_option_eq_Some)

lemma marks_only_sym: "marks_only W W' \<Longrightarrow> marks_only W' W"
  by (simp add: marks_only_def)

lemma marks_only_mine: "marks_only W W' \<Longrightarrow> wallet_IsMine E W' = wallet_IsMine E W"
  by (simp add: marks_only_def wallet_IsMine_def fun_eq_iff)

lemma marks_only_own: "marks_only W W' \<Longrightarrow> own_at E W' c = own_at E W c"
proof -
  have 1: "own_at E W' c" if m: "marks_only W W'" and o: "own_at E W c" for W W'
  proof -
    from o obtain w where w: "mapWallet W (fst c) = Some w" "snd c < length (vout w)" "wallet_IsMine E W (vout w ! snd c)"
      by (auto simp: own_at_def)
    from marks_only_lookup(2) [OF m w(1)] obtain w' where w': "mapWallet W' (fst c) = Some w'" "wtx_core w' = wtx_core w" by blast
    from core_eq [OF w'(2)] w w'(1) marks_only_mine [OF m, of E] show ?thesis by (simp add: own_at_def)
  qed
  assume "marks_only W W'"
  with 1 marks_only_sym show ?thesis by blast
qed

lemma own_there: "own_at E W c \<Longrightarrow> \<exists>w. mapWallet W (fst c) = Some w \<and> snd c < length (vout w)"
  by (auto simp: own_at_def)

lemma marks_only_dom: "marks_only W W' \<Longrightarrow> dom (mapWallet W') = dom (mapWallet W)"
  using marks_only_lookup(1) by (auto simp: dom_def)

lemma marks_only_ok:
  assumes "wallet_ok E W" and m: "marks_only W W'" and "marks_fit W'"
  shows "wallet_ok E W'"
proof -
  have "GetHash E (tx_of w') = h" if "mapWallet W' h = Some w'" for h w'
    using marks_only_lookup(2) [OF marks_only_sym [OF m] that] assms(1) core_eq unfolding wallet_ok_def by metis
  then show ?thesis using assms marks_only_dom [OF m] by (simp add: wallet_ok_def)
qed

lemma IsSpent_mark:
  assumes "length (vfSpent w) \<le> length (vout w)" and "n < length (vout w)"
  shows "IsSpent (w\<lparr>vfSpent := (resize_marks (length (vout w)) (vfSpent w))[n := b]\<rparr>) k = (if k = n then b else IsSpent w k)"
  using assms by (auto simp: IsSpent_def resize_marks_def nth_append)

lemma mark_put:
  assumes "marks_fit W" and "mapWallet W h = Some w" and "n < length (vout w)"
    and "w' = w\<lparr>vfSpent := (resize_marks (length (vout w)) (vfSpent w))[n := b]\<rparr>"
  shows "marks_only W (put_wtx h w' W)" and "marks_fit (put_wtx h w' W)"
    and "spent_at (put_wtx h w' W) c = (if c = (h, n) then b else spent_at W c)"
proof -
  have f: "length (vfSpent w) \<le> length (vout w)" using assms(1,2) by (simp add: marks_fit_def)
  show "marks_only W (put_wtx h w' W)" using assms(2,4) by (simp add: marks_only_def put_wtx_def)
  show "marks_fit (put_wtx h w' W)" using assms(1,2) f by (simp add: marks_fit_def put_wtx_def assms(4) resize_marks_def)
  show "spent_at (put_wtx h w' W) c = (if c = (h, n) then b else spent_at W c)"
    using assms(2) IsSpent_mark [OF f assms(3), of b "snd c"] by (cases c) (auto simp: spent_at_def put_wtx_def assms(4))
qed

section \<open>The loops over inputs and outputs\<close>

text \<open>
  A loop over inputs that marks or unmarks the outputs they refer to: \<open>acts\<close> says when it changes an output, \<open>concerns\<close> which outputs it is about;
  an output of these that it passes by has the mark already.
\<close>

locale mark_loop =
  fixes loop :: "CTxIn list \<Rightarrow> CWallet \<Rightarrow> CWallet option" and acts concerns :: "CWallet \<Rightarrow> u256 \<times> nat \<Rightarrow> bool" and b :: bool
  assumes loop_Nil: "loop [] W = Some W"
    and loop_skip: "\<not> acts W (input_coin i) \<Longrightarrow> loop (i # is) W = loop is W"
    and loop_act: "acts W (input_coin i) \<Longrightarrow> mapWallet W (fst (input_coin i)) = Some w \<Longrightarrow>
      loop (i # is) W = loop is (put_wtx (fst (input_coin i)) (w\<lparr>vfSpent := (resize_marks (length (vout w)) (vfSpent w))[snd (input_coin i) := b]\<rparr>) W)"
    and acts_there: "acts W c \<Longrightarrow> concerns W c \<and> (\<exists>w. mapWallet W (fst c) = Some w \<and> snd c < length (vout w))"
    and passed: "concerns W c \<Longrightarrow> \<not> acts W c \<Longrightarrow> spent_at W c = b"
    and concerns_marks: "marks_only W W' \<Longrightarrow> concerns W' c = concerns W c"
begin

lemma loop_marks:
  "marks_fit W \<Longrightarrow> \<exists>W'. loop is W = Some W' \<and> marks_only W W' \<and> marks_fit W' \<and>
     (\<forall>c. spent_at W' c = (if c \<in> input_coin ` set is \<and> concerns W c then b else spent_at W c))"
proof (induction "is" arbitrary: W)
  case Nil
  then show ?case by (simp add: loop_Nil)
next
  case (Cons i "is")
  let ?c = "input_coin i"
  show ?case
  proof (cases "acts W ?c")
    case True
    from acts_there [OF True] obtain w where w: "concerns W ?c" "mapWallet W (fst ?c) = Some w" "snd ?c < length (vout w)" by blast
    let ?W = "put_wtx (fst ?c) (w\<lparr>vfSpent := (resize_marks (length (vout w)) (vfSpent w))[snd ?c := b]\<rparr>) W"
    note r = loop_act [OF True w(2)]
    note p = mark_put [OF Cons.prems w(2,3) refl, of b]
    from Cons.IH [OF p(2)] obtain W' where IH: "loop is ?W = Some W'" "marks_only ?W W'" "marks_fit W'"
      and sp: "\<And>c. spent_at W' c = (if c \<in> input_coin ` set is \<and> concerns ?W c then b else spent_at ?W c)" by blast
    have "spent_at W' c = (if c \<in> input_coin ` set (i # is) \<and> concerns W c then b else spent_at W c)" for c
      using sp [of c] p(3) [of c] concerns_marks [OF p(1), of c] w(1) by auto
    then show ?thesis unfolding r IH(1) using IH(3) marks_only_trans [OF p(1) IH(2)] by simp
  next
    case False
    obtain W' where IH: "loop is W = Some W'" "marks_only W W'" "marks_fit W'"
      and sp: "\<And>c. spent_at W' c = (if c \<in> input_coin ` set is \<and> concerns W c then b else spent_at W c)" using Cons.IH [OF Cons.prems] by blast
    have "spent_at W' c = (if c \<in> input_coin ` set (i # is) \<and> concerns W c then b else spent_at W c)" for c
      using sp [of c] False passed [of W c] by auto
    then show ?thesis unfolding loop_skip [OF False] IH(1) using IH(2,3) by simp
  qed
qed

end

interpretation marking: mark_loop "mark_inputs E" "\<lambda>W c. own_at E W c \<and> \<not> spent_at W c" "own_at E" True for E
proof
  show "mark_inputs E [] W = Some W" for W by simp
  show "mark_inputs E (i # is) W = mark_inputs E is W" if "\<not> (own_at E W (input_coin i) \<and> \<not> spent_at W (input_coin i))" for W i "is"
    using that by (auto simp: own_at_def spent_at_def input_coin_def Let_def split: option.split)
  show "mark_inputs E (i # is) W = mark_inputs E is (put_wtx (fst (input_coin i)) (w\<lparr>vfSpent := (resize_marks (length (vout w)) (vfSpent w))[snd (input_coin i) := True]\<rparr>) W)"
    if "own_at E W (input_coin i) \<and> \<not> spent_at W (input_coin i)" "mapWallet W (fst (input_coin i)) = Some w" for W i w "is"
    using that by (simp add: own_at_def spent_at_def input_coin_def Let_def MarkSpent_def)
qed (use own_there marks_only_own in blast)+

interpretation unmarking: mark_loop "unmark_inputs E" "own_at E" "own_at E" False for E
proof
  show "unmark_inputs E [] W = Some W" for W by simp
  show "unmark_inputs E (i # is) W = unmark_inputs E is W" if "\<not> own_at E W (input_coin i)" for W i "is"
    using that by (auto simp: own_at_def input_coin_def Let_def split: option.split)
  show "unmark_inputs E (i # is) W = unmark_inputs E is (put_wtx (fst (input_coin i)) (w\<lparr>vfSpent := (resize_marks (length (vout w)) (vfSpent w))[snd (input_coin i) := False]\<rparr>) W)"
    if "own_at E W (input_coin i)" "mapWallet W (fst (input_coin i)) = Some w" for W i w "is"
    using that by (simp add: own_at_def input_coin_def Let_def MarkUnspent_def)
qed (use own_there marks_only_own in blast)+

lemma spend_coins_ok:
  "marks_fit W \<Longrightarrow> spend_coins is W = Some W' \<Longrightarrow> marks_only W W' \<and> marks_fit W' \<and>
     (\<forall>c. spent_at W' c = (spent_at W c \<or> c \<in> input_coin ` set is))"
proof (induction "is" arbitrary: W)
  case (Cons i "is")
  let ?c = "input_coin i"
  from Cons.prems(2) obtain w where w: "mapWallet W (fst ?c) = Some w" "snd ?c < length (vout w)"
    by (auto simp: input_coin_def MarkSpent_def Let_def split: option.splits if_splits)
  define w' where "w' = w\<lparr>vfSpent := (resize_marks (length (vout w)) (vfSpent w))[snd ?c := True]\<rparr>"
  have r: "spend_coins is (put_wtx (fst ?c) w' W) = Some W'"
    using Cons.prems(2) w by (simp add: input_coin_def Let_def MarkSpent_def w'_def)
  note p = mark_put [OF Cons.prems(1) w w'_def]
  from Cons.IH [OF p(2) r] p(3) marks_only_trans [OF p(1)] show ?case by auto
qed simp

lemma unmark_outputs_ok:
  "length (vfSpent w) \<le> length (vout w) \<Longrightarrow> n + length ts \<le> length (vout w) \<Longrightarrow>
   \<exists>w'. unmark_outputs E W ts n w = Some w' \<and> wtx_core w' = wtx_core w \<and> length (vfSpent w') \<le> length (vout w') \<and>
     (\<forall>k. IsSpent w' k = (IsSpent w k \<and> \<not> (n \<le> k \<and> k < n + length ts \<and> wallet_IsMine E W (ts ! (k - n)))))"
proof (induction ts arbitrary: n w)
  case (Cons t ts)
  define w1 where "w1 = (if wallet_IsMine E W t then w\<lparr>vfSpent := (resize_marks (length (vout w)) (vfSpent w))[n := False]\<rparr> else w)"
  have r: "unmark_outputs E W (t # ts) n w = unmark_outputs E W ts (n + 1) w1"
    using Cons.prems(2) by (simp add: w1_def MarkUnspent_def)
  have v: "wtx_core w1 = wtx_core w" "vout w1 = vout w" "length (vfSpent w1) \<le> length (vout w1)"
    using Cons.prems(1) by (simp_all add: w1_def resize_marks_def)
  have s: "IsSpent w1 k = (IsSpent w k \<and> \<not> (k = n \<and> wallet_IsMine E W t))" for k
    using Cons.prems IsSpent_mark [of w n False k] by (simp add: w1_def)
  have l: "n + 1 + length ts \<le> length (vout w1)" using Cons.prems(2) v(2) by simp
  obtain w' where IH: "unmark_outputs E W ts (n + 1) w1 = Some w'" "wtx_core w' = wtx_core w1" "length (vfSpent w') \<le> length (vout w')"
    and sp: "\<And>k. IsSpent w' k = (IsSpent w1 k \<and> \<not> (n + 1 \<le> k \<and> k < n + 1 + length ts \<and> wallet_IsMine E W (ts ! (k - (n + 1)))))"
    using Cons.IH [OF v(3) l] by blast
  have "IsSpent w' k = (IsSpent w k \<and> \<not> (n \<le> k \<and> k < n + length (t # ts) \<and> wallet_IsMine E W ((t # ts) ! (k - n))))" for k
    using sp [of k] s [of k] by (cases "k = n") (auto simp: nth_Cons' Suc_le_eq)
  with r IH v(1) show ?case by auto
qed simp

section \<open>Adding a transaction\<close>

definition block_outputs :: "env \<Rightarrow> bool \<Rightarrow> u256 \<Rightarrow> CWallet \<Rightarrow> (u256 \<times> nat) set" where
  "block_outputs E fBlock hash W = {c. fBlock \<and> fst c = hash \<and> own_at E W c}"

lemma WalletUpdateSpent_ok:
  assumes fit: "marks_fit W" and there: "fBlock \<longrightarrow> (\<exists>w. mapWallet W (GetHash E tx) = Some w \<and> vout w = vout tx)"
  shows "\<exists>W'. WalletUpdateSpent E tx fBlock W = Some W' \<and> marks_only W W' \<and> marks_fit W' \<and>
    (\<forall>c. spent_at W' c = ((spent_at W c \<or> c \<in> input_coin ` set (vin tx) \<and> own_at E W c) \<and> c \<notin> block_outputs E fBlock (GetHash E tx) W))"
proof -
  let ?h = "GetHash E tx"
  obtain W1 where W1: "mark_inputs E (vin tx) W = Some W1" "marks_only W W1" "marks_fit W1"
    and sp0: "\<And>c. spent_at W1 c = (if c \<in> input_coin ` set (vin tx) \<and> own_at E W c then True else spent_at W c)"
    using marking.loop_marks [OF fit, of E "vin tx"] by blast
  have sp1: "spent_at W1 c = (spent_at W c \<or> c \<in> input_coin ` set (vin tx) \<and> own_at E W c)" for c using sp0 [of c] by auto
  show ?thesis
  proof (cases fBlock)
    case False
    then show ?thesis using W1 sp1 by (simp add: WalletUpdateSpent_def block_outputs_def)
  next
    case True
    with there marks_only_lookup(2) [OF W1(2)] obtain w w0 where w: "mapWallet W1 ?h = Some w" "wtx_core w = wtx_core w0" "vout w0 = vout tx" by blast
    have v: "vout w = vout tx" using core_eq [OF w(2)] w(3) by simp
    have "length (vfSpent w) \<le> length (vout w)" using W1(3) w(1) by (simp add: marks_fit_def)
    from unmark_outputs_ok [OF this, of 0 "vout tx" E W1] v obtain w' where w': "unmark_outputs E W1 (vout tx) 0 w = Some w'"
      "wtx_core w' = wtx_core w" "length (vfSpent w') \<le> length (vout w')"
      and sp2: "\<And>k. IsSpent w' k = (IsSpent w k \<and> \<not> (k < length (vout tx) \<and> wallet_IsMine E W1 (vout tx ! k)))" by auto
    let ?W = "put_wtx ?h w' W1"
    have r: "WalletUpdateSpent E tx fBlock W = Some ?W" using True W1(1) w(1) w'(1) by (simp add: WalletUpdateSpent_def Let_def)
    have m: "marks_only W1 ?W" using w(1) w'(2) by (simp add: marks_only_def put_wtx_def)
    have f: "marks_fit ?W" using W1(3) w'(3) by (simp add: marks_fit_def put_wtx_def)
    have "spent_at ?W c = (spent_at W1 c \<and> c \<notin> block_outputs E fBlock ?h W1)" for c
      using True w(1) sp2 [of "snd c"] v by (cases c) (auto simp: spent_at_def put_wtx_def block_outputs_def own_at_def)
    moreover have "block_outputs E fBlock ?h W1 = block_outputs E fBlock ?h W" using marks_only_own [OF W1(2)] by (simp add: block_outputs_def)
    ultimately show ?thesis unfolding r using marks_only_trans [OF W1(2) m] f sp1 by simp
  qed
qed

lemma merge_core:
  assumes "merge_wtx wtxIn w = (u, w')"
  shows "tx_of w' = tx_of w" and "vout w' = vout w" and "length (vfSpent w') = length (vfSpent w)"
    and "IsSpent w' k = (IsSpent w k \<or> k < length (vfSpent w) \<and> IsSpent wtxIn k)"
proof -
  define w3 where "w3 = w\<lparr>mtx_hashBlock := mtx_hashBlock w', vMerkleBranch := vMerkleBranch w', mtx_nIndex := mtx_nIndex w', fFromMe := fFromMe w'\<rparr>"
  have w': "w' = w3\<lparr>vfSpent := map (\<lambda>i. vfSpent w ! i \<or> i < min (length (vfSpent wtxIn)) (length (vfSpent w)) \<and> vfSpent wtxIn ! i) [0..<length (vfSpent w)]\<rparr>"
    using assms unfolding merge_wtx_def UpdateSpent_def Let_def w3_def by (auto split: if_splits)
  have w3: "tx_of w3 = tx_of w" "vout w3 = vout w" "vfSpent w3 = vfSpent w" by (simp_all add: w3_def CTransaction.defs)
  show "tx_of w' = tx_of w" "vout w' = vout w" "length (vfSpent w') = length (vfSpent w)" using w3 by (simp_all add: w' CTransaction.defs)
  show "IsSpent w' k = (IsSpent w k \<or> k < length (vfSpent w) \<and> IsSpent wtxIn k)" by (auto simp: w' IsSpent_def)
qed

text \<open>The transaction the wallet then has.\<close>

definition stored_wtx :: "env \<Rightarrow> CWalletTx \<Rightarrow> CWallet \<Rightarrow> CWalletTx" where
  "stored_wtx E wtxIn W = (case mapWallet W (GetHash E (tx_of wtxIn)) of None \<Rightarrow> wtxIn | Some w \<Rightarrow> snd (merge_wtx wtxIn w))"

lemma stored_ok:
  assumes "wallet_ok E W" and "length (vfSpent wtxIn) \<le> length (vout wtxIn)"
  shows "GetHash E (tx_of (stored_wtx E wtxIn W)) = GetHash E (tx_of wtxIn)" and "wallet_ok E (put_wtx (GetHash E (tx_of wtxIn)) (stored_wtx E wtxIn W) W)"
proof -
  let ?h = "GetHash E (tx_of wtxIn)" and ?w = "stored_wtx E wtxIn W"
  have "GetHash E (tx_of ?w) = ?h \<and> length (vfSpent ?w) \<le> length (vout ?w)"
  proof (cases "mapWallet W ?h")
    case None
    then show ?thesis using assms(2) by (simp add: stored_wtx_def)
  next
    case (Some w)
    obtain u w' where m: "merge_wtx wtxIn w = (u, w')" by (cases "merge_wtx wtxIn w")
    show ?thesis using merge_core(1-3) [OF m] assms(1) Some m by (simp add: stored_wtx_def wallet_ok_def marks_fit_def)
  qed
  with assms(1) show "GetHash E (tx_of ?w) = ?h" "wallet_ok E (put_wtx ?h ?w W)" by (auto simp: wallet_ok_def marks_fit_def put_wtx_def)
qed

lemma vout_tx_of [simp]: "vout (tx_of t) = vout t" "vin (tx_of t) = vin t"
  by (simp_all add: CTransaction.defs)

lemma AddToWallet_ok:
  assumes "wallet_ok E W" and "length (vfSpent wtxIn) \<le> length (vout wtxIn)"
  defines "h \<equiv> GetHash E (tx_of wtxIn)" and "wtx \<equiv> stored_wtx E wtxIn W"
  obtains b W' where "AddToWallet E disk_ok wtxIn W = Some (b, W')" and "marks_only (put_wtx h wtx W) W'" and "wallet_ok E W'" and "disk_ok \<Longrightarrow> b"
    and "\<And>c. b \<Longrightarrow> spent_at W' c = ((spent_at (put_wtx h wtx W) c \<or> c \<in> input_coin ` set (vin wtx) \<and> own_at E (put_wtx h wtx W) c) \<and>
      c \<notin> block_outputs E (mtx_hashBlock wtxIn \<noteq> 0) h (put_wtx h wtx W))"
proof -
  let ?W = "put_wtx h wtx W"
  define changed where "changed = (case mapWallet W h of None \<Rightarrow> True | Some w \<Rightarrow> fst (merge_wtx wtxIn w))"
  have r: "AddToWallet E disk_ok wtxIn W =
      (if changed \<and> \<not> disk_ok then Some (False, ?W) else map_option (Pair True) (WalletUpdateSpent E (tx_of wtx) (mtx_hashBlock wtxIn \<noteq> 0) ?W))"
    by (cases "mapWallet W h") (simp_all add: AddToWallet_def Let_def h_def wtx_def stored_wtx_def changed_def case_prod_beta)
  note st = stored_ok [OF assms(1,2), folded h_def wtx_def]
  have fit: "marks_fit ?W" using st(2) by (simp add: wallet_ok_def)
  have "\<exists>w. mapWallet ?W (GetHash E (tx_of wtx)) = Some w \<and> vout w = vout (tx_of wtx)" using st(1) by (simp add: put_wtx_def)
  then obtain W' where W': "WalletUpdateSpent E (tx_of wtx) (mtx_hashBlock wtxIn \<noteq> 0) ?W = Some W'" "marks_only ?W W'" "marks_fit W'"
    and sp: "\<And>c. spent_at W' c = ((spent_at ?W c \<or> c \<in> input_coin ` set (vin wtx) \<and> own_at E ?W c) \<and>
      c \<notin> block_outputs E (mtx_hashBlock wtxIn \<noteq> 0) h ?W)"
    using WalletUpdateSpent_ok [OF fit, of "mtx_hashBlock wtxIn \<noteq> 0" E "tx_of wtx"] st(1) by auto
  show thesis
  proof (cases "changed \<and> \<not> disk_ok")
    case True
    with that [of False ?W] r st(2) show thesis by simp
  next
    case False
    then have "AddToWallet E disk_ok wtxIn W = Some (True, W')" using r W'(1) by simp
    from that [OF this W'(2) marks_only_ok [OF st(2) W'(2,3)]] sp show thesis by blast
  qed
qed

lemma AddToWallet_written:
  assumes "wallet_ok E W" and "length (vfSpent wtxIn) \<le> length (vout wtxIn)" and "GetHash E (tx_of wtxIn) = h" and "stored_wtx E wtxIn W = wtx"
  obtains W' where "AddToWallet E True wtxIn W = Some (True, W')" and "marks_only (put_wtx h wtx W) W'" and "wallet_ok E W'"
    and "\<And>c. spent_at W' c = ((spent_at (put_wtx h wtx W) c \<or> c \<in> input_coin ` set (vin wtx) \<and> own_at E (put_wtx h wtx W) c) \<and>
      c \<notin> block_outputs E (mtx_hashBlock wtxIn \<noteq> 0) h (put_wtx h wtx W))"
proof -
  obtain b W' where W': "AddToWallet E True wtxIn W = Some (b, W')" "marks_only (put_wtx h wtx W) W'" "wallet_ok E W'" "b"
    and sp: "\<And>c. b \<Longrightarrow> spent_at W' c = ((spent_at (put_wtx h wtx W) c \<or> c \<in> input_coin ` set (vin wtx) \<and> own_at E (put_wtx h wtx W) c) \<and>
      c \<notin> block_outputs E (mtx_hashBlock wtxIn \<noteq> 0) h (put_wtx h wtx W))"
    by (rule AddToWallet_ok [OF assms(1,2), where disk_ok = True, unfolded assms(3,4)]) blast
  from W' sp that show thesis by simp
qed

text \<open>C37: Sending a transaction the wallet does not have yet marks its inputs as spent and nothing else: an output of another wallet transaction is
  marked afterwards exactly when it was before or the transaction spends it.
\<close>

theorem commit_spends_exactly:
  assumes "wallet_ok E W" and "mapWallet W (GetHash E (tx_of wtxNew)) = None" and "length (vfSpent wtxNew) \<le> length (vout wtxNew)"
    and "commit_wallet E True wtxNew W = Some W'" and "mapWallet W h \<noteq> None"
  shows "wallet_ok E W' \<and> spent_at W' (h, n) = (spent_at W (h, n) \<or> (h, n) \<in> input_coin ` set (vin wtxNew))"
proof -
  let ?h = "GetHash E (tx_of wtxNew)" let ?W = "put_wtx ?h wtxNew W"
  have st: "stored_wtx E wtxNew W = wtxNew" by (simp add: stored_wtx_def assms(2))
  obtain W1 where W1: "AddToWallet E True wtxNew W = Some (True, W1)" "marks_only ?W W1" "wallet_ok E W1"
    and sp: "\<And>c. spent_at W1 c = ((spent_at ?W c \<or> c \<in> input_coin ` set (vin wtxNew) \<and> own_at E ?W c) \<and>
      c \<notin> block_outputs E (mtx_hashBlock wtxNew \<noteq> 0) ?h ?W)"
    by (rule AddToWallet_written [OF assms(1,3) refl st]) blast
  have "spend_coins (vin wtxNew) W1 = Some W'" using assms(4) W1(1) by (simp add: commit_wallet_def)
  moreover have "marks_fit W1" using W1(3) by (simp add: wallet_ok_def)
  ultimately have s: "marks_only W1 W' \<and> marks_fit W' \<and> (\<forall>c. spent_at W' c = (spent_at W1 c \<or> c \<in> input_coin ` set (vin wtxNew)))"
    using spend_coins_ok by blast
  have "h \<noteq> ?h" using assms(2,5) by auto
  then have "spent_at ?W (h, n) = spent_at W (h, n)" "(h, n) \<notin> block_outputs E (mtx_hashBlock wtxNew \<noteq> 0) ?h ?W"
    by (simp_all add: spent_at_def put_wtx_def block_outputs_def)
  with s sp [of "(h, n)"] marks_only_ok [OF W1(3)] show ?thesis by auto
qed

text \<open>C40: A transaction that is found in a block gets all its outputs of ours marked as unspent, also those that another transaction of the wallet
  spends, which stays in the wallet.
\<close>

theorem confirmed_tx_unspends:
  assumes "wallet_ok E W" and "mapWallet W h \<noteq> None" and "h = GetHash E tx" and "CBlock_GetHash E b \<noteq> 0"
    and "mapWallet W hc = Some child" and "hc \<noteq> h" and "(h, n) \<in> input_coin ` set (vin child)" and "own_at E W (h, n)"
  shows "\<exists>W' child'. AddToWalletIfInvolvingMe E G True tx (Some b) True W = Some (True, W') \<and> mapWallet W' hc = Some child' \<and>
    (h, n) \<in> input_coin ` set (vin child') \<and> own_at E W' (h, n) \<and> \<not> spent_at W' (h, n)"
proof -
  define wtxIn where "wtxIn = SetMerkleBranch E b (CWalletTx_new tx)"
  have t: "tx_of wtxIn = tx" "mtx_hashBlock wtxIn = CBlock_GetHash E b" "vfSpent wtxIn = []"
    by (auto simp: wtxIn_def SetMerkleBranch_def CWalletTx_new_def CMerkleTx_new_def CTransaction.defs CMerkleTx.defs Let_def split: option.split)
  let ?W = "put_wtx h (stored_wtx E wtxIn W) W"
  have h: "GetHash E (tx_of wtxIn) = h" using t(1) assms(3) by simp
  obtain w where w: "mapWallet W h = Some w" using assms(2) by auto
  have l: "length (vfSpent wtxIn) \<le> length (vout wtxIn)" using t(3) by simp
  obtain W' where W': "AddToWallet E True wtxIn W = Some (True, W')" "marks_only ?W W'" "wallet_ok E W'"
    and sp: "\<And>c. spent_at W' c = ((spent_at ?W c \<or> c \<in> input_coin ` set (vin (stored_wtx E wtxIn W)) \<and> own_at E ?W c) \<and>
      c \<notin> block_outputs E (mtx_hashBlock wtxIn \<noteq> 0) h ?W)"
    by (rule AddToWallet_written [OF assms(1) l h refl]) blast
  have v: "vout (stored_wtx E wtxIn W) = vout w"
    using merge_core(2) [of wtxIn w "fst (merge_wtx wtxIn w)" "snd (merge_wtx wtxIn w)"] w h by (simp add: stored_wtx_def)
  have own: "own_at E ?W (h, n)" using assms(8) w v by (simp add: own_at_def put_wtx_def wallet_IsMine_def)
  have "mapWallet ?W hc = Some child" using assms(5,6) by (simp add: put_wtx_def)
  from marks_only_lookup(2) [OF W'(2) this] obtain c' where c': "mapWallet W' hc = Some c'" "vin c' = vin child" using core_eq by blast
  have "AddToWalletIfInvolvingMe E G True tx (Some b) True W = Some (True, W')"
    using W'(1) assms(2,3) by (simp add: AddToWalletIfInvolvingMe_def Let_def wtxIn_def)
  moreover have "own_at E W' (h, n)" using own marks_only_own [OF W'(2)] by simp
  moreover have "\<not> spent_at W' (h, n)" using sp [of "(h, n)"] own t(2) assms(4) by (simp add: block_outputs_def)
  ultimately show ?thesis using c' assms(7) by auto
qed

section \<open>Repairing the marks\<close>

lemma fix_output_marks:
  assumes "n < length (vout w)"
  shows "snd (snd (fix_output E W txindex fCheckOnly n (k, b, w))) =
    (if \<not> fCheckOnly \<and> wallet_IsMine E W (vout w ! n) \<and> IsSpent w n = index_unspent txindex n
     then w\<lparr>vfSpent := (resize_marks (length (vout w)) (vfSpent w))[n := \<not> index_unspent txindex n]\<rparr> else w)"
  using assms by (simp add: fix_output_def MarkSpent_def MarkUnspent_def)

lemma fix_outputs_ok:
  assumes "length (vfSpent w) \<le> length (vout w)" and "set ns \<subseteq> {..<length (vout w)}"
  shows "\<exists>k' b' w'. fold (fix_output E W txindex fCheckOnly) ns (k, b, w) = (k', b', w') \<and> wtx_core w' = wtx_core w \<and> length (vfSpent w') \<le> length (vout w') \<and>
    (\<forall>n. IsSpent w' n = (if \<not> fCheckOnly \<and> n \<in> set ns \<and> wallet_IsMine E W (vout w ! n) then \<not> index_unspent txindex n else IsSpent w n))"
  using assms
proof (induction ns arbitrary: k b w)
  case (Cons n ns)
  obtain k1 b1 w1 where s: "fix_output E W txindex fCheckOnly n (k, b, w) = (k1, b1, w1)" by (metis prod_cases3)
  have n: "n < length (vout w)" using Cons.prems(2) by simp
  let ?P = "\<not> fCheckOnly \<and> wallet_IsMine E W (vout w ! n) \<and> IsSpent w n = index_unspent txindex n"
  have w1: "w1 = (if ?P then w\<lparr>vfSpent := (resize_marks (length (vout w)) (vfSpent w))[n := \<not> index_unspent txindex n]\<rparr> else w)"
    using fix_output_marks [OF n, of E W txindex fCheckOnly k b] by (simp only: s snd_conv)
  have c: "wtx_core w1 = wtx_core w" "vout w1 = vout w" "length (vfSpent w1) \<le> length (vout w1)"
    using Cons.prems(1) by (simp_all add: w1 resize_marks_def)
  have sp: "IsSpent w1 m = (if \<not> fCheckOnly \<and> m = n \<and> wallet_IsMine E W (vout w ! n) then \<not> index_unspent txindex n else IsSpent w m)" for m
  proof (cases ?P)
    case True
    then show ?thesis using IsSpent_mark [OF Cons.prems(1) n, of "\<not> index_unspent txindex n" m] by (simp only: w1) simp
  next
    case False
    then show ?thesis by (simp only: w1) auto
  qed
  have "set ns \<subseteq> {..<length (vout w1)}" using Cons.prems(2) c(2) by simp
  from Cons.IH [OF c(3) this, of k1 b1] obtain k' b' w' where IH: "fold (fix_output E W txindex fCheckOnly) ns (k1, b1, w1) = (k', b', w')"
    "wtx_core w' = wtx_core w1" "length (vfSpent w') \<le> length (vout w')"
    and sp': "\<And>m. IsSpent w' m = (if \<not> fCheckOnly \<and> m \<in> set ns \<and> wallet_IsMine E W (vout w1 ! m) then \<not> index_unspent txindex m else IsSpent w1 m)"
    by blast
  have "IsSpent w' m = (if \<not> fCheckOnly \<and> m \<in> set (n # ns) \<and> wallet_IsMine E W (vout w ! m) then \<not> index_unspent txindex m else IsSpent w m)" for m
    using sp' [of m] sp [of m] c(2) by auto
  then show ?case using s IH c(1) by simp
qed simp

definition in_index :: "CTxDB \<Rightarrow> u256 \<Rightarrow> bool" where
  "in_index db h \<longleftrightarrow> ReadTxIndex db h \<noteq> None"

lemma fix_wtx_ok:
  assumes ok: "wallet_ok E W" and "h \<in> dom (mapWallet W)"
  shows "\<exists>k' b' W'. fix_wtx E db fCheckOnly h (k, b, W) = (k', b', W') \<and> marks_only W W' \<and> wallet_ok E W' \<and>
    (\<forall>c. spent_at W' c = (if \<not> fCheckOnly \<and> fst c = h \<and> in_index db h \<and> own_at E W c then \<not> index_unspent (the (ReadTxIndex db h)) (snd c) else spent_at W c))"
proof -
  obtain w where w: "mapWallet W h = Some w" using assms(2) by auto
  have g: "GetHash E (tx_of w) = h" and l: "length (vfSpent w) \<le> length (vout w)" using ok w by (auto simp: wallet_ok_def marks_fit_def)
  show ?thesis
  proof (cases "ReadTxIndex db h")
    case None
    then show ?thesis using w g ok by (simp add: fix_wtx_def in_index_def)
  next
    case (Some txindex)
    from fix_outputs_ok [OF l, of "[0..<length (vout w)]" E W txindex fCheckOnly k b]
    obtain k' b' w' where f: "fold (fix_output E W txindex fCheckOnly) [0..<length (vout w)] (k, b, w) = (k', b', w')"
      "wtx_core w' = wtx_core w" "length (vfSpent w') \<le> length (vout w')"
      and sp: "\<And>n. IsSpent w' n = (if \<not> fCheckOnly \<and> n < length (vout w) \<and> wallet_IsMine E W (vout w ! n) then \<not> index_unspent txindex n else IsSpent w n)"
      by (auto simp: atLeast0LessThan)
    have r: "fix_wtx E db fCheckOnly h (k, b, W) = (k', b', put_wtx h w' W)" using w g Some f(1) by (simp add: fix_wtx_def)
    have m: "marks_only W (put_wtx h w' W)" using w f(2) by (simp add: marks_only_def put_wtx_def)
    have "marks_fit (put_wtx h w' W)" using ok f(3) by (simp add: wallet_ok_def marks_fit_def put_wtx_def)
    note o = marks_only_ok [OF ok m this]
    have "spent_at (put_wtx h w' W) c =
      (if \<not> fCheckOnly \<and> fst c = h \<and> in_index db h \<and> own_at E W c then \<not> index_unspent (the (ReadTxIndex db h)) (snd c) else spent_at W c)" for c
      using sp [of "snd c"] w Some by (cases c) (auto simp: spent_at_def put_wtx_def own_at_def in_index_def)
    with r m o show ?thesis by simp
  qed
qed

lemma fix_wtxs_ok:
  assumes "wallet_ok E W" and "set hs \<subseteq> dom (mapWallet W)"
  shows "\<exists>k' b' W'. fold (fix_wtx E db fCheckOnly) hs (k, b, W) = (k', b', W') \<and> marks_only W W' \<and> wallet_ok E W' \<and>
    (\<forall>c. spent_at W' c = (if \<not> fCheckOnly \<and> fst c \<in> set hs \<and> in_index db (fst c) \<and> own_at E W c
       then \<not> index_unspent (the (ReadTxIndex db (fst c))) (snd c) else spent_at W c))"
  using assms
proof (induction hs arbitrary: k b W)
  case (Cons h hs)
  from fix_wtx_ok [OF Cons.prems(1), of h db fCheckOnly k b] Cons.prems(2)
  obtain k1 b1 W1 where s: "fix_wtx E db fCheckOnly h (k, b, W) = (k1, b1, W1)" "marks_only W W1" "wallet_ok E W1"
    and sp: "\<And>c. spent_at W1 c = (if \<not> fCheckOnly \<and> fst c = h \<and> in_index db h \<and> own_at E W c then \<not> index_unspent (the (ReadTxIndex db h)) (snd c) else spent_at W c)"
    by auto
  have "set hs \<subseteq> dom (mapWallet W1)" using Cons.prems(2) marks_only_dom [OF s(2)] by simp
  from Cons.IH [OF s(3) this, of k1 b1] obtain k' b' W' where IH: "fold (fix_wtx E db fCheckOnly) hs (k1, b1, W1) = (k', b', W')"
    "marks_only W1 W'" "wallet_ok E W'"
    and sp': "\<And>c. spent_at W' c = (if \<not> fCheckOnly \<and> fst c \<in> set hs \<and> in_index db (fst c) \<and> own_at E W1 c
       then \<not> index_unspent (the (ReadTxIndex db (fst c))) (snd c) else spent_at W1 c)" by blast
  have "spent_at W' c = (if \<not> fCheckOnly \<and> fst c \<in> set (h # hs) \<and> in_index db (fst c) \<and> own_at E W c
       then \<not> index_unspent (the (ReadTxIndex db (fst c))) (snd c) else spent_at W c)" for c
    using sp' [of c] sp [of c] marks_only_own [OF s(2), of E c] by auto
  then show ?case using s(1) IH(1,3) marks_only_trans [OF s(2) IH(2)] by simp
qed simp

text \<open>C39: After the repair, the marks of our outputs of indexed transactions are those of the transaction index; nothing else of the wallet has changed. A run
  that only checks changes nothing.
\<close>

theorem FixSpentCoins_repairs:
  assumes "wallet_ok E W" and "FixSpentCoins E db fCheckOnly W = (nMismatchFound, nBalanceInQuestion, W')"
  shows "marks_only W W' \<and> spent_at W' c =
    (if \<not> fCheckOnly \<and> in_index db (fst c) \<and> own_at E W c then \<not> index_unspent (the (ReadTxIndex db (fst c))) (snd c) else spent_at W c)"
proof -
  have fin: "finite (dom (mapWallet W))" using assms(1) by (simp add: wallet_ok_def)
  have "own_at E W c \<Longrightarrow> fst c \<in> dom (mapWallet W)" by (auto simp: own_at_def)
  moreover from fix_wtxs_ok [OF assms(1), of "sorted_list_of_set (dom (mapWallet W))" db fCheckOnly 0 0] fin
  obtain k b W1 where W1: "FixSpentCoins E db fCheckOnly W = (k, b, W1)" "marks_only W W1"
    and sp: "\<And>c. spent_at W1 c = (if \<not> fCheckOnly \<and> fst c \<in> dom (mapWallet W) \<and> in_index db (fst c) \<and> own_at E W c
       then \<not> index_unspent (the (ReadTxIndex db (fst c))) (snd c) else spent_at W c)" unfolding FixSpentCoins_def by auto
  moreover have "W1 = W'" using W1(1) assms(2) by simp
  ultimately show ?thesis using sp [of c] by auto
qed

section \<open>Runs of the wallet\<close>

text \<open>
  What happens to a wallet: a transaction of the memory pool or of a block is considered, one of our own is sent, a transaction
  is erased, a coin stake is disconnected, the marks are repaired.
\<close>

inductive wallet_step :: "env \<Rightarrow> CWallet \<Rightarrow> CWallet \<Rightarrow> bool" for E where
  considered: "AddToWalletIfInvolvingMe E G disk_ok tx pblock fUpdate W = Some (b, W') \<Longrightarrow> wallet_step E W W'"
| sent: "commit_wallet E disk_ok wtxNew W = Some W' \<Longrightarrow> length (vfSpent wtxNew) \<le> length (vout wtxNew) \<Longrightarrow> wallet_step E W W'"
| erased: "wallet_step E W (EraseFromWallet h W)"
| disconnected: "DisableTransaction E tx W = Some W' \<Longrightarrow> wallet_step E W W'"
| repaired: "FixSpentCoins E db fCheckOnly W = (k, v, W') \<Longrightarrow> wallet_step E W W'"

inductive_cases wallet_stepE: "wallet_step E W W'"

lemma AddToWallet_keeps:
  assumes "wallet_ok E W" and "length (vfSpent wtxIn) \<le> length (vout wtxIn)"
  shows "\<exists>b W'. AddToWallet E disk_ok wtxIn W = Some (b, W') \<and> wallet_ok E W' \<and> w_keys W' = w_keys W"
proof -
  obtain b W' where "AddToWallet E disk_ok wtxIn W = Some (b, W')" and "wallet_ok E W'"
    and "marks_only (put_wtx (GetHash E (tx_of wtxIn)) (stored_wtx E wtxIn W) W) W'" by (rule AddToWallet_ok [OF assms]) blast
  then show ?thesis by (simp add: marks_only_def put_wtx_def)
qed

lemma considered_keeps:
  assumes "wallet_ok E W" and "AddToWalletIfInvolvingMe E G disk_ok tx pblock fUpdate W = Some (b, W')"
  shows "wallet_ok E W' \<and> w_keys W' = w_keys W"
proof -
  define wtxIn where "wtxIn = (case pblock of None \<Rightarrow> CWalletTx_new tx | Some b \<Rightarrow> SetMerkleBranch E b (CWalletTx_new tx))"
  have l: "length (vfSpent wtxIn) \<le> length (vout wtxIn)"
    by (auto simp: wtxIn_def SetMerkleBranch_def CWalletTx_new_def CMerkleTx.defs Let_def split: option.split)
  have fit: "marks_fit W" using assms(1) by (simp add: wallet_ok_def)
  from assms(2) consider "W' = W" | "AddToWallet E disk_ok wtxIn W = Some (b, W')" | "WalletUpdateSpent E tx False W = Some W'"
    by (auto simp: AddToWalletIfInvolvingMe_def Let_def wtxIn_def split: if_splits option.splits bool.splits)
  then show ?thesis
  proof cases
    case 2
    with AddToWallet_keeps [OF assms(1) l, of disk_ok] show ?thesis by simp
  next
    case 3
    with WalletUpdateSpent_ok [OF fit, of False E tx] have "marks_only W W'" "marks_fit W'" by auto
    with marks_only_ok [OF assms(1)] show ?thesis by (simp add: marks_only_def)
  qed (simp add: assms(1))
qed

lemma sent_keeps:
  assumes "wallet_ok E W" and "commit_wallet E disk_ok wtxNew W = Some W'" and "length (vfSpent wtxNew) \<le> length (vout wtxNew)"
  shows "wallet_ok E W' \<and> w_keys W' = w_keys W"
proof -
  obtain b W1 where W1: "AddToWallet E disk_ok wtxNew W = Some (b, W1)" "wallet_ok E W1" "w_keys W1 = w_keys W"
    using AddToWallet_keeps [OF assms(1,3)] by blast
  then have s: "spend_coins (vin wtxNew) W1 = Some W'" and "marks_fit W1" using assms(2) by (simp_all add: commit_wallet_def wallet_ok_def)
  with spend_coins_ok have "marks_only W1 W'" "marks_fit W'" by blast+
  with marks_only_ok [OF W1(2)] W1(3) show ?thesis by (simp add: marks_only_def)
qed

lemma disconnected_keeps:
  assumes "wallet_ok E W" and "DisableTransaction E tx W = Some W'"
  shows "wallet_ok E W' \<and> w_keys W' = w_keys W"
proof -
  have fit: "marks_fit W" using assms(1) by (simp add: wallet_ok_def)
  have "W' = W \<or> unmark_inputs E (vin tx) W = Some W'"
  proof (cases "tx_IsFromMe E W tx")
    case None
    then show ?thesis using assms(2) by (cases "IsCoinStake tx") (simp_all add: DisableTransaction_def)
  next
    case (Some mine)
    then show ?thesis using assms(2) by (cases "IsCoinStake tx"; cases mine) (simp_all add: DisableTransaction_def)
  qed
  then show ?thesis
  proof
    assume "unmark_inputs E (vin tx) W = Some W'"
    with unmarking.loop_marks [OF fit, of E "vin tx"] have "marks_only W W'" "marks_fit W'" by simp_all
    with marks_only_ok [OF assms(1)] show ?thesis by (simp add: marks_only_def)
  qed (simp add: assms(1))
qed

lemma repaired_keeps:
  assumes "wallet_ok E W" and "FixSpentCoins E db fCheckOnly W = (k, v, W')"
  shows "wallet_ok E W' \<and> w_keys W' = w_keys W"
proof -
  have fin: "finite (dom (mapWallet W))" using assms(1) by (simp add: wallet_ok_def)
  obtain k1 b1 W1 where "fold (fix_wtx E db fCheckOnly) (sorted_list_of_set (dom (mapWallet W))) (0, 0, W) = (k1, b1, W1)" "marks_only W W1" "wallet_ok E W1"
    using fix_wtxs_ok [OF assms(1), of "sorted_list_of_set (dom (mapWallet W))" db fCheckOnly 0 0] fin by auto
  with assms(2) show ?thesis by (simp add: FixSpentCoins_def marks_only_def)
qed

lemma wallet_step_keeps:
  assumes "wallet_step E W W'" and "wallet_ok E W"
  shows "wallet_ok E W' \<and> w_keys W' = w_keys W"
  using assms(1)
proof (cases rule: wallet_step.cases)
  case considered
  then show ?thesis by (rule considered_keeps [OF assms(2)])
next
  case sent
  then show ?thesis by (rule sent_keeps [OF assms(2)])
next
  case disconnected
  then show ?thesis by (rule disconnected_keeps [OF assms(2)])
next
  case repaired
  then show ?thesis by (rule repaired_keeps [OF assms(2)])
next
  case (erased h)
  have "dom ((mapWallet W)(h := None)) \<subseteq> dom (mapWallet W)" by auto
  then have "finite (dom ((mapWallet W)(h := None)))" using assms(2) finite_subset unfolding wallet_ok_def by blast
  then show ?thesis using erased assms(2) by (auto simp: wallet_ok_def marks_fit_def EraseFromWallet_def)
qed

text \<open>C38: In every run of the wallet each transaction stays stored under its own hash with at most one mark for each of
  its outputs.\<close>

theorem wallet_runs_typed:
  assumes "(wallet_step E)\<^sup>*\<^sup>* W W'" and "wallet_ok E W"
  shows "wallet_ok E W'"
  using assms by (induction rule: rtranclp_induct) (auto dest: wallet_step_keeps)

section \<open>The coins that may be spent\<close>

lemma those_map: "those (map f xs) = Some ys \<Longrightarrow> ys = map (\<lambda>x. the (f x)) xs \<and> (\<forall>x \<in> set xs. f x \<noteq> None)"
proof (induction xs arbitrary: ys)
  case (Cons x xs)
  then obtain y zs where "f x = Some y" "those (map f xs) = Some zs" "ys = y # zs" by (auto split: option.splits)
  with Cons.IH [of zs] show ?case by auto
qed simp

lemma AvailableCoins_concat:
  assumes "AvailableCoins E S G W f c = Some vCoins"
  shows "vCoins = concat (map (\<lambda>h. the (tx_coins E S G W f c h (the (mapWallet W h)))) (sorted_list_of_set (dom (mapWallet W))))"
    and "finite (dom (mapWallet W)) \<Longrightarrow> h \<in> dom (mapWallet W) \<Longrightarrow> tx_coins E S G W f c h (the (mapWallet W h)) \<noteq> None"
proof -
  obtain ys where y: "those (map (\<lambda>h. tx_coins E S G W f c h (the (mapWallet W h))) (sorted_list_of_set (dom (mapWallet W)))) = Some ys"
    "vCoins = concat ys" using assms by (auto simp: AvailableCoins_def)
  note t = those_map [OF y(1)]
  show "vCoins = concat (map (\<lambda>h. the (tx_coins E S G W f c h (the (mapWallet W h)))) (sorted_list_of_set (dom (mapWallet W))))"
    using t y(2) by simp
  show "tx_coins E S G W f c h (the (mapWallet W h)) \<noteq> None" if "finite (dom (mapWallet W))" "h \<in> dom (mapWallet W)"
    using t that by simp
qed

lemma own_outputs_ok:
  "distinct (map (\<lambda>out. (out_tx out, out_i out)) (own_outputs E G W c h w d))"
  "out \<in> set (own_outputs E G W c h w d) \<Longrightarrow> out_tx out = h \<and> out_i out < length (vout w) \<and> \<not> IsSpent w (out_i out) \<and> wallet_IsMine E W (vout w ! out_i out)
     \<and> coin_allowed c h (out_i out) \<and> nMinimumInputValue G \<le> nValue (vout w ! out_i out)"
  by (auto simp: own_outputs_def comp_def distinct_map inj_on_def)

lemma tx_coins_ok:
  assumes "tx_coins E S G W f c h w = Some cs"
  shows "cs = [] \<or> cs = own_outputs E G W c h w (GetDepthInMainChain E S w)"
  using assms by (auto simp: tx_coins_def split: if_splits option.splits)

lemma distinct_concat_keys:
  assumes "distinct hs" and "\<And>h. h \<in> set hs \<Longrightarrow> distinct (map f (g h))" and "\<And>h x. h \<in> set hs \<Longrightarrow> x \<in> set (g h) \<Longrightarrow> fst (f x) = h"
  shows "distinct (map f (concat (map g hs)))"
  using assms
proof (induction hs)
  case (Cons h hs)
  have "f ` set (g h) \<inter> f ` (\<Union>k \<in> set hs. set (g k)) = {}" using Cons.prems by (auto simp: disjoint_iff) (metis list.set_intros)
  with Cons show ?case by auto
qed simp

text \<open>The coins on offer are outputs of ours that are not marked as spent, each offered once.\<close>

lemma AvailableCoins_ok:
  assumes "finite (dom (mapWallet W))" and "AvailableCoins E S G W f c = Some vCoins"
  shows "distinct (map (\<lambda>out. (out_tx out, out_i out)) vCoins)"
    and "out \<in> set vCoins \<Longrightarrow> own_at E W (out_tx out, out_i out) \<and> \<not> spent_at W (out_tx out, out_i out) \<and> coin_allowed c (out_tx out) (out_i out) \<and>
      out_i out < length (vout (the (mapWallet W (out_tx out))))"
proof -
  let ?g = "\<lambda>h. the (tx_coins E S G W f c h (the (mapWallet W h)))" and ?hs = "sorted_list_of_set (dom (mapWallet W))"
  have hs: "set ?hs = dom (mapWallet W)" "distinct ?hs" using assms(1) by simp_all
  note v = AvailableCoins_concat [OF assms(2)]
  have g: "?g h = [] \<or> ?g h = own_outputs E G W c h (the (mapWallet W h)) (GetDepthInMainChain E S (the (mapWallet W h)))" if "h \<in> dom (mapWallet W)" for h
    using v(2) [OF assms(1) that] tx_coins_ok by fastforce
  have m: "out_tx out = h \<and> out_i out < length (vout (the (mapWallet W h))) \<and> \<not> IsSpent (the (mapWallet W h)) (out_i out) \<and>
      wallet_IsMine E W (vout (the (mapWallet W h)) ! out_i out) \<and> coin_allowed c h (out_i out)" if "h \<in> dom (mapWallet W)" "out \<in> set (?g h)" for h out
    using g [OF that(1)] that(2) own_outputs_ok(2) by fastforce
  show "distinct (map (\<lambda>out. (out_tx out, out_i out)) vCoins)" unfolding v(1)
  proof (rule distinct_concat_keys [OF hs(2)])
    show "distinct (map (\<lambda>out. (out_tx out, out_i out)) (?g h))" if "h \<in> set ?hs" for h
    proof -
      have "h \<in> dom (mapWallet W)" using that by (simp only: hs(1))
      from g [OF this] own_outputs_ok(1) show ?thesis by (elim disjE) (simp_all only: list.map distinct.simps)
    qed
    show "fst (out_tx x, out_i x) = h" if "h \<in> set ?hs" "x \<in> set (?g h)" for h x using m that unfolding hs(1) by simp
  qed
  assume "out \<in> set vCoins"
  then obtain h where "h \<in> dom (mapWallet W)" "out \<in> set (?g h)" using v(1) hs(1) by auto
  with m [OF this] show "own_at E W (out_tx out, out_i out) \<and> \<not> spent_at W (out_tx out, out_i out) \<and> coin_allowed c (out_tx out) (out_i out) \<and>
      out_i out < length (vout (the (mapWallet W (out_tx out))))"
    by (auto simp: own_at_def spent_at_def)
qed

section \<open>The balance\<close>

definition out_value :: "CWallet \<Rightarrow> COutput \<Rightarrow> int" where
  "out_value W out = nValue (vout (the (mapWallet W (out_tx out))) ! out_i out)"

lemma wrap64_add_left: "wrap64 (wrap64 a + b) = wrap64 (a + b)"
proof -
  have "(wrap64 a + b + 2 ^ 63) mod 2 ^ 64 = ((a + 2 ^ 63) mod 2 ^ 64 + b) mod 2 ^ 64" by (simp add: wrap64_def)
  also have "\<dots> = (a + 2 ^ 63 + b) mod 2 ^ 64" by (rule mod_add_left_eq)
  also have "a + 2 ^ 63 + b = a + b + 2 ^ 63" by simp
  finally show ?thesis by (simp add: wrap64_def)
qed

lemma credit_loop_sum:
  "credit_loop E W acc ts = Some v \<Longrightarrow> MoneyRange acc \<Longrightarrow>
   v = acc + (\<Sum>t \<leftarrow> ts. if wallet_IsMine E W t then nValue t else 0) \<and> (\<forall>t \<in> set ts. 0 \<le> nValue t)"
proof (induction ts arbitrary: acc)
  case (Cons t ts)
  let ?v = "if wallet_IsMine E W t then nValue t else 0"
  have m: "MoneyRange (nValue t)" and r: "MoneyRange (wrap64 (acc + ?v))" "credit_loop E W (wrap64 (acc + ?v)) ts = Some v"
    using Cons.prems(1) by (auto simp: txout_GetCredit_def Let_def split: if_splits)
  have "wrap64 (acc + ?v) = acc + ?v" using m Cons.prems(2) by (intro wrap64_id) (simp add: MoneyRange_def MAX_MONEY_small int64_range_def)
  with Cons.IH [OF r(2,1)] m show ?case by (simp add: MoneyRange_def)
qed simp

lemma IsTrusted_depth: "IsTrusted E S G W w = Some True \<Longrightarrow> IsFinal (ns_params S) 0 0 (tx_of w) \<and> 0 \<le> GetDepthInMainChain E S w"
  by (auto simp: IsTrusted_def Let_def split: if_splits)

lemma trusted_credit_coins:
  assumes "trusted_credit E S G W w = Some v" and "mapWallet W h = Some w"
  shows "\<exists>cs. tx_coins E S (G\<lparr>nMinimumInputValue := 0\<rparr>) W True None h w = Some cs \<and> v = (\<Sum>out \<leftarrow> cs. out_value W out)"
proof -
  let ?G = "G\<lparr>nMinimumInputValue := 0\<rparr>"
  have G: "IsTrusted E S ?G W w = IsTrusted E S G W w" by (simp add: IsTrusted_def)
  obtain t where t: "IsTrusted E S G W w = Some t" using assms(1) by (auto simp: trusted_credit_def split: option.splits)
  show ?thesis
  proof (cases t)
    case False
    then show ?thesis using t G assms(1) by (simp add: trusted_credit_def tx_coins_def)
  next
    case True
    then have d: "IsFinal (ns_params S) 0 0 (tx_of w) \<and> 0 \<le> GetDepthInMainChain E S w" using t by (intro IsTrusted_depth) simp
    have a: "GetAvailableCredit E S W w = Some v" using assms(1) t True by (simp add: trusted_credit_def)
    show ?thesis
    proof (cases "(IsCoinBase (tx_of w) \<or> IsCoinStake (tx_of w)) \<and> GetBlocksToMaturity E S w > 0")
      case imm: True
      then show ?thesis using t True G d a by (simp add: GetAvailableCredit_def tx_coins_def)
    next
      case False
      let ?is = "filter (\<lambda>i. \<not> IsSpent w i) [0..<length (vout w)]"
      have "credit_loop E W 0 (map (\<lambda>i. vout w ! i) ?is) = Some v" using a by (simp only: GetAvailableCredit_def False if_False)
      from credit_loop_sum [OF this] have v: "v = (\<Sum>i \<leftarrow> ?is. if wallet_IsMine E W (vout w ! i) then nValue (vout w ! i) else 0)"
        and p: "\<forall>i \<in> set ?is. 0 \<le> nValue (vout w ! i)" by (simp_all add: MoneyRange_def MAX_MONEY_small comp_def)
      have "own_outputs E ?G W None h w d = map (\<lambda>i. \<lparr>out_tx = h, out_i = i, out_nDepth = d\<rparr>) (filter (\<lambda>i. wallet_IsMine E W (vout w ! i)) ?is)" for d
        using p by (auto simp: own_outputs_def coin_allowed_def HasSelected_def intro!: arg_cong [of _ _ "map _"] filter_cong)
      then have "(\<Sum>out \<leftarrow> own_outputs E ?G W None h w d. out_value W out) = (\<Sum>i \<leftarrow> filter (\<lambda>i. wallet_IsMine E W (vout w ! i)) ?is. nValue (vout w ! i))" for d
        using assms(2) by (simp add: comp_def out_value_def)
      also have "\<dots> = v" unfolding v by (rule sum_list_map_filter')
      finally have o: "(\<Sum>out \<leftarrow> own_outputs E ?G W None h w d. out_value W out) = v" for d .
      have "tx_coins E S ?G W True None h w = Some (own_outputs E ?G W None h w (GetDepthInMainChain E S w))"
        using d False G t True by (auto simp: tx_coins_def)
      with o show ?thesis by simp
    qed
  qed
qed

lemma balance_loop_coins:
  assumes "\<And>h w v. mapWallet W h = Some w \<Longrightarrow> f w = Some v \<Longrightarrow> \<exists>cs. g h = Some cs \<and> v = (\<Sum>out \<leftarrow> cs. out_value W out)"
  shows "set hs \<subseteq> dom (mapWallet W) \<Longrightarrow> wrap64 n = n \<Longrightarrow> balance_loop f W hs n = Some b \<Longrightarrow>
    \<exists>css. those (map g hs) = Some css \<and> b = wrap64 (n + (\<Sum>out \<leftarrow> concat css. out_value W out))"
proof (induction hs arbitrary: n)
  case (Cons h hs)
  then obtain w where w: "mapWallet W h = Some w" by auto
  with Cons.prems(3) obtain v where v: "f w = Some v" "balance_loop f W hs (wrap64 (n + v)) = Some b" by (auto split: option.splits)
  from assms [OF w v(1)] obtain cs where cs: "g h = Some cs" "v = (\<Sum>out \<leftarrow> cs. out_value W out)" by blast
  from Cons.IH [OF _ wrap64_idem v(2)] Cons.prems(1) obtain css where IH: "those (map g hs) = Some css"
    "b = wrap64 (wrap64 (n + v) + (\<Sum>out \<leftarrow> concat css. out_value W out))" by auto
  then show ?case using cs by (simp add: wrap64_add_left add.assoc)
qed simp

text \<open>Computed without cached amounts, the balance is the value of the coins that may be spent when no output is too small.\<close>

theorem GetBalance_spendable:
  assumes "wallet_ok E W" and "GetBalance E S G W = Some b"
  shows "\<exists>vCoins. AvailableCoins E S (G\<lparr>nMinimumInputValue := 0\<rparr>) W True None = Some vCoins \<and> b = wrap64 (\<Sum>out \<leftarrow> vCoins. out_value W out)"
proof -
  have fin: "finite (dom (mapWallet W))" using assms(1) by (simp add: wallet_ok_def)
  have "\<exists>css. those (map (\<lambda>h. tx_coins E S (G\<lparr>nMinimumInputValue := 0\<rparr>) W True None h (the (mapWallet W h))) (sorted_list_of_set (dom (mapWallet W)))) = Some css \<and>
      b = wrap64 (0 + (\<Sum>out \<leftarrow> concat css. out_value W out))"
  proof (rule balance_loop_coins)
    show "balance_loop (trusted_credit E S G W) W (sorted_list_of_set (dom (mapWallet W))) 0 = Some b" using assms(2) by (simp add: GetBalance_def)
    show "\<exists>cs. tx_coins E S (G\<lparr>nMinimumInputValue := 0\<rparr>) W True None h (the (mapWallet W h)) = Some cs \<and> v = (\<Sum>out \<leftarrow> cs. out_value W out)"
      if "mapWallet W h = Some w" "trusted_credit E S G W w = Some v" for h w v using trusted_credit_coins [OF that(2,1)] that(1) by simp
  qed (use fin in \<open>simp_all add: wrap64_id int64_range_def\<close>)
  then show ?thesis by (auto simp: AvailableCoins_def)
qed

end
