(* ===== verification/CreateTx.thy ===== *)
theory CreateTx
  imports CoinSelection WalletInv
begin

text \<open>
  Building a payment: \<^verbatim>\<open>CWallet::CreateTransaction\<close> of src/src/wallet.cpp, which selects coins, returns the change, signs, and starts again with a
  higher fee while the fee is too small for the size. What varies from one attempt to the next is an argument by the number of the
  attempt: the random numbers, the public key taken from the key pool (None when the pool fails its assertion) and the order in which
  the set of chosen coins is traversed, which is that of memory addresses in the source. The priority, which is computed and not used,
  and the supporting transactions recorded with the result are left out.
\<close>

section \<open>Signing an input of a known transaction\<close>

definition SignSignature_from :: "env \<Rightarrow> CSignatureCache \<Rightarrow> CKeyStore \<Rightarrow> CTransaction \<Rightarrow> CTransaction \<Rightarrow> nat \<Rightarrow> int
    \<Rightarrow> (bool \<times> CTransaction \<times> CSignatureCache) option" where
  "SignSignature_from E C ks txFrom txTo nIn nHashType =
     (if nIn \<ge> length (vin txTo) then None
      else
        (let txin = vin txTo ! nIn; n = unat (prev_n (prevout txin))
         in if n \<ge> length (vout txFrom) \<or> prev_hash (prevout txin) \<noteq> GetHash E txFrom then None
            else SignSignature E C ks (scriptPubKey (vout txFrom ! n)) txTo nIn nHashType))"

fun sign_inputs :: "env \<Rightarrow> CWallet \<Rightarrow> nat \<Rightarrow> (u256 \<times> nat) list \<Rightarrow> CTransaction \<Rightarrow> CSignatureCache \<Rightarrow> (bool \<times> CTransaction \<times> CSignatureCache) option" where
  "sign_inputs E W nIn [] tx C = Some (True, tx, C)"
| "sign_inputs E W nIn (c # cs) tx C =
     (case SignSignature_from E C (w_keys W) (tx_of (the (mapWallet W (fst c)))) tx nIn SIGHASH_ALL of
        None \<Rightarrow> None
      | Some (ok, tx', C') \<Rightarrow> if \<not> ok then Some (False, tx', C') else sign_inputs E W (nIn + 1) cs tx' C')"

section \<open>One attempt\<close>

record attempt_choice =
  ch_shuffle :: "nat \<Rightarrow> nat \<Rightarrow> nat"
  ch_bits :: "nat \<Rightarrow> nat \<Rightarrow> nat \<Rightarrow> nat \<Rightarrow> bool"
  ch_pubkey :: "valtype option"
  ch_position :: "nat \<Rightarrow> nat"
  ch_order :: "(u256 \<times> nat) set \<Rightarrow> (u256 \<times> nat) list"

datatype outcome = Refused | Raised | Retry int CSignatureCache | Created CTransaction int CSignatureCache

definition change_script :: "env \<Rightarrow> CCoinControl option \<Rightarrow> valtype option \<Rightarrow> byte list option" where
  "change_script E c pubkey =
     (if c \<noteq> None \<and> destChange (the c) \<noteq> CNoDestination then Some (SetDestination (destChange (the c)))
      else map_option (\<lambda>vchPubKey. SetDestination (CKeyID (GetID E vchPubKey))) pubkey)"

definition payee_outputs :: "(byte list \<times> int) list \<Rightarrow> CTxOut list" where
  "payee_outputs vecSend = map (\<lambda>s. \<lparr>nValue = snd s, scriptPubKey = fst s\<rparr>) vecSend"

definition insert_at :: "nat \<Rightarrow> 'a \<Rightarrow> 'a list \<Rightarrow> 'a list" where
  "insert_at p x xs = take p xs @ x # drop p xs"

text \<open>The outputs, with the change at a random position.\<close>

definition outputs_with_change :: "env \<Rightarrow> attempt_choice \<Rightarrow> CCoinControl option \<Rightarrow> (byte list \<times> int) list \<Rightarrow> int \<Rightarrow> CTxOut list option" where
  "outputs_with_change E ch c vecSend nChange =
     (let outs = payee_outputs vecSend
      in if nChange > 0 then
           map_option (\<lambda>s. insert_at (GetRandInt (ch_position ch) 0 (length outs)) \<lparr>nValue = nChange, scriptPubKey = s\<rparr> outs)
             (change_script E c (ch_pubkey ch))
         else Some outs)"

definition coin_input :: "env \<Rightarrow> CWallet \<Rightarrow> u256 \<times> nat \<Rightarrow> CTxIn" where
  "coin_input E W c =
     \<lparr>prevout = \<lparr>prev_hash = GetHash E (tx_of (the (mapWallet W (fst c)))), prev_n = word_of_nat (snd c)\<rparr>, scriptSig = [], nSequence = - 1\<rparr>"

text \<open>A change below a cent goes to the fee until that is at least \<^verbatim>\<open>MIN_TX_FEE\<close>.\<close>

definition moved_to_fee :: "int \<Rightarrow> int \<Rightarrow> int" where
  "moved_to_fee nFeeRet nChange = (if nFeeRet < MIN_TX_FEE \<and> nChange > 0 \<and> nChange < CENT then min nChange (MIN_TX_FEE - nFeeRet) else 0)"

definition needed_fee :: "wallet_settings \<Rightarrow> CTransaction \<Rightarrow> nat \<Rightarrow> int" where
  "needed_fee G tx nBytes = max (wrap64 (nTransactionFee G * (1 + int (nBytes div 1000)))) (GetMinFee tx 1 GMF_SEND (word_of_nat nBytes))"

definition check_size :: "wallet_settings \<Rightarrow> int \<Rightarrow> CTransaction \<Rightarrow> CSignatureCache \<Rightarrow> outcome" where
  "check_size G nFeeRet tx C =
     (let nBytes = GetSerializeSize_CTransaction tx
      in if nBytes \<ge> MAX_BLOCK_SIZE_GEN div 5 then Refused
         else if nFeeRet < needed_fee G tx nBytes then Retry (needed_fee G tx nBytes) C
         else Created tx nFeeRet C)"

definition create_attempt :: "env \<Rightarrow> node_state \<Rightarrow> wallet_settings \<Rightarrow> CWallet \<Rightarrow> CCoinControl option \<Rightarrow> (byte list \<times> int) list \<Rightarrow> int \<Rightarrow> CTransaction
    \<Rightarrow> attempt_choice \<Rightarrow> int \<Rightarrow> CSignatureCache \<Rightarrow> outcome" where
  "create_attempt E S G W c vecSend nValue0 wtxNew ch nFeeRet C =
     (case SelectCoins E S G W (ch_shuffle ch) (ch_bits ch) (wrap64 (nValue0 + nFeeRet)) (nTime wtxNew) c of
        None \<Rightarrow> Raised
      | Some (False, _) \<Rightarrow> Refused
      | Some (True, setCoins, nValueIn) \<Rightarrow>
          (let nChange = wrap64 (wrap64 (nValueIn - nValue0) - nFeeRet); nMoveToFee = moved_to_fee nFeeRet nChange
           in case outputs_with_change E ch c vecSend (nChange - nMoveToFee) of
                None \<Rightarrow> Raised
              | Some outs \<Rightarrow>
                  (let coins = ch_order ch setCoins; tx = wtxNew\<lparr>vin := map (coin_input E W) coins, vout := outs\<rparr>
                   in case sign_inputs E W 0 coins tx C of
                        None \<Rightarrow> Raised
                      | Some (ok, tx', C') \<Rightarrow> if \<not> ok then Refused else check_size G (nFeeRet + nMoveToFee) tx' C')))"

section \<open>The loop over fees\<close>

text \<open>None: the attempts do not suffice.\<close>

fun create_loop :: "env \<Rightarrow> node_state \<Rightarrow> wallet_settings \<Rightarrow> CWallet \<Rightarrow> CCoinControl option \<Rightarrow> (byte list \<times> int) list \<Rightarrow> int \<Rightarrow> CTransaction
    \<Rightarrow> (nat \<Rightarrow> attempt_choice) \<Rightarrow> nat \<Rightarrow> int \<Rightarrow> CSignatureCache \<Rightarrow> outcome option" where
  "create_loop E S G W c vecSend nValue0 wtxNew ch 0 nFeeRet C = None"
| "create_loop E S G W c vecSend nValue0 wtxNew ch (Suc k) nFeeRet C =
     (case create_attempt E S G W c vecSend nValue0 wtxNew (ch k) nFeeRet C of
        Retry nFee C' \<Rightarrow> create_loop E S G W c vecSend nValue0 wtxNew ch k nFee C'
      | res \<Rightarrow> Some res)"

fun send_total :: "int \<Rightarrow> (byte list \<times> int) list \<Rightarrow> int option" where
  "send_total nValue0 [] = Some nValue0"
| "send_total nValue0 (s # ss) = (if nValue0 < 0 then None else send_total (wrap64 (nValue0 + snd s)) ss)"

definition CreateTransaction :: "env \<Rightarrow> node_state \<Rightarrow> wallet_settings \<Rightarrow> CWallet \<Rightarrow> CCoinControl option \<Rightarrow> (byte list \<times> int) list \<Rightarrow> CTransaction
    \<Rightarrow> (nat \<Rightarrow> attempt_choice) \<Rightarrow> nat \<Rightarrow> outcome option" where
  "CreateTransaction E S G W c vecSend wtxNew ch attempts =
     (case send_total 0 vecSend of
        None \<Rightarrow> Some Refused
      | Some nValue0 \<Rightarrow>
          if vecSend = [] \<or> nValue0 < 0 then Some Refused
          else create_loop E S G W c vecSend nValue0 wtxNew ch attempts (nTransactionFee G) (ns_cache S))"

section \<open>Sending\<close>

text \<open>\<^verbatim>\<open>CommitTransaction\<close>: the wallet takes the transaction and marks its coins before the memory pool decides on it. None is an exception; what
  is sent to the peers is left out.\<close>

definition CommitTransaction :: "env \<Rightarrow> bool \<Rightarrow> bool \<Rightarrow> CWalletTx \<Rightarrow> CWallet \<Rightarrow> node_state \<Rightarrow> (bool \<times> CWallet \<times> node_state) option" where
  "CommitTransaction E disk_ok limited wtxNew W S =
     (case commit_wallet E disk_ok wtxNew W of
        None \<Rightarrow> None
      | Some W' \<Rightarrow>
          (case accept E (ns_params S) (ns_cache S) (cd_tx (ns_db S)) (ns_pool S)
              (case pindexBest S of None \<Rightarrow> [] | Some t \<Rightarrow> map CBlockPos.truncate (entries (mapBlockIndex S) (chain_from (mapBlockIndex S) t)))
              limited (tx_of wtxNew) True of
             Inl (Thrown, _, C) \<Rightarrow> None
           | Inl (Rejected _, _, C) \<Rightarrow> Some (False, W', S\<lparr>ns_cache := C\<rparr>)
           | Inr (pool, C) \<Rightarrow> Some (True, W', S\<lparr>ns_pool := pool, ns_cache := C\<rparr>)))"

section \<open>The loop ends\<close>

definition fee_steps :: "wallet_settings \<Rightarrow> int set" where
  "fee_steps G = (\<lambda>k. max (wrap64 (nTransactionFee G * (1 + int k))) (min MAX_MONEY ((1 + int k) * MIN_TX_FEE))) ` {..<100}"

lemma needed_fee_step:
  assumes "nBytes < MAX_BLOCK_SIZE_GEN div 5"
  shows "needed_fee G tx nBytes \<in> fee_steps G"
proof -
  have b: "nBytes < 100000" using assms by (simp add: MAX_BLOCK_SIZE_GEN_def MAX_BLOCK_SIZE_def)
  have u: "uint (word_of_nat nBytes :: u32) = int nBytes" using b by (simp add: uint_nat unat_of_nat take_bit_eq_mod)
  have "GetMinFee tx 1 GMF_SEND (word_of_nat nBytes) = min MAX_MONEY ((1 + int (nBytes div 1000)) * MIN_TX_FEE)"
    unfolding GetMinFee_eq u by (simp add: zdiv_int)
  moreover have "nBytes div 1000 < 100" using b by simp
  ultimately show ?thesis unfolding needed_fee_def fee_steps_def by auto
qed

lemma moved_nonneg: "0 \<le> moved_to_fee f c"
  by (auto simp: moved_to_fee_def)

lemma check_size_Retry:
  assumes "check_size G f tx C = Retry f' C'"
  shows "f < f'" and "f' \<in> fee_steps G"
  using assms needed_fee_step by (auto simp: check_size_def Let_def split: if_splits)

lemma attempt_Retry:
  assumes "create_attempt E S G W c vecSend nValue0 wtxNew ch f C = Retry f' C'"
  shows "f < f'" and "f' \<in> fee_steps G"
proof -
  obtain k tx C'' where "check_size G (f + moved_to_fee f k) tx C'' = Retry f' C'"
    using assms by (auto simp: create_attempt_def Let_def split: option.splits prod.splits bool.splits if_splits)
  from check_size_Retry [OF this] moved_nonneg [of f k] show "f < f'" "f' \<in> fee_steps G" by simp_all
qed

lemma create_loop_ends: "card {x \<in> fee_steps G. f < x} < k \<Longrightarrow> \<exists>res. create_loop E S G W c vecSend nValue0 wtxNew ch k f C = Some res"
proof (induction k arbitrary: f C)
  case (Suc k)
  have fin: "finite (fee_steps G)" by (simp add: fee_steps_def)
  show ?case
  proof (cases "create_attempt E S G W c vecSend nValue0 wtxNew (ch k) f C")
    case (Retry f' C')
    note r = attempt_Retry [OF this]
    have "{x \<in> fee_steps G. f' < x} \<subset> {x \<in> fee_steps G. f < x}" using r by auto
    then have "card {x \<in> fee_steps G. f' < x} < card {x \<in> fee_steps G. f < x}" using fin by (intro psubset_card_mono) auto
    with Suc Retry show ?thesis by simp
  qed simp_all
qed simp

text \<open>C36: Creating a transaction ends: each further attempt has a higher fee, the fee depends on the size in kilobytes, and 101 attempts are enough
  whatever coins are chosen.
\<close>

theorem CreateTransaction_ends: "\<exists>res. CreateTransaction E S G W c vecSend wtxNew ch 101 = Some res"
proof -
  have "card {x \<in> fee_steps G. f < x} < 101" for f
  proof -
    have "card {x \<in> fee_steps G. f < x} \<le> card (fee_steps G)" by (rule card_mono) (auto simp: fee_steps_def)
    also have "\<dots> \<le> 100" unfolding fee_steps_def using card_image_le [of "{..<100 :: nat}"] by fastforce
    finally show ?thesis by simp
  qed
  then show ?thesis using create_loop_ends by (auto simp: CreateTransaction_def split: option.split)
qed

section \<open>The payment is balanced\<close>

definition spendable :: "env \<Rightarrow> CWallet \<Rightarrow> (u256 \<times> nat) set \<Rightarrow> bool" where
  "spendable E W A \<longleftrightarrow> finite A \<and> (\<forall>c \<in> A. own_at E W c \<and> \<not> spent_at W c)"

text \<open>The amounts and indices of the wallet's coins stay within what the code can count.\<close>

definition coins_fit :: "env \<Rightarrow> node_state \<Rightarrow> wallet_settings \<Rightarrow> CWallet \<Rightarrow> CCoinControl option \<Rightarrow> bool" where
  "coins_fit E S G W c \<longleftrightarrow> wallet_ok E W \<and> (\<forall>h w. mapWallet W h = Some w \<longrightarrow> length (vout w) < 2 ^ 32) \<and>
     (\<forall>vCoins. AvailableCoins E S G W True c = Some vCoins \<longrightarrow>
        (\<forall>out \<in> set vCoins. 0 \<le> coin_value W (coin_id out)) \<and> (\<Sum>out \<leftarrow> vCoins. coin_value W (coin_id out)) < 2 ^ 62)"

lemma available_coins_ok:
  assumes "coins_fit E S G W c" and "AvailableCoins E S G W True c = Some vCoins" and "0 \<le> T" and "T + CENT < 2 ^ 62"
  shows "coins_ok W T vCoins" and "spendable E W (coin_id ` set vCoins)"
proof -
  have fin: "finite (dom (mapWallet W))" using assms(1) by (simp add: coins_fit_def wallet_ok_def)
  note a = AvailableCoins_ok [OF fin assms(2), folded coin_id_def]
  show "coins_ok W T vCoins" using a(1) assms by (auto simp: coins_ok_def coins_fit_def coin_id_def [abs_def])
  show "spendable E W (coin_id ` set vCoins)" using a(2) by (auto simp: spendable_def)
qed

lemma spendable_mono: "spendable E W B \<Longrightarrow> A \<subseteq> B \<Longrightarrow> spendable E W A"
  by (auto simp: spendable_def intro: finite_subset)

lemma min_conf_offered:
  assumes "coins_ok W T vCoins" and "SelectCoinsMinConf E W r bits T t cm ct vCoins = Some (True, A, v)"
  shows "A \<subseteq> coin_id ` set vCoins \<and> v = sum (coin_value W) A \<and> T \<le> v"
proof -
  have "good_selection W (eligible_ids E W t cm ct vCoins) T A v" using SelectCoinsMinConf_ok [OF assms] by simp
  moreover have "eligible_ids E W t cm ct vCoins \<subseteq> coin_id ` set vCoins" by (auto simp: eligible_ids_def)
  ultimately show ?thesis by (auto simp: good_selection_def)
qed

lemma SelectCoins_offered:
  assumes "coins_ok W T vCoins" and v: "AvailableCoins E S G W True c = Some vCoins" and "SelectCoins E S G W r bits T t c = Some (True, A, v)"
  shows "A \<subseteq> coin_id ` set vCoins \<and> v = sum (coin_value W) A \<and> T \<le> v"
proof (cases "HasSelected c")
  case True
  let ?cs = "map (coin_of W) vCoins" and ?P = "coin_id ` set vCoins"
  have P: "coins_in W ?P ?cs" using assms(1) by (auto simp: coins_in_def coins_ok_def comp_def)
  have sum: "(\<Sum>c \<leftarrow> ?cs. fst c) = sum (coin_value W) ?P" using coins_in_sum [OF P] by (simp add: image_image)
  have "sum (coin_value W) ?P < 2 ^ 63" "\<forall>c \<in> ?P. 0 \<le> coin_value W c" using assms(1) sum by (auto simp: coins_ok_def comp_def CENT_def)
  from coin_result_ok(1) [OF P _ this(2,1)] have "coin_result ?cs = (True, ?P, sum (coin_value W) ?P)" by (simp add: image_image)
  with assms(3) v True show ?thesis by (auto simp: SelectCoins_def)
next
  case False
  from assms(3) v False have "\<exists>k cm ct. SelectCoinsMinConf E W (r k) (bits k) T t cm ct vCoins = Some (True, A, v)"
    by (auto simp: SelectCoins_def split: option.splits bool.splits) blast+
  with min_conf_offered [OF assms(1)] show ?thesis by blast
qed

lemma SelectCoins_ok:
  assumes "coins_fit E S G W c" and "0 \<le> T" and "T + CENT < 2 ^ 62" and "SelectCoins E S G W r bits T t c = Some (True, A, v)"
  shows "spendable E W A" and "v = sum (coin_value W) A" and "T \<le> v" and "v < 2 ^ 62"
proof -
  obtain vCoins where v: "AvailableCoins E S G W True c = Some vCoins" using assms(4) by (auto simp: SelectCoins_def split: option.splits)
  note ok = available_coins_ok [OF assms(1) v assms(2,3)]
  note off = SelectCoins_offered [OF ok(1) v assms(4)]
  then show "spendable E W A" "v = sum (coin_value W) A" "T \<le> v" using spendable_mono [OF ok(2)] by blast+
  have "sum (coin_value W) A \<le> sum (coin_value W) (coin_id ` set vCoins)" using off ok(1) by (intro sum_mono2) (auto simp: coins_ok_def)
  also have "\<dots> = (\<Sum>c \<leftarrow> map coin_id vCoins. coin_value W c)"
    using ok(1) sum_list_distinct_conv_sum_set [of "map coin_id vCoins" "coin_value W"] by (simp add: coins_ok_def)
  also have "\<dots> < 2 ^ 62" using assms(1) v by (simp add: coins_fit_def comp_def)
  finally show "v < 2 ^ 62" using off by simp
qed

lemma SignSignature_shape:
  assumes "SignSignature E C ks s tx n t = Some (b, tx', C')"
  shows "\<exists>sig. tx' = set_scriptSig tx n sig"
  using assms by (auto simp: SignSignature_def Let_def split: if_splits prod.splits)

lemma set_scriptSig_coins: "map input_coin (vin (set_scriptSig tx n sig)) = map input_coin (vin tx)" "vout (set_scriptSig tx n sig) = vout tx"
proof -
  have "input_coin ((vin tx ! n)\<lparr>scriptSig := sig\<rparr>) = input_coin (vin tx ! n)" by (simp add: input_coin_def)
  then show "map input_coin (vin (set_scriptSig tx n sig)) = map input_coin (vin tx)"
    by (simp add: set_scriptSig_def map_update) (metis list_update_beyond list_update_id map_update not_le_imp_less nth_map)
  show "vout (set_scriptSig tx n sig) = vout tx" by (simp add: set_scriptSig_def)
qed

lemma sign_inputs_shape:
  "sign_inputs E W n cs tx C = Some (b, tx', C') \<Longrightarrow> map input_coin (vin tx') = map input_coin (vin tx) \<and> vout tx' = vout tx"
proof (induction E W n cs tx C rule: sign_inputs.induct)
  case (2 E W nIn c cs tx C)
  obtain ok tx1 C1 where s: "SignSignature_from E C (w_keys W) (tx_of (the (mapWallet W (fst c)))) tx nIn SIGHASH_ALL = Some (ok, tx1, C1)"
    using "2.prems" by (auto split: option.splits)
  then obtain sp where "SignSignature E C (w_keys W) sp tx nIn SIGHASH_ALL = Some (ok, tx1, C1)" by (auto simp: SignSignature_from_def Let_def split: if_splits)
  then obtain sig where sig: "tx1 = set_scriptSig tx nIn sig" using SignSignature_shape by blast
  show ?case
  proof (cases ok)
    case True
    with "2.prems" s have "sign_inputs E W (nIn + 1) cs tx1 C1 = Some (b, tx', C')" by simp
    from "2.IH" [OF s refl refl _ this] True sig set_scriptSig_coins show ?thesis by simp
  next
    case False
    with "2.prems" s have "tx' = tx1" by simp
    with sig set_scriptSig_coins show ?thesis by simp
  qed
qed simp

text \<open>What a payment of a wallet satisfies: it spends each coin once, pays the payees, and what the coins exceed the outputs by is the fee.\<close>

definition balanced_payment :: "env \<Rightarrow> wallet_settings \<Rightarrow> CWallet \<Rightarrow> (byte list \<times> int) list \<Rightarrow> CTransaction \<Rightarrow> int \<Rightarrow> bool" where
  "balanced_payment E G W vecSend tx nFee \<longleftrightarrow>
     distinct (map input_coin (vin tx)) \<and> spendable E W (input_coin ` set (vin tx)) \<and>
     (\<Sum>i \<leftarrow> vin tx. coin_value W (input_coin i)) = (\<Sum>t \<leftarrow> vout tx. nValue t) + nFee \<and>
     mset (payee_outputs vecSend) \<subseteq># mset (vout tx) \<and> length (vout tx) \<le> length vecSend + 1 \<and>
     GetSerializeSize_CTransaction tx < MAX_BLOCK_SIZE_GEN div 5 \<and> needed_fee G tx (GetSerializeSize_CTransaction tx) \<le> nFee"

lemma outputs_with_change_ok:
  assumes "outputs_with_change E ch c vecSend n = Some outs" and "0 \<le> n"
  shows "(\<Sum>t \<leftarrow> outs. nValue t) = (\<Sum>s \<leftarrow> vecSend. snd s) + n" and "mset (payee_outputs vecSend) \<subseteq># mset outs" and "length outs \<le> length vecSend + 1"
proof -
  have p: "(\<Sum>t \<leftarrow> payee_outputs vecSend. nValue t) = (\<Sum>s \<leftarrow> vecSend. snd s)" "length (payee_outputs vecSend) = length vecSend"
    by (simp_all add: payee_outputs_def comp_def)
  have split: "xs = take k xs @ drop k xs" for xs :: "CTxOut list" and k by simp
  have sum: "(\<Sum>t \<leftarrow> insert_at k x xs. nValue t) = nValue x + (\<Sum>t \<leftarrow> xs. nValue t)" for k xs and x :: CTxOut
    by (subst (2) split [of xs k]) (simp add: insert_at_def del: append_take_drop_id)
  have ms: "mset (insert_at k x xs) = add_mset x (mset xs)" for k xs and x :: CTxOut
    by (subst (2) split [of xs k]) (simp add: insert_at_def del: append_take_drop_id)
  have "outs = payee_outputs vecSend \<and> n = 0 \<or> (\<exists>k x. outs = insert_at k x (payee_outputs vecSend) \<and> nValue x = n)"
  proof (cases "0 < n")
    case True
    then obtain z where "outs = insert_at (GetRandInt (ch_position ch) 0 (length (payee_outputs vecSend))) \<lparr>nValue = n, scriptPubKey = z\<rparr> (payee_outputs vecSend)"
      using assms(1) by (auto simp: outputs_with_change_def Let_def)
    moreover have "nValue \<lparr>nValue = n, scriptPubKey = z\<rparr> = n" by simp
    ultimately show ?thesis by blast
  next
    case False
    then show ?thesis using assms by (simp add: outputs_with_change_def Let_def)
  qed
  then show "(\<Sum>t \<leftarrow> outs. nValue t) = (\<Sum>s \<leftarrow> vecSend. snd s) + n" "mset (payee_outputs vecSend) \<subseteq># mset outs" "length outs \<le> length vecSend + 1"
    using p sum ms by (auto simp: insert_at_def)
qed

lemma moved_le: "0 \<le> nChange \<Longrightarrow> moved_to_fee f nChange \<le> nChange"
  by (auto simp: moved_to_fee_def)

text \<open>How the set of coins is traversed: every coin once.\<close>

definition fair_order :: "attempt_choice \<Rightarrow> bool" where
  "fair_order ch \<longleftrightarrow> (\<forall>A. finite A \<longrightarrow> set (ch_order ch A) = A \<and> distinct (ch_order ch A))"

lemma coin_input_id:
  assumes "coins_fit E S G W c" and "own_at E W x"
  shows "input_coin (coin_input E W x) = x"
proof -
  obtain w where w: "mapWallet W (fst x) = Some w" "snd x < length (vout w)" using assms(2) by (auto simp: own_at_def)
  then have "GetHash E (tx_of w) = fst x" "length (vout w) < 2 ^ 32" using assms(1) by (auto simp: coins_fit_def wallet_ok_def)
  with w show ?thesis by (simp add: input_coin_def coin_input_def unat_of_nat take_bit_nat_eq_self prod_eq_iff)
qed

lemma attempt_Created:
  assumes "coins_fit E S G W c" and "fair_order ch" and "0 \<le> nValue0" and "nValue0 \<le> MAX_MONEY" and "nValue0 = (\<Sum>s \<leftarrow> vecSend. snd s)"
    and f: "0 \<le> f" "f \<le> 100 * MAX_MONEY" and "create_attempt E S G W c vecSend nValue0 wtxNew ch f C = Created tx f' C'"
  shows "balanced_payment E G W vecSend tx f'"
proof -
  have small: "0 \<le> nValue0 + f" "nValue0 + f + CENT < 2 ^ 62" using assms(3,4) f by (simp_all add: MAX_MONEY_small CENT_def)
  then have T: "wrap64 (nValue0 + f) = nValue0 + f" by (intro wrap64_id) (simp add: int64_range_def CENT_def)
  from assms(8) T obtain A v outs b tx' C1 where sel: "SelectCoins E S G W (ch_shuffle ch) (ch_bits ch) (nValue0 + f) (nTime wtxNew) c = Some (True, A, v)"
    and outs: "outputs_with_change E ch c vecSend (wrap64 (wrap64 (v - nValue0) - f) - moved_to_fee f (wrap64 (wrap64 (v - nValue0) - f))) = Some outs"
    and sign: "sign_inputs E W 0 (ch_order ch A) (wtxNew\<lparr>vin := map (coin_input E W) (ch_order ch A), vout := outs\<rparr>) C = Some (b, tx', C1)"
    and size: "check_size G (f + moved_to_fee f (wrap64 (wrap64 (v - nValue0) - f))) tx' C1 = Created tx f' C'"
    by (auto simp: create_attempt_def Let_def split: option.splits prod.splits bool.splits if_splits)
  note A = SelectCoins_ok [OF assms(1) small sel]
  define d where "d = v - nValue0 - f"
  have d: "wrap64 (wrap64 (v - nValue0) - f) = d" "0 \<le> d"
    using A(3,4) assms(3) f small by (simp_all add: d_def wrap64_id int64_range_def CENT_def)
  let ?m = "moved_to_fee f d"
  have m: "0 \<le> d - ?m" using moved_le [OF d(2), of f] by simp
  note o = outputs_with_change_ok [OF outs [unfolded d(1)] m]
  have ord: "set (ch_order ch A) = A" "distinct (ch_order ch A)" using assms(2) A(1) by (auto simp: fair_order_def spendable_def)
  have cs: "map input_coin (map (coin_input E W) (ch_order ch A)) = ch_order ch A"
    using A(1) ord(1) coin_input_id [OF assms(1)] unfolding map_map
    by (intro map_idI) (simp add: spendable_def)
  have tx': "map input_coin (vin tx') = ch_order ch A" "vout tx' = outs" using sign_inputs_shape [OF sign] cs by simp_all
  have s: "tx = tx'" "f' = f + ?m" "GetSerializeSize_CTransaction tx < MAX_BLOCK_SIZE_GEN div 5" "needed_fee G tx (GetSerializeSize_CTransaction tx) \<le> f'"
    using size d(1) by (auto simp: check_size_def Let_def split: if_splits)
  have "(\<Sum>i \<leftarrow> vin tx. coin_value W (input_coin i)) = (\<Sum>c \<leftarrow> map input_coin (vin tx'). coin_value W c)" by (simp add: s(1) comp_def)
  also have "\<dots> = v" unfolding tx'(1) A(2) using sum_list_distinct_conv_sum_set [OF ord(2)] by (simp add: ord(1))
  finally have "(\<Sum>i \<leftarrow> vin tx. coin_value W (input_coin i)) = (\<Sum>t \<leftarrow> vout tx. nValue t) + f'"
    using o(1) assms(5) by (simp add: s(1,2) tx'(2) d_def)
  moreover have "input_coin ` set (vin tx) = A" using tx'(1) ord(1) s(1) by (metis list.set_map)
  ultimately show ?thesis using ord(2) A(1) o(2,3) s tx' by (simp add: balanced_payment_def)
qed

lemma fee_steps_bounds:
  assumes "MoneyRange (nTransactionFee G)" and "x \<in> fee_steps G"
  shows "0 \<le> x \<and> x \<le> 100 * MAX_MONEY"
proof -
  obtain k where k: "k < 100" and x: "x = max (wrap64 (nTransactionFee G * (1 + int k))) (min MAX_MONEY ((1 + int k) * MIN_TX_FEE))"
    using assms(2) by (auto simp: fee_steps_def)
  have p: "0 \<le> nTransactionFee G * (1 + int k)" using assms(1) by (simp add: MoneyRange_def)
  have "nTransactionFee G * (1 + int k) \<le> MAX_MONEY * 100" using assms(1) k by (intro mult_mono) (simp_all add: MoneyRange_def MAX_MONEY_small)
  from p this have "wrap64 (nTransactionFee G * (1 + int k)) = nTransactionFee G * (1 + int k)" "nTransactionFee G * (1 + int k) \<le> 100 * MAX_MONEY"
    by (simp_all add: wrap64_id int64_range_def MAX_MONEY_small)
  moreover have "0 \<le> min MAX_MONEY ((1 + int k) * MIN_TX_FEE)" "min MAX_MONEY ((1 + int k) * MIN_TX_FEE) \<le> 100 * MAX_MONEY"
    by (simp_all add: MAX_MONEY_small MIN_TX_FEE_def min_def)
  ultimately show ?thesis unfolding x using p by (auto simp: max_def)
qed

lemma loop_Created:
  assumes "coins_fit E S G W c" and "\<And>k. fair_order (ch k)" and "0 \<le> nValue0" and "nValue0 \<le> MAX_MONEY" and "nValue0 = (\<Sum>s \<leftarrow> vecSend. snd s)"
    and "MoneyRange (nTransactionFee G)"
  shows "0 \<le> f \<Longrightarrow> f \<le> 100 * MAX_MONEY \<Longrightarrow> create_loop E S G W c vecSend nValue0 wtxNew ch n f C = Some (Created tx f' C') \<Longrightarrow>
    balanced_payment E G W vecSend tx f'"
proof (induction n arbitrary: f C)
  case (Suc n)
  show ?case
  proof (cases "create_attempt E S G W c vecSend nValue0 wtxNew (ch n) f C")
    case (Retry f1 C1)
    with Suc.prems(3) have "create_loop E S G W c vecSend nValue0 wtxNew ch n f1 C1 = Some (Created tx f' C')" by simp
    with fee_steps_bounds [OF assms(6) attempt_Retry(2) [OF Retry]] show ?thesis by (intro Suc.IH [of f1 C1]) simp_all
  next
    case (Created tx1 f1 C1)
    with Suc.prems(3) have "create_attempt E S G W c vecSend nValue0 wtxNew (ch n) f C = Created tx f' C'" by simp
    from attempt_Created [OF assms(1-5) Suc.prems(1,2) this] show ?thesis .
  qed (use Suc.prems(3) in simp_all)
qed simp

lemma send_total_sum:
  "send_total acc ss = Some v \<Longrightarrow> \<forall>s \<in> set ss. 0 \<le> snd s \<Longrightarrow> 0 \<le> acc \<Longrightarrow> acc + (\<Sum>s \<leftarrow> ss. snd s) \<le> MAX_MONEY \<Longrightarrow> v = acc + (\<Sum>s \<leftarrow> ss. snd s)"
proof (induction ss arbitrary: acc)
  case (Cons s ss)
  have n: "0 \<le> (\<Sum>s \<leftarrow> ss. snd s)" using Cons.prems(2) by (intro sum_list_nonneg) auto
  then have w: "wrap64 (acc + snd s) = acc + snd s" using Cons.prems by (intro wrap64_id) (simp add: int64_range_def MAX_MONEY_small)
  from Cons.IH [of "acc + snd s"] Cons.prems w show ?case by simp
qed simp

text \<open>C34: A transaction the wallet creates is balanced: it spends distinct outputs of ours that were not marked as spent, contains every payment and at most
  one output more, its inputs are worth its outputs and the fee that is returned, and the fee is the one demanded for its size.
\<close>

theorem created_tx_balanced:
  assumes "coins_fit E S G W c" and "\<forall>k. fair_order (ch k)" and "MoneyRange (nTransactionFee G)" and "\<forall>s \<in> set vecSend. 0 \<le> snd s"
    and "(\<Sum>s \<leftarrow> vecSend. snd s) \<le> MAX_MONEY" and "CreateTransaction E S G W c vecSend wtxNew ch attempts = Some (Created tx nFee C)"
  shows "balanced_payment E G W vecSend tx nFee"
proof -
  obtain v where v: "send_total 0 vecSend = Some v"
    and r: "create_loop E S G W c vecSend v wtxNew ch attempts (nTransactionFee G) (ns_cache S) = Some (Created tx nFee C)"
    using assms(6) by (auto simp: CreateTransaction_def split: option.splits if_splits)
  have s: "v = (\<Sum>s \<leftarrow> vecSend. snd s)" using send_total_sum [OF v assms(4)] assms(5) by simp
  have "0 \<le> v" unfolding s using assms(4) by (intro sum_list_nonneg) auto
  then show ?thesis
    using loop_Created [OF assms(1) _ _ _ s assms(3) _ _ r] assms(2,3,5) s by (simp add: MoneyRange_def MAX_MONEY_small)
qed

end
