(* ===== verification/WalletSamples.thy ===== *)
theory WalletSamples
  imports CreateTx ChainSamples Spend
begin

text \<open>
  A wallet with one key and one confirmed coin of 110000 that pays to it, and the properties of the wallet applied to it.
\<close>

section \<open>The wallet\<close>

definition pub_w :: valtype where
  "pub_w = 2 # replicate 32 0"

definition id_w :: u160 where
  "id_w = Hash160 len_env pub_w"

definition keys_w :: CKeyStore where
  "keys_w = \<lparr>HaveKey = (\<lambda>h. h = id_w), GetKey = (\<lambda>h. if h = id_w then Some (replicate 32 0, True) else None), HaveCScript = (\<lambda>_. False), GetCScript = (\<lambda>_. None)\<rparr>"

definition script_w :: "byte list" where
  "script_w = SetDestination (CKeyID id_w)"

definition coin_tx :: CTransaction where
  "coin_tx = \<lparr>nVersion = 1, nTime = 0, vin = [], vout = [\<lparr>nValue = 110000, scriptPubKey = script_w\<rparr>], nLockTime = 0\<rparr>"

definition child_tx :: CTransaction where
  "child_tx = \<lparr>nVersion = 1, nTime = 5, vin = [\<lparr>prevout = \<lparr>prev_hash = 48, prev_n = 0\<rparr>, scriptSig = [], nSequence = 0\<rparr>],
     vout = [\<lparr>nValue = 30000, scriptPubKey = [0x51]\<rparr>], nLockTime = 0\<rparr>"

definition coin_wtx :: CWalletTx where
  "coin_wtx = (CWalletTx_new coin_tx)\<lparr>mtx_hashBlock := 80, mtx_nIndex := 0, fMerkleVerified := True\<rparr>"

definition wallet_w :: CWallet where
  "wallet_w = \<lparr>w_keys = keys_w, mapWallet = [48 \<mapsto> coin_wtx]\<rparr>"

definition node_w :: node_state where
  "node_w = node_sample\<lparr>pindexBest := Some 80\<rparr>"

definition settings_w :: wallet_settings where
  "settings_w = \<lparr>nTransactionFee = 10000, nMinimumInputValue = 0, fConfChange = False\<rparr>"

lemma script_length: "length script_w = 25"
  by (simp add: script_w_def push_uint160_eq uint160_bytes_def)

lemma coin_fields:
  "tx_of coin_wtx = coin_tx" "vout coin_wtx = [\<lparr>nValue = 110000, scriptPubKey = script_w\<rparr>]" "vin coin_wtx = []" "vfSpent coin_wtx = []"
  "mtx_hashBlock coin_wtx = 80" "mtx_nIndex coin_wtx = 0" "fMerkleVerified coin_wtx" "nTime coin_wtx = 0"
  by (simp_all add: coin_wtx_def CWalletTx_new_def CMerkleTx_new_def coin_tx_def CTransaction.defs CMerkleTx.defs)

lemma child_fields: "tx_of (CWalletTx_new tx) = tx" "vin (CWalletTx_new tx) = vin tx" "vout (CWalletTx_new tx) = vout tx" "vfSpent (CWalletTx_new tx) = []"
  by (simp_all add: CWalletTx_new_def CMerkleTx_new_def CTransaction.defs CMerkleTx.defs)

lemma len_hash: "length (Serialize_CTransaction t) \<noteq> 32 \<Longrightarrow> GetHash len_env t = word_of_nat (length (Serialize_CTransaction t))"
  by (simp add: GetHash_def Hash_def len_env_def Let_def uint256_bytes_def unsigned_less [where ?'b = 256, simplified])

lemma wallet_hashes: "GetHash len_env coin_tx = 48" "GetHash len_env child_tx = 65"
proof -
  have "GetSerializeSize_CTransaction child_tx = 65" by code_simp
  then show "GetHash len_env child_tx = 65" using len_hash [of child_tx] unfolding tx.sz_ser [symmetric] by simp
  have "GetSerializeSize_CTransaction coin_tx = 48" using script_length by (simp add: coin_tx_def GetSerializeSize_CTransaction_def GetSerializeSize_vector_def GetSerializeSize_bytes_def GetSizeOfCompactSize_def)
  then show "GetHash len_env coin_tx = 48" using len_hash [of coin_tx] unfolding tx.sz_ser [symmetric] by simp
qed

lemma coin_is_mine: "w_keys W = keys_w \<Longrightarrow> wallet_IsMine len_env W \<lparr>nValue = v, scriptPubKey = script_w\<rparr>"
proof -
  assume "w_keys W = keys_w"
  moreover have "IsMine len_env keys_w script_w = Some True"
    using match_p2pkh [of id_w, folded script_w_def] by (subst IsMine.simps) (simp add: keys_w_def)
  ultimately show ?thesis by (simp add: wallet_IsMine_def)
qed

lemma wallet_w_ok: "wallet_ok len_env wallet_w"
  using wallet_hashes by (simp add: wallet_ok_def marks_fit_def wallet_w_def coin_fields)

lemma wallet_w_lookup: "mapWallet wallet_w = [48 \<mapsto> coin_wtx]" "w_keys wallet_w = keys_w"
  by (simp_all add: wallet_w_def)

lemma own_coin: "own_at len_env wallet_w (48, 0)"
  using coin_is_mine [of wallet_w] by (simp add: own_at_def wallet_w_lookup coin_fields)

section \<open>Marks\<close>

definition child_wtx :: CWalletTx where
  "child_wtx = CWalletTx_new child_tx"

lemma child_wtx_fields: "tx_of child_wtx = child_tx" "vin child_wtx = vin child_tx" "vout child_wtx = vout child_tx" "vfSpent child_wtx = []"
  by (simp_all add: child_wtx_def child_fields)

lemma child_coin: "input_coin ` set (vin child_tx) = {(48, 0)}"
  by (simp add: child_tx_def input_coin_def)

lemma child_sent: "\<exists>W'. commit_wallet len_env True child_wtx wallet_w = Some W'"
proof -
  have st: "stored_wtx len_env child_wtx wallet_w = child_wtx" by (simp add: stored_wtx_def wallet_w_lookup child_wtx_fields wallet_hashes)
  have l: "length (vfSpent child_wtx) \<le> length (vout child_wtx)" by (simp add: child_wtx_fields)
  have h: "GetHash len_env (tx_of child_wtx) = 65" by (simp add: child_wtx_fields wallet_hashes)
  obtain W1 where W1: "AddToWallet len_env True child_wtx wallet_w = Some (True, W1)" "marks_only (put_wtx 65 child_wtx wallet_w) W1"
    by (rule AddToWallet_written [OF wallet_w_ok l h st]) blast
  have "mapWallet (put_wtx 65 child_wtx wallet_w) 48 = Some coin_wtx" by (simp add: put_wtx_def wallet_w_lookup)
  from marks_only_lookup(2) [OF W1(2) this] obtain w where w: "mapWallet W1 48 = Some w" "vout w = vout coin_wtx" using core_eq by blast
  then have "MarkSpent 0 w \<noteq> None" by (simp add: MarkSpent_def coin_fields)
  with w(1) W1(1) show ?thesis by (auto simp: commit_wallet_def child_wtx_fields child_tx_def)
qed

theorem commit_spends_exactly_witness:
  "\<exists>W'. commit_wallet len_env True child_wtx wallet_w = Some W' \<and> spent_at W' (48, 0) \<and> \<not> spent_at W' (48, 1)"
proof -
  obtain W' where W': "commit_wallet len_env True child_wtx wallet_w = Some W'" using child_sent by blast
  have n: "mapWallet wallet_w (GetHash len_env (tx_of child_wtx)) = None" "mapWallet wallet_w 48 \<noteq> None"
    by (simp_all add: wallet_w_lookup child_wtx_fields wallet_hashes)
  have l: "length (vfSpent child_wtx) \<le> length (vout child_wtx)" by (simp add: child_wtx_fields)
  have ns: "\<not> spent_at wallet_w (48, 1)" by (simp add: spent_at_def wallet_w_lookup IsSpent_def coin_fields)
  from commit_spends_exactly [OF wallet_w_ok n(1) l W' n(2), of 0] commit_spends_exactly [OF wallet_w_ok n(1) l W' n(2), of 1] W' ns
  show ?thesis by (auto simp: child_wtx_fields child_coin)
qed

definition chained_wallet :: CWallet where
  "chained_wallet = \<lparr>w_keys = keys_w, mapWallet = [48 \<mapsto> coin_wtx\<lparr>vfSpent := [True]\<rparr>, 65 \<mapsto> child_wtx]\<rparr>"

lemma chained_ok: "wallet_ok len_env chained_wallet"
proof -
  have "tx_of (coin_wtx\<lparr>vfSpent := [True]\<rparr>) = coin_tx" using coin_fields(1) by (simp add: CTransaction.defs)
  then show ?thesis using wallet_hashes by (simp add: wallet_ok_def marks_fit_def chained_wallet_def coin_fields child_wtx_fields)
qed

theorem confirmed_tx_unspends_witness:
  "spent_at chained_wallet (48, 0) \<and> (\<exists>W'. AddToWalletIfInvolvingMe len_env settings_w True coin_tx (Some mined_sample) True chained_wallet = Some (True, W') \<and>
     own_at len_env W' (48, 0) \<and> \<not> spent_at W' (48, 0))"
proof -
  have own: "own_at len_env chained_wallet (48, 0)" using coin_is_mine [of chained_wallet] by (simp add: own_at_def chained_wallet_def coin_fields)
  have c: "mapWallet chained_wallet 65 = Some child_wtx" "mapWallet chained_wallet 48 \<noteq> None" by (simp_all add: chained_wallet_def)
  have i: "(48, 0) \<in> input_coin ` set (vin child_wtx)" by (simp add: child_wtx_fields child_coin)
  have "CBlock_GetHash len_env mined_sample \<noteq> 0" by (simp add: mined_hashes(2))
  from confirmed_tx_unspends [OF chained_ok c(2) wallet_hashes(1) [symmetric] this c(1) _ i own, of settings_w]
  have "\<exists>W'. AddToWalletIfInvolvingMe len_env settings_w True coin_tx (Some mined_sample) True chained_wallet = Some (True, W') \<and>
     own_at len_env W' (48, 0) \<and> \<not> spent_at W' (48, 0)" by auto
  moreover have "spent_at chained_wallet (48, 0)" by (simp add: spent_at_def chained_wallet_def IsSpent_def)
  ultimately show ?thesis by blast
qed

text \<open>A coin marked as spent that the index has as unspent.\<close>

definition lost_wallet :: CWallet where
  "lost_wallet = wallet_w\<lparr>mapWallet := [48 \<mapsto> coin_wtx\<lparr>vfSpent := [True]\<rparr>]\<rparr>"

definition index_w :: CTxDB where
  "index_w = db_sample\<lparr>db_index := [48 \<mapsto> CTxIndex_new \<lparr>nFile = 1, nBlockPos = 8, nTxPos = 9\<rparr> 1]\<rparr>"

lemma lost_ok: "wallet_ok len_env lost_wallet"
proof -
  have "tx_of (coin_wtx\<lparr>vfSpent := [True]\<rparr>) = coin_tx" using coin_fields(1) by (simp add: CTransaction.defs)
  then show ?thesis using wallet_hashes by (simp add: wallet_ok_def marks_fit_def lost_wallet_def coin_fields)
qed

theorem FixSpentCoins_repairs_witness:
  "spent_at lost_wallet (48, 0) \<and> \<not> spent_at (snd (snd (FixSpentCoins len_env index_w False lost_wallet))) (48, 0)"
proof -
  obtain k v W' where W': "FixSpentCoins len_env index_w False lost_wallet = (k, v, W')" by (metis prod_cases3)
  have own: "own_at len_env lost_wallet (48, 0)"
    using coin_is_mine [of lost_wallet] by (simp add: own_at_def lost_wallet_def coin_fields wallet_w_lookup)
  have i: "ReadTxIndex index_w 48 = Some (CTxIndex_new \<lparr>nFile = 1, nBlockPos = 8, nTxPos = 9\<rparr> 1)" by (simp add: ReadTxIndex_def index_w_def)
  then have "in_index index_w 48" "index_unspent (the (ReadTxIndex index_w 48)) 0"
    by (simp_all add: in_index_def index_unspent_def CTxIndex_new_def CDiskTxPos_IsNull_def CDiskTxPos_SetNull_def)
  with FixSpentCoins_repairs [OF lost_ok W', of "(48, 0)"] own have "\<not> spent_at W' (48, 0)" by simp
  moreover have "spent_at lost_wallet (48, 0)" by (simp add: spent_at_def lost_wallet_def IsSpent_def)
  ultimately show ?thesis using W' by simp
qed

theorem wallet_runs_typed_witness:
  "\<exists>k v W. FixSpentCoins len_env index_w False lost_wallet = (k, v, W) \<and> wallet_ok len_env (EraseFromWallet 48 W)"
proof -
  obtain k v W where W: "FixSpentCoins len_env index_w False lost_wallet = (k, v, W)" by (metis prod_cases3)
  have "wallet_step len_env lost_wallet W" by (rule wallet_step.repaired [OF W])
  moreover have "wallet_step len_env W (EraseFromWallet 48 W)" by (rule wallet_step.erased)
  ultimately have "(wallet_step len_env)\<^sup>*\<^sup>* lost_wallet (EraseFromWallet 48 W)" by simp
  from wallet_runs_typed [OF this lost_ok] W show ?thesis by simp
qed

section \<open>Coins and balance\<close>

lemma coin_depth: "GetDepthInMainChain len_env node_w coin_wtx = 1"
proof -
  have "mapBlockIndex node_w 80 = Some mined_node" "pindexBest node_w = Some 80" by (simp_all add: node_w_def node_sample_def)
  then show ?thesis
    by (simp add: GetDepthInMainChain_def GetDepthInMainChainINTERNAL_def coin_fields IsInMainChain_def node_height_def node_fields)
qed

lemma coin_plain: "IsFinal N a b coin_tx" "\<not> IsCoinBase coin_tx" "\<not> IsCoinStake coin_tx"
  by (simp_all add: IsFinal_def IsCoinBase_def IsCoinStake_def coin_tx_def)

lemma coin_trusted: "IsTrusted len_env node_w G W coin_wtx = Some True"
  by (simp add: IsTrusted_def coin_fields coin_plain coin_depth)

definition out_w :: COutput where
  "out_w = \<lparr>out_tx = 48, out_i = 0, out_nDepth = 1\<rparr>"

lemma coins_w: "AvailableCoins len_env node_w settings_w wallet_w True None = Some [out_w]"
proof -
  have "own_outputs len_env settings_w wallet_w None 48 coin_wtx 1 = [out_w]"
    using coin_is_mine [of wallet_w]
    by (simp add: own_outputs_def coin_fields IsSpent_def wallet_w_lookup settings_w_def coin_allowed_def HasSelected_def out_w_def)
  then have "tx_coins len_env node_w settings_w wallet_w True None 48 coin_wtx = Some [out_w]"
    by (simp add: tx_coins_def coin_fields coin_plain coin_trusted coin_depth)
  then show ?thesis by (simp add: AvailableCoins_def wallet_w_lookup)
qed

theorem GetBalance_spendable_witness:
  "GetBalance len_env node_w settings_w wallet_w = Some 110000 \<and>
   (\<exists>vCoins. AvailableCoins len_env node_w (settings_w\<lparr>nMinimumInputValue := 0\<rparr>) wallet_w True None = Some vCoins \<and>
      110000 = wrap64 (\<Sum>out \<leftarrow> vCoins. out_value wallet_w out))"
proof -
  have "GetAvailableCredit len_env node_w wallet_w coin_wtx = Some 110000"
    using coin_is_mine [of wallet_w]
    by (simp add: GetAvailableCredit_def coin_fields coin_plain IsSpent_def wallet_w_lookup txout_GetCredit_def MoneyRange_def MAX_MONEY_small
        wrap64_id int64_range_def)
  then have b: "GetBalance len_env node_w settings_w wallet_w = Some 110000"
    by (simp add: GetBalance_def trusted_credit_def coin_trusted wallet_w_lookup wrap64_id int64_range_def)
  with GetBalance_spendable [OF wallet_w_ok b] show ?thesis by blast
qed

lemma coin_value_w: "coin_value wallet_w (48, 0) = 110000" "coin_id out_w = (48, 0)"
  by (simp_all add: coin_value_def wallet_w_lookup coin_fields coin_id_def out_w_def)

lemma coin_foreign: "tx_IsFromMe len_env wallet_w coin_tx = Some False"
  by (simp add: tx_IsFromMe_def tx_GetDebit_def coin_tx_def)

lemma scan_w:
  "scan_coins len_env wallet_w 110000 t cm ct [out_w] [] 0 None =
     (if 1 < ct then Some (Inr ([], 0, None)) else Some (Inl (110000, (48, 0))))"
  by (simp add: Let_def coin_foreign coin_of_def out_w_def wallet_w_lookup coin_fields coin_value_w)

lemma select_w:
  "SelectCoinsMinConf len_env wallet_w r bits 110000 t cm ct [out_w] = (if 1 < ct then Some (False, {}, 0) else Some (True, {(48, 0)}, 110000))"
  by (simp add: SelectCoinsMinConf_def random_shuffle_def scan_w coin_result_def wrap64_id int64_range_def del: scan_coins.simps)

theorem SelectCoinsMinConf_spec_witness:
  "good_selection wallet_w (eligible_ids len_env wallet_w 5 1 1 [out_w]) 110000 {(48, 0)} 110000"
proof -
  have ok: "coins_ok wallet_w 110000 [out_w]" by (simp add: coins_ok_def coin_value_w CENT_def)
  have "SelectCoinsMinConf len_env wallet_w (\<lambda>_. 0) (\<lambda>_ _ _. False) 110000 5 1 1 [out_w] = Some (True, {(48, 0)}, 110000)" by (simp add: select_w)
  from SelectCoinsMinConf_spec [OF ok this] show ?thesis by simp
qed

section \<open>A payment\<close>

definition sig_w :: valtype where
  "sig_w = [0x30, 6, 2, 1, 1, 2, 1, 1, 1]"

definition spend_w :: "byte list" where
  "spend_w = push_data sig_w @ push_data pub_w"

lemma sig_ok_w: "sig_ok_nocache len_env code tx nIn 0 sig_w pub_w"
proof -
  have "IsCanonicalSignature [0x30, 6, 2, 1, 1, 2, 1, 1, 1]" by code_simp
  moreover have "IsCanonicalPubKey (2 # replicate 32 0)" by code_simp
  ultimately show ?thesis
    by (simp add: sig_ok_nocache_def CheckSig_nocache_def len_env_def ref_env_def Verify_def SetPubKey_def sig_w_def pub_w_def)
qed

lemma verify_w:
  assumes "cache_inv len_env C"
  obtains C' where "VerifyScript len_env C spend_w script_w tx nIn 0 = (True, C')"
proof -
  have "fst (VerifyScript len_env C spend_w script_w tx nIn 0)"
    unfolding spend_w_def script_w_def using sig_ok_w by (subst p2pkh_verify [OF assms]) (simp_all add: sig_w_def pub_w_def MAX_SCRIPT_ELEMENT_SIZE_def id_w_def)
  with that show thesis by (cases "VerifyScript len_env C spend_w script_w tx nIn 0") auto
qed

lemma solver_sign_w: "Solver_sign len_env keys_w script_w hash 1 = (True, spend_w, TX_PUBKEYHASH)"
proof -
  have k: "GetPubKey len_env (replicate 32 0, True) = pub_w" by (simp add: GetPubKey_def len_env_def ref_env_def pub_w_def)
  have "Sign len_env (replicate 32 0, True) hash = Some [0x30, 6, 2, 1, 1, 2, 1, 1]" by (simp add: Sign_def len_env_def ref_env_def)
  then have "Sign1 len_env keys_w id_w hash 1 [] = (True, push_data sig_w)" by (simp add: Sign1_def keys_w_def sig_w_def)
  moreover have "KeyStore_GetPubKey len_env keys_w id_w = Some pub_w" using k by (simp add: KeyStore_GetPubKey_def keys_w_def)
  ultimately show ?thesis using match_p2pkh [of id_w, folded script_w_def] by (simp add: Solver_sign_def spend_w_def)
qed

definition paid_tx :: "byte list \<Rightarrow> CTransaction" where
  "paid_tx sig = \<lparr>nVersion = 1, nTime = 5, vin = [\<lparr>prevout = \<lparr>prev_hash = 48, prev_n = 0\<rparr>, scriptSig = sig, nSequence = - 1\<rparr>],
     vout = [\<lparr>nValue = 100000, scriptPubKey = [0x51]\<rparr>], nLockTime = 0\<rparr>"

lemma sign_w:
  assumes "cache_inv len_env C"
  obtains C' where "sign_inputs len_env wallet_w 0 [(48, 0)] (paid_tx []) C = Some (True, paid_tx spend_w, C')"
proof -
  have set: "set_scriptSig (paid_tx []) 0 spend_w = paid_tx spend_w" by (simp add: set_scriptSig_def paid_tx_def)
  obtain C' where v: "VerifyScript len_env C spend_w script_w (paid_tx spend_w) 0 0 = (True, C')" by (rule verify_w [OF assms])
  have "SignSignature len_env C keys_w script_w (paid_tx []) 0 SIGHASH_ALL = Some (True, paid_tx spend_w, C')"
    using v set by (simp add: SignSignature_def solver_sign_w) (simp add: paid_tx_def)
  then have "SignSignature_from len_env C keys_w coin_tx (paid_tx []) 0 SIGHASH_ALL = Some (True, paid_tx spend_w, C')"
    using wallet_hashes(1) by (simp add: SignSignature_from_def paid_tx_def) (simp add: coin_tx_def)
  then show thesis using that by (simp add: wallet_w_lookup coin_fields)
qed

definition choice_w :: attempt_choice where
  "choice_w = \<lparr>ch_shuffle = (\<lambda>_ _. 0), ch_bits = (\<lambda>_ _ _ _. False), ch_pubkey = None, ch_position = (\<lambda>_. 0), ch_order = sorted_list_of_set\<rparr>"

definition blank_w :: CTransaction where
  "blank_w = \<lparr>nVersion = 1, nTime = 5, vin = [], vout = [], nLockTime = 0\<rparr>"

lemma attempt_w: "\<exists>C'. create_attempt len_env node_w settings_w wallet_w None [([0x51], 100000)] 100000 blank_w choice_w 10000 empty_cache = Created (paid_tx spend_w) 10000 C'"
proof -
  have sel: "SelectCoins len_env node_w settings_w wallet_w (ch_shuffle choice_w) (ch_bits choice_w) 110000 5 None = Some (True, {(48, 0)}, 110000)"
    by (simp add: SelectCoins_def coins_w HasSelected_def select_w)
  have n: "wrap64 (wrap64 (110000 - 100000) - 10000) = 0" "wrap64 (100000 + 10000) = 110000" by (simp_all add: wrap64_id int64_range_def)
  have o: "outputs_with_change len_env choice_w None [([0x51], 100000)] 0 = Some [\<lparr>nValue = 100000, scriptPubKey = [0x51]\<rparr>]"
    by (simp add: outputs_with_change_def payee_outputs_def)
  have t: "blank_w\<lparr>vin := map (coin_input len_env wallet_w) [(48, 0)], vout := [\<lparr>nValue = 100000, scriptPubKey = [0x51]\<rparr>]\<rparr> = paid_tx []"
    using wallet_hashes(1) by (simp add: blank_w_def paid_tx_def coin_input_def wallet_w_lookup coin_fields)
  obtain C' where s: "sign_inputs len_env wallet_w 0 [(48, 0)] (paid_tx []) empty_cache = Some (True, paid_tx spend_w, C')"
    by (rule sign_w [OF cache_inv_empty])
  have z: "GetSerializeSize_CTransaction (paid_tx spend_w) = 109" by code_simp
  have f: "needed_fee settings_w (paid_tx spend_w) 109 = 10000"
    by (simp add: needed_fee_def settings_w_def GetMinFee_eq MIN_TX_FEE_def MAX_MONEY_small wrap64_id int64_range_def)
  have "check_size settings_w 10000 (paid_tx spend_w) C' = Created (paid_tx spend_w) 10000 C'"
    using f by (simp add: check_size_def z MAX_BLOCK_SIZE_GEN_def MAX_BLOCK_SIZE_def)
  moreover have "ch_order choice_w {(48, 0)} = [(48, 0)]" "nTime blank_w = 5" "moved_to_fee 10000 0 = 0" by (simp_all add: choice_w_def blank_w_def moved_to_fee_def)
  ultimately show ?thesis using sel n o t s by (simp add: create_attempt_def Let_def)
qed

theorem created_tx_balanced_witness:
  "\<exists>tx nFee C. CreateTransaction len_env node_w settings_w wallet_w None [([0x51], 100000)] blank_w (\<lambda>_. choice_w) 101 = Some (Created tx nFee C) \<and>
     balanced_payment len_env settings_w wallet_w [([0x51], 100000)] tx nFee"
proof -
  have fit: "coins_fit len_env node_w settings_w wallet_w None"
    using wallet_w_ok coins_w by (simp add: coins_fit_def coin_value_w wallet_w_lookup coin_fields)
  have o: "\<forall>k. fair_order ((\<lambda>_. choice_w) (k :: nat))" by (simp add: fair_order_def choice_w_def)
  have m: "MoneyRange (nTransactionFee settings_w)" by (simp add: settings_w_def MoneyRange_def MAX_MONEY_small)
  have p: "\<forall>s \<in> set [([0x51 :: byte], 100000)]. (0 :: int) \<le> snd s" "(\<Sum>s \<leftarrow> [([0x51 :: byte], 100000)]. snd s) \<le> MAX_MONEY" by (simp_all add: MAX_MONEY_small)
  obtain C' where a: "create_attempt len_env node_w settings_w wallet_w None [([0x51], 100000)] 100000 blank_w choice_w 10000 empty_cache = Created (paid_tx spend_w) 10000 C'"
    using attempt_w by blast
  have st: "send_total 0 [([0x51 :: byte], 100000)] = Some 100000" by (simp add: wrap64_id int64_range_def)
  have "create_loop len_env node_w settings_w wallet_w None [([0x51], 100000)] 100000 blank_w (\<lambda>_. choice_w) (Suc 100) 10000 empty_cache = Some (Created (paid_tx spend_w) 10000 C')"
    using a by (simp only: create_loop.simps outcome.case)
  moreover have "nTransactionFee settings_w = 10000" "ns_cache node_w = empty_cache" by (simp_all add: settings_w_def node_w_def node_sample_def)
  ultimately have "CreateTransaction len_env node_w settings_w wallet_w None [([0x51], 100000)] blank_w (\<lambda>_. choice_w) 101 = Some (Created (paid_tx spend_w) 10000 C')"
    by (simp add: CreateTransaction_def st del: create_loop.simps send_total.simps)
  with created_tx_balanced [OF fit o m p this] show ?thesis by blast
qed

end
