(* ===== verification/Miner.thy ===== *)
theory Miner
  imports Checkpoints "HOL-Library.Multiset"
begin

text \<open>
  Block production: \<^verbatim>\<open>CreateNewBlock\<close> and \<^verbatim>\<open>IncrementExtraNonce\<close> of src/src/miner.cpp. The transactions of the memory pool are rated by
  priority and fee, those that spend outputs of the pool wait for them, and the block is filled in the order of a
  heap. The ratings are floating-point numbers, whose operations are the argument \<open>floating\<close>; among entries that compare equal the
  heap may put any in front and the model takes the first.

  None is a run that returns no block: no key, an exception, a failed assertion or undefined behaviour.
\<close>

section \<open>Data\<close>

record 'd floating =
  fl_of_int :: "int \<Rightarrow> 'd"
  fl_add :: "'d \<Rightarrow> 'd \<Rightarrow> 'd"
  fl_mul :: "'d \<Rightarrow> 'd \<Rightarrow> 'd"
  fl_div :: "'d \<Rightarrow> 'd \<Rightarrow> 'd"
  fl_less :: "'d \<Rightarrow> 'd \<Rightarrow> bool"
  fl_eq :: "'d \<Rightarrow> 'd \<Rightarrow> bool"

record 'd TxPriority =
  tp_priority :: 'd
  tp_fee :: 'd
  tp_tx :: CTransaction

record 'd COrphan =
  or_ptx :: CTransaction
  setDependsOn :: "u256 set"
  or_dPriority :: 'd
  or_dFeePerKb :: 'd

record block_args =
  arg_blockmaxsize :: u32
  arg_blockprioritysize :: u32
  arg_blockminsize :: u32
  nMinTxFee :: int
  COINBASE_FLAGS :: "byte list"
  fDebug :: bool

definition TxPriorityCompare :: "'d floating \<Rightarrow> bool \<Rightarrow> 'd TxPriority \<Rightarrow> 'd TxPriority \<Rightarrow> bool" where
  "TxPriorityCompare F byFee a b =
     (if byFee then (if fl_eq F (tp_fee a) (tp_fee b) then fl_less F (tp_priority a) (tp_priority b) else fl_less F (tp_fee a) (tp_fee b))
      else (if fl_eq F (tp_priority a) (tp_priority b) then fl_less F (tp_fee a) (tp_fee b) else fl_less F (tp_priority a) (tp_priority b)))"

definition nBlockMaxSize :: "block_args \<Rightarrow> nat" where
  "nBlockMaxSize A = max 1000 (min (MAX_BLOCK_SIZE - 1000) (unat (arg_blockmaxsize A)))"

definition nBlockPrioritySize :: "block_args \<Rightarrow> nat" where
  "nBlockPrioritySize A = min (nBlockMaxSize A) (unat (arg_blockprioritysize A))"

definition nBlockMinSize :: "block_args \<Rightarrow> nat" where
  "nBlockMinSize A = min (nBlockMaxSize A) (unat (arg_blockminsize A))"

section \<open>Rating the memory pool\<close>

text \<open>\<^verbatim>\<open>CTransaction::ReadFromDisk\<close> for the transaction an input refers to, and \<^verbatim>\<open>CTxIndex::GetDepthInMainChain\<close>.\<close>

definition read_prev :: "CTxDB \<Rightarrow> COutPoint \<Rightarrow> (CTxIndex \<times> CTransaction) option" where
  "read_prev db q =
     (case ReadTxIndex db (prev_hash q) of
        None \<Rightarrow> None
      | Some txindex \<Rightarrow>
          (case db_disk db (tx_pos txindex) of
             None \<Rightarrow> None
           | Some txPrev \<Rightarrow> if unat (prev_n q) \<ge> length (vout txPrev) then None else Some (txindex, txPrev)))"

definition index_depth :: "env \<Rightarrow> chain_io \<Rightarrow> node_state \<Rightarrow> CTxIndex \<Rightarrow> int" where
  "index_depth E io S txindex =
     (case block_file io (nFile (tx_pos txindex)) (nBlockPos (tx_pos txindex)) of
        None \<Rightarrow> 0
      | Some b \<Rightarrow>
          (case mapBlockIndex S (CBlock_GetHash E b) of
             None \<Rightarrow> 0
           | Some pindex \<Rightarrow>
               if \<not> IsInMainChain S (CBlock_GetHash E b) then 0 else 1 + nBestHeight (ns_params S) - bp_nHeight pindex))"

text \<open>
  The inputs of a transaction: rated, or one is neither on disk nor in the pool. In the second case the hashes are those under which the code
  has already entered a pointer to the entry it then removes; with \<^verbatim>\<open>fDebug\<close> an assertion ends the program there.
\<close>

datatype 'd gathered = Gathered 'd int "u256 set" | Missing "u256 set" | Unreadable

fun gather_inputs :: "'d floating \<Rightarrow> env \<Rightarrow> chain_io \<Rightarrow> node_state \<Rightarrow> CTxIn list \<Rightarrow> 'd \<Rightarrow> int \<Rightarrow> u256 set \<Rightarrow> 'd gathered" where
  "gather_inputs F E io S [] dPriority nTotalIn deps = Gathered dPriority nTotalIn deps"
| "gather_inputs F E io S (i # is) dPriority nTotalIn deps =
     (let h = prev_hash (prevout i); n = unat (prev_n (prevout i))
      in case read_prev (cd_tx (ns_db S)) (prevout i) of
           Some (txindex, txPrev) \<Rightarrow>
             (let nValueIn = nValue (vout txPrev ! n)
              in gather_inputs F E io S is (fl_add F dPriority (fl_mul F (fl_of_int F nValueIn) (fl_of_int F (index_depth E io S txindex))))
                   (wrap64 (nTotalIn + nValueIn)) deps)
         | None \<Rightarrow>
             (case mapTx (ns_pool S) h of
                None \<Rightarrow> Missing deps
              | Some p \<Rightarrow>
                  if n \<ge> length (vout p) then Unreadable
                  else gather_inputs F E io S is dPriority (wrap64 (nTotalIn + nValue (vout p ! n))) (insert h deps)))"

text \<open>The priority queue, the waiting transactions, and the hashes with an entry for a removed one.\<close>

definition gather_tx :: "'d floating \<Rightarrow> env \<Rightarrow> chain_io \<Rightarrow> block_args \<Rightarrow> node_state \<Rightarrow> CTransaction \<Rightarrow> 'd TxPriority list \<times> 'd COrphan list \<times> u256 set
    \<Rightarrow> ('d TxPriority list \<times> 'd COrphan list \<times> u256 set) option" where
  "gather_tx F E io A S tx st =
     (case st of (vecPriority, vOrphan, dangling) \<Rightarrow>
        if IsCoinBase tx \<or> IsCoinStake tx \<or> \<not> IsFinal (ns_params S) 0 0 tx then Some st
        else
          (case gather_inputs F E io S (vin tx) (fl_of_int F 0) 0 {} of
             Unreadable \<Rightarrow> None
           | Missing deps \<Rightarrow> if fDebug A then None else Some (vecPriority, vOrphan, dangling \<union> deps)
           | Gathered d nTotalIn deps \<Rightarrow>
               (case GetValueOut tx of
                  None \<Rightarrow> None
                | Some nValueOut \<Rightarrow>
                    (let nTxSize = int (GetSerializeSize_CTransaction tx);
                         dPriority = fl_div F d (fl_of_int F nTxSize);
                         dFeePerKb = fl_div F (fl_of_int F (wrap64 (nTotalIn - nValueOut))) (fl_div F (fl_of_int F nTxSize) (fl_of_int F 1000))
                     in if deps \<noteq> {}
                        then Some (vecPriority, vOrphan @ [\<lparr>or_ptx = tx, setDependsOn = deps, or_dPriority = dPriority, or_dFeePerKb = dFeePerKb\<rparr>], dangling)
                        else Some (vecPriority @ [\<lparr>tp_priority = dPriority, tp_fee = dFeePerKb, tp_tx = tx\<rparr>], vOrphan, dangling)))))"

fun gather_pool :: "'d floating \<Rightarrow> env \<Rightarrow> chain_io \<Rightarrow> block_args \<Rightarrow> node_state \<Rightarrow> CTransaction list \<Rightarrow> 'd TxPriority list \<times> 'd COrphan list \<times> u256 set
    \<Rightarrow> ('d TxPriority list \<times> 'd COrphan list \<times> u256 set) option" where
  "gather_pool F E io A S [] st = Some st"
| "gather_pool F E io A S (tx # txs) st = (case gather_tx F E io A S tx st of None \<Rightarrow> None | Some st' \<Rightarrow> gather_pool F E io A S txs st')"

definition pool_txs :: "CTxMemPool \<Rightarrow> CTransaction list" where
  "pool_txs p = map (\<lambda>h. the (mapTx p h)) (sorted_list_of_set (dom (mapTx p)))"

section \<open>Filling the block\<close>

record 'd assembly =
  as_vtx :: "CTransaction list"
  as_pool :: "u256 \<rightharpoonup> CTxIndex"
  as_cache :: CSignatureCache
  nBlockSize :: nat
  nBlockSigOps :: nat
  as_nFees :: int
  fSortedByFee :: bool
  as_queue :: "'d TxPriority list"
  as_orphans :: "'d COrphan list"

definition heap_front :: "('a \<Rightarrow> 'a \<Rightarrow> bool) \<Rightarrow> 'a list \<Rightarrow> nat" where
  "heap_front cmp v = (case find (\<lambda>i. \<forall>x \<in> set v. \<not> cmp (v ! i) x) [0..<length v] of None \<Rightarrow> 0 | Some i \<Rightarrow> i)"

definition remove_nth :: "nat \<Rightarrow> 'a list \<Rightarrow> 'a list" where
  "remove_nth i v = take i v @ drop (Suc i) v"

text \<open>The transactions that waited for this one alone enter the queue.\<close>

definition release :: "u256 \<Rightarrow> 'd COrphan list \<Rightarrow> 'd COrphan list" where
  "release hash os = map (\<lambda>orphan. orphan\<lparr>setDependsOn := setDependsOn orphan - {hash}\<rparr>) os"

definition release_orphans :: "u256 \<Rightarrow> 'd assembly \<Rightarrow> 'd assembly" where
  "release_orphans hash st =
     (let os = release hash (as_orphans st)
      in st\<lparr>as_queue := as_queue st @ map (\<lambda>orphan. \<lparr>tp_priority = or_dPriority orphan, tp_fee = or_dFeePerKb orphan, tp_tx = or_ptx orphan\<rparr>)
              (filter (\<lambda>orphan. setDependsOn orphan = {}) os),
            as_orphans := filter (\<lambda>orphan. setDependsOn orphan \<noteq> {}) os\<rparr>)"

definition add_tx :: "env \<Rightarrow> CTransaction \<Rightarrow> (u256 \<rightharpoonup> CTxIndex) \<Rightarrow> CSignatureCache \<Rightarrow> nat \<Rightarrow> int \<Rightarrow> 'd assembly \<Rightarrow> 'd assembly" where
  "add_tx E tx T C nTxSigOps nTxFees st =
     release_orphans (GetHash E tx)
       (st\<lparr>as_vtx := as_vtx st @ [tx], as_pool := T(GetHash E tx \<mapsto> CTxIndex_new mempool_pos (length (vout tx))), as_cache := C,
           nBlockSize := nBlockSize st + GetSerializeSize_CTransaction tx, nBlockSigOps := nBlockSigOps st + nTxSigOps,
           as_nFees := wrap64 (as_nFees st + nTxFees)\<rparr>)"

definition try_connect :: "env \<Rightarrow> node_state \<Rightarrow> CBlockPos list \<Rightarrow> u256 set \<Rightarrow> CTransaction \<Rightarrow> int \<Rightarrow> 'd assembly \<Rightarrow> 'd assembly option" where
  "try_connect E S chain dangling tx nMinFee st =
     (case FetchInputs (cd_tx (ns_db S)) (as_pool st) (ns_pool S) False True tx Map.empty of
        Inl _ \<Rightarrow> Some st
      | Inr mapInputs \<Rightarrow>
          (case (GetValueIn tx mapInputs, GetValueOut tx) of
             (Inr nValueIn, Some nValueOut) \<Rightarrow>
               (let nTxFees = wrap64 (nValueIn - nValueOut)
                in if nTxFees < nMinFee then Some st
                   else
                     (case GetP2SHSigOpCount tx mapInputs of
                        Inl _ \<Rightarrow> None
                      | Inr nP2SH \<Rightarrow>
                          (let nTxSigOps = GetLegacySigOpCount tx + nP2SH
                           in if nBlockSigOps st + nTxSigOps \<ge> MAX_BLOCK_SIGOPS then Some st
                              else
                                (case ConnectInputs E (ns_params S) (as_cache st) tx mapInputs (as_pool st) mempool_pos chain False True of
                                   Inl (Rejected _, C) \<Rightarrow> Some (st\<lparr>as_cache := C\<rparr>)
                                 | Inl _ \<Rightarrow> None
                                 | Inr (T, C) \<Rightarrow>
                                     if GetHash E tx \<in> dangling then None else Some (add_tx E tx T C nTxSigOps nTxFees st)))))
           | _ \<Rightarrow> None))"

definition consider_tx :: "'d floating \<Rightarrow> env \<Rightarrow> block_args \<Rightarrow> node_state \<Rightarrow> CBlockPos list \<Rightarrow> u256 set \<Rightarrow> u32 option \<Rightarrow> 'd TxPriority \<Rightarrow> 'd assembly
    \<Rightarrow> 'd assembly option" where
  "consider_tx F E A S chain dangling nStakeTime0 x st =
     (let tx = tp_tx x; nNewSize = nBlockSize st + GetSerializeSize_CTransaction tx
      in if nNewSize \<ge> nBlockMaxSize A then Some st
         else if nBlockSigOps st + GetLegacySigOpCount tx \<ge> MAX_BLOCK_SIGOPS then Some st
         else if uint (nTime tx) > AdjustedTime (ns_params S) \<or> (case nStakeTime0 of None \<Rightarrow> False | Some t \<Rightarrow> nTime tx > t) then Some st
         else if fSortedByFee st \<and> fl_less F (tp_fee x) (fl_of_int F (nMinTxFee A)) \<and> nNewSize \<ge> nBlockMinSize A then Some st
         else
           try_connect E S chain dangling tx (GetMinFee tx (word_of_nat (nBlockSize st)) GMF_BLOCK 0)
             (st\<lparr>fSortedByFee := fSortedByFee st \<or> nNewSize \<ge> nBlockPrioritySize A \<or> fl_less F (tp_priority x) (fl_of_int F (COIN * 144 div 250))\<rparr>))"

lemma release_length: "length (as_queue (release_orphans h st)) + length (as_orphans (release_orphans h st)) = length (as_queue st) + length (as_orphans st)"
proof -
  have "length (filter P xs) + length (filter (\<lambda>x. \<not> P x) xs) = length xs" for P and xs :: "'a COrphan list" by (rule sum_length_filter_compl)
  from this [of "\<lambda>orphan. setDependsOn orphan = {}" "release h (as_orphans st)"] show ?thesis
    by (simp add: release_orphans_def Let_def) (simp add: release_def)
qed

lemma add_tx_length:
  "length (as_queue (add_tx E tx T C k v st)) + length (as_orphans (add_tx E tx T C k v st)) = length (as_queue st) + length (as_orphans st)"
  by (simp add: add_tx_def release_length)

text \<open>What trying a transaction leaves: the state as it was, but for the signature cache, or the transaction added.\<close>

lemma try_connect_cases:
  assumes "try_connect E S chain dangling tx nMinFee st = Some st'"
  obtains C where "st' = st\<lparr>as_cache := C\<rparr>"
  | I T C nP2SH v where "FetchInputs (cd_tx (ns_db S)) (as_pool st) (ns_pool S) False True tx Map.empty = Inr I"
      and "ConnectInputs E (ns_params S) (as_cache st) tx I (as_pool st) mempool_pos chain False True = Inr (T, C)"
      and "nMinFee \<le> v" and "GetP2SHSigOpCount tx I = Inr nP2SH" and "nBlockSigOps st + (GetLegacySigOpCount tx + nP2SH) < MAX_BLOCK_SIGOPS"
      and "st' = add_tx E tx T C (GetLegacySigOpCount tx + nP2SH) v st"
proof -
  have same: "st = st\<lparr>as_cache := as_cache st\<rparr>" by simp
  show thesis
  proof (cases "FetchInputs (cd_tx (ns_db S)) (as_pool st) (ns_pool S) False True tx Map.empty")
    case (Inl e)
    with assms that(1) [of "as_cache st"] show thesis by (simp add: try_connect_def)
  next
    case (Inr I)
    note fetched = this
    obtain vi vo where v: "GetValueIn tx I = Inr vi" "GetValueOut tx = Some vo"
      using assms fetched by (auto simp: try_connect_def split: sum.splits option.splits)
    show thesis
    proof (cases "wrap64 (vi - vo) < nMinFee")
      case True
      with assms that(1) [of "as_cache st"] fetched v show thesis by (simp add: try_connect_def)
    next
      case False
      then obtain k where k: "GetP2SHSigOpCount tx I = Inr k" using assms fetched v by (auto simp: try_connect_def split: sum.splits)
      show thesis
      proof (cases "nBlockSigOps st + (GetLegacySigOpCount tx + k) \<ge> MAX_BLOCK_SIGOPS")
        case True
        with assms that(1) [of "as_cache st"] fetched v False k show thesis by (simp add: try_connect_def)
      next
        case few: False
        note r = assms [unfolded try_connect_def fetched v k sum.case option.case prod.case Let_def if_not_P [OF False] if_not_P [OF few]]
        show thesis
        proof (cases "ConnectInputs E (ns_params S) (as_cache st) tx I (as_pool st) mempool_pos chain False True")
          case (Inl e)
          with r that(1) show thesis by (auto split: prod.splits failure.splits)
        next
          case (Inr r')
          then obtain T C where c: "ConnectInputs E (ns_params S) (as_cache st) tx I (as_pool st) mempool_pos chain False True = Inr (T, C)"
            by (cases r') auto
          with r have "st' = add_tx E tx T C (GetLegacySigOpCount tx + k) (wrap64 (vi - vo)) st" by (simp split: if_splits)
          with that(2) [OF fetched c _ k _ this] False few show thesis by simp
        qed
      qed
    qed
  qed
qed

lemma try_connect_length:
  assumes "try_connect E S chain dangling tx nMinFee st = Some st'"
  shows "length (as_queue st') + length (as_orphans st') = length (as_queue st) + length (as_orphans st)"
  using try_connect_cases [OF assms] by cases (simp_all add: add_tx_length)

lemma consider_length:
  assumes "consider_tx F E A S chain dangling t x st = Some st'"
  shows "length (as_queue st') + length (as_orphans st') = length (as_queue st) + length (as_orphans st)"
  using assms try_connect_length by (fastforce simp: consider_tx_def Let_def split: if_splits)

function assemble :: "'d floating \<Rightarrow> env \<Rightarrow> block_args \<Rightarrow> node_state \<Rightarrow> CBlockPos list \<Rightarrow> u256 set \<Rightarrow> u32 option \<Rightarrow> 'd assembly \<Rightarrow> 'd assembly option" where
  "assemble F E A S chain dangling nStakeTime0 st =
     (if as_queue st = [] then Some st
      else
        (let i = heap_front (TxPriorityCompare F (fSortedByFee st)) (as_queue st)
         in case consider_tx F E A S chain dangling nStakeTime0 (as_queue st ! i) (st\<lparr>as_queue := remove_nth i (as_queue st)\<rparr>) of
              None \<Rightarrow> None
            | Some st' \<Rightarrow> assemble F E A S chain dangling nStakeTime0 st'))"
  by pat_completeness auto

lemma heap_front_less: "v \<noteq> [] \<Longrightarrow> heap_front cmp v < length v"
  by (auto simp: heap_front_def find_Some_iff split: option.split)

lemma remove_nth_length: "i < length v \<Longrightarrow> length (remove_nth i v) < length v"
  by (simp add: remove_nth_def)

termination assemble
proof (relation "measure (\<lambda>(F, E, A, S, chain, dangling, t, st). length (as_queue st) + length (as_orphans st))")
  fix F :: "'d floating" and E A S chain dangling t and st st' :: "'d assembly" and i
  assume q: "as_queue st \<noteq> []" and i: "i = heap_front (TxPriorityCompare F (fSortedByFee st)) (as_queue st)"
    and c: "consider_tx F E A S chain dangling t (as_queue st ! i) (st\<lparr>as_queue := remove_nth i (as_queue st)\<rparr>) = Some st'"
  have "length (remove_nth i (as_queue st)) < length (as_queue st)" unfolding i by (rule remove_nth_length [OF heap_front_less [OF q]])
  with consider_length [OF c] show "((F, E, A, S, chain, dangling, t, st'), F, E, A, S, chain, dangling, t, st)
      \<in> measure (\<lambda>(F, E, A, S, chain, dangling, t, st). length (as_queue st) + length (as_orphans st))" by simp
qed simp

declare assemble.simps [simp del]

section \<open>The block\<close>

definition new_coinbase :: "env \<Rightarrow> block_args \<Rightarrow> node_params \<Rightarrow> int \<Rightarrow> valtype option \<Rightarrow> bool \<Rightarrow> CTransaction option" where
  "new_coinbase E A N nHeight pubkey fProofOfStake =
     (let txNew = (null_tx (word_of_int (AdjustedTime N)))\<lparr>vin := [\<lparr>prevout = \<lparr>prev_hash = 0, prev_n = - 1\<rparr>, scriptSig = [], nSequence = - 1\<rparr>]\<rparr>
      in if \<not> fProofOfStake then
           map_option (\<lambda>vchPubKey. txNew\<lparr>vout := [\<lparr>nValue = - 1, scriptPubKey = SetDestination (CKeyID (GetID E vchPubKey))\<rparr>]\<rparr>) pubkey
         else
           (let sig = push_int64 E nHeight @ COINBASE_FLAGS A
            in if length sig > 100 then None
               else Some (txNew\<lparr>vin := [(hd (vin txNew))\<lparr>scriptSig := sig\<rparr>], vout := [\<lparr>nValue = 0, scriptPubKey = []\<rparr>]\<rparr>)))"

definition new_block_time :: "node_params \<Rightarrow> CBlockIndex list \<Rightarrow> bool \<Rightarrow> CBlock \<Rightarrow> u32" where
  "new_block_time N chain fProofOfStake b =
     (let t0 = word_of_int (max (GetMedianTimePast chain + 1) (GetMaxTransactionTime b)) :: u32;
          t1 = word_of_int (max (uint t0) (PastDrift (uint (idx_nTime (hd chain))))) :: u32
      in if \<not> fProofOfStake then word_of_int (max (uint t1) (AdjustedTime N)) else t1)"

definition finish_block :: "node_params \<Rightarrow> CBlockIndex list \<Rightarrow> bool \<Rightarrow> u32 \<Rightarrow> CTransaction \<Rightarrow> CTransaction list \<Rightarrow> int \<Rightarrow> CBlock" where
  "finish_block N chain fProofOfStake bits txNew txs nFees =
     (let tx0 = (if fProofOfStake then txNew else txNew\<lparr>vout := map (\<lambda>t. t\<lparr>nValue := GetProofOfWorkReward nFees\<rparr>) (vout txNew)\<rparr>);
          b = \<lparr>blk_nVersion = (if IsPoSV2 (bp_nHeight (hd chain) + 1) then 2 else 1), hashPrevBlock = idx_hash (hd chain), hashMerkleRoot = 0,
               blk_nTime = 0, nBits = bits, nNonce = 0, vtx = tx0 # txs, vchBlockSig = []\<rparr>
      in b\<lparr>blk_nTime := new_block_time N chain fProofOfStake b\<rparr>)"

definition start_assembly :: "block_args \<Rightarrow> CSignatureCache \<Rightarrow> 'd TxPriority list \<Rightarrow> 'd COrphan list \<Rightarrow> 'd assembly" where
  "start_assembly A C vecPriority vOrphan =
     \<lparr>as_vtx = [], as_pool = Map.empty, as_cache = C, nBlockSize = 1000, nBlockSigOps = 100, as_nFees = 0,
      fSortedByFee = (nBlockPrioritySize A = 0), as_queue = vecPriority, as_orphans = vOrphan\<rparr>"

definition CreateNewBlock :: "'d floating \<Rightarrow> env \<Rightarrow> chain_io \<Rightarrow> block_args \<Rightarrow> node_state \<Rightarrow> valtype option \<Rightarrow> bool \<Rightarrow> (CBlock \<times> int) option" where
  "CreateNewBlock F E io A S pubkey fProofOfStake =
     (case pindexBest S of
        None \<Rightarrow> None
      | Some best \<Rightarrow>
          (let N = ns_params S; chain = entries (mapBlockIndex S) (chain_from (mapBlockIndex S) best)
           in case (new_coinbase E A N (bp_nHeight (hd chain) + 1) pubkey fProofOfStake, GetNextTargetRequired E N chain fProofOfStake) of
                (Some txNew, Some bits) \<Rightarrow>
                  (case gather_pool F E io A S (pool_txs (ns_pool S)) ([], [], {}) of
                     None \<Rightarrow> None
                   | Some (vecPriority, vOrphan, dangling) \<Rightarrow>
                       (case assemble F E A S (map CBlockPos.truncate chain) dangling (if fProofOfStake then Some (nTime txNew) else None)
                           (start_assembly A (ns_cache S) vecPriority vOrphan) of
                          None \<Rightarrow> None
                        | Some st \<Rightarrow> Some (finish_block N chain fProofOfStake bits txNew (as_vtx st) (as_nFees st), as_nFees st)))
              | _ \<Rightarrow> None))"

text \<open>\<^verbatim>\<open>IncrementExtraNonce\<close>: the block whose coinbase has the height and the next extra nonce, and that nonce. The static \<^verbatim>\<open>hashPrevBlock\<close> is
  an argument and a result.\<close>

definition IncrementExtraNonce :: "env \<Rightarrow> block_args \<Rightarrow> int \<Rightarrow> CBlock \<times> u32 \<times> u256 \<Rightarrow> (CBlock \<times> u32 \<times> u256) option" where
  "IncrementExtraNonce E A nHeightPrev st =
     (case st of (b, nExtraNonce, lastPrev) \<Rightarrow>
        let extra = (if lastPrev \<noteq> hashPrevBlock b then 0 else nExtraNonce) + 1;
            sig = push_int64 E (nHeightPrev + 1) @ push_data (getvch E (uint extra)) @ COINBASE_FLAGS A;
            tx0 = hd (vtx b);
            b' = b\<lparr>vtx := tx0\<lparr>vin := (hd (vin tx0))\<lparr>scriptSig := sig\<rparr> # tl (vin tx0)\<rparr> # tl (vtx b)\<rparr>
        in if length sig > 100 then None else Some (b'\<lparr>hashMerkleRoot := BuildMerkleTree E b'\<rparr>, extra, hashPrevBlock b))"

section \<open>What the block contains\<close>

context coin_store
begin

lemma connect_coins_append: "connect_coins (xs @ ys) A = connect_coins ys (connect_coins xs A)"
  by (induction xs A rule: connect_coins.induct) simp_all

lemma connectable_append: "connectable (xs @ ys) A \<longleftrightarrow> connectable xs A \<and> connectable ys (connect_coins xs A)"
  by (induction xs A rule: connectable.induct) simp_all

end

text \<open>Connecting for a new block is connecting in a block with every signature checked.\<close>

definition checked_params :: "node_params \<Rightarrow> node_params" where
  "checked_params N = N\<lparr>TotalBlocksEstimate := nBestHeight N\<rparr>"

lemma connect_spend_miner: "connect_spend E N C tx d False True ks J T = connect_spend E (checked_params N) C tx d True False ks J T"
proof (induction ks arbitrary: C J T)
  case (Cons k ks)
  have e: "(True \<and> nBestHeight (checked_params N) < TotalBlocksEstimate (checked_params N)) = False" by (simp add: checked_params_def)
  show ?case unfolding connect_spend.simps Cons.IH e by (simp only: simp_thms)
qed simp

lemma connect_check_miner: "connect_check (checked_params N) chain t J is v = connect_check N chain t J is v"
proof (induction "is" arbitrary: v)
  case (Cons i "is")
  have m: "nCoinbaseMaturity (checked_params N) = nCoinbaseMaturity N" by (simp add: checked_params_def)
  show ?case unfolding connect_check.simps Cons.IH m by (rule refl)
qed simp

lemma connect_fees_miner: "connect_fees tx b v = Inr u \<Longrightarrow> connect_fees tx b' v = Inr u"
  by (auto simp: connect_fees_def Let_def split: option.splits if_splits)

lemma ConnectInputs_miner:
  assumes "ConnectInputs E N C tx I T d chain False True = Inr r"
  shows "ConnectInputs E (checked_params N) C tx I T d chain True False = Inr r"
  using assms connect_fees_miner [of tx False _ _ True]
  by (auto simp: ConnectInputs_def connect_check_miner connect_spend_miner split: sum.splits if_splits prod.splits)

lemma fetch_loop_miner: "fetch_loop db T pool False True is J = fetch_loop db T pool True False is J"
proof (induction "is" arbitrary: J)
  case (Cons i "is")
  show ?case unfolding fetch_loop.simps Cons.IH by (simp only: simp_thms)
qed simp

lemma FetchInputs_miner: "FetchInputs db T pool False True tx J = FetchInputs db T pool True False tx J"
  by (simp add: FetchInputs_def fetch_loop_miner)

definition entered_coins :: "env \<Rightarrow> CTransaction list \<Rightarrow> (u256 \<times> (CDiskTxPos \<times> nat) \<times> COutPoint list) list" where
  "entered_coins E txs = map (\<lambda>tx. coin_entry E tx mempool_pos) txs"

text \<open>
  The transaction known under a hash, from the index or the pool, and the signature operations of a transaction as they count for the limit of a
  block: those in its own scripts and those in the scripts that its inputs reveal for outputs paid to the hash of a script.
\<close>

definition known_tx :: "CTxDB \<Rightarrow> CTxMemPool \<Rightarrow> u256 \<rightharpoonup> CTransaction" where
  "known_tx db pool h =
     (case ReadTxIndex db h of
        None \<Rightarrow> mapTx pool h
      | Some txindex \<Rightarrow> if tx_pos txindex = mempool_pos then mapTx pool h else db_disk db (tx_pos txindex))"

definition input_sigops :: "(u256 \<rightharpoonup> CTransaction) \<Rightarrow> CTxIn \<Rightarrow> nat" where
  "input_sigops P i =
     (case P (prev_hash (prevout i)) of
        None \<Rightarrow> 0
      | Some txPrev \<Rightarrow>
          (let script = scriptPubKey (vout txPrev ! unat (prev_n (prevout i)))
           in if IsPayToScriptHash script then GetSigOpCount_P2SH script (scriptSig i) else 0))"

definition tx_sigops :: "(u256 \<rightharpoonup> CTransaction) \<Rightarrow> CTransaction \<Rightarrow> nat" where
  "tx_sigops P tx = GetLegacySigOpCount tx + (if IsCoinBase tx then 0 else \<Sum>i \<leftarrow> vin tx. input_sigops P i)"

definition known_inputs :: "(u256 \<rightharpoonup> CTransaction) \<Rightarrow> MapPrevTx \<Rightarrow> bool" where
  "known_inputs P I \<longleftrightarrow> (\<forall>h idx t. I h = Some (idx, t) \<longrightarrow> P h = Some t)"

lemma p2sh_sigops_loop_known:
  "known_inputs P I \<Longrightarrow> p2sh_sigops_loop I is n = Inr m \<Longrightarrow> m = n + (\<Sum>i \<leftarrow> is. input_sigops P i)"
proof (induction "is" arbitrary: n)
  case (Cons i "is")
  obtain o1 where o: "GetOutputFor i I = Inr o1" using Cons.prems(2) by (auto split: sum.splits)
  then obtain idx t where t: "I (prev_hash (prevout i)) = Some (idx, t)" "o1 = vout t ! unat (prev_n (prevout i))"
    by (auto simp: GetOutputFor_def split: option.splits if_splits)
  then have "P (prev_hash (prevout i)) = Some t" using Cons.prems(1) by (auto simp: known_inputs_def)
  then have "input_sigops P i = (if IsPayToScriptHash (scriptPubKey o1) then GetSigOpCount_P2SH (scriptPubKey o1) (scriptSig i) else 0)"
    by (simp add: input_sigops_def t(2))
  with Cons.prems(2) o have "p2sh_sigops_loop I is (n + input_sigops P i) = Inr m" by (simp split: if_splits)
  from Cons.IH [OF Cons.prems(1) this] show ?case by simp
qed simp

lemma GetP2SHSigOpCount_known:
  "known_inputs P I \<Longrightarrow> GetP2SHSigOpCount tx I = Inr k \<Longrightarrow> GetLegacySigOpCount tx + k = tx_sigops P tx"
  using p2sh_sigops_loop_known [of P I "vin tx" 0 k] by (auto simp: GetP2SHSigOpCount_def tx_sigops_def split: if_splits)

text \<open>Every entry of the index under the changes of the block has the position of the index, or that of the pool for the transactions of the block.\<close>

definition positions_ok :: "env \<Rightarrow> (u256 \<rightharpoonup> CTxIndex) \<Rightarrow> CTransaction list \<Rightarrow> (u256 \<rightharpoonup> CTxIndex) \<Rightarrow> bool" where
  "positions_ok E V txs T \<longleftrightarrow>
     (\<forall>h idx. (V ++ T) h = Some idx \<longrightarrow> (if h \<in> GetHash E ` set txs then tx_pos idx = mempool_pos else map_option tx_pos (V h) = Some (tx_pos idx)))"

lemma coins_of_pos: "map_option fst (coins_of V h) = map_option tx_pos (V h)"
  by (simp add: coins_of_def option.map_comp comp_def)

lemma coins_spend_pos: "map_option fst (fold coins_spend qs A h) = map_option fst (A h)"
  by (induction qs arbitrary: A) (simp_all add: coins_spend_def set_bit_of_def option.map_comp comp_def case_prod_beta)

lemma connect_coins_pos:
  "map_option fst (coins.connect_coins (entered_coins E txs) A h) = (if h \<in> GetHash E ` set txs then Some mempool_pos else map_option fst (A h))"
proof (induction txs arbitrary: A)
  case (Cons tx txs)
  let ?B = "coins_add (GetHash E tx) (mempool_pos, length (vout tx)) (fold coins_spend (spent_outpoints tx) A)"
  have c: "coins.connect_coins (entered_coins E (tx # txs)) A = coins.connect_coins (entered_coins E txs) ?B" by (simp add: entered_coins_def)
  have b: "map_option fst (?B h) = (if h = GetHash E tx then Some mempool_pos else map_option fst (A h))"
    by (simp add: coins_add_def coins_spend_pos)
  show ?case unfolding c Cons.IH b by simp
qed (simp add: entered_coins_def)

lemma connected_positions:
  assumes "coins_of (V ++ T) = coins.connect_coins (entered_coins E txs) (coins_of V)"
  shows "positions_ok E V txs T"
  unfolding positions_ok_def
proof (intro allI impI)
  fix h idx
  assume "(V ++ T) h = Some idx"
  then have "Some (tx_pos idx) = map_option fst (coins_of (V ++ T) h)" by (simp add: coins_of_pos)
  also have "\<dots> = (if h \<in> GetHash E ` set txs then Some mempool_pos else map_option tx_pos (V h))"
    unfolding assms connect_coins_pos coins_of_pos ..
  finally show "if h \<in> GetHash E ` set txs then tx_pos idx = mempool_pos else map_option tx_pos (V h) = Some (tx_pos idx)" by (simp split: if_splits)
qed

lemma fetch_loop_known:
  assumes "positions_ok E (db_index db) txs T" and "\<forall>h \<in> GetHash E ` set txs. db_index db h = None"
  shows "known_inputs (known_tx db pool) J \<Longrightarrow> fetch_loop db T pool False True is J = Inr I \<Longrightarrow> known_inputs (known_tx db pool) I"
proof (induction "is" arbitrary: J)
  case (Cons i "is")
  let ?h = "prev_hash (prevout i)"
  show ?case
  proof (cases "J ?h")
    case None
    define found where "found = (if T ?h \<noteq> None then T ?h else ReadTxIndex db ?h)"
    have f: "found = (db_index db ++ T) ?h" by (simp add: found_def ReadTxIndex_def map_add_def split: option.split)
    from Cons.prems(2) None obtain idx t where e: "found = Some idx"
        "(if tx_pos idx = mempool_pos then mapTx pool ?h else db_disk db (tx_pos idx)) = Some t"
        "fetch_loop db T pool False True is (J(?h \<mapsto> (idx, t))) = Inr I"
      by (auto simp: Let_def found_def split: if_splits option.splits)
    have "known_tx db pool ?h = Some t"
    proof (cases "?h \<in> GetHash E ` set txs")
      case True
      with assms e(1) f have "tx_pos idx = mempool_pos" "ReadTxIndex db ?h = None" by (auto simp: positions_ok_def ReadTxIndex_def)
      with e(2) show ?thesis by (simp add: known_tx_def)
    next
      case False
      with assms(1) e(1) f have "map_option tx_pos (db_index db ?h) = Some (tx_pos idx)" by (auto simp: positions_ok_def)
      then obtain idx' where "db_index db ?h = Some idx'" "tx_pos idx' = tx_pos idx" by auto
      with e(2) show ?thesis by (simp add: known_tx_def ReadTxIndex_def split: if_splits)
    qed
    with Cons.prems(1) have "known_inputs (known_tx db pool) (J(?h \<mapsto> (idx, t)))" by (auto simp: known_inputs_def)
    from Cons.IH [OF this e(3)] show ?thesis .
  next
    case (Some a)
    with Cons.prems have "fetch_loop db T pool False True is J = Inr I" by (auto simp: Let_def)
    from Cons.IH [OF Cons.prems(1) this] show ?thesis .
  qed
qed simp

lemma FetchInputs_known:
  assumes "FetchInputs db T pool False True tx Map.empty = Inr I" and "positions_ok E (db_index db) txs T" and "\<forall>h \<in> GetHash E ` set txs. db_index db h = None"
  shows "known_inputs (known_tx db pool) I"
  using assms(1) fetch_loop_known [OF assms(2,3), of pool Map.empty "vin tx" I]
  by (auto simp: FetchInputs_def known_inputs_def split: sum.splits if_splits)

definition assembly_ok :: "env \<Rightarrow> block_args \<Rightarrow> node_state \<Rightarrow> CTransaction list \<Rightarrow> 'd assembly \<Rightarrow> bool" where
  "assembly_ok E A S txs0 st \<longleftrightarrow>
     (let db = cd_tx (ns_db S) in
     coins_of (db_index db ++ as_pool st) = coins.connect_coins (entered_coins E (as_vtx st)) (coins_of (db_index db)) \<and>
     coins.connectable (entered_coins E (as_vtx st)) (coins_of (db_index db)) \<and>
     mset (as_vtx st) + mset (map tp_tx (as_queue st)) + mset (map or_ptx (as_orphans st)) \<subseteq># mset txs0 \<and>
     nBlockSize st = 1000 + (\<Sum>tx \<leftarrow> as_vtx st. GetSerializeSize_CTransaction tx) \<and> nBlockSize st \<le> nBlockMaxSize A \<and>
     nBlockSigOps st = 100 + (\<Sum>tx \<leftarrow> as_vtx st. tx_sigops (known_tx db (ns_pool S)) tx) \<and> nBlockSigOps st < MAX_BLOCK_SIGOPS)"

lemma release_mset:
  "mset (map tp_tx (as_queue (release_orphans h st))) + mset (map or_ptx (as_orphans (release_orphans h st))) =
   mset (map tp_tx (as_queue st)) + mset (map or_ptx (as_orphans st))"
proof -
  have "mset (map or_ptx (filter P xs)) + mset (map or_ptx (filter (\<lambda>x. \<not> P x) xs)) = mset (map or_ptx xs)" for P and xs :: "'a COrphan list"
    by (induction xs) auto
  from this [of "\<lambda>orphan. setDependsOn orphan = {}" "release h (as_orphans st)"]
  have "mset (map or_ptx (filter (\<lambda>orphan. setDependsOn orphan = {}) (release h (as_orphans st)))) +
      mset (map or_ptx (filter (\<lambda>orphan. setDependsOn orphan \<noteq> {}) (release h (as_orphans st)))) = mset (map or_ptx (as_orphans st))"
    by (simp add: release_def comp_def)
  then show ?thesis by (simp add: release_orphans_def Let_def comp_def add.assoc)
qed

lemma add_tx_sel [simp]:
  "as_vtx (add_tx E tx T C k v st) = as_vtx st @ [tx]"
  "as_pool (add_tx E tx T C k v st) = T(GetHash E tx \<mapsto> CTxIndex_new mempool_pos (length (vout tx)))"
  "nBlockSize (add_tx E tx T C k v st) = nBlockSize st + GetSerializeSize_CTransaction tx"
  "nBlockSigOps (add_tx E tx T C k v st) = nBlockSigOps st + k"
  by (simp_all add: add_tx_def release_orphans_def Let_def)

lemma add_tx_mset:
  "mset (map tp_tx (as_queue (add_tx E tx T C k v st))) + mset (map or_ptx (as_orphans (add_tx E tx T C k v st))) =
   mset (map tp_tx (as_queue st)) + mset (map or_ptx (as_orphans st))"
  unfolding add_tx_def release_mset by simp

lemma mempool_pos_entry [simp]: "\<not> CDiskTxPos_IsNull mempool_pos"
  by (simp add: CDiskTxPos_IsNull_def mempool_pos_def)

lemma add_tx_ok:
  assumes ok: "assembly_ok E A S txs0 st"
    and room: "mset (as_vtx st) + {#tx#} + mset (map tp_tx (as_queue st)) + mset (map or_ptx (as_orphans st)) \<subseteq># mset txs0"
    and I: "FetchInputs (cd_tx (ns_db S)) (as_pool st) (ns_pool S) False True tx Map.empty = Inr I"
    and c: "ConnectInputs E N C tx I (as_pool st) mempool_pos chain False True = Inr (T, C')"
    and k: "GetP2SHSigOpCount tx I = Inr n" "nBlockSigOps st + (GetLegacySigOpCount tx + n) < MAX_BLOCK_SIGOPS"
    and new: "\<forall>h \<in> GetHash E ` set txs0. db_index (cd_tx (ns_db S)) h = None"
    and z: "nBlockSize st + GetSerializeSize_CTransaction tx \<le> nBlockMaxSize A"
  shows "assembly_ok E A S txs0 (add_tx E tx T C'' (GetLegacySigOpCount tx + n) v st)"
proof -
  let ?V = "db_index (cd_tx (ns_db S))"
  note o = ok [unfolded assembly_ok_def Let_def, simplified]
  from ConnectInputs_coins [OF ConnectInputs_miner [OF c] mempool_pos_entry FetchInputs_fetched [OF I [unfolded FetchInputs_miner]]]
  have s: "coins_of (?V ++ T) = fold coins_spend (spent_outpoints tx) (coins_of (?V ++ as_pool st))" "distinct (spent_outpoints tx)"
    "set (spent_outpoints tx) \<subseteq> coins_unspent (coins_of (?V ++ as_pool st))" by blast+
  have e: "entered_coins E (as_vtx st @ [tx]) = entered_coins E (as_vtx st) @ [coin_entry E tx mempool_pos]" by (simp add: entered_coins_def)
  have "coins_of (?V ++ T(GetHash E tx \<mapsto> CTxIndex_new mempool_pos (length (vout tx)))) =
      coins.connect_coins (entered_coins E (as_vtx st @ [tx])) (coins_of ?V)"
    using o s(1) by (simp add: e coins.connect_coins_append coins_of_add)
  moreover have "coins.connectable (entered_coins E (as_vtx st @ [tx])) (coins_of ?V)"
    using o s(2,3) by (simp add: e coins.connectable_append)
  moreover have "mset (as_vtx st @ [tx]) + mset (map tp_tx (as_queue (add_tx E tx T C'' (GetLegacySigOpCount tx + n) v st))) + mset (map or_ptx (as_orphans (add_tx E tx T C'' (GetLegacySigOpCount tx + n) v st))) \<subseteq># mset txs0"
    using room add_tx_mset [of E tx T C'' "GetLegacySigOpCount tx + n" v st] by (simp add: add.assoc)
  moreover have "mset (as_vtx st) \<subseteq># mset txs0" using o by (meson mset_subset_eq_add_left subset_mset.order_trans)
  then have "\<forall>h \<in> GetHash E ` set (as_vtx st). ?V h = None" using new set_mset_mono by fastforce
  then have "GetLegacySigOpCount tx + n = tx_sigops (known_tx (cd_tx (ns_db S)) (ns_pool S)) tx"
    using GetP2SHSigOpCount_known [OF FetchInputs_known [OF I connected_positions] k(1)] o by blast
  ultimately show ?thesis using o k(2) z by (simp add: assembly_ok_def Let_def)
qed

lemma consider_ok:
  assumes ok: "assembly_ok E A S txs0 st"
    and room: "mset (as_vtx st) + {#tp_tx x#} + mset (map tp_tx (as_queue st)) + mset (map or_ptx (as_orphans st)) \<subseteq># mset txs0"
    and new: "\<forall>h \<in> GetHash E ` set txs0. db_index (cd_tx (ns_db S)) h = None"
    and c: "consider_tx F E A S chain dangling t x st = Some st'"
  shows "assembly_ok E A S txs0 st'"
proof (cases "st' = st")
  case False
  let ?tx = "tp_tx x"
  obtain f m where t: "try_connect E S chain dangling ?tx m (st\<lparr>fSortedByFee := f\<rparr>) = Some st'" and z: "nBlockSize st + GetSerializeSize_CTransaction ?tx < nBlockMaxSize A"
    using c False by (auto simp: consider_tx_def Let_def not_le split: if_splits)
  have ok1: "assembly_ok E A S txs0 (st\<lparr>fSortedByFee := f\<rparr>)" using ok by (simp add: assembly_ok_def Let_def)
  from try_connect_cases [OF t] show ?thesis
  proof cases
    case (1 C)
    then show ?thesis using ok by (simp add: assembly_ok_def Let_def)
  next
    case (2 I T C nP2SH v)
    show ?thesis unfolding 2(6)
      by (rule add_tx_ok [OF _ _ _ 2(2) 2(4) _ new]) (use ok1 room 2(1,5) z in simp_all)
  qed
qed (simp add: ok)

lemma remove_nth_mset: "i < length v \<Longrightarrow> mset v = add_mset (v ! i) (mset (remove_nth i v))"
  by (subst id_take_nth_drop [of i v]) (simp_all add: remove_nth_def del: append_take_drop_id)

lemma assemble_ok:
  "\<forall>h \<in> GetHash E ` set txs0. db_index (cd_tx (ns_db S)) h = None \<Longrightarrow> assembly_ok E A S txs0 st \<Longrightarrow> assemble F E A S chain dangling t st = Some st' \<Longrightarrow> assembly_ok E A S txs0 st'"
proof (induction F E A S chain dangling t st rule: assemble.induct)
  case (1 F E A S chain dangling t st)
  show ?case
  proof (cases "as_queue st = []")
    case True
    with 1 show ?thesis by (simp add: assemble.simps)
  next
    case False
    define i where "i = heap_front (TxPriorityCompare F (fSortedByFee st)) (as_queue st)"
    let ?st = "st\<lparr>as_queue := remove_nth i (as_queue st)\<rparr>"
    obtain st1 where c: "consider_tx F E A S chain dangling t (as_queue st ! i) ?st = Some st1" and r: "assemble F E A S chain dangling t st1 = Some st'"
      using "1.prems"(3) False by (subst (asm) assemble.simps) (auto simp: Let_def i_def [symmetric] split: option.splits)
    have m: "mset (as_queue st) = add_mset (as_queue st ! i) (mset (remove_nth i (as_queue st)))"
      using remove_nth_mset [of i "as_queue st"] heap_front_less [OF False] by (simp add: i_def)
    have sub: "mset (as_vtx st) + mset (map tp_tx (as_queue st)) + mset (map or_ptx (as_orphans st)) \<subseteq># mset txs0" using "1.prems"(2) by (simp add: assembly_ok_def Let_def)
    then have room: "mset (as_vtx ?st) + {#tp_tx (as_queue st ! i)#} + mset (map tp_tx (as_queue ?st)) + mset (map or_ptx (as_orphans ?st)) \<subseteq># mset txs0"
      by (simp add: m)
    then have "mset (as_vtx ?st) + mset (map tp_tx (as_queue ?st)) + mset (map or_ptx (as_orphans ?st)) \<subseteq># mset txs0"
      by (simp add: mset_subset_eq_insertD(1) subset_mset.less_imp_le)
    then have "assembly_ok E A S txs0 ?st" using "1.prems"(2) by (simp add: assembly_ok_def Let_def)
    from "1.IH" [OF False i_def c "1.prems"(1) consider_ok [OF this room "1.prems"(1) c] r] show ?thesis .
  qed
qed

lemma gather_tx_mset:
  assumes "gather_tx F E io A S tx (q, os, d) = Some (q', os', d')"
  shows "mset (map tp_tx q') + mset (map or_ptx os') \<subseteq># mset (map tp_tx q) + mset (map or_ptx os) + {#tx#}"
  using assms by (auto simp: gather_tx_def Let_def split: if_splits gathered.splits option.splits)

lemma gather_pool_mset:
  "gather_pool F E io A S txs (q, os, d) = Some (q', os', d') \<Longrightarrow>
   mset (map tp_tx q') + mset (map or_ptx os') \<subseteq># mset (map tp_tx q) + mset (map or_ptx os) + mset txs"
proof (induction txs arbitrary: q os d)
  case (Cons tx txs)
  obtain q1 os1 d1 where g: "gather_tx F E io A S tx (q, os, d) = Some (q1, os1, d1)" and r: "gather_pool F E io A S txs (q1, os1, d1) = Some (q', os', d')"
    using Cons.prems by (auto split: option.splits)
  have "mset (map tp_tx q1) + mset (map or_ptx os1) + mset txs \<subseteq># mset (map tp_tx q) + mset (map or_ptx os) + {#tx#} + mset txs"
    using gather_tx_mset [OF g] by (rule subset_mset.add_right_mono)
  with Cons.IH [OF r] show ?case by (simp add: subset_mset.order_trans)
qed simp

lemma pool_txs_hashes:
  assumes "pool_inv E p"
  shows "distinct (map (GetHash E) (pool_txs p))" and "set (pool_txs p) = ran (mapTx p)" and "GetHash E ` set (pool_txs p) = dom (mapTx p)"
proof -
  have fin: "finite (dom (mapTx p))" and h: "\<And>h tx. mapTx p h = Some tx \<Longrightarrow> GetHash E tx = h" using assms by (auto simp: pool_inv_def)
  have "map (GetHash E) (pool_txs p) = map id (sorted_list_of_set (dom (mapTx p)))"
    unfolding pool_txs_def map_map by (rule map_cong) (use fin h in auto)
  then have e: "map (GetHash E) (pool_txs p) = sorted_list_of_set (dom (mapTx p))" by simp
  then show "distinct (map (GetHash E) (pool_txs p))" by simp
  show "GetHash E ` set (pool_txs p) = dom (mapTx p)" using e fin by (metis set_map set_sorted_list_of_set)
  show "set (pool_txs p) = ran (mapTx p)" using fin by (auto simp: pool_txs_def ran_def image_iff dom_def) (metis option.sel)
qed

lemma mset_sub_distinct: "mset xs \<subseteq># mset ys \<Longrightarrow> distinct ys \<Longrightarrow> distinct xs"
proof -
  assume s: "mset xs \<subseteq># mset ys" and d: "distinct ys"
  have "count (mset xs) a = (if a \<in> set xs then 1 else 0)" for a
    using mset_subset_eq_count [OF s, of a] d count_mset_0_iff [of xs a] by (auto simp: distinct_count_atmost_1 split: if_splits) (metis One_nat_def count_mset_0_iff le_Suc_eq le_zero_eq)
  then show ?thesis by (simp add: distinct_count_atmost_1)
qed

lemma CreateNewBlock_steps:
  fixes F :: "'d floating"
  assumes "CreateNewBlock F E io A S pubkey fPoS = Some (b, nFees)"
  obtains best chain txNew bits q os d and st :: "'d assembly" where "pindexBest S = Some best" and "chain = entries (mapBlockIndex S) (chain_from (mapBlockIndex S) best)"
    and "gather_pool F E io A S (pool_txs (ns_pool S)) ([], [], {}) = Some (q, os, d)"
    and "assemble F E A S (map CBlockPos.truncate chain) d (if fPoS then Some (nTime txNew) else None) (start_assembly A (ns_cache S) q os) = Some st"
    and "b = finish_block (ns_params S) chain fPoS bits txNew (as_vtx st) nFees"
proof -
  obtain best where best: "pindexBest S = Some best" using assms by (auto simp: CreateNewBlock_def split: option.splits)
  define chain where "chain = entries (mapBlockIndex S) (chain_from (mapBlockIndex S) best)"
  obtain txNew bits q os d st where g: "gather_pool F E io A S (pool_txs (ns_pool S)) ([], [], {}) = Some (q, os, d)"
    and a: "assemble F E A S (map CBlockPos.truncate chain) d (if fPoS then Some (nTime txNew) else None) (start_assembly A (ns_cache S) q os) = Some st"
    and b: "b = finish_block (ns_params S) chain fPoS bits txNew (as_vtx st) nFees"
    using assms best by (auto simp: CreateNewBlock_def Let_def chain_def [symmetric] split: option.splits)
  from that [OF best chain_def g a b] show thesis .
qed

lemma CreateNewBlock_assembled:
  fixes F :: "'d floating"
  assumes "CreateNewBlock F E io A S pubkey fPoS = Some (b, nFees)" and new: "\<forall>h \<in> GetHash E ` set (pool_txs (ns_pool S)). db_index (cd_tx (ns_db S)) h = None"
  obtains chain txNew bits and st :: "'d assembly" where "assembly_ok E A S (pool_txs (ns_pool S)) st"
    and "b = finish_block (ns_params S) chain fPoS bits txNew (as_vtx st) nFees"
proof -
  obtain chain txNew bits q os d and st :: "'d assembly" where g: "gather_pool F E io A S (pool_txs (ns_pool S)) ([], [], {}) = Some (q, os, d)"
    and a: "assemble F E A S (map CBlockPos.truncate chain) d (if fPoS then Some (nTime txNew) else None) (start_assembly A (ns_cache S) q os) = Some st"
    and b: "b = finish_block (ns_params S) chain fPoS bits txNew (as_vtx st) nFees"
    by (rule CreateNewBlock_steps [OF assms(1)])
  have "1000 \<le> nBlockMaxSize A" by (simp add: nBlockMaxSize_def)
  then have "assembly_ok E A S (pool_txs (ns_pool S)) (start_assembly A (ns_cache S) q os)"
    using gather_pool_mset [OF g] by (simp add: assembly_ok_def Let_def start_assembly_def entered_coins_def MAX_BLOCK_SIGOPS_def MAX_BLOCK_SIZE_def)
  from that [OF assemble_ok [OF new this a] b] show thesis .
qed

text \<open>C33: A block the miner creates is filled with transactions of the memory pool that can be connected one after another: on the unspent outputs
  of the transaction index each spends distinct outputs that are unspent at its turn. Together they leave the block, with a thousand bytes and a hundred
  signature operations for the rest, within the limits on size and signature operations; those in scripts paid to by their hash are counted as
  well, against the outputs known from the index and the pool. It is assumed that no transaction of the pool is in the index already.
\<close>

theorem new_block_connects:
  fixes F :: "'d floating"
  assumes "pool_inv E (ns_pool S)" and "\<forall>h \<in> dom (mapTx (ns_pool S)). ReadTxIndex (cd_tx (ns_db S)) h = None"
    and "CreateNewBlock F E io A S pubkey fProofOfStake = Some (b, nFees)"
  shows "utxo_apply E (tl (vtx b)) (utxo (cd_tx (ns_db S))) \<noteq> None \<and> set (tl (vtx b)) \<subseteq> ran (mapTx (ns_pool S)) \<and>
    1000 + (\<Sum>tx \<leftarrow> tl (vtx b). GetSerializeSize_CTransaction tx) \<le> MAX_BLOCK_SIZE - 1000 \<and>
    100 + (\<Sum>tx \<leftarrow> tl (vtx b). tx_sigops (known_tx (cd_tx (ns_db S)) (ns_pool S)) tx) < MAX_BLOCK_SIGOPS"
proof -
  note h = pool_txs_hashes [OF assms(1)]
  have new: "\<forall>h \<in> GetHash E ` set (pool_txs (ns_pool S)). db_index (cd_tx (ns_db S)) h = None"
    using assms(2) unfolding h(3) by (simp add: ReadTxIndex_def)
  obtain chain txNew bits and st :: "'d assembly" where st: "assembly_ok E A S (pool_txs (ns_pool S)) st"
    and b: "b = finish_block (ns_params S) chain fProofOfStake bits txNew (as_vtx st) nFees"
    by (rule CreateNewBlock_assembled [OF assms(3) new]) blast
  let ?txs = "as_vtx st" and ?db = "cd_tx (ns_db S)"
  have v: "tl (vtx b) = ?txs" by (simp add: b finish_block_def Let_def)
  note o = st [unfolded assembly_ok_def Let_def]
  have sub: "mset ?txs \<subseteq># mset (pool_txs (ns_pool S))"
    using o by (meson mset_subset_eq_add_left subset_mset.order_trans)
  have set: "set ?txs \<subseteq> ran (mapTx (ns_pool S))" using set_mset_mono [OF sub] h(2) by simp
  have "mset (map (GetHash E) ?txs) \<subseteq># mset (map (GetHash E) (pool_txs (ns_pool S)))" using image_mset_subseteq_mono [OF sub] by simp
  then have d: "distinct (map (GetHash E) ?txs)" using h(1) by (rule mset_sub_distinct)
  have n: "\<forall>tx \<in> set ?txs. coins.no_unspent (GetHash E tx) (coins_of (db_index ?db))"
  proof
    fix tx
    assume "tx \<in> set ?txs"
    then have "ReadTxIndex ?db (GetHash E tx) = None" using h(2) set new by (auto simp: ReadTxIndex_def)
    then show "coins.no_unspent (GetHash E tx) (coins_of (db_index ?db))" unfolding coins.no_unspent_def utxo_coins [symmetric] by (auto simp: utxo_def)
  qed
  have e: "map2 (coin_entry E) ?txs (replicate (length ?txs) mempool_pos) = entered_coins E ?txs"
    by (simp add: entered_coins_def zip_replicate2 comp_def)
  have "utxo_apply E ?txs (utxo ?db) \<noteq> None"
    using utxo_apply_coins [of E ?txs "replicate (length ?txs) mempool_pos" "coins_of (db_index ?db)"] o d n unfolding e utxo_coins by simp
  moreover have "nBlockMaxSize A \<le> MAX_BLOCK_SIZE - 1000" by (simp add: nBlockMaxSize_def MAX_BLOCK_SIZE_def)
  ultimately show ?thesis using o set unfolding v by linarith
qed

lemma u32_of_int: "0 \<le> x \<Longrightarrow> x < 2 ^ 32 \<Longrightarrow> uint (word_of_int x :: u32) = x"
  by (simp add: uint_word_of_int take_bit_eq_mod)

lemma max_time_bounds: "0 \<le> GetMaxTransactionTime b" "GetMaxTransactionTime b < 2 ^ 32"
proof -
  have "0 \<le> t \<Longrightarrow> t < 2 ^ 32 \<Longrightarrow> 0 \<le> fold (\<lambda>tx t. max t (uint (nTime tx))) txs t \<and> fold (\<lambda>tx t. max t (uint (nTime tx))) txs t < 2 ^ 32" for t txs
  proof (induction txs arbitrary: t)
    case (Cons tx txs)
    have "uint (nTime tx) < 2 ^ 32" by (simp add: unsigned_less [where ?'b = 32, simplified])
    with Cons show ?case by simp
  qed simp
  from this [of 0 "vtx b"] show "0 \<le> GetMaxTransactionTime b" "GetMaxTransactionTime b < 2 ^ 32" by (simp_all add: GetMaxTransactionTime_def)
qed

text \<open>
  The time of a created block satisfies the rules for accepting it: it is later than the median of the last eleven blocks, not earlier than any transaction of
  the block, and at most ten minutes before its predecessor.
\<close>

theorem new_block_time_rules:
  assumes "CreateNewBlock F E io A S pubkey fProofOfStake = Some (b, nFees)" and "pindexBest S = Some best"
    and "chain = entries (mapBlockIndex S) (chain_from (mapBlockIndex S) best)"
    and "0 \<le> GetMedianTimePast chain" and "GetMedianTimePast chain + 1 < 2 ^ 32" and "AdjustedTime (ns_params S) < 2 ^ 32"
  shows "GetMedianTimePast chain < uint (blk_nTime b) \<and> GetMaxTransactionTime b \<le> uint (blk_nTime b) \<and>
    uint (idx_nTime (hd chain)) \<le> FutureDrift (uint (blk_nTime b))"
proof -
  obtain txNew bits txs where b: "b = finish_block (ns_params S) chain fProofOfStake bits txNew txs nFees"
    by (rule CreateNewBlock_steps [OF assms(1)]) (use assms(2,3) in auto)
  define b0 where "b0 = b\<lparr>blk_nTime := 0\<rparr>"
  have t: "blk_nTime b = new_block_time (ns_params S) chain fProofOfStake b0" by (simp add: b b0_def finish_block_def Let_def)
  have m: "GetMaxTransactionTime b = GetMaxTransactionTime b0" by (simp add: b0_def GetMaxTransactionTime_def)
  define M where "M = GetMedianTimePast chain"
  define X where "X = GetMaxTransactionTime b0"
  define p where "p = uint (idx_nTime (hd chain))"
  have X: "0 \<le> X" "X < 2 ^ 32" unfolding X_def by (rule max_time_bounds)+
  have p: "0 \<le> p" "p < 2 ^ 32" unfolding p_def by (simp_all add: unsigned_less [where ?'b = 32, simplified])
  have M: "0 \<le> M" "M + 1 < 2 ^ 32" using assms(4,5) by (simp_all add: M_def)
  have d: "PastDrift p = p - 600" using p by (simp add: PastDrift_def wrap64_id int64_range_def)
  have t0: "uint (word_of_int (max (M + 1) X) :: u32) = max (M + 1) X" using X M by (intro u32_of_int) auto
  have t1: "uint (word_of_int (max (max (M + 1) X) (p - 600)) :: u32) = max (max (M + 1) X) (p - 600)" using X M p by (intro u32_of_int) auto
  have t2: "uint (word_of_int (max (max (max (M + 1) X) (p - 600)) (AdjustedTime (ns_params S))) :: u32) = max (max (max (M + 1) X) (p - 600)) (AdjustedTime (ns_params S))"
    using X M p assms(6) by (intro u32_of_int) auto
  have u: "max (max (M + 1) X) (p - 600) \<le> uint (blk_nTime b)"
  proof (cases fProofOfStake)
    case True
    then have "uint (blk_nTime b) = max (max (M + 1) X) (p - 600)"
      unfolding t new_block_time_def Let_def M_def [symmetric] X_def [symmetric] p_def [symmetric] d t0 by (simp only: simp_thms if_False t1)
    then show ?thesis by simp
  next
    case False
    then have "uint (blk_nTime b) = max (max (max (M + 1) X) (p - 600)) (AdjustedTime (ns_params S))"
      unfolding t new_block_time_def Let_def M_def [symmetric] X_def [symmetric] p_def [symmetric] d t0 by (simp only: simp_thms if_True t1 t2)
    then show ?thesis by simp
  qed
  have "uint (blk_nTime b) < 2 ^ 32" by (simp add: unsigned_less [where ?'b = 32, simplified])
  then have "FutureDrift (uint (blk_nTime b)) = uint (blk_nTime b) + 600" by (simp add: FutureDrift_def wrap64_id int64_range_def)
  with u show ?thesis unfolding m M_def [symmetric] X_def [symmetric] p_def [symmetric] by simp
qed

end
