(* ===== verification/MinerSamples.thy ===== *)
theory MinerSamples
  imports Miner ChainSamples
begin

text \<open>
  A block made from a concrete pool, for the properties of theory \<open>Miner\<close>: the pool holds \<open>tx_sample\<close>, which spends an output of the index,
  and the ratings are computed with integers.
\<close>

definition int_floating :: "int floating" where
  "int_floating = \<lparr>fl_of_int = (\<lambda>x. x), fl_add = (+), fl_mul = (*), fl_div = (div), fl_less = (<), fl_eq = (=)\<rparr>"

definition miner_args :: block_args where
  "miner_args = \<lparr>arg_blockmaxsize = 250000, arg_blockprioritysize = 27000, arg_blockminsize = 0, nMinTxFee = 10000, COINBASE_FLAGS = [], fDebug = False\<rparr>"

definition miner_node :: node_state where
  "miner_node = node_sample\<lparr>ns_params := params_sample\<lparr>AdjustedTime := 100\<rparr>, ns_db := chain_db_sample\<lparr>cd_tx := db_sample\<rparr>,
     ns_pool := addUnchecked 65 tx_sample empty_pool\<rparr>"

lemma miner_fields:
  "ns_params miner_node = params_sample\<lparr>AdjustedTime := 100\<rparr>" "cd_tx (ns_db miner_node) = db_sample"
  "ns_pool miner_node = addUnchecked 65 tx_sample empty_pool" "ns_cache miner_node = empty_cache" "pindexBest miner_node = Some 0"
  "entries (mapBlockIndex miner_node) (chain_from (mapBlockIndex miner_node) 0) = [CBlockIndex.truncate genesis_node]"
  "mapTx (ns_pool miner_node) = [65 \<mapsto> tx_sample]"
proof -
  show "ns_params miner_node = params_sample\<lparr>AdjustedTime := 100\<rparr>" "cd_tx (ns_db miner_node) = db_sample"
    "ns_pool miner_node = addUnchecked 65 tx_sample empty_pool" "ns_cache miner_node = empty_cache" "pindexBest miner_node = Some 0"
    by (simp_all add: miner_node_def node_sample_def)
  have "mapBlockIndex miner_node = [0 \<mapsto> genesis_node, 80 \<mapsto> mined_node]" by (simp add: miner_node_def node_sample_def)
  then show "entries (mapBlockIndex miner_node) (chain_from (mapBlockIndex miner_node) 0) = [CBlockIndex.truncate genesis_node]"
    by (simp add: sample_chain entries_def List.map_filter_simps)
  show "mapTx (ns_pool miner_node) = [65 \<mapsto> tx_sample]" by (simp add: miner_node_def addUnchecked_def empty_pool_def)
qed

lemma sample_values:
  "wrap64 50000 = 50000" "wrap64 30000 = 30000" "wrap64 20000 = 20000" "MoneyRange 50000" "MoneyRange 30000" "MoneyRange 20000"
  "GetValueOut tx_sample = Some 30000" "\<not> IsCoinBase tx_sample" "\<not> IsCoinStake tx_sample" "IsFinal N 0 0 tx_sample"
proof -
  show w: "wrap64 50000 = 50000" "wrap64 30000 = 30000" "wrap64 20000 = 20000" by (simp_all add: wrap64_id int64_range_def)
  show m: "MoneyRange 50000" "MoneyRange 30000" "MoneyRange 20000" by (simp_all add: MoneyRange_def MAX_MONEY_small)
  show "GetValueOut tx_sample = Some 30000" using w m by (simp add: GetValueOut_def tx_sample_def)
  show "\<not> IsCoinBase tx_sample" "\<not> IsCoinStake tx_sample" by (simp_all add: IsCoinBase_def IsCoinStake_def COutPoint_IsNull_def tx_sample_def)
  show "IsFinal N 0 0 tx_sample" by (simp add: IsFinal_def tx_sample_def)
qed

lemma miner_fetch: "FetchInputs db_sample Map.empty (addUnchecked 65 tx_sample empty_pool) False True tx_sample Map.empty = Inr inputs_sample"
  by (simp add: FetchInputs_def IsCoinBase_def COutPoint_IsNull_def tx_sample_def db_sample_def ReadTxIndex_def
      mempool_pos_def CTxIndex_new_def prevout_in_range_def prev_sample_def inputs_sample_def)

lemma miner_connect:
  "\<exists>T. ConnectInputs len_env (params_sample\<lparr>AdjustedTime := 100\<rparr>) empty_cache tx_sample inputs_sample Map.empty mempool_pos chain False True = Inr (T, empty_cache)"
proof -
  let ?N = "params_sample\<lparr>AdjustedTime := 100\<rparr>"
  have f: "GetMinFee tx_sample 1 GMF_BLOCK 0 = 10000" by (simp add: GetMinFee_eq MIN_TX_FEE_def MAX_MONEY_small)
  have v: "VerifySignature len_env empty_cache prev_sample tx_sample 0 0 = Some (True, empty_cache)"
    using sample_hashes(1) sample_script by (simp add: VerifySignature_def tx_sample_def prev_sample_def)
  have c: "connect_check ?N chain (nTime tx_sample) inputs_sample (vin tx_sample) 0 = Inr 50000"
    using sample_values(1-6) by (simp add: tx_sample_def inputs_sample_def prev_sample_def prevout_in_range_def CTxIndex_new_def IsCoinBase_def IsCoinStake_def)
  have one: "length (vin tx_sample) = 1" "prevout (vin tx_sample ! 0) = \<lparr>prev_hash = 24, prev_n = 0\<rparr>"
    by (simp_all add: tx_sample_def)
  show ?thesis using c v f one sample_values
    by (simp add: ConnectInputs_def connect_fees_def inputs_sample_def CTxIndex_new_def CDiskTxPos_IsNull_def CDiskTxPos_SetNull_def Let_def)
qed

lemma miner_gather:
  obtains x where "gather_pool int_floating len_env io_sample miner_args miner_node (pool_txs (ns_pool miner_node)) ([], [], {}) = Some ([x], [], {})" and "tp_tx x = tx_sample"
proof -
  have p: "pool_txs (ns_pool miner_node) = [tx_sample]" by (simp add: pool_txs_def miner_fields(7))
  have v: "vin tx_sample = [\<lparr>prevout = \<lparr>prev_hash = 24, prev_n = 0\<rparr>, scriptSig = [], nSequence = 0\<rparr>]" by (simp add: tx_sample_def)
  have r: "read_prev db_sample \<lparr>prev_hash = 24, prev_n = 0\<rparr> = Some (CTxIndex_new \<lparr>nFile = 1, nBlockPos = 8, nTxPos = 9\<rparr> 1, prev_sample)"
    by (simp add: read_prev_def ReadTxIndex_def db_sample_def CTxIndex_new_def prev_sample_def)
  have o: "nValue (vout prev_sample ! 0) = 50000" by (simp add: prev_sample_def)
  obtain d where g: "gather_inputs int_floating len_env io_sample miner_node (vin tx_sample) (fl_of_int int_floating 0) 0 {} = Gathered d 50000 {}"
    by (simp add: v miner_fields(2) r o sample_values Let_def)
  obtain x where "gather_tx int_floating len_env io_sample miner_args miner_node tx_sample ([], [], {}) = Some ([x], [], {})" "tp_tx x = tx_sample"
    by (simp add: gather_tx_def sample_values g Let_def)
  then show thesis using that [of x] by (simp add: p)
qed

lemma miner_assembles:
  assumes "tp_tx x = tx_sample"
  shows "\<exists>st. assemble int_floating len_env miner_args miner_node chain {} None (start_assembly miner_args empty_cache [x] []) = Some st \<and> as_vtx st = [tx_sample]"
proof -
  let ?st0 = "start_assembly miner_args empty_cache [x] [] :: int assembly"
  have s: "nBlockMaxSize miner_args = 250000" "nBlockPrioritySize miner_args = 27000" "nBlockMinSize miner_args = 0"
    by (simp_all add: nBlockPrioritySize_def nBlockMaxSize_def nBlockMinSize_def miner_args_def MAX_BLOCK_SIZE_def)
  obtain T where c: "ConnectInputs len_env (params_sample\<lparr>AdjustedTime := 100\<rparr>) empty_cache tx_sample inputs_sample Map.empty mempool_pos chain False True = Inr (T, empty_cache)"
    using miner_connect by blast
  have q: "GetLegacySigOpCount tx_sample = 0" by code_simp
  have p: "GetP2SHSigOpCount tx_sample inputs_sample = Inr 0"
    using sample_values(8) by (simp add: GetP2SHSigOpCount_def) (simp add: tx_sample_def inputs_sample_def prev_sample_def GetOutputFor_def IsPayToScriptHash_def)
  have i: "GetValueIn tx_sample inputs_sample = Inr 50000"
    using sample_values by (simp add: GetValueIn_def) (simp add: tx_sample_def inputs_sample_def prev_sample_def GetOutputFor_def)
  have f: "GetMinFee tx_sample 1000 GMF_BLOCK 0 = 10000" by (simp add: GetMinFee_eq MIN_TX_FEE_def MAX_MONEY_small MAX_BLOCK_SIZE_GEN_def MAX_BLOCK_SIZE_def)
  have t: "try_connect len_env miner_node chain {} tx_sample 10000 st = Some (add_tx len_env tx_sample T empty_cache 0 20000 st)"
    if "as_pool st = Map.empty" "as_cache st = empty_cache" "nBlockSigOps st = 100" for st :: "int assembly"
    using that by (simp add: try_connect_def miner_fields(1-3) miner_fetch i sample_values p q c MAX_BLOCK_SIGOPS_def MAX_BLOCK_SIZE_def)
  have n: "uint (nTime tx_sample) = 5" by (simp add: tx_sample_def)
  obtain g where k: "consider_tx int_floating len_env miner_args miner_node chain {} None x (?st0\<lparr>as_queue := []\<rparr>) =
      Some (add_tx len_env tx_sample T empty_cache 0 20000 (?st0\<lparr>as_queue := [], fSortedByFee := g\<rparr>))"
    by (simp add: consider_tx_def assms s q n f t sample_hashes(3) start_assembly_def miner_fields(1) MAX_BLOCK_SIGOPS_def MAX_BLOCK_SIZE_def Let_def)
  have h: "heap_front (TxPriorityCompare int_floating b) [x] = 0" for b
    by (simp add: heap_front_def TxPriorityCompare_def int_floating_def)
  define st1 where "st1 = add_tx len_env tx_sample T empty_cache 0 20000 (?st0\<lparr>as_queue := [], fSortedByFee := g\<rparr>)"
  have e: "as_queue st1 = []" "as_vtx st1 = [tx_sample]"
    by (simp_all add: st1_def add_tx_def release_orphans_def release_def start_assembly_def Let_def)
  have "as_queue ?st0 = [x]" by (simp add: start_assembly_def)
  then have "assemble int_floating len_env miner_args miner_node chain {} None ?st0 = assemble int_floating len_env miner_args miner_node chain {} None st1"
    using k by (subst assemble.simps) (simp add: h remove_nth_def st1_def)
  also have "\<dots> = Some st1" by (subst assemble.simps) (simp add: e)
  finally show ?thesis using e by blast
qed

lemma miner_block:
  obtains b nFees where "CreateNewBlock int_floating len_env io_sample miner_args miner_node (Some [2]) False = Some (b, nFees)" and "tl (vtx b) = [tx_sample]"
proof -
  obtain x where g: "gather_pool int_floating len_env io_sample miner_args miner_node (pool_txs (ns_pool miner_node)) ([], [], {}) = Some ([x], [], {})"
    and x: "tp_tx x = tx_sample" by (rule miner_gather)
  let ?chain = "[CBlockIndex.truncate genesis_node]"
  obtain st where a: "assemble int_floating len_env miner_args miner_node (map CBlockPos.truncate ?chain) {} None (start_assembly miner_args empty_cache [x] []) = Some st"
    "as_vtx st = [tx_sample]" using miner_assembles [OF x] by blast
  obtain bits where t: "GetNextTargetRequired len_env (ns_params miner_node) ?chain False = Some bits" by (simp add: GetNextTargetRequired_def Let_def)
  obtain txNew where c: "new_coinbase len_env miner_args (ns_params miner_node) (bp_nHeight (hd ?chain) + 1) (Some [2]) False = Some txNew"
    by (simp add: new_coinbase_def Let_def)
  show thesis
    by (rule that [of "finish_block (ns_params miner_node) ?chain False bits txNew [tx_sample] (as_nFees st)" "as_nFees st"])
      (use a t c g in \<open>simp_all add: CreateNewBlock_def miner_fields(4-6) Let_def\<close>, simp add: finish_block_def Let_def)
qed

theorem new_block_connects_witness:
  "\<exists>b nFees. CreateNewBlock int_floating len_env io_sample miner_args miner_node (Some [2]) False = Some (b, nFees) \<and> tl (vtx b) = [tx_sample] \<and>
     utxo_apply len_env [tx_sample] (utxo db_sample) \<noteq> None"
proof -
  obtain b nFees where b: "CreateNewBlock int_floating len_env io_sample miner_args miner_node (Some [2]) False = Some (b, nFees)" "tl (vtx b) = [tx_sample]"
    by (rule miner_block)
  have "pool_inv len_env (addUnchecked 65 tx_sample empty_pool)"
    by (rule pool_inv_addUnchecked [OF pool_inv_empty]) (simp_all add: sample_hashes, simp_all add: empty_pool_def tx_sample_def)
  then have p: "pool_inv len_env (ns_pool miner_node)" by (simp add: miner_fields(3))
  have u: "\<forall>h \<in> dom (mapTx (ns_pool miner_node)). ReadTxIndex (cd_tx (ns_db miner_node)) h = None"
    by (simp add: miner_fields(2,7) ReadTxIndex_def db_sample_def)
  from new_block_connects [OF p u b(1)] b show ?thesis by (auto simp: miner_fields(2))
qed

theorem new_block_time_rules_witness:
  "\<exists>b nFees. CreateNewBlock int_floating len_env io_sample miner_args miner_node (Some [2]) False = Some (b, nFees) \<and>
     GetMaxTransactionTime b \<le> uint (blk_nTime b) \<and> GetMedianTimePast [CBlockIndex.truncate genesis_node] < uint (blk_nTime b)"
proof -
  obtain b nFees where b: "CreateNewBlock int_floating len_env io_sample miner_args miner_node (Some [2]) False = Some (b, nFees)"
    by (rule miner_block)
  have n: "idx_nTime genesis_node = blk_nTime block_sample" by (simp add: genesis_node_def CBlockIndex.extend_def index_sample_def CBlockIndex_new_def)
  have "GetMedianTimePast [CBlockIndex.truncate genesis_node] = uint (idx_nTime genesis_node)" by (simp add: GetMedianTimePast_def CBlockIndex.truncate_def)
  also have "\<dots> = uint (blk_nTime block_sample)" by (simp add: n)
  finally have m: "0 \<le> GetMedianTimePast [CBlockIndex.truncate genesis_node]" "GetMedianTimePast [CBlockIndex.truncate genesis_node] + 1 < 2 ^ 32"
    by (simp_all add: block_sample_def)
  from new_block_time_rules [OF b miner_fields(5) miner_fields(6) [symmetric] m] b show ?thesis by (auto simp: miner_fields(1))
qed

end
