(* ===== verification/OrphanTx.thy ===== *)
theory OrphanTx
  imports Failures
begin

text \<open>
  Transactions received before the transactions they spend, from src/src/main.cpp: \<^verbatim>\<open>AddOrphanTx\<close>, \<^verbatim>\<open>EraseOrphanTx\<close>, \<^verbatim>\<open>LimitOrphanTxSize\<close>,
  \<^verbatim>\<open>AlreadyHave\<close> and the handler of the message \<^verbatim>\<open>tx\<close> in \<^verbatim>\<open>ProcessMessage\<close>. The hash drawn for each eviction is an argument.
\<close>

section \<open>The waiting transactions\<close>

record orphan_txs =
  mapOrphanTransactions :: "u256 \<rightharpoonup> CTransaction"
  mapOrphanTransactionsByPrev :: "u256 \<rightharpoonup> u256 set"

text \<open>The element access of \<^verbatim>\<open>std::map\<close>, which enters an empty set for a new key.\<close>

definition at_prev :: "u256 \<Rightarrow> (u256 \<rightharpoonup> u256 set) \<Rightarrow> u256 set" where
  "at_prev p m = (case m p of None \<Rightarrow> {} | Some hs \<Rightarrow> hs)"

fun insert_by_prev :: "u256 \<Rightarrow> CTxIn list \<Rightarrow> (u256 \<rightharpoonup> u256 set) \<Rightarrow> u256 \<rightharpoonup> u256 set" where
  "insert_by_prev h [] m = m"
| "insert_by_prev h (i # is) m = insert_by_prev h is (m(prev_hash (prevout i) \<mapsto> insert h (at_prev (prev_hash (prevout i)) m)))"

definition AddOrphanTx :: "env \<Rightarrow> CTransaction \<Rightarrow> orphan_txs \<Rightarrow> bool \<times> orphan_txs" where
  "AddOrphanTx E tx orphans =
     (let h = GetHash E tx
      in if mapOrphanTransactions orphans h \<noteq> None then (False, orphans)
         else if GetSerializeSize_CTransaction tx > 5000 then (False, orphans)
         else (True, \<lparr>mapOrphanTransactions = (mapOrphanTransactions orphans)(h \<mapsto> tx),
                      mapOrphanTransactionsByPrev = insert_by_prev h (vin tx) (mapOrphanTransactionsByPrev orphans)\<rparr>))"

fun erase_by_prev :: "u256 \<Rightarrow> CTxIn list \<Rightarrow> (u256 \<rightharpoonup> u256 set) \<Rightarrow> u256 \<rightharpoonup> u256 set" where
  "erase_by_prev h [] m = m"
| "erase_by_prev h (i # is) m =
     (let p = prev_hash (prevout i); hs = at_prev p m - {h}
      in erase_by_prev h is (if hs = {} then m(p := None) else m(p \<mapsto> hs)))"

definition EraseOrphanTx :: "u256 \<Rightarrow> orphan_txs \<Rightarrow> orphan_txs" where
  "EraseOrphanTx h orphans =
     (case mapOrphanTransactions orphans h of
        None \<Rightarrow> orphans
      | Some tx \<Rightarrow> \<lparr>mapOrphanTransactions = (mapOrphanTransactions orphans)(h := None),
                    mapOrphanTransactionsByPrev = erase_by_prev h (vin tx) (mapOrphanTransactionsByPrev orphans)\<rparr>)"

definition evicted_key :: "u256 \<Rightarrow> orphan_txs \<Rightarrow> u256" where
  "evicted_key randomhash orphans =
     (let ks = sorted_list_of_set (dom (mapOrphanTransactions orphans))
      in case find (\<lambda>k. randomhash \<le> k) ks of None \<Rightarrow> hd ks | Some k \<Rightarrow> k)"

lemma evicted_key_dom:
  assumes "card (dom (mapOrphanTransactions orphans)) > 0"
  shows "evicted_key r orphans \<in> dom (mapOrphanTransactions orphans)"
proof -
  have f: "finite (dom (mapOrphanTransactions orphans))" "dom (mapOrphanTransactions orphans) \<noteq> {}" using assms card_gt_0_iff by blast+
  then have "sorted_list_of_set (dom (mapOrphanTransactions orphans)) \<noteq> []" by simp
  then have "hd (sorted_list_of_set (dom (mapOrphanTransactions orphans))) \<in> dom (mapOrphanTransactions orphans)"
    using f(1) hd_in_set set_sorted_list_of_set by blast
  moreover have "k \<in> dom (mapOrphanTransactions orphans)"
    if "find (\<lambda>k. r \<le> k) (sorted_list_of_set (dom (mapOrphanTransactions orphans))) = Some k" for k
    using that f(1) unfolding find_Some_iff by (metis nth_mem set_sorted_list_of_set)
  ultimately show ?thesis by (auto simp: evicted_key_def Let_def split: option.split)
qed

lemma EraseOrphanTx_map [simp]: "mapOrphanTransactions (EraseOrphanTx h orphans) = (mapOrphanTransactions orphans)(h := None)"
  by (auto simp: EraseOrphanTx_def split: option.split)

lemma EraseOrphanTx_card:
  "h \<in> dom (mapOrphanTransactions orphans) \<Longrightarrow> card (dom (mapOrphanTransactions orphans)) > 0 \<Longrightarrow>
   card (dom (mapOrphanTransactions (EraseOrphanTx h orphans))) < card (dom (mapOrphanTransactions orphans))"
  by (metis EraseOrphanTx_map card_Diff1_less card_ge_0_finite dom_fun_upd)

function LimitOrphanTxSize :: "(nat \<Rightarrow> u256) \<Rightarrow> nat \<Rightarrow> nat \<Rightarrow> orphan_txs \<Rightarrow> nat \<times> orphan_txs" where
  "LimitOrphanTxSize GetRandHash nMaxOrphans nEvicted orphans =
     (if card (dom (mapOrphanTransactions orphans)) > nMaxOrphans
      then LimitOrphanTxSize GetRandHash nMaxOrphans (Suc nEvicted) (EraseOrphanTx (evicted_key (GetRandHash nEvicted) orphans) orphans)
      else (nEvicted, orphans))"
  by pat_completeness auto

termination LimitOrphanTxSize
proof (relation "measure (\<lambda>(R, n, k, orphans). card (dom (mapOrphanTransactions orphans)))")
  fix R :: "nat \<Rightarrow> u256" and n k and orphans :: orphan_txs
  assume "n < card (dom (mapOrphanTransactions orphans))"
  then have "card (dom (mapOrphanTransactions orphans)) > 0" by simp
  from EraseOrphanTx_card [OF evicted_key_dom [OF this] this]
  show "((R, n, Suc k, EraseOrphanTx (evicted_key (R k) orphans) orphans), R, n, k, orphans) \<in> measure (\<lambda>(R, n, k, orphans). card (dom (mapOrphanTransactions orphans)))"
    by (simp del: EraseOrphanTx_map)
qed simp

declare LimitOrphanTxSize.simps [simp del]

section \<open>The message tx\<close>

text \<open>
  What the handler changes: the memory pool, the signature cache, the waiting transactions, the requests in \<^verbatim>\<open>mapAlreadyAskedFor\<close> for transactions, the
  transactions handed to \<^verbatim>\<open>SyncWithWallets\<close> and \<^verbatim>\<open>RelayTransaction\<close>, and the scores passed to \<^verbatim>\<open>Misbehaving\<close> of the sending peer.
\<close>

record tx_node =
  tn_pool :: CTxMemPool
  tn_cache :: CSignatureCache
  tn_orphans :: orphan_txs
  tn_asked :: "u256 set"
  tn_synced :: "CTransaction list"
  tn_relayed :: "(CTransaction \<times> u256) list"
  tn_misbehaviour :: nat

record tx_context =
  cx_env :: env
  cx_params :: node_params
  cx_db :: CTxDB
  cx_chain :: "CBlockPos list"
  cx_limited :: bool

definition AcceptToMemoryPool :: "tx_context \<Rightarrow> CTransaction \<Rightarrow> tx_node \<Rightarrow> (failure \<times> bool \<times> CSignatureCache) + (CTxMemPool \<times> CSignatureCache)" where
  "AcceptToMemoryPool X tx S = accept (cx_env X) (cx_params X) (tn_cache S) (cx_db X) (tn_pool S) (cx_chain X) (cx_limited X) tx True"

definition accepted_tx :: "CTransaction \<Rightarrow> CTransaction \<Rightarrow> u256 \<Rightarrow> CTxMemPool \<Rightarrow> CSignatureCache \<Rightarrow> tx_node \<Rightarrow> tx_node" where
  "accepted_tx synced relayed h p C S =
     S\<lparr>tn_pool := p, tn_cache := C, tn_asked := tn_asked S - {h}, tn_synced := tn_synced S @ [synced], tn_relayed := tn_relayed S @ [(relayed, h)]\<rparr>"

definition orphan_at :: "tx_context \<Rightarrow> u256 \<Rightarrow> tx_node \<Rightarrow> CTransaction \<times> tx_node" where
  "orphan_at X h S =
     (case mapOrphanTransactions (tn_orphans S) h of
        Some tx \<Rightarrow> (tx, S)
      | None \<Rightarrow>
          (let tx = null_tx (word_of_int (AdjustedTime (cx_params X)))
           in (tx, S\<lparr>tn_orphans := (tn_orphans S)\<lparr>mapOrphanTransactions := (mapOrphanTransactions (tn_orphans S))(h \<mapsto> tx)\<rparr>\<rparr>)))"

text \<open>The transactions that wait for one: the new entries of the work queue and of the erase queue.\<close>

fun retry_orphans :: "tx_context \<Rightarrow> CTransaction \<Rightarrow> u256 list \<Rightarrow> tx_node \<Rightarrow> u256 list \<Rightarrow> u256 list \<Rightarrow> (failure \<times> tx_node) + (tx_node \<times> u256 list \<times> u256 list)" where
  "retry_orphans X tx [] S vWorkQueue vEraseQueue = Inr (S, vWorkQueue, vEraseQueue)"
| "retry_orphans X tx (h # hs) S vWorkQueue vEraseQueue =
     (case orphan_at X h S of (orphanTx, S) \<Rightarrow>
        (case AcceptToMemoryPool X orphanTx S of
           Inr (p, C) \<Rightarrow> retry_orphans X tx hs (accepted_tx tx orphanTx h p C S) (vWorkQueue @ [h]) (vEraseQueue @ [h])
         | Inl (Rejected nDoS, fMissingInputs2, C) \<Rightarrow>
             retry_orphans X tx hs (S\<lparr>tn_cache := C\<rparr>) vWorkQueue (if fMissingInputs2 then vEraseQueue else vEraseQueue @ [h])
         | Inl (e, _, C) \<Rightarrow> Inl (e, S\<lparr>tn_cache := C\<rparr>)))"

definition touch_prev :: "u256 \<Rightarrow> tx_node \<Rightarrow> tx_node" where
  "touch_prev h S =
     S\<lparr>tn_orphans := (tn_orphans S)\<lparr>mapOrphanTransactionsByPrev :=
         (mapOrphanTransactionsByPrev (tn_orphans S))(h \<mapsto> at_prev h (mapOrphanTransactionsByPrev (tn_orphans S)))\<rparr>\<rparr>"

fun work_loop :: "nat \<Rightarrow> tx_context \<Rightarrow> CTransaction \<Rightarrow> u256 list \<Rightarrow> tx_node \<Rightarrow> u256 list \<Rightarrow> ((failure \<times> tx_node) + (tx_node \<times> u256 list)) option" where
  "work_loop fuel X tx [] S vEraseQueue = Some (Inr (S, vEraseQueue))"
| "work_loop 0 X tx (hPrev # queue) S vEraseQueue = None"
| "work_loop (Suc fuel) X tx (hPrev # queue) S vEraseQueue =
     (case retry_orphans X tx (sorted_list_of_set (at_prev hPrev (mapOrphanTransactionsByPrev (tn_orphans S)))) (touch_prev hPrev S) queue vEraseQueue of
        Inl r \<Rightarrow> Some (Inl r)
      | Inr (S', queue', vEraseQueue') \<Rightarrow> work_loop fuel X tx queue' S' vEraseQueue')"

definition ProcessMessage_tx :: "nat \<Rightarrow> tx_context \<Rightarrow> (nat \<Rightarrow> u256) \<Rightarrow> CTransaction \<Rightarrow> tx_node \<Rightarrow> ((failure \<times> tx_node) + tx_node) option" where
  "ProcessMessage_tx fuel X GetRandHash tx S =
     (let h = GetHash (cx_env X) tx
      in case AcceptToMemoryPool X tx S of
           Inr (p, C) \<Rightarrow>
             (case work_loop fuel X tx [h] (accepted_tx tx tx h p C S) [h] of
                None \<Rightarrow> None
              | Some (Inl r) \<Rightarrow> Some (Inl r)
              | Some (Inr (S', vEraseQueue)) \<Rightarrow> Some (Inr (S'\<lparr>tn_orphans := fold EraseOrphanTx vEraseQueue (tn_orphans S')\<rparr>)))
         | Inl (Rejected nDoS, fMissingInputs, C) \<Rightarrow>
             (let orphans = (if fMissingInputs then snd (LimitOrphanTxSize GetRandHash MAX_ORPHAN_TRANSACTIONS 0 (snd (AddOrphanTx (cx_env X) tx (tn_orphans S))))
                             else tn_orphans S)
              in Some (Inr (S\<lparr>tn_cache := C, tn_orphans := orphans, tn_misbehaviour := tn_misbehaviour S + nDoS\<rparr>)))
         | Inl (e, _, C) \<Rightarrow> Some (Inl (e, S\<lparr>tn_cache := C\<rparr>)))"

definition AlreadyHave_tx :: "CTxDB \<Rightarrow> tx_node \<Rightarrow> u256 \<Rightarrow> bool" where
  "AlreadyHave_tx db S h \<longleftrightarrow> mapTx (tn_pool S) h \<noteq> None \<or> mapOrphanTransactions (tn_orphans S) h \<noteq> None \<or> ContainsTx db h"

section \<open>Consistency\<close>

definition prevs :: "CTransaction \<Rightarrow> u256 set" where
  "prevs tx = (prev_hash \<circ> prevout) ` set (vin tx)"

definition orphan_inv :: "env \<Rightarrow> orphan_txs \<Rightarrow> bool" where
  "orphan_inv E orphans \<longleftrightarrow>
     finite (dom (mapOrphanTransactions orphans)) \<and>
     (\<forall>h tx. mapOrphanTransactions orphans h = Some tx \<longrightarrow> GetHash E tx = h \<and> GetSerializeSize_CTransaction tx \<le> 5000) \<and>
     (\<forall>p h. h \<in> at_prev p (mapOrphanTransactionsByPrev orphans) \<longleftrightarrow> (\<exists>tx. mapOrphanTransactions orphans h = Some tx \<and> p \<in> prevs tx))"

lemma at_prev_upd [simp]: "at_prev p (m(q \<mapsto> hs)) = (if p = q then hs else at_prev p m)" "at_prev p (m(q := None)) = (if p = q then {} else at_prev p m)"
  by (simp_all add: at_prev_def)

lemma at_prev_insert: "at_prev p (insert_by_prev h is m) = (if p \<in> (prev_hash \<circ> prevout) ` set is then insert h (at_prev p m) else at_prev p m)"
proof (induction "is" arbitrary: m)
  case (Cons i "is")
  show ?case unfolding insert_by_prev.simps Cons.IH at_prev_upd by auto
qed simp

lemma at_prev_erase: "at_prev p (erase_by_prev h is m) = (if p \<in> (prev_hash \<circ> prevout) ` set is then at_prev p m - {h} else at_prev p m)"
proof (induction "is" arbitrary: m)
  case (Cons i "is")
  have "at_prev q (if A = {} then m(r := None) else m(r \<mapsto> A)) = (if q = r then A else at_prev q m)" for q r A by simp
  then show ?case unfolding erase_by_prev.simps Let_def Cons.IH by auto
qed simp

lemma orphan_inv_add:
  assumes "orphan_inv E orphans"
  shows "orphan_inv E (snd (AddOrphanTx E tx orphans))"
  using assms by (auto simp: orphan_inv_def AddOrphanTx_def Let_def at_prev_insert prevs_def)

lemma orphan_inv_erase:
  assumes "orphan_inv E orphans"
  shows "orphan_inv E (EraseOrphanTx h orphans)"
  using assms by (auto simp: orphan_inv_def EraseOrphanTx_def at_prev_erase prevs_def split: option.split)

lemma erase_fold:
  "orphan_inv E orphans \<Longrightarrow> orphan_inv E (fold EraseOrphanTx hs orphans)"
  "mapOrphanTransactions (fold EraseOrphanTx hs orphans) = mapOrphanTransactions orphans |` (- set hs)"
  by (induction hs arbitrary: orphans) (auto simp: orphan_inv_erase restrict_map_def fun_eq_iff)

lemma limit_spec:
  assumes "orphan_inv E orphans"
  shows "orphan_inv E (snd (LimitOrphanTxSize R n k orphans)) \<and> card (dom (mapOrphanTransactions (snd (LimitOrphanTxSize R n k orphans)))) \<le> n \<and>
    mapOrphanTransactions (snd (LimitOrphanTxSize R n k orphans)) \<subseteq>\<^sub>m mapOrphanTransactions orphans"
  using assms
proof (induction R n k orphans rule: LimitOrphanTxSize.induct)
  case (1 R n k orphans)
  show ?case
  proof (cases "card (dom (mapOrphanTransactions orphans)) > n")
    case True
    have "mapOrphanTransactions (EraseOrphanTx h orphans) \<subseteq>\<^sub>m mapOrphanTransactions orphans" for h by (simp add: map_le_def)
    then have "mapOrphanTransactions (snd (LimitOrphanTxSize R n (Suc k) (EraseOrphanTx (evicted_key (R k) orphans) orphans))) \<subseteq>\<^sub>m mapOrphanTransactions orphans"
      using "1.IH" [OF True orphan_inv_erase [OF "1.prems"]] map_le_trans by blast
    moreover have "LimitOrphanTxSize R n k orphans = LimitOrphanTxSize R n (Suc k) (EraseOrphanTx (evicted_key (R k) orphans) orphans)"
      using True by (subst LimitOrphanTxSize.simps) simp
    ultimately show ?thesis using "1.IH" [OF True orphan_inv_erase [OF "1.prems"]] by simp
  next
    case False
    with "1.prems" show ?thesis by (subst (1 2 3) LimitOrphanTxSize.simps) simp
  qed
qed

section \<open>Waiting\<close>

text \<open>An input of the transaction is neither in the database nor in the pool.\<close>

definition waits :: "tx_context \<Rightarrow> CTxMemPool \<Rightarrow> CTransaction \<Rightarrow> bool" where
  "waits X p tx \<longleftrightarrow> (case FetchInputs (cx_db X) Map.empty p False False tx Map.empty of Inl (fInvalid, e) \<Rightarrow> \<not> fInvalid | Inr _ \<Rightarrow> False)"

lemma fetch_loop_pool:
  "\<forall>i \<in> set is. mapTx p (prev_hash (prevout i)) = mapTx p' (prev_hash (prevout i)) \<Longrightarrow> fetch_loop db T p fB fM is J = fetch_loop db T p' fB fM is J"
proof (induction "is" arbitrary: J)
  case (Cons i "is")
  then have h: "mapTx p (prev_hash (prevout i)) = mapTx p' (prev_hash (prevout i))" by simp
  have e: "fetch_loop db T p fB fM is J' = fetch_loop db T p' fB fM is J'" for J' using Cons by simp
  show ?case unfolding fetch_loop.simps Let_def h e by (rule refl)
qed simp

lemma waits_pool: "\<forall>h \<in> prevs tx. mapTx p h = mapTx p' h \<Longrightarrow> waits X p tx = waits X p' tx"
  using fetch_loop_pool [of "vin tx" p p'] by (simp add: waits_def FetchInputs_def prevs_def)

lemma accept_cases:
  obtains p C where "AcceptToMemoryPool X tx S = Inr (p, C)" and "mapTx (tn_pool S) (GetHash (cx_env X) tx) = None"
      and "mapTx p = (mapTx (tn_pool S))(GetHash (cx_env X) tx \<mapsto> tx)"
  | nDoS C where "AcceptToMemoryPool X tx S = Inl (Rejected nDoS, True, C)" and "waits X (tn_pool S) tx" and "mapTx (tn_pool S) (GetHash (cx_env X) tx) = None"
  | nDoS C where "AcceptToMemoryPool X tx S = Inl (Rejected nDoS, False, C)"
proof (cases "AcceptToMemoryPool X tx S")
  case (Inl r)
  obtain e m C where r: "r = (e, m, C)" by (cases r)
  from Inl accept_never_throws [of "cx_env X" "cx_params X" "tn_cache S" "cx_db X" "tn_pool S" "cx_chain X" "cx_limited X" tx True]
  obtain n where e: "e = Rejected n" by (auto simp: AcceptToMemoryPool_def r)
  show thesis
  proof (cases m)
    case True
    have a: "accept (cx_env X) (cx_params X) (tn_cache S) (cx_db X) (tn_pool S) (cx_chain X) (cx_limited X) tx True = Inl (e, True, C)"
      using Inl True by (simp add: AcceptToMemoryPool_def r)
    then have "accept_inputs (cx_env X) (cx_params X) (tn_cache S) (cx_db X) (tn_pool S) (cx_chain X) (cx_limited X) tx = Inl (e, True, C)"
      and n: "mapTx (tn_pool S) (GetHash (cx_env X) tx) = None"
      by (auto simp: accept_def Let_def split: sum.splits if_splits)
    then have "waits X (tn_pool S) tx" by (auto simp: accept_inputs_def waits_def Let_def split: sum.splits prod.splits option.splits if_splits)
    with n Inl True e r show thesis by (auto intro: that(2))
  qed (use Inl e r that(3) in auto)
next
  case (Inr r)
  obtain p C where r: "r = (p, C)" by (cases r)
  have "mapTx (tn_pool S) (GetHash (cx_env X) tx) = None" "p = addUnchecked (GetHash (cx_env X) tx) tx (tn_pool S)"
    using Inr by (auto simp: AcceptToMemoryPool_def accept_def r Let_def split: sum.splits if_splits)
  with Inr r show thesis by (intro that(1)) (auto simp: addUnchecked_def)
qed

text \<open>
  While the queue is worked off: a waiting transaction is to be erased, or still misses an input, or spends an output of a transaction of the queue, or is about to be
  tried.
\<close>

definition retry_inv :: "tx_context \<Rightarrow> u256 list \<Rightarrow> u256 list \<Rightarrow> u256 list \<Rightarrow> tx_node \<Rightarrow> bool" where
  "retry_inv X queue hs er S \<longleftrightarrow>
     orphan_inv (cx_env X) (tn_orphans S) \<and> set hs \<subseteq> dom (mapOrphanTransactions (tn_orphans S)) \<and>
     (\<forall>h tx. mapOrphanTransactions (tn_orphans S) h = Some tx \<longrightarrow>
        (h \<in> set er \<or> waits X (tn_pool S) tx \<or> prevs tx \<inter> set queue \<noteq> {} \<or> h \<in> set hs) \<and> (mapTx (tn_pool S) h = None \<or> h \<in> set er))"

definition fresh_orphans :: "tx_node \<Rightarrow> u256 set" where
  "fresh_orphans S = {h \<in> dom (mapOrphanTransactions (tn_orphans S)). mapTx (tn_pool S) h = None}"

lemma retry_step:
  assumes J: "retry_inv X queue (h # hs) er S" and h: "mapOrphanTransactions (tn_orphans S) h = Some t"
    and p: "mapTx (tn_pool S) h = None" "mapTx p = (mapTx (tn_pool S))(h \<mapsto> t)"
  shows "retry_inv X (queue @ [h]) hs (er @ [h]) (accepted_tx tx t h p C S)" and
    "Suc (card (fresh_orphans (accepted_tx tx t h p C S))) = card (fresh_orphans S)"
proof -
  have w: "waits X (tn_pool S) u \<Longrightarrow> h \<notin> prevs u \<Longrightarrow> waits X p u" for u using waits_pool [of u "tn_pool S" p X] p(2) by (simp add: fun_upd_other)
  show "retry_inv X (queue @ [h]) hs (er @ [h]) (accepted_tx tx t h p C S)"
    using J unfolding retry_inv_def accepted_tx_def by (auto simp: p(2) dest: w)
  have "fresh_orphans S = insert h (fresh_orphans (accepted_tx tx t h p C S))" "h \<notin> fresh_orphans (accepted_tx tx t h p C S)"
    using h p by (auto simp: fresh_orphans_def accepted_tx_def)
  moreover have "finite (fresh_orphans S)" using J by (simp add: fresh_orphans_def retry_inv_def orphan_inv_def)
  ultimately show "Suc (card (fresh_orphans (accepted_tx tx t h p C S))) = card (fresh_orphans S)" by simp
qed

lemma retry_waiting_ok:
  "retry_inv X queue hs er S \<Longrightarrow>
   \<exists>S' queue' er'. retry_orphans X tx hs S queue er = Inr (S', queue', er') \<and> retry_inv X queue' [] er' S' \<and> tn_orphans S' = tn_orphans S \<and>
     length queue' + card (fresh_orphans S') = length queue + card (fresh_orphans S)"
proof (induction hs arbitrary: queue er S)
  case (Cons h hs)
  note J = Cons.prems
  obtain t where t: "mapOrphanTransactions (tn_orphans S) h = Some t" using J by (auto simp: retry_inv_def)
  then have h: "GetHash (cx_env X) t = h" and at: "orphan_at X h S = (t, S)" using J by (auto simp: retry_inv_def orphan_inv_def orphan_at_def)
  show ?case
  proof (cases rule: accept_cases [of X t S])
    case (1 p C)
    from Cons.IH [OF retry_step(1) [OF J t 1(2,3) [unfolded h]]] retry_step(2) [OF J t 1(2,3) [unfolded h], of tx C]
    obtain S' queue' er' where "retry_orphans X tx hs (accepted_tx tx t h p C S) (queue @ [h]) (er @ [h]) = Inr (S', queue', er')"
      "retry_inv X queue' [] er' S'" "tn_orphans S' = tn_orphans (accepted_tx tx t h p C S)"
      "length queue' + card (fresh_orphans S') = length queue + card (fresh_orphans S)" by fastforce
    with at 1(1) show ?thesis by (auto simp: accepted_tx_def)
  next
    case (2 nDoS C)
    have "retry_inv X queue hs er (S\<lparr>tn_cache := C\<rparr>)" using J 2(2) t unfolding retry_inv_def by simp (metis option.inject)
    from Cons.IH [OF this] at 2(1) show ?thesis by (auto simp: fresh_orphans_def)
  next
    case (3 nDoS C)
    have "retry_inv X queue hs (er @ [h]) (S\<lparr>tn_cache := C\<rparr>)" using J unfolding retry_inv_def by simp (metis option.distinct(1))
    from Cons.IH [OF this] at 3 show ?thesis by (auto simp: fresh_orphans_def)
  qed
qed auto

lemma touch_prev_sel [simp]:
  "tn_pool (touch_prev h S) = tn_pool S" "mapOrphanTransactions (tn_orphans (touch_prev h S)) = mapOrphanTransactions (tn_orphans S)"
  "at_prev p (mapOrphanTransactionsByPrev (tn_orphans (touch_prev h S))) = at_prev p (mapOrphanTransactionsByPrev (tn_orphans S))"
  by (simp_all add: touch_prev_def)

lemma work_loop_ok:
  "retry_inv X queue [] er S \<Longrightarrow> length queue + card (fresh_orphans S) \<le> fuel \<Longrightarrow>
   \<exists>S' er'. work_loop fuel X tx queue S er = Some (Inr (S', er')) \<and> retry_inv X [] [] er' S' \<and>
     mapOrphanTransactions (tn_orphans S') = mapOrphanTransactions (tn_orphans S)"
proof (induction fuel arbitrary: queue er S)
  case (Suc fuel)
  show ?case
  proof (cases queue)
    case (Cons q qs)
    define hs where "hs = sorted_list_of_set (at_prev q (mapOrphanTransactionsByPrev (tn_orphans S)))"
    note J = Suc.prems(1)
    have c: "h \<in> at_prev q (mapOrphanTransactionsByPrev (tn_orphans S)) \<longleftrightarrow> (\<exists>tx. mapOrphanTransactions (tn_orphans S) h = Some tx \<and> q \<in> prevs tx)" for h
      using J unfolding retry_inv_def orphan_inv_def by blast
    then have "at_prev q (mapOrphanTransactionsByPrev (tn_orphans S)) \<subseteq> dom (mapOrphanTransactions (tn_orphans S))" by auto
    moreover have "finite (dom (mapOrphanTransactions (tn_orphans S)))" using J by (simp add: retry_inv_def orphan_inv_def)
    ultimately have hs: "set hs = at_prev q (mapOrphanTransactionsByPrev (tn_orphans S))" unfolding hs_def by (simp add: finite_subset)
    have "retry_inv X qs hs er (touch_prev q S)"
      using J c unfolding retry_inv_def hs orphan_inv_def by (auto simp: Cons)
    from retry_waiting_ok [OF this] obtain S' q' er' where r: "retry_orphans X tx hs (touch_prev q S) qs er = Inr (S', q', er')" "retry_inv X q' [] er' S'"
      "tn_orphans S' = tn_orphans (touch_prev q S)" "length q' + card (fresh_orphans S') = length qs + card (fresh_orphans (touch_prev q S))" by blast
    have "length q' + card (fresh_orphans S') \<le> fuel" using r(4) Suc.prems(2) by (simp add: Cons fresh_orphans_def)
    from Suc.IH [OF r(2) this] r(1,3) show ?thesis by (auto simp: Cons hs_def [symmetric])
  qed (use Suc.prems in auto)
qed auto

text \<open>The state between messages.\<close>

definition waiting_ok :: "tx_context \<Rightarrow> tx_node \<Rightarrow> bool" where
  "waiting_ok X S \<longleftrightarrow>
     orphan_inv (cx_env X) (tn_orphans S) \<and> card (dom (mapOrphanTransactions (tn_orphans S))) \<le> MAX_ORPHAN_TRANSACTIONS \<and>
     (\<forall>h tx. mapOrphanTransactions (tn_orphans S) h = Some tx \<longrightarrow> waits X (tn_pool S) tx \<and> mapTx (tn_pool S) h = None)"

lemma tx_accepted_ok:
  assumes ok: "waiting_ok X S" and a: "AcceptToMemoryPool X tx S = Inr (p, C)" "mapTx (tn_pool S) (GetHash (cx_env X) tx) = None"
      "mapTx p = (mapTx (tn_pool S))(GetHash (cx_env X) tx \<mapsto> tx)"
    and fuel: "card (dom (mapOrphanTransactions (tn_orphans S))) < fuel"
  shows "\<exists>S'. ProcessMessage_tx fuel X R tx S = Some (Inr S') \<and> waiting_ok X S'"
proof -
  let ?h = "GetHash (cx_env X) tx"
  let ?S = "accepted_tx tx tx ?h p C S"
  have f: "finite (dom (mapOrphanTransactions (tn_orphans S)))" using ok by (simp add: waiting_ok_def orphan_inv_def)
  have w: "waits X (tn_pool S) u \<Longrightarrow> ?h \<notin> prevs u \<Longrightarrow> waits X p u" for u using waits_pool [of u "tn_pool S" p X] a(3) by (simp add: fun_upd_other)
  have J: "retry_inv X [?h] [] [?h] ?S" using ok unfolding retry_inv_def waiting_ok_def accepted_tx_def by (auto simp: a(3) dest: w)
  have "card (fresh_orphans ?S) \<le> card (dom (mapOrphanTransactions (tn_orphans S)))" by (rule card_mono [OF f]) (auto simp: fresh_orphans_def accepted_tx_def)
  with fuel have "length [?h] + card (fresh_orphans ?S) \<le> fuel" by simp
  from work_loop_ok [OF J this, of tx] obtain S' er where r: "work_loop fuel X tx [?h] ?S [?h] = Some (Inr (S', er))" "retry_inv X [] [] er S'"
    "mapOrphanTransactions (tn_orphans S') = mapOrphanTransactions (tn_orphans S)" by (auto simp: accepted_tx_def)
  have m: "mapOrphanTransactions (fold EraseOrphanTx er (tn_orphans S')) = mapOrphanTransactions (tn_orphans S) |` (- set er)"
    using erase_fold(2) r(3) by metis
  have "card (dom (mapOrphanTransactions (tn_orphans S) |` (- set er))) \<le> card (dom (mapOrphanTransactions (tn_orphans S)))"
    by (rule card_mono [OF f]) auto
  then have "waiting_ok X (S'\<lparr>tn_orphans := fold EraseOrphanTx er (tn_orphans S')\<rparr>)"
    using ok r(2) erase_fold(1) [of "cx_env X" "tn_orphans S'" er] unfolding waiting_ok_def retry_inv_def m r(3)
    by (auto simp: m restrict_map_def split: if_splits)
  with a(1) r(1) show ?thesis by (simp add: ProcessMessage_tx_def Let_def)
qed

lemma tx_missing_ok:
  assumes ok: "waiting_ok X S" and a: "AcceptToMemoryPool X tx S = Inl (Rejected nDoS, True, C)" "waits X (tn_pool S) tx" "mapTx (tn_pool S) (GetHash (cx_env X) tx) = None"
  shows "\<exists>S'. ProcessMessage_tx fuel X R tx S = Some (Inr S') \<and> waiting_ok X S'"
proof -
  define O1 where "O1 = snd (AddOrphanTx (cx_env X) tx (tn_orphans S))"
  define O2 where "O2 = snd (LimitOrphanTxSize R MAX_ORPHAN_TRANSACTIONS 0 O1)"
  have i: "orphan_inv (cx_env X) O1" unfolding O1_def by (rule orphan_inv_add) (use ok in \<open>simp add: waiting_ok_def\<close>)
  have w: "waits X (tn_pool S) t \<and> mapTx (tn_pool S) h = None" if "mapOrphanTransactions O1 h = Some t" for h t
    using that ok a(2,3) by (auto simp: O1_def AddOrphanTx_def waiting_ok_def Let_def split: if_splits)
  have l: "orphan_inv (cx_env X) O2 \<and> card (dom (mapOrphanTransactions O2)) \<le> MAX_ORPHAN_TRANSACTIONS \<and> mapOrphanTransactions O2 \<subseteq>\<^sub>m mapOrphanTransactions O1"
    unfolding O2_def by (rule limit_spec [OF i])
  then have "waits X (tn_pool S) t \<and> mapTx (tn_pool S) h = None" if "mapOrphanTransactions O2 h = Some t" for h t
    using w [of h t] that by (metis domI map_le_def)
  with l have "waiting_ok X (S\<lparr>tn_cache := C, tn_orphans := O2, tn_misbehaviour := tn_misbehaviour S + nDoS\<rparr>)" by (simp add: waiting_ok_def)
  with a(1) show ?thesis by (simp add: ProcessMessage_tx_def O1_def [symmetric] O2_def [symmetric] Let_def)
qed

lemma tx_message_ok:
  assumes ok: "waiting_ok X S" and fuel: "card (dom (mapOrphanTransactions (tn_orphans S))) < fuel"
  shows "\<exists>S'. ProcessMessage_tx fuel X R tx S = Some (Inr S') \<and> waiting_ok X S'"
proof (cases rule: accept_cases [of X tx S])
  case (1 p C)
  then show ?thesis by (rule tx_accepted_ok [OF ok _ _ _ fuel])
next
  case (2 nDoS C)
  then show ?thesis by (rule tx_missing_ok [OF ok])
next
  case (3 nDoS C)
  then show ?thesis using ok by (simp add: ProcessMessage_tx_def waiting_ok_def Let_def)
qed

section \<open>Runs\<close>

inductive tx_reach :: "tx_context \<Rightarrow> tx_node \<Rightarrow> bool" for X where
  tx_start: "mapOrphanTransactions (tn_orphans S) = Map.empty \<Longrightarrow> mapOrphanTransactionsByPrev (tn_orphans S) = Map.empty \<Longrightarrow> tx_reach X S"
| tx_next: "tx_reach X S \<Longrightarrow> ProcessMessage_tx fuel X GetRandHash tx S = Some (Inr S') \<Longrightarrow> tx_reach X S'"

lemma retry_no_fuel_change: "work_loop n X tx q S er = Some r \<Longrightarrow> n \<le> m \<Longrightarrow> work_loop m X tx q S er = Some r"
proof (induction n X tx q S er arbitrary: m rule: work_loop.induct)
  case (3 fuel X tx h q S er)
  obtain m' where m: "m = Suc m'" "fuel \<le> m'" using "3.prems"(2) by (cases m) auto
  show ?case using "3.prems"(1) "3.IH" m by (auto split: sum.splits)
qed (auto elim: work_loop.elims)

lemma message_fuel: "ProcessMessage_tx n X R tx S = Some r \<Longrightarrow> n \<le> m \<Longrightarrow> ProcessMessage_tx m X R tx S = Some r"
  by (auto simp: ProcessMessage_tx_def Let_def split: sum.splits prod.splits failure.splits option.splits dest: retry_no_fuel_change)

lemma tx_reach_ok: "tx_reach X S \<Longrightarrow> waiting_ok X S"
proof (induction rule: tx_reach.induct)
  case (tx_start S)
  then show ?case by (simp add: waiting_ok_def orphan_inv_def at_prev_def)
next
  case (tx_next S fuel R tx S')
  obtain S'' where s: "ProcessMessage_tx (Suc (card (dom (mapOrphanTransactions (tn_orphans S))) + fuel)) X R tx S = Some (Inr S'')" "waiting_ok X S''"
    using tx_message_ok [OF tx_next.IH, of "Suc (card (dom (mapOrphanTransactions (tn_orphans S))) + fuel)" R tx] by auto
  have "S'' = S'" using message_fuel [OF tx_next.hyps(2), of "Suc (card (dom (mapOrphanTransactions (tn_orphans S))) + fuel)"] s(1) by simp
  with s(2) show ?case by simp
qed

text \<open>C31: In every run of messages that bring transactions, the next message is handled to its end with one round for each waiting transaction and one more. The two maps of
  waiting transactions agree, there are at most 10000 of them and none is larger than 5000 bytes; none is in the pool, and each still misses an
  input: whatever could be admitted after a transaction arrived has been tried, also along chains of waiting transactions.\<close>

theorem orphans_wait:
  assumes "tx_reach X S"
  shows "(\<exists>S'. ProcessMessage_tx (Suc (card (dom (mapOrphanTransactions (tn_orphans S))))) X GetRandHash tx S = Some (Inr S')) \<and>
    card (dom (mapOrphanTransactions (tn_orphans S))) \<le> 10000 \<and>
    (\<forall>p h. h \<in> at_prev p (mapOrphanTransactionsByPrev (tn_orphans S)) \<longleftrightarrow> (\<exists>t. mapOrphanTransactions (tn_orphans S) h = Some t \<and> p \<in> prevs t)) \<and>
    (\<forall>h t. mapOrphanTransactions (tn_orphans S) h = Some t \<longrightarrow>
       GetHash (cx_env X) t = h \<and> GetSerializeSize_CTransaction t \<le> 5000 \<and> mapTx (tn_pool S) h = None \<and> waits X (tn_pool S) t)"
proof -
  note ok = tx_reach_ok [OF assms]
  have "(10000 :: nat) = MAX_ORPHAN_TRANSACTIONS" by (simp add: MAX_ORPHAN_TRANSACTIONS_def MAX_BLOCK_SIZE_def)
  then show ?thesis using ok tx_message_ok [OF ok, of "Suc (card (dom (mapOrphanTransactions (tn_orphans S))))" GetRandHash tx]
    unfolding waiting_ok_def orphan_inv_def by auto
qed

text \<open>A node that knows no transaction receives \<open>tx_sample\<close> and keeps it.\<close>

definition context_sample :: tx_context where
  "context_sample = \<lparr>cx_env = len_env, cx_params = params_sample, cx_db = \<lparr>db_index = Map.empty, db_disk = (\<lambda>_. None), db_writable = (\<lambda>_. True)\<rparr>, cx_chain = [], cx_limited = False\<rparr>"

definition tx_node_sample :: tx_node where
  "tx_node_sample = \<lparr>tn_pool = empty_pool, tn_cache = empty_cache, tn_orphans = \<lparr>mapOrphanTransactions = Map.empty, mapOrphanTransactionsByPrev = Map.empty\<rparr>,
     tn_asked = {}, tn_synced = [], tn_relayed = [], tn_misbehaviour = 0\<rparr>"

lemma sample_missing: "AcceptToMemoryPool context_sample tx_sample tx_node_sample = Inl (Rejected 0, True, empty_cache)"
proof -
  have nb: "\<not> IsCoinBase tx_sample" "\<not> IsCoinStake tx_sample"
    by (simp_all add: IsCoinBase_def IsCoinStake_def COutPoint_IsNull_def tx_sample_def)
  have ct: "CheckTransaction tx_sample = Inr ()"
    unfolding CheckTransaction_char tx.sz_ser [symmetric] sample_hashes(3)
    using nb by (simp add: MAX_BLOCK_SIZE_def MAX_MONEY_small CTxOut_IsEmpty_def COutPoint_IsNull_def tx_sample_def)
  have "accept_inputs len_env params_sample empty_cache (cx_db context_sample) empty_pool [] False tx_sample = Inl (Rejected 0, True, empty_cache)"
    by (simp add: accept_inputs_def FetchInputs_def nb) (simp add: tx_sample_def context_sample_def ReadTxIndex_def empty_pool_def)
  with ct nb show ?thesis
    by (simp add: AcceptToMemoryPool_def accept_def Let_def context_sample_def tx_node_sample_def ContainsTx_def) (simp add: empty_pool_def tx_sample_def)
qed

theorem orphans_wait_witness:
  "\<exists>S. ProcessMessage_tx 0 context_sample (\<lambda>_. 0) tx_sample tx_node_sample = Some (Inr S) \<and> mapOrphanTransactions (tn_orphans S) 65 = Some tx_sample \<and>
     65 \<in> at_prev 24 (mapOrphanTransactionsByPrev (tn_orphans S)) \<and> waits context_sample (tn_pool S) tx_sample"
proof -
  have v: "vin tx_sample = [\<lparr>prevout = \<lparr>prev_hash = 24, prev_n = 0\<rparr>, scriptSig = [], nSequence = 0\<rparr>]" by (simp add: tx_sample_def)
  define orphans where "orphans = snd (AddOrphanTx len_env tx_sample (tn_orphans tx_node_sample))"
  have o: "mapOrphanTransactions orphans = [65 \<mapsto> tx_sample]"
    by (simp add: orphans_def AddOrphanTx_def sample_hashes tx_node_sample_def)
  have "LimitOrphanTxSize (\<lambda>_. 0) MAX_ORPHAN_TRANSACTIONS 0 orphans = (0, orphans)"
    by (subst LimitOrphanTxSize.simps) (simp add: o MAX_ORPHAN_TRANSACTIONS_def MAX_BLOCK_SIZE_def)
  then obtain S where s: "ProcessMessage_tx 0 context_sample (\<lambda>_. 0) tx_sample tx_node_sample = Some (Inr S)" "tn_orphans S = orphans"
    by (simp add: ProcessMessage_tx_def sample_missing) (simp add: context_sample_def orphans_def [symmetric])
  have "tx_reach context_sample S" by (rule tx_next [OF tx_start s(1)]) (simp_all add: tx_node_sample_def)
  note r = orphans_wait [OF this, unfolded s(2) o]
  have "24 \<in> prevs tx_sample" by (simp add: prevs_def v)
  with r have "65 \<in> at_prev 24 (mapOrphanTransactionsByPrev orphans)" "waits context_sample (tn_pool S) tx_sample" by (metis fun_upd_same)+
  with s o show ?thesis by auto
qed

text \<open>
  Looking for the transactions that wait for an admitted one enters an empty set for it in \<^verbatim>\<open>mapOrphanTransactionsByPrev\<close>; nothing removes it, so that the map grows with every transaction
  the node admits.
\<close>

lemma erase_by_prev_other: "p \<notin> (prev_hash \<circ> prevout) ` set is \<Longrightarrow> erase_by_prev h is m p = m p"
proof (induction "is" arbitrary: m)
  case (Cons i "is")
  then show ?case by (simp add: Let_def)
qed simp

lemma accepted_tx_leaves_entry:
  assumes ok: "waiting_ok X S" and a: "AcceptToMemoryPool X tx S = Inr (p, C)"
    and n: "mapOrphanTransactionsByPrev (tn_orphans S) (GetHash (cx_env X) tx) = None"
  shows "\<exists>S'. ProcessMessage_tx (Suc fuel) X R tx S = Some (Inr S') \<and> mapOrphanTransactionsByPrev (tn_orphans S') (GetHash (cx_env X) tx) = Some {}"
proof -
  let ?h = "GetHash (cx_env X) tx"
  let ?S = "touch_prev ?h (accepted_tx tx tx ?h p C S)"
  have o: "tn_orphans (accepted_tx tx tx ?h p C S) = tn_orphans S" by (simp add: accepted_tx_def)
  have e: "at_prev ?h (mapOrphanTransactionsByPrev (tn_orphans S)) = {}" using n by (simp add: at_prev_def)
  have w: "work_loop (Suc fuel) X tx [?h] (accepted_tx tx tx ?h p C S) [?h] = Some (Inr (?S, [?h]))" by (simp add: o e)
  have "?h \<notin> prevs t" if "mapOrphanTransactions (tn_orphans S) h = Some t" for h t
    using ok that e unfolding waiting_ok_def orphan_inv_def by blast
  then have "mapOrphanTransactionsByPrev (EraseOrphanTx ?h (tn_orphans ?S)) ?h = Some {}"
    by (auto simp: EraseOrphanTx_def touch_prev_def o e erase_by_prev_other prevs_def split: option.split)
  with a w show ?thesis by (simp add: ProcessMessage_tx_def Let_def)
qed

text \<open>The wallets are told of the transaction in the message, once for each admitted one, and never of the waiting transactions admitted with it.\<close>

lemma retry_synced: "retry_orphans X tx hs S q er = Inr (S', q', er') \<Longrightarrow> set (tn_synced S') \<subseteq> insert tx (set (tn_synced S))"
proof (induction X tx hs S q er rule: retry_orphans.induct)
  case (2 X tx h hs S q er)
  obtain t S1 where at: "orphan_at X h S = (t, S1)" by (cases "orphan_at X h S")
  then have "tn_synced S1 = tn_synced S" by (auto simp: orphan_at_def Let_def split: option.splits)
  with 2 at show ?case by (fastforce simp: accepted_tx_def split: sum.splits prod.splits failure.splits)
qed auto

lemma work_synced: "work_loop n X tx q S er = Some (Inr (S', er')) \<Longrightarrow> set (tn_synced S') \<subseteq> insert tx (set (tn_synced S))"
proof (induction n X tx q S er rule: work_loop.induct)
  case (3 fuel X tx h q S er)
  have "tn_synced (touch_prev h S) = tn_synced S" by (simp add: touch_prev_def)
  with 3 retry_synced show ?case by (fastforce split: sum.splits prod.splits)
next
  case (1 n X tx S er)
  then have "S' = S" by simp
  then show ?case by (simp add: subset_insertI)
qed simp

lemma synced_only_message:
  "ProcessMessage_tx n X R tx S = Some (Inr S') \<Longrightarrow> set (tn_synced S') \<subseteq> insert tx (set (tn_synced S))"
  using work_synced [of n X tx] by (fastforce simp: ProcessMessage_tx_def accepted_tx_def Let_def split: sum.splits prod.splits failure.splits option.splits)

end
