(* ===== verification/Alert.thy ===== *)
theory Alert
  imports Key Transaction
begin

text \<open>
  Alerts, from src/src/alert.h and src/src/alert.cpp: notices signed with the alert key, which peers relay and the node keeps while they are in effect. Strings are byte lists. The user
  interface is not modelled; the command of \<^verbatim>\<open>-alertnotify\<close> is a result.
\<close>

section \<open>Data\<close>

record CUnsignedAlert =
  al_nVersion :: int
  nRelayUntil :: int
  nExpiration :: int
  nID :: int
  nCancel :: int
  setCancel :: "int set"
  nMinVer :: int
  nMaxVer :: int
  setSubVer :: "byte list set"
  al_nPriority :: int
  strComment :: "byte list"
  strStatusBar :: "byte list"
  strReserved :: "byte list"

record CAlert = CUnsignedAlert +
  al_vchMsg :: "byte list"
  al_vchSig :: "byte list"

definition bytes_of :: "string \<Rightarrow> byte list" where
  "bytes_of s = map of_char s"

definition maxInt :: int where
  "maxInt = 2147483647"

definition PROTOCOL_VERSION :: int where
  "PROTOCOL_VERSION = 60013"

text \<open>\<^verbatim>\<open>FormatSubVersion(CLIENT_NAME, CLIENT_VERSION, \<dots>)\<close> for the version of the sources.\<close>

definition strSubVersion :: "byte list" where
  "strSubVersion = bytes_of ''/Satoshi:1.0.0/''"

definition pszMainKey :: "byte list" where
  "pszMainKey = rev (le_bytes 65
     0x0486bce1bac0d543f104cbff2bd23680056a3b9ea05e1137d2ff90eeb5e08472eb500322593a2cb06fbf8297d7beb6cd30cb90f98153b5b7cce1493749e41e0284)"

definition pszTestKey :: "byte list" where
  "pszTestKey = rev (le_bytes 65
     0x0471dc165db490094d35cde15b1f5d755fa6ad6f2b5ed0f340e3f17f57389c3c2af113a8cbcc885bde73305a553b5640c83021128008ddf882e856336269080496)"

definition alert_key :: "node_params \<Rightarrow> byte list" where
  "alert_key N = (if fTestNet N then pszTestKey else pszMainKey)"

definition CAlert_new :: CAlert where
  "CAlert_new = \<lparr>al_nVersion = 1, nRelayUntil = 0, nExpiration = 0, nID = 0, nCancel = 0, setCancel = {}, nMinVer = 0, nMaxVer = 0, setSubVer = {}, al_nPriority = 0,
     strComment = [], strStatusBar = [], strReserved = [], al_vchMsg = [], al_vchSig = []\<rparr>"

section \<open>Reading the signed message\<close>

definition Unserialize_int32 :: "byte list \<Rightarrow> (int \<times> byte list) option" where
  "Unserialize_int32 s = do { (w, s) \<leftarrow> Unserialize_u32 s; Some (sint w, s) }"

definition Unserialize_string :: "byte list \<Rightarrow> (byte list \<times> byte list) option" where
  "Unserialize_string s = do { (nSize, s) \<leftarrow> ReadCompactSize s; if length s < nSize then None else Some (take nSize s, drop nSize s) }"

definition Unserialize_set :: "(byte list \<Rightarrow> ('a \<times> byte list) option) \<Rightarrow> byte list \<Rightarrow> ('a set \<times> byte list) option" where
  "Unserialize_set unser s = do { (nSize, s) \<leftarrow> ReadCompactSize s; (xs, s) \<leftarrow> read_elements unser nSize s; Some (set xs, s) }"

text \<open>The alert with the fields read from a message; bytes behind them belong to newer versions.\<close>

definition Unserialize_CUnsignedAlert :: "byte list \<Rightarrow> CAlert \<Rightarrow> CAlert option" where
  "Unserialize_CUnsignedAlert s a = do {
     (v, s) \<leftarrow> Unserialize_int32 s;
     (r, s) \<leftarrow> Unserialize_int64 s;
     (e, s) \<leftarrow> Unserialize_int64 s;
     (i, s) \<leftarrow> Unserialize_int32 s;
     (c, s) \<leftarrow> Unserialize_int32 s;
     (cs, s) \<leftarrow> Unserialize_set Unserialize_int32 s;
     (mn, s) \<leftarrow> Unserialize_int32 s;
     (mx, s) \<leftarrow> Unserialize_int32 s;
     (sv, s) \<leftarrow> Unserialize_set Unserialize_string s;
     (p, s) \<leftarrow> Unserialize_int32 s;
     (co, s) \<leftarrow> Unserialize_string s;
     (sb, s) \<leftarrow> Unserialize_string s;
     (re, s) \<leftarrow> Unserialize_string s;
     Some (a\<lparr>al_nVersion := v, nRelayUntil := r, nExpiration := e, nID := i, nCancel := c, setCancel := cs, nMinVer := mn, nMaxVer := mx, setSubVer := sv, al_nPriority := p,
             strComment := co, strStatusBar := sb, strReserved := re\<rparr>)
   }"

section \<open>Operations\<close>

definition alert_GetHash :: "env \<Rightarrow> CAlert \<Rightarrow> u256" where
  "alert_GetHash E a = Hash E (al_vchMsg a)"

definition IsInEffect :: "node_params \<Rightarrow> CAlert \<Rightarrow> bool" where
  "IsInEffect N a \<longleftrightarrow> AdjustedTime N < nExpiration a"

definition Cancels :: "node_params \<Rightarrow> CAlert \<Rightarrow> CAlert \<Rightarrow> bool" where
  "Cancels N a alert \<longleftrightarrow> IsInEffect N a \<and> (nID alert \<le> nCancel a \<or> nID alert \<in> setCancel a)"

definition AppliesTo :: "node_params \<Rightarrow> CAlert \<Rightarrow> int \<Rightarrow> byte list \<Rightarrow> bool" where
  "AppliesTo N a nVer strSubVerIn \<longleftrightarrow>
     IsInEffect N a \<and> nMinVer a \<le> nVer \<and> nVer \<le> nMaxVer a \<and> (setSubVer a = {} \<or> strSubVerIn \<in> setSubVer a)"

definition AppliesToMe :: "node_params \<Rightarrow> CAlert \<Rightarrow> bool" where
  "AppliesToMe N a = AppliesTo N a PROTOCOL_VERSION strSubVersion"

record alert_peer =
  peer_nVersion :: int
  peer_strSubVer :: "byte list"
  peer_setKnown :: "u256 set"

definition RelayTo :: "env \<Rightarrow> node_params \<Rightarrow> CAlert \<Rightarrow> alert_peer \<Rightarrow> bool \<times> alert_peer" where
  "RelayTo E N a pnode =
     (if \<not> IsInEffect N a then (False, pnode)
      else if alert_GetHash E a \<in> peer_setKnown pnode then (False, pnode)
      else
        (AppliesTo N a (peer_nVersion pnode) (peer_strSubVer pnode) \<or> AppliesToMe N a \<or> AdjustedTime N < nRelayUntil a,
         pnode\<lparr>peer_setKnown := insert (alert_GetHash E a) (peer_setKnown pnode)\<rparr>))"

definition alert_CheckSignature :: "env \<Rightarrow> node_params \<Rightarrow> CAlert \<Rightarrow> failure + CAlert" where
  "alert_CheckSignature E N a =
     (if \<not> SetPubKey E (alert_key N) then Inl (Rejected 0)
      else if \<not> Verify E (alert_key N) (Hash E (al_vchMsg a)) (al_vchSig a) then Inl (Rejected 0)
      else case Unserialize_CUnsignedAlert (al_vchMsg a) a of None \<Rightarrow> Inl Thrown | Some a' \<Rightarrow> Inr a')"

definition getAlertByHash :: "(u256 \<rightharpoonup> CAlert) \<Rightarrow> u256 \<Rightarrow> CAlert" where
  "getAlertByHash mapAlerts h = (case mapAlerts h of None \<Rightarrow> CAlert_new | Some a \<Rightarrow> a)"

text \<open>What an alert with the greatest identifier, reserved for a compromised key, must be.\<close>

definition compromised_form :: "CAlert \<Rightarrow> bool" where
  "compromised_form a \<longleftrightarrow>
     nExpiration a = maxInt \<and> nCancel a = maxInt - 1 \<and> nMinVer a = 0 \<and> nMaxVer a = maxInt \<and> setSubVer a = {} \<and> al_nPriority a = maxInt \<and>
     strStatusBar a = bytes_of ''URGENT: Alert key compromised, upgrade required''"

definition safeChars :: "byte list" where
  "safeChars = bytes_of ''abcdefghijklmnopqrstuvwxyzABCDEFGHIJKLMNOPQRSTUVWXYZ01234567890 .,;_/:?@''"

definition safeStatus :: "byte list \<Rightarrow> byte list" where
  "safeStatus s = [39] @ filter (\<lambda>c. c \<in> set safeChars) s @ [39]"

fun replace_percent_s :: "byte list \<Rightarrow> byte list \<Rightarrow> byte list" where
  "replace_percent_s t [] = []"
| "replace_percent_s t [c] = [c]"
| "replace_percent_s t (c # d # cs) = (if c = 37 \<and> d = 115 then t @ replace_percent_s t cs else c # replace_percent_s t (d # cs))"

definition notify_command :: "byte list \<Rightarrow> CAlert \<Rightarrow> byte list option" where
  "notify_command strCmd a = (if strCmd = [] then None else Some (replace_percent_s (safeStatus (strStatusBar a)) strCmd))"

definition drop_alerts :: "node_params \<Rightarrow> CAlert \<Rightarrow> (u256 \<rightharpoonup> CAlert) \<Rightarrow> u256 \<rightharpoonup> CAlert" where
  "drop_alerts N a mapAlerts =
     (\<lambda>h. case mapAlerts h of None \<Rightarrow> None | Some alert \<Rightarrow> if Cancels N a alert then None else if \<not> IsInEffect N alert then None else Some alert)"

definition ProcessAlert :: "env \<Rightarrow> node_params \<Rightarrow> byte list \<Rightarrow> CAlert \<Rightarrow> (u256 \<rightharpoonup> CAlert) \<Rightarrow> (failure + bool) \<times> (u256 \<rightharpoonup> CAlert) \<times> byte list option" where
  "ProcessAlert E N alertnotify a0 mapAlerts =
     (case alert_CheckSignature E N a0 of
        Inl (Rejected _) \<Rightarrow> (Inr False, mapAlerts, None)
      | Inl e \<Rightarrow> (Inl e, mapAlerts, None)
      | Inr a \<Rightarrow>
          if \<not> IsInEffect N a then (Inr False, mapAlerts, None)
          else if nID a = maxInt \<and> \<not> compromised_form a then (Inr False, mapAlerts, None)
          else
            (let m = drop_alerts N a mapAlerts
             in if \<exists>alert \<in> ran m. Cancels N alert a then (Inr False, m, None)
                else (Inr True, case m (alert_GetHash E a) of None \<Rightarrow> m(alert_GetHash E a \<mapsto> a) | Some _ \<Rightarrow> m,
                      if AppliesToMe N a then notify_command alertnotify a else None)))"

section \<open>Properties\<close>

text \<open>No quote of the status text reaches the shell: what replaces \<^verbatim>\<open>%s\<close> is one quoted word.\<close>

lemma safeStatus_quoted: "\<exists>t. safeStatus s = [39] @ t @ [39] \<and> 39 \<notin> set t"
proof -
  have "39 \<notin> set safeChars" by (simp add: safeChars_def bytes_of_def)
  then show ?thesis by (auto simp: safeStatus_def)
qed

lemma Unserialize_keeps_msg: "Unserialize_CUnsignedAlert s a = Some a' \<Longrightarrow> al_vchMsg a' = al_vchMsg a \<and> al_vchSig a' = al_vchSig a"
  by (auto simp: Unserialize_CUnsignedAlert_def Option.bind_eq_Some_conv)

lemma CheckSignature_signed:
  assumes "alert_CheckSignature E N a0 = Inr a"
  shows "Verify E (alert_key N) (Hash E (al_vchMsg a)) (al_vchSig a) \<and> Unserialize_CUnsignedAlert (al_vchMsg a) a0 = Some a"
  using assms Unserialize_keeps_msg [of "al_vchMsg a0" a0 a] by (auto simp: alert_CheckSignature_def split: if_splits option.splits)

text \<open>
  The stored alerts: each under its hash, signed, with the fields of its message, and in the prescribed form if it has the reserved identifier; none cancels another.
\<close>

definition alerts_ok :: "env \<Rightarrow> node_params \<Rightarrow> (u256 \<rightharpoonup> CAlert) \<Rightarrow> bool" where
  "alerts_ok E N m \<longleftrightarrow>
     (\<forall>h a. m h = Some a \<longrightarrow> alert_GetHash E a = h \<and> Verify E (alert_key N) (Hash E (al_vchMsg a)) (al_vchSig a) \<and>
        (\<exists>a0. Unserialize_CUnsignedAlert (al_vchMsg a) a0 = Some a) \<and> (nID a = maxInt \<longrightarrow> compromised_form a)) \<and>
     (\<forall>h k a b. m h = Some a \<longrightarrow> m k = Some b \<longrightarrow> h \<noteq> k \<longrightarrow> \<not> Cancels N a b)"

lemma alerts_ok_later:
  assumes "alerts_ok E N m" and "AdjustedTime N \<le> AdjustedTime N'" and "fTestNet N' = fTestNet N"
  shows "alerts_ok E N' m"
proof -
  have "Cancels N' a b \<Longrightarrow> Cancels N a b" for a b using assms(2) by (auto simp: Cancels_def IsInEffect_def)
  moreover have "alert_key N' = alert_key N" using assms(3) by (simp add: alert_key_def)
  ultimately show ?thesis using assms(1) unfolding alerts_ok_def by metis
qed

lemma alerts_ok_sub: "alerts_ok E N m \<Longrightarrow> m' \<subseteq>\<^sub>m m \<Longrightarrow> alerts_ok E N m'"
  unfolding alerts_ok_def map_le_def by (metis domI)

lemma drop_alerts_sub: "drop_alerts N a m \<subseteq>\<^sub>m m"
  by (auto simp: drop_alerts_def map_le_def split: option.splits if_splits)

lemma drop_alerts_Some: "drop_alerts N a m h = Some b \<longleftrightarrow> m h = Some b \<and> \<not> Cancels N a b \<and> IsInEffect N b"
  by (auto simp: drop_alerts_def split: option.splits)

lemma alerts_ok_add:
  assumes ok: "alerts_ok E N m" and a: "alert_CheckSignature E N a0 = Inr a" "nID a = maxInt \<longrightarrow> compromised_form a"
    and x: "\<And>h b. m h = Some b \<Longrightarrow> \<not> Cancels N a b" "\<And>h b. m h = Some b \<Longrightarrow> \<not> Cancels N b a"
  shows "alerts_ok E N (m(alert_GetHash E a \<mapsto> a))"
  using ok CheckSignature_signed [OF a(1)] a(2) x unfolding alerts_ok_def by (auto split: if_splits)

lemma ProcessAlert_result:
  assumes "ProcessAlert E N cmd a0 m = (r, m', c)"
  obtains "m' = m"
  | a where "alert_CheckSignature E N a0 = Inr a" and "nID a = maxInt \<longrightarrow> compromised_form a" and "m' = drop_alerts N a m"
  | a where "alert_CheckSignature E N a0 = Inr a" and "nID a = maxInt \<longrightarrow> compromised_form a" and "\<not> (\<exists>b \<in> ran (drop_alerts N a m). Cancels N b a)"
      and "m' = (drop_alerts N a m)(alert_GetHash E a \<mapsto> a)"
proof (cases "alert_CheckSignature E N a0")
  case (Inl e)
  with assms have "m' = m" by (cases e) (simp_all add: ProcessAlert_def)
  then show thesis by (rule that(1))
next
  case (Inr a)
  define D where "D = drop_alerts N a m"
  note q = assms [unfolded ProcessAlert_def Inr sum.case Let_def D_def [symmetric]]
  show thesis
  proof (cases "\<not> IsInEffect N a \<or> nID a = maxInt \<and> \<not> compromised_form a")
    case True
    with q have "m' = m" by (auto split: if_splits)
    then show thesis by (rule that(1))
  next
    case F: False
    show thesis
    proof (cases "(\<exists>b \<in> ran D. Cancels N b a) \<or> D (alert_GetHash E a) \<noteq> None")
      case True
      with q F have "m' = D" by (auto split: if_splits)
      with F show thesis by (intro that(2) [OF Inr]) (auto simp: D_def)
    next
      case False
      with q F have "m' = D(alert_GetHash E a \<mapsto> a)" by (auto split: if_splits)
      with F False show thesis by (intro that(3) [OF Inr]) (auto simp: D_def)
    qed
  qed
qed

lemma ProcessAlert_ok:
  assumes ok: "alerts_ok E N m" and p: "ProcessAlert E N cmd a0 m = (r, m', c)"
  shows "alerts_ok E N m'"
  using p
proof (cases rule: ProcessAlert_result)
  case (2 a)
  then show ?thesis using alerts_ok_sub [OF ok drop_alerts_sub] by simp
next
  case (3 a)
  have d: "alerts_ok E N (drop_alerts N a m)" by (rule alerts_ok_sub [OF ok drop_alerts_sub])
  show ?thesis unfolding 3(4)
    by (rule alerts_ok_add [OF d 3(1,2)]) (use 3(3) in \<open>auto simp: drop_alerts_Some ran_def\<close>)
qed (use ok in simp)

inductive alert_reach :: "env \<Rightarrow> node_params \<Rightarrow> (u256 \<rightharpoonup> CAlert) \<Rightarrow> bool" for E where
  alert_start: "alert_reach E N Map.empty"
| alert_time: "alert_reach E N m \<Longrightarrow> AdjustedTime N \<le> AdjustedTime N' \<Longrightarrow> fTestNet N' = fTestNet N \<Longrightarrow> alert_reach E N' m"
| alert_next: "alert_reach E N m \<Longrightarrow> ProcessAlert E N cmd a m = (r, m', c) \<Longrightarrow> alert_reach E N m'"

text \<open>C32: While time moves on and alerts arrive, every stored alert was signed with the alert key and has the fields of the signed message, an alert with the greatest identifier has
  the prescribed form, and no stored alert cancels another, in whatever order they arrived.\<close>

theorem alerts_consistent:
  assumes "alert_reach E N m"
  shows "(\<forall>h a. m h = Some a \<longrightarrow> alert_GetHash E a = h \<and> Verify E (alert_key N) (Hash E (al_vchMsg a)) (al_vchSig a) \<and>
      (\<exists>a0. Unserialize_CUnsignedAlert (al_vchMsg a) a0 = Some a) \<and> (nID a = maxInt \<longrightarrow> compromised_form a)) \<and>
    (\<forall>h k a b. m h = Some a \<longrightarrow> m k = Some b \<longrightarrow> h \<noteq> k \<longrightarrow> \<not> Cancels N a b)"
proof -
  have "alerts_ok E N m" using assms
  proof (induction rule: alert_reach.induct)
    case (alert_time N m N')
    then show ?case by (blast intro: alerts_ok_later)
  next
    case (alert_next N m cmd a r m' c)
    then show ?case by (blast intro: ProcessAlert_ok)
  qed (simp add: alerts_ok_def)
  then show ?thesis by (simp add: alerts_ok_def)
qed

definition alert_env :: env where
  "alert_env = ref_env\<lparr>o2i_ECPublicKey := (\<lambda>_. True), ECDSA_verify := (\<lambda>_ _ _. True)\<rparr>"

definition alert_params :: node_params where
  "alert_params = \<lparr>fTestNet = True, fEnforceCanonical = False, nCoinbaseMaturity = 10, nBestHeight = 100, AdjustedTime = 0, TotalBlocksEstimate = 0\<rparr>"

text \<open>The message of an alert without text that expires at time 5.\<close>

definition alert_message :: "byte list" where
  "alert_message = Serialize_u32 1 @ Serialize_int64 0 @ Serialize_int64 5 @ Serialize_u32 7 @ Serialize_u32 0 @ WriteCompactSize 0 @
     Serialize_u32 0 @ Serialize_u32 0 @ WriteCompactSize 0 @ Serialize_u32 0 @ WriteCompactSize 0 @ WriteCompactSize 0 @ WriteCompactSize 0"

definition alert_sample :: CAlert where
  "alert_sample = CAlert_new\<lparr>al_vchMsg := alert_message\<rparr>"

lemma alert_message_read: "\<exists>a'. Unserialize_CUnsignedAlert alert_message a = Some a' \<and> nExpiration a' = 5 \<and> nID a' = 7"
proof -
  have r: "int64_range 0" "int64_range 5" "0 \<le> MAX_SIZE" by (simp_all add: int64_range_def)
  show ?thesis unfolding alert_message_def
    by (simp add: Unserialize_CUnsignedAlert_def Unserialize_int32_def Unserialize_set_def Unserialize_string_def r ReadCompactSize_Write ReadCompactSize_Write [of _ "[]", simplified])
qed

theorem alerts_consistent_witness:
  "\<exists>m c a. ProcessAlert alert_env alert_params [] alert_sample Map.empty = (Inr True, m, c) \<and> nExpiration a = 5 \<and> m (alert_GetHash alert_env a) = Some a \<and>
     (\<exists>a0. Unserialize_CUnsignedAlert (al_vchMsg a) a0 = Some a)"
proof -
  obtain a where a: "Unserialize_CUnsignedAlert (al_vchMsg alert_sample) alert_sample = Some a" "nExpiration a = 5" "nID a = 7"
    using alert_message_read [of alert_sample] by (auto simp: alert_sample_def)
  have "alert_CheckSignature alert_env alert_params alert_sample = Inr a"
    by (simp add: alert_CheckSignature_def SetPubKey_def Verify_def a(1)) (simp add: alert_env_def)
  moreover have "IsInEffect alert_params a" by (simp add: IsInEffect_def a alert_params_def)
  moreover have "drop_alerts alert_params a Map.empty = Map.empty" by (simp add: drop_alerts_def fun_eq_iff)
  ultimately obtain m c where p: "ProcessAlert alert_env alert_params [] alert_sample Map.empty = (Inr True, m, c)" "m (alert_GetHash alert_env a) = Some a"
    by (simp add: ProcessAlert_def a(3) maxInt_def)
  from alerts_consistent [OF alert_next [OF alert_start p(1)]] p a(2) show ?thesis by blast
qed

text \<open>
  The alert for a compromised key refuses every later alert that does not name the greatest identifier among those it cancels. One that does removes it, and is accepted itself where no other alert
  cancels it.
\<close>

lemma compromised_alert_refuses:
  assumes f: "m h = Some f" "compromised_form f" "nID f = maxInt" and t: "AdjustedTime N < maxInt"
    and a: "alert_CheckSignature E N a0 = Inr a" "nID a < maxInt" "nCancel a < maxInt" "maxInt \<notin> setCancel a" "IsInEffect N a"
  shows "\<exists>m'. ProcessAlert E N cmd a0 m = (Inr False, m', None) \<and> m' h = Some f"
proof -
  have e: "IsInEffect N f" using f(2) t by (simp add: compromised_form_def IsInEffect_def)
  have k: "drop_alerts N a m h = Some f" using f e a by (simp add: drop_alerts_Some Cancels_def)
  have "Cancels N f a" using f(2) a(2) e by (simp add: Cancels_def compromised_form_def)
  then have "\<exists>b \<in> ran (drop_alerts N a m). Cancels N b a" using k by (blast intro: ranI)
  with a(1,2,5) k show ?thesis by (simp add: ProcessAlert_def)
qed

lemma compromised_alert_removed:
  assumes f: "m h = Some f" "nID f = maxInt" and a: "alert_CheckSignature E N a0 = Inr a" "nID a < maxInt" "IsInEffect N a" "maxInt \<le> nCancel a \<or> maxInt \<in> setCancel a"
    and o: "\<forall>k b. m k = Some b \<longrightarrow> k \<noteq> h \<longrightarrow> \<not> Cancels N b a" and n: "h \<noteq> alert_GetHash E a"
  shows "\<exists>m' c. ProcessAlert E N cmd a0 m = (Inr True, m', c) \<and> m' h = None"
proof -
  have c: "Cancels N a f" using a f(2) by (auto simp: Cancels_def)
  have d: "drop_alerts N a m h = None" using c f(1) by (simp add: drop_alerts_def)
  have "\<not> (\<exists>b \<in> ran (drop_alerts N a m). Cancels N b a)" using o d unfolding ran_def by (auto simp: drop_alerts_Some) (metis drop_alerts_Some option.distinct(1))
  with a d n show ?thesis by (auto simp: ProcessAlert_def Let_def split: option.splits)
qed

end
