(* ===== verification/CJson.thy ===== *)
theory CJson
  imports Main
begin

text \<open>
  The JSON reader of the SuperNET server, from src/libjl777/cJSON.c: \<^verbatim>\<open>skip\<close>, \<^verbatim>\<open>parse_string\<close>, \<^verbatim>\<open>parse_number\<close>, \<^verbatim>\<open>parse_value\<close>, \<^verbatim>\<open>parse_array\<close>, \<^verbatim>\<open>parse_object\<close>,
  \<^verbatim>\<open>cJSON_Parse\<close> and \<^verbatim>\<open>cJSON_GetObjectItem\<close>. A text is the list of its characters before the terminating null character. A number is kept as its text. \<open>None\<close> is a
  text the reader refuses, or one on which it reads behind the end (a backslash sequence that is cut off).
\<close>

section \<open>Strings\<close>

definition char_code :: "char \<Rightarrow> nat" where
  "char_code c = of_char c"

definition skip :: "string \<Rightarrow> string" where
  "skip s = dropWhile (\<lambda>c. char_code c \<le> 32) s"

definition hex_value :: "char \<Rightarrow> nat option" where
  "hex_value c =
     (let n = char_code c
      in if 48 \<le> n \<and> n \<le> 57 then Some (n - 48)
         else if 65 \<le> n \<and> n \<le> 70 then Some (n - 55)
         else if 97 \<le> n \<and> n \<le> 102 then Some (n - 87)
         else None)"

fun hex_loop :: "nat \<Rightarrow> string \<Rightarrow> nat \<Rightarrow> nat" where
  "hex_loop 0 s h = h"
| "hex_loop (Suc k) [] h = 0"
| "hex_loop (Suc k) (c # s) h = (case hex_value c of None \<Rightarrow> 0 | Some d \<Rightarrow> hex_loop k s (16 * h + d))"

definition parse_hex4 :: "string \<Rightarrow> nat" where
  "parse_hex4 s = hex_loop 4 s 0"

text \<open>The bytes of a code point; the \<^verbatim>\<open>switch\<close> of the code falls through its cases from the last byte to the first.\<close>

definition utf8 :: "nat \<Rightarrow> string" where
  "utf8 uc =
     (let cont = (\<lambda>x. char_of (128 + x mod 64))
      in if uc < 128 then [char_of uc]
         else if uc < 2048 then [char_of (192 + uc div 64), cont uc]
         else if uc < 65536 then [char_of (224 + uc div 4096), cont (uc div 64), cont uc]
         else [char_of (240 + uc div 262144), cont (uc div 4096), cont (uc div 64), cont uc])"

text \<open>Behind the letter \<^verbatim>\<open>u\<close> of an escape: the bytes written and what follows.\<close>

definition parse_unicode :: "string \<Rightarrow> (string \<times> string) option" where
  "parse_unicode s =
     (if length s < 4 then None
      else
        (let uc = parse_hex4 s; rest = drop 4 s
         in if 0xDC00 \<le> uc \<and> uc \<le> 0xDFFF \<or> uc = 0 then Some ([], rest)
            else if 0xD800 \<le> uc \<and> uc \<le> 0xDBFF then
              (if take 2 rest \<noteq> [CHR 0x5C, CHR ''u''] then Some ([], rest)
               else if length rest < 6 then None
               else
                 (let uc2 = parse_hex4 (drop 2 rest)
                  in if uc2 < 0xDC00 \<or> uc2 > 0xDFFF then Some ([], drop 6 rest)
                     else Some (utf8 (0x10000 + (uc - 0xD800) * 1024 + (uc2 - 0xDC00)), drop 6 rest)))
            else Some (utf8 uc, rest)))"

definition parse_escape :: "string \<Rightarrow> (string \<times> string) option" where
  "parse_escape s =
     (case s of
        [] \<Rightarrow> None
      | c # t \<Rightarrow>
          if c = CHR ''b'' then Some ([CHR 0x08], t)
          else if c = CHR ''f'' then Some ([CHR 0x0C], t)
          else if c = CHR ''n'' then Some ([CHR 0x0A], t)
          else if c = CHR ''r'' then Some ([CHR 0x0D], t)
          else if c = CHR ''t'' then Some ([CHR 0x09], t)
          else if c = CHR ''u'' then parse_unicode t
          else Some ([c], t))"

lemma parse_escape_shorter: "parse_escape s = Some (out, t) \<Longrightarrow> length t \<le> length s"
  by (auto simp: parse_escape_def parse_unicode_def Let_def split: list.splits if_splits)

text \<open>The loop of \<^verbatim>\<open>parse_string\<close> behind the opening quote; the end of the text also ends the string.\<close>

function parse_chars :: "string \<Rightarrow> (string \<times> string) option" where
  "parse_chars [] = Some ([], [])"
| "parse_chars (c # t) =
     (if c = CHR 0x22 then Some ([], t)
      else if c \<noteq> CHR 0x5C then map_option (\<lambda>(r, u). (c # r, u)) (parse_chars t)
      else case parse_escape t of
        None \<Rightarrow> None
      | Some (out, rest) \<Rightarrow> map_option (\<lambda>(r, u). (out @ r, u)) (parse_chars rest))"
  by pat_completeness auto
termination
  by (relation "measure length") (auto dest: parse_escape_shorter)

definition parse_string :: "string \<Rightarrow> (string \<times> string) option" where
  "parse_string s = (case s of [] \<Rightarrow> None | c # t \<Rightarrow> if c = CHR 0x22 then parse_chars t else None)"

section \<open>Values\<close>

datatype cJSON =
    cJSON_NULL | cJSON_False | cJSON_True
  | cJSON_Number string
  | cJSON_String string
  | cJSON_Array "cJSON list"
  | cJSON_Object "(string \<times> cJSON) list"

definition is_digit :: "char \<Rightarrow> bool" where
  "is_digit c \<longleftrightarrow> 48 \<le> char_code c \<and> char_code c \<le> 57"

definition starts :: "char \<Rightarrow> string \<Rightarrow> bool" where
  "starts c s \<longleftrightarrow> s \<noteq> [] \<and> hd s = c"

definition number_end :: "string \<Rightarrow> string" where
  "number_end s =
     (let s1 = (if starts CHR ''-'' s then tl s else s);
          s2 = (if starts CHR ''0'' s1 then tl s1 else s1);
          s3 = (if s2 \<noteq> [] \<and> is_digit (hd s2) \<and> hd s2 \<noteq> CHR ''0'' then dropWhile is_digit s2 else s2);
          s4 = (if starts CHR ''.'' s3 \<and> tl s3 \<noteq> [] \<and> is_digit (hd (tl s3)) then dropWhile is_digit (tl s3) else s3)
      in if starts CHR ''e'' s4 \<or> starts CHR ''E'' s4 then
           (let t = tl s4 in dropWhile is_digit (if starts CHR ''+'' t \<or> starts CHR ''-'' t then tl t else t))
         else s4)"

definition parse_number :: "string \<Rightarrow> cJSON \<times> string" where
  "parse_number s = (cJSON_Number (take (length s - length (number_end s)) s), number_end s)"

text \<open>The first argument bounds the depth of calls and the number of elements.\<close>

fun parse_value :: "nat \<Rightarrow> string \<Rightarrow> (cJSON \<times> string) option"
  and parse_elements :: "nat \<Rightarrow> string \<Rightarrow> (cJSON list \<times> string) option"
  and parse_members :: "nat \<Rightarrow> string \<Rightarrow> ((string \<times> cJSON) list \<times> string) option" where
  "parse_value 0 s = None"
| "parse_value (Suc k) s =
     (if take 4 s = ''null'' then Some (cJSON_NULL, drop 4 s)
      else if take 5 s = ''false'' then Some (cJSON_False, drop 5 s)
      else if take 4 s = ''true'' then Some (cJSON_True, drop 4 s)
      else if starts CHR 0x22 s then map_option (\<lambda>(r, t). (cJSON_String r, t)) (parse_string s)
      else if starts CHR ''-'' s \<or> s \<noteq> [] \<and> is_digit (hd s) then Some (parse_number s)
      else if starts CHR ''['' s then
        (if starts CHR '']'' (skip (tl s)) then Some (cJSON_Array [], tl (skip (tl s)))
         else map_option (\<lambda>(xs, t). (cJSON_Array xs, t)) (parse_elements k (skip (tl s))))
      else if starts CHR ''{'' s then
        (if starts CHR ''}'' (skip (tl s)) then Some (cJSON_Object [], tl (skip (tl s)))
         else map_option (\<lambda>(ms, t). (cJSON_Object ms, t)) (parse_members k (skip (tl s))))
      else None)"
| "parse_elements 0 s = None"
| "parse_elements (Suc k) s =
     (case parse_value k (skip s) of
        None \<Rightarrow> None
      | Some (x, t) \<Rightarrow>
          if starts CHR '','' (skip t) then map_option (\<lambda>(xs, u). (x # xs, u)) (parse_elements k (tl (skip t)))
          else if starts CHR '']'' (skip t) then Some ([x], tl (skip t))
          else None)"
| "parse_members 0 s = None"
| "parse_members (Suc k) s =
     (case parse_string (skip s) of
        None \<Rightarrow> None
      | Some (key, t) \<Rightarrow>
          if \<not> starts CHR '':'' (skip t) then None
          else (case parse_value k (skip (tl (skip t))) of
                  None \<Rightarrow> None
                | Some (x, u) \<Rightarrow>
                    if starts CHR '','' (skip u) then map_option (\<lambda>(ms, v). ((key, x) # ms, v)) (parse_members k (tl (skip u)))
                    else if starts CHR ''}'' (skip u) then Some ([(key, x)], tl (skip u))
                    else None))"

definition cJSON_Parse :: "string \<Rightarrow> cJSON option" where
  "cJSON_Parse s = map_option fst (parse_value (2 * length s + 2) (skip s))"

section \<open>Access\<close>

definition tolower :: "char \<Rightarrow> char" where
  "tolower c = (if 65 \<le> char_code c \<and> char_code c \<le> 90 then char_of (char_code c + 32) else c)"

definition cJSON_strcasecmp :: "string \<Rightarrow> string \<Rightarrow> bool" where
  "cJSON_strcasecmp s t \<longleftrightarrow> map tolower s \<noteq> map tolower t"

definition cJSON_GetObjectItem :: "cJSON \<Rightarrow> string \<Rightarrow> cJSON option" where
  "cJSON_GetObjectItem json key =
     (case json of cJSON_Object ms \<Rightarrow> map_option snd (find (\<lambda>(k, x). \<not> cJSON_strcasecmp k key) ms) | _ \<Rightarrow> None)"

definition cJSON_GetArrayItem :: "cJSON \<Rightarrow> nat \<Rightarrow> cJSON option" where
  "cJSON_GetArrayItem json i =
     (case json of
        cJSON_Array xs \<Rightarrow> (if i < length xs then Some (xs ! i) else None)
      | cJSON_Object ms \<Rightarrow> (if i < length ms then Some (snd (ms ! i)) else None)
      | _ \<Rightarrow> None)"

section \<open>Printing strings\<close>

definition hex_digit :: "nat \<Rightarrow> char" where
  "hex_digit n = (if n < 10 then char_of (48 + n) else char_of (87 + n))"

definition print_char :: "char \<Rightarrow> string" where
  "print_char c =
     (if 31 < char_code c \<and> c \<noteq> CHR 0x22 \<and> c \<noteq> CHR 0x5C then [c]
      else CHR 0x5C #
        (if c = CHR 0x5C then [CHR 0x5C]
         else if c = CHR 0x22 then [CHR 0x22]
         else if c = CHR 0x08 then [CHR ''b'']
         else if c = CHR 0x0C then [CHR ''f'']
         else if c = CHR 0x0A then [CHR ''n'']
         else if c = CHR 0x0D then [CHR ''r'']
         else if c = CHR 0x09 then [CHR ''t'']
         else [CHR ''u'', CHR ''0'', CHR ''0'', hex_digit (char_code c div 16), hex_digit (char_code c mod 16)]))"

definition print_string_ptr :: "string \<Rightarrow> string" where
  "print_string_ptr s = CHR 0x22 # concat (map print_char s) @ [CHR 0x22]"

section \<open>What is read\<close>

text \<open>Characters that stand for themselves between quotes, and a blank or control character at neither end of a token.\<close>

definition plain_char :: "char \<Rightarrow> bool" where
  "plain_char c \<longleftrightarrow> c \<noteq> CHR 0x22 \<and> c \<noteq> CHR 0x5C \<and> 32 < char_code c"

lemma parse_chars_plain: "list_all plain_char s \<Longrightarrow> parse_chars (s @ CHR 0x22 # t) = Some (s, t)"
  by (induction s) (simp_all add: plain_char_def)

lemma parse_string_plain: "list_all plain_char s \<Longrightarrow> parse_string (CHR 0x22 # s @ CHR 0x22 # t) = Some (s, t)"
  by (simp add: parse_string_def parse_chars_plain)

lemma skip_visible [simp]: "32 < char_code c \<Longrightarrow> skip (c # s) = c # s"
  by (simp add: skip_def)

text \<open>A printed string is read back.\<close>

lemma hex_value_digit: "d < 16 \<Longrightarrow> hex_value (hex_digit d) = Some d"
  by (auto simp: hex_value_def hex_digit_def char_code_def)

lemma parse_hex4_printed:
  assumes "n < 128"
  shows "parse_hex4 (CHR ''0'' # CHR ''0'' # hex_digit (n div 16) # hex_digit (n mod 16) # t) = n"
proof -
  have z: "hex_value CHR ''0'' = Some 0" by code_simp
  have "n div 16 < 16" "n mod 16 < 16" using assms by simp_all
  moreover have four: "(4 :: nat) = Suc (Suc (Suc (Suc 0)))" by simp
  ultimately show ?thesis unfolding parse_hex4_def four by (simp add: z hex_value_digit)
qed

lemma parse_chars_control:
  assumes "char_code c < 32" and "char_code c \<noteq> 0"
  shows "parse_chars (print_char c @ t) = map_option (\<lambda>(r, u). (c # r, u)) (parse_chars t)"
proof (cases "c \<in> {CHR 0x08, CHR 0x0C, CHR 0x0A, CHR 0x0D, CHR 0x09}")
  case True
  then show ?thesis by (auto simp: print_char_def char_code_def parse_escape_def)
next
  case False
  let ?a = "hex_digit (char_code c div 16)" and ?b = "hex_digit (char_code c mod 16)"
  have "c \<noteq> CHR 0x22" "c \<noteq> CHR 0x5C" using assms(1) by (auto simp: char_code_def)
  then have p: "print_char c = CHR 0x5C # CHR ''u'' # CHR ''0'' # CHR ''0'' # ?a # ?b # []" using False assms(1) by (simp add: print_char_def)
  have "parse_unicode (CHR ''0'' # CHR ''0'' # ?a # ?b # t) = Some ([c], t)"
    using assms parse_hex4_printed [of "char_code c" t] by (simp add: parse_unicode_def utf8_def Let_def) (simp add: char_code_def)
  then show ?thesis by (simp add: p parse_escape_def)
qed

lemma parse_chars_printed: "CHR 0x00 \<notin> set s \<Longrightarrow> parse_chars (concat (map print_char s) @ CHR 0x22 # t) = Some (s, t)"
proof (induction s)
  case (Cons c s)
  have "parse_chars (print_char c @ u) = map_option (\<lambda>(r, v). (c # r, v)) (parse_chars u)" for u
  proof (cases "char_code c < 32")
    case True
    have "CHR 0x00 = char_of (0 :: nat)" by code_simp
    then have "c \<noteq> char_of (0 :: nat)" using Cons.prems by auto
    then have "char_code c \<noteq> 0" unfolding char_code_def by (metis char_of_char)
    with parse_chars_control [OF True] show ?thesis by simp
  next
    case False
    then show ?thesis by (auto simp: print_char_def parse_escape_def)
  qed
  with Cons show ?case by simp
qed simp

lemma parse_string_printed: "CHR 0x00 \<notin> set s \<Longrightarrow> parse_string (print_string_ptr s @ t) = Some (s, t)"
  by (simp add: parse_string_def print_string_ptr_def parse_chars_printed)

text \<open>More fuel does not change the result.\<close>

lemma parse_Suc:
  "(\<forall>s r. parse_value k s = Some r \<longrightarrow> parse_value (Suc k) s = Some r) \<and>
   (\<forall>s r. parse_elements k s = Some r \<longrightarrow> parse_elements (Suc k) s = Some r) \<and>
   (\<forall>s r. parse_members k s = Some r \<longrightarrow> parse_members (Suc k) s = Some r)"
proof (induction k)
  case (Suc k)
  then have v: "\<And>s r. parse_value k s = Some r \<Longrightarrow> parse_value (Suc k) s = Some r"
    and e: "\<And>s r. parse_elements k s = Some r \<Longrightarrow> parse_elements (Suc k) s = Some r"
    and m: "\<And>s r. parse_members k s = Some r \<Longrightarrow> parse_members (Suc k) s = Some r" by blast+
  have 1: "parse_value (Suc (Suc k)) s = Some r" if "parse_value (Suc k) s = Some r" for s r
    using that unfolding parse_value.simps(2) [of "Suc k" s] parse_value.simps(2) [of k s]
    by (auto simp del: parse_value.simps parse_elements.simps parse_members.simps split: if_split_asm dest: e m)
  have 2: "parse_elements (Suc (Suc k)) s = Some r" if p: "parse_elements (Suc k) s = Some r" for s r
  proof -
    obtain x t where x: "parse_value k (skip s) = Some (x, t)" using p unfolding parse_elements.simps(2) [of k s] by (cases "parse_value k (skip s)") auto
    show ?thesis using p e unfolding parse_elements.simps(2) [of "Suc k" s] parse_elements.simps(2) [of k s] x v [OF x]
      by (auto simp del: parse_value.simps parse_elements.simps split: if_split_asm)
  qed
  have 3: "parse_members (Suc (Suc k)) s = Some r" if p: "parse_members (Suc k) s = Some r" for s r
  proof -
    obtain key t where t: "parse_string (skip s) = Some (key, t)" using p unfolding parse_members.simps(2) [of k s] by (cases "parse_string (skip s)") auto
    obtain x u where x: "parse_value k (skip (tl (skip t))) = Some (x, u)"
      using p t unfolding parse_members.simps(2) [of k s] by (cases "parse_value k (skip (tl (skip t)))") (auto split: if_splits)
    show ?thesis using p m unfolding parse_members.simps(2) [of "Suc k" s] parse_members.simps(2) [of k s] t option.case prod.case x v [OF x]
      by (auto simp del: parse_value.simps parse_members.simps split: if_split_asm)
  qed
  from 1 2 3 show ?case by blast
qed simp

lemma parse_more_fuel:
  assumes "parse_value k s = Some r" and "k \<le> k'"
  shows "parse_value k' s = Some r"
  using assms(2,1) by (induction k' rule: dec_induct) (use parse_Suc in blast)+

lemma cJSON_Parse_fuel:
  assumes "parse_value k (skip s) = Some (x, t)" and "k \<le> 2 * length s + 2"
  shows "cJSON_Parse s = Some x"
  using parse_more_fuel [OF assms] by (simp add: cJSON_Parse_def)

section \<open>JSON texts\<close>

text \<open>
  Texts of the JSON grammar with the values they stand for: strings whose quotes, backslashes and control characters are escaped, arrays and objects, with blanks allowed
  behind colons and commas. Every reader of JSON returns these values for these texts.
\<close>

definition blanks :: "string \<Rightarrow> bool" where
  "blanks w \<longleftrightarrow> list_all (\<lambda>c. c = CHR 0x20) w"

inductive json_text :: "string \<Rightarrow> cJSON \<Rightarrow> bool"
  and json_elements :: "string \<Rightarrow> cJSON list \<Rightarrow> bool"
  and json_members :: "string \<Rightarrow> (string \<times> cJSON) list \<Rightarrow> bool" where
  text_string: "CHR 0x00 \<notin> set s \<Longrightarrow> json_text (print_string_ptr s) (cJSON_String s)"
| text_array: "json_elements s vs \<Longrightarrow> json_text (CHR ''['' # s @ [CHR '']'']) (cJSON_Array vs)"
| text_object: "json_members s ms \<Longrightarrow> json_text (CHR ''{'' # s @ [CHR ''}'']) (cJSON_Object ms)"
| last_element: "json_text s v \<Longrightarrow> json_elements s [v]"
| next_element: "json_text s v \<Longrightarrow> blanks w \<Longrightarrow> json_elements t vs \<Longrightarrow> json_elements (s @ CHR '','' # w @ t) (v # vs)"
| last_member: "CHR 0x00 \<notin> set k \<Longrightarrow> blanks w \<Longrightarrow> json_text s v \<Longrightarrow> json_members (print_string_ptr k @ CHR '':'' # w @ s) [(k, v)]"
| next_member: "CHR 0x00 \<notin> set k \<Longrightarrow> blanks w \<Longrightarrow> json_text s v \<Longrightarrow> blanks w' \<Longrightarrow> json_members t ms \<Longrightarrow>
    json_members (print_string_ptr k @ CHR '':'' # w @ s @ CHR '','' # w' @ t) ((k, v) # ms)"

definition reads_json :: "(string \<Rightarrow> cJSON option) \<Rightarrow> bool" where
  "reads_json read \<longleftrightarrow> (\<forall>s v. json_text s v \<longrightarrow> read s = Some v)"

lemma visible [simp]: "32 < char_code CHR 0x22" "32 < char_code CHR '':''" "32 < char_code CHR '',''" "32 < char_code CHR ''}''" "32 < char_code CHR '']''"
  "32 < char_code CHR ''{''" "32 < char_code CHR ''[''"
  by (simp_all add: char_code_def)

lemma starts_Cons [simp]: "starts c (d # s) \<longleftrightarrow> d = c"
  by (auto simp: starts_def)

lemma skip_blanks: "blanks w \<Longrightarrow> skip (w @ s) = skip s"
  by (induction w) (simp_all add: blanks_def skip_def char_code_def)

definition token_start :: "string \<Rightarrow> bool" where
  "token_start s \<longleftrightarrow> (\<exists>c t. s = c # t \<and> c \<in> {CHR 0x22, CHR ''['', CHR ''{''})"

lemma token_skip: "token_start s \<Longrightarrow> skip (s @ t) = s @ t"
  by (auto simp: token_start_def)

lemma token_not_end: "token_start s \<Longrightarrow> \<not> starts CHR '']'' (s @ t) \<and> \<not> starts CHR ''}'' (s @ t)"
  by (auto simp: token_start_def)

lemma token_string: "token_start (print_string_ptr s)"
  by (simp add: token_start_def print_string_ptr_def)

lemma parse_value_string: "CHR 0x00 \<notin> set s \<Longrightarrow> parse_value (Suc k) (print_string_ptr s @ t) = Some (cJSON_String s, t)"
  using parse_string_printed [of s t] by (simp add: print_string_ptr_def)

lemma parse_value_array:
  assumes "token_start s" and "parse_elements k (s @ CHR '']'' # t) = Some (vs, t)"
  shows "parse_value (Suc k) (CHR ''['' # s @ CHR '']'' # t) = Some (cJSON_Array vs, t)"
  using assms token_skip [OF assms(1)] token_not_end [OF assms(1)] by (simp add: is_digit_def char_code_def del: parse_elements.simps)

lemma parse_value_object:
  assumes "token_start s" and "parse_members k (s @ CHR ''}'' # t) = Some (ms, t)"
  shows "parse_value (Suc k) (CHR ''{'' # s @ CHR ''}'' # t) = Some (cJSON_Object ms, t)"
  using assms token_skip [OF assms(1)] token_not_end [OF assms(1)] by (simp add: is_digit_def char_code_def del: parse_members.simps)

lemma parse_json:
  "json_text s v \<Longrightarrow> token_start s \<and> (\<forall>k t. length s \<le> k \<longrightarrow> parse_value k (s @ t) = Some (v, t))"
  "json_elements s vs \<Longrightarrow> token_start s \<and> (\<forall>k t. length s < k \<longrightarrow> parse_elements k (s @ CHR '']'' # t) = Some (vs, t))"
  "json_members s ms \<Longrightarrow> token_start s \<and> (\<forall>k t. length s < k \<longrightarrow> parse_members k (s @ CHR ''}'' # t) = Some (ms, t))"
proof (induction rule: json_text_json_elements_json_members.inducts)
  case (text_string s)
  have "parse_value k (print_string_ptr s @ t) = Some (cJSON_String s, t)" if "length (print_string_ptr s) \<le> k" for k t
    using that parse_value_string [OF text_string] by (cases k) (simp_all add: print_string_ptr_def del: parse_value.simps)
  then show ?case by (simp add: token_string)
next
  case (text_array s vs)
  have "parse_value k ((CHR ''['' # s @ [CHR '']'']) @ t) = Some (cJSON_Array vs, t)" if "length (CHR ''['' # s @ [CHR '']'']) \<le> k" for k t
    using that text_array.IH parse_value_array [of s _ t vs] by (cases k) (simp_all del: parse_value.simps parse_elements.simps)
  then show ?case by (simp add: token_start_def)
next
  case (text_object s ms)
  have "parse_value k ((CHR ''{'' # s @ [CHR ''}'']) @ t) = Some (cJSON_Object ms, t)" if "length (CHR ''{'' # s @ [CHR ''}'']) \<le> k" for k t
    using that text_object.IH parse_value_object [of s _ t ms] by (cases k) (simp_all del: parse_value.simps parse_members.simps)
  then show ?case by (simp add: token_start_def)
next
  case (last_element s v)
  have "parse_elements k (s @ CHR '']'' # t) = Some ([v], t)" if "length s < k" for k t
    using that last_element.IH token_skip [of s] by (cases k) (simp_all del: parse_value.simps)
  then show ?case using last_element.IH by blast
next
  case (next_element s v w t vs)
  have "parse_elements k ((s @ CHR '','' # w @ t) @ CHR '']'' # u) = Some (v # vs, u)" if l: "length (s @ CHR '','' # w @ t) < k" for k u
  proof -
    obtain j where k: "k = Suc j" using l by (cases k) simp_all
    have "parse_elements j (w @ t @ CHR '']'' # u) = parse_elements j (t @ CHR '']'' # u)"
      using next_element token_skip [of t] by (cases j) (simp_all add: skip_blanks)
    with next_element l k token_skip [of s] show ?thesis by (simp del: parse_value.simps)
  qed
  then show ?case using next_element.IH(1) by (auto simp: token_start_def)
next
  case (last_member k w s v)
  have "parse_members n ((print_string_ptr k @ CHR '':'' # w @ s) @ CHR ''}'' # u) = Some ([(k, v)], u)" if l: "length (print_string_ptr k @ CHR '':'' # w @ s) < n" for n u
  proof -
    obtain j where n: "n = Suc j" using l by (cases n) simp_all
    have "length s \<le> j" using l n by simp
    then show ?thesis unfolding n parse_members.simps(2)
      using last_member token_skip [OF token_string, of k] token_skip [of s] parse_string_printed [of k]
      by (simp add: skip_blanks del: parse_value.simps)
  qed
  then show ?case using token_string [of k] by (auto simp: token_start_def)
next
  case (next_member k w s v w' t ms)
  have "parse_members n ((print_string_ptr k @ CHR '':'' # w @ s @ CHR '','' # w' @ t) @ CHR ''}'' # u) = Some ((k, v) # ms, u)"
    if l: "length (print_string_ptr k @ CHR '':'' # w @ s @ CHR '','' # w' @ t) < n" for n u
  proof -
    obtain j where n: "n = Suc j" using l by (cases n) simp_all
    have "parse_members j (w' @ t @ CHR ''}'' # u) = parse_members j (t @ CHR ''}'' # u)"
      using next_member token_skip [of t] by (cases j) (simp_all add: skip_blanks)
    moreover have "length s \<le> j" "length t < j" using l n by simp_all
    ultimately show ?thesis unfolding n parse_members.simps(2)
      using next_member token_skip [OF token_string, of k] token_skip [of s] parse_string_printed [of k]
      by (simp add: skip_blanks del: parse_value.simps)
  qed
  then show ?case using token_string [of k] by (auto simp: token_start_def)
qed

lemma cJSON_reads_json: "reads_json cJSON_Parse"
  unfolding reads_json_def
proof (intro allI impI)
  fix s v
  assume "json_text s v"
  from parse_json(1) [OF this] have "parse_value (length s) (s @ []) = Some (v, [])" and "skip (s @ []) = s @ []" using token_skip by blast+
  then show "cJSON_Parse s = Some v" using cJSON_Parse_fuel [of "length s" s v "[]"] by simp
qed

end
