(* ===== verification/SupernetApi.thy ===== *)
theory SupernetApi
  imports CJson
begin

text \<open>
  The way of a request to a SuperNET command: \<^verbatim>\<open>JSONRequest::parse\<close> of src/src/bitcoinrpc.cpp, the RPC command \<^verbatim>\<open>SuperNET\<close> of src/src/rpcdump.cpp, and the dispatcher
  \<^verbatim>\<open>SuperNET_json_commands\<close> of src/libjl777/api.h with its table of commands. The result of the dispatcher is the command it calls with the objects it hands over. Left out: the
  check that the wallet is unlocked, the local forwarding between the two processes, which wraps the text and adds the account and a token, and the commands themselves.

  The RPC server reads the body with \<^verbatim>\<open>read_string\<close> of JSON Spirit, a library on Boost's parser generator, which is an argument of \<open>SuperNET_call\<close>; of it the properties use
  only that it returns the values of JSON texts (\<open>reads_json\<close> of theory \<open>CJson\<close>).
\<close>

section \<open>The RPC request\<close>

definition find_value :: "(string \<times> cJSON) list \<Rightarrow> string \<Rightarrow> cJSON" where
  "find_value request key = (case find (\<lambda>(k, x). k = key) request of None \<Rightarrow> cJSON_NULL | Some (_, x) \<Rightarrow> x)"

definition JSONRequest_parse :: "cJSON \<Rightarrow> (string \<times> cJSON list) option" where
  "JSONRequest_parse valRequest =
     (case valRequest of
        cJSON_Object request \<Rightarrow>
          (case find_value request ''method'' of
             cJSON_String strMethod \<Rightarrow>
               (case find_value request ''params'' of
                  cJSON_Array params \<Rightarrow> Some (strMethod, params)
                | cJSON_NULL \<Rightarrow> Some (strMethod, [])
                | _ \<Rightarrow> None)
           | _ \<Rightarrow> None)
      | _ \<Rightarrow> None)"

text \<open>The text the RPC command \<^verbatim>\<open>SuperNET\<close> passes on.\<close>

definition SuperNET_params :: "cJSON list \<Rightarrow> string option" where
  "SuperNET_params params = (case params of [cJSON_String jsonstr] \<Rightarrow> Some jsonstr | _ \<Rightarrow> None)"

section \<open>The table of commands\<close>

definition commands :: "(string \<times> string list) list" where
  "commands =
     [(''stop'', []), (''GUIpoll'', []), (''BTCDpoll'', []), (''settings'', [''field'', ''value'', ''reinit'']), (''BTCDjson'', [''json'']),
      (''gotpacket'', [''msg'', ''dur'', ''ip_port'']), (''gotnewpeer'', [''ip_port'']), (''getdb'', [''contact'', ''id'', ''key'', ''dir'', ''destip'']),
      (''cosign'', [''otheracct'', ''seed'', ''text'']), (''cosigned'', [''seed'', ''result'', ''privacct'', ''pubacct'']),
      (''telepathy'', [''contact'', ''id'', ''type'', ''attach'']), (''addcontact'', [''handle'', ''acct'']), (''dispcontact'', [''contact'']),
      (''removecontact'', [''contact'']), (''findaddress'', [''refaddr'', ''list'', ''dist'', ''duration'', ''numthreads'']),
      (''ping'', [''pubkey'', ''ipaddr'', ''port'', ''destip'']), (''pong'', [''pubkey'', ''ipaddr'', ''port'', ''yourip'', ''yourport'', ''tag'']),
      (''store'', [''pubkey'', ''key'', ''name'', ''data'']), (''findnode'', [''pubkey'', ''key'', ''name'', ''data'']),
      (''havenode'', [''pubkey'', ''key'', ''name'', ''data'']), (''havenodeB'', [''pubkey'', ''key'', ''name'', ''data'']),
      (''findvalue'', [''pubkey'', ''key'', ''name'', ''data'']), (''publish'', [''files'', ''L'', ''M'', ''N'', ''backup'', ''password'', ''pin'']),
      (''getpeers'', [''scan'']), (''maketelepods'', [''amount'', ''coin'']), (''tradebot'', [''code'']), (''respondtx'', [''signedtx'']),
      (''processutx'', [''utx'', ''sig'', ''full'']), (''checkmessages'', [''sender'']), (''placebid'', [''baseid'', ''relid'', ''volume'', ''price'']),
      (''placeask'', [''baseid'', ''relid'', ''volume'', ''price'']), (''makeoffer'', [''baseid'', ''relid'', ''baseamount'', ''relamount'', ''other'', ''type'']),
      (''sendmessage'', [''dest'', ''msg'', ''L'']), (''sendbinary'', [''dest'', ''data'', ''L'']), (''orderbook'', [''baseid'', ''relid'', ''allfields'', ''oldest'']),
      (''teleport'', [''amount'', ''contact'', ''coin'', ''minage'', ''withdraw'']), (''telepodacct'', [''amount'', ''contact'', ''coin'', ''comment'', ''cmd'', ''withdraw'']),
      (''savefile'', [''fname'', ''L'', ''M'', ''N'', ''backup'', ''password'', ''pin'']),
      (''restorefile'', [''fname'', ''L'', ''M'', ''N'', ''backup'', ''password'', ''dest'', ''nrs'', ''txids'', ''pin'']),
      (''pricedb'', [''exchange'', ''base'', ''rel'', ''stop'']), (''getquotes'', [''exchange'', ''base'', ''rel'', ''oldest'']),
      (''passthru'', [''coin'', ''method'', ''params'', ''tag'']), (''remote'', [''coin'', ''method'', ''result'', ''tag'']),
      (''genmultisig'', [''coin'', ''refcontact'', ''M'', ''N'', ''contacts'', ''destip'']), (''getmsigpubkey'', [''coin'', ''refNXTaddr'', ''myaddr'', ''mypubkey'']),
      (''setmsigpubkey'', [''coin'', ''refNXTaddr'', ''addr'', ''pubkey'']),
      (''MGWdeposits'', [''NXT0'', ''NXT1'', ''NXT2'', ''ip0'', ''ip1'', ''ip2'', ''coin'', ''asset'', ''rescan'', ''actionflag'', ''specialNXT'', ''exclude0'', ''exclude1'']),
      (''MGWaddr'', [])]"

text \<open>
  \<^verbatim>\<open>copy_cJSON\<close> as the dispatcher uses it, for the name of the command: the printed text without its quotes, in a buffer of 4096 characters. The text of a value that is not a
  string is left empty; it names no command either way.
\<close>

definition copy_cJSON :: "cJSON option \<Rightarrow> string" where
  "copy_cJSON obj = (case obj of Some (cJSON_String s) \<Rightarrow> take 4095 (concat (map print_char s)) | _ \<Rightarrow> [])"

definition SuperNET_json_commands :: "int \<Rightarrow> cJSON \<Rightarrow> (string \<times> cJSON option list) option" where
  "SuperNET_json_commands valid origargjson =
     (case (case origargjson of cJSON_Array _ \<Rightarrow> cJSON_GetArrayItem origargjson 0 | _ \<Rightarrow> Some origargjson) of
        None \<Rightarrow> None
      | Some argjson \<Rightarrow>
          (case find (\<lambda>(name, params). name = copy_cJSON (cJSON_GetObjectItem argjson ''requestType'')) commands of
             None \<Rightarrow> None
           | Some (name, params) \<Rightarrow> if valid \<le> 0 then None else Some (name, map (cJSON_GetObjectItem argjson) params)))"

text \<open>The command called for the body of an RPC request.\<close>

definition SuperNET_call :: "(string \<Rightarrow> cJSON option) \<Rightarrow> int \<Rightarrow> string \<Rightarrow> (string \<times> cJSON option list) option" where
  "SuperNET_call read_string valid body =
     (case read_string body of
        None \<Rightarrow> None
      | Some request \<Rightarrow>
          (case JSONRequest_parse request of
             None \<Rightarrow> None
           | Some (strMethod, params) \<Rightarrow>
               if strMethod \<noteq> ''SuperNET'' then None
               else (case SuperNET_params params of
                       None \<Rightarrow> None
                     | Some jsonstr \<Rightarrow> (case cJSON_Parse jsonstr of None \<Rightarrow> None | Some json \<Rightarrow> SuperNET_json_commands valid json))))"

end
