(* ===== verification/SupernetJs.thy ===== *)
theory SupernetJs
  imports SupernetApi
begin

text \<open>
  The wallet page of src/libjl777/html/supernet.js: the three request builders, one click handler
  per button, and \<^verbatim>\<open>showResult\<close>. A request is the record handed to \<^verbatim>\<open>$.ajax\<close>; the page's input fields
  are a function from element ids to values; the content of the result element is the page's state.
  jQuery's \<^verbatim>\<open>.html(value)\<close> is a parameter. Strings are lists of characters up to code 255. The properties follow a request to the command that the server of theory \<open>SupernetApi\<close> calls.
\<close>

section \<open>JSON text\<close>

text \<open>\<^verbatim>\<open>JSON.stringify\<close> as the page uses it, on an object of two known keys; it escapes the characters of a string as \<^const>\<open>print_string_ptr\<close> does.\<close>

definition SuperNET_body :: "string \<Rightarrow> string" where
  "SuperNET_body params = ''{\"method\":\"SuperNET\",\"params\":['' @ print_string_ptr params @ '']}''"

section \<open>Requests\<close>

datatype http_method = GET | POST

record ajax_request =
  url :: string
  dataType :: string
  http_type :: http_method
  crossDomain :: bool
  withCredentials :: bool
  headers :: "(string \<times> string) list"
  contentType :: string
  data :: "string option"
  timeout :: nat

definition rpcport :: string where "rpcport = ''14632''"

definition initRPC :: "string \<Rightarrow> string \<Rightarrow> ajax_request" where
  "initRPC authToken body =
     \<lparr>url = ''http://127.0.0.1:'' @ rpcport, dataType = ''json'', http_type = POST, crossDomain = True,
      withCredentials = True, headers = [(''Authorization'', ''Basic '' @ authToken)],
      contentType = ''application/json'', data = Some body, timeout = 10000\<rparr>"

definition initNxtApi :: "string \<Rightarrow> ajax_request" where
  "initNxtApi qs =
     \<lparr>url = ''http://127.0.0.1:7876/nxt?'' @ qs, dataType = ''json'', http_type = GET, crossDomain = True,
      withCredentials = False, headers = [], contentType = ''application/json'', data = None, timeout = 10000\<rparr>"

definition initSuperNETrpc :: "string \<Rightarrow> string \<Rightarrow> ajax_request" where
  "initSuperNETrpc authToken params =
     \<lparr>url = ''http://127.0.0.1:'' @ rpcport, dataType = ''json'', http_type = POST, crossDomain = True,
      withCredentials = True, headers = [(''Authorization'', ''Basic '' @ authToken)],
      contentType = ''application/json'', data = Some (SuperNET_body params), timeout = 10000\<rparr>"

section \<open>Buttons\<close>

datatype button =
    btnGetBlock | btnGetAddrPrivKey | btnGetState | btnPing | btnDisplayContact | btnAddContact
  | btnRemoveContact | btnGetPeers | btnTelepathy

text \<open>Each handler with its own string literals, as the page has them.\<close>

definition on_click :: "string \<Rightarrow> (string \<Rightarrow> string) \<Rightarrow> button \<Rightarrow> ajax_request" where
  "on_click authToken val b =
     (case b of
        btnGetBlock \<Rightarrow> initRPC authToken ''{\"method\":\"getblockcount\"}''
      | btnGetAddrPrivKey \<Rightarrow>
          (let address = val ''btcdAddr''
           in initRPC authToken (''{\"method\": \"dumpprivkey\", \"params\":[\"'' @ address @ ''\"]}''))
      | btnGetState \<Rightarrow> initNxtApi ''requestType=getState''
      | btnPing \<Rightarrow> initSuperNETrpc authToken (''{\"requestType\":\"ping\",\"destip\":\"'' @ val ''pingAddr'' @ ''\"}'')
      | btnDisplayContact \<Rightarrow> initSuperNETrpc authToken ''{\"requestType\":\"dispcontact\",\"contact\":\"*\"}''
      | btnAddContact \<Rightarrow>
          initSuperNETrpc authToken
            (''{\"requestType\":\"addcontact\",\"handle\":\"'' @ val ''contactHandle'' @ ''\",\"acct\":\"'' @ val ''contactAddr'' @ ''\"}'')
      | btnRemoveContact \<Rightarrow>
          initSuperNETrpc authToken (''{\"requestType\":\"removecontact\",\"contact\":\"'' @ val ''removeContactAddr'' @ ''\"}'')
      | btnGetPeers \<Rightarrow> initSuperNETrpc authToken ''{\"requestType\":\"getpeers\"}''
      | btnTelepathy \<Rightarrow>
          initSuperNETrpc authToken
            (''{\"requestType\":\"telepathy\",\"contact\":\"'' @ val ''telepathyContact'' @ ''\",\"msg\":\"'' @ val ''telepathyMsg'' @ ''\"}''))"

section \<open>Results\<close>

text \<open>
  What comes back: the \<^verbatim>\<open>success\<close> callback with the answer's \<^verbatim>\<open>result\<close> member (or the whole answer for
  the NXT API) both as it is and as \<^verbatim>\<open>JSON.stringify\<close> renders it, or the \<^verbatim>\<open>error\<close> callback.
\<close>

datatype response = Success string string | Failure string string

definition failure_text :: "string \<Rightarrow> string \<Rightarrow> string \<Rightarrow> string" where
  "failure_text what status statusText = what @ '' status : '' @ status @ '' ( '' @ statusText @ '' )''"

definition shown_text :: "button \<Rightarrow> response \<Rightarrow> string" where
  "shown_text b r =
     (case r of
        Success plain stringified \<Rightarrow>
          if b = btnGetBlock \<or> b = btnGetAddrPrivKey \<or> b = btnGetState then stringified else plain
      | Failure status statusText \<Rightarrow>
          failure_text (if b = btnGetState then ''NXT API'' else ''RPC'') status statusText)"

definition showResult :: "(string \<Rightarrow> string \<Rightarrow> string) \<Rightarrow> string \<Rightarrow> string \<Rightarrow> string" where
  "showResult jquery_html result page = jquery_html result page"

text \<open>One interaction: a click, its answer, and the content the page shows afterwards.\<close>

definition interact ::
  "(string \<Rightarrow> string \<Rightarrow> string) \<Rightarrow> string \<Rightarrow> (string \<Rightarrow> string) \<Rightarrow> (ajax_request \<Rightarrow> response) \<Rightarrow> button \<Rightarrow> string
     \<Rightarrow> ajax_request \<times> string" where
  "interact jquery_html authToken val server b page =
     (let r = on_click authToken val b in (r, showResult jquery_html (shown_text b (server r)) page))"

section \<open>What the server calls\<close>

text \<open>The texts of the handlers, as members of an object.\<close>

fun member_text :: "(string \<times> string) list \<Rightarrow> string" where
  "member_text [] = []"
| "member_text [(k, v)] = CHR 0x22 # k @ CHR 0x22 # CHR '':'' # CHR 0x22 # v @ [CHR 0x22]"
| "member_text ((k, v) # ms) = CHR 0x22 # k @ CHR 0x22 # CHR '':'' # CHR 0x22 # v @ CHR 0x22 # CHR '','' # member_text ms"

abbreviation plain_members :: "(string \<times> string) list \<Rightarrow> bool" where
  "plain_members ms \<equiv> list_all (\<lambda>(k, v). list_all plain_char k \<and> list_all plain_char v) ms"

lemma plain_no_null: "list_all plain_char s \<Longrightarrow> CHR 0x00 \<notin> set s"
  by (induction s) (auto simp: plain_char_def char_code_def)

lemma print_plain: "list_all plain_char s \<Longrightarrow> print_string_ptr s = CHR 0x22 # s @ [CHR 0x22]"
proof -
  have "list_all plain_char s \<Longrightarrow> concat (map print_char s) = s" by (induction s) (simp_all add: print_char_def plain_char_def)
  then show "list_all plain_char s \<Longrightarrow> print_string_ptr s = CHR 0x22 # s @ [CHR 0x22]" by (simp add: print_string_ptr_def)
qed

lemma json_plain: "list_all plain_char s \<Longrightarrow> json_text (CHR 0x22 # s @ [CHR 0x22]) (cJSON_String s)"
  using text_string [OF plain_no_null] print_plain by metis

lemma blanks_simps [simp]: "blanks []" "blanks [CHR 0x20]"
  by (simp_all add: blanks_def)

lemma json_members_plain: "plain_members ms \<Longrightarrow> ms \<noteq> [] \<Longrightarrow> json_members (member_text ms) (map (\<lambda>(a, v). (a, cJSON_String v)) ms)"
proof (induction ms rule: member_text.induct)
  case (2 a v)
  then have "list_all plain_char a" "list_all plain_char v" by simp_all
  with last_member [of a "[]"] json_plain print_plain plain_no_null show ?case by simp
next
  case (3 a v m ms)
  then have p: "list_all plain_char a" "list_all plain_char v" "json_members (member_text (m # ms)) (map (\<lambda>(a, v). (a, cJSON_String v)) (m # ms))" by simp_all
  from next_member [of a "[]", OF plain_no_null _ json_plain _ p(3), of v "[]"] p print_plain [OF p(1)] show ?case by simp
qed simp

lemma json_object_plain:
  "plain_members ms \<Longrightarrow> ms \<noteq> [] \<Longrightarrow> json_text (CHR ''{'' # member_text ms @ [CHR ''}'']) (cJSON_Object (map (\<lambda>(a, v). (a, cJSON_String v)) ms))"
  by (rule text_object [OF json_members_plain])

text \<open>The body carries the text of the parameters exactly.\<close>

lemma json_SuperNET_body:
  assumes "CHR 0x00 \<notin> set params"
  shows "json_text (SuperNET_body params) (cJSON_Object [(''method'', cJSON_String ''SuperNET''), (''params'', cJSON_Array [cJSON_String params])])"
proof -
  have "json_members (print_string_ptr ''method'' @ CHR '':'' # [] @ print_string_ptr ''SuperNET'' @ CHR '','' # [] @
      print_string_ptr ''params'' @ CHR '':'' # [] @ CHR ''['' # print_string_ptr params @ [CHR '']'']) [(''method'', cJSON_String ''SuperNET''), (''params'', cJSON_Array [cJSON_String params])]"
    by (intro next_member last_member text_array last_element text_string) (simp_all add: assms)
  from text_object [OF this] show ?thesis by (simp add: SuperNET_body_def print_plain plain_char_def char_code_def)
qed

lemma plain_members_text: "plain_members ms \<Longrightarrow> CHR 0x00 \<notin> set (member_text ms)"
  by (induction ms rule: member_text.induct) (auto dest: plain_no_null)

text \<open>The command called for a request of the page.\<close>

definition called :: "(string \<Rightarrow> cJSON option) \<Rightarrow> int \<Rightarrow> ajax_request \<Rightarrow> (string \<times> cJSON option list) option" where
  "called read_string valid r = (case data r of None \<Rightarrow> None | Some body \<Rightarrow> SuperNET_call read_string valid body)"

lemma called_members:
  assumes "reads_json rs" and "plain_members ms" and "ms \<noteq> []" and "r = initSuperNETrpc authToken (CHR ''{'' # member_text ms @ [CHR ''}''])"
  shows "called rs valid r = SuperNET_json_commands valid (cJSON_Object (map (\<lambda>(a, v). (a, cJSON_String v)) ms))"
proof -
  let ?s = "CHR ''{'' # member_text ms @ [CHR ''}'']"
  have "CHR 0x00 \<notin> set ?s" using plain_members_text [OF assms(2)] by simp
  then have "rs (SuperNET_body ?s) = Some (cJSON_Object [(''method'', cJSON_String ''SuperNET''), (''params'', cJSON_Array [cJSON_String ?s])])"
    using assms(1) json_SuperNET_body by (simp add: reads_json_def)
  moreover have "cJSON_Parse ?s = Some (cJSON_Object (map (\<lambda>(a, v). (a, cJSON_String v)) ms))"
    using cJSON_reads_json json_object_plain [OF assms(2,3)] by (simp add: reads_json_def)
  ultimately show ?thesis
    by (simp add: called_def assms(4) initSuperNETrpc_def SuperNET_call_def JSONRequest_parse_def find_value_def SuperNET_params_def)
qed

lemmas dispatch = SuperNET_json_commands_def commands_def copy_cJSON_def cJSON_GetObjectItem_def cJSON_strcasecmp_def tolower_def char_code_def print_char_def

text \<open>The RPC method and parameters in a request of the page.\<close>

definition rpc_called :: "(string \<Rightarrow> cJSON option) \<Rightarrow> ajax_request \<Rightarrow> (string \<times> cJSON list) option" where
  "rpc_called read_string r =
     (case data r of None \<Rightarrow> None | Some body \<Rightarrow> (case read_string body of None \<Rightarrow> None | Some request \<Rightarrow> JSONRequest_parse request))"

lemma rpc_getblockcount: "reads_json rs \<Longrightarrow> rpc_called rs (on_click authToken val btnGetBlock) = Some (''getblockcount'', [])"
  using json_object_plain [of "[(''method'', ''getblockcount'')]"]
  by (simp add: reads_json_def rpc_called_def on_click_def initRPC_def JSONRequest_parse_def find_value_def plain_char_def char_code_def)

lemma rpc_dumpprivkey:
  assumes "reads_json rs" and "list_all plain_char (val ''btcdAddr'')"
  shows "rpc_called rs (on_click authToken val btnGetAddrPrivKey) = Some (''dumpprivkey'', [cJSON_String (val ''btcdAddr'')])"
proof -
  let ?a = "val ''btcdAddr''"
  have "json_members (print_string_ptr ''method'' @ CHR '':'' # [CHR 0x20] @ print_string_ptr ''dumpprivkey'' @ CHR '','' # [CHR 0x20] @
      print_string_ptr ''params'' @ CHR '':'' # [] @ CHR ''['' # print_string_ptr ?a @ [CHR '']'']) [(''method'', cJSON_String ''dumpprivkey''), (''params'', cJSON_Array [cJSON_String ?a])]"
    by (intro next_member last_member text_array last_element text_string) (use plain_no_null [OF assms(2)] in simp_all)
  from text_object [OF this] print_plain [OF assms(2)] assms(1)
  have "rs (''{\"method\": \"dumpprivkey\", \"params\":[\"'' @ ?a @ ''\"]}'') =
      Some (cJSON_Object [(''method'', cJSON_String ''dumpprivkey''), (''params'', cJSON_Array [cJSON_String ?a])])"
    by (simp add: reads_json_def print_plain plain_char_def char_code_def)
  then show ?thesis by (simp add: rpc_called_def on_click_def initRPC_def JSONRequest_parse_def find_value_def)
qed

section \<open>Properties\<close>







end
